(* ===== verification/Prelude.thy ===== *)
theory Prelude
  imports Complex_Main "HOL-Library.AList" "HOL-Library.Char_ord" "HOL-Library.List_Lexorder"
    "HOL-Library.Product_Lexorder" "HOL-Library.Multiset" "HOL-Library.Sublist"
begin

text \<open>
  Shared vocabulary of the development: the fragments of Rust's standard library the modelled
  code is written in, and the generic facts about them.

  \<^item> A \<open>HashMap\<close> is an association list with distinct keys (\<open>hm_ok\<close>). The order of the list
    stands for the unspecified iteration order of the Rust map: every statement below
    quantifies over all lists, so it holds for whatever order the map happens to use.
  \<^item> \<open>u32\<close> and \<open>u64\<close> values are naturals; saturating arithmetic is written out
    (\<open>u32_sat_add\<close>, \<open>u64_sat_add\<close>). \<open>saturating_sub\<close> is the truncating subtraction on
    naturals.
  \<^item> A string is the list of its UTF-8 bytes, which is what \<open>str::len\<close> counts and what the
    ordering of \<open>String\<close> compares.
  \<^item> An \<open>Instant\<close> is a natural number of nanoseconds. \<open>Instant::duration_since\<close> saturates at
    zero, as subtraction on naturals does.
\<close>

named_theorems table_simps \<open>what an operation on a bounded table does to its size and keys\<close>

section \<open>Unsigned integers\<close>

abbreviation (input) u32_max :: nat where "u32_max \<equiv> 4294967295"
abbreviation (input) u64_max :: nat where "u64_max \<equiv> 18446744073709551615"

definition u32_sat_add :: "nat \<Rightarrow> nat \<Rightarrow> nat" where
  "u32_sat_add a b = min (a + b) u32_max"

definition u64_sat_add :: "nat \<Rightarrow> nat \<Rightarrow> nat" where
  "u64_sat_add a b = min (a + b) u64_max"

definition u64_sat_mul :: "nat \<Rightarrow> nat \<Rightarrow> nat" where
  "u64_sat_mul a b = min (a * b) u64_max"

section \<open>Strings as UTF-8 bytes\<close>

text \<open>The UTF-8 encodings of the Unicode \<open>White_Space\<close> code points, which \<open>str::trim\<close> strips.\<close>

definition ws_seqs :: "string list" where
  "ws_seqs =
     [[CHR 0x09], [CHR 0x0A], [CHR 0x0B], [CHR 0x0C], [CHR 0x0D], [CHR 0x20],
      [CHR 0xC2, CHR 0x85], [CHR 0xC2, CHR 0xA0], [CHR 0xE1, CHR 0x9A, CHR 0x80]]
     @ map (\<lambda>b. [CHR 0xE2, CHR 0x80, b])
         [CHR 0x80, CHR 0x81, CHR 0x82, CHR 0x83, CHR 0x84, CHR 0x85, CHR 0x86, CHR 0x87,
          CHR 0x88, CHR 0x89, CHR 0x8A, CHR 0xA8, CHR 0xA9, CHR 0xAF]
     @ [[CHR 0xE2, CHR 0x81, CHR 0x9F], [CHR 0xE3, CHR 0x80, CHR 0x80]]"

text \<open>Drop, as long as possible, one of the given non-empty sequences from the front.\<close>

function strip_front :: "string list \<Rightarrow> string \<Rightarrow> string" where
  "strip_front ws s =
     (case find (\<lambda>w. w \<noteq> [] \<and> prefix w s) ws of
        None \<Rightarrow> s
      | Some w \<Rightarrow> strip_front ws (drop (length w) s))"
  by pat_completeness auto
termination
  by (relation "measure (\<lambda>(ws, s). length s)") (auto simp: find_Some_iff prefix_def)

declare strip_front.simps [simp del]

definition str_trim :: "string \<Rightarrow> string" where
  "str_trim s = rev (strip_front (map rev ws_seqs) (rev (strip_front ws_seqs s)))"

definition ascii_lower :: "char \<Rightarrow> char" where
  "ascii_lower c =
     (let n = of_char c :: nat
      in if 65 \<le> n \<and> n \<le> 90 then char_of (n + 32) else c)"

definition to_ascii_lowercase :: "string \<Rightarrow> string" where
  "to_ascii_lowercase s = map ascii_lower s"

definition is_ascii_hexdigit :: "char \<Rightarrow> bool" where
  "is_ascii_hexdigit c =
     (let n = of_char c :: nat
      in 48 \<le> n \<and> n \<le> 57 \<or> 65 \<le> n \<and> n \<le> 70 \<or> 97 \<le> n \<and> n \<le> 102)"

definition is_lower_hexdigit :: "char \<Rightarrow> bool" where
  "is_lower_hexdigit c =
     (let n = of_char c :: nat
      in 48 \<le> n \<and> n \<le> 57 \<or> 97 \<le> n \<and> n \<le> 102)"

section \<open>Iterators and maps\<close>

text \<open>\<open>Iterator::min_by_key\<close>: the first of the elements with the least key.\<close>

fun min_by_key :: "('a \<Rightarrow> 'b::linorder) \<Rightarrow> 'a list \<Rightarrow> 'a option" where
  "min_by_key f [] = None"
| "min_by_key f (x # xs) =
     (case min_by_key f xs of
        None \<Rightarrow> Some x
      | Some y \<Rightarrow> if f x \<le> f y then Some x else Some y)"

text \<open>A \<open>BTreeMap\<close> is an association list in ascending order of its keys.\<close>

fun bt_insert :: "'k::linorder \<Rightarrow> 'v \<Rightarrow> ('k \<times> 'v) list \<Rightarrow> ('k \<times> 'v) list" where
  "bt_insert k v [] = [(k, v)]"
| "bt_insert k v ((k', v') # m) =
     (if k < k' then (k, v) # (k', v') # m
      else if k = k' then (k, v) # m
      else (k', v') # bt_insert k v m)"

definition bt_ok :: "('k::linorder \<times> 'v) list \<Rightarrow> bool" where
  "bt_ok m \<longleftrightarrow> sorted_wrt (<) (map fst m)"

definition hm_ok :: "('k \<times> 'v) list \<Rightarrow> bool" where
  "hm_ok m \<longleftrightarrow> distinct (map fst m)"

section \<open>Facts about integers\<close>

lemma u32_sat_add_le [simp]: "u32_sat_add a b \<le> u32_max"
  by (simp add: u32_sat_add_def)

lemma u64_sat_add_le [simp]: "u64_sat_add a b \<le> u64_max"
  by (simp add: u64_sat_add_def)

lemma u64_sat_add_gt_iff: "c < u64_max \<Longrightarrow> c < u64_sat_add a b \<longleftrightarrow> c < a + b"
  by (auto simp: u64_sat_add_def)

section \<open>Facts about strings\<close>

lemma ascii_lower_idem [simp]: "ascii_lower (ascii_lower c) = ascii_lower c"
proof -
  have "(of_char (char_of (of_char c + 32 :: nat)) :: nat) = of_char c + 32"
    if "(of_char c :: nat) \<le> 90"
    using that by simp
  then show ?thesis
    by (auto simp: ascii_lower_def Let_def)
qed

lemma to_ascii_lowercase_idem [simp]:
  "to_ascii_lowercase (to_ascii_lowercase s) = to_ascii_lowercase s"
  by (simp add: to_ascii_lowercase_def)

lemma length_to_ascii_lowercase [simp]: "length (to_ascii_lowercase s) = length s"
  by (simp add: to_ascii_lowercase_def)

lemma ascii_lower_fixed: "is_lower_hexdigit c \<Longrightarrow> ascii_lower c = c"
  by (auto simp: is_lower_hexdigit_def ascii_lower_def Let_def)

lemma hexdigit_ascii_lower:
  "is_ascii_hexdigit (ascii_lower c) \<Longrightarrow> is_lower_hexdigit (ascii_lower c)"
  by (auto simp: is_ascii_hexdigit_def is_lower_hexdigit_def ascii_lower_def Let_def
      split: if_splits)

lemma lower_hexdigit_ascii: "is_lower_hexdigit c \<Longrightarrow> is_ascii_hexdigit c"
  by (auto simp: is_ascii_hexdigit_def is_lower_hexdigit_def Let_def)

lemma to_ascii_lowercase_fixed:
  "list_all is_lower_hexdigit s \<Longrightarrow> to_ascii_lowercase s = s"
  by (induction s) (auto simp: to_ascii_lowercase_def ascii_lower_fixed)

text \<open>A string none of whose bytes starts a sequence is left alone by the stripping loop.\<close>

lemma strip_front_id:
  assumes "\<forall>w \<in> set ws. w \<noteq> [] \<longrightarrow> (case s of [] \<Rightarrow> True | c # _ \<Rightarrow> c \<noteq> hd w)"
  shows "strip_front ws s = s"
proof -
  have "find (\<lambda>w. w \<noteq> [] \<and> prefix w s) ws = None"
    using assms by (fastforce simp: find_None_iff prefix_def neq_Nil_conv)
  then show ?thesis by (simp add: strip_front.simps [of ws s])
qed

text \<open>The first and the last bytes of the whitespace encodings, as numbers.\<close>

lemma ws_seqs_bounds:
  "w \<in> set ws_seqs \<Longrightarrow> w \<noteq> [] \<and>
     (of_char (hd w) \<le> (32::nat) \<or> (128::nat) \<le> of_char (hd w)) \<and>
     (of_char (hd (rev w)) \<le> (32::nat) \<or> (128::nat) \<le> of_char (hd (rev w)))"
  by (auto simp: ws_seqs_def)

lemma str_trim_graphic:
  assumes "\<forall>c \<in> set s. 32 < (of_char c :: nat) \<and> of_char c < (128::nat)"
  shows "str_trim s = s"
proof -
  have front: "strip_front ws_seqs s = s"
    using assms by (intro strip_front_id) (force split: list.splits dest!: ws_seqs_bounds)
  have "strip_front (map rev ws_seqs) (rev s) = rev s"
  proof (intro strip_front_id ballI impI)
    fix w assume "w \<in> set (map rev ws_seqs)" "w \<noteq> []"
    then have "of_char (hd w) \<le> (32::nat) \<or> (128::nat) \<le> of_char (hd w)"
      by (auto dest!: ws_seqs_bounds)
    moreover have "\<forall>c \<in> set (rev s). 32 < (of_char c :: nat) \<and> of_char c < (128::nat)"
      using assms by simp
    ultimately show "case rev s of [] \<Rightarrow> True | c # _ \<Rightarrow> c \<noteq> hd w"
      by (cases "rev s") auto
  qed
  with front show ?thesis by (simp add: str_trim_def)
qed

lemma str_trim_lower_hex: "list_all is_lower_hexdigit s \<Longrightarrow> str_trim s = s"
  by (rule str_trim_graphic) (auto simp: list_all_iff is_lower_hexdigit_def Let_def)

section \<open>Facts about iterators and maps\<close>

lemma min_by_key_None_iff [simp]: "min_by_key f xs = None \<longleftrightarrow> xs = []"
  by (cases xs) (auto split: option.splits)

lemma min_by_key_in: "min_by_key f xs = Some x \<Longrightarrow> x \<in> set xs"
  by (induction xs arbitrary: x) (auto split: option.splits if_splits)

lemma min_by_key_le: "min_by_key f xs = Some x \<Longrightarrow> y \<in> set xs \<Longrightarrow> f x \<le> f y"
  by (induction xs arbitrary: x) (fastforce split: option.splits if_splits)+

lemma hm_ok_Nil [simp]: "hm_ok []"
  by (simp add: hm_ok_def)

lemma hm_ok_filter [simp]: "hm_ok m \<Longrightarrow> hm_ok (filter P m)"
  by (auto simp: hm_ok_def distinct_map intro: inj_on_subset)

lemma hm_ok_update [simp]: "hm_ok m \<Longrightarrow> hm_ok (AList.update k v m)"
  by (simp add: hm_ok_def distinct_update)

lemma hm_ok_delete [simp]: "hm_ok m \<Longrightarrow> hm_ok (AList.delete k m)"
  by (simp add: hm_ok_def distinct_delete)

lemma hm_in_set_iff: "hm_ok m \<Longrightarrow> (k, v) \<in> set m \<longleftrightarrow> map_of m k = Some v"
  by (simp add: hm_ok_def)

lemma in_set_update:
  "p \<in> set (AList.update k v m) \<Longrightarrow> p = (k, v) \<or> p \<in> set m"
  by (induction m) (auto split: if_splits)

lemma length_update [table_simps]:
  "length (AList.update k v m) = (if k \<in> fst ` set m then length m else Suc (length m))"
  by (induction m) auto

lemma length_delete [table_simps]:
  "hm_ok m \<Longrightarrow> length (AList.delete k m) = (if k \<in> fst ` set m then length m - 1 else length m)"
proof (induction m)
  case (Cons p m)
  have "length (AList.delete k m) = length m" if "k \<notin> fst ` set m"
    using that by (induction m) auto
  moreover have "0 < length m" if "k \<in> fst ` set m"
    using that by auto
  ultimately show ?case using Cons by (cases p) (auto simp: hm_ok_def)
qed simp

lemma in_keys_map_of: "k \<in> fst ` set m \<longleftrightarrow> map_of m k \<noteq> None"
  by (simp add: map_of_eq_None_iff)

lemma delete_absent: "map_of m k = None \<Longrightarrow> AList.delete k m = m"
  by (force simp: AList.delete_eq filter_id_conv map_of_eq_None_iff)

lemma mset_delete_hm:
  "hm_ok m \<Longrightarrow> map_of m k = Some v \<Longrightarrow> mset m = add_mset (k, v) (mset (AList.delete k m))"
proof (induction m)
  case (Cons x m)
  obtain a b where x: "x = (a, b)" by (cases x)
  show ?case
  proof (cases "a = k")
    case True
    with Cons.prems have "k \<notin> fst ` set m" "b = v" by (auto simp: x hm_ok_def)
    then have "AList.delete k m = m"
      by (simp add: delete_absent map_of_eq_None_iff)
    with True \<open>b = v\<close> show ?thesis by (simp add: x)
  next
    case False
    with Cons show ?thesis by (simp add: x hm_ok_def)
  qed
qed simp

lemma mset_update_hm:
  "hm_ok m \<Longrightarrow> mset (AList.update k v m) = add_mset (k, v) (mset (AList.delete k m))"
proof (induction m)
  case (Cons x m)
  then show ?case
    by (cases x) (auto simp: hm_ok_def delete_absent map_of_eq_None_iff)
qed simp

lemma map_of_filter_keyed:
  assumes "hm_ok m"
  shows "map_of (filter P m) k =
    (case map_of m k of None \<Rightarrow> None | Some v \<Rightarrow> if P (k, v) then Some v else None)"
proof (cases "map_of m k")
  case None
  then have "map_of (filter P m) k = None"
    by (auto simp: map_of_eq_None_iff)
  with None show ?thesis by simp
next
  case (Some v)
  show ?thesis
  proof (cases "P (k, v)")
    case True
    have "(k, v) \<in> set (filter P m)"
      using Some True assms by (simp add: hm_in_set_iff)
    with Some True assms show ?thesis
      by (simp add: hm_in_set_iff [OF hm_ok_filter, symmetric])
  next
    case False
    have "k \<notin> fst ` set (filter P m)"
    proof
      assume "k \<in> fst ` set (filter P m)"
      then obtain v' where "(k, v') \<in> set m" "P (k, v')" by auto
      with assms Some False show False by (simp add: hm_in_set_iff)
    qed
    then have "map_of (filter P m) k = None"
      by (simp add: map_of_eq_None_iff)
    with Some False show ?thesis by simp
  qed
qed

text \<open>Inserting above every key appends.\<close>

lemma bt_insert_append: "\<forall>k' \<in> fst ` set m. k' < k \<Longrightarrow> bt_insert k v m = m @ [(k, v)]"
  by (induction k v m rule: bt_insert.induct) auto

lemma set_bt_insert: "set (bt_insert k v m) \<subseteq> insert (k, v) (set m)"
  by (induction k v m rule: bt_insert.induct) auto

lemma keys_bt_insert: "fst ` set (bt_insert k v m) = insert k (fst ` set m)"
  by (induction k v m rule: bt_insert.induct) auto

lemma bt_ok_insert: "bt_ok m \<Longrightarrow> bt_ok (bt_insert k v m)"
proof (induction k v m rule: bt_insert.induct)
  case (2 k v k' v' m)
  have "\<forall>x \<in> fst ` set (bt_insert k v m). k' < x" if "k' < k"
    using that 2(2) unfolding keys_bt_insert by (auto simp: bt_ok_def)
  with 2 show ?case by (auto simp: bt_ok_def)
qed (simp add: bt_ok_def)

lemma map_of_bt_insert: "bt_ok m \<Longrightarrow> map_of (bt_insert k v m) = (map_of m)(k \<mapsto> v)"
proof (induction k v m rule: bt_insert.induct)
  case (2 k v k' v' m)
  then show ?case by (auto simp: bt_ok_def fun_eq_iff)
qed simp

lemma bt_ok_hm_ok: "bt_ok m \<Longrightarrow> hm_ok m"
  by (simp add: bt_ok_def hm_ok_def strict_sorted_iff)

lemma bt_ok_append_last: "bt_ok m \<Longrightarrow> \<forall>k' \<in> fst ` set m. k' < k \<Longrightarrow> bt_ok (m @ [(k, v)])"
  by (auto simp: bt_ok_def sorted_wrt_append)

lemma bt_ok_filter: "bt_ok m \<Longrightarrow> bt_ok (filter P m)"
  unfolding bt_ok_def by (induction m) (auto simp: sorted_wrt_append)

lemma bt_ok_delete: "bt_ok m \<Longrightarrow> bt_ok (AList.delete k m)"
  unfolding AList.delete_eq by (rule bt_ok_filter)

lemma bt_ok_tl: "bt_ok m \<Longrightarrow> bt_ok (tl m)"
  by (cases m) (auto simp: bt_ok_def)

lemma subseq_distinct: "subseq xs ys \<Longrightarrow> distinct ys \<Longrightarrow> distinct xs"
  by (metis distinct_nthsI subseq_conv_nths)

lemma set_map_filter: "set (List.map_filter f xs) = {y. \<exists>x \<in> set xs. f x = Some y}"
  by (induction xs) (auto simp: map_filter_simps split: option.splits)

end
