(* ===== verification/Contracts.thy ===== *)
theory Contracts
  imports Prelude
begin

text \<open>
  The interfaces the components are verified against.

  \<^item> \<open>bounded_table\<close>: a table a remote party can write to. Whatever it is sent, its size stays
    inside its limit.
  \<^item> \<open>metered\<close>: an admission gate fed by events that carry a time. What it admits is paid for
    out of a balance that grows at a fixed rate, so the number of admissions over a run is
    bounded by the opening balance plus what the elapsed time has added.
\<close>

text \<open>Nanoseconds to seconds, as \<open>Duration::as_secs_f64\<close> reads them.\<close>

definition secs :: "nat \<Rightarrow> real" where
  "secs n = real n / 1000000000"

text \<open>Run a gate over a list of events: how many were admitted, and the final state.\<close>

fun run_gate :: "('e \<Rightarrow> 's \<Rightarrow> bool \<times> 's) \<Rightarrow> 'e list \<Rightarrow> 's \<Rightarrow> nat \<times> 's" where
  "run_gate g [] s = (0, s)"
| "run_gate g (e # es) s =
     (let (a, s') = g e s; (n, s'') = run_gate g es s'
      in (n + (if a then 1 else 0), s''))"

text \<open>The events of a run happen at times that do not go back, from \<open>t\<close> on.\<close>

fun timed_from :: "('e \<Rightarrow> nat) \<Rightarrow> nat \<Rightarrow> 'e list \<Rightarrow> bool" where
  "timed_from tm t [] = True"
| "timed_from tm t (e # es) = (t \<le> tm e \<and> timed_from tm (tm e) es)"

fun last_time :: "('e \<Rightarrow> nat) \<Rightarrow> nat \<Rightarrow> 'e list \<Rightarrow> nat" where
  "last_time tm t [] = t"
| "last_time tm t (e # es) = last_time tm (tm e) es"

lemma secs_nonneg [simp]: "0 \<le> secs n"
  by (simp add: secs_def)

lemma secs_mono: "m \<le> n \<Longrightarrow> secs m \<le> secs n"
  by (simp add: secs_def)

lemma secs_0 [simp]: "secs 0 = 0"
  by (simp add: secs_def)

lemma secs_diff_split: "a \<le> b \<Longrightarrow> b \<le> c \<Longrightarrow> secs (c - a) = secs (b - a) + secs (c - b)"
  by (simp add: secs_def field_simps)

lemma last_time_ge: "timed_from tm t es \<Longrightarrow> t \<le> last_time tm t es"
  by (induction es arbitrary: t) force+

text \<open>Times in another unit.\<close>

lemma timed_from_scale: "0 < k \<Longrightarrow> timed_from (\<lambda>e. tm e * k) (t * k) es = timed_from tm t es"
  by (induction es arbitrary: t) auto

lemma last_time_scale: "last_time (\<lambda>e. tm e * k) (t * k) es = last_time tm t es * k"
  by (induction es arbitrary: t) auto

section \<open>Tables bounded against a remote writer\<close>

locale bounded_table =
  fixes size_of :: "'s \<Rightarrow> nat"
    and limit :: "'s \<Rightarrow> nat"
    and ok :: "'s \<Rightarrow> bool"
    and step :: "'i \<Rightarrow> 's \<Rightarrow> 's"
  assumes ok_step: "ok s \<Longrightarrow> ok (step i s)"
    and limit_step: "ok s \<Longrightarrow> limit (step i s) = limit s"
    and bound_step: "ok s \<Longrightarrow> size_of s \<le> limit s \<Longrightarrow> size_of (step i s) \<le> limit s"
begin

lemma run_ok: "ok s \<Longrightarrow> ok (fold step is s)"
  by (induction "is" arbitrary: s) (auto intro: ok_step)

lemma run_limit: "ok s \<Longrightarrow> limit (fold step is s) = limit s"
  by (induction "is" arbitrary: s) (auto simp: limit_step ok_step)

lemma run_bound:
  "ok s \<Longrightarrow> size_of s \<le> limit s \<Longrightarrow> size_of (fold step is s) \<le> limit s"
proof (induction "is" arbitrary: s)
  case (Cons i "is")
  then have "size_of (step i s) \<le> limit (step i s)"
    by (simp add: limit_step bound_step)
  then have "size_of (fold step is (step i s)) \<le> limit (step i s)"
    using Cons.prems by (intro Cons.IH ok_step)
  then show ?case using Cons.prems by (simp add: limit_step)
qed simp

end

section \<open>Metered admission\<close>

locale metered =
  fixes step :: "'e \<Rightarrow> 's \<Rightarrow> bool \<times> 's"
    and tm :: "'e \<Rightarrow> nat"
    and balance :: "'s \<Rightarrow> nat \<Rightarrow> real"
    and ok :: "'s \<Rightarrow> nat \<Rightarrow> bool"
    and rate :: real
  assumes ok_step: "ok s t \<Longrightarrow> t \<le> tm e \<Longrightarrow> ok (snd (step e s)) (tm e)"
    and pays: "ok s t \<Longrightarrow> t \<le> tm e \<Longrightarrow>
      balance (snd (step e s)) (tm e) + (if fst (step e s) then 1 else 0) \<le> balance s (tm e)"
    and accrues: "ok s t \<Longrightarrow> t \<le> t' \<Longrightarrow> balance s t' \<le> balance s t + rate * secs (t' - t)"
    and nonneg: "ok s t \<Longrightarrow> 0 \<le> balance s t"
begin

lemma run_accounts:
  "ok s t \<Longrightarrow> timed_from tm t es \<Longrightarrow>
     ok (snd (run_gate step es s)) (last_time tm t es) \<and>
     real (fst (run_gate step es s)) + balance (snd (run_gate step es s)) (last_time tm t es)
       \<le> balance s t + rate * secs (last_time tm t es - t)"
proof (induction es arbitrary: s t)
  case (Cons e es)
  obtain a s1 where st: "step e s = (a, s1)" by fastforce
  obtain n s2 where rn: "run_gate step es s1 = (n, s2)" by fastforce
  let ?T = "last_time tm (tm e) es"
  have t: "t \<le> tm e" "timed_from tm (tm e) es" using Cons.prems by auto
  have ok1: "ok s1 (tm e)" using ok_step [OF Cons.prems(1) t(1)] st by simp
  have IH: "ok s2 ?T" "n + balance s2 ?T \<le> balance s1 (tm e) + rate * secs (?T - tm e)"
    using Cons.IH [OF ok1 t(2)] rn by simp_all
  have "balance s1 (tm e) + (if a then 1 else 0) \<le> balance s (tm e)"
    using pays [OF Cons.prems(1) t(1)] st by simp
  moreover have "balance s (tm e) \<le> balance s t + rate * secs (tm e - t)"
    by (rule accrues [OF Cons.prems(1) t(1)])
  moreover have "secs (?T - t) = secs (tm e - t) + secs (?T - tm e)"
    using t last_time_ge [OF t(2)] by (intro secs_diff_split) auto
  ultimately show ?case
    using IH st rn by (auto simp: algebra_simps split: if_splits)
qed simp

lemma run_bound:
  assumes "ok s t" "timed_from tm t es"
  shows "real (fst (run_gate step es s)) \<le> balance s t + rate * secs (last_time tm t es - t)"
  using run_accounts [OF assms] nonneg [of "snd (run_gate step es s)"] by fastforce

end

end
