(* ===== verification/Rate_Limit.thy ===== *)
theory Rate_Limit
  imports Contracts
begin

text \<open>
  The per-requestor limiter in front of the miss lookup (\<open>dig-node-core/src/rate_limit.rs\<close>):
  the requestor keys, the token bucket and the registry of buckets with its eviction rule.

  \<open>f64\<close> quantities are exact reals. The instant read by \<open>Instant::now()\<close> inside a critical
  section is the argument \<open>now\<close>; one call of an operation reads one instant. The mutexes
  serialise the calls, so a history of the limiter is a sequence of calls.
\<close>

section \<open>Requestors\<close>

datatype read_origin = OriginLocal | OriginPeer

datatype requestor_id = Local | Peer string | Anonymous string

definition from_origin :: "read_origin \<Rightarrow> requestor_id" where
  "from_origin origin =
     (case origin of OriginLocal \<Rightarrow> Local | OriginPeer \<Rightarrow> Peer '''')"

definition is_local :: "requestor_id \<Rightarrow> bool" where
  "is_local r = (case r of Local \<Rightarrow> True | _ \<Rightarrow> False)"

definition requestor_key :: "requestor_id \<Rightarrow> string" where
  "requestor_key r =
     (case r of
        Local \<Rightarrow> ''local''
      | Peer i \<Rightarrow> ''peer:'' @ i
      | Anonymous ip \<Rightarrow> ''anon:'' @ ip)"

section \<open>The token bucket\<close>

record bucket_state =
  tokens :: real
  last_refill :: nat

record token_bucket =
  tb_capacity :: real
  tb_refill_per_sec :: real
  tb_state :: bucket_state

definition token_bucket_new :: "real \<Rightarrow> real \<Rightarrow> nat \<Rightarrow> token_bucket" where
  "token_bucket_new capacity refill_per_sec now =
     \<lparr>tb_capacity = max capacity 0, tb_refill_per_sec = max refill_per_sec 0,
      tb_state = \<lparr>tokens = max capacity 0, last_refill = now\<rparr>\<rparr>"

definition refill :: "bucket_state \<Rightarrow> real \<Rightarrow> real \<Rightarrow> nat \<Rightarrow> bucket_state" where
  "refill st capacity refill_per_sec now =
     (let elapsed = secs (now - last_refill st)
      in \<lparr>tokens = min (tokens st + elapsed * refill_per_sec) capacity, last_refill = now\<rparr>)"

definition try_acquire :: "nat \<Rightarrow> token_bucket \<Rightarrow> bool \<times> token_bucket" where
  "try_acquire now b =
     (let st = refill (tb_state b) (tb_capacity b) (tb_refill_per_sec b) now
      in if tokens st \<ge> 1
         then (True, b\<lparr>tb_state := st\<lparr>tokens := tokens st - 1\<rparr>\<rparr>)
         else (False, b\<lparr>tb_state := st\<rparr>))"

definition is_full :: "nat \<Rightarrow> token_bucket \<Rightarrow> bool \<times> token_bucket" where
  "is_full now b =
     (let st = refill (tb_state b) (tb_capacity b) (tb_refill_per_sec b) now
      in (tokens st \<ge> tb_capacity b, b\<lparr>tb_state := st\<rparr>))"

section \<open>The limiter\<close>

definition DEFAULT_MISS_LOOKUP_BURST :: real where "DEFAULT_MISS_LOOKUP_BURST = 16"
definition DEFAULT_MISS_LOOKUP_REFILL_PER_SEC :: real where "DEFAULT_MISS_LOOKUP_REFILL_PER_SEC = 4"
definition DEFAULT_PROXY_FETCH_BURST :: real where "DEFAULT_PROXY_FETCH_BURST = 4"
definition DEFAULT_PROXY_FETCH_REFILL_PER_SEC :: real where "DEFAULT_PROXY_FETCH_REFILL_PER_SEC = 1"
definition DEFAULT_RELAY_ASK_BURST :: real where "DEFAULT_RELAY_ASK_BURST = 4"
definition DEFAULT_RELAY_ASK_REFILL_PER_SEC :: real where "DEFAULT_RELAY_ASK_REFILL_PER_SEC = 1"
definition MAX_TRACKED_REQUESTORS :: nat where "MAX_TRACKED_REQUESTORS = 4096"

record miss_rate_limiter =
  lim_capacity :: real
  lim_refill_per_sec :: real
  buckets :: "(string \<times> token_bucket) list"

definition limiter_new :: "real \<Rightarrow> real \<Rightarrow> miss_rate_limiter" where
  "limiter_new capacity refill_per_sec =
     \<lparr>lim_capacity = capacity, lim_refill_per_sec = refill_per_sec, buckets = []\<rparr>"

definition limiter_with_defaults :: miss_rate_limiter where
  "limiter_with_defaults =
     limiter_new DEFAULT_MISS_LOOKUP_BURST DEFAULT_MISS_LOOKUP_REFILL_PER_SEC"

definition limiter_with_proxy_defaults :: miss_rate_limiter where
  "limiter_with_proxy_defaults =
     limiter_new DEFAULT_PROXY_FETCH_BURST DEFAULT_PROXY_FETCH_REFILL_PER_SEC"

definition limiter_with_relay_defaults :: miss_rate_limiter where
  "limiter_with_relay_defaults =
     limiter_new DEFAULT_RELAY_ASK_BURST DEFAULT_RELAY_ASK_REFILL_PER_SEC"

text \<open>\<open>retain(|_, bucket| !bucket.is_full())\<close>: the test refills every bucket it looks at.\<close>

definition reclaim_idle :: "nat \<Rightarrow> (string \<times> token_bucket) list \<Rightarrow> (string \<times> token_bucket) list" where
  "reclaim_idle now bs =
     map (\<lambda>(k, b). (k, snd (is_full now b))) (filter (\<lambda>(k, b). \<not> fst (is_full now b)) bs)"

definition limiter_check :: "requestor_id \<Rightarrow> nat \<Rightarrow> miss_rate_limiter \<Rightarrow> bool \<times> miss_rate_limiter" where
  "limiter_check requestor now self =
     (let key = requestor_key requestor;
          saturated = (map_of (buckets self) key = None
                       \<and> length (buckets self) \<ge> MAX_TRACKED_REQUESTORS);
          bs = (if saturated then reclaim_idle now (buckets self) else buckets self)
      in if saturated \<and> length bs \<ge> MAX_TRACKED_REQUESTORS
         then (False, self\<lparr>buckets := bs\<rparr>)
         else let b = (case map_of bs key of
                         Some b \<Rightarrow> b
                       | None \<Rightarrow> token_bucket_new (lim_capacity self) (lim_refill_per_sec self) now);
                  (admitted, b') = try_acquire now b
              in (admitted, self\<lparr>buckets := AList.update key b' bs\<rparr>))"

section \<open>Invariants and balances\<close>

text \<open>A bucket of a limiter with the given parameters, at a time no earlier than its last refill.\<close>

definition bucket_ok :: "real \<Rightarrow> real \<Rightarrow> nat \<Rightarrow> token_bucket \<Rightarrow> bool" where
  "bucket_ok cap rate t b \<longleftrightarrow>
     tb_capacity b = max cap 0 \<and> tb_refill_per_sec b = max rate 0 \<and>
     0 \<le> tokens (tb_state b) \<and> tokens (tb_state b) \<le> max cap 0 \<and> last_refill (tb_state b) \<le> t"

text \<open>The tokens a bucket would have at time \<open>t\<close>.\<close>

definition bucket_balance :: "token_bucket \<Rightarrow> nat \<Rightarrow> real" where
  "bucket_balance b t =
     tokens (refill (tb_state b) (tb_capacity b) (tb_refill_per_sec b) t)"

definition limiter_ok :: "miss_rate_limiter \<Rightarrow> nat \<Rightarrow> bool" where
  "limiter_ok self t \<longleftrightarrow>
     hm_ok (buckets self) \<and> length (buckets self) \<le> MAX_TRACKED_REQUESTORS \<and>
     (\<forall>(k, b) \<in> set (buckets self). bucket_ok (lim_capacity self) (lim_refill_per_sec self) t b)"

text \<open>What a requestor can spend at time \<open>t\<close>; one without a bucket has the full burst.\<close>

definition limiter_balance :: "requestor_id \<Rightarrow> miss_rate_limiter \<Rightarrow> nat \<Rightarrow> real" where
  "limiter_balance r self t =
     (case map_of (buckets self) (requestor_key r) of
        None \<Rightarrow> max (lim_capacity self) 0
      | Some b \<Rightarrow> bucket_balance b t)"

section \<open>Facts about requestors and buckets\<close>

lemma requestor_key_inj [simp]: "requestor_key r = requestor_key r' \<longleftrightarrow> r = r'"
  by (cases r; cases r') (auto simp: requestor_key_def)

lemmas bucket_defs = bucket_ok_def bucket_balance_def refill_def Let_def

lemma bucket_ok_new: "bucket_ok cap rate t (token_bucket_new cap rate t)"
  by (simp add: bucket_ok_def token_bucket_new_def)

lemma bucket_ok_mono: "bucket_ok cap rate t b \<Longrightarrow> t \<le> t' \<Longrightarrow> bucket_ok cap rate t' b"
  by (auto simp: bucket_ok_def)

lemma bucket_balance_new [simp]: "bucket_balance (token_bucket_new cap rate t) t = max cap 0"
  by (simp add: bucket_defs token_bucket_new_def)

lemma bucket_balance_bounds:
  "bucket_ok cap rate t b \<Longrightarrow> 0 \<le> bucket_balance b t' \<and> bucket_balance b t' \<le> max cap 0"
  by (auto simp: bucket_defs)

lemma min_accrue: "0 \<le> d \<Longrightarrow> min (x + d) c \<le> min x c + (d::real)"
  by (simp add: min_def)

lemma min_idem_accrue: "0 \<le> d \<Longrightarrow> min (min x c + d) c = min (x + d) (c::real)"
  by (simp add: min_def)

text \<open>Time splits additively, so the balance at a later time is the balance now plus the accrual.\<close>

lemma bucket_balance_later:
  assumes "bucket_ok cap rate t b" "t \<le> now" "now \<le> t'"
  shows "bucket_balance b t' =
    min (tokens (tb_state b) + secs (now - last_refill (tb_state b)) * max rate 0
         + max rate 0 * secs (t' - now)) (max cap 0)"
proof -
  have "secs (t' - last_refill (tb_state b))
      = secs (now - last_refill (tb_state b)) + secs (t' - now)"
    using assms by (intro secs_diff_split) (auto simp: bucket_ok_def)
  then have "tokens (tb_state b) + secs (t' - last_refill (tb_state b)) * max rate 0
      = tokens (tb_state b) + secs (now - last_refill (tb_state b)) * max rate 0
        + max rate 0 * secs (t' - now)"
    by (simp add: algebra_simps)
  moreover have "tb_capacity b = max cap 0" "tb_refill_per_sec b = max rate 0"
    using assms by (simp_all add: bucket_ok_def)
  ultimately show ?thesis by (simp only: bucket_balance_def refill_def Let_def bucket_state.simps)
qed

lemma bucket_balance_now:
  assumes "bucket_ok cap rate t b"
  shows "bucket_balance b now =
    min (tokens (tb_state b) + secs (now - last_refill (tb_state b)) * max rate 0) (max cap 0)"
  using assms by (simp only: bucket_balance_def bucket_ok_def refill_def Let_def bucket_state.simps)

lemma bucket_balance_accrues:
  assumes "bucket_ok cap rate t b" "t \<le> t'"
  shows "bucket_balance b t' \<le> bucket_balance b t + max rate 0 * secs (t' - t)"
  unfolding bucket_balance_later [OF assms(1) order.refl assms(2)] bucket_balance_now [OF assms(1), of t]
  by (rule min_accrue) simp

text \<open>Reading a bucket refills it, which does not change what it holds at any later time.\<close>

lemma bucket_balance_refilled:
  assumes "bucket_ok cap rate t b" "t \<le> now" "now \<le> t'"
  shows "bucket_balance (b\<lparr>tb_state := refill (tb_state b) (tb_capacity b) (tb_refill_per_sec b) now\<rparr>) t'
    = bucket_balance b t'"
proof -
  have "bucket_balance (b\<lparr>tb_state := refill (tb_state b) (tb_capacity b) (tb_refill_per_sec b) now\<rparr>) t'
      = min (bucket_balance b now + secs (t' - now) * tb_refill_per_sec b) (tb_capacity b)"
    by (simp add: bucket_balance_def refill_def Let_def)
  also have "\<dots> = min (bucket_balance b now + max rate 0 * secs (t' - now)) (max cap 0)"
    using assms(1) by (simp add: bucket_ok_def mult.commute)
  also have "\<dots> = bucket_balance b t'"
    unfolding bucket_balance_later [OF assms] bucket_balance_now [OF assms(1), of now]
    by (rule min_idem_accrue) simp
  finally show ?thesis .
qed

lemma bucket_ok_refilled:
  "bucket_ok cap rate t b \<Longrightarrow> t \<le> now \<Longrightarrow>
     bucket_ok cap rate now (b\<lparr>tb_state := refill (tb_state b) (tb_capacity b) (tb_refill_per_sec b) now\<rparr>)"
  using bucket_balance_bounds [of cap rate t b now] by (auto simp: bucket_defs)

lemma is_full_simps [simp]:
  "fst (is_full now b) \<longleftrightarrow> tb_capacity b \<le> bucket_balance b now"
  "snd (is_full now b) =
     b\<lparr>tb_state := refill (tb_state b) (tb_capacity b) (tb_refill_per_sec b) now\<rparr>"
  by (simp_all add: is_full_def bucket_balance_def Let_def)

lemma try_acquire_admits [simp]: "fst (try_acquire now b) \<longleftrightarrow> 1 \<le> bucket_balance b now"
  by (simp add: try_acquire_def bucket_balance_def Let_def)

lemma try_acquire_ok:
  assumes "bucket_ok cap rate t b" "t \<le> now"
  shows "bucket_ok cap rate now (snd (try_acquire now b))"
  using bucket_ok_refilled [OF assms] by (auto simp: try_acquire_def bucket_ok_def Let_def)

lemma try_acquire_pays:
  "bucket_balance (snd (try_acquire now b)) now
     = bucket_balance b now - (if 1 \<le> bucket_balance b now then 1 else 0)"
  by (auto simp: try_acquire_def bucket_defs)

interpretation bucket_meter: metered
  "\<lambda>now b. try_acquire now b" "\<lambda>now. now" bucket_balance
  "\<lambda>b t. bucket_ok cap rate t b" "max rate 0"
  for cap rate
  by unfold_locales
    (auto simp: try_acquire_pays intro: try_acquire_ok bucket_balance_accrues
      dest: bucket_balance_bounds)

section \<open>Facts about the limiter\<close>

definition key_balance :: "real \<Rightarrow> (string \<times> token_bucket) list \<Rightarrow> string \<Rightarrow> nat \<Rightarrow> real" where
  "key_balance cap bs k t =
     (case map_of bs k of None \<Rightarrow> max cap 0 | Some b \<Rightarrow> bucket_balance b t)"

definition buckets_ok :: "real \<Rightarrow> real \<Rightarrow> nat \<Rightarrow> (string \<times> token_bucket) list \<Rightarrow> bool" where
  "buckets_ok cap rate t bs \<longleftrightarrow> hm_ok bs \<and> (\<forall>(k, b) \<in> set bs. bucket_ok cap rate t b)"

lemma limiter_balance_key:
  "limiter_balance r self t = key_balance (lim_capacity self) (buckets self) (requestor_key r) t"
  by (simp add: limiter_balance_def key_balance_def)

lemma limiter_ok_buckets:
  "limiter_ok self t \<longleftrightarrow>
     buckets_ok (lim_capacity self) (lim_refill_per_sec self) t (buckets self)
     \<and> length (buckets self) \<le> MAX_TRACKED_REQUESTORS"
  by (auto simp: limiter_ok_def buckets_ok_def)

lemma buckets_okD: "buckets_ok cap rate t bs \<Longrightarrow> map_of bs k = Some b \<Longrightarrow> bucket_ok cap rate t b"
  by (auto simp: buckets_ok_def dest: map_of_SomeD)

lemma buckets_ok_mono: "buckets_ok cap rate t bs \<Longrightarrow> t \<le> t' \<Longrightarrow> buckets_ok cap rate t' bs"
  by (auto simp: buckets_ok_def intro: bucket_ok_mono)

lemma map_of_reclaim:
  assumes "hm_ok bs"
  shows "map_of (reclaim_idle now bs) k =
    (case map_of bs k of
       None \<Rightarrow> None
     | Some b \<Rightarrow> if tb_capacity b \<le> bucket_balance b now then None
         else Some (b\<lparr>tb_state := refill (tb_state b) (tb_capacity b) (tb_refill_per_sec b) now\<rparr>))"
  using assms
  by (auto simp: reclaim_idle_def map_of_map map_of_filter_keyed split: option.splits)

lemma reclaim_ok:
  assumes "buckets_ok cap rate t bs" "t \<le> now"
  shows "buckets_ok cap rate now (reclaim_idle now bs)"
proof -
  have "map fst (reclaim_idle now bs) = map fst (filter (\<lambda>(k, b). \<not> fst (is_full now b)) bs)"
    by (induction bs) (auto simp: reclaim_idle_def)
  moreover have "hm_ok bs" using assms by (simp add: buckets_ok_def)
  ultimately have "hm_ok (reclaim_idle now bs)"
    by (metis hm_ok_def hm_ok_filter)
  then show ?thesis
    using assms by (auto simp: buckets_ok_def reclaim_idle_def dest!: bspec intro!: bucket_ok_refilled)
qed

lemma length_reclaim: "length (reclaim_idle now bs) \<le> length bs"
  by (simp add: reclaim_idle_def)

lemma full_stays_full:
  assumes "bucket_ok cap rate t b" "t \<le> now" "now \<le> t'" "tb_capacity b \<le> bucket_balance b now"
  shows "bucket_balance b t' = max cap 0"
proof -
  have "bucket_balance b now \<le> bucket_balance b t'"
    unfolding bucket_balance_later [OF assms(1-3)] bucket_balance_now [OF assms(1), of now]
    by (rule min.mono) simp_all
  moreover have "tb_capacity b = max cap 0" using assms(1) by (simp add: bucket_ok_def)
  ultimately show ?thesis
    using assms(4) bucket_balance_bounds [OF assms(1), of t'] by linarith
qed

text \<open>Dropping the idle buckets changes nobody's balance: a full bucket is recreated full.\<close>

lemma reclaim_balance:
  assumes "buckets_ok cap rate t bs" "t \<le> now" "now \<le> t'"
  shows "key_balance cap (reclaim_idle now bs) k t' = key_balance cap bs k t'"
proof (cases "map_of bs k")
  case None
  then show ?thesis using assms by (simp add: key_balance_def buckets_ok_def map_of_reclaim)
next
  case (Some b)
  then have b: "bucket_ok cap rate t b" using assms(1) by (rule buckets_okD [rotated])
  then show ?thesis
    using Some assms full_stays_full [OF b assms(2,3)] bucket_balance_refilled [OF b assms(2,3)]
    by (simp add: key_balance_def buckets_ok_def map_of_reclaim)
qed

text \<open>
  One check, by cases: refused because the table is full of busy requestors, or decided by the
  requestor's own bucket, in a table \<open>bs\<close> that holds the same balances.
\<close>

definition refused_full :: "requestor_id \<Rightarrow> nat \<Rightarrow> miss_rate_limiter \<Rightarrow> bool" where
  "refused_full r now self \<longleftrightarrow>
     map_of (buckets self) (requestor_key r) = None
     \<and> length (buckets self) \<ge> MAX_TRACKED_REQUESTORS
     \<and> length (reclaim_idle now (buckets self)) \<ge> MAX_TRACKED_REQUESTORS"

lemma limiter_check_cases:
  assumes "buckets_ok (lim_capacity self) (lim_refill_per_sec self) t (buckets self)" "t \<le> now"
  obtains (refused) "refused_full r now self"
      "limiter_check r now self = (False, self\<lparr>buckets := reclaim_idle now (buckets self)\<rparr>)"
  | (decided) bs b where "\<not> refused_full r now self"
      "buckets_ok (lim_capacity self) (lim_refill_per_sec self) now bs"
      "bucket_ok (lim_capacity self) (lim_refill_per_sec self) now b"
      "bucket_balance b now = limiter_balance r self now"
      "\<And>k t'. now \<le> t' \<Longrightarrow> key_balance (lim_capacity self) bs k t' = key_balance (lim_capacity self) (buckets self) k t'"
      "limiter_check r now self =
         (1 \<le> bucket_balance b now,
          self\<lparr>buckets := AList.update (requestor_key r) (snd (try_acquire now b)) bs\<rparr>)"
      "map_of bs (requestor_key r) = None \<Longrightarrow> length bs < MAX_TRACKED_REQUESTORS"
      "length bs \<le> length (buckets self)"
proof (cases "refused_full r now self")
  case True
  then show ?thesis
    by (intro refused) (auto simp: limiter_check_def refused_full_def Let_def)
next
  case False
  let ?k = "requestor_key r"
  let ?sat = "map_of (buckets self) ?k = None \<and> length (buckets self) \<ge> MAX_TRACKED_REQUESTORS"
  define bs where "bs = (if ?sat then reclaim_idle now (buckets self) else buckets self)"
  define b where "b = (case map_of bs ?k of Some b \<Rightarrow> b
    | None \<Rightarrow> token_bucket_new (lim_capacity self) (lim_refill_per_sec self) now)"
  have ok: "buckets_ok (lim_capacity self) (lim_refill_per_sec self) now bs"
    using reclaim_ok [OF assms] buckets_ok_mono [OF assms] by (simp add: bs_def)
  have bal: "key_balance (lim_capacity self) bs k t' = key_balance (lim_capacity self) (buckets self) k t'"
    if "now \<le> t'" for k t'
    using reclaim_balance [OF assms that] by (simp add: bs_def)
  have "bucket_ok (lim_capacity self) (lim_refill_per_sec self) now b"
    using buckets_okD [OF ok] bucket_ok_new by (auto simp: b_def split: option.splits)
  moreover have "bucket_balance b now = limiter_balance r self now"
    using bal [of now ?k]
    by (auto simp: b_def limiter_balance_key key_balance_def split: option.splits)
  moreover have "limiter_check r now self = (1 \<le> bucket_balance b now,
      self\<lparr>buckets := AList.update ?k (snd (try_acquire now b)) bs\<rparr>)"
  proof -
    have "\<not> (?sat \<and> length bs \<ge> MAX_TRACKED_REQUESTORS)"
      using False by (auto simp: bs_def refused_full_def)
    then have "limiter_check r now self =
        (fst (try_acquire now b), self\<lparr>buckets := AList.update ?k (snd (try_acquire now b)) bs\<rparr>)"
      unfolding limiter_check_def Let_def bs_def [symmetric] b_def [symmetric]
      by (auto simp: case_prod_beta)
    then show ?thesis by simp
  qed
  moreover have "length bs < MAX_TRACKED_REQUESTORS" if "map_of bs ?k = None"
    using that False assms(1)
    by (auto simp: bs_def refused_full_def buckets_ok_def split: if_splits)
  moreover have "length bs \<le> length (buckets self)"
    by (simp add: bs_def length_reclaim)
  ultimately show ?thesis by (intro decided [OF False ok _ _ bal]) auto
qed

lemma limiter_check_params [simp]:
  "lim_capacity (snd (limiter_check r now self)) = lim_capacity self"
  "lim_refill_per_sec (snd (limiter_check r now self)) = lim_refill_per_sec self"
  by (simp_all add: limiter_check_def Let_def case_prod_beta)

lemma buckets_ok_update:
  "buckets_ok cap rate t bs \<Longrightarrow> bucket_ok cap rate t b \<Longrightarrow> buckets_ok cap rate t (AList.update k b bs)"
  by (auto simp: buckets_ok_def hm_in_set_iff update_conv' split: if_splits dest: map_of_SomeD)

lemma limiter_check_ok:
  assumes "limiter_ok self t" "t \<le> now"
  shows "limiter_ok (snd (limiter_check r now self)) now"
proof -
  have ok: "buckets_ok (lim_capacity self) (lim_refill_per_sec self) t (buckets self)"
    and len: "length (buckets self) \<le> MAX_TRACKED_REQUESTORS"
    using assms by (simp_all add: limiter_ok_buckets)
  show ?thesis
  proof (cases rule: limiter_check_cases [OF ok assms(2), of r, case_names refused decided])
    case refused
    then show ?thesis
      using reclaim_ok [OF ok assms(2)] order.trans [OF length_reclaim len]
      by (simp add: limiter_ok_buckets)
  next
    case (decided bs b)
    have "bucket_ok (lim_capacity self) (lim_refill_per_sec self) now (snd (try_acquire now b))"
      using decided(3) by (rule try_acquire_ok) simp
    then have "buckets_ok (lim_capacity self) (lim_refill_per_sec self) now
        (AList.update (requestor_key r) (snd (try_acquire now b)) bs)"
      using decided(2) by (rule buckets_ok_update [rotated])
    then show ?thesis
      using decided(6-8) len by (auto simp: limiter_ok_buckets length_update in_keys_map_of)
  qed
qed

text \<open>A check charges the requestor for what it admits, and nobody else.\<close>

lemma limiter_check_charges:
  assumes "limiter_ok self t" "t \<le> now"
  shows "limiter_balance r (snd (limiter_check r now self)) now
    = limiter_balance r self now - (if fst (limiter_check r now self) then 1 else 0)"
proof -
  have ok: "buckets_ok (lim_capacity self) (lim_refill_per_sec self) t (buckets self)"
    using assms by (simp add: limiter_ok_buckets)
  show ?thesis
  proof (cases rule: limiter_check_cases [OF ok assms(2), of r, case_names refused decided])
    case refused
    then show ?thesis
      using reclaim_balance [OF ok assms(2) order.refl, of "requestor_key r"]
      by (simp add: limiter_balance_key)
  next
    case (decided bs b)
    then have "limiter_balance r (snd (limiter_check r now self)) now
        = bucket_balance (snd (try_acquire now b)) now"
      by (simp add: limiter_balance_key key_balance_def update_conv')
    then show ?thesis using decided(4,6) by (simp add: try_acquire_pays)
  qed
qed

lemma limiter_check_isolated:
  assumes "limiter_ok self t" "t \<le> now" "now \<le> t'" "r' \<noteq> r"
  shows "limiter_balance r' (snd (limiter_check r now self)) t' = limiter_balance r' self t'"
proof -
  have ok: "buckets_ok (lim_capacity self) (lim_refill_per_sec self) t (buckets self)"
    using assms by (simp add: limiter_ok_buckets)
  show ?thesis
  proof (cases rule: limiter_check_cases [OF ok assms(2), of r, case_names refused decided])
    case refused
    then show ?thesis
      using reclaim_balance [OF ok assms(2,3)] by (simp add: limiter_balance_key)
  next
    case (decided bs b)
    have "limiter_balance r' (snd (limiter_check r now self)) t'
        = key_balance (lim_capacity self) bs (requestor_key r') t'"
      using decided(6) assms(4) by (simp add: limiter_balance_key key_balance_def update_conv')
    then show ?thesis using decided(5) [OF assms(3)] by (simp add: limiter_balance_key)
  qed
qed

lemma limiter_check_admits:
  assumes "limiter_ok self t" "t \<le> now"
  shows "fst (limiter_check r now self) \<longleftrightarrow>
    \<not> refused_full r now self \<and> 1 \<le> limiter_balance r self now"
proof -
  have ok: "buckets_ok (lim_capacity self) (lim_refill_per_sec self) t (buckets self)"
    using assms by (simp add: limiter_ok_buckets)
  show ?thesis
    by (cases rule: limiter_check_cases [OF ok assms(2), of r]) auto
qed

lemma limiter_balance_accrues:
  assumes "limiter_ok self t" "t \<le> t'"
  shows "limiter_balance r self t'
    \<le> limiter_balance r self t + max (lim_refill_per_sec self) 0 * secs (t' - t)"
proof (cases "map_of (buckets self) (requestor_key r)")
  case (Some b)
  then have "bucket_ok (lim_capacity self) (lim_refill_per_sec self) t b"
    using assms(1) by (auto simp: limiter_ok_buckets dest: buckets_okD)
  then show ?thesis
    using Some bucket_balance_accrues [OF _ assms(2)] by (simp add: limiter_balance_def)
qed (simp add: limiter_balance_def)

lemma limiter_balance_nonneg: "limiter_ok self t \<Longrightarrow> 0 \<le> limiter_balance r self t'"
  by (auto simp: limiter_balance_def limiter_ok_buckets split: option.splits
      dest: buckets_okD bucket_balance_bounds)

lemma limiter_ok_mono: "limiter_ok self t \<Longrightarrow> t \<le> t' \<Longrightarrow> limiter_ok self t'"
  by (auto simp: limiter_ok_buckets intro: buckets_ok_mono)

lemma limiter_ok_new: "limiter_ok (limiter_new cap rate) t"
  by (simp add: limiter_ok_def limiter_new_def)

text \<open>One call of \<open>check\<close>, counted when it admits the requestor \<open>r0\<close>.\<close>

definition counted_check :: "requestor_id \<Rightarrow> requestor_id \<times> nat \<Rightarrow> miss_rate_limiter \<Rightarrow> bool \<times> miss_rate_limiter" where
  "counted_check r0 e self =
     (let (a, s') = limiter_check (fst e) (snd e) self in (a \<and> fst e = r0, s'))"

lemma counted_check_simps [simp]:
  "fst (counted_check r0 e self) \<longleftrightarrow> fst (limiter_check (fst e) (snd e) self) \<and> fst e = r0"
  "snd (counted_check r0 e self) = snd (limiter_check (fst e) (snd e) self)"
  by (simp_all add: counted_check_def case_prod_beta)

lemma counted_check_pays:
  assumes "limiter_ok s t" "t \<le> snd e"
  shows "limiter_balance r0 (snd (counted_check r0 e s)) (snd e)
      + (if fst (counted_check r0 e s) then 1 else 0) \<le> limiter_balance r0 s (snd e)"
proof (cases "fst e = r0")
  case True
  then show ?thesis using limiter_check_charges [OF assms, of r0] by auto
next
  case False
  then show ?thesis using limiter_check_isolated [OF assms order.refl, of r0 "fst e"] by auto
qed

interpretation limiter_meter: metered
  "counted_check r0" snd "limiter_balance r0"
  "\<lambda>s t. limiter_ok s t \<and> lim_refill_per_sec s = rate" "max rate 0"
  for r0 rate
proof unfold_locales
  fix s t and e :: "requestor_id \<times> nat"
  assume *: "limiter_ok s t \<and> lim_refill_per_sec s = rate" and "t \<le> snd e"
  then show "limiter_ok (snd (counted_check r0 e s)) (snd e)
      \<and> lim_refill_per_sec (snd (counted_check r0 e s)) = rate"
    by (auto intro: limiter_check_ok)
  show "limiter_balance r0 (snd (counted_check r0 e s)) (snd e)
      + (if fst (counted_check r0 e s) then 1 else 0) \<le> limiter_balance r0 s (snd e)"
    using * \<open>t \<le> snd e\<close> by (blast intro: counted_check_pays)
qed (auto intro: limiter_balance_accrues limiter_balance_nonneg)

interpretation limiter_table: bounded_table
  "\<lambda>self. length (buckets self)" "\<lambda>_. MAX_TRACKED_REQUESTORS" "\<lambda>self. hm_ok (buckets self)"
  "\<lambda>e self. snd (limiter_check (fst e) (snd e) self)"
proof unfold_locales
  have keys: "map fst (reclaim_idle now bs) = map fst (filter (\<lambda>(k, b). \<not> fst (is_full now b)) bs)"
    for now bs by (induction bs) (auto simp: reclaim_idle_def)
  have rec: "hm_ok (reclaim_idle now bs)" if "hm_ok bs" for now bs
    using that keys by (metis hm_ok_def hm_ok_filter)
  fix s :: miss_rate_limiter and e :: "requestor_id \<times> nat"
  assume ok: "hm_ok (buckets s)"
  show "hm_ok (buckets (snd (limiter_check (fst e) (snd e) s)))"
    using ok rec by (auto simp: limiter_check_def Let_def case_prod_beta)
  assume le: "length (buckets s) \<le> MAX_TRACKED_REQUESTORS"
  show "length (buckets (snd (limiter_check (fst e) (snd e) s))) \<le> MAX_TRACKED_REQUESTORS"
    using le order.trans [OF length_reclaim le]
    by (auto simp: limiter_check_def Let_def case_prod_beta length_update in_keys_map_of
        split: if_splits)
qed simp

section \<open>Properties\<close>

text \<open>
  C20: over any history of checks by any requestors in any interleaving, one requestor is admitted
  at most its burst plus the refill earned by the elapsed time.
\<close>

theorem limiter_rate_bound:
  assumes "timed_from snd t es"
  shows "real (fst (run_gate (counted_check r) es (limiter_new cap rate)))
    \<le> max cap 0 + max rate 0 * secs (last_time snd t es - t)"
proof -
  have "limiter_balance r (limiter_new cap rate) t = max cap 0"
    by (simp add: limiter_balance_def limiter_new_def)
  then show ?thesis
    using limiter_meter.run_bound [of "limiter_new cap rate" t rate es r] assms
    by (simp add: limiter_ok_new) (simp add: limiter_new_def)
qed

theorem limiter_rate_bound_witness:
  "real (fst (run_gate (counted_check (Peer ''a''))
      [(Peer ''a'', 5), (Peer ''b'', 5), (Peer ''a'', 6)] (limiter_new 2 0))) \<le> 2"
  using limiter_rate_bound [of 5 "[(Peer ''a'', 5), (Peer ''b'', 5), (Peer ''a'', 6)]" "Peer ''a''" 2 0]
  by simp

text \<open>
  a check, whatever it answers and whatever it evicts, leaves the allowance of every other
  requestor as it was, now and at every later time.
\<close>

theorem limiter_isolation:
  assumes "limiter_ok self t" "t \<le> now" "now \<le> t'" "r' \<noteq> r"
  shows "limiter_balance r' (snd (limiter_check r now self)) t' = limiter_balance r' self t'"
  by (rule limiter_check_isolated [OF assms])

theorem limiter_isolation_witness:
  "limiter_balance (Peer ''b'') (snd (limiter_check (Peer ''a'') 3 (limiter_new 2 1))) 9 = 2"
  using limiter_isolation [OF limiter_ok_new, of 0 3 9 "Peer ''b''" "Peer ''a''" 2 1]
  by (simp add: limiter_balance_def limiter_new_def)

text \<open>
  a check admits exactly when the requestor can pay for it, unless the requestor is new and
  every one of the tracked requestors is below its burst; an admission costs one token.
\<close>

theorem limiter_check_spec:
  assumes "limiter_ok self t" "t \<le> now"
  shows "(fst (limiter_check r now self) \<longleftrightarrow>
      \<not> refused_full r now self \<and> 1 \<le> limiter_balance r self now)
    \<and> limiter_balance r (snd (limiter_check r now self)) now
      = limiter_balance r self now - (if fst (limiter_check r now self) then 1 else 0)"
  using limiter_check_admits [OF assms] limiter_check_charges [OF assms] by blast

theorem limiter_check_spec_witness:
  "fst (limiter_check Local 7 limiter_with_defaults)
   \<and> limiter_balance Local (snd (limiter_check Local 7 limiter_with_defaults)) 7 = 15"
proof -
  have ok: "limiter_ok limiter_with_defaults 0"
    by (simp add: limiter_with_defaults_def limiter_ok_new)
  have "\<not> refused_full Local 7 limiter_with_defaults"
    and bal: "limiter_balance Local limiter_with_defaults 7 = 16"
    by (simp_all add: refused_full_def limiter_with_defaults_def limiter_new_def
        MAX_TRACKED_REQUESTORS_def limiter_balance_def DEFAULT_MISS_LOOKUP_BURST_def)
  then have adm: "fst (limiter_check Local 7 limiter_with_defaults)"
    using limiter_check_spec [OF ok, of 7 Local] by simp
  with bal show ?thesis
    using limiter_check_spec [OF ok, of 7 Local] by simp
qed

text \<open>
  no history of checks, by however many distinct requestors, makes the bucket table grow
  beyond \<open>MAX_TRACKED_REQUESTORS\<close>.
\<close>

theorem limiter_table_bounded:
  "length (buckets (fold (\<lambda>(r, now) self. snd (limiter_check r now self)) es (limiter_new cap rate)))
    \<le> MAX_TRACKED_REQUESTORS"
proof -
  have "length (buckets (fold (\<lambda>e self. snd (limiter_check (fst e) (snd e) self)) es
      (limiter_new cap rate))) \<le> MAX_TRACKED_REQUESTORS"
    by (rule limiter_table.run_bound) (simp_all add: limiter_new_def)
  then show ?thesis by (simp add: case_prod_beta')
qed

end
