(* ===== verification/Inbound_Demand.thy ===== *)
theory Inbound_Demand
  imports Contracts
begin

text \<open>
  The inbound-demand ledger (\<open>dig-node-core/src/inbound_demand.rs\<close>): a bounded
  least-recently-demanded cache of the stores peers have asked for, kept as a hash map from store
  id to entry and a \<open>BTreeMap\<close> from tick to store id.

  The cache tier is a type of the \<open>dig-sex\<close> crate; the ledger only ever stores its
  \<open>Tier1Demand\<close> value, which is the argument \<open>tier1\<close>. The logical clock is an unbounded natural
  (the \<open>u64\<close> of the code would need \<open>2 ^ 64\<close> requests to wrap).
\<close>

definition MAX_DEMAND_ENTRIES :: nat where "MAX_DEMAND_ENTRIES = 65536"

record 'tier demand_record =
  dr_count :: nat
  dr_tier :: 'tier

record 'tier demand_entry =
  de_record :: "'tier demand_record"
  de_tick :: nat

record 'tier inbound_demand =
  dmap :: "(string \<times> 'tier demand_entry) list"
  recency :: "(nat \<times> string) list"
  clock :: nat
  dcap :: nat

definition demand_with_capacity :: "nat \<Rightarrow> 'tier inbound_demand" where
  "demand_with_capacity cap = \<lparr>dmap = [], recency = [], clock = 0, dcap = max cap 1\<rparr>"

definition demand_new :: "'tier inbound_demand" where
  "demand_new = demand_with_capacity MAX_DEMAND_ENTRIES"

definition demand_record_op :: "'tier \<Rightarrow> string \<Rightarrow> 'tier inbound_demand \<Rightarrow> 'tier demand_record \<times> 'tier inbound_demand" where
  "demand_record_op tier1 store_id s =
     (let tick = clock s + 1 in
      case map_of (dmap s) store_id of
        Some entry \<Rightarrow>
          let record = \<lparr>dr_count = u32_sat_add (dr_count (de_record entry)) 1, dr_tier = tier1\<rparr>
          in (record,
              s\<lparr>clock := tick,
                dmap := AList.update store_id \<lparr>de_record = record, de_tick = tick\<rparr> (dmap s),
                recency := bt_insert tick store_id (AList.delete (de_tick entry) (recency s))\<rparr>)
      | None \<Rightarrow>
          let (m, r) =
                (if length (dmap s) \<ge> dcap s
                 then case recency s of
                        [] \<Rightarrow> (dmap s, recency s)
                      | (victim_tick, victim_key) # _ \<Rightarrow>
                          (AList.delete victim_key (dmap s), AList.delete victim_tick (recency s))
                 else (dmap s, recency s));
              record = \<lparr>dr_count = 1, dr_tier = tier1\<rparr>
          in (record,
              s\<lparr>clock := tick,
                dmap := AList.update store_id \<lparr>de_record = record, de_tick = tick\<rparr> m,
                recency := bt_insert tick store_id r\<rparr>))"

definition demand_count :: "'tier inbound_demand \<Rightarrow> string \<Rightarrow> nat" where
  "demand_count s store_id =
     (case map_of (dmap s) store_id of None \<Rightarrow> 0 | Some e \<Rightarrow> dr_count (de_record e))"

definition demand_tier :: "'tier inbound_demand \<Rightarrow> string \<Rightarrow> 'tier option" where
  "demand_tier s store_id = map_option (\<lambda>e. dr_tier (de_record e)) (map_of (dmap s) store_id)"

definition demand_entry_count :: "'tier inbound_demand \<Rightarrow> nat" where
  "demand_entry_count s = length (dmap s)"

section \<open>Invariant and abstract specification\<close>

text \<open>
  The map and the recency index are kept in lockstep: an entry has exactly one slot in the index,
  at its own tick, and no tick is in the future.
\<close>

definition demand_ok :: "'tier \<Rightarrow> 'tier inbound_demand \<Rightarrow> bool" where
  "demand_ok tier1 s \<longleftrightarrow>
     hm_ok (dmap s) \<and> bt_ok (recency s) \<and> 1 \<le> dcap s \<and>
     (\<forall>t \<in> fst ` set (recency s). t \<le> clock s) \<and>
     (\<forall>k t. (t, k) \<in> set (recency s) \<longleftrightarrow>
        (\<exists>e. map_of (dmap s) k = Some e \<and> de_tick e = t)) \<and>
     (\<forall>k e. map_of (dmap s) k = Some e \<longrightarrow> dr_tier (de_record e) = tier1)"

text \<open>The live stores from the least to the most recently demanded.\<close>

definition lru_keys :: "'tier inbound_demand \<Rightarrow> string list" where
  "lru_keys s = map snd (recency s)"

text \<open>The textbook policy on that list.\<close>

definition lru_touch :: "nat \<Rightarrow> 'k \<Rightarrow> 'k list \<Rightarrow> 'k list" where
  "lru_touch cap k xs =
     (if k \<in> set xs then removeAll k xs @ [k]
      else if length xs \<ge> cap then tl xs @ [k]
      else xs @ [k])"

section \<open>Facts about the abstract policy\<close>

lemma lru_touch_in [simp]: "k \<in> set (lru_touch cap k xs)"
  by (simp add: lru_touch_def)

lemma lru_touch_last: "\<exists>ys. lru_touch cap k xs = ys @ [k]"
  by (simp add: lru_touch_def)

lemma distinct_lru_touch: "distinct xs \<Longrightarrow> distinct (lru_touch cap k xs)"
  by (cases xs) (auto simp: lru_touch_def distinct_removeAll)

lemma length_lru_touch:
  "1 \<le> cap \<Longrightarrow> distinct xs \<Longrightarrow> length xs \<le> cap \<Longrightarrow> length (lru_touch cap k xs) \<le> cap"
  by (auto simp: lru_touch_def distinct_remove1_removeAll [symmetric] length_remove1)

text \<open>
  A key survives as long as fewer than \<open>cap\<close> other keys have been touched since: the keys behind
  it are among those.
\<close>

lemma lru_touch_survives:
  assumes "xs = ys @ k # zs" "distinct xs" "set zs \<subseteq> S" "finite S" "k \<notin> S" "x \<noteq> k"
    and "card (insert x S) < cap"
  shows "\<exists>ys' zs'. lru_touch cap x xs = ys' @ k # zs' \<and> set zs' \<subseteq> insert x S"
proof (cases "x \<in> set xs")
  case True
  then have "lru_touch cap x xs = removeAll x ys @ k # (removeAll x zs @ [x])"
    using assms by (simp add: lru_touch_def)
  then show ?thesis using assms(3) by fastforce
next
  case False
  show ?thesis
  proof (cases "length xs \<ge> cap \<and> ys = []")
    case True
    have "x \<notin> set zs" using False assms(1) by simp
    moreover have "card (set zs) = length zs"
      using assms(1,2) by (simp add: distinct_card)
    ultimately have "card (insert x (set zs)) = Suc (length zs)" by simp
    moreover have "card (insert x (set zs)) \<le> card (insert x S)"
      using assms(3,4) by (intro card_mono) auto
    ultimately have False using True assms(1,7) by auto
    then show ?thesis ..
  next
    case nofront: False
    then have "lru_touch cap x xs = (if length xs \<ge> cap then tl ys else ys) @ k # (zs @ [x])"
      using False assms(1) by (cases ys) (auto simp: lru_touch_def)
    then show ?thesis using assms(3) by fastforce
  qed
qed

lemma lru_fold_survives:
  assumes "xs = ys @ k # zs" "distinct xs" "set zs \<subseteq> S" "finite S" "k \<notin> S"
    and "card (S \<union> (set ks - {k})) < cap"
  shows "k \<in> set (fold (lru_touch cap) ks xs)"
  using assms
proof (induction ks arbitrary: xs ys zs S)
  case (Cons x ks)
  show ?case
  proof (cases "x = k")
    case True
    have "lru_touch cap x xs = removeAll k xs @ k # []"
      using True Cons.prems(1) by (simp add: lru_touch_def)
    moreover have "card ({} \<union> (set ks - {k})) < cap"
      using Cons.prems(4,6) True by (intro le_less_trans [OF card_mono Cons.prems(6)]) auto
    ultimately have "k \<in> set (fold (lru_touch cap) ks (lru_touch cap x xs))"
      by (intro Cons.IH [of _ "removeAll k xs" "[]" "{}"] distinct_lru_touch Cons.prems(2)) auto
    then show ?thesis by simp
  next
    case False
    have eq: "insert x S \<union> (set ks - {k}) = S \<union> (set (x # ks) - {k})"
      using False by auto
    have "card (insert x S) \<le> card (S \<union> (set (x # ks) - {k}))"
      using False Cons.prems(4) by (intro card_mono) auto
    then have "card (insert x S) < cap" using Cons.prems(6) by simp
    then obtain ys' zs' where "lru_touch cap x xs = ys' @ k # zs'" "set zs' \<subseteq> insert x S"
      using lru_touch_survives [OF Cons.prems(1-5) False] by blast
    then have "k \<in> set (fold (lru_touch cap) ks (lru_touch cap x xs))"
      using Cons.prems False eq
      by (intro Cons.IH [of _ ys' zs' "insert x S"] distinct_lru_touch) auto
    then show ?thesis by simp
  qed
qed simp

section \<open>The ledger refines the policy\<close>

lemma demand_okD:
  assumes "demand_ok tier1 s"
  shows "hm_ok (dmap s)" "bt_ok (recency s)" "1 \<le> dcap s"
    and "(t, k) \<in> set (recency s) \<Longrightarrow> t \<le> clock s"
    and "(t, k) \<in> set (recency s) \<longleftrightarrow> (\<exists>e. map_of (dmap s) k = Some e \<and> de_tick e = t)"
    and "map_of (dmap s) k = Some e \<Longrightarrow> dr_tier (de_record e) = tier1"
proof -
  show "(t, k) \<in> set (recency s) \<Longrightarrow> t \<le> clock s"
    using assms unfolding demand_ok_def by force
qed (use assms in \<open>simp_all add: demand_ok_def\<close>)

lemma lru_keys_live:
  assumes "demand_ok tier1 s"
  shows "k \<in> set (lru_keys s) \<longleftrightarrow> map_of (dmap s) k \<noteq> None"
proof -
  have "k \<in> set (lru_keys s) \<longleftrightarrow> (\<exists>t. (t, k) \<in> set (recency s))"
    by (force simp: lru_keys_def)
  then show ?thesis by (simp add: demand_okD(5) [OF assms])
qed

lemma lru_keys_distinct:
  assumes "demand_ok tier1 s"
  shows "distinct (lru_keys s)"
proof -
  have "distinct (recency s)"
    using bt_ok_hm_ok [OF demand_okD(2) [OF assms]] by (auto simp: hm_ok_def distinct_map)
  moreover have "inj_on snd (set (recency s))"
    using demand_okD(5) [OF assms] by (force simp: inj_on_def)
  ultimately show ?thesis by (simp add: lru_keys_def distinct_map)
qed

lemma lru_keys_length:
  assumes "demand_ok tier1 s"
  shows "length (lru_keys s) = length (dmap s)"
proof -
  have "set (lru_keys s) = fst ` set (dmap s)"
    by (simp only: set_eq_iff in_keys_map_of lru_keys_live [OF assms] simp_thms)
  then have "card (set (lru_keys s)) = card (set (map fst (dmap s)))" by simp
  then show ?thesis
    using lru_keys_distinct [OF assms] demand_okD(1) [OF assms]
    by (simp add: distinct_card hm_ok_def del: set_map)
qed

text \<open>Every path of \<open>record\<close> ends by writing the entry and appending its recency slot.\<close>

lemma demand_append_ok:
  assumes "hm_ok m" "bt_ok r" "1 \<le> dcap s"
    and "\<And>t k. (t, k) \<in> set r \<Longrightarrow> t \<le> clock s"
    and "\<And>t k. (t, k) \<in> set r \<longleftrightarrow> k \<noteq> x \<and> (\<exists>e. map_of m k = Some e \<and> de_tick e = t)"
    and "\<And>k e. map_of m k = Some e \<Longrightarrow> k \<noteq> x \<Longrightarrow> dr_tier (de_record e) = tier1"
    and "dr_tier rec = tier1"
  shows "demand_ok tier1 (s\<lparr>clock := clock s + 1,
      dmap := AList.update x \<lparr>de_record = rec, de_tick = clock s + 1\<rparr> m,
      recency := bt_insert (clock s + 1) x r\<rparr>)"
    and "bt_insert (clock s + 1) x r = r @ [(clock s + 1, x)]"
proof -
  have below: "\<forall>t \<in> fst ` set r. t < clock s + 1"
    using assms(4) by force
  then show app: "bt_insert (clock s + 1) x r = r @ [(clock s + 1, x)]"
    by (rule bt_insert_append)
  show "demand_ok tier1 (s\<lparr>clock := clock s + 1,
      dmap := AList.update x \<lparr>de_record = rec, de_tick = clock s + 1\<rparr> m,
      recency := bt_insert (clock s + 1) x r\<rparr>)"
    using assms(1-3,6,7) below bt_ok_append_last [OF assms(2) below]
    unfolding demand_ok_def app
    by (auto simp: assms(5) update_conv' less_Suc_eq_le le_SucI dest: assms(4))
qed

lemma demand_record_known:
  assumes ok: "demand_ok tier1 s" and e: "map_of (dmap s) x = Some e"
  shows "demand_ok tier1 (snd (demand_record_op tier1 x s))"
    and "lru_keys (snd (demand_record_op tier1 x s)) = removeAll x (lru_keys s) @ [x]"
proof -
  let ?r = "AList.delete (de_tick e) (recency s)"
  have r: "(t, k) \<in> set ?r \<longleftrightarrow> k \<noteq> x \<and> (\<exists>e. map_of (dmap s) k = Some e \<and> de_tick e = t)" for t k
  proof -
    have "(t, k) \<in> set ?r \<longleftrightarrow> (t, k) \<in> set (recency s) \<and> t \<noteq> de_tick e"
      by (auto simp: AList.delete_eq)
    moreover have "k = x" if "(de_tick e, k) \<in> set (recency s)"
    proof -
      have "(de_tick e, x) \<in> set (recency s)" using demand_okD(5) [OF ok] e by blast
      with that show ?thesis
        using bt_ok_hm_ok [OF demand_okD(2) [OF ok]] by (simp add: hm_in_set_iff)
    qed
    ultimately show ?thesis using demand_okD(5) [OF ok, of t k] e by fastforce
  qed
  let ?rec = "\<lparr>dr_count = u32_sat_add (dr_count (de_record e)) 1, dr_tier = tier1\<rparr>"
  have op: "snd (demand_record_op tier1 x s) = s\<lparr>clock := clock s + 1,
      dmap := AList.update x \<lparr>de_record = ?rec, de_tick = clock s + 1\<rparr> (dmap s),
      recency := bt_insert (clock s + 1) x ?r\<rparr>"
    using e by (simp add: demand_record_op_def Let_def)
  note app = demand_append_ok [of "dmap s" ?r s x tier1 ?rec, OF demand_okD(1) [OF ok]
      bt_ok_delete [OF demand_okD(2) [OF ok]] demand_okD(3) [OF ok] _ r demand_okD(6) [OF ok]]
  have old: "\<And>t k. (t, k) \<in> set ?r \<Longrightarrow> t \<le> clock s"
    using demand_okD(4) [OF ok] by (auto simp: AList.delete_eq)
  show "demand_ok tier1 (snd (demand_record_op tier1 x s))"
    unfolding op by (rule app(1)) (use old in auto)
  have "map snd ?r = removeAll x (lru_keys s)"
  proof -
    have "filter (\<lambda>(t, k). de_tick e \<noteq> t) (recency s) = filter (\<lambda>(t, k). k \<noteq> x) (recency s)"
    proof (rule filter_cong [OF refl], clarify)
      fix t k assume "(t, k) \<in> set (recency s)"
      then show "(de_tick e \<noteq> t) = (k \<noteq> x)"
        using r [of t k] demand_okD(5) [OF ok, of t k] by (auto simp: AList.delete_eq e)
    qed
    then show ?thesis
      by (simp add: lru_keys_def AList.delete_eq removeAll_filter_not_eq filter_map comp_def
          case_prod_beta' neq_commute)
  qed
  moreover have "bt_insert (clock s + 1) x ?r = ?r @ [(clock s + 1, x)]"
    by (rule app(2)) (use old in auto)
  ultimately show "lru_keys (snd (demand_record_op tier1 x s)) = removeAll x (lru_keys s) @ [x]"
    unfolding op by (simp add: lru_keys_def)
qed

lemma demand_record_unknown:
  assumes ok: "demand_ok tier1 s" and new: "map_of (dmap s) x = None"
  shows "demand_ok tier1 (snd (demand_record_op tier1 x s))
    \<and> lru_keys (snd (demand_record_op tier1 x s))
      = (if length (lru_keys s) \<ge> dcap s then tl (lru_keys s) else lru_keys s) @ [x]"
proof (cases "length (dmap s) \<ge> dcap s")
  case False
  let ?rec = "\<lparr>dr_count = 1, dr_tier = tier1\<rparr>"
  have r: "(t, k) \<in> set (recency s)
      \<longleftrightarrow> k \<noteq> x \<and> (\<exists>e. map_of (dmap s) k = Some e \<and> de_tick e = t)" for t k
    using new by (auto simp: demand_okD(5) [OF ok])
  note app = demand_append_ok [of "dmap s" "recency s" s x tier1 ?rec, OF demand_okD(1-3) [OF ok]
      demand_okD(4) [OF ok] r demand_okD(6) [OF ok]]
  have "snd (demand_record_op tier1 x s) = s\<lparr>clock := clock s + 1,
      dmap := AList.update x \<lparr>de_record = ?rec, de_tick = clock s + 1\<rparr> (dmap s),
      recency := bt_insert (clock s + 1) x (recency s)\<rparr>"
    using new False by (simp add: demand_record_op_def Let_def)
  then show ?thesis
    using app False lru_keys_length [OF ok] by (simp add: lru_keys_def)
next
  case True
  then have "recency s \<noteq> []"
    using demand_okD(3) [OF ok] lru_keys_length [OF ok] by (auto simp: lru_keys_def)
  then obtain vt vk rest where rec: "recency s = (vt, vk) # rest"
    by (metis list.exhaust surj_pair)
  let ?rec = "\<lparr>dr_count = 1, dr_tier = tier1\<rparr>"
  let ?m = "AList.delete vk (dmap s)"
  have dist: "hm_ok (recency s)" using bt_ok_hm_ok [OF demand_okD(2) [OF ok]] .
  then have vt: "(vt, k) \<notin> set rest" for k
    by (force simp: rec hm_ok_def)
  have vk: "(t, vk) \<notin> set rest" for t
    using lru_keys_distinct [OF ok] by (force simp: rec lru_keys_def)
  have rest: "AList.delete vt rest = rest"
    using vt by (auto simp: AList.delete_eq filter_id_conv)
  have r: "(t, k) \<in> set rest \<longleftrightarrow> k \<noteq> x \<and> (\<exists>e. map_of ?m k = Some e \<and> de_tick e = t)" for t k
  proof -
    have "(t, k) \<in> set rest \<longleftrightarrow> (t, k) \<in> set (recency s) \<and> k \<noteq> vk"
      using vk demand_okD(5) [OF ok, of _ vk] by (auto simp: rec)
    then show ?thesis using new by (auto simp: demand_okD(5) [OF ok] delete_conv')
  qed
  have bound: "t \<le> clock s" if "(t, k) \<in> set rest" for t k
    using that demand_okD(4) [OF ok, of t k] by (simp add: rec)
  have tier: "dr_tier (de_record e) = tier1" if "map_of ?m k = Some e" for k e
    using that demand_okD(6) [OF ok] by (auto simp: delete_conv' split: if_splits)
  note app = demand_append_ok [of ?m rest s x tier1 ?rec,
      OF hm_ok_delete [OF demand_okD(1) [OF ok]] _ demand_okD(3) [OF ok] bound r tier]
  have "bt_ok rest" using bt_ok_tl [OF demand_okD(2) [OF ok]] by (simp add: rec)
  moreover have "snd (demand_record_op tier1 x s) = s\<lparr>clock := clock s + 1,
      dmap := AList.update x \<lparr>de_record = ?rec, de_tick = clock s + 1\<rparr> ?m,
      recency := bt_insert (clock s + 1) x rest\<rparr>"
    using new True by (simp add: demand_record_op_def Let_def rec rest)
  ultimately show ?thesis
    using app True lru_keys_length [OF ok] by (simp add: lru_keys_def rec)
qed

lemma demand_record_ok: "demand_ok tier1 s \<Longrightarrow> demand_ok tier1 (snd (demand_record_op tier1 x s))"
  by (cases "map_of (dmap s) x") (simp_all add: demand_record_known demand_record_unknown)

lemma demand_record_lru:
  assumes "demand_ok tier1 s"
  shows "lru_keys (snd (demand_record_op tier1 x s)) = lru_touch (dcap s) x (lru_keys s)"
  using assms lru_keys_live [OF assms, of x]
  by (cases "map_of (dmap s) x")
    (simp_all add: demand_record_known demand_record_unknown lru_touch_def)

lemma demand_record_dcap [simp]: "dcap (snd (demand_record_op tier1 x s)) = dcap s"
  by (simp add: demand_record_op_def Let_def split: option.splits list.splits prod.splits)

lemma demand_ok_new: "demand_ok tier1 (demand_with_capacity cap)"
  by (simp add: demand_ok_def demand_with_capacity_def bt_ok_def)

text \<open>A run of \<open>record\<close> calls.\<close>

definition demand_run :: "'tier \<Rightarrow> string list \<Rightarrow> 'tier inbound_demand \<Rightarrow> 'tier inbound_demand" where
  "demand_run tier1 ids s = fold (\<lambda>x s. snd (demand_record_op tier1 x s)) ids s"

interpretation demand_table: bounded_table
  "\<lambda>s. length (lru_keys s)" dcap "demand_ok tier1"
  "\<lambda>x s. snd (demand_record_op tier1 x s)" for tier1
  by unfold_locales
    (auto simp: demand_record_lru intro: demand_record_ok length_lru_touch
      dest: lru_keys_distinct demand_okD(3))

lemma demand_run_lru:
  "demand_ok tier1 s \<Longrightarrow>
     lru_keys (demand_run tier1 ids s) = fold (lru_touch (dcap s)) ids (lru_keys s)"
  by (induction ids arbitrary: s) (simp_all add: demand_run_def demand_record_ok demand_record_lru)

lemma demand_run_ok: "demand_ok tier1 s \<Longrightarrow> demand_ok tier1 (demand_run tier1 ids s)"
  unfolding demand_run_def by (rule demand_table.run_ok)

lemma demand_run_Cons: "demand_run tier1 (x # ids) s = demand_run tier1 ids (snd (demand_record_op tier1 x s))"
  by (simp add: demand_run_def)

lemma demand_count_record:
  assumes "demand_ok tier1 s"
  shows "demand_count (snd (demand_record_op tier1 x s)) k =
    (if k = x then u32_sat_add (demand_count s x) 1
     else if k \<in> set (lru_touch (dcap s) x (lru_keys s)) then demand_count s k else 0)"
proof -
  let ?s' = "snd (demand_record_op tier1 x s)"
  have live: "k \<in> set (lru_touch (dcap s) x (lru_keys s)) \<longleftrightarrow> map_of (dmap ?s') k \<noteq> None"
    using lru_keys_live [OF demand_record_ok [OF assms], of k x] by (simp add: demand_record_lru assms)
  have other: "map_of (dmap ?s') k = map_of (dmap s) k" if "k \<noteq> x" "map_of (dmap ?s') k \<noteq> None"
    using that
    by (auto simp: demand_record_op_def Let_def update_conv' delete_conv'
        split: option.splits list.splits prod.splits if_splits)
  have self: "demand_count ?s' x = u32_sat_add (demand_count s x) 1"
    by (auto simp: demand_record_op_def demand_count_def Let_def update_conv' u32_sat_add_def
        split: option.splits list.splits prod.splits if_splits)
  show ?thesis
  proof (cases "k = x")
    case False
    then show ?thesis using live other by (auto simp: demand_count_def split: option.splits)
  qed (simp add: self)
qed

section \<open>Properties\<close>

text \<open>
  C22: over any sequence of demands the ledger holds exactly the stores a least-recently-demanded
  policy of the same capacity keeps, in the same order, and every one of them is tagged with the
  demand tier.
\<close>

theorem demand_refines_lru:
  "lru_keys (demand_run tier1 ids (demand_with_capacity cap))
     = fold (lru_touch (max cap 1)) ids []
   \<and> demand_ok tier1 (demand_run tier1 ids (demand_with_capacity cap))"
proof -
  have "lru_keys (demand_with_capacity cap :: 'a inbound_demand) = []"
    and "dcap (demand_with_capacity cap :: 'a inbound_demand) = max cap 1"
    by (simp_all add: lru_keys_def demand_with_capacity_def)
  then show ?thesis
    using demand_run_lru [OF demand_ok_new, of tier1 ids cap]
      demand_run_ok [OF demand_ok_new, of tier1 ids cap] by simp
qed

text \<open>
  whatever store ids peers name, the ledger never holds more entries than its capacity.
\<close>

theorem demand_bounded:
  "demand_entry_count (demand_run tier1 ids (demand_with_capacity cap)) \<le> max cap 1"
proof -
  let ?s = "demand_with_capacity cap :: 'a inbound_demand"
  have "length (lru_keys (demand_run tier1 ids ?s)) \<le> dcap ?s"
    unfolding demand_run_def
    by (rule demand_table.run_bound [OF demand_ok_new])
      (simp add: lru_keys_def demand_with_capacity_def)
  then show ?thesis
    using lru_keys_length [OF demand_run_ok [OF demand_ok_new, of tier1 ids cap]]
    by (simp add: demand_entry_count_def demand_with_capacity_def)
qed

text \<open>
  a demanded store stays in the ledger, with its count and tier, as long as fewer than \<open>cap\<close>
  other distinct stores have been demanded since, however many requests that took.
\<close>

theorem demand_retained:
  assumes "demand_ok tier1 s" "card (set ids - {k}) < dcap s"
  shows "demand_tier (demand_run tier1 (k # ids) s) k = Some tier1"
proof -
  let ?s' = "snd (demand_record_op tier1 k s)"
  have ok': "demand_ok tier1 ?s'" by (rule demand_record_ok [OF assms(1)])
  obtain ys where lru: "lru_keys ?s' = ys @ k # []"
    unfolding demand_record_lru [OF assms(1)] using lru_touch_last [of "dcap s" k "lru_keys s"] by blast
  have "k \<in> set (fold (lru_touch (dcap s)) ids (lru_keys ?s'))"
    using lru lru_keys_distinct [OF ok'] assms(2) by (intro lru_fold_survives [of _ ys k "[]" "{}"]) auto
  then have "k \<in> set (lru_keys (demand_run tier1 ids ?s'))"
    by (simp add: demand_run_lru [OF ok'])
  then obtain e where "map_of (dmap (demand_run tier1 ids ?s')) k = Some e"
    using lru_keys_live [OF demand_run_ok [OF ok']] by blast
  then show ?thesis
    using demand_okD(6) [OF demand_run_ok [OF ok']]
    by (simp add: demand_tier_def demand_run_Cons)
qed

theorem demand_retained_witness:
  "demand_tier (demand_run True [''a'', ''b'', ''b'', ''a'', ''b''] (demand_with_capacity 2)) ''a''
     = Some True"
proof -
  have "card (set [''b'', ''b'', ''a'', ''b''] - {''a''}) < dcap (demand_with_capacity 2 :: bool inbound_demand)"
    by (simp add: demand_with_capacity_def card_insert_if)
  then show ?thesis by (rule demand_retained [OF demand_ok_new])
qed

text \<open>
  a demand bumps the store's own count by one, saturating at \<open>u32::MAX\<close>, keeps the count of
  every store the policy keeps, and forgets the evicted one.
\<close>

theorem demand_count_spec:
  assumes "demand_ok tier1 s"
  shows "demand_count (snd (demand_record_op tier1 x s)) k =
    (if k = x then u32_sat_add (demand_count s x) 1
     else if k \<in> set (lru_touch (dcap s) x (lru_keys s)) then demand_count s k else 0)"
  by (rule demand_count_record [OF assms])

theorem demand_count_spec_witness:
  "demand_count (snd (demand_record_op True ''b'' (demand_run True [''a'', ''a''] (demand_with_capacity 1)))) ''a'' = 0"
proof -
  let ?s = "demand_run True [''a'', ''a''] (demand_with_capacity 1)"
  have "lru_keys ?s = [''a'']" "dcap ?s = 1"
    by (simp_all add: demand_run_def demand_record_op_def demand_with_capacity_def lru_keys_def Let_def)
  then show ?thesis
    using demand_count_spec [OF demand_run_ok [OF demand_ok_new], of True "''b''" "[''a'', ''a'']" 1 "''a''"]
    by (simp add: lru_touch_def)
qed

end
