(* ===== verification/Subscription.thy ===== *)
theory Subscription
  imports Prelude
begin

text \<open>
  The subscription set (\<open>dig-node-core/src/subscription.rs\<close>): the order-preserving,
  de-duplicated list of store ids the node keeps current, and its persisted document. The JSON
  codec is \<open>serde_json\<close>; the two shapes \<open>load\<close> accepts are values of \<open>subscriptions_file\<close>.
\<close>

type_synonym subscription_set = "string list"

record subscriptions_doc =
  doc_version :: nat
  doc_stores :: "string list"

text \<open>What reading and decoding \<open>subscriptions.json\<close> can yield.\<close>

datatype subscriptions_file =
    Unreadable
  | Doc subscriptions_doc
  | ForeignObject "string option list option"
  | NotJson

definition is_hex64 :: "string \<Rightarrow> bool" where
  "is_hex64 s \<longleftrightarrow> length s = 64 \<and> list_all is_ascii_hexdigit s"

definition normalize_store_id :: "string \<Rightarrow> string" where
  "normalize_store_id store_id = to_ascii_lowercase (str_trim store_id)"

definition sub_add :: "string \<Rightarrow> subscription_set \<Rightarrow> (string + bool) \<times> subscription_set" where
  "sub_add store_id ss =
     (let i = normalize_store_id store_id in
      if \<not> is_hex64 i then (Inl store_id, ss)
      else if i \<in> set ss then (Inr False, ss)
      else (Inr True, ss @ [i]))"

definition sub_remove :: "string \<Rightarrow> subscription_set \<Rightarrow> (string + bool) \<times> subscription_set" where
  "sub_remove store_id ss =
     (let i = normalize_store_id store_id in
      if \<not> is_hex64 i then (Inl store_id, ss)
      else let ss' = filter (\<lambda>s. s \<noteq> i) ss in (Inr (length ss' \<noteq> length ss), ss'))"

definition sub_contains :: "subscription_set \<Rightarrow> string \<Rightarrow> bool" where
  "sub_contains ss store_id \<longleftrightarrow> normalize_store_id store_id \<in> set ss"

definition from_doc :: "subscriptions_doc \<Rightarrow> subscription_set" where
  "from_doc doc = fold (\<lambda>s ss. snd (sub_add s ss)) (doc_stores doc) []"

definition to_doc :: "subscription_set \<Rightarrow> subscriptions_doc" where
  "to_doc ss = \<lparr>doc_version = 1, doc_stores = ss\<rparr>"

text \<open>
  A foreign object yields the strings of its \<open>stores\<close> array; elements that are no strings are
  skipped, and no such array is the empty list.
\<close>

definition load_subscriptions :: "subscriptions_file \<Rightarrow> subscription_set" where
  "load_subscriptions f =
     (case f of
        Unreadable \<Rightarrow> []
      | Doc doc \<Rightarrow> from_doc doc
      | ForeignObject stores \<Rightarrow>
          from_doc \<lparr>doc_version = 1,
            doc_stores = (case stores of None \<Rightarrow> [] | Some a \<Rightarrow> List.map_filter (\<lambda>s. s) a)\<rparr>
      | NotJson \<Rightarrow> [])"

section \<open>Invariant\<close>

text \<open>No duplicates, and every id is lower-case 64-hex.\<close>

definition sub_ok :: "subscription_set \<Rightarrow> bool" where
  "sub_ok ss \<longleftrightarrow>
     distinct ss \<and> (\<forall>s \<in> set ss. length s = 64 \<and> list_all is_lower_hexdigit s)"

lemma normalize_hex64:
  "is_hex64 (normalize_store_id s) \<Longrightarrow>
     length (normalize_store_id s) = 64 \<and> list_all is_lower_hexdigit (normalize_store_id s)"
  by (auto simp: is_hex64_def normalize_store_id_def to_ascii_lowercase_def list_all_iff
      intro: hexdigit_ascii_lower)

lemma normalize_fixed: "list_all is_lower_hexdigit s \<Longrightarrow> normalize_store_id s = s"
  by (simp add: normalize_store_id_def str_trim_lower_hex to_ascii_lowercase_fixed)

lemma normalize_idem: "is_hex64 (normalize_store_id s) \<Longrightarrow>
    normalize_store_id (normalize_store_id s) = normalize_store_id s"
  by (simp add: normalize_hex64 normalize_fixed)

lemma lower_hex64: "length s = 64 \<Longrightarrow> list_all is_lower_hexdigit s \<Longrightarrow> is_hex64 s"
  by (auto simp: is_hex64_def list_all_iff intro: lower_hexdigit_ascii)

lemma sub_add_ok: "sub_ok ss \<Longrightarrow> sub_ok (snd (sub_add s ss))"
  using normalize_hex64 [of s] by (auto simp: sub_add_def sub_ok_def Let_def)

lemma sub_remove_ok: "sub_ok ss \<Longrightarrow> sub_ok (snd (sub_remove s ss))"
  by (auto simp: sub_remove_def sub_ok_def Let_def)

lemma fold_sub_add_ok: "sub_ok ss \<Longrightarrow> sub_ok (fold (\<lambda>s ss. snd (sub_add s ss)) xs ss)"
  by (induction xs arbitrary: ss) (simp_all add: sub_add_ok)

lemma from_doc_ok: "sub_ok (from_doc doc)"
  unfolding from_doc_def by (rule fold_sub_add_ok) (simp add: sub_ok_def)

lemma fold_sub_add_fresh:
  "sub_ok (ys @ xs) \<Longrightarrow> fold (\<lambda>s ss. snd (sub_add s ss)) xs ys = ys @ xs"
proof (induction xs arbitrary: ys)
  case (Cons x xs)
  then have "snd (sub_add x ys) = ys @ [x]"
    by (auto simp: sub_add_def sub_ok_def Let_def normalize_fixed lower_hex64)
  with Cons show ?case by simp
qed simp

section \<open>Operations of a client, in any order\<close>

datatype sub_op = SubAdd string | SubRemove string

definition sub_step :: "sub_op \<Rightarrow> subscription_set \<Rightarrow> subscription_set" where
  "sub_step op ss =
     (case op of SubAdd s \<Rightarrow> snd (sub_add s ss) | SubRemove s \<Rightarrow> snd (sub_remove s ss))"

lemma sub_step_ok: "sub_ok ss \<Longrightarrow> sub_ok (sub_step op ss)"
  by (cases op) (simp_all add: sub_step_def sub_add_ok sub_remove_ok)

lemma sub_run_ok: "sub_ok ss \<Longrightarrow> sub_ok (fold sub_step ops ss)"
  by (induction ops arbitrary: ss) (simp_all add: sub_step_ok)

section \<open>Properties\<close>

text \<open>
  whatever the persisted file holds and whatever is then subscribed and unsubscribed, the set
  has no duplicates and holds only lower-case 64-hex ids.
\<close>

theorem subscriptions_wellformed: "sub_ok (fold sub_step ops (load_subscriptions f))"
proof -
  have "sub_ok (load_subscriptions f)"
    by (cases f) (simp_all add: load_subscriptions_def from_doc_ok, simp_all add: sub_ok_def)
  then show ?thesis by (rule sub_run_ok)
qed

text \<open>writing the set and reading it back restores it, order included.\<close>

theorem subscriptions_roundtrip:
  assumes "sub_ok ss"
  shows "load_subscriptions (Doc (to_doc ss)) = ss"
  using fold_sub_add_fresh [of "[]" ss] assms
  by (simp add: load_subscriptions_def from_doc_def to_doc_def)

theorem subscriptions_roundtrip_witness:
  "load_subscriptions (Doc (to_doc [replicate 64 (CHR ''a''), replicate 64 (CHR ''7'')]))
     = [replicate 64 (CHR ''a''), replicate 64 (CHR ''7'')]"
  by (rule subscriptions_roundtrip) (simp add: sub_ok_def is_lower_hexdigit_def numeral_eq_Suc)

text \<open>
  subscribing makes exactly the normalised id a member, whatever its case and padding, and
  reports whether it was new; a malformed id changes nothing and is an error.
\<close>

theorem sub_add_spec:
  "(case sub_add store_id ss of
      (Inl e, ss') \<Rightarrow> \<not> is_hex64 (normalize_store_id store_id) \<and> e = store_id \<and> ss' = ss
    | (Inr added, ss') \<Rightarrow>
        is_hex64 (normalize_store_id store_id) \<and> added = (\<not> sub_contains ss store_id) \<and>
        (\<forall>x. sub_contains ss' x \<longleftrightarrow>
           sub_contains ss x \<or> normalize_store_id x = normalize_store_id store_id))"
  by (auto simp: sub_add_def sub_contains_def Let_def)

text \<open>
  unsubscribing removes exactly the normalised id and reports whether it was there; a second
  unsubscribe reports that nothing was removed.
\<close>

theorem sub_remove_spec:
  "(case sub_remove store_id ss of
      (Inl e, ss') \<Rightarrow> \<not> is_hex64 (normalize_store_id store_id) \<and> e = store_id \<and> ss' = ss
    | (Inr removed, ss') \<Rightarrow>
        is_hex64 (normalize_store_id store_id) \<and> removed = sub_contains ss store_id \<and>
        (\<forall>x. sub_contains ss' x \<longleftrightarrow>
           sub_contains ss x \<and> normalize_store_id x \<noteq> normalize_store_id store_id)
        \<and> fst (sub_remove store_id ss') = Inr False)"
proof -
  have "length (filter (\<lambda>s. s \<noteq> i) ss) \<noteq> length ss \<longleftrightarrow> i \<in> set ss" for i
    by (metis (mono_tags, lifting) filter_True length_filter_less less_irrefl)
  then show ?thesis
    by (auto simp: sub_remove_def sub_contains_def Let_def)
qed

end
