(* ===== verification/Holder_Cache.thy ===== *)
theory Holder_Cache
  imports Contracts
begin

text \<open>
  The remembered state of the recursive ask (\<open>dig-node-core/src/seams/dig_peer/holder_cache.rs\<close>):
  the bounded map with a time to live, the first-hand holder cache and the seen-set over it.

  Provider records, content ids and their expiry test belong to the \<open>dig-dht\<close> crate; the records
  are values of a type variable and \<open>is_expired\<close> is an argument.
\<close>

section \<open>The bounded map with a time to live\<close>

record ('k, 'v) ttl_map =
  tm_entries :: "('k \<times> (nat \<times> 'v)) list"
  tm_ttl :: nat
  tm_capacity :: nat

definition ttl_new :: "nat \<Rightarrow> nat \<Rightarrow> ('k, 'v) ttl_map" where
  "ttl_new ttl capacity = \<lparr>tm_entries = [], tm_ttl = ttl, tm_capacity = capacity\<rparr>"

definition ttl_get :: "'k \<Rightarrow> nat \<Rightarrow> ('k, 'v) ttl_map \<Rightarrow> 'v option \<times> ('k, 'v) ttl_map" where
  "ttl_get key now m =
     (case map_of (tm_entries m) key of
        None \<Rightarrow> (None, m)
      | Some (stored_at, v) \<Rightarrow>
          if now - stored_at \<ge> tm_ttl m
          then (None, m\<lparr>tm_entries := AList.delete key (tm_entries m)\<rparr>)
          else (Some v, m))"

text \<open>The eviction loop of \<open>insert\<close>: drop an oldest entry until there is room for the key.\<close>

function evict_for :: "'k \<Rightarrow> nat \<Rightarrow> ('k \<times> (nat \<times> 'v)) list \<Rightarrow> ('k \<times> (nat \<times> 'v)) list" where
  "evict_for key capacity es =
     (if length es \<ge> capacity \<and> key \<notin> fst ` set es
      then case min_by_key (\<lambda>(_, (stored_at, _)). stored_at) es of
             None \<Rightarrow> es
           | Some (oldest, _) \<Rightarrow> evict_for key capacity (AList.delete oldest es)
      else es)"
  by pat_completeness auto
termination
proof (relation "measure (\<lambda>(key, capacity, es). length es)")
  fix key :: 'k and capacity and es :: "('k \<times> (nat \<times> 'v)) list" and x k y
  assume "min_by_key (\<lambda>(_, (stored_at, _)). stored_at) es = Some x" "(k, y) = x"
  then have "(k, y) \<in> set es" by (auto dest: min_by_key_in)
  then have "length (AList.delete k es) < length es"
    by (auto simp: AList.delete_eq intro!: length_filter_less)
  then show "((key, capacity, AList.delete k es), (key, capacity, es))
      \<in> measure (\<lambda>(key, capacity, es). length es)" by simp
qed simp

declare evict_for.simps [simp del]

definition ttl_insert :: "'k \<Rightarrow> 'v \<Rightarrow> nat \<Rightarrow> ('k, 'v) ttl_map \<Rightarrow> ('k, 'v) ttl_map" where
  "ttl_insert key v now m =
     (let live = filter (\<lambda>(_, (stored_at, _)). now - stored_at < tm_ttl m) (tm_entries m)
      in m\<lparr>tm_entries := AList.update key (now, v) (evict_for key (tm_capacity m) live)\<rparr>)"

definition ttl_remove :: "'k \<Rightarrow> ('k, 'v) ttl_map \<Rightarrow> ('k, 'v) ttl_map" where
  "ttl_remove key m = m\<lparr>tm_entries := AList.delete key (tm_entries m)\<rparr>"

section \<open>The first-hand holder cache\<close>

definition HOLDER_CACHE_TTL :: nat where "HOLDER_CACHE_TTL = 300 * 1000000000"
definition HOLDER_CACHE_CAPACITY :: nat where "HOLDER_CACHE_CAPACITY = 4096"
definition ASK_SEEN_CAPACITY :: nat where "ASK_SEEN_CAPACITY = 8192"

type_synonym ('c, 'r) holder_cache = "('c, 'r list) ttl_map"

definition holder_cache_new :: "('c, 'r) holder_cache" where
  "holder_cache_new = ttl_new HOLDER_CACHE_TTL HOLDER_CACHE_CAPACITY"

definition holder_get_at ::
  "('r \<Rightarrow> nat \<Rightarrow> bool) \<Rightarrow> 'c \<Rightarrow> nat \<Rightarrow> nat \<Rightarrow> ('c, 'r) holder_cache \<Rightarrow> 'r list option \<times> ('c, 'r) holder_cache"
where
  "holder_get_at is_expired content now now_secs self =
     (case ttl_get content now self of
        (None, self') \<Rightarrow> (None, self')
      | (Some records, self') \<Rightarrow>
          let live = filter (\<lambda>r. \<not> is_expired r now_secs) records
          in if live = [] then (None, ttl_remove content self') else (Some live, self'))"

definition holder_remember :: "'c \<Rightarrow> 'r list \<Rightarrow> nat \<Rightarrow> ('c, 'r) holder_cache \<Rightarrow> ('c, 'r) holder_cache" where
  "holder_remember content records now self =
     (if records = [] then self else ttl_insert content records now self)"

definition holder_forget :: "'c \<Rightarrow> ('c, 'r) holder_cache \<Rightarrow> ('c, 'r) holder_cache" where
  "holder_forget content self = ttl_remove content self"

section \<open>The seen-set\<close>

type_synonym ('i, 'c) ask_seen_set = "('i \<times> 'c, unit) ttl_map"

definition ask_seen_new :: "nat \<Rightarrow> ('i, 'c) ask_seen_set" where
  "ask_seen_new budget = ttl_new budget ASK_SEEN_CAPACITY"

text \<open>
  A claim looks the question up and, when it is not there, inserts it. Each of the two takes the lock of
  the map for itself, so another claim may come in between: they are two steps, and \<open>ask_claim\<close> is a
  claim no other comes between.
\<close>

definition ask_look :: "'i \<Rightarrow> 'c \<Rightarrow> nat \<Rightarrow> ('i, 'c) ask_seen_set \<Rightarrow> bool \<times> ('i, 'c) ask_seen_set" where
  "ask_look i content now self =
     (let (hit, self') = ttl_get (i, content) now self in (hit = None, self'))"

definition ask_insert :: "'i \<Rightarrow> 'c \<Rightarrow> nat \<Rightarrow> ('i, 'c) ask_seen_set \<Rightarrow> ('i, 'c) ask_seen_set" where
  "ask_insert i content now self = ttl_insert (i, content) () now self"

definition ask_claim :: "'i \<Rightarrow> 'c \<Rightarrow> nat \<Rightarrow> ('i, 'c) ask_seen_set \<Rightarrow> bool \<times> ('i, 'c) ask_seen_set" where
  "ask_claim i content now self =
     (let (fresh, self') = ask_look i content now self
      in if \<not> fresh then (False, self') else (True, ask_insert i content now self'))"

section \<open>Facts about the map\<close>

definition ttl_ok :: "('k, 'v) ttl_map \<Rightarrow> bool" where
  "ttl_ok m \<longleftrightarrow> hm_ok (tm_entries m)"

text \<open>The value a lookup at \<open>now\<close> would return.\<close>

definition ttl_view :: "('k, 'v) ttl_map \<Rightarrow> nat \<Rightarrow> 'k \<Rightarrow> 'v option" where
  "ttl_view m now key =
     (case map_of (tm_entries m) key of
        None \<Rightarrow> None
      | Some (stored_at, v) \<Rightarrow> if now - stored_at \<ge> tm_ttl m then None else Some v)"

lemma ttl_get_fst [simp]: "fst (ttl_get key now m) = ttl_view m now key"
  by (simp add: ttl_get_def ttl_view_def split: option.splits prod.splits)

lemma ttl_params [simp]:
  "tm_ttl (snd (ttl_get key now m)) = tm_ttl m"
  "tm_capacity (snd (ttl_get key now m)) = tm_capacity m"
  "tm_ttl (ttl_insert key v now m) = tm_ttl m"
  "tm_capacity (ttl_insert key v now m) = tm_capacity m"
  "tm_ttl (ttl_remove key m) = tm_ttl m"
  "tm_capacity (ttl_remove key m) = tm_capacity m"
  by (simp_all add: ttl_get_def ttl_insert_def ttl_remove_def Let_def split: option.splits prod.splits)

text \<open>A lookup may drop an expired entry; no later lookup can tell.\<close>

lemma ttl_get_view:
  "now \<le> now' \<Longrightarrow> ttl_view (snd (ttl_get key now m)) now' k = ttl_view m now' k"
  by (auto simp: ttl_get_def ttl_view_def delete_conv' split: option.splits prod.splits)

lemma evict_for_step:
  assumes "cap \<le> length es \<and> key \<notin> fst ` set es"
    and "min_by_key (\<lambda>(_, (stored_at, _)). stored_at) es = Some (k, y)"
  shows "evict_for key cap es = evict_for key cap (AList.delete k es)"
  using assms by (simp add: evict_for.simps [of key cap es])

lemma evict_for_Nil: "evict_for key cap [] = []"
  by (subst evict_for.simps) simp

lemma evict_for_filter: "\<exists>P. evict_for key cap es = filter P es"
proof (induction key cap es rule: evict_for.induct)
  case (1 key cap es)
  have stop: "evict_for key cap es = es \<Longrightarrow> ?case"
    by (rule exI [of _ "\<lambda>_. True"]) simp
  show ?case
  proof (cases "cap \<le> length es \<and> key \<notin> fst ` set es")
    case True
    show ?thesis
    proof (cases "min_by_key (\<lambda>(_, (stored_at, _)). stored_at) es")
      case (Some x)
      obtain k y where x: "x = (k, y)" by (cases x)
      obtain P where "evict_for key cap (AList.delete k es) = filter P (AList.delete k es)"
        using "1.IH" [OF True Some x [symmetric]] by blast
      then show ?thesis
        using evict_for_step [OF True, of k y] Some x
        by (auto simp: AList.delete_eq filter_filter)
    qed (rule stop, simp add: evict_for_Nil)
  qed (rule stop, auto simp: evict_for.simps [of key cap es])
qed

lemma evict_for_ok: "hm_ok es \<Longrightarrow> hm_ok (evict_for key cap es)"
  using evict_for_filter [of key cap es] by auto

lemma evict_for_subset: "set (evict_for key cap es) \<subseteq> set es"
  using evict_for_filter [of key cap es] by auto

lemma evict_for_length: "length (evict_for key cap es) \<le> length es"
  using evict_for_filter [of key cap es] by auto

lemma evict_for_room:
  "key \<in> fst ` set (evict_for key cap es) \<or> length (evict_for key cap es) < cap
   \<or> evict_for key cap es = []"
proof (induction key cap es rule: evict_for.induct)
  case (1 key cap es)
  then show ?case
    by (subst (1 2 3) evict_for.simps) (auto split: option.splits)
qed

lemma evict_for_id: "length es < cap \<or> key \<in> fst ` set es \<Longrightarrow> evict_for key cap es = es"
  by (subst evict_for.simps) auto

text \<open>What the loop drops is no younger than anything it keeps.\<close>

lemma evict_for_oldest:
  assumes "hm_ok es" "(k, (t, v)) \<in> set es" "(k, (t, v)) \<notin> set (evict_for key cap es)"
    and "(k', (t', v')) \<in> set (evict_for key cap es)"
  shows "t \<le> t'"
  using assms
proof (induction key cap es rule: evict_for.induct)
  case (1 key cap es)
  show ?case
  proof (cases "length es \<ge> cap \<and> key \<notin> fst ` set es")
    case False
    then have "evict_for key cap es = es" by (subst evict_for.simps) auto
    then show ?thesis using "1.prems" by simp
  next
    case True
    show ?thesis
    proof (cases "min_by_key (\<lambda>(_, (stored_at, _)). stored_at) es")
      case None
      then show ?thesis using 1 by simp
    next
      case (Some x)
      obtain o' y where x: "x = (o', y)" by (cases x)
      have step: "evict_for key cap es = evict_for key cap (AList.delete o' es)"
        using True Some x by (subst evict_for.simps) simp
      show ?thesis
      proof (cases "k = o'")
        case True
        have "(k, (t, v)) = (o', y)"
          using True min_by_key_in [OF Some] "1.prems"(1,2) x
          by (auto simp: hm_in_set_iff)
        moreover have "(k', (t', v')) \<in> set es"
          using "1.prems"(4) evict_for_subset [of key cap es] by blast
        ultimately show ?thesis using min_by_key_le [OF Some] x by fastforce
      next
        case False
        then have "(k, (t, v)) \<in> set (AList.delete o' es)"
          using "1.prems"(2) by (auto simp: AList.delete_eq)
        then show ?thesis
          using "1.IH" [OF \<open>cap \<le> length es \<and> key \<notin> fst ` set es\<close> Some x [symmetric]] "1.prems"(1,3,4) step by simp
      qed
    qed
  qed
qed

lemma ttl_get_ok: "ttl_ok m \<Longrightarrow> ttl_ok (snd (ttl_get key now m))"
  by (simp add: ttl_ok_def ttl_get_def split: option.splits prod.splits)

lemma ttl_remove_ok: "ttl_ok m \<Longrightarrow> ttl_ok (ttl_remove key m)"
  by (simp add: ttl_ok_def ttl_remove_def)

lemma ttl_insert_ok: "ttl_ok m \<Longrightarrow> ttl_ok (ttl_insert key v now m)"
  by (simp add: ttl_ok_def ttl_insert_def Let_def evict_for_ok)

lemma ttl_remove_view:
  "ttl_view (ttl_remove key m) now k = (if k = key then None else ttl_view m now k)"
  by (auto simp: ttl_view_def ttl_remove_def delete_conv' split: option.splits)

lemma ttl_insert_same:
  "ttl_view (ttl_insert key v now m) now' key = (if now' - now \<ge> tm_ttl m then None else Some v)"
  by (simp add: ttl_view_def ttl_insert_def Let_def update_conv')

abbreviation (input) ttl_live :: "('k, 'v) ttl_map \<Rightarrow> nat \<Rightarrow> ('k \<times> (nat \<times> 'v)) list" where
  "ttl_live m now \<equiv> filter (\<lambda>(_, (stored_at, _)). now - stored_at < tm_ttl m) (tm_entries m)"

text \<open>Inserting a key never makes another one appear or change.\<close>

lemma ttl_insert_other:
  assumes "ttl_ok m" "k \<noteq> key" "ttl_view (ttl_insert key v now m) now' k = Some w"
  shows "ttl_view m now' k = Some w"
proof -
  let ?es = "evict_for key (tm_capacity m) (ttl_live m now)"
  obtain t where t: "map_of ?es k = Some (t, w)" "\<not> now' - t \<ge> tm_ttl m"
    using assms(2,3)
    by (auto simp: ttl_view_def ttl_insert_def Let_def update_conv' split: option.splits if_splits)
  have "(k, (t, w)) \<in> set (tm_entries m)"
    using map_of_SomeD [OF t(1)] evict_for_subset by fastforce
  then have "map_of (tm_entries m) k = Some (t, w)"
    using assms(1) by (simp add: ttl_ok_def hm_in_set_iff)
  with t(2) show ?thesis by (simp add: ttl_view_def)
qed

text \<open>With room for the key, or the key there already, nothing that is live is lost.\<close>

lemma ttl_insert_keeps:
  assumes "ttl_ok m" "k \<noteq> key" "now \<le> now'"
    and "length (ttl_live m now) < tm_capacity m \<or> key \<in> fst ` set (ttl_live m now)"
  shows "ttl_view (ttl_insert key v now m) now' k = ttl_view m now' k"
proof -
  have "evict_for key (tm_capacity m) (ttl_live m now) = ttl_live m now"
    using assms(4) by (rule evict_for_id)
  then have "ttl_view (ttl_insert key v now m) now' k =
      (case map_of (ttl_live m now) k of None \<Rightarrow> None
       | Some (t, w) \<Rightarrow> if now' - t \<ge> tm_ttl m then None else Some w)"
    using assms(2)
    by (auto simp: ttl_view_def ttl_insert_def Let_def update_conv' split: option.splits)
  also have "\<dots> = ttl_view m now' k"
    using assms(1,3)
    by (auto simp: ttl_view_def ttl_ok_def map_of_filter_keyed split: option.splits prod.splits)
  finally show ?thesis .
qed

section \<open>The contract of the map, and its two clients\<close>

locale ttl_store =
  fixes get :: "'k \<Rightarrow> nat \<Rightarrow> 's \<Rightarrow> 'v option \<times> 's"
    and put :: "'k \<Rightarrow> 'v \<Rightarrow> nat \<Rightarrow> 's \<Rightarrow> 's"
    and drop_key :: "'k \<Rightarrow> 's \<Rightarrow> 's"
    and view :: "'s \<Rightarrow> nat \<Rightarrow> 'k \<Rightarrow> 'v option"
    and ttl :: "'s \<Rightarrow> nat"
    and ok :: "'s \<Rightarrow> bool"
  assumes get_hit: "ok s \<Longrightarrow> fst (get k now s) = view s now k"
    and get_frame: "ok s \<Longrightarrow> now \<le> now' \<Longrightarrow> view (snd (get k now s)) now' k' = view s now' k'"
    and get_ok: "ok s \<Longrightarrow> ok (snd (get k now s))"
    and get_ttl: "ok s \<Longrightarrow> ttl (snd (get k now s)) = ttl s"
    and put_same: "ok s \<Longrightarrow> view (put k v now s) now' k = (if now' - now \<ge> ttl s then None else Some v)"
    and put_other: "ok s \<Longrightarrow> k' \<noteq> k \<Longrightarrow> view (put k v now s) now' k' = Some w \<Longrightarrow> view s now' k' = Some w"
    and put_ok: "ok s \<Longrightarrow> ok (put k v now s)"
    and drop_view: "ok s \<Longrightarrow> view (drop_key k s) now k' = (if k' = k then None else view s now k')"
begin

text \<open>A claim made through the store: accepted once, refused for the rest of the time to live.\<close>

lemma claim_accepted:
  assumes "ok s" and "(hit, s') = get k now s"
  shows "hit = None \<longleftrightarrow> view s now k = None"
  using get_hit [OF assms(1), of k now] assms(2) by (metis fst_conv)

lemma claim_then_refused:
  assumes "ok s" "(hit, s') = get k now s" "now' - now < ttl s"
  shows "view (put k v now s') now' k = Some v"
proof -
  have "ok s'" "ttl s' = ttl s"
    using get_ok [OF assms(1), of k now] get_ttl [OF assms(1), of k now] assms(2)
    by (metis snd_conv)+
  then show ?thesis using put_same [of s' k v now now'] assms(3) by simp
qed

text \<open>What a lookup finds after an insertion under another key was there before.\<close>

lemma put_no_invention:
  assumes "ok s" "view (put k v now s) now' k' = Some w"
  shows "k' = k \<and> w = v \<and> now' - now < ttl s \<or> k' \<noteq> k \<and> view s now' k' = Some w"
  using assms put_same [OF assms(1), of k v now now'] put_other [OF assms(1), of k' k v now now' w]
  by (cases "k' = k") (auto split: if_splits)

end

interpretation ttl_map_store: ttl_store ttl_get ttl_insert ttl_remove ttl_view tm_ttl ttl_ok
  by unfold_locales
    (auto simp: ttl_get_view ttl_insert_same ttl_remove_view intro: ttl_get_ok ttl_insert_ok
      dest: ttl_insert_other)

interpretation ttl_map_table: bounded_table
  "\<lambda>m. length (tm_entries m)" "\<lambda>m. max (tm_capacity m) 1" ttl_ok
  "\<lambda>(key, v, now) m. ttl_insert key v now m"
proof unfold_locales
  fix m :: "('a, 'b) ttl_map" and i :: "'a \<times> 'b \<times> nat"
  assume "ttl_ok m" "length (tm_entries m) \<le> max (tm_capacity m) 1"
  obtain key v now where i: "i = (key, v, now)" by (cases i)
  let ?es = "evict_for key (tm_capacity m) (ttl_live m now)"
  have "length ?es \<le> length (ttl_live m now)" by (rule evict_for_length)
  also have "\<dots> \<le> length (tm_entries m)" by simp
  finally have "length ?es \<le> max (tm_capacity m) 1"
    using \<open>length (tm_entries m) \<le> _\<close> by simp
  then show "length (tm_entries ((\<lambda>(key, v, now) m. ttl_insert key v now m) i m)) \<le> max (tm_capacity m) 1"
    using evict_for_room [of key "tm_capacity m" "ttl_live m now"]
    by (auto simp: i ttl_insert_def Let_def length_update)
qed (auto intro: ttl_insert_ok)

section \<open>Claims against the ideal seen-set\<close>

text \<open>
  Claims as they interleave: \<open>Arrive k i c now\<close> is the lookup of claim \<open>k\<close>, \<open>Insert k\<close> the insertion that
  follows when it found nothing. A schedule is any order of them; its result lists what each claim
  answers. The ideal has unlimited memory: a question is new unless it was inserted within the time to
  live.
\<close>

datatype ('i, 'c) claim_act = Arrive nat 'i 'c nat | Insert nat

fun claim_sched ::
  "('i, 'c) ask_seen_set \<Rightarrow> (nat \<rightharpoonup> ('i \<times> 'c) \<times> nat) \<Rightarrow> ('i, 'c) claim_act list \<Rightarrow> (nat \<times> bool) list"
where
  "claim_sched s p [] = []"
| "claim_sched s p (Arrive k i c now # as) =
     (let (fresh, s') = ask_look i c now s
      in (k, fresh) # claim_sched s' (if fresh then p(k \<mapsto> ((i, c), now)) else p) as)"
| "claim_sched s p (Insert k # as) =
     (case p k of
        None \<Rightarrow> claim_sched s p as
      | Some ((i, c), now) \<Rightarrow> claim_sched (ask_insert i c now s) (p(k := None)) as)"

definition is_new :: "nat \<Rightarrow> ('q \<rightharpoonup> nat) \<Rightarrow> 'q \<Rightarrow> nat \<Rightarrow> bool" where
  "is_new ttl f q now \<longleftrightarrow> (case f q of None \<Rightarrow> True | Some t \<Rightarrow> now - t \<ge> ttl)"

fun ideal_sched ::
  "nat \<Rightarrow> ('i \<times> 'c \<rightharpoonup> nat) \<Rightarrow> (nat \<rightharpoonup> ('i \<times> 'c) \<times> nat) \<Rightarrow> ('i, 'c) claim_act list \<Rightarrow> (nat \<times> bool) list"
where
  "ideal_sched ttl f p [] = []"
| "ideal_sched ttl f p (Arrive k i c now # as) =
     (let fresh = is_new ttl f (i, c) now
      in (k, fresh) # ideal_sched ttl f (if fresh then p(k \<mapsto> ((i, c), now)) else p) as)"
| "ideal_sched ttl f p (Insert k # as) =
     (case p k of
        None \<Rightarrow> ideal_sched ttl f p as
      | Some (q, now) \<Rightarrow> ideal_sched ttl (f(q \<mapsto> now)) (p(k := None)) as)"

fun arrival :: "('i, 'c) claim_act \<Rightarrow> (('i \<times> 'c) \<times> nat) option" where
  "arrival (Arrive k i c now) = Some ((i, c), now)"
| "arrival (Insert k) = None"

abbreviation arrivals :: "('i, 'c) claim_act list \<Rightarrow> (('i \<times> 'c) \<times> nat) list" where
  "arrivals as \<equiv> List.map_filter arrival as"

text \<open>Claims that do not overlap, and what they come to.\<close>

fun claims_run :: "('i, 'c) ask_seen_set \<Rightarrow> (('i \<times> 'c) \<times> nat) list \<Rightarrow> bool list" where
  "claims_run s [] = []"
| "claims_run s (((i, c), now) # cs) =
     (let (accepted, s') = ask_claim i c now s in accepted # claims_run s' cs)"

fun ideal_claims :: "nat \<Rightarrow> ('q \<rightharpoonup> nat) \<Rightarrow> ('q \<times> nat) list \<Rightarrow> bool list" where
  "ideal_claims ttl f [] = []"
| "ideal_claims ttl f ((q, now) # cs) =
     (let fresh = is_new ttl f q now
      in fresh # ideal_claims ttl (if fresh then f(q \<mapsto> now) else f) cs)"

fun one_by_one :: "(('i \<times> 'c) \<times> nat) list \<Rightarrow> ('i, 'c) claim_act list" where
  "one_by_one [] = []"
| "one_by_one (((i, c), now) # cs) = Arrive 0 i c now # Insert 0 # one_by_one cs"

lemma arrivals_one_by_one: "arrivals (one_by_one cs) = cs"
  by (induction cs rule: one_by_one.induct) (simp_all add: List.map_filter_simps)

lemma claims_run_sched: "map snd (claim_sched s Map.empty (one_by_one cs)) = claims_run s cs"
proof (induction cs arbitrary: s rule: one_by_one.induct)
  case (2 i c now cs)
  obtain fresh s' where "ask_look i c now s = (fresh, s')" by force
  then show ?case using 2 by (cases fresh) (simp_all add: ask_claim_def)
qed simp

lemma ideal_claims_sched: "map snd (ideal_sched ttl f Map.empty (one_by_one cs)) = ideal_claims ttl f cs"
  by (induction cs arbitrary: f rule: one_by_one.induct) (auto simp: Let_def)

text \<open>The seen-set agrees with the ideal from time \<open>t\<close> on and has met only questions of \<open>S\<close>.\<close>

definition seen_sim :: "('i, 'c) ask_seen_set \<Rightarrow> (('i \<times> 'c) \<rightharpoonup> nat) \<Rightarrow> nat \<Rightarrow> ('i \<times> 'c) set \<Rightarrow> bool" where
  "seen_sim s f t S \<longleftrightarrow>
     ttl_ok s \<and> fst ` set (tm_entries s) \<subseteq> S \<and>
     (\<forall>now q. t \<le> now \<longrightarrow> (ttl_view s now q = None \<longleftrightarrow> is_new (tm_ttl s) f q now))"

lemma ttl_get_keys: "set (tm_entries (snd (ttl_get k now s))) \<subseteq> set (tm_entries s)"
  by (auto simp: ttl_get_def AList.delete_eq split: option.splits prod.splits)

lemma seen_sim_look:
  assumes "seen_sim s f t S" "t \<le> now" "ask_look i c now s = (fresh, s')"
  shows "fresh = is_new (tm_ttl s) f (i, c) now" "seen_sim s' f now S" "tm_ttl s' = tm_ttl s"
    "tm_capacity s' = tm_capacity s"
proof -
  obtain hit s0 where g: "ttl_get (i, c) now s = (hit, s0)" by force
  have "hit = ttl_view s now (i, c)" using ttl_get_fst [of "(i, c)" now s] unfolding g by simp
  then have look: "fresh \<longleftrightarrow> ttl_view s now (i, c) = None" "s' = snd (ttl_get (i, c) now s)"
    using assms(3) g by (auto simp: ask_look_def)
  show "fresh = is_new (tm_ttl s) f (i, c) now" using assms(1,2) look(1) by (simp add: seen_sim_def)
  have "fst ` set (tm_entries s') \<subseteq> fst ` set (tm_entries s)"
    unfolding look(2) by (intro image_mono ttl_get_keys)
  then show "seen_sim s' f now S"
    using assms(1,2) ttl_get_ok [of s] unfolding seen_sim_def look(2)
    by (simp add: ttl_get_view) (meson order.trans)
  show "tm_ttl s' = tm_ttl s" "tm_capacity s' = tm_capacity s" by (simp_all add: look(2))
qed

lemma seen_sim_insert:
  assumes sim: "seen_sim s f t S" and S: "finite S" "(i, c) \<in> S" "card S \<le> tm_capacity s" and t: "now \<le> t"
  shows "seen_sim (ask_insert i c now s) (f((i, c) \<mapsto> now)) t S"
proof -
  have ok: "ttl_ok s" and keys: "fst ` set (tm_entries s) \<subseteq> S" using sim by (auto simp: seen_sim_def)
  let ?live = "ttl_live s now"
  have room: "length ?live < tm_capacity s \<or> (i, c) \<in> fst ` set ?live"
  proof (rule disjCI)
    assume out: "(i, c) \<notin> fst ` set ?live"
    have "length ?live = card (fst ` set ?live)"
      using ok distinct_card [of "map fst ?live"] by (simp add: ttl_ok_def hm_ok_def distinct_map_filter)
    also have "\<dots> < card S"
      using out keys S(1,2) by (intro psubset_card_mono) auto
    finally show "length ?live < tm_capacity s" using S(3) by simp
  qed
  have "ttl_view (ask_insert i c now s) now' q = None \<longleftrightarrow> is_new (tm_ttl s) (f((i, c) \<mapsto> now)) q now'"
    if "t \<le> now'" for now' q
  proof (cases "q = (i, c)")
    case True
    then show ?thesis by (simp add: ask_insert_def ttl_insert_same is_new_def)
  next
    case False
    have "ttl_view s now' q = None \<longleftrightarrow> is_new (tm_ttl s) f q now'"
      using sim that unfolding seen_sim_def by blast
    moreover have "is_new (tm_ttl s) (f((i, c) \<mapsto> now)) q now' = is_new (tm_ttl s) f q now'"
      using False by (simp add: is_new_def)
    ultimately show ?thesis
      using ttl_insert_keeps [OF ok False _ room, of now' "()"] t that by (simp add: ask_insert_def)
  qed
  moreover have "fst ` set (tm_entries (ask_insert i c now s)) \<subseteq> S"
    using keys S(2) evict_for_subset [of "(i, c)" "tm_capacity s" ?live]
    by (auto simp: ask_insert_def ttl_insert_def Let_def dom_update)
  ultimately show ?thesis using ttl_insert_ok [OF ok] by (simp add: seen_sim_def ask_insert_def)
qed

lemma claim_sched_ideal:
  assumes "seen_sim s f t S" "finite S" "fst ` set (arrivals as) \<subseteq> S" "card S \<le> tm_capacity s"
    and "timed_from snd t (arrivals as)" "\<forall>k q now. p k = Some (q, now) \<longrightarrow> q \<in> S \<and> now \<le> t"
  shows "claim_sched s p as = ideal_sched (tm_ttl s) f p as"
  using assms
proof (induction as arbitrary: s f t p)
  case (Cons a as)
  show ?case
  proof (cases a)
    case (Arrive k i c now)
    obtain fresh s' where look: "ask_look i c now s = (fresh, s')" by force
    have t: "t \<le> now" "(i, c) \<in> S" "timed_from snd now (arrivals as)"
      using Cons.prems(3,5) Arrive by (auto simp: List.map_filter_simps)
    note sim = seen_sim_look [OF Cons.prems(1) t(1) look]
    have p: "\<forall>k' q n. (if fresh then p(k \<mapsto> ((i, c), now)) else p) k' = Some (q, n) \<longrightarrow> q \<in> S \<and> n \<le> now"
      using Cons.prems(6) t by (fastforce split: if_splits)
    have "claim_sched s' (if fresh then p(k \<mapsto> ((i, c), now)) else p) as
        = ideal_sched (tm_ttl s') f (if fresh then p(k \<mapsto> ((i, c), now)) else p) as"
      by (rule Cons.IH [OF sim(2) Cons.prems(2) _ _ t(3) p])
        (use Cons.prems(3,4) sim Arrive in \<open>auto simp: List.map_filter_simps\<close>)
    then show ?thesis using Arrive look sim by simp
  next
    case (Insert k)
    show ?thesis
    proof (cases "p k")
      case None
      then show ?thesis using Cons Insert by (simp add: List.map_filter_simps)
    next
      case (Some qn)
      obtain i c now where q: "qn = ((i, c), now)" by (metis surj_pair)
      have qs: "(i, c) \<in> S" "now \<le> t" using Cons.prems(6) Some q by auto
      have "claim_sched (ask_insert i c now s) (p(k := None)) as
          = ideal_sched (tm_ttl (ask_insert i c now s)) (f((i, c) \<mapsto> now)) (p(k := None)) as"
        by (rule Cons.IH [OF seen_sim_insert [OF Cons.prems(1,2) qs(1) Cons.prems(4) qs(2)] Cons.prems(2)])
          (use Cons.prems Insert in \<open>auto simp: List.map_filter_simps ask_insert_def split: if_splits\<close>)
      then show ?thesis using Insert Some q by (simp add: ask_insert_def)
    qed
  qed
qed simp

lemma new_seen_sim: "seen_sim (ask_seen_new budget) Map.empty t S"
  by (simp add: seen_sim_def ask_seen_new_def ttl_new_def ttl_ok_def ttl_view_def is_new_def)

text \<open>Two claims of one question that overlap are both told it is new.\<close>

lemma overlapping_claims_both_new:
  "claim_sched (ask_seen_new budget) Map.empty [Arrive 1 i c now, Arrive 2 i c now', Insert 1, Insert 2]
     = [(1, True), (2, True)]"
  by (simp add: ask_look_def ask_seen_new_def ttl_new_def ttl_get_def)

section \<open>Properties\<close>

text \<open>
  C21: what the seen-set answers, however claims interleave. A claim looks and inserts under two separate
  locks, so others may come between its two halves. As long as no more distinct questions than the set's
  capacity arrive, every claim is answered as by a seen-set with unlimited memory: new, unless some claim
  of the same question has been inserted within the time to live. So different questions never hide one
  another. When claims do not overlap, one question is walked once per time to live, at whatever path
  it arrives; claims of it that overlap are each told that it is new.
\<close>

theorem ask_claims_ideal:
  fixes as :: "('i, 'c) claim_act list" and cs :: "(('i \<times> 'c) \<times> nat) list"
  assumes "timed_from snd t (arrivals as)" "card (fst ` set (arrivals as)) \<le> ASK_SEEN_CAPACITY"
    and "timed_from snd t cs" "card (fst ` set cs) \<le> ASK_SEEN_CAPACITY"
  shows "claim_sched (ask_seen_new budget) Map.empty as = ideal_sched budget Map.empty Map.empty as
    \<and> claims_run (ask_seen_new budget) cs = ideal_claims budget Map.empty cs"
proof -
  have ideal: "claim_sched (ask_seen_new budget) Map.empty bs = ideal_sched budget Map.empty Map.empty bs"
    if "timed_from snd t (arrivals bs)" "card (fst ` set (arrivals bs)) \<le> ASK_SEEN_CAPACITY"
    for bs :: "('i, 'c) claim_act list"
    using claim_sched_ideal [OF new_seen_sim, of "fst ` set (arrivals bs)" bs budget t Map.empty] that
    by (simp add: ask_seen_new_def ttl_new_def)
  have "claims_run (ask_seen_new budget) cs = ideal_claims budget Map.empty cs"
    using ideal [of "one_by_one cs"] assms(3,4) claims_run_sched [of "ask_seen_new budget" cs]
      ideal_claims_sched [of budget Map.empty cs] by (simp add: arrivals_one_by_one)
  with ideal [OF assms(1,2)] show ?thesis by blast
qed

theorem ask_claims_ideal_witness:
  "claim_sched (ask_seen_new 10) Map.empty
     [Arrive 1 (1::nat) ''x'' 5, Arrive 2 1 ''x'' 6, Insert 2, Insert 1, Arrive 3 1 ''x'' 7, Arrive 4 1 ''y'' 7]
   = [(1, True), (2, True), (3, False), (4, True)]
   \<and> claims_run (ask_seen_new 10)
     [((1::nat, ''x''), 5), ((1, ''y''), 6), ((1, ''x''), 7), ((2, ''x''), 7), ((1, ''x''), 15)]
   = [True, True, False, True, True]"
proof -
  let ?cs = "[((1::nat, ''x''), 5), ((1, ''y''), 6), ((1, ''x''), 7), ((2, ''x''), 7), ((1, ''x''), 15::nat)]"
  let ?as = "[Arrive 1 (1::nat) ''x'' 5, Arrive 2 1 ''x'' 6, Insert 2, Insert 1, Arrive 3 1 ''x'' 7, Arrive 4 1 ''y'' 7]"
  have "card (fst ` set ?cs) \<le> ASK_SEEN_CAPACITY" "card (fst ` set (arrivals ?as)) \<le> ASK_SEEN_CAPACITY"
    "timed_from snd 0 ?cs" "timed_from snd 0 (arrivals ?as)"
    by (simp_all add: ASK_SEEN_CAPACITY_def card_insert_if List.map_filter_simps)
  moreover have "ideal_claims 10 Map.empty ?cs = [True, True, False, True, True]"
    "ideal_sched 10 Map.empty Map.empty ?as = [(1, True), (2, True), (3, False), (4, True)]"
    by (simp_all add: Let_def is_new_def)
  ultimately show ?thesis using ask_claims_ideal [of 0 ?as ?cs 10] by simp
qed

text \<open>
  whatever is inserted, the map never holds more entries than its capacity (one entry when
  the capacity is zero).
\<close>

theorem ttl_map_bounded:
  "length (tm_entries (fold (\<lambda>(key, v, now) m. ttl_insert key v now m) is (ttl_new ttl capacity)))
     \<le> max capacity 1"
  using ttl_map_table.run_bound [of "ttl_new ttl capacity" "is"]
  by (simp add: ttl_new_def ttl_ok_def)

text \<open>
  an insertion evicts only what has expired or is no younger than everything the map still
  holds, and it never evicts a live entry while there is room.
\<close>

theorem ttl_insert_evicts_oldest:
  assumes "ttl_ok m" "k \<noteq> key" "map_of (tm_entries m) k = Some (t, w)" "now - t < tm_ttl m"
    and "map_of (tm_entries (ttl_insert key v now m)) k = None"
  shows "length (ttl_live m now) \<ge> tm_capacity m
    \<and> (\<forall>k' t' w'. k' \<noteq> key \<and> map_of (tm_entries (ttl_insert key v now m)) k' = Some (t', w') \<longrightarrow> t \<le> t')"
proof -
  let ?live = "ttl_live m now" and ?es = "evict_for key (tm_capacity m) (ttl_live m now)"
  have ins: "map_of (tm_entries (ttl_insert key v now m)) k' = map_of ?es k'" if "k' \<noteq> key" for k'
    using that by (simp add: ttl_insert_def Let_def update_conv')
  have ok: "hm_ok ?live" using assms(1) by (simp add: ttl_ok_def)
  have live: "(k, (t, w)) \<in> set ?live"
    using assms(1,3,4) by (simp add: ttl_ok_def hm_in_set_iff)
  have gone: "(k, (t, w)) \<notin> set ?es"
    using assms(2,5) ins evict_for_ok [OF ok] by (simp add: hm_in_set_iff)
  then have "length ?live \<ge> tm_capacity m"
    using live evict_for_id [of ?live "tm_capacity m" key] by (metis not_le)
  moreover have "t \<le> t'" if "k' \<noteq> key" "map_of (tm_entries (ttl_insert key v now m)) k' = Some (t', w')" for k' t' w'
    using that ins evict_for_oldest [OF ok live gone] by (auto dest: map_of_SomeD)
  ultimately show ?thesis by blast
qed

theorem ttl_insert_evicts_oldest_witness:
  "\<exists>m. map_of (tm_entries m) ''a'' = Some (1, ()) \<and>
     length (ttl_live m 3) \<ge> tm_capacity m \<and>
     (\<forall>k' t' w'. k' \<noteq> ''c'' \<and> map_of (tm_entries (ttl_insert ''c'' () 3 m)) k' = Some (t', w') \<longrightarrow> 1 \<le> t')"
proof -
  let ?m = "\<lparr>tm_entries = [(''a'', (1, ())), (''b'', (2, ()))], tm_ttl = 10, tm_capacity = 2\<rparr>
    :: (string, unit) ttl_map"
  have gone: "map_of (tm_entries (ttl_insert ''c'' () 3 ?m)) ''a'' = None"
    by (simp add: ttl_insert_def Let_def evict_for.simps)
  show ?thesis
    using ttl_insert_evicts_oldest [of ?m "''a''" "''c''" 1 "()" 3 "()", OF _ _ _ _ gone]
    by (intro exI [of _ ?m]) (simp add: ttl_ok_def hm_ok_def)
qed

text \<open>
  a lookup of the holder cache returns, of what was last remembered for that content, exactly
  the records that have not expired, for the cache's time to live and no longer; remembering an
  empty slate changes nothing.
\<close>

theorem holder_cache_lookup:
  assumes "ttl_ok self" "records \<noteq> []"
  shows "fst (holder_get_at is_expired c now now_secs (holder_remember c records t0 self)) =
    (if now - t0 \<ge> tm_ttl self \<or> (\<forall>r \<in> set records. is_expired r now_secs) then None
     else Some (filter (\<lambda>r. \<not> is_expired r now_secs) records))
   \<and> holder_remember c [] t0 self = self"
proof -
  have view: "ttl_view (holder_remember c records t0 self) now c
      = (if now - t0 \<ge> tm_ttl self then None else Some records)"
    using assms(2) by (simp add: holder_remember_def ttl_insert_same)
  have get: "ttl_get c now s = (ttl_view s now c, snd (ttl_get c now s))" for s
    by (metis ttl_get_fst prod.collapse)
  have "fst (holder_get_at is_expired c now now_secs (holder_remember c records t0 self)) =
    (if now - t0 \<ge> tm_ttl self \<or> (\<forall>r \<in> set records. is_expired r now_secs) then None
     else Some (filter (\<lambda>r. \<not> is_expired r now_secs) records))"
    unfolding holder_get_at_def by (subst get) (simp add: view Let_def filter_empty_conv)
  then show ?thesis by (simp add: holder_remember_def)
qed

theorem holder_cache_lookup_witness:
  "fst (holder_get_at (\<lambda>r now. r \<le> now) ''c'' 20 7
       (holder_remember ''c'' [5, 9::nat] 10 holder_cache_new)) = Some [9]"
  using holder_cache_lookup [of holder_cache_new "[5, 9::nat]" "\<lambda>r now. r \<le> now" "''c''" 20 7 10]
  by (simp add: holder_cache_new_def ttl_new_def ttl_ok_def HOLDER_CACHE_TTL_def)

end
