(* ===== verification/Address_Book.thy ===== *)
theory Address_Book
  imports Contracts
begin

text \<open>
  The node's peer address book (\<open>dig-node-core/src/seams/dig_peer/address_book.rs\<close>): learned
  candidates keyed by peer id, merged on every sighting, read back ranked for dialling.

  The \<open>HashMap\<close> of entries is an association list; what is proved of a book holds for whatever
  order the map iterates in. The read-back is shown not to depend on that order at all.
\<close>

section \<open>Candidates\<close>

datatype addr_provenance = Pex | GetPeers | Introducer | PoolDirect

datatype socket_addr =
  is_ipv4: V4 (sa_ip: nat) (sa_port: nat)
| V6 (sa_ip: nat) (sa_port: nat) (sa_flowinfo: nat) (sa_scope: nat)

abbreviation is_ipv6 :: "socket_addr \<Rightarrow> bool" where "is_ipv6 a \<equiv> \<not> is_ipv4 a"

record candidate_addr =
  ca_peer_id :: string
  ca_addrs :: "socket_addr list"
  ca_provenance :: addr_provenance
  ca_learned_at :: nat

definition normalize_addrs :: "candidate_addr \<Rightarrow> candidate_addr" where
  "normalize_addrs c = c\<lparr>ca_addrs := remdups_adj (sort_key is_ipv4 (ca_addrs c))\<rparr>"

definition candidate_new :: "string \<Rightarrow> socket_addr list \<Rightarrow> addr_provenance \<Rightarrow> nat \<Rightarrow> candidate_addr" where
  "candidate_new peer_id addrs provenance learned_at =
     normalize_addrs \<lparr>ca_peer_id = peer_id, ca_addrs = addrs, ca_provenance = provenance,
       ca_learned_at = learned_at\<rparr>"

definition is_relay_only :: "candidate_addr \<Rightarrow> bool" where
  "is_relay_only c \<longleftrightarrow> ca_addrs c = []"

definition has_ipv6 :: "candidate_addr \<Rightarrow> bool" where
  "has_ipv6 c \<longleftrightarrow> (case ca_addrs c of [] \<Rightarrow> False | a # _ \<Rightarrow> is_ipv6 a)"

fun provenance_rank :: "addr_provenance \<Rightarrow> nat" where
  "provenance_rank PoolDirect = 0"
| "provenance_rank GetPeers = 1"
| "provenance_rank Introducer = 2"
| "provenance_rank Pex = 3"

definition dial_class :: "candidate_addr \<Rightarrow> nat" where
  "dial_class c = (if has_ipv6 c then 0 else if \<not> is_relay_only c then 1 else 2)"

section \<open>The book\<close>

definition DEFAULT_TTL_SECS :: nat where "DEFAULT_TTL_SECS = 3600"
definition DEFAULT_CAPACITY :: nat where "DEFAULT_CAPACITY = 4096"

record address_book =
  ab_ttl_secs :: nat
  ab_capacity :: nat
  ab_entries :: "(string \<times> candidate_addr) list"

definition book_new :: "nat \<Rightarrow> nat \<Rightarrow> address_book" where
  "book_new ttl_secs capacity =
     \<lparr>ab_ttl_secs = ttl_secs, ab_capacity = capacity, ab_entries = []\<rparr>"

definition book_default :: address_book where
  "book_default = book_new DEFAULT_TTL_SECS DEFAULT_CAPACITY"

definition evict_stalest :: "(string \<times> candidate_addr) list \<Rightarrow> (string \<times> candidate_addr) list" where
  "evict_stalest m =
     (case min_by_key (\<lambda>(_, c). ca_learned_at c) m of
        None \<Rightarrow> m
      | Some (key, _) \<Rightarrow> AList.delete key m)"

text \<open>The three updates of an entry that is already there.\<close>

definition merge_candidate :: "candidate_addr \<Rightarrow> candidate_addr \<Rightarrow> candidate_addr" where
  "merge_candidate candidate existing =
     (let e1 = normalize_addrs (existing\<lparr>ca_addrs := ca_addrs existing @ ca_addrs candidate\<rparr>);
          e2 = e1\<lparr>ca_learned_at := max (ca_learned_at e1) (ca_learned_at candidate)\<rparr>
      in if provenance_rank (ca_provenance candidate) < provenance_rank (ca_provenance e2)
         then e2\<lparr>ca_provenance := ca_provenance candidate\<rparr> else e2)"

definition offer :: "candidate_addr \<Rightarrow> address_book \<Rightarrow> address_book" where
  "offer candidate self =
     (let g = ab_entries self in
      case map_of g (ca_peer_id candidate) of
        Some existing \<Rightarrow>
          self\<lparr>ab_entries := AList.update (ca_peer_id candidate) (merge_candidate candidate existing) g\<rparr>
      | None \<Rightarrow>
          let g' = (if length g \<ge> ab_capacity self then evict_stalest g else g)
          in self\<lparr>ab_entries := AList.update (ca_peer_id candidate) candidate g'\<rparr>)"

definition is_stale :: "address_book \<Rightarrow> candidate_addr \<Rightarrow> nat \<Rightarrow> bool" where
  "is_stale self c now \<longleftrightarrow> now - ca_learned_at c > ab_ttl_secs self"

text \<open>The comparison of the read-back: dial class, newest sighting first, then the peer id.\<close>

definition dial_order :: "candidate_addr \<Rightarrow> nat \<times> int \<times> string" where
  "dial_order c = (dial_class c, - int (ca_learned_at c), ca_peer_id c)"

definition candidates :: "nat \<Rightarrow> address_book \<Rightarrow> candidate_addr list" where
  "candidates now self =
     sort_key dial_order (filter (\<lambda>c. \<not> is_stale self c now) (map snd (ab_entries self)))"

definition dialable_candidates :: "nat \<Rightarrow> address_book \<Rightarrow> candidate_addr list" where
  "dialable_candidates now self = filter (\<lambda>c. \<not> is_relay_only c) (candidates now self)"

definition book_len :: "address_book \<Rightarrow> nat" where
  "book_len self = length (ab_entries self)"

definition book_is_empty :: "address_book \<Rightarrow> bool" where
  "book_is_empty self \<longleftrightarrow> book_len self = 0"

definition book_contains :: "string \<Rightarrow> address_book \<Rightarrow> bool" where
  "book_contains peer_id self \<longleftrightarrow> peer_id \<in> fst ` set (ab_entries self)"

section \<open>Facts about candidates\<close>

text \<open>Every IPv6 address stands before every IPv4 address.\<close>

definition v6_first :: "candidate_addr \<Rightarrow> bool" where
  "v6_first c \<longleftrightarrow> sorted (map is_ipv4 (ca_addrs c))"

lemma sorted_map_remdups_adj: "sorted (map f xs) \<Longrightarrow> sorted (map f (remdups_adj xs))"
  by (induction xs rule: remdups_adj.induct) (auto split: if_splits)

lemma normalize_v6_first [simp]: "v6_first (normalize_addrs c)"
  by (simp add: v6_first_def normalize_addrs_def sorted_map_remdups_adj)

lemma normalize_set [simp]: "set (ca_addrs (normalize_addrs c)) = set (ca_addrs c)"
  by (simp add: normalize_addrs_def)

lemma normalize_sel [simp]:
  "ca_peer_id (normalize_addrs c) = ca_peer_id c"
  "ca_learned_at (normalize_addrs c) = ca_learned_at c"
  "ca_provenance (normalize_addrs c) = ca_provenance c"
  by (simp_all add: normalize_addrs_def)

lemma v6_first_update [simp]:
  "v6_first (c\<lparr>ca_learned_at := t\<rparr>) = v6_first c"
  "v6_first (c\<lparr>ca_provenance := p\<rparr>) = v6_first c"
  by (simp_all add: v6_first_def)

lemma merge_candidate_sel:
  "ca_peer_id (merge_candidate c e) = ca_peer_id e"
  "set (ca_addrs (merge_candidate c e)) = set (ca_addrs e) \<union> set (ca_addrs c)"
  "v6_first (merge_candidate c e)"
  "ca_learned_at (merge_candidate c e) = max (ca_learned_at e) (ca_learned_at c)"
  "provenance_rank (ca_provenance (merge_candidate c e))
     = min (provenance_rank (ca_provenance e)) (provenance_rank (ca_provenance c))"
  by (simp_all add: merge_candidate_def Let_def)

lemma v6_first_has_ipv6:
  assumes "v6_first c"
  shows "has_ipv6 c \<longleftrightarrow> (\<exists>a \<in> set (ca_addrs c). is_ipv6 a)"
  using assms by (cases "ca_addrs c") (auto simp: v6_first_def has_ipv6_def)

section \<open>Facts about the book\<close>

definition book_ok :: "address_book \<Rightarrow> bool" where
  "book_ok self \<longleftrightarrow> hm_ok (ab_entries self) \<and> (\<forall>(k, c) \<in> set (ab_entries self). ca_peer_id c = k)"

lemma book_ok_new [simp]: "book_ok (book_new ttl_secs capacity)"
  by (simp add: book_ok_def book_new_def)

lemma evict_stalest_subset: "set (evict_stalest m) \<subseteq> set m"
  by (auto simp: evict_stalest_def AList.delete_eq split: option.splits)

lemma hm_ok_evict_stalest: "hm_ok m \<Longrightarrow> hm_ok (evict_stalest m)"
  by (auto simp: evict_stalest_def split: option.splits)

lemma length_evict_stalest: "hm_ok m \<Longrightarrow> length (evict_stalest m) = length m - 1"
proof -
  assume ok: "hm_ok m"
  show ?thesis
  proof (cases "min_by_key (\<lambda>(_, c). ca_learned_at c) m")
    case (Some p)
    then have "p \<in> set m" by (rule min_by_key_in)
    then have "fst p \<in> fst ` set m" by simp
    with Some ok show ?thesis
      by (cases p) (simp add: evict_stalest_def length_delete)
  qed (simp add: evict_stalest_def)
qed

lemma book_ok_offer:
  assumes "book_ok self"
  shows "book_ok (offer c self)"
proof (cases "map_of (ab_entries self) (ca_peer_id c)")
  case None
  let ?g = "if length (ab_entries self) \<ge> ab_capacity self then evict_stalest (ab_entries self)
            else ab_entries self"
  have "hm_ok ?g" "set ?g \<subseteq> set (ab_entries self)"
    using assms evict_stalest_subset by (auto simp: book_ok_def hm_ok_evict_stalest)
  with None assms show ?thesis
    by (fastforce simp: offer_def book_ok_def Let_def dest: in_set_update)
next
  case (Some e)
  then have "ca_peer_id e = ca_peer_id c"
    using assms by (auto simp: book_ok_def dest: map_of_SomeD)
  with Some assms show ?thesis
    by (fastforce simp: offer_def book_ok_def merge_candidate_sel dest: in_set_update)
qed

lemma offer_params [simp]:
  "ab_ttl_secs (offer c self) = ab_ttl_secs self"
  "ab_capacity (offer c self) = ab_capacity self"
  by (simp_all add: offer_def Let_def split: option.splits)

lemma length_offer_le:
  assumes "book_ok self" "length (ab_entries self) \<le> max (ab_capacity self) 1"
  shows "length (ab_entries (offer c self)) \<le> max (ab_capacity self) 1"
proof (cases "map_of (ab_entries self) (ca_peer_id c)")
  case None
  with assms show ?thesis
    by (auto simp: offer_def Let_def length_update book_ok_def length_evict_stalest)
next
  case (Some e)
  then have "ca_peer_id c \<in> fst ` set (ab_entries self)" by (simp add: in_keys_map_of)
  with Some assms show ?thesis by (simp add: offer_def length_update)
qed

interpretation book_table: bounded_table
  "\<lambda>b. length (ab_entries b)" "\<lambda>b. max (ab_capacity b) 1" book_ok offer
  by unfold_locales (simp_all add: book_ok_offer length_offer_le [simplified])

lemma offer_lookup_known:
  assumes "map_of (ab_entries self) p = Some e" "ca_peer_id c = p"
  shows "map_of (ab_entries (offer c self)) p = Some (merge_candidate c e)"
  using assms by (simp add: offer_def update_conv')

lemma offer_lookup_new:
  assumes "ca_peer_id c = p" "map_of (ab_entries self) p = None"
  shows "map_of (ab_entries (offer c self)) p = Some c"
  using assms by (simp add: offer_def update_conv' Let_def)

lemma candidates_cong:
  assumes "book_ok a" "book_ok b" "map_of (ab_entries a) = map_of (ab_entries b)"
    and "ab_ttl_secs a = ab_ttl_secs b"
  shows "candidates now a = candidates now b"
proof -
  let ?l = "\<lambda>s. filter (\<lambda>c. \<not> is_stale s c now) (map snd (ab_entries s))"
  have set_eq: "set (ab_entries a) = set (ab_entries b)"
    using assms by (auto simp: book_ok_def hm_in_set_iff)
  have "distinct (ab_entries a)" "distinct (ab_entries b)"
    using assms by (auto simp: book_ok_def hm_ok_def distinct_map)
  then have "mset (ab_entries a) = mset (ab_entries b)"
    using set_eq by (simp add: set_eq_iff_mset_eq_distinct)
  then have mset: "mset (?l a) = mset (?l b)"
    using assms(4) by (simp add: is_stale_def mset_filter [symmetric])
  have "inj_on dial_order (set (?l a))"
  proof (rule inj_onI)
    fix x y assume "x \<in> set (?l a)" "y \<in> set (?l a)" "dial_order x = dial_order y"
    then obtain k k' where "(k, x) \<in> set (ab_entries a)" "(k', y) \<in> set (ab_entries a)"
      "ca_peer_id x = ca_peer_id y" by (auto simp: dial_order_def)
    then show "x = y" using assms(1)
      by (auto simp: book_ok_def hm_in_set_iff)
         (metis (mono_tags, lifting) case_prodD hm_in_set_iff option.inject)
  qed
  moreover have "mset (?l a) = mset (sort_key dial_order (?l b))" using mset by simp
  ultimately show ?thesis
    unfolding candidates_def by (intro sort_key_inj_key_eq) simp_all
qed

lemma set_candidates:
  "book_ok self \<Longrightarrow> set (candidates now self) =
     {c. map_of (ab_entries self) (ca_peer_id c) = Some c \<and> \<not> is_stale self c now}"
proof -
  assume ok: "book_ok self"
  have "c \<in> snd ` set (ab_entries self) \<longleftrightarrow> map_of (ab_entries self) (ca_peer_id c) = Some c" for c
  proof
    assume "c \<in> snd ` set (ab_entries self)"
    then show "map_of (ab_entries self) (ca_peer_id c) = Some c"
      using ok by (auto simp: book_ok_def hm_in_set_iff)
  next
    assume "map_of (ab_entries self) (ca_peer_id c) = Some c"
    then show "c \<in> snd ` set (ab_entries self)"
      by (metis image_eqI map_of_SomeD snd_conv)
  qed
  then show ?thesis by (auto simp: candidates_def)
qed

lemma book_run_ok: "book_ok (fold offer cs (book_new ttl_secs capacity))"
  by (rule book_table.run_ok) simp

lemma book_run_params [simp]:
  "ab_ttl_secs (fold offer cs self) = ab_ttl_secs self"
  "ab_capacity (fold offer cs self) = ab_capacity self"
  by (induction cs arbitrary: self) simp_all

text \<open>A book whose entries all keep IPv6 first, which every offer of a normalised candidate keeps.\<close>

definition book_v6_first :: "address_book \<Rightarrow> bool" where
  "book_v6_first self \<longleftrightarrow> (\<forall>c \<in> snd ` set (ab_entries self). v6_first c)"

lemma book_v6_first_offer:
  assumes "book_v6_first self" "v6_first c"
  shows "book_v6_first (offer c self)"
proof -
  have "set (if length (ab_entries self) \<ge> ab_capacity self then evict_stalest (ab_entries self)
      else ab_entries self) \<subseteq> set (ab_entries self)"
    using evict_stalest_subset by auto
  with assms show ?thesis
    by (fastforce simp: book_v6_first_def offer_def Let_def merge_candidate_sel
        split: option.splits dest: in_set_update)
qed

lemma book_v6_first_run:
  "book_v6_first self \<Longrightarrow> \<forall>c \<in> set cs. v6_first c \<Longrightarrow> book_v6_first (fold offer cs self)"
  by (induction cs arbitrary: self) (auto intro: book_v6_first_offer)

text \<open>The dialling rank by what a candidate's list holds, wherever in the list it stands.\<close>

definition dial_rank :: "candidate_addr \<Rightarrow> nat" where
  "dial_rank c =
     (if \<exists>a \<in> set (ca_addrs c). is_ipv6 a then 0 else if ca_addrs c \<noteq> [] then 1 else 2)"

text \<open>A list that alternates two addresses of one family is left alone by the normalisation.\<close>

lemma sort_key_sorted_id: "sorted (map f xs) \<Longrightarrow> sort_key f xs = xs"
  by (induction xs) (simp_all add: insort_is_Cons)

lemma remdups_adj_alternate:
  "a \<noteq> b \<Longrightarrow> remdups_adj (concat (replicate n [a, b])) = concat (replicate n [a, b])"
proof (induction n)
  case (Suc n)
  then show ?case by (cases n) auto
qed simp

lemma normalize_alternate:
  assumes "a \<noteq> b" "is_ipv4 a = is_ipv4 b" "ca_addrs c = concat (replicate n [a, b])"
  shows "ca_addrs (normalize_addrs c) = concat (replicate n [a, b])"
proof -
  have "sorted (map is_ipv4 (concat (replicate n [a, b])))"
    using assms(2) by (induction n) auto
  with assms show ?thesis
    by (simp add: normalize_addrs_def sort_key_sorted_id remdups_adj_alternate)
qed

lemma offer_repeat:
  assumes "a \<noteq> b" "is_ipv4 a = is_ipv4 b" "ca_peer_id c = p" "ca_addrs c = [a, b]"
    and "map_of (ab_entries self) p = Some e" "ca_addrs e = concat (replicate k [a, b])"
  shows "\<exists>e'. map_of (ab_entries (fold offer (replicate n c) self)) p = Some e'
    \<and> ca_addrs e' = concat (replicate (k + n) [a, b])"
  using assms
proof (induction n arbitrary: self e k)
  case (Suc n)
  let ?e = "e\<lparr>ca_addrs := ca_addrs e @ ca_addrs c\<rparr>"
  have "ca_addrs ?e = concat (replicate k [a, b] @ [[a, b]])"
    using Suc.prems by simp
  then have "ca_addrs ?e = concat (replicate (Suc k) [a, b])"
    by (simp only: replicate_append_same replicate_Suc)
  then have "ca_addrs (normalize_addrs ?e) = concat (replicate (Suc k) [a, b])"
    by (rule normalize_alternate [OF Suc.prems(1,2)])
  then have "ca_addrs (merge_candidate c e) = concat (replicate (Suc k) [a, b])"
    by (simp add: merge_candidate_def Let_def)
  then have "\<exists>e'. map_of (ab_entries (fold offer (replicate n c) (offer c self))) p = Some e'
      \<and> ca_addrs e' = concat (replicate (Suc k + n) [a, b])"
    using Suc.prems by (intro Suc.IH [OF _ _ _ _ offer_lookup_known]) auto
  then show ?case by simp
qed auto

section \<open>Properties\<close>

text \<open>
  the address book is bounded. Whatever candidates are offered, in whatever order, the book
  never holds more peers than its capacity (one for a capacity of zero, since the eviction
  happens before the insert).
\<close>

theorem address_book_bounded:
  "book_len (fold offer cs (book_new ttl_secs capacity)) \<le> max capacity 1"
  using book_table.run_bound [of "book_new ttl_secs capacity" cs]
  by (simp add: book_len_def book_new_def book_ok_def)

text \<open>
  the read-back of a book fed with normalised candidates. It lists exactly the entries that are
  not stale, each peer once, in dialling order: a candidate with an IPv6 address anywhere in its
  list comes before one with IPv4 addresses only, and that one before a relay-only hint; inside a
  class the most recently learned comes first. The list depends only on what the map holds, not
  on the order it iterates in.
\<close>

theorem candidates_ranked:
  assumes "\<forall>c \<in> set cs. v6_first c"
    and "self = fold offer cs (book_new ttl_secs capacity)"
  shows "set (candidates now self) =
      {c. map_of (ab_entries self) (ca_peer_id c) = Some c \<and> now - ca_learned_at c \<le> ttl_secs}
    \<and> distinct (map ca_peer_id (candidates now self))
    \<and> sorted_wrt (\<lambda>a b.
        dial_rank a < dial_rank b \<or> dial_rank a = dial_rank b \<and> ca_learned_at a \<ge> ca_learned_at b) (candidates now self)
    \<and> (\<forall>other. book_ok other \<and> map_of (ab_entries other) = map_of (ab_entries self)
          \<and> ab_ttl_secs other = ttl_secs \<longrightarrow> candidates now other = candidates now self)"
proof -
  have ok: "book_ok self" unfolding assms(2) by (rule book_run_ok)
  have ttl: "ab_ttl_secs self = ttl_secs" by (simp add: assms(2) book_new_def)
  have v6: "book_v6_first self" unfolding assms(2)
    using assms(1) by (intro book_v6_first_run) (simp_all add: book_v6_first_def book_new_def)
  have set: "set (candidates now self) =
      {c. map_of (ab_entries self) (ca_peer_id c) = Some c \<and> now - ca_learned_at c \<le> ttl_secs}"
    by (auto simp: set_candidates [OF ok] is_stale_def ttl)
  have keys: "map (ca_peer_id \<circ> snd) (ab_entries self) = map fst (ab_entries self)"
    using ok by (intro map_cong) (auto simp: book_ok_def)
  have "distinct (map (ca_peer_id \<circ> snd) (ab_entries self))"
    unfolding keys using ok by (simp add: book_ok_def hm_ok_def)
  then have "distinct (map ca_peer_id (filter (\<lambda>c. \<not> is_stale self c now) (map snd (ab_entries self))))"
    by (simp add: distinct_map_filter)
  then have dist: "distinct (map ca_peer_id (candidates now self))"
    by (simp add: candidates_def distinct_map)
  have cls: "dial_rank a = dial_class a" if "a \<in> set (candidates now self)" for a
  proof -
    have "v6_first a" using that v6 unfolding book_v6_first_def candidates_def by auto
    then show ?thesis by (auto simp: v6_first_has_ipv6 dial_class_def is_relay_only_def dial_rank_def)
  qed
  have "sorted_wrt (\<lambda>a b. dial_order a \<le> dial_order b) (candidates now self)"
    using sorted_sort_key [of dial_order] unfolding candidates_def by (simp add: sorted_map)
  then have "sorted_wrt (\<lambda>a b. dial_class a < dial_class b
      \<or> dial_class a = dial_class b \<and> ca_learned_at a \<ge> ca_learned_at b) (candidates now self)"
    by (rule sorted_wrt_mono_rel [rotated]) (auto simp: dial_order_def)
  then have "sorted_wrt (\<lambda>a b.
        dial_rank a < dial_rank b \<or> dial_rank a = dial_rank b \<and> ca_learned_at a \<ge> ca_learned_at b) (candidates now self)"
    by (rule sorted_wrt_mono_rel [rotated]) (simp only: cls)
  moreover have "\<forall>other. book_ok other \<and> map_of (ab_entries other) = map_of (ab_entries self)
      \<and> ab_ttl_secs other = ttl_secs \<longrightarrow> candidates now other = candidates now self"
    using candidates_cong [OF _ ok] ttl by auto
  ultimately show ?thesis using set dist by simp
qed

theorem candidates_ranked_witness:
  "\<exists>a b self. self = fold offer [a, b] (book_new 60 8) \<and> a \<in> set (candidates 100 self) \<and>
     b \<in> set (candidates 100 self) \<and> dial_rank b < dial_rank a \<and>
     sorted_wrt (\<lambda>x y. dial_rank x \<le> dial_rank y) (candidates 100 self)"
proof -
  define a where "a = \<lparr>ca_peer_id = ''a'', ca_addrs = [V4 1 9444], ca_provenance = Pex, ca_learned_at = 90\<rparr>"
  define b where "b = \<lparr>ca_peer_id = ''b'', ca_addrs = [V6 3 9444 0 0, V4 2 9444],
    ca_provenance = GetPeers, ca_learned_at = 80\<rparr>"
  define s where "s = fold offer [a, b] (book_new 60 8)"
  have sel: "ca_peer_id a = ''a''" "ca_peer_id b = ''b''" "ca_learned_at a = 90" "ca_learned_at b = 80"
    by (simp_all add: a_def b_def)
  have ent: "ab_entries s = [(''a'', a), (''b'', b)]"
    by (simp add: s_def offer_def book_new_def sel)
  have "\<forall>c \<in> set [a, b]. v6_first c" by (simp add: a_def b_def v6_first_def)
  note r = candidates_ranked [OF this s_def, of 100]
  have "a \<in> set (candidates 100 s)" "b \<in> set (candidates 100 s)"
    unfolding r [THEN conjunct1] by (simp_all add: ent sel)
  moreover have "sorted_wrt (\<lambda>x y. dial_rank x \<le> dial_rank y) (candidates 100 s)"
    by (rule sorted_wrt_mono_rel [OF _ r [THEN conjunct2, THEN conjunct2, THEN conjunct1]]) auto
  moreover have "dial_rank b < dial_rank a"
    by (simp add: dial_rank_def a_def b_def)
  ultimately show ?thesis
    unfolding s_def by (intro exI [of _ a] exI [of _ b] exI [of _ "fold offer [a, b] (book_new 60 8)"]) simp
qed

text \<open>
  what an offer does. A sighting of a known peer merges: the addresses are those of both, IPv6
  first; the time of learning only moves forward; the provenance is the more trusted of the two,
  so a later hint never downgrades a first-hand observation. An unknown peer is stored as offered.
  No other entry changes, except that a full book loses one entry for an unknown peer, and that
  entry is a stalest one.
\<close>

theorem offer_spec:
  assumes "book_ok self"
  shows "(case map_of (ab_entries self) (ca_peer_id c) of
      Some e \<Rightarrow> (\<exists>m. map_of (ab_entries (offer c self)) = (map_of (ab_entries self))(ca_peer_id c \<mapsto> m)
        \<and> ca_peer_id m = ca_peer_id c
        \<and> set (ca_addrs m) = set (ca_addrs e) \<union> set (ca_addrs c) \<and> v6_first m
        \<and> ca_learned_at m = max (ca_learned_at e) (ca_learned_at c)
        \<and> ca_provenance m \<in> {ca_provenance e, ca_provenance c}
        \<and> provenance_rank (ca_provenance m)
            = min (provenance_rank (ca_provenance e)) (provenance_rank (ca_provenance c)))
    | None \<Rightarrow>
        if book_len self < ab_capacity self \<or> ab_entries self = []
        then map_of (ab_entries (offer c self)) = (map_of (ab_entries self))(ca_peer_id c \<mapsto> c)
        else \<exists>k v. map_of (ab_entries self) k = Some v
          \<and> (\<forall>x \<in> snd ` set (ab_entries self). ca_learned_at v \<le> ca_learned_at x)
          \<and> map_of (ab_entries (offer c self)) = (map_of (ab_entries self))(k := None, ca_peer_id c \<mapsto> c))"
proof (cases "map_of (ab_entries self) (ca_peer_id c)")
  case (Some e)
  then have "ca_peer_id e = ca_peer_id c"
    using assms by (auto simp: book_ok_def dest: map_of_SomeD)
  moreover have "ca_provenance (merge_candidate c e) \<in> {ca_provenance e, ca_provenance c}"
    by (simp add: merge_candidate_def Let_def)
  ultimately show ?thesis using Some
    by (simp add: offer_def update_conv' merge_candidate_sel exI [of _ "merge_candidate c e"])
next
  case None
  show ?thesis
  proof (cases "book_len self < ab_capacity self \<or> ab_entries self = []")
    case True
    with None show ?thesis
      by (auto simp: offer_def update_conv' book_len_def evict_stalest_def Let_def)
  next
    case False
    then obtain k v where m: "min_by_key (\<lambda>(_, c). ca_learned_at c) (ab_entries self) = Some (k, v)"
      by (cases "min_by_key (\<lambda>(_, c). ca_learned_at c) (ab_entries self)") auto
    have "map_of (ab_entries self) k = Some v"
      using min_by_key_in [OF m] assms by (simp add: book_ok_def hm_in_set_iff)
    moreover have "\<forall>x \<in> snd ` set (ab_entries self). ca_learned_at v \<le> ca_learned_at x"
      using min_by_key_le [OF m] by auto
    moreover have "map_of (ab_entries (offer c self))
        = (map_of (ab_entries self))(k := None, ca_peer_id c \<mapsto> c)"
      using None False m
      by (auto simp: offer_def Let_def book_len_def evict_stalest_def update_conv' delete_conv')
    ultimately show ?thesis using None False by auto
  qed
qed

theorem offer_spec_witness:
  "\<exists>a b m. map_of (ab_entries (offer b (offer a (book_new 60 8)))) ''a'' = Some m
     \<and> ca_provenance a = GetPeers \<and> ca_provenance b = Pex \<and> provenance_rank (ca_provenance m) = 1
     \<and> ca_learned_at m = 90 \<and> set (ca_addrs m) = {V4 1 9444, V6 3 9444 0 0}"
proof -
  define a where "a = \<lparr>ca_peer_id = ''a'', ca_addrs = [V4 1 9444], ca_provenance = GetPeers,
    ca_learned_at = 90\<rparr>"
  define b where "b = \<lparr>ca_peer_id = ''a'', ca_addrs = [V6 3 9444 0 0], ca_provenance = Pex,
    ca_learned_at = 80\<rparr>"
  define s where "s = offer a (book_new 60 8)"
  have sel: "ca_peer_id a = ''a''" "ca_peer_id b = ''a''" "ca_learned_at a = 90" "ca_learned_at b = 80"
    "set (ca_addrs a) = {V4 1 9444}" "set (ca_addrs b) = {V6 3 9444 0 0}"
    "ca_provenance a = GetPeers" "ca_provenance b = Pex"
    by (simp_all add: a_def b_def)
  have "book_ok s" unfolding s_def by (simp add: book_ok_offer)
  moreover have "map_of (ab_entries s) (ca_peer_id b) = Some a"
    by (simp add: s_def offer_def book_new_def sel)
  ultimately obtain m where "map_of (ab_entries (offer b s)) = (map_of (ab_entries s))(''a'' \<mapsto> m)"
    "set (ca_addrs m) = {V4 1 9444} \<union> {V6 3 9444 0 0}" "ca_learned_at m = max 90 80"
    "provenance_rank (ca_provenance m) = min (provenance_rank GetPeers) (provenance_rank Pex)"
    using offer_spec [of s b] by (simp only: sel option.case) blast
  then have "map_of (ab_entries (offer b s)) ''a'' = Some m \<and> ca_learned_at m = 90
      \<and> provenance_rank (ca_provenance m) = 1 \<and> set (ca_addrs m) = {V4 1 9444, V6 3 9444 0 0}"
    by (simp add: insert_commute)
  with sel s_def show ?thesis by (intro exI [of _ a] exI [of _ b] exI [of _ m]) simp
qed

text \<open>
  C31: the merge does not remove repeated addresses. Adjacent equal addresses collapse, others of
  the same family stay, so a peer sighted again and again with the same two addresses has a list
  that grows by two at every sighting, without bound.
\<close>

theorem offer_addresses_grow:
  assumes "a \<noteq> b" "is_ipv4 a = is_ipv4 b"
  shows "\<exists>e. map_of (ab_entries (fold offer (replicate (Suc n)
      (candidate_new p [a, b] prov t)) (book_new ttl_secs capacity))) p = Some e
    \<and> length (ca_addrs e) = 2 * Suc n"
proof -
  define c where "c = candidate_new p [a, b] prov t"
  have c: "ca_peer_id c = p" "ca_addrs c = [a, b]"
    using normalize_alternate [OF assms, of "\<lparr>ca_peer_id = p, ca_addrs = [a, b], ca_provenance = prov,
      ca_learned_at = t\<rparr>" 1] by (simp_all add: c_def candidate_new_def)
  have "map_of (ab_entries (offer c (book_new ttl_secs capacity))) p = Some c"
    by (rule offer_lookup_new) (simp_all add: c book_new_def)
  from offer_repeat [OF assms c this, of 1 n] show ?thesis
    using c by (auto simp: c_def [symmetric] length_concat sum_list_replicate)
qed

theorem offer_addresses_grow_witness:
  "\<exists>e. map_of (ab_entries (fold offer (replicate (Suc 999)
      (candidate_new ''p'' [V4 1 9444, V4 2 9444] Pex 0)) (book_new 3600 4096))) ''p'' = Some e
    \<and> length (ca_addrs e) = 2 * Suc 999"
  by (rule offer_addresses_grow) simp_all

end
