(* ===== verification/Wire.thy ===== *)
theory Wire
  imports Prelude
begin

text \<open>
  The values requests and answers are read from.

  A JSON document is a value of the datatype \<open>json\<close>, with the accessors the code calls on
  \<open>serde_json::Value\<close>: \<open>get\<close>, \<open>as_u64\<close>, \<open>as_str\<close>, \<open>as_bool\<close> and \<open>as_array\<close> are total and answer
  \<open>None\<close> on a value of another kind. The hex codec belongs to the \<open>hex\<close> crate: it is an argument
  of every definition that uses it, and \<open>hex_laws\<close> states what the callers rely on. \<open>base16\<close>
  shows that the laws can be met.

  \<open>content_id\<close> has the three granularities of \<open>dig-dht\<close>'s \<open>ContentId\<close>; the readers and the
  renderer of content ids are those of \<open>download.rs\<close> and \<open>dht.rs\<close>.
\<close>

section \<open>JSON values\<close>

datatype json_number = PosInt nat | NegInt int | Float real

datatype json =
  JNull
| JBool bool
| JNumber json_number
| JString string
| JArray "json list"
| JObject "(string \<times> json) list"

fun json_get :: "string \<Rightarrow> json \<Rightarrow> json option" where
  "json_get key (JObject fields) = map_of fields key"
| "json_get key _ = None"

fun as_u64 :: "json \<Rightarrow> nat option" where
  "as_u64 (JNumber (PosInt n)) = Some n"
| "as_u64 _ = None"

fun as_str :: "json \<Rightarrow> string option" where
  "as_str (JString s) = Some s"
| "as_str _ = None"

fun as_bool :: "json \<Rightarrow> bool option" where
  "as_bool (JBool b) = Some b"
| "as_bool _ = None"

fun as_array :: "json \<Rightarrow> json list option" where
  "as_array (JArray xs) = Some xs"
| "as_array _ = None"

definition unwrap_or :: "'a \<Rightarrow> 'a option \<Rightarrow> 'a" where
  "unwrap_or d x = (case x of None \<Rightarrow> d | Some v \<Rightarrow> v)"

text \<open>\<open>get(key).and_then(f)\<close>, the way every field is read.\<close>

definition get_as :: "(json \<Rightarrow> 'a option) \<Rightarrow> string \<Rightarrow> json \<Rightarrow> 'a option" where
  "get_as f key v = Option.bind (json_get key v) f"

section \<open>The hex codec\<close>

record hex_codec =
  hx_decode :: "string \<Rightarrow> string option"
  hx_encode :: "string \<Rightarrow> string"

definition hex_laws :: "hex_codec \<Rightarrow> bool" where
  "hex_laws h \<longleftrightarrow>
     (\<forall>bs. hx_decode h (hx_encode h bs) = Some bs) \<and>
     (\<forall>bs. length (hx_encode h bs) = 2 * length bs \<and> list_all is_lower_hexdigit (hx_encode h bs)) \<and>
     (\<forall>s bs. hx_decode h s = Some bs \<longrightarrow>
        length s = 2 * length bs \<and> hx_encode h bs = to_ascii_lowercase s)"

definition hex64 :: "hex_codec \<Rightarrow> string \<Rightarrow> string option" where
  "hex64 h s =
     (if length s \<noteq> 64 then None
      else case hx_decode h s of
             None \<Rightarrow> None
           | Some bytes \<Rightarrow> if length bytes = 32 then Some bytes else None)"

section \<open>Content ids\<close>

text \<open>The byte arrays of a content id are 32 bytes long.\<close>

datatype content_id =
  Store (ci_store: string)
| Root (ci_store: string) (ci_root: string)
| Resource (ci_store: string) (ci_root: string) (ci_key: string)

definition content_id_json :: "hex_codec \<Rightarrow> content_id \<Rightarrow> json" where
  "content_id_json h content =
     (case content of
        Store store_id \<Rightarrow> JObject [(''store_id'', JString (hx_encode h store_id))]
      | Root store_id rt \<Rightarrow> JObject
          [(''store_id'', JString (hx_encode h store_id)), (''root'', JString (hx_encode h rt))]
      | Resource store_id rt retrieval_key \<Rightarrow> JObject
          [(''store_id'', JString (hx_encode h store_id)), (''root'', JString (hx_encode h rt)),
           (''retrieval_key'', JString (hx_encode h retrieval_key))])"

definition miss_content_for :: "hex_codec \<Rightarrow> string \<Rightarrow> string \<Rightarrow> string \<Rightarrow> content_id option" where
  "miss_content_for h store_hex root_hex rk_hex =
     Option.bind (hex64 h store_hex) (\<lambda>store.
     Option.bind (hex64 h root_hex) (\<lambda>rt.
     Option.bind (hex64 h rk_hex) (\<lambda>rk. Some (Resource store rt rk))))"

definition availability_content_id ::
  "hex_codec \<Rightarrow> string \<Rightarrow> string option \<Rightarrow> string option \<Rightarrow> content_id option"
where
  "availability_content_id h store_hex root_hex rk_hex =
     Option.bind (hex64 h store_hex) (\<lambda>store.
       case (root_hex, rk_hex) of
         (Some r, Some k) \<Rightarrow>
           Option.bind (hex64 h r) (\<lambda>rt. Option.bind (hex64 h k) (\<lambda>rk. Some (Resource store rt rk)))
       | (Some r, None) \<Rightarrow> Option.bind (hex64 h r) (\<lambda>rt. Some (Root store rt))
       | (None, _) \<Rightarrow> Some (Store store))"

definition range_content_id :: "hex_codec \<Rightarrow> json \<Rightarrow> content_id option" where
  "range_content_id h req =
     Option.bind (hex64 h (unwrap_or [] (get_as as_str ''store_id'' req))) (\<lambda>store.
     Option.bind (hex64 h (unwrap_or [] (get_as as_str ''root'' req))) (\<lambda>rt.
       if unwrap_or False (get_as as_bool ''capsule'' req) then Some (Root store rt)
       else Option.bind (hex64 h (unwrap_or [] (get_as as_str ''retrieval_key'' req)))
              (\<lambda>rk. Some (Resource store rt rk))))"

section \<open>Facts\<close>

lemma hex_laws_roundtrip: "hex_laws h \<Longrightarrow> hx_decode h (hx_encode h bs) = Some bs"
  by (simp add: hex_laws_def)

lemma hex_laws_length: "hex_laws h \<Longrightarrow> length (hx_encode h bs) = 2 * length bs"
  by (simp add: hex_laws_def)

lemma hex_laws_decode:
  assumes "hex_laws h" "hx_decode h s = Some bs"
  shows "length s = 2 * length bs" "hx_encode h bs = to_ascii_lowercase s"
  using assms by (simp_all add: hex_laws_def)

lemma hex64_encode: "hex_laws h \<Longrightarrow> length bs = 32 \<Longrightarrow> hex64 h (hx_encode h bs) = Some bs"
  by (simp add: hex64_def hex_laws_roundtrip hex_laws_length)

lemma hex64_length: "hex64 h s = Some bs \<Longrightarrow> length bs = 32"
  by (auto simp: hex64_def split: if_splits option.splits)

lemma hex64_canonical: "hex_laws h \<Longrightarrow> hex64 h s = Some bs \<Longrightarrow> hx_encode h bs = to_ascii_lowercase s"
  by (auto simp: hex64_def dest: hex_laws_decode split: if_splits option.splits)

definition content_ok :: "content_id \<Rightarrow> bool" where
  "content_ok c =
     (case c of
        Store s \<Rightarrow> length s = 32
      | Root s r \<Rightarrow> length s = 32 \<and> length r = 32
      | Resource s r k \<Rightarrow> length s = 32 \<and> length r = 32 \<and> length k = 32)"

text \<open>A request that names the item the way \<open>content_id_json\<close> renders it.\<close>

definition availability_of_item :: "hex_codec \<Rightarrow> json \<Rightarrow> content_id option" where
  "availability_of_item h item =
     availability_content_id h (unwrap_or [] (get_as as_str ''store_id'' item))
       (get_as as_str ''root'' item) (get_as as_str ''retrieval_key'' item)"

section \<open>A codec that meets the laws\<close>

definition hex_digit :: "nat \<Rightarrow> char" where
  "hex_digit n = (if n < 10 then char_of (48 + n) else char_of (87 + n))"

definition hex_value :: "char \<Rightarrow> nat option" where
  "hex_value c =
     (let n = of_char c :: nat
      in if 48 \<le> n \<and> n \<le> 57 then Some (n - 48)
         else if 65 \<le> n \<and> n \<le> 70 then Some (n - 55)
         else if 97 \<le> n \<and> n \<le> 102 then Some (n - 87)
         else None)"

fun base16_encode :: "string \<Rightarrow> string" where
  "base16_encode [] = []"
| "base16_encode (c # cs) =
     hex_digit (of_char c div 16) # hex_digit (of_char c mod 16) # base16_encode cs"

fun base16_decode :: "string \<Rightarrow> string option" where
  "base16_decode [] = Some []"
| "base16_decode [c] = None"
| "base16_decode (c # d # cs) =
     (case (hex_value c, hex_value d, base16_decode cs) of
        (Some x, Some y, Some bs) \<Rightarrow> Some (char_of (16 * x + y) # bs)
      | _ \<Rightarrow> None)"

definition base16 :: hex_codec where
  "base16 = \<lparr>hx_decode = base16_decode, hx_encode = base16_encode\<rparr>"

lemma hex_digit_code: "n < 16 \<Longrightarrow> of_char (hex_digit n) = (if n < 10 then 48 + n else 87 + n)"
  by (auto simp: hex_digit_def)

lemma hex_value_digit [simp]: "n < 16 \<Longrightarrow> hex_value (hex_digit n) = Some n"
  by (auto simp: hex_value_def Let_def hex_digit_code)

lemma hex_digit_lower [simp]: "n < 16 \<Longrightarrow> is_lower_hexdigit (hex_digit n)"
  by (auto simp: is_lower_hexdigit_def Let_def hex_digit_code)

lemma hex_value_bound: "hex_value c = Some n \<Longrightarrow> n < 16"
  by (auto simp: hex_value_def Let_def split: if_splits)

lemma hex_digit_value:
  assumes "hex_value c = Some n"
  shows "hex_digit n = ascii_lower c"
proof -
  have n: "n < 16" by (rule hex_value_bound [OF assms])
  have "(of_char (hex_digit n) :: nat) = of_char (ascii_lower c)"
    using assms unfolding hex_digit_code [OF n]
    by (auto simp: hex_value_def ascii_lower_def Let_def split: if_splits)
  then show ?thesis by simp
qed

lemma of_char_lt: "of_char (c::char) < (256::nat)"
  by (metis of_char_mod_256 mod_less_divisor zero_less_numeral)

lemma base16_roundtrip: "base16_decode (base16_encode bs) = Some bs"
proof (induction bs)
  case (Cons c bs)
  have "of_char c div 16 < (16::nat)" using of_char_lt [of c] by (simp add: less_mult_imp_div_less)
  then show ?case using Cons by simp
qed simp

lemma base16_encode_shape:
  "length (base16_encode bs) = 2 * length bs \<and> list_all is_lower_hexdigit (base16_encode bs)"
proof (induction bs)
  case (Cons c bs)
  have "of_char c div 16 < (16::nat)" using of_char_lt [of c] by (simp add: less_mult_imp_div_less)
  then show ?case using Cons by simp
qed simp

lemma base16_decode_shape:
  "base16_decode s = Some bs \<Longrightarrow> length s = 2 * length bs \<and> base16_encode bs = to_ascii_lowercase s"
proof (induction s arbitrary: bs rule: base16_decode.induct)
  case (3 c d cs)
  then obtain x y bs' where *: "hex_value c = Some x" "hex_value d = Some y"
    "base16_decode cs = Some bs'" "bs = char_of (16 * x + y) # bs'"
    by (auto split: option.splits)
  have xy: "x < 16" "y < 16" using * by (auto dest: hex_value_bound)
  then have "16 * x + y < 256" by simp
  with xy * 3 show ?case
    by (simp add: hex_digit_value to_ascii_lowercase_def)
qed (auto simp: to_ascii_lowercase_def)

lemma base16_laws: "hex_laws base16"
  unfolding hex_laws_def base16_def
  by (simp add: base16_roundtrip base16_encode_shape base16_decode_shape)

section \<open>Properties\<close>

text \<open>
  a content id travels unchanged. The item a redirect or a forwarded ask renders is read back,
  by the reader of availability requests and by the reader of range requests, as the same content at
  the same granularity; and whatever the readers accept names 32-byte components only.
\<close>

theorem content_id_roundtrip:
  assumes "hex_laws h" "content_ok c"
  shows "availability_of_item h (content_id_json h c) = Some c
    \<and> (\<forall>s r k. c = Resource s r k \<longrightarrow> range_content_id h (content_id_json h c) = Some c
          \<and> miss_content_for h (hx_encode h s) (hx_encode h r) (hx_encode h k) = Some c)
    \<and> (\<forall>req c'. range_content_id h req = Some c' \<longrightarrow> content_ok c')"
proof (intro conjI allI impI)
  show "availability_of_item h (content_id_json h c) = Some c"
    using assms by (cases c)
      (simp_all add: availability_of_item_def content_id_json_def availability_content_id_def
        get_as_def unwrap_or_def hex64_encode content_ok_def)
next
  fix s r k assume "c = Resource s r k"
  with assms show "range_content_id h (content_id_json h c) = Some c"
    "miss_content_for h (hx_encode h s) (hx_encode h r) (hx_encode h k) = Some c"
    by (simp_all add: range_content_id_def miss_content_for_def content_id_json_def
        get_as_def unwrap_or_def hex64_encode content_ok_def)
next
  fix req c' assume "range_content_id h req = Some c'"
  then show "content_ok c'"
    by (auto simp: range_content_id_def content_ok_def bind_eq_Some_conv
        dest: hex64_length split: if_splits)
qed

theorem content_id_roundtrip_witness:
  "availability_of_item base16 (content_id_json base16 (Root (replicate 32 CHR ''a'') (replicate 32 CHR ''b'')))
     = Some (Root (replicate 32 CHR ''a'') (replicate 32 CHR ''b''))"
  using content_id_roundtrip [OF base16_laws, of "Root (replicate 32 CHR ''a'') (replicate 32 CHR ''b'')"]
  by (simp add: content_ok_def)

end
