(* ===== verification/Forwarded_Ask.thy ===== *)
theory Forwarded_Ask
  imports Wire Address_Book
begin

text \<open>
  The forwarded availability ask (\<open>dig-node-core/src/seams/dig_peer/forwarded_ask.rs\<close>): the time an
  ask is given, the request it sends, and how a peer's answer is read.

  Peer ids, candidate addresses and provider records are those of the \<open>dig-nat\<close> and \<open>dig-dht\<close>
  crates. Their constructors and the one selector the code reads are the fields of \<open>dht_ext\<close>, an
  argument of the definitions that call them.
\<close>

record ('p, 'a, 'r) dht_ext =
  peer_from_hex :: "string \<Rightarrow> 'p option"
  addr_direct :: "string \<Rightarrow> nat \<Rightarrow> 'a"
  addr_of_socket :: "socket_addr \<Rightarrow> 'a"
  record_new :: "content_id \<Rightarrow> 'p \<Rightarrow> 'a list \<Rightarrow> nat \<Rightarrow> 'r"
  provider_peer_id :: "'r \<Rightarrow> string"

section \<open>The time an ask is given\<close>

text \<open>Durations are nanoseconds; \<open>Duration\<close>'s saturating operations stop at its largest value.\<close>

definition duration_max :: nat where
  "duration_max = u64_max * 1000000000 + 999999999"

definition dur_sat_add :: "nat \<Rightarrow> nat \<Rightarrow> nat" where
  "dur_sat_add a b = min (a + b) duration_max"

definition dur_sat_mul :: "nat \<Rightarrow> nat \<Rightarrow> nat" where
  "dur_sat_mul a k = min (a * k) duration_max"

definition MAX_CONCURRENT_FORWARDED_ASKS :: nat where "MAX_CONCURRENT_FORWARDED_ASKS = 32"
definition FORWARDED_ASK_LEAF_TIMEOUT :: nat where "FORWARDED_ASK_LEAF_TIMEOUT = 5 * 1000000000"
definition MAX_FORWARDED_ASK_BUDGET :: nat where "MAX_FORWARDED_ASK_BUDGET = 65 * 1000000000"

fun ask_budget_loop :: "nat \<Rightarrow> nat \<Rightarrow> nat \<Rightarrow> nat" where
  "ask_budget_loop 0 fan_out budget = budget"
| "ask_budget_loop (Suc n) fan_out budget =
     (let budget' = dur_sat_add FORWARDED_ASK_LEAF_TIMEOUT (dur_sat_mul budget (max fan_out 1))
      in if budget' \<ge> MAX_FORWARDED_ASK_BUDGET then MAX_FORWARDED_ASK_BUDGET
         else ask_budget_loop n fan_out budget')"

definition ask_budget :: "nat \<Rightarrow> nat \<Rightarrow> nat" where
  "ask_budget hops_remaining fan_out =
     ask_budget_loop hops_remaining fan_out FORWARDED_ASK_LEAF_TIMEOUT"

section \<open>What an ask established\<close>

datatype 'r ask_outcome =
  Answered "'r list"
| AnsweredInconclusive "'r list"
| Refused
| TimedOut
| Unreachable

record responder =
  peer_hex :: string
  resp_addrs :: "socket_addr list"

text \<open>\<open>result.items\<close>, as the three readers of an answer take it.\<close>

definition answer_items :: "json \<Rightarrow> json list option" where
  "answer_items response =
     Option.bind (Option.bind (json_get ''result'' response) (json_get ''items'')) as_array"

definition responder_holds :: "json \<Rightarrow> bool" where
  "responder_holds response =
     list_ex (\<lambda>item. get_as as_bool ''available'' item = Some True)
       (unwrap_or [] (answer_items response))"

definition responder_record :: "('p, 'a, 'r) dht_ext \<Rightarrow> content_id \<Rightarrow> responder \<Rightarrow> 'r option" where
  "responder_record E content responder =
     Option.bind (peer_from_hex E (peer_hex responder)) (\<lambda>peer.
       let addresses = map (addr_of_socket E) (resp_addrs responder)
       in if addresses = [] then None
          else Some (record_new E content peer addresses u64_max))"

datatype subtree_claim = Established | NotEstablished | NoClaim

definition item_claim :: "json \<Rightarrow> subtree_claim" where
  "item_claim item =
     (case get_as as_bool ''absence_established'' item of
        Some True \<Rightarrow> Established
      | Some False \<Rightarrow> NotEstablished
      | None \<Rightarrow> NoClaim)"

fun weaker_claim :: "subtree_claim \<Rightarrow> subtree_claim \<Rightarrow> subtree_claim" where
  "weaker_claim NotEstablished _ = NotEstablished"
| "weaker_claim _ NotEstablished = NotEstablished"
| "weaker_claim NoClaim _ = NoClaim"
| "weaker_claim _ NoClaim = NoClaim"
| "weaker_claim Established Established = Established"

definition subtree_claim_of :: "json \<Rightarrow> subtree_claim" where
  "subtree_claim_of response =
     (case answer_items response of
        None \<Rightarrow> NoClaim
      | Some items \<Rightarrow>
          if items = [] then NoClaim
          else foldl weaker_claim Established (map item_claim items))"

definition parse_candidate_addr :: "('p, 'a, 'r) dht_ext \<Rightarrow> json \<Rightarrow> 'a option" where
  "parse_candidate_addr E addr =
     Option.bind (get_as as_str ''host'' addr) (\<lambda>host.
     Option.bind (get_as as_u64 ''port'' addr) (\<lambda>port.
       if port \<le> 65535 then Some (addr_direct E host port) else None))"

definition parse_provider :: "('p, 'a, 'r) dht_ext \<Rightarrow> content_id \<Rightarrow> json \<Rightarrow> 'r option" where
  "parse_provider E content provider =
     Option.bind (get_as as_str ''peer_id'' provider) (\<lambda>peer_hex.
     Option.bind (peer_from_hex E peer_hex) (\<lambda>peer.
       let addresses = List.map_filter (parse_candidate_addr E)
             (unwrap_or [] (get_as as_array ''addresses'' provider))
       in if addresses = [] then None
          else Some (record_new E content peer addresses u64_max)))"

definition parse_forwarded_providers :: "('p, 'a, 'r) dht_ext \<Rightarrow> content_id \<Rightarrow> json \<Rightarrow> 'r list" where
  "parse_forwarded_providers E content response =
     List.map_filter (parse_provider E content)
       (concat (List.map_filter (get_as as_array ''providers'')
          (unwrap_or [] (answer_items response))))"

definition parse_forwarded_answer ::
  "('p, 'a, 'r) dht_ext \<Rightarrow> content_id \<Rightarrow> json \<Rightarrow> responder \<Rightarrow> 'r ask_outcome"
where
  "parse_forwarded_answer E content response responder =
     (if json_get ''error'' response \<noteq> None then Refused
      else if json_get ''result'' response = None then Unreachable
      else
        let held = responder_holds response;
            own = (if held then responder_record E content responder else None);
            records = (case own of None \<Rightarrow> [] | Some r \<Rightarrow> [r])
              @ filter (\<lambda>r. provider_peer_id E r \<noteq> peer_hex responder)
                  (parse_forwarded_providers E content response)
        in if held \<and> records \<noteq> [] then Answered records
           else case subtree_claim_of response of
                  Established \<Rightarrow> Answered records
                | NotEstablished \<Rightarrow> AnsweredInconclusive records
                | NoClaim \<Rightarrow> AnsweredInconclusive records)"

text \<open>How the exchange with the peer ended: inside the budget with a frame or without one, or not.\<close>

datatype exchange = Replied json | ExchangeFailed | Elapsed

definition awaited_outcome ::
  "('p, 'a, 'r) dht_ext \<Rightarrow> content_id \<Rightarrow> responder \<Rightarrow> exchange \<Rightarrow> 'r ask_outcome"
where
  "awaited_outcome E content responder ex =
     (case ex of
        Replied response \<Rightarrow> parse_forwarded_answer E content response responder
      | ExchangeFailed \<Rightarrow> Unreachable
      | Elapsed \<Rightarrow> TimedOut)"

section \<open>The request\<close>

text \<open>
  The parameters of the request, as the code sets them on \<open>GetAvailabilityParams\<close>. Their JSON form
  belongs to \<open>dig-rpc-protocol\<close>.
\<close>

record forwarded_params =
  fp_item :: json
  fp_redirect_depth :: nat
  fp_budget_ms :: nat
  fp_ask_id :: string

definition forwarded_request :: "hex_codec \<Rightarrow> content_id \<Rightarrow> nat \<Rightarrow> nat \<Rightarrow> string \<Rightarrow> forwarded_params" where
  "forwarded_request h content next_depth budget ask_id =
     \<lparr>fp_item = content_id_json h content,
      fp_redirect_depth = next_depth,
      fp_budget_ms = (let ms = budget div 1000000 in if ms \<le> u64_max then ms else u64_max),
      fp_ask_id = hx_encode h ask_id\<rparr>"

section \<open>Facts about the budget\<close>

text \<open>The time an ask that may travel \<open>h\<close> more hops needs when every hop asks its peers in turn.\<close>

fun ask_work :: "nat \<Rightarrow> nat \<Rightarrow> nat" where
  "ask_work 0 fan_out = FORWARDED_ASK_LEAF_TIMEOUT"
| "ask_work (Suc h) fan_out = FORWARDED_ASK_LEAF_TIMEOUT + ask_work h fan_out * max fan_out 1"

lemma ask_work_mono: "h \<le> h' \<Longrightarrow> ask_work h f \<le> ask_work h' f"
proof (induction rule: dec_induct)
  case (step n)
  have "ask_work n f \<le> ask_work n f * max f 1" by simp
  also have "\<dots> \<le> ask_work (Suc n) f" by simp
  finally show ?case using step.IH by simp
qed simp

lemma ask_step_exact:
  assumes "f \<le> 255" "b < MAX_FORWARDED_ASK_BUDGET"
  shows "dur_sat_add FORWARDED_ASK_LEAF_TIMEOUT (dur_sat_mul b (max f 1))
    = FORWARDED_ASK_LEAF_TIMEOUT + b * max f 1"
proof -
  have "b * max f 1 \<le> 65000000000 * 255"
    using assms by (intro mult_mono) (simp_all add: MAX_FORWARDED_ASK_BUDGET_def)
  then show ?thesis
    by (simp add: dur_sat_add_def dur_sat_mul_def duration_max_def FORWARDED_ASK_LEAF_TIMEOUT_def)
qed

lemma ask_budget_loop_work:
  assumes "f \<le> 255" "ask_work k f < MAX_FORWARDED_ASK_BUDGET"
  shows "ask_budget_loop n f (ask_work k f) = min MAX_FORWARDED_ASK_BUDGET (ask_work (k + n) f)"
  using assms(2)
proof (induction n arbitrary: k)
  case (Suc n)
  have step: "dur_sat_add FORWARDED_ASK_LEAF_TIMEOUT (dur_sat_mul (ask_work k f) (max f 1))
      = ask_work (Suc k) f"
    using ask_step_exact [OF assms(1) Suc.prems] by simp
  show ?case
  proof (cases "ask_work (Suc k) f \<ge> MAX_FORWARDED_ASK_BUDGET")
    case True
    moreover have "ask_work (Suc k) f \<le> ask_work (k + Suc n) f" by (rule ask_work_mono) simp
    ultimately show ?thesis using step by (simp del: ask_work.simps add: Let_def)
  next
    case False
    then show ?thesis using step Suc.IH [of "Suc k"] by (simp del: ask_work.simps add: Let_def)
  qed
qed simp

section \<open>Facts about answers\<close>

lemma foldl_weaker:
  "foldl weaker_claim acc cs = Established \<longleftrightarrow> acc = Established \<and> (\<forall>c \<in> set cs. c = Established)"
proof (induction cs arbitrary: acc)
  case (Cons c cs)
  have "weaker_claim acc c = Established \<longleftrightarrow> acc = Established \<and> c = Established"
    by (cases acc; cases c) simp_all
  with Cons show ?case by auto
qed simp

lemma item_claim_Established:
  "item_claim i = Established \<longleftrightarrow> get_as as_bool ''absence_established'' i = Some True"
  by (auto simp: item_claim_def split: option.splits bool.splits)

lemma subtree_claim_Established:
  "subtree_claim_of response = Established \<longleftrightarrow>
     (\<exists>items. answer_items response = Some items \<and> items \<noteq> [] \<and>
       (\<forall>i \<in> set items. get_as as_bool ''absence_established'' i = Some True))"
  by (auto simp: subtree_claim_of_def foldl_weaker item_claim_Established split: option.splits)

section \<open>Properties\<close>

text \<open>
  the budget of a forwarded ask. For every hop count and every fan-out a byte can carry, the
  derived budget is exactly the time the ask needs when each hop asks its peers one after the other,
  cut at the ceiling; the saturating arithmetic never bites, and no hop is ever given less than a
  leaf ask takes. At the defaults (two hops, fan-out three) it is the ceiling exactly.
\<close>

theorem ask_budget_is_work:
  assumes "fan_out \<le> 255"
  shows "ask_budget hops_remaining fan_out
      = min MAX_FORWARDED_ASK_BUDGET (ask_work hops_remaining fan_out)
    \<and> FORWARDED_ASK_LEAF_TIMEOUT \<le> ask_budget hops_remaining fan_out
    \<and> ask_work 2 3 = MAX_FORWARDED_ASK_BUDGET"
proof -
  have eq: "ask_budget hops_remaining fan_out
      = min MAX_FORWARDED_ASK_BUDGET (ask_work hops_remaining fan_out)"
    using ask_budget_loop_work [OF assms, of 0 hops_remaining]
    by (simp add: ask_budget_def MAX_FORWARDED_ASK_BUDGET_def FORWARDED_ASK_LEAF_TIMEOUT_def)
  have "ask_work 0 fan_out \<le> ask_work hops_remaining fan_out" by (rule ask_work_mono) simp
  moreover have "FORWARDED_ASK_LEAF_TIMEOUT \<le> MAX_FORWARDED_ASK_BUDGET"
    by (simp add: MAX_FORWARDED_ASK_BUDGET_def FORWARDED_ASK_LEAF_TIMEOUT_def)
  moreover have "ask_work 2 3 = MAX_FORWARDED_ASK_BUDGET"
    by (simp add: MAX_FORWARDED_ASK_BUDGET_def FORWARDED_ASK_LEAF_TIMEOUT_def numeral_2_eq_2)
  ultimately show ?thesis using eq by simp
qed

theorem ask_budget_is_work_witness: "ask_budget 2 3 = 65000000000 \<and> ask_budget 1 2 = 15000000000"
  using ask_budget_is_work [of 3 2] ask_budget_is_work [of 2 1]
  by (simp add: MAX_FORWARDED_ASK_BUDGET_def FORWARDED_ASK_LEAF_TIMEOUT_def numeral_2_eq_2)

text \<open>
  how a peer's answer is read, for every JSON value it may send. An error frame is a refusal and
  a frame with no result is no answer. An answer counts as complete only when the peer says it holds
  the content itself, or when it carries at least one item and every item says that the absence was
  established: an empty or silent item list never is. A peer that holds the content, with a readable
  id and a dialled address, comes first in its own answer and is named there exactly once.
\<close>

theorem forwarded_answer_reading:
  assumes records: "\<And>c p as t. peer_from_hex E (peer_hex R) = Some p \<Longrightarrow>
      provider_peer_id E (record_new E c p as t) = peer_hex R"
  shows "(json_get ''error'' response \<noteq> None \<longrightarrow> parse_forwarded_answer E c response R = Refused)
    \<and> (json_get ''error'' response = None \<and> json_get ''result'' response = None \<longrightarrow>
        parse_forwarded_answer E c response R = Unreachable)
    \<and> (\<forall>rs. parse_forwarded_answer E c response R = Answered rs \<longrightarrow>
        responder_holds response \<and> rs \<noteq> []
        \<or> (\<exists>items. answer_items response = Some items \<and> items \<noteq> []
            \<and> (\<forall>i \<in> set items. get_as as_bool ''absence_established'' i = Some True)))
    \<and> (json_get ''error'' response = None \<and> responder_holds response
        \<and> peer_from_hex E (peer_hex R) \<noteq> None \<and> resp_addrs R \<noteq> [] \<longrightarrow>
        (\<exists>r rest. parse_forwarded_answer E c response R = Answered (r # rest)
          \<and> provider_peer_id E r = peer_hex R
          \<and> (\<forall>r' \<in> set rest. provider_peer_id E r' \<noteq> peer_hex R)))"
proof (intro conjI impI allI)
  fix rs assume "parse_forwarded_answer E c response R = Answered rs"
  then have "responder_holds response \<and> rs \<noteq> [] \<or> subtree_claim_of response = Established"
    by (auto simp: parse_forwarded_answer_def Let_def split: if_splits subtree_claim.splits)
  then show "responder_holds response \<and> rs \<noteq> []
      \<or> (\<exists>items. answer_items response = Some items \<and> items \<noteq> []
          \<and> (\<forall>i \<in> set items. get_as as_bool ''absence_established'' i = Some True))"
    by (simp add: subtree_claim_Established)
next
  assume a: "json_get ''error'' response = None \<and> responder_holds response
      \<and> peer_from_hex E (peer_hex R) \<noteq> None \<and> resp_addrs R \<noteq> []"
  then obtain p where p: "peer_from_hex E (peer_hex R) = Some p" by auto
  have "json_get ''result'' response \<noteq> None"
    using a by (cases "json_get ''result'' response")
      (auto simp: responder_holds_def answer_items_def unwrap_or_def)
  with a p show "\<exists>r rest. parse_forwarded_answer E c response R = Answered (r # rest)
      \<and> provider_peer_id E r = peer_hex R
      \<and> (\<forall>r' \<in> set rest. provider_peer_id E r' \<noteq> peer_hex R)"
    by (simp add: parse_forwarded_answer_def responder_record_def records [OF p])
qed (simp_all add: parse_forwarded_answer_def)

text \<open>An instance of the crates' constructors, for evaluation: a record is its peer and its size.\<close>

definition sample_ext :: "(string, nat, string \<times> nat) dht_ext" where
  "sample_ext = \<lparr>peer_from_hex = (\<lambda>s. if length s = 2 then Some s else None),
     addr_direct = (\<lambda>host port. port), addr_of_socket = sa_port,
     record_new = (\<lambda>c p as t. (p, length as)), provider_peer_id = fst\<rparr>"

theorem forwarded_answer_reading_witness:
  "\<exists>r rest. parse_forwarded_answer sample_ext (Store [])
      (JObject [(''result'', JObject [(''items'', JArray [JObject [(''available'', JBool True)]])])])
      \<lparr>peer_hex = ''ab'', resp_addrs = [V4 1 9444]\<rparr> = Answered (r # rest) \<and> fst r = ''ab''"
proof -
  let ?R = "\<lparr>peer_hex = ''ab'', resp_addrs = [V4 1 9444]\<rparr>"
  have "provider_peer_id sample_ext (record_new sample_ext c p as t) = peer_hex ?R"
    if "peer_from_hex sample_ext (peer_hex ?R) = Some p" for c p as t
    using that by (simp add: sample_ext_def split: if_splits)
  from forwarded_answer_reading [where E = sample_ext and R = ?R, OF this,
      of "JObject [(''result'', JObject [(''items'', JArray [JObject [(''available'', JBool True)]])])]"
        "Store []"]
  show ?thesis
    by (auto simp: sample_ext_def responder_holds_def answer_items_def get_as_def unwrap_or_def)
qed

end
