(* ===== verification/Request.thy ===== *)
theory Request
  imports Forwarded_Ask Rate_Limit
begin

text \<open>
  What a read request carries and how the node reads it (\<open>dig-node-core/src/download.rs\<close>): the
  operator's miss-path switches, where the request came from and whether it may leave anything
  behind, and the hop and time budget of a question that travels.

  Environment variables and headers arrive as optional strings. A fresh ask id is drawn at random;
  the drawn value is an argument.
\<close>

section \<open>Switches\<close>

definition eq_ignore_ascii_case :: "string \<Rightarrow> string \<Rightarrow> bool" where
  "eq_ignore_ascii_case s t \<longleftrightarrow> to_ascii_lowercase s = to_ascii_lowercase t"

datatype miss_mode = Redirect | FetchThrough

definition resolve_miss_mode :: "string option \<Rightarrow> miss_mode" where
  "resolve_miss_mode v =
     (case map_option str_trim v of
        Some s \<Rightarrow>
          if eq_ignore_ascii_case s ''fetch'' \<or> eq_ignore_ascii_case s ''fetch-through''
             \<or> eq_ignore_ascii_case s ''fetch_through''
          then FetchThrough else Redirect
      | None \<Rightarrow> Redirect)"

definition resolve_onion_relay :: "string option \<Rightarrow> bool" where
  "resolve_onion_relay v =
     (case map_option str_trim v of
        Some s \<Rightarrow> eq_ignore_ascii_case s ''1'' \<or> eq_ignore_ascii_case s ''true''
          \<or> eq_ignore_ascii_case s ''on'' \<or> eq_ignore_ascii_case s ''yes''
      | None \<Rightarrow> False)"

definition truthy :: "string list" where
  "truthy = [''on'', ''1'', ''true'', ''yes'']"

text \<open>The default of the backfill policy is \<open>dig-sex\<close>'s.\<close>

definition resolve_backfill_on_miss :: "bool \<Rightarrow> string option \<Rightarrow> bool" where
  "resolve_backfill_on_miss default_enabled v =
     (case map_option (\<lambda>s. to_ascii_lowercase (str_trim s)) v of
        None \<Rightarrow> default_enabled
      | Some s \<Rightarrow> s \<in> set truthy)"

definition resolve_inbound_demand_cache :: "string option \<Rightarrow> bool" where
  "resolve_inbound_demand_cache v =
     (case map_option (\<lambda>s. to_ascii_lowercase (str_trim s)) v of
        None \<Rightarrow> False
      | Some s \<Rightarrow> s \<in> set truthy)"

section \<open>Provenance\<close>

datatype request_provenance = FirstParty | StoreServed | CrossSite

definition from_sec_fetch_site :: "string option \<Rightarrow> request_provenance" where
  "from_sec_fetch_site hdr =
     (case map_option (\<lambda>v. to_ascii_lowercase (str_trim v)) hdr of
        None \<Rightarrow> FirstParty
      | Some s \<Rightarrow>
          if s = ''none'' then FirstParty
          else if s = ''cross-site'' then CrossSite
          else StoreServed)"

fun landing_origin :: "read_origin \<Rightarrow> request_provenance \<Rightarrow> read_origin" where
  "landing_origin origin FirstParty = origin"
| "landing_origin origin StoreServed = OriginPeer"
| "landing_origin origin CrossSite = OriginPeer"

section \<open>The hop budget\<close>

definition CONTENT_REDIRECT :: int where "CONTENT_REDIRECT = - 32008"
definition CONTENT_MISS_RATE_LIMITED :: int where "CONTENT_MISS_RATE_LIMITED = - 32003"
definition REDIRECT_HOP_CAP :: nat where "REDIRECT_HOP_CAP = 4"

definition redirect_depth :: "json \<Rightarrow> nat" where
  "redirect_depth params = unwrap_or 0 (get_as as_u64 ''redirect_depth'' params)"

definition parse_ask_id :: "hex_codec \<Rightarrow> string \<Rightarrow> string option" where
  "parse_ask_id h hex_id =
     (case hx_decode h hex_id of
        None \<Rightarrow> None
      | Some bytes \<Rightarrow> if length bytes = 16 then Some bytes else None)"

record hop_budget =
  hb_hops :: "nat option"
  hb_ask_id :: string
  hb_time :: "nat option"

definition hop_budget_from_params :: "hex_codec \<Rightarrow> string \<Rightarrow> json \<Rightarrow> hop_budget" where
  "hop_budget_from_params h minted params =
     \<lparr>hb_hops = (case json_get ''redirect_depth'' params of
          None \<Rightarrow> Some 0
        | Some JNull \<Rightarrow> Some 0
        | Some value \<Rightarrow> as_u64 value),
      hb_ask_id = unwrap_or minted
        (Option.bind (get_as as_str ''ask_id'' params) (parse_ask_id h)),
      hb_time = map_option (\<lambda>ms. min (ms * 1000000) MAX_FORWARDED_ASK_BUDGET)
        (get_as as_u64 ''budget_ms'' params)\<rparr>"

definition hop_budget_fresh :: "string \<Rightarrow> hop_budget" where
  "hop_budget_fresh minted = \<lparr>hb_hops = Some 0, hb_ask_id = minted, hb_time = None\<rparr>"

definition hop_budget_spent :: "string \<Rightarrow> hop_budget" where
  "hop_budget_spent minted = \<lparr>hb_hops = Some 255, hb_ask_id = minted, hb_time = None\<rparr>"

definition budget_used :: "hop_budget \<Rightarrow> nat" where
  "budget_used b = unwrap_or 0 (hb_hops b)"

definition time_budget :: "nat \<Rightarrow> nat \<Rightarrow> hop_budget \<Rightarrow> nat" where
  "time_budget hops_remaining fan_out b =
     (case hb_time b of Some t \<Rightarrow> t | None \<Rightarrow> ask_budget hops_remaining fan_out)"

definition budget_remaining :: "nat \<Rightarrow> hop_budget \<Rightarrow> nat option" where
  "budget_remaining hop_cap b =
     (case hb_hops b of
        None \<Rightarrow> None
      | Some hops \<Rightarrow> let used = (if hops \<le> 255 then hops else 255) in Some (hop_cap - used))"

definition proxy_requested :: "json \<Rightarrow> bool" where
  "proxy_requested params = unwrap_or False (get_as as_bool ''proxy'' params)"

section \<open>Properties\<close>

text \<open>
  which reads may land. A read keeps the standing of a local one, and with it the right to make
  this node a holder, exactly when it arrived on a local transport and the browser either said
  nothing about its site or said that the user navigated there; every other header value, including
  values unknown today, folds it to a peer's read.
\<close>

theorem landing_only_first_party:
  "landing_origin origin (from_sec_fetch_site hdr) = OriginLocal \<longleftrightarrow>
     origin = OriginLocal
     \<and> (case hdr of None \<Rightarrow> True | Some v \<Rightarrow> to_ascii_lowercase (str_trim v) = ''none'')"
  by (auto simp: from_sec_fetch_site_def split: option.splits)

text \<open>
  the budget read from any request. The time a peer grants is never more than the ceiling,
  whatever number it sends; a depth field that is present and no number gives no hops to forward
  with while the redirect leg still reads it as zero; an absent one gives the whole cap; and a depth
  at or past the cap gives none.
\<close>

theorem hop_budget_bounds:
  assumes "hop_cap \<le> 255" "fan_out \<le> 255" and b: "b = hop_budget_from_params h minted params"
  shows "time_budget hops fan_out b \<le> MAX_FORWARDED_ASK_BUDGET
    \<and> budget_remaining hop_cap b =
        (case json_get ''redirect_depth'' params of
           None \<Rightarrow> Some hop_cap
         | Some v \<Rightarrow> if v = JNull then Some hop_cap else map_option (\<lambda>d. hop_cap - d) (as_u64 v))
    \<and> budget_used b = redirect_depth params"
proof (intro conjI)
  have "ask_budget hops fan_out \<le> MAX_FORWARDED_ASK_BUDGET"
    using ask_budget_loop_work [OF assms(2), of 0 hops]
    by (simp add: ask_budget_def MAX_FORWARDED_ASK_BUDGET_def FORWARDED_ASK_LEAF_TIMEOUT_def)
  then show "time_budget hops fan_out b \<le> MAX_FORWARDED_ASK_BUDGET"
    by (auto simp: time_budget_def b hop_budget_from_params_def split: option.splits)
  show "budget_remaining hop_cap b =
        (case json_get ''redirect_depth'' params of
           None \<Rightarrow> Some hop_cap
         | Some v \<Rightarrow> if v = JNull then Some hop_cap else map_option (\<lambda>d. hop_cap - d) (as_u64 v))"
    using assms(1)
    by (auto simp: budget_remaining_def b hop_budget_from_params_def Let_def
        split: option.splits json.splits)
  show "budget_used b = redirect_depth params"
    by (auto simp: budget_used_def b hop_budget_from_params_def redirect_depth_def get_as_def
        unwrap_or_def split: option.splits json.splits)
qed

theorem hop_budget_bounds_witness:
  "time_budget 0 3 (hop_budget_from_params base16 ''m''
      (JObject [(''budget_ms'', JNumber (PosInt 600000)), (''redirect_depth'', JString ''x'')]))
     \<le> MAX_FORWARDED_ASK_BUDGET
   \<and> budget_remaining 2 (hop_budget_from_params base16 ''m''
      (JObject [(''budget_ms'', JNumber (PosInt 600000)), (''redirect_depth'', JString ''x'')])) = None"
  using hop_budget_bounds [of 2 3 _ base16 "''m''"
      "JObject [(''budget_ms'', JNumber (PosInt 600000)), (''redirect_depth'', JString ''x'')]" 0, OF _ _ refl]
  by simp

text \<open>
  a question keeps its identity and never gains time on its way. When a request built for a peer
  is read by that peer, the peer sees the same content, the same ask id and the depth it was sent,
  and a time budget no larger than the one granted and no larger than the ceiling. (The JSON form of
  the request's parameters is \<open>dig-rpc-protocol\<close>'s; the hypotheses say that it carries them.)
\<close>

theorem question_travels:
  assumes "hex_laws h" "length ask_id = 16" "content_ok content"
    and "p = forwarded_request h content next_depth budget ask_id"
    and "json_get ''redirect_depth'' (to_json p) = Some (JNumber (PosInt (fp_redirect_depth p)))"
    and "json_get ''budget_ms'' (to_json p) = Some (JNumber (PosInt (fp_budget_ms p)))"
    and "json_get ''ask_id'' (to_json p) = Some (JString (fp_ask_id p))"
  shows "\<exists>t. hop_budget_from_params h minted (to_json p)
      = \<lparr>hb_hops = Some next_depth, hb_ask_id = ask_id, hb_time = Some t\<rparr>
    \<and> t \<le> budget \<and> t \<le> MAX_FORWARDED_ASK_BUDGET
    \<and> availability_of_item h (fp_item p) = Some content"
proof -
  have "parse_ask_id h (hx_encode h ask_id) = Some ask_id"
    using assms(1,2) by (simp add: parse_ask_id_def hex_laws_roundtrip)
  moreover have "fp_budget_ms p * 1000000 \<le> budget"
    by (auto simp: assms(4) forwarded_request_def Let_def)
  moreover have "availability_of_item h (fp_item p) = Some content"
    using assms(1,3) by (cases content)
      (simp_all add: assms(4) forwarded_request_def availability_of_item_def content_id_json_def
        availability_content_id_def get_as_def unwrap_or_def hex64_encode content_ok_def)
  ultimately show ?thesis
    using assms(5-7)
    by (simp add: hop_budget_from_params_def get_as_def unwrap_or_def assms(4) forwarded_request_def)
qed

text \<open>A JSON form of the parameters, for evaluation.\<close>

definition sample_params_json :: "forwarded_params \<Rightarrow> json" where
  "sample_params_json p = JObject
     [(''items'', JArray [fp_item p]), (''redirect_depth'', JNumber (PosInt (fp_redirect_depth p))),
      (''budget_ms'', JNumber (PosInt (fp_budget_ms p))), (''ask_id'', JString (fp_ask_id p))]"

theorem question_travels_witness:
  "\<exists>t. hop_budget_from_params base16 ''minted''
      (sample_params_json (forwarded_request base16 (Store (replicate 32 CHR ''s'')) 1 900000000 (replicate 16 CHR ''i'')))
      = \<lparr>hb_hops = Some 1, hb_ask_id = replicate 16 CHR ''i'', hb_time = Some t\<rparr> \<and> t \<le> 900000000"
proof -
  let ?p = "forwarded_request base16 (Store (replicate 32 CHR ''s'')) 1 900000000 (replicate 16 CHR ''i'')"
  have "length (replicate 16 CHR ''i'') = 16" "content_ok (Store (replicate 32 CHR ''s''))"
    by (simp_all add: content_ok_def)
  from question_travels [OF base16_laws this refl, where to_json = sample_params_json
      and next_depth = 1 and budget = 900000000 and minted = "''minted''"]
  show ?thesis by (auto simp: sample_params_json_def)
qed

end
