(* ===== verification/Pool.thy ===== *)
theory Pool
  imports Address_Book Wire
begin

text \<open>
  The connected pool (\<open>NodeContent::on_pool_event\<close>, \<open>retain_newest_per_family\<close> and
  \<open>pool_removal_reason\<close> in \<open>dig-node-core/src/download.rs\<close>), with the address translation of
  \<open>peer.rs\<close> and the contact check of \<open>seams/dig_peer/net.rs\<close>.

  A peer is named by the hex form of its id. The peer selector's own registry, which the same events
  feed, belongs to \<open>dig-peer-selector\<close>. A value of \<open>None\<close> is a panic; none is reachable.
\<close>

section \<open>Addresses\<close>

definition GOSSIP_TO_DHT_PORT_OFFSET :: nat where "GOSSIP_TO_DHT_PORT_OFFSET = 9445 - 9444"

definition set_port :: "nat \<Rightarrow> socket_addr \<Rightarrow> socket_addr" where
  "set_port p a = (case a of V4 ip _ \<Rightarrow> V4 ip p | V6 ip _ fl sc \<Rightarrow> V6 ip p fl sc)"

definition dht_addr_from_gossip_addr :: "socket_addr \<Rightarrow> socket_addr" where
  "dht_addr_from_gossip_addr gossip = set_port (sa_port gossip - GOSSIP_TO_DHT_PORT_OFFSET) gossip"

definition is_usable_contact :: "socket_addr \<Rightarrow> bool" where
  "is_usable_contact addr \<longleftrightarrow> sa_ip addr \<noteq> 0 \<and> sa_port addr \<noteq> 0"

definition dht_contact_from_pool_addr :: "socket_addr \<Rightarrow> socket_addr option" where
  "dht_contact_from_pool_addr gossip =
     (let dht = dht_addr_from_gossip_addr gossip
      in if is_usable_contact dht then Some dht else None)"

section \<open>Events\<close>

datatype gossip_removal_reason = GDisconnected | GReaped | GDisplaced | GDead | GBanned
datatype pool_removal_reason = Disconnected | Dead | Banned

fun pool_removal_reason_of :: "gossip_removal_reason \<Rightarrow> pool_removal_reason" where
  "pool_removal_reason_of GDisconnected = Disconnected"
| "pool_removal_reason_of GReaped = Disconnected"
| "pool_removal_reason_of GDisplaced = Disconnected"
| "pool_removal_reason_of GDead = Dead"
| "pool_removal_reason_of GBanned = Banned"

datatype pool_event_kind = Added socket_addr | Removed gossip_removal_reason

datatype pool_event =
  PeerAdded (pe_peer: string) socket_addr
| PeerRemoved (pe_peer: string) pool_removal_reason

definition pool_event_to_selector :: "string \<Rightarrow> pool_event_kind \<Rightarrow> pool_event" where
  "pool_event_to_selector peer_id event =
     (case event of
        Added addr \<Rightarrow> PeerAdded peer_id addr
      | Removed reason \<Rightarrow> PeerRemoved peer_id (pool_removal_reason_of reason))"

section \<open>The address list of a peer\<close>

definition MAX_POOL_ADDRS_PER_PEER :: nat where "MAX_POOL_ADDRS_PER_PEER = 8"

text \<open>\<open>rposition\<close> and \<open>remove\<close>: take out the last element with the property.\<close>

fun remove_last :: "('a \<Rightarrow> bool) \<Rightarrow> 'a list \<Rightarrow> 'a list option" where
  "remove_last P [] = None"
| "remove_last P (x # xs) =
     (case remove_last P xs of
        Some ys \<Rightarrow> Some (x # ys)
      | None \<Rightarrow> if P x then Some xs else None)"

lemma remove_last_length: "remove_last P xs = Some ys \<Longrightarrow> length xs = Suc (length ys)"
  by (induction xs arbitrary: ys) (auto split: option.splits if_splits)

function retain_newest_per_family :: "nat \<Rightarrow> socket_addr list \<Rightarrow> socket_addr list option" where
  "retain_newest_per_family limit addrs =
     (if length addrs > limit
      then let ipv6_count = length (filter is_ipv6 addrs);
               evict_ipv6 = (ipv6_count * 2 \<ge> length addrs)
           in case remove_last (\<lambda>a. is_ipv6 a = evict_ipv6) addrs of
                None \<Rightarrow> None
              | Some addrs' \<Rightarrow> retain_newest_per_family limit addrs'
      else Some addrs)"
  by pat_completeness auto
termination
  by (relation "measure (\<lambda>(limit, addrs). length addrs)") (auto dest: remove_last_length)

declare retain_newest_per_family.simps [simp del]

section \<open>The pool\<close>

type_synonym connected_pool = "(string \<times> socket_addr list) list"

definition on_pool_event :: "string option \<Rightarrow> pool_event \<Rightarrow> connected_pool \<Rightarrow> connected_pool option" where
  "on_pool_event self_peer_id event pool =
     (case event of
        PeerAdded peer addr \<Rightarrow>
          if self_peer_id = Some peer then Some pool
          else if \<not> is_usable_contact addr then Some pool
          else let addrs = (case map_of pool peer of None \<Rightarrow> [] | Some as \<Rightarrow> as);
                   addrs' = addr # filter (\<lambda>known. known \<noteq> addr) addrs
               in (case retain_newest_per_family MAX_POOL_ADDRS_PER_PEER addrs' of
                     None \<Rightarrow> None
                   | Some kept \<Rightarrow> Some (AList.update peer kept pool))
      | PeerRemoved peer _ \<Rightarrow> Some (AList.delete peer pool))"

definition dialable_pool :: "connected_pool \<Rightarrow> connected_pool" where
  "dialable_pool pool = filter (\<lambda>(_, addrs). addrs \<noteq> []) pool"

section \<open>Facts\<close>

lemma remove_last_None: "remove_last P xs = None \<longleftrightarrow> (\<forall>x \<in> set xs. \<not> P x)"
  by (induction xs) (auto split: option.splits)

lemma remove_last_spec:
  assumes "remove_last P xs = Some ys"
  shows "filter P ys = butlast (filter P xs)" "filter (\<lambda>x. \<not> P x) ys = filter (\<lambda>x. \<not> P x) xs"
    "subseq ys xs"
proof -
  have "filter P ys = butlast (filter P xs) \<and> filter (\<lambda>x. \<not> P x) ys = filter (\<lambda>x. \<not> P x) xs
      \<and> subseq ys xs"
    using assms
  proof (induction xs arbitrary: ys)
    case (Cons x xs)
    show ?case
    proof (cases "remove_last P xs")
      case None
      then have "filter P xs = []" by (simp add: remove_last_None filter_empty_conv)
      with None Cons.prems show ?thesis by (auto split: if_splits)
    next
      case (Some zs)
      then have "filter P xs \<noteq> []"
        using remove_last_None [of P xs] by (auto simp: filter_empty_conv)
      with Some Cons show ?thesis by auto
    qed
  qed simp
  then show "filter P ys = butlast (filter P xs)" "filter (\<lambda>x. \<not> P x) ys = filter (\<lambda>x. \<not> P x) xs"
    "subseq ys xs" by auto
qed

lemma remove_last_hd:
  assumes "remove_last P (x # xs) = Some ys" "2 \<le> length (filter P (x # xs))"
  shows "\<exists>zs. ys = x # zs"
proof -
  have "filter P xs \<noteq> []" using assms(2) by (auto split: if_splits)
  then have "remove_last P xs \<noteq> None" by (auto simp: remove_last_None filter_empty_conv)
  with assms(1) show ?thesis by (auto split: option.splits)
qed

text \<open>The victim's family always has a member, and more than one when there are more than two.\<close>

lemma family_majority:
  fixes addrs :: "socket_addr list"
  defines "b \<equiv> length (filter is_ipv6 addrs) * 2 \<ge> length addrs"
  assumes "addrs \<noteq> []"
  shows "length addrs \<le> 2 * length (filter (\<lambda>a. is_ipv6 a = b) addrs)"
proof -
  have "length (filter is_ipv6 addrs) + length (filter (\<lambda>a. \<not> is_ipv6 a) addrs) = length addrs"
    by (rule sum_length_filter_compl)
  then show ?thesis
    by (cases b) (auto simp: b_def)
qed

definition families :: "socket_addr list \<Rightarrow> bool set" where
  "families addrs = is_ipv6 ` set addrs"

lemma families_filter: "b \<in> families addrs \<longleftrightarrow> filter (\<lambda>a. is_ipv6 a = b) addrs \<noteq> []"
  by (auto simp: families_def filter_empty_conv)

lemma retain_newest_spec:
  assumes "2 \<le> limit"
  shows "\<exists>r. retain_newest_per_family limit addrs = Some r \<and> length r = min limit (length addrs)
    \<and> subseq r addrs \<and> families r = families addrs \<and> hd r = hd addrs
    \<and> (\<forall>b. prefix (filter (\<lambda>a. is_ipv6 a = b) r) (filter (\<lambda>a. is_ipv6 a = b) addrs))"
  using assms
proof (induction limit addrs rule: retain_newest_per_family.induct)
  case (1 limit addrs)
  show ?case
  proof (cases "length addrs > limit")
    case False
    then show ?thesis by (simp add: retain_newest_per_family.simps [of limit addrs])
  next
    case True
    define b where "b \<longleftrightarrow> length (filter is_ipv6 addrs) * 2 \<ge> length addrs"
    let ?P = "\<lambda>a. is_ipv6 a = b"
    have ne: "addrs \<noteq> []" using True by auto
    have two: "2 \<le> length (filter ?P addrs)"
      using family_majority [OF ne] True 1(2) unfolding b_def by linarith
    obtain ys where ys: "remove_last ?P addrs = Some ys"
      using two remove_last_None [of ?P addrs] by (cases "remove_last ?P addrs") (auto simp: filter_empty_conv)
    note sp = remove_last_spec [OF ys] remove_last_length [OF ys]
    obtain r where r: "retain_newest_per_family limit ys = Some r" "length r = min limit (length ys)"
      "subseq r ys" "families r = families ys" "hd r = hd ys"
      "\<forall>c. prefix (filter (\<lambda>a. is_ipv6 a = c) r) (filter (\<lambda>a. is_ipv6 a = c) ys)"
      using 1(1) [OF True refl refl ys [unfolded b_def]] 1(2) by blast
    have step: "retain_newest_per_family limit addrs = Some r"
      using True ys r(1) by (simp add: retain_newest_per_family.simps [of limit addrs] b_def Let_def)
    have fam: "filter (\<lambda>a. is_ipv6 a = c) ys =
        (if c = b then butlast (filter ?P addrs) else filter (\<lambda>a. is_ipv6 a = c) addrs)" for c
    proof (cases "c = b")
      case False
      then have "(\<lambda>a. is_ipv6 a = c) = (\<lambda>a. \<not> ?P a)" by auto
      with sp(2) False show ?thesis by simp
    qed (use sp(1) in simp)
    have fams: "families ys = families addrs"
    proof (rule set_eqI)
      fix c
      have "0 < length (butlast (filter ?P addrs))" using two by simp
      then have "butlast (filter ?P addrs) \<noteq> []" "filter ?P addrs \<noteq> []" by fastforce+
      then show "c \<in> families ys \<longleftrightarrow> c \<in> families addrs"
        unfolding families_filter fam by (cases "c = b") simp_all
    qed
    have pre: "\<forall>c. prefix (filter (\<lambda>a. is_ipv6 a = c) r) (filter (\<lambda>a. is_ipv6 a = c) addrs)"
    proof
      fix c
      have "prefix (filter (\<lambda>a. is_ipv6 a = c) ys) (filter (\<lambda>a. is_ipv6 a = c) addrs)"
        unfolding fam by (cases "c = b") (simp_all add: prefixeq_butlast)
      with r(6) show "prefix (filter (\<lambda>a. is_ipv6 a = c) r) (filter (\<lambda>a. is_ipv6 a = c) addrs)"
        by (blast intro: prefix_order.trans)
    qed
    have hd: "hd ys = hd addrs"
      using remove_last_hd [of ?P "hd addrs" "tl addrs" ys] ys two ne by fastforce
    have len: "length r = min limit (length addrs)" using r(2) sp(4) True by simp
    have "subseq r addrs" using r(3) sp(3) by (rule subseq_order.trans)
    with step len pre r(4,5) fams hd show ?thesis by metis
  qed
qed

text \<open>What holds of the pool after every event.\<close>

definition addrs_ok :: "socket_addr list \<Rightarrow> bool" where
  "addrs_ok addrs \<longleftrightarrow> addrs \<noteq> [] \<and> length addrs \<le> MAX_POOL_ADDRS_PER_PEER \<and> distinct addrs
     \<and> (\<forall>a \<in> set addrs. is_usable_contact a)"

definition pool_ok :: "string option \<Rightarrow> connected_pool \<Rightarrow> bool" where
  "pool_ok me pool \<longleftrightarrow> hm_ok pool \<and> (\<forall>(p, addrs) \<in> set pool. addrs_ok addrs \<and> me \<noteq> Some p)"

lemma subseq_set: "subseq xs ys \<Longrightarrow> x \<in> set xs \<Longrightarrow> x \<in> set ys"
  by (metis notin_set_nthsI subseq_conv_nths)

text \<open>The new address list of a peer that is added.\<close>

lemma retain_added:
  assumes "addrs = [] \<or> addrs_ok addrs" "is_usable_contact a"
  shows "\<exists>r. retain_newest_per_family MAX_POOL_ADDRS_PER_PEER (a # filter (\<lambda>k. k \<noteq> a) addrs) = Some r
    \<and> addrs_ok r \<and> hd r = a \<and> families r = insert (is_ipv6 a) (families addrs)
    \<and> set r \<subseteq> insert a (set addrs)"
proof -
  let ?l = "a # filter (\<lambda>k. k \<noteq> a) addrs"
  obtain r where r: "retain_newest_per_family MAX_POOL_ADDRS_PER_PEER ?l = Some r"
    "length r = min MAX_POOL_ADDRS_PER_PEER (length ?l)" "subseq r ?l" "families r = families ?l"
    "hd r = hd ?l"
    using retain_newest_spec [of MAX_POOL_ADDRS_PER_PEER ?l] by (auto simp: MAX_POOL_ADDRS_PER_PEER_def)
  have d: "distinct ?l" using assms(1) by (auto simp: addrs_ok_def)
  have sub: "set r \<subseteq> insert a (set addrs)"
    using r(3) by (auto dest: subseq_set)
  have "families ?l = insert (is_ipv6 a) (families addrs)" by (auto simp: families_def)
  moreover have "addrs_ok r"
    unfolding addrs_ok_def
  proof (intro conjI)
    show "r \<noteq> []" "length r \<le> MAX_POOL_ADDRS_PER_PEER"
      using r(2) by (auto simp: MAX_POOL_ADDRS_PER_PEER_def)
    show "distinct r" by (rule subseq_distinct [OF r(3) d])
    show "\<forall>x \<in> set r. is_usable_contact x" using sub assms by (auto simp: addrs_ok_def)
  qed
  ultimately show ?thesis using r(1,4,5) sub by (intro exI [of _ r]) simp
qed

lemma on_pool_event_added:
  assumes "pool_ok me pool" "me \<noteq> Some p" "is_usable_contact a"
  shows "\<exists>r. on_pool_event me (PeerAdded p a) pool = Some (AList.update p r pool)
    \<and> addrs_ok r \<and> hd r = a
    \<and> families r = insert (is_ipv6 a) (families (unwrap_or [] (map_of pool p)))
    \<and> set r \<subseteq> insert a (set (unwrap_or [] (map_of pool p)))"
proof -
  let ?old = "unwrap_or [] (map_of pool p)"
  have "?old = [] \<or> addrs_ok ?old"
    using assms(1) by (auto simp: pool_ok_def unwrap_or_def hm_in_set_iff split: option.splits
        dest!: map_of_SomeD)
  from retain_added [OF this assms(3)] assms(2,3) show ?thesis
    by (auto simp: on_pool_event_def Let_def unwrap_or_def)
qed

lemma pool_ok_event:
  assumes "pool_ok me pool"
  shows "\<exists>pool'. on_pool_event me e pool = Some pool' \<and> pool_ok me pool'"
proof (cases e)
  case (PeerAdded p a)
  show ?thesis
  proof (cases "me \<noteq> Some p \<and> is_usable_contact a")
    case True
    then obtain r where "on_pool_event me e pool = Some (AList.update p r pool)" "addrs_ok r"
      using on_pool_event_added [OF assms] PeerAdded by blast
    moreover have "pool_ok me (AList.update p r pool)"
      using assms True \<open>addrs_ok r\<close> by (fastforce simp: pool_ok_def dest: in_set_update)
    ultimately show ?thesis by blast
  next
    case False
    with PeerAdded assms show ?thesis by (auto simp: on_pool_event_def)
  qed
next
  case (PeerRemoved p r)
  with assms show ?thesis
    by (auto simp: on_pool_event_def pool_ok_def AList.delete_eq)
qed

definition pool_run :: "string option \<Rightarrow> pool_event list \<Rightarrow> connected_pool \<Rightarrow> connected_pool option" where
  "pool_run me es pool = foldl (\<lambda>acc e. Option.bind acc (on_pool_event me e)) (Some pool) es"

lemma pool_run_ok: "pool_ok me pool \<Longrightarrow> \<exists>pool'. pool_run me es pool = Some pool' \<and> pool_ok me pool'"
proof (induction es arbitrary: pool)
  case (Cons e es)
  obtain pool1 where "on_pool_event me e pool = Some pool1" "pool_ok me pool1"
    using pool_ok_event [OF Cons.prems] by blast
  with Cons.IH [of pool1] show ?case by (simp add: pool_run_def)
qed (simp add: pool_run_def)

section \<open>Properties\<close>

text \<open>
  the connected pool stays well formed under every sequence of pool events. No event panics; the
  pool never lists this node itself; every listed peer has between one and eight addresses, all
  different and all real destinations.
\<close>

theorem pool_invariant:
  "\<exists>pool. pool_run me es [] = Some pool \<and> hm_ok pool
    \<and> (\<forall>p addrs. map_of pool p = Some addrs \<longrightarrow> me \<noteq> Some p \<and> addrs \<noteq> []
        \<and> length addrs \<le> MAX_POOL_ADDRS_PER_PEER \<and> distinct addrs
        \<and> (\<forall>a \<in> set addrs. sa_ip a \<noteq> 0 \<and> sa_port a \<noteq> 0))"
proof -
  obtain pool where "pool_run me es [] = Some pool" "pool_ok me pool"
    using pool_run_ok [of me "[]" es] by (auto simp: pool_ok_def)
  then show ?thesis
    by (intro exI [of _ pool]) (auto simp: pool_ok_def addrs_ok_def is_usable_contact_def dest!: map_of_SomeD)
qed

theorem pool_invariant_witness:
  "\<exists>pool. pool_run (Some ''me'') [PeerAdded ''me'' (V4 1 9444), PeerAdded ''a'' (V4 2 9444)] [] = Some pool
    \<and> map_of pool ''me'' = None"
  using pool_invariant [of "Some ''me''" "[PeerAdded ''me'' (V4 1 9444), PeerAdded ''a'' (V4 2 9444)]"]
  by (metis option.exhaust)

text \<open>
  what a new session does to a peer's addresses. Its address leads the list, no address family
  the peer was reachable over is lost, and nothing but this address is added; an event for this node
  itself or for an address that is no destination changes nothing, and neither does any event to
  another peer's list.
\<close>

theorem pool_event_addresses:
  assumes "pool_ok me pool"
  shows "\<exists>pool'. on_pool_event me (PeerAdded p a) pool = Some pool'
    \<and> (if me = Some p \<or> sa_ip a = 0 \<or> sa_port a = 0 then pool' = pool
       else \<exists>r. map_of pool' = (map_of pool)(p \<mapsto> r) \<and> hd r = a
         \<and> is_ipv6 ` set r = insert (is_ipv6 a) (is_ipv6 ` set (unwrap_or [] (map_of pool p)))
         \<and> set r \<subseteq> insert a (set (unwrap_or [] (map_of pool p))))"
proof (cases "me = Some p \<or> sa_ip a = 0 \<or> sa_port a = 0")
  case True
  then show ?thesis by (auto simp: on_pool_event_def is_usable_contact_def)
next
  case False
  then obtain r where "on_pool_event me (PeerAdded p a) pool = Some (AList.update p r pool)" "hd r = a"
    "families r = insert (is_ipv6 a) (families (unwrap_or [] (map_of pool p)))"
    "set r \<subseteq> insert a (set (unwrap_or [] (map_of pool p)))"
    using on_pool_event_added [OF assms, of p a] by (auto simp: is_usable_contact_def)
  with False show ?thesis by (auto simp: families_def update_conv')
qed

theorem pool_event_addresses_witness:
  "\<exists>pool' r. on_pool_event None (PeerAdded ''a'' (V4 7 1)) [(''a'', map (\<lambda>n. V6 n 1 0 0) [1..<9])] = Some pool'
    \<and> map_of pool' ''a'' = Some r \<and> hd r = V4 7 1 \<and> True \<in> is_ipv6 ` set r \<and> False \<in> is_ipv6 ` set r"
proof -
  let ?pool = "[(''a'', map (\<lambda>n. V6 n 1 0 0) [1..<9])]"
  have "pool_ok None ?pool"
    by (auto simp: pool_ok_def hm_ok_def addrs_ok_def MAX_POOL_ADDRS_PER_PEER_def is_usable_contact_def
        distinct_map inj_on_def)
  from pool_event_addresses [OF this, of "''a''" "V4 7 1"]
  obtain pool' r where "on_pool_event None (PeerAdded ''a'' (V4 7 1)) ?pool = Some pool'"
    "map_of pool' = (map_of ?pool)(''a'' \<mapsto> r)" "hd r = V4 7 1"
    "is_ipv6 ` set r = insert False (is_ipv6 ` set (unwrap_or [] (map_of ?pool ''a'')))"
    by (simp del: upt_rec_numeral map_of.simps) blast
  moreover have "True \<in> is_ipv6 ` set (unwrap_or [] (map_of ?pool ''a''))"
    by (auto simp: unwrap_or_def image_iff intro!: bexI [of _ 1])
  ultimately show ?thesis by (intro exI [of _ pool'] exI [of _ r]) simp
qed

end
