(* ===== verification/Peer_Standing.thy ===== *)
theory Peer_Standing
  imports Forwarded_Ask
begin

text \<open>
  What the node remembers of the peers it asks: their conduct
  (\<open>dig-node-core/src/seams/dig_peer/conduct.rs\<close> and \<open>conduct_evidence\<close> in \<open>download.rs\<close>) and how
  they answered (\<open>seams/dig_peer/ask_routing.rs\<close>).

  The scoring, the ranking and the decision to forward are \<open>dig-sex\<close>'s: the fields of
  \<open>conduct_ext\<close> and \<open>routing_ext\<close>. A peer is its 32-byte id, read from the hex key of the pool.
\<close>

section \<open>Routing identities\<close>

definition from_pool_key :: "hex_codec \<Rightarrow> string \<Rightarrow> string option" where
  "from_pool_key h key =
     (case hx_decode h key of
        None \<Rightarrow> None
      | Some bytes \<Rightarrow> if length bytes = 32 then Some bytes else None)"

definition nobody :: string where
  "nobody = replicate 32 (CHR 0x00)"

definition to_pool_key :: "hex_codec \<Rightarrow> string \<Rightarrow> string" where
  "to_pool_key h peer = hx_encode h peer"

section \<open>Conduct\<close>

datatype conduct_evidence = HonestAnswer | NonPerformance | ProvenLie | SelfContradiction

fun conduct_evidence_of :: "'r ask_outcome \<Rightarrow> conduct_evidence" where
  "conduct_evidence_of (Answered _) = HonestAnswer"
| "conduct_evidence_of (AnsweredInconclusive _) = HonestAnswer"
| "conduct_evidence_of Refused = NonPerformance"
| "conduct_evidence_of TimedOut = NonPerformance"
| "conduct_evidence_of Unreachable = NonPerformance"

record 'c conduct_ext =
  cx_neutral :: 'c
  cx_observe :: "'c \<Rightarrow> conduct_evidence \<Rightarrow> nat \<Rightarrow> 'c"
  cx_decay :: "'c \<Rightarrow> nat \<Rightarrow> 'c"
  cx_dial_share :: "'c \<Rightarrow> real"

type_synonym 'c conduct_state = "(string \<times> 'c) list"

definition conduct_new :: "'c conduct_state" where
  "conduct_new = []"

definition conduct_observe ::
  "'c conduct_ext \<Rightarrow> string \<Rightarrow> conduct_evidence \<Rightarrow> nat \<Rightarrow> 'c conduct_state \<Rightarrow> 'c conduct_state"
where
  "conduct_observe X peer evidence now_ticks records =
     (let rcd = unwrap_or (cx_neutral X) (map_of records peer)
      in AList.update peer (cx_observe X rcd evidence now_ticks) records)"

definition conduct_dial_share :: "'c conduct_ext \<Rightarrow> string \<Rightarrow> nat \<Rightarrow> 'c conduct_state \<Rightarrow> real" where
  "conduct_dial_share X peer now_ticks records =
     (let rcd = unwrap_or (cx_neutral X) (map_of records peer)
      in cx_dial_share X (cx_decay X rcd now_ticks))"

definition conduct_retain :: "string list \<Rightarrow> 'c conduct_state \<Rightarrow> 'c conduct_state" where
  "conduct_retain pool records = filter (\<lambda>(peer, _). peer \<in> set pool) records"

definition conduct_dialable ::
  "'c conduct_ext \<Rightarrow> string list \<Rightarrow> nat \<Rightarrow> 'c conduct_state \<Rightarrow> string list \<times> 'c conduct_state"
where
  "conduct_dialable X pool now_ticks records =
     (let records' = conduct_retain pool records
      in (filter (\<lambda>peer. conduct_dial_share X peer now_ticks records' > 0) pool, records'))"

section \<open>Routing memory\<close>

datatype sex_outcome = Conclusive | Inconclusive | Silent

fun routed_outcome :: "'r ask_outcome \<Rightarrow> sex_outcome" where
  "routed_outcome (Answered records) = (if records \<noteq> [] then Conclusive else Inconclusive)"
| "routed_outcome (AnsweredInconclusive records) = (if records \<noteq> [] then Conclusive else Inconclusive)"
| "routed_outcome Refused = Silent"
| "routed_outcome TimedOut = Silent"
| "routed_outcome Unreachable = Silent"

definition ticks :: "nat \<Rightarrow> nat" where
  "ticks elapsed = elapsed div 1000000000"

record recursion_config =
  rc_enabled :: bool
  rc_hop_cap :: nat
  rc_fan_out :: nat

datatype forward_refusal =
  Disabled | UnreadableHopBudget | HopBudgetSpent | RelayBudgetSpent | NoEligiblePeer

datatype forward_decision =
  Forward (fwd_peers: "string list") (fwd_hops: nat)
| Refuse forward_refusal

record 'o routing_ext =
  rx_retain :: "string list \<Rightarrow> 'o \<Rightarrow> 'o"
  rx_record :: "string \<Rightarrow> sex_outcome \<Rightarrow> nat \<Rightarrow> nat \<Rightarrow> 'o \<Rightarrow> 'o"
  rx_decide :: "recursion_config \<Rightarrow> string \<Rightarrow> nat option \<Rightarrow> string \<Rightarrow> string list \<Rightarrow> bool \<Rightarrow> 'o \<Rightarrow> nat
    \<Rightarrow> forward_decision"

definition routing_decide ::
  "'o routing_ext \<Rightarrow> recursion_config \<Rightarrow> string \<Rightarrow> nat option \<Rightarrow> string \<Rightarrow> string list \<Rightarrow> bool \<Rightarrow> nat \<Rightarrow> 'o
     \<Rightarrow> forward_decision \<times> 'o"
where
  "routing_decide X config requestor hops_remaining this_node pool relay_budget_available now observations =
     (let observations' = rx_retain X pool observations
      in (rx_decide X config requestor hops_remaining this_node pool relay_budget_available
            observations' (ticks now), observations'))"

definition routing_record ::
  "'o routing_ext \<Rightarrow> string \<Rightarrow> 'r ask_outcome \<Rightarrow> nat \<Rightarrow> nat \<Rightarrow> 'o \<Rightarrow> 'o"
where
  "routing_record X peer outcome latency now observations =
     rx_record X peer (routed_outcome outcome) (ticks latency) (ticks now) observations"

section \<open>Facts\<close>

text \<open>The records of exchanges that proved nothing against a peer.\<close>

definition unproven :: "'c conduct_ext \<Rightarrow> 'c \<Rightarrow> bool" where
  "unproven X c \<longleftrightarrow>
     (\<exists>evs. list_all (\<lambda>(ev, _). ev \<in> {HonestAnswer, NonPerformance}) evs
        \<and> c = fold (\<lambda>(ev, t) c. cx_observe X c ev t) evs (cx_neutral X))"

lemma unproven_neutral: "unproven X (cx_neutral X)"
  unfolding unproven_def by (rule exI [of _ "[]"]) simp

lemma unproven_observe:
  assumes "unproven X c"
  shows "unproven X (cx_observe X c (conduct_evidence_of outcome) t)"
proof -
  obtain evs where "list_all (\<lambda>(ev, _). ev \<in> {HonestAnswer, NonPerformance}) evs"
    "c = fold (\<lambda>(ev, t) c. cx_observe X c ev t) evs (cx_neutral X)"
    using assms by (auto simp: unproven_def)
  then show ?thesis
    unfolding unproven_def
    by (intro exI [of _ "evs @ [(conduct_evidence_of outcome, t)]"]) (cases outcome; simp)
qed

definition conduct_ok :: "'c conduct_ext \<Rightarrow> 'c conduct_state \<Rightarrow> bool" where
  "conduct_ok X records \<longleftrightarrow> (\<forall>p c. map_of records p = Some c \<longrightarrow> unproven X c)"

lemma conduct_ok_observe:
  "conduct_ok X records \<Longrightarrow> conduct_ok X (conduct_observe X p (conduct_evidence_of outcome) t records)"
  by (auto simp: conduct_ok_def conduct_observe_def Let_def update_conv' unwrap_or_def
      intro!: unproven_observe unproven_neutral split: option.splits)

lemma map_of_filter_key: "map_of (filter (\<lambda>(p, _). P p) m) k = (if P k then map_of m k else None)"
  by (induction m) auto

lemma conduct_ok_retain: "conduct_ok X records \<Longrightarrow> conduct_ok X (conduct_retain pool records)"
  by (auto simp: conduct_ok_def conduct_retain_def map_of_filter_key split: if_splits)

text \<open>What happens to the conduct memory: an exchange is scored, or the pool is read.\<close>

datatype 'r conduct_op = Scored string "'r ask_outcome" nat | Read "string list" nat

fun conduct_step :: "'c conduct_ext \<Rightarrow> 'r conduct_op \<Rightarrow> 'c conduct_state \<Rightarrow> 'c conduct_state" where
  "conduct_step X (Scored p outcome t) records = conduct_observe X p (conduct_evidence_of outcome) t records"
| "conduct_step X (Read pool t) records = snd (conduct_dialable X pool t records)"

lemma conduct_ok_run: "conduct_ok X records \<Longrightarrow> conduct_ok X (fold (conduct_step X) ops records)"
proof (induction ops arbitrary: records)
  case (Cons op ops)
  have "conduct_ok X (conduct_step X op records)"
    using Cons.prems
    by (cases op) (simp_all add: conduct_ok_observe conduct_dialable_def Let_def conduct_ok_retain)
  then show ?case using Cons.IH by simp
qed simp

section \<open>Properties\<close>

text \<open>
  silence never costs a peer its place. Whatever exchanges with whatever peers the node has
  scored, in whatever order, every peer of the pool is still dialable: refusals, timeouts and failed
  dials alone never exclude one. And reading the pool forgets every peer that left it. (The
  hypothesis is \<open>dig-sex\<close>'s floor: a share falls to zero only for a proven fault.)
\<close>

theorem silence_never_excludes:
  assumes floor: "\<And>evs t. list_all (\<lambda>(ev, _). ev \<in> {HonestAnswer, NonPerformance}) evs \<Longrightarrow>
      0 < cx_dial_share X (cx_decay X (fold (\<lambda>(ev, t) c. cx_observe X c ev t) evs (cx_neutral X)) t)"
    and "records = fold (conduct_step X) ops conduct_new"
  shows "fst (conduct_dialable X pool now records) = pool
    \<and> fst ` set (snd (conduct_dialable X pool now records)) \<subseteq> set pool"
proof -
  have "conduct_ok X (conduct_retain pool records)"
    unfolding assms(2) by (intro conduct_ok_retain conduct_ok_run) (simp add: conduct_ok_def conduct_new_def)
  then have "unproven X (unwrap_or (cx_neutral X) (map_of (conduct_retain pool records) p))" for p
    by (auto simp: conduct_ok_def unwrap_or_def unproven_neutral split: option.splits)
  moreover have "0 < cx_dial_share X (cx_decay X c now)" if "unproven X c" for c
    using that floor unfolding unproven_def by blast
  ultimately have "0 < conduct_dial_share X p now (conduct_retain pool records)" for p
    by (simp add: conduct_dial_share_def Let_def)
  then show ?thesis
    by (auto simp: conduct_dialable_def Let_def conduct_retain_def)
qed

text \<open>A scoring with a floor, for evaluation: it counts proven faults and nothing else.\<close>

definition sample_conduct :: "nat conduct_ext" where
  "sample_conduct = \<lparr>cx_neutral = 0,
     cx_observe = (\<lambda>c ev t. if ev \<in> {ProvenLie, SelfContradiction} then c + 1 else c),
     cx_decay = (\<lambda>c t. c), cx_dial_share = (\<lambda>c. if c = 0 then 1 else 0)\<rparr>"

lemma sample_conduct_floor:
  assumes "list_all (\<lambda>(ev, _). ev \<in> {HonestAnswer, NonPerformance}) evs"
  shows "0 < cx_dial_share sample_conduct (cx_decay sample_conduct
    (fold (\<lambda>(ev, t) c. cx_observe sample_conduct c ev t) evs (cx_neutral sample_conduct)) t)"
proof -
  have "fold (\<lambda>(ev, t) c. cx_observe sample_conduct c ev t) evs 0 = 0"
    using assms by (induction evs) (auto simp: sample_conduct_def)
  then show ?thesis by (simp add: sample_conduct_def)
qed

theorem silence_never_excludes_witness:
  "fst (conduct_dialable sample_conduct [''a'', ''b''] 9
     (fold (conduct_step sample_conduct) [Scored ''a'' (TimedOut :: nat ask_outcome) 1, Scored ''a'' Unreachable 2]
        conduct_new)) = [''a'', ''b'']"
  using silence_never_excludes [of sample_conduct, OF sample_conduct_floor refl] by blast

end
