(* ===== verification/Range_Serve.thy ===== *)
theory Range_Serve
  imports Wire
begin

text \<open>
  Serving bytes. The windows of \<open>dig.getContent\<close> (\<open>content_window_envelope\<close> and
  \<open>windowed_envelope\<close> in \<open>lib.rs\<close>), the frame of a fetched-through resource
  (\<open>FetchedResource::range_frame\<close> in \<open>download.rs\<close>), and the range stream of the peer protocol:
  \<open>RangeStreamFramer\<close> in \<open>seams/content/range_frame.rs\<close> and the loop \<open>stream_range_frames\<close> in
  \<open>peer.rs\<close>.

  Bytes stand for themselves: the base64 text of a window is not modelled. The payload bound of a
  frame, the paging of a chunk layout and the frame encoder are \<open>dig-nat\<close>'s and are arguments. A
  write to the connection succeeds; a failing one ends the stream with the connection's own error.
\<close>

section \<open>Windows of a resource\<close>

definition WINDOW :: nat where "WINDOW = 3 * 1024 * 1024"
definition RANGE_WINDOW :: nat where "RANGE_WINDOW = 3 * 1024 * 1024"

record content_window =
  cw_ciphertext :: string
  cw_total_length :: nat
  cw_offset :: nat
  cw_length :: nat
  cw_root :: string
  cw_complete :: bool
  cw_next_offset :: "nat option"
  cw_inclusion_proof :: string
  cw_chunk_lens :: "nat list option"

definition windowed_envelope ::
  "string \<Rightarrow> nat \<Rightarrow> nat \<Rightarrow> string \<Rightarrow> string option \<Rightarrow> nat list option \<Rightarrow> content_window"
where
  "windowed_envelope window start tot root_hex inclusion_proof chunk_lens =
     (let end' = start + length window;
          complete = (end' \<ge> tot)
      in \<lparr>cw_ciphertext = window, cw_total_length = tot, cw_offset = start,
          cw_length = length window, cw_root = root_hex, cw_complete = complete,
          cw_next_offset = (if complete then None else Some end'),
          cw_inclusion_proof = unwrap_or [] inclusion_proof,
          cw_chunk_lens = (if start = 0 then chunk_lens else None)\<rparr>)"

definition content_window_envelope ::
  "string \<Rightarrow> nat \<Rightarrow> string \<Rightarrow> string option \<Rightarrow> nat list option \<Rightarrow> content_window"
where
  "content_window_envelope ciphertext offset root_hex inclusion_proof chunk_lens =
     (let tot = length ciphertext;
          start = min offset tot;
          end' = min (start + WINDOW) tot
      in windowed_envelope (take (end' - start) (drop start ciphertext)) start tot root_hex
           inclusion_proof chunk_lens)"

section \<open>The chunk a byte begins\<close>

fun chunk_index_loop :: "nat \<Rightarrow> nat \<Rightarrow> nat list \<Rightarrow> nat \<Rightarrow> nat option" where
  "chunk_index_loop i boundary [] offset = None"
| "chunk_index_loop i boundary (len # lens) offset =
     (if boundary = offset then Some i
      else chunk_index_loop (i + 1) (u64_sat_add boundary len) lens offset)"

definition chunk_index_at :: "nat list \<Rightarrow> nat \<Rightarrow> nat option" where
  "chunk_index_at chunk_lens offset =
     (case chunk_index_loop 0 0 chunk_lens offset of
        Some i \<Rightarrow> Some i
      | None \<Rightarrow> if chunk_lens = [] \<and> offset = 0 then Some 0 else None)"

section \<open>Frames\<close>

record range_verification =
  rv_total_length :: nat
  rv_chunk_lens :: "nat list"
  rv_root :: "string option"
  rv_inclusion_proof :: "string option"

record range_frame =
  rf_offset :: nat
  rf_bytes :: string
  rf_root :: "string option"
  rf_total_length :: "nat option"
  rf_chunk_count :: "nat option"
  rf_chunk_index :: "nat option"
  rf_chunk_lens_page :: "(nat \<times> nat list) option"
  rf_inclusion_proof :: "string option"
  rf_complete :: bool

definition frame_data :: "nat \<Rightarrow> string \<Rightarrow> range_frame" where
  "frame_data start bytes =
     \<lparr>rf_offset = start, rf_bytes = bytes, rf_root = None, rf_total_length = None,
      rf_chunk_count = None, rf_chunk_index = None, rf_chunk_lens_page = None,
      rf_inclusion_proof = None, rf_complete = False\<rparr>"

record range_stream_framer =
  fr_verification :: range_verification
  fr_pending_pages :: "(nat \<times> nat list) list"
  fr_proof_sent :: bool
  fr_skip_layout :: bool

definition framer_new ::
  "(nat list \<Rightarrow> (nat \<times> nat list) list) \<Rightarrow> range_verification \<Rightarrow> bool \<Rightarrow> range_stream_framer"
where
  "framer_new split_pages verification skip_layout =
     \<lparr>fr_verification = verification,
      fr_pending_pages = (if skip_layout then [] else split_pages (rv_chunk_lens verification)),
      fr_proof_sent = False, fr_skip_layout = skip_layout\<rparr>"

definition chunk_count :: "range_stream_framer \<Rightarrow> nat" where
  "chunk_count self =
     (if rv_chunk_lens (fr_verification self) = [] then 1
      else length (rv_chunk_lens (fr_verification self)))"

definition prologue_pending :: "range_stream_framer \<Rightarrow> bool" where
  "prologue_pending self \<longleftrightarrow> fr_pending_pages self \<noteq> []"

definition with_identity :: "range_stream_framer \<Rightarrow> range_frame \<Rightarrow> range_frame" where
  "with_identity self frame =
     (case rv_root (fr_verification self) of
        Some r \<Rightarrow> frame\<lparr>rf_root := Some r,
          rf_total_length := Some (rv_total_length (fr_verification self)),
          rf_chunk_count := Some (chunk_count self)\<rparr>
      | None \<Rightarrow> frame\<lparr>rf_total_length := Some (rv_total_length (fr_verification self)),
          rf_chunk_count := Some (chunk_count self)\<rparr>)"

definition next_frame :: "nat \<Rightarrow> string \<Rightarrow> range_stream_framer \<Rightarrow> range_frame \<times> range_stream_framer" where
  "next_frame start bytes self =
     (let frame1 = with_identity self (frame_data start bytes);
          frame2 = (if bytes \<noteq> []
                    then case chunk_index_at (rv_chunk_lens (fr_verification self)) start of
                           Some index \<Rightarrow> frame1\<lparr>rf_chunk_index := Some index\<rparr>
                         | None \<Rightarrow> frame1
                    else frame1)
      in if fr_skip_layout self then (frame2, self)
         else
           let (frame3, self') =
                 (case fr_pending_pages self of
                    page # rest \<Rightarrow> (frame2\<lparr>rf_chunk_lens_page := Some page\<rparr>,
                                    self\<lparr>fr_pending_pages := rest\<rparr>)
                  | [] \<Rightarrow> (frame2, self))
           in if \<not> fr_proof_sent self
              then case rv_inclusion_proof (fr_verification self) of
                     Some proof \<Rightarrow> (frame3\<lparr>rf_inclusion_proof := Some proof\<rparr>,
                                    self'\<lparr>fr_proof_sent := True\<rparr>)
                   | None \<Rightarrow> (frame3, self')
              else (frame3, self'))"

section \<open>The stream\<close>

datatype refusal = OffsetBeyondResource | RangeMetadataUnrepresentable

record stream_outcome =
  so_bytes :: nat
  so_frames :: nat
  so_encoded_bytes :: nat
  so_refusal :: "refusal option"

definition outcome_default :: stream_outcome where
  "outcome_default = \<lparr>so_bytes = 0, so_frames = 0, so_encoded_bytes = 0, so_refusal = None\<rparr>"

text \<open>
  The loop, with the frames written so far and the bytes charged to the egress sink. It is a partial
  function: that it returns is proved below.
\<close>

partial_function (option) stream_loop ::
  "(range_frame \<Rightarrow> string option) \<Rightarrow> nat \<Rightarrow> string \<Rightarrow> nat \<Rightarrow> nat \<Rightarrow> range_stream_framer \<Rightarrow>
     stream_outcome \<Rightarrow> range_frame list \<Rightarrow> (range_frame list \<times> stream_outcome) option"
where
  "stream_loop encode payload bytes end_of_span off framer outcome out =
     (let tot = length bytes;
          n = min payload (end_of_span - off);
          window = take n (drop off bytes);
          frame_start = (if n = 0 then 0 else off);
          (frame0, framer') = next_frame frame_start window framer;
          bytes_done = (off + n \<ge> end_of_span \<or> off + n \<ge> tot);
          last = (bytes_done \<and> \<not> prologue_pending framer');
          frame = frame0\<lparr>rf_complete := (last \<and> off + n \<ge> tot)\<rparr>
      in case encode frame of
           None \<Rightarrow> Some (out, outcome\<lparr>so_refusal := Some RangeMetadataUnrepresentable\<rparr>)
         | Some encoded \<Rightarrow>
             let outcome' = outcome\<lparr>so_bytes := so_bytes outcome + n,
                   so_encoded_bytes := so_encoded_bytes outcome + length encoded,
                   so_frames := so_frames outcome + 1\<rparr>;
                 out' = out @ [frame]
             in if last then Some (out', outcome')
                else if n = 0 \<and> \<not> prologue_pending framer' then Some (out', outcome')
                else stream_loop encode payload bytes end_of_span (off + n) framer' outcome' out')"

definition stream_range_frames ::
  "(range_frame \<Rightarrow> string option) \<Rightarrow> (nat list \<Rightarrow> (nat \<times> nat list) list) \<Rightarrow> nat \<Rightarrow> string \<Rightarrow>
     range_verification \<Rightarrow> nat \<Rightarrow> nat \<Rightarrow> bool \<Rightarrow> (range_frame list \<times> stream_outcome) option"
where
  "stream_range_frames encode split_pages payload bytes verification offset requested_end skip_layout =
     (if offset > length bytes
      then Some ([], outcome_default\<lparr>so_refusal := Some OffsetBeyondResource\<rparr>)
      else stream_loop encode payload bytes (min requested_end (length bytes)) offset
             (framer_new split_pages verification skip_layout) outcome_default [])"

section \<open>A fetched-through resource\<close>

record fetched_resource =
  fres_bytes :: string
  fres_total_length :: nat
  fres_chunk_lens :: "nat list"
  fres_root :: "string option"
  fres_inclusion_proof :: "string option"

record single_frame =
  sf_offset :: nat
  sf_bytes :: string
  sf_complete :: bool
  sf_total_length :: nat
  sf_chunk_lens :: "nat list"
  sf_chunk_count :: nat
  sf_root :: "string option"
  sf_inclusion_proof :: "string option"
  sf_first_chunk_index :: "nat option"

definition attach_verification ::
  "nat \<Rightarrow> string \<Rightarrow> bool \<Rightarrow> range_verification \<Rightarrow> nat \<Rightarrow> single_frame"
where
  "attach_verification offset bytes is_complete verification start =
     \<lparr>sf_offset = offset, sf_bytes = bytes, sf_complete = is_complete,
      sf_total_length = rv_total_length verification, sf_chunk_lens = rv_chunk_lens verification,
      sf_chunk_count = (if rv_chunk_lens verification = [] then 1
                        else length (rv_chunk_lens verification)),
      sf_root = rv_root verification, sf_inclusion_proof = rv_inclusion_proof verification,
      sf_first_chunk_index = chunk_index_at (rv_chunk_lens verification) start\<rparr>"

definition fetched_verification :: "fetched_resource \<Rightarrow> range_verification" where
  "fetched_verification f =
     \<lparr>rv_total_length = fres_total_length f, rv_chunk_lens = fres_chunk_lens f,
      rv_root = fres_root f, rv_inclusion_proof = fres_inclusion_proof f\<rparr>"

definition fetched_range_frame :: "nat \<Rightarrow> nat \<Rightarrow> fetched_resource \<Rightarrow> int + single_frame" where
  "fetched_range_frame offset len self =
     (let tot = length (fres_bytes self) in
      if offset > tot then Inl (- 32007)
      else
        let start = min offset tot;
            end' = min (start + min len RANGE_WINDOW) tot;
            window = take (end' - start) (drop start (fres_bytes self));
            complete = (end' \<ge> tot)
        in Inr (attach_verification start window complete (fetched_verification self) start))"

definition content_result :: "nat \<Rightarrow> fetched_resource \<Rightarrow> content_window" where
  "content_result offset self =
     content_window_envelope (fres_bytes self) offset (unwrap_or [] (fres_root self))
       (fres_inclusion_proof self) (Some (fres_chunk_lens self))"

definition stream_fetched_range ::
  "(range_frame \<Rightarrow> string option) \<Rightarrow> (nat list \<Rightarrow> (nat \<times> nat list) list) \<Rightarrow> nat \<Rightarrow> fetched_resource \<Rightarrow>
     nat \<Rightarrow> nat \<Rightarrow> bool \<Rightarrow> (range_frame list \<times> stream_outcome) option"
where
  "stream_fetched_range encode split_pages payload fetched offset requested_end skip_layout =
     stream_range_frames encode split_pages payload (fres_bytes fetched)
       (fetched_verification fetched) offset requested_end skip_layout"

section \<open>Facts about frames\<close>

lemma with_identity_sel [simp]:
  "rf_offset (with_identity fr f) = rf_offset f"
  "rf_bytes (with_identity fr f) = rf_bytes f"
  "rf_chunk_lens_page (with_identity fr f) = rf_chunk_lens_page f"
  "rf_inclusion_proof (with_identity fr f) = rf_inclusion_proof f"
  "rf_total_length (with_identity fr f) = Some (rv_total_length (fr_verification fr))"
  "rf_chunk_count (with_identity fr f) = Some (chunk_count fr)"
  "rf_root f = None \<Longrightarrow> rf_root (with_identity fr f) = rv_root (fr_verification fr)"
  by (simp_all add: with_identity_def split: option.splits)

lemma next_frame_sel:
  assumes "next_frame start bytes fr = (f, fr')"
  shows "rf_offset f = start" "rf_bytes f = bytes"
    "rf_total_length f = Some (rv_total_length (fr_verification fr))"
    "rf_chunk_count f = Some (chunk_count fr)"
    "rf_root f = rv_root (fr_verification fr)"
    "rf_chunk_lens_page f = (if fr_skip_layout fr then None
       else case fr_pending_pages fr of [] \<Rightarrow> None | p # _ \<Rightarrow> Some p)"
    "rf_inclusion_proof f = (if fr_skip_layout fr \<or> fr_proof_sent fr then None
       else rv_inclusion_proof (fr_verification fr))"
    "fr_pending_pages fr' = (if fr_skip_layout fr then fr_pending_pages fr else tl (fr_pending_pages fr))"
    "fr_proof_sent fr' \<longleftrightarrow> fr_proof_sent fr
       \<or> \<not> fr_skip_layout fr \<and> rv_inclusion_proof (fr_verification fr) \<noteq> None"
    "fr_skip_layout fr' = fr_skip_layout fr"
    "fr_verification fr' = fr_verification fr"
  using assms
  by (auto simp: next_frame_def frame_data_def Let_def split: if_splits option.splits list.splits)

lemma framer_new_sel [simp]:
  "fr_verification (framer_new sp v sk) = v"
  "fr_pending_pages (framer_new sp v sk) = (if sk then [] else sp (rv_chunk_lens v))"
  "fr_proof_sent (framer_new sp v sk) = False"
  "fr_skip_layout (framer_new sp v sk) = sk"
  by (simp_all add: framer_new_def)

text \<open>Frames with bytes follow each other from \<open>off\<close> on; frames without bytes are stamped zero.\<close>

fun placed :: "nat \<Rightarrow> range_frame list \<Rightarrow> bool" where
  "placed off [] = True"
| "placed off (f # fs) =
     ((if rf_bytes f = [] then rf_offset f = 0 else rf_offset f = off)
      \<and> placed (off + length (rf_bytes f)) fs)"

definition frame_identity :: "range_verification \<Rightarrow> nat \<Rightarrow> range_frame \<Rightarrow> bool" where
  "frame_identity v payload f \<longleftrightarrow>
     length (rf_bytes f) \<le> payload \<and> rf_root f = rv_root v
     \<and> rf_total_length f = Some (rv_total_length v)
     \<and> rf_chunk_count f = Some (if rv_chunk_lens v = [] then 1 else length (rv_chunk_lens v))"

definition stream_ok ::
  "nat \<Rightarrow> string \<Rightarrow> nat \<Rightarrow> nat \<Rightarrow> range_stream_framer \<Rightarrow> range_frame list \<Rightarrow> bool"
where
  "stream_ok payload bytes e off fr fs \<longleftrightarrow>
     fs \<noteq> [] \<and> concat (map rf_bytes fs) = take (e - off) (drop off bytes)
     \<and> list_all (frame_identity (fr_verification fr) payload) fs
     \<and> List.map_filter rf_chunk_lens_page fs = (if fr_skip_layout fr then [] else fr_pending_pages fr)
     \<and> List.map_filter rf_inclusion_proof fs =
         (if fr_skip_layout fr \<or> fr_proof_sent fr then []
          else case rv_inclusion_proof (fr_verification fr) of None \<Rightarrow> [] | Some p \<Rightarrow> [p])
     \<and> placed off fs
     \<and> list_all (\<lambda>f. \<not> rf_complete f) (butlast fs)
     \<and> (rf_complete (last fs) \<longleftrightarrow> length bytes \<le> max off e)"

lemma map_filter_simps' [simp]:
  "List.map_filter f [] = []"
  "List.map_filter f (x # xs) = (case f x of None \<Rightarrow> List.map_filter f xs | Some y \<Rightarrow> y # List.map_filter f xs)"
  by (simp_all add: List.map_filter_def split: option.splits)

text \<open>One turn of the loop when the encoder accepts the frame.\<close>

lemma stream_loop_step:
  assumes "n = min payload (e - off)"
    and "next_frame (if n = 0 then 0 else off) (take n (drop off bytes)) fr = (f0, fr')"
    and "lst \<longleftrightarrow> (off + n \<ge> e \<or> off + n \<ge> length bytes) \<and> \<not> prologue_pending fr'"
    and "f = f0\<lparr>rf_complete := (lst \<and> off + n \<ge> length bytes)\<rparr>"
    and "encode f = Some encoded"
    and "oc' = oc\<lparr>so_bytes := so_bytes oc + n, so_encoded_bytes := so_encoded_bytes oc + length encoded,
           so_frames := so_frames oc + 1\<rparr>"
  shows "stream_loop encode payload bytes e off fr oc out =
    (if lst \<or> n = 0 \<and> \<not> prologue_pending fr' then Some (out @ [f], oc')
     else stream_loop encode payload bytes e (off + n) fr' oc' (out @ [f]))"
proof -
  have "stream_loop encode payload bytes e off fr oc out =
    (if lst then Some (out @ [f], oc')
     else if n = 0 \<and> \<not> prologue_pending fr' then Some (out @ [f], oc')
     else stream_loop encode payload bytes e (off + n) fr' oc' (out @ [f]))"
    by (subst stream_loop.simps)
       (simp only: Let_def assms(1) [symmetric] assms(2) prod.case assms(3) [symmetric]
         assms(4) [symmetric] assms(5) option.case assms(6) [symmetric])
  then show ?thesis by auto
qed

lemma stream_ok_last:
  assumes "next_frame (if n = 0 then 0 else off) (take n (drop off bytes)) fr = (f0, fr')"
    and "n = min payload (e - off)" "e \<le> off + n" "\<not> prologue_pending fr'"
    and "fr_skip_layout fr \<longrightarrow> fr_pending_pages fr = []"
    and "off \<le> length bytes" "e \<le> length bytes"
  shows "stream_ok payload bytes e off fr [f0\<lparr>rf_complete := (off + n \<ge> length bytes)\<rparr>]"
proof -
  note sel = next_frame_sel [OF assms(1)]
  have n: "n = e - off" using assms(2,3) by simp
  have pend: "fr_skip_layout fr \<or> tl (fr_pending_pages fr) = []"
    using assms(4) sel(8) by (simp add: prologue_pending_def split: if_splits)
  have cmp: "length bytes \<le> off + n \<longleftrightarrow> length bytes \<le> max off e"
    using n assms(6,7) by (auto simp: max_def)
  have emp: "take n (drop off bytes) = [] \<longleftrightarrow> n = 0"
    using n assms(6,7) by auto
  have len: "length (take n (drop off bytes)) \<le> payload" using assms(2) by simp
  show ?thesis
    unfolding stream_ok_def
  proof (intro conjI)
    show "list_all (frame_identity (fr_verification fr) payload)
        [f0\<lparr>rf_complete := (off + n \<ge> length bytes)\<rparr>]"
      using sel len by (simp add: frame_identity_def chunk_count_def)
    show "placed off [f0\<lparr>rf_complete := (off + n \<ge> length bytes)\<rparr>]"
      using emp by (simp add: sel(1,2))
    show "List.map_filter rf_chunk_lens_page [f0\<lparr>rf_complete := (off + n \<ge> length bytes)\<rparr>]
        = (if fr_skip_layout fr then [] else fr_pending_pages fr)"
      using pend by (cases "fr_pending_pages fr") (auto simp: sel(6))
  qed (use n cmp in \<open>simp_all add: sel split: option.splits\<close>)
qed

lemma stream_ok_Cons:
  assumes "next_frame (if n = 0 then 0 else off) (take n (drop off bytes)) fr = (f0, fr')"
    and "n = min payload (e - off)" "stream_ok payload bytes e (off + n) fr' fs"
    and "fr_skip_layout fr \<longrightarrow> fr_pending_pages fr = []"
    and "off \<le> length bytes" "e \<le> length bytes"
  shows "stream_ok payload bytes e off fr (f0\<lparr>rf_complete := False\<rparr> # fs)"
proof -
  note sel = next_frame_sel [OF assms(1)]
  have n: "n \<le> e - off" using assms(2) by simp
  then have app: "take n (drop off bytes) @ take (e - (off + n)) (drop (off + n) bytes)
      = take (e - off) (drop off bytes)"
    by (metis add.commute diff_diff_left drop_drop le_add_diff_inverse take_add)
  have emp: "take n (drop off bytes) = [] \<longleftrightarrow> n = 0" "length (take n (drop off bytes)) = n"
    using n assms(5,6) by auto
  have cmp: "length bytes \<le> max (off + n) e \<longleftrightarrow> length bytes \<le> max off e"
    using n by (auto simp: max_def)
  have ok: "fs \<noteq> []" "concat (map rf_bytes fs) = take (e - (off + n)) (drop (off + n) bytes)"
    "list_all (frame_identity (fr_verification fr) payload) fs"
    "List.map_filter rf_chunk_lens_page fs = (if fr_skip_layout fr then [] else fr_pending_pages fr')"
    "List.map_filter rf_inclusion_proof fs =
         (if fr_skip_layout fr \<or> fr_proof_sent fr' then []
          else case rv_inclusion_proof (fr_verification fr) of None \<Rightarrow> [] | Some p \<Rightarrow> [p])"
    "placed (off + n) fs" "list_all (\<lambda>f. \<not> rf_complete f) (butlast fs)"
    "rf_complete (last fs) \<longleftrightarrow> length bytes \<le> max (off + n) e"
    using assms(3) by (simp_all add: stream_ok_def sel(10,11))
  show ?thesis
    unfolding stream_ok_def
  proof (intro conjI)
    show "list_all (frame_identity (fr_verification fr) payload) (f0\<lparr>rf_complete := False\<rparr> # fs)"
      using sel(2-5) emp ok(3) assms(2) by (simp add: frame_identity_def chunk_count_def)
    show "placed off (f0\<lparr>rf_complete := False\<rparr> # fs)"
      using emp ok(6) by (simp add: sel(1,2))
    show "List.map_filter rf_chunk_lens_page (f0\<lparr>rf_complete := False\<rparr> # fs)
        = (if fr_skip_layout fr then [] else fr_pending_pages fr)"
      using ok(4) by (cases "fr_pending_pages fr") (simp_all add: sel(6,8))
    show "List.map_filter rf_inclusion_proof (f0\<lparr>rf_complete := False\<rparr> # fs) =
         (if fr_skip_layout fr \<or> fr_proof_sent fr then []
          else case rv_inclusion_proof (fr_verification fr) of None \<Rightarrow> [] | Some p \<Rightarrow> [p])"
      using ok(5) by (cases "rv_inclusion_proof (fr_verification fr)") (auto simp: sel(7,9))
    show "concat (map rf_bytes (f0\<lparr>rf_complete := False\<rparr> # fs)) = take (e - off) (drop off bytes)"
      using ok(2) app by (simp add: sel(2))
  qed (use ok cmp in \<open>simp_all\<close>)
qed

lemma stream_loop_delivers:
  assumes "0 < payload" "\<And>f. encode f \<noteq> None" "off \<le> length bytes" "e \<le> length bytes"
    and "fr_skip_layout fr \<longrightarrow> fr_pending_pages fr = []"
  shows "\<exists>fs oc'. stream_loop encode payload bytes e off fr oc out = Some (out @ fs, oc')
    \<and> stream_ok payload bytes e off fr fs \<and> so_bytes oc' = so_bytes oc + (e - off)
    \<and> so_frames oc' = so_frames oc + length fs \<and> so_refusal oc' = so_refusal oc"
  using assms(3-5)
proof (induction "(e - off) + length (fr_pending_pages fr)" arbitrary: off fr oc out rule: less_induct)
  case less
  define n where "n = min payload (e - off)"
  obtain f0 fr' where nf: "next_frame (if n = 0 then 0 else off) (take n (drop off bytes)) fr = (f0, fr')"
    by fastforce
  note sel = next_frame_sel [OF nf]
  define lst where "lst \<longleftrightarrow> (off + n \<ge> e \<or> off + n \<ge> length bytes) \<and> \<not> prologue_pending fr'"
  define f where "f = f0\<lparr>rf_complete := (lst \<and> off + n \<ge> length bytes)\<rparr>"
  obtain encoded where enc: "encode f = Some encoded" using assms(2) by blast
  define oc1 where "oc1 = oc\<lparr>so_bytes := so_bytes oc + n,
    so_encoded_bytes := so_encoded_bytes oc + length encoded, so_frames := so_frames oc + 1\<rparr>"
  note step = stream_loop_step [where encode = encode and out = out, OF n_def nf lst_def f_def enc oc1_def]
  show ?case
  proof (cases lst)
    case True
    then have "e \<le> off + n" "\<not> prologue_pending fr'" using less.prems by (auto simp: lst_def)
    with stream_ok_last [OF nf n_def] less.prems True
    have "stream_ok payload bytes e off fr [f]" by (simp add: f_def)
    moreover have "n = e - off" using \<open>e \<le> off + n\<close> n_def by simp
    ultimately show ?thesis
      using step True by (intro exI [of _ "[f]"] exI [of _ oc1]) (simp add: oc1_def)
  next
    case False
    have pend: "prologue_pending fr'" if "n = 0"
      using that False assms(1) by (auto simp: lst_def n_def)
    have "(e - (off + n)) + length (fr_pending_pages fr')
        < (e - off) + length (fr_pending_pages fr)"
    proof (cases "n = 0")
      case True
      then show ?thesis using pend sel(8) less.prems(3)
        by (cases "fr_pending_pages fr") (auto simp: prologue_pending_def split: if_splits)
    next
      case False
      have "length (fr_pending_pages fr') \<le> length (fr_pending_pages fr)" using sel(8) by simp
      moreover have "0 < n" "n \<le> e - off" using False by (simp_all add: n_def)
      ultimately show ?thesis by linarith
    qed
    moreover have "off + n \<le> length bytes" "fr_skip_layout fr' \<longrightarrow> fr_pending_pages fr' = []"
      using less.prems sel(8,10) by (auto simp: n_def)
    ultimately obtain fs oc' where IH: "stream_loop encode payload bytes e (off + n) fr' oc1 (out @ [f]) = Some (out @ [f] @ fs, oc')"
      "stream_ok payload bytes e (off + n) fr' fs" "so_bytes oc' = so_bytes oc1 + (e - (off + n))"
      "so_frames oc' = so_frames oc1 + length fs" "so_refusal oc' = so_refusal oc1"
      using less.hyps [of "off + n" fr' oc1 "out @ [f]"] less.prems(2) by auto
    have "f = f0\<lparr>rf_complete := False\<rparr>" using False by (simp add: f_def)
    with stream_ok_Cons [OF nf n_def IH(2)] less.prems
    have "stream_ok payload bytes e off fr (f # fs)" by simp
    moreover have "n \<le> e - off" by (simp add: n_def)
    then have "n + (e - (off + n)) = e - off" by linarith
    ultimately show ?thesis using IH step False pend
      by (intro exI [of _ "f # fs"] exI [of _ oc']) (auto simp: oc1_def)
  qed
qed

text \<open>That the loop ends needs nothing of the encoder or of the payload bound.\<close>

lemma stream_loop_returns:
  assumes "fr_skip_layout fr \<longrightarrow> fr_pending_pages fr = []"
  shows "\<exists>out' oc'. stream_loop encode payload bytes e off fr oc out = Some (out', oc')
    \<and> so_refusal oc' \<in> {so_refusal oc, Some RangeMetadataUnrepresentable}"
  using assms
proof (induction "(e - off) + length (fr_pending_pages fr)" arbitrary: off fr oc out rule: less_induct)
  case less
  define n where "n = min payload (e - off)"
  obtain f0 fr' where nf: "next_frame (if n = 0 then 0 else off) (take n (drop off bytes)) fr = (f0, fr')"
    by fastforce
  note sel = next_frame_sel [OF nf]
  define lst where "lst \<longleftrightarrow> (off + n \<ge> e \<or> off + n \<ge> length bytes) \<and> \<not> prologue_pending fr'"
  define f where "f = f0\<lparr>rf_complete := (lst \<and> off + n \<ge> length bytes)\<rparr>"
  show ?case
  proof (cases "encode f")
    case None
    then have "stream_loop encode payload bytes e off fr oc out =
        Some (out, oc\<lparr>so_refusal := Some RangeMetadataUnrepresentable\<rparr>)"
      by (subst stream_loop.simps)
         (simp only: Let_def n_def [symmetric] nf prod.case lst_def [symmetric] f_def [symmetric]
           option.case)
    then show ?thesis by simp
  next
    case (Some encoded)
    define oc1 where "oc1 = oc\<lparr>so_bytes := so_bytes oc + n,
      so_encoded_bytes := so_encoded_bytes oc + length encoded, so_frames := so_frames oc + 1\<rparr>"
    note step = stream_loop_step [where encode = encode and out = out, OF n_def nf lst_def f_def Some oc1_def]
    show ?thesis
    proof (cases "lst \<or> n = 0 \<and> \<not> prologue_pending fr'")
      case True
      with step show ?thesis by (simp add: oc1_def)
    next
      case False
      have "(e - (off + n)) + length (fr_pending_pages fr')
          < (e - off) + length (fr_pending_pages fr)"
      proof (cases "n = 0")
        case True
        then show ?thesis using False sel(8) less.prems
          by (cases "fr_pending_pages fr") (auto simp: prologue_pending_def split: if_splits)
      next
        case False
        have "length (fr_pending_pages fr') \<le> length (fr_pending_pages fr)" using sel(8) by simp
        moreover have "0 < n" "n \<le> e - off" using False by (simp_all add: n_def)
        ultimately show ?thesis by linarith
      qed
      moreover have "fr_skip_layout fr' \<longrightarrow> fr_pending_pages fr' = []"
        using less.prems sel(8,10) by simp
      ultimately obtain out' oc' where
        "stream_loop encode payload bytes e (off + n) fr' oc1 (out @ [f]) = Some (out', oc')"
        "so_refusal oc' \<in> {so_refusal oc1, Some RangeMetadataUnrepresentable}"
        using less.hyps by blast
      with step False show ?thesis by (auto simp: oc1_def)
    qed
  qed
qed

section \<open>Facts about windows and chunks\<close>

lemma chunk_index_loop_ge: "chunk_index_loop i b lens offset = Some j \<Longrightarrow> i \<le> j"
  by (induction i b lens offset rule: chunk_index_loop.induct) (auto split: if_splits)

lemma chunk_index_loop_spec:
  assumes "b + sum_list lens \<le> u64_max"
  shows "chunk_index_loop i b lens offset = Some (i + k) \<longleftrightarrow>
    k < length lens \<and> b + sum_list (take k lens) = offset
    \<and> (\<forall>m < k. b + sum_list (take m lens) \<noteq> offset)"
  using assms
proof (induction i b lens offset arbitrary: k rule: chunk_index_loop.induct)
  case (2 i b len lens offset)
  have sat: "u64_sat_add b len = b + len" using 2(2) by (simp add: u64_sat_add_def)
  show ?case
  proof (cases k)
    case 0
    then show ?thesis using chunk_index_loop_ge [of "i + 1" "u64_sat_add b len" lens offset i] by auto
  next
    case (Suc k')
    have "chunk_index_loop (i + 1) (b + len) lens offset = Some (i + 1 + k') \<longleftrightarrow>
      k' < length lens \<and> b + len + sum_list (take k' lens) = offset
      \<and> (\<forall>m < k'. b + len + sum_list (take m lens) \<noteq> offset)" if "b \<noteq> offset"
      using 2(1) [OF that] 2(2) unfolding sat by (simp add: add.assoc)
    with Suc sat show ?thesis by (auto simp: All_less_Suc2 add.assoc)
  qed
qed simp

text \<open>The client's loop: ask for the window at \<open>off\<close>, go on at \<open>next_offset\<close> until there is none.\<close>

function read_windows :: "string \<Rightarrow> string \<Rightarrow> string option \<Rightarrow> nat list option \<Rightarrow> nat \<Rightarrow> content_window list" where
  "read_windows ciphertext root_hex proof_b64 lens off =
     (let w = content_window_envelope ciphertext off root_hex proof_b64 lens
      in w # (case cw_next_offset w of None \<Rightarrow> [] | Some off' \<Rightarrow> read_windows ciphertext root_hex proof_b64 lens off'))"
  by pat_completeness auto
termination
  by (relation "measure (\<lambda>(c, _, _, _, off). length c - off)")
     (auto simp: content_window_envelope_def windowed_envelope_def Let_def WINDOW_def min_def
       split: if_splits)

declare read_windows.simps [simp del]

lemma read_windows_step:
  assumes "off < length c"
  shows "read_windows c r p l off = content_window_envelope c off r p l #
    (if off + WINDOW < length c then read_windows c r p l (off + WINDOW) else [])"
  using assms
  by (subst read_windows.simps)
     (auto simp: content_window_envelope_def windowed_envelope_def Let_def min_def)

lemma read_windows_bytes:
  "off \<le> length c \<Longrightarrow> concat (map cw_ciphertext (read_windows c r p l off)) = drop off c"
proof (induction "length c - off" arbitrary: off rule: less_induct)
  case less
  show ?case
  proof (cases "off < length c")
    case True
    have w: "cw_ciphertext (content_window_envelope c off r p l) = take WINDOW (drop off c)"
      using True by (auto simp: content_window_envelope_def windowed_envelope_def Let_def min_def)
    show ?thesis
    proof (cases "off + WINDOW < length c")
      case True
      have "concat (map cw_ciphertext (read_windows c r p l (off + WINDOW))) = drop (off + WINDOW) c"
        using less.hyps [of "off + WINDOW"] True by (simp add: WINDOW_def)
      then show ?thesis
        using read_windows_step [OF \<open>off < length c\<close>] True w
        by simp (metis add.commute append_take_drop_id drop_drop)
    next
      case False
      then show ?thesis using read_windows_step [OF \<open>off < length c\<close>] w by simp
    qed
  next
    case False
    with less.prems show ?thesis
      by (subst read_windows.simps)
         (simp add: content_window_envelope_def windowed_envelope_def Let_def)
  qed
qed

lemma read_windows_fields:
  "off \<le> length c \<Longrightarrow> list_all (\<lambda>w. cw_total_length w = length c \<and> cw_root w = r
     \<and> cw_inclusion_proof w = unwrap_or [] p \<and> cw_length w = length (cw_ciphertext w)
     \<and> cw_length w \<le> WINDOW \<and> (cw_next_offset w = None \<longleftrightarrow> cw_complete w))
     (read_windows c r p l off)"
proof (induction "length c - off" arbitrary: off rule: less_induct)
  case less
  have w: "cw_total_length (content_window_envelope c off r p l) = length c
      \<and> cw_root (content_window_envelope c off r p l) = r
      \<and> cw_inclusion_proof (content_window_envelope c off r p l) = unwrap_or [] p
      \<and> cw_length (content_window_envelope c off r p l)
          = length (cw_ciphertext (content_window_envelope c off r p l))
      \<and> cw_length (content_window_envelope c off r p l) \<le> WINDOW
      \<and> (cw_next_offset (content_window_envelope c off r p l) = None
          \<longleftrightarrow> cw_complete (content_window_envelope c off r p l))"
    by (auto simp: content_window_envelope_def windowed_envelope_def Let_def min_def)
  show ?case
  proof (cases "off + WINDOW < length c")
    case True
    then have "off < length c" by simp
    have "length c - (off + WINDOW) < length c - off" using True by (simp add: WINDOW_def)
    from less.hyps [OF this] True show ?thesis
      using w by (simp add: read_windows_step [OF \<open>off < length c\<close>])
  next
    case False
    then have "cw_next_offset (content_window_envelope c off r p l) = None"
      by (auto simp: content_window_envelope_def windowed_envelope_def Let_def min_def)
    then show ?thesis using w by (subst read_windows.simps) (simp add: Let_def)
  qed
qed

section \<open>Properties\<close>

text \<open>
  the range stream always ends. Whatever is asked for, whatever the layout and whichever frame
  the encoder rejects, the loop returns, with the refusal of an offset past the resource when the
  offset is past it.
\<close>

theorem range_stream_returns:
  "\<exists>out oc. stream_range_frames encode split_pages payload bytes v offset requested_end skip_layout
      = Some (out, oc) \<and> (offset > length bytes \<longleftrightarrow> so_refusal oc = Some OffsetBeyondResource)
      \<and> (offset > length bytes \<longrightarrow> out = [])"
proof (cases "offset > length bytes")
  case True
  then show ?thesis by (simp add: stream_range_frames_def)
next
  case False
  obtain out oc where "stream_loop encode payload bytes (min requested_end (length bytes)) offset
      (framer_new split_pages v skip_layout) outcome_default [] = Some (out, oc)"
    "so_refusal oc \<in> {so_refusal outcome_default, Some RangeMetadataUnrepresentable}"
    using stream_loop_returns [of "framer_new split_pages v skip_layout"] by fastforce
  with False show ?thesis
    by (intro exI [of _ out] exI [of _ oc]) (auto simp: stream_range_frames_def outcome_default_def)
qed

theorem range_stream_returns_witness:
  "\<exists>out oc. stream_range_frames (\<lambda>f. None) (\<lambda>ls. [(0, ls)]) 2 ''abcde''
      \<lparr>rv_total_length = 5, rv_chunk_lens = [5], rv_root = None, rv_inclusion_proof = None\<rparr> 9 12 False
      = Some (out, oc) \<and> so_refusal oc = Some OffsetBeyondResource \<and> out = []"
  using range_stream_returns [of "\<lambda>f. None" "\<lambda>ls. [(0, ls)]" 2 "''abcde''"
      "\<lparr>rv_total_length = 5, rv_chunk_lens = [5], rv_root = None, rv_inclusion_proof = None\<rparr>" 9 12 False]
  by auto

text \<open>
  C3: what the range stream delivers when every frame can be encoded. The payloads put together are
  exactly the requested span, cut at the end of the resource and never beyond it; no frame exceeds
  the payload bound; frames with bytes carry their own offset; every frame carries root, length and
  chunk count; the pages of the chunk layout arrive completely and in order, each once, and the
  proof arrives exactly once, unless the client waived both; only the last frame says complete, and
  it does exactly when the span reaches the end of the resource. The reported byte count is the
  number of bytes served.
\<close>

theorem range_stream_delivers:
  assumes "0 < payload" "\<And>f. encode f \<noteq> None" "offset \<le> length bytes"
    and split: "concat (map snd (split_pages (rv_chunk_lens v))) = rv_chunk_lens v"
  shows "\<exists>fs oc. stream_range_frames encode split_pages payload bytes v offset requested_end skip
      = Some (fs, oc)
    \<and> concat (map rf_bytes fs) = take (requested_end - offset) (drop offset bytes)
    \<and> list_all (frame_identity v payload) fs \<and> placed offset fs
    \<and> concat (map snd (List.map_filter rf_chunk_lens_page fs)) = (if skip then [] else rv_chunk_lens v)
    \<and> List.map_filter rf_inclusion_proof fs =
        (if skip then [] else case rv_inclusion_proof v of None \<Rightarrow> [] | Some p \<Rightarrow> [p])
    \<and> list_all (\<lambda>f. \<not> rf_complete f) (butlast fs)
    \<and> (rf_complete (last fs) \<longleftrightarrow> length bytes \<le> max offset requested_end)
    \<and> so_refusal oc = None \<and> so_frames oc = length fs
    \<and> so_bytes oc = length (concat (map rf_bytes fs))"
proof -
  let ?e = "min requested_end (length bytes)"
  let ?fr = "framer_new split_pages v skip"
  obtain fs oc where fs: "stream_loop encode payload bytes ?e offset ?fr outcome_default [] = Some (fs, oc)"
    "stream_ok payload bytes ?e offset ?fr fs" "so_bytes oc = so_bytes outcome_default + (?e - offset)"
    "so_frames oc = so_frames outcome_default + length fs" "so_refusal oc = so_refusal outcome_default"
    using stream_loop_delivers [where encode = encode and oc = outcome_default and out = "[]" and fr = ?fr
        and e = ?e, OF assms(1,2,3)] by auto
  have span: "take (?e - offset) (drop offset bytes) = take (requested_end - offset) (drop offset bytes)"
    by (cases "requested_end \<le> length bytes") simp_all
  have "length bytes \<le> max offset ?e \<longleftrightarrow> length bytes \<le> max offset requested_end"
    by (auto simp: max_def min_def)
  then show ?thesis
    using fs span assms(3) split
    by (intro exI [of _ fs] exI [of _ oc])
       (auto simp: stream_range_frames_def stream_ok_def outcome_default_def)
qed

theorem range_stream_delivers_witness:
  "\<exists>fs oc. stream_range_frames (\<lambda>f. Some (rf_bytes f)) (\<lambda>ls. map (\<lambda>l. (0, [l])) ls) 2 ''abcde''
      \<lparr>rv_total_length = 5, rv_chunk_lens = [2, 3], rv_root = None, rv_inclusion_proof = Some ''p''\<rparr>
      1 4 False = Some (fs, oc) \<and> concat (map rf_bytes fs) = ''bcd''
    \<and> List.map_filter rf_inclusion_proof fs = [''p''] \<and> so_bytes oc = 3"
proof -
  let ?v = "\<lparr>rv_total_length = 5, rv_chunk_lens = [2, 3], rv_root = None, rv_inclusion_proof = Some ''p''\<rparr>"
  obtain fs oc where "stream_range_frames (\<lambda>f. Some (rf_bytes f)) (\<lambda>ls. map (\<lambda>l. (0, [l])) ls) 2
      ''abcde'' ?v 1 4 False = Some (fs, oc)"
    "concat (map rf_bytes fs) = take (4 - 1) (drop 1 ''abcde'')"
    "List.map_filter rf_inclusion_proof fs = (case rv_inclusion_proof ?v of None \<Rightarrow> [] | Some p \<Rightarrow> [p])"
    "so_bytes oc = length (concat (map rf_bytes fs))"
    using range_stream_delivers [of 2 "\<lambda>f. Some (rf_bytes f)" 1 "''abcde''"
        "\<lambda>ls. map (\<lambda>l. (0, [l])) ls" ?v 4 False] by auto
  then show ?thesis by (intro exI [of _ fs] exI [of _ oc]) simp
qed

text \<open>
  C29: reading a resource window by window. A client that starts at offset zero and goes on at
  \<open>next_offset\<close> gets, put together, exactly the resource; it ends by itself. Every window states the
  full length, the root and the inclusion proof, has at most the window size, and says complete
  exactly when it names no next offset.
\<close>

theorem content_windows_reassemble:
  "concat (map cw_ciphertext (read_windows ciphertext root_hex proof_b64 lens 0)) = ciphertext
   \<and> list_all (\<lambda>w. cw_total_length w = length ciphertext \<and> cw_root w = root_hex
       \<and> cw_inclusion_proof w = unwrap_or [] proof_b64 \<and> cw_length w = length (cw_ciphertext w)
       \<and> cw_length w \<le> WINDOW \<and> (cw_next_offset w = None \<longleftrightarrow> cw_complete w))
       (read_windows ciphertext root_hex proof_b64 lens 0)"
  using read_windows_bytes [of 0 ciphertext root_hex proof_b64 lens]
    read_windows_fields [of 0 ciphertext root_hex proof_b64 lens] by simp

text \<open>
  the chunk index on a frame. It is reported exactly when the frame starts where a chunk starts,
  and is then the first chunk that starts there; with no chunk table, only the start of the resource
  has an index, zero. (The lengths of a real layout add up to a \<open>u64\<close>.)
\<close>

theorem chunk_index_at_spec:
  assumes "sum_list lens \<le> u64_max"
  shows "chunk_index_at lens offset = Some j \<longleftrightarrow>
    (if lens = [] then offset = 0 \<and> j = 0
     else j < length lens \<and> sum_list (take j lens) = offset
       \<and> (\<forall>m < j. sum_list (take m lens) \<noteq> offset))"
proof (cases "lens = []")
  case False
  then have "chunk_index_at lens offset = chunk_index_loop 0 0 lens offset"
    by (simp add: chunk_index_at_def split: option.splits)
  with False show ?thesis using chunk_index_loop_spec [of 0 lens 0 offset j] assms by simp
qed (auto simp: chunk_index_at_def)

theorem chunk_index_at_spec_witness:
  "chunk_index_at [2, 0, 3] 2 = Some 1 \<and> chunk_index_at [2, 0, 3] 1 \<noteq> Some 0"
  using chunk_index_at_spec [of "[2, 0, 3]" 2 1] chunk_index_at_spec [of "[2, 0, 3]" 1 0]
  by (simp add: numeral_2_eq_2)

end
