(* ===== verification/Miss_Path.thy ===== *)
theory Miss_Path
  imports Request Pool Holder_Cache Peer_Standing Range_Serve
begin

text \<open>
  What the node does about content it does not hold (\<open>dig-node-core/src/download.rs\<close>): the miss
  outcome, the search for holders (this node's own walk, then the peers it asks), the fetch-through
  leg with its cache and its reshare, and the answers built from them.

  The engine's state is one record; a call takes the state, the instant it starts and the externals,
  and returns its result, the instant it ends and the new state. The externals are the fields of
  \<open>miss_ext\<close>: the DHT walk, the exchange with a peer, the download engine, \<open>dig-sex\<close>'s merge, ranking
  and scoring, the expiry test of a record and the wall clock. Each returns the instant it ends.
  The discovery cache of \<open>dig-dht\<close> that a failed fetch may also clear is not installed.
\<close>

section \<open>Externals and state\<close>

datatype provenance = FirstHand | Hearsay

datatype download_result =
  Downloaded (dl_bytes: string) (dl_total: nat) (dl_chunks: "nat list") (dl_root: "string option")
    (dl_proof: "string option")
| DownloadFailed
| DownloadUnreadable

record ('r, 'o, 'c) miss_ext =
  mx_hex :: hex_codec
  mx_record_peer :: "'r \<Rightarrow> string"
  mx_is_expired :: "'r \<Rightarrow> nat \<Rightarrow> bool"
  mx_unix :: "nat \<Rightarrow> nat"
  mx_find :: "content_id \<Rightarrow> nat \<Rightarrow> 'r list option \<times> nat"
  mx_ask :: "string \<Rightarrow> socket_addr list \<Rightarrow> content_id \<Rightarrow> nat \<Rightarrow> nat \<Rightarrow> string \<Rightarrow> nat \<Rightarrow> 'r ask_outcome \<times> nat"
  mx_download :: "content_id \<Rightarrow> nat \<Rightarrow> download_result \<times> nat"
  mx_download_key :: "content_id \<Rightarrow> string"
  mx_merge :: "recursion_config \<Rightarrow> 'r list \<Rightarrow> 'r list \<Rightarrow> ('r \<times> provenance) list"
  mx_conduct :: "'c conduct_ext"
  mx_routing :: "'o routing_ext"
  mx_default_config :: recursion_config

record ('r, 'o, 'c) node_content =
  nc_self_peer_id :: "string option"
  nc_miss_mode :: miss_mode
  nc_pool :: connected_pool
  nc_miss_limiter :: miss_rate_limiter
  nc_proxy_limiter :: miss_rate_limiter
  nc_relay_limiter :: miss_rate_limiter
  nc_forwarded_ask :: bool
  nc_recursion_config :: "recursion_config option"
  nc_free_slots :: nat
  nc_holder_cache :: "(content_id, 'r) holder_cache"
  nc_ask_seen :: "(string, content_id) ask_seen_set"
  nc_observations :: 'o
  nc_conduct :: "'c conduct_state"
  nc_fetched :: "(string \<times> fetched_resource) list"
  nc_backfill :: bool
  nc_warmer :: bool
  nc_warms :: "(string \<times> string) list"
  nc_downloads :: "content_id list"

text \<open>
  The last two are logs: \<open>nc_warms\<close> lists the whole-capsule pulls started, as the store and root they
  were started for, and \<open>nc_downloads\<close> what was handed to the download engine, in order, whatever came
  of it.
\<close>

definition FETCHED_CACHE_CAP :: nat where "FETCHED_CACHE_CAP = 8"

definition nc_config :: "('r, 'o, 'c) miss_ext \<Rightarrow> ('r, 'o, 'c) node_content \<Rightarrow> recursion_config" where
  "nc_config X s = unwrap_or (mx_default_config X) (nc_recursion_config s)"

section \<open>Answers\<close>

record 'r located_holders =
  lh_records :: "('r \<times> provenance) list"
  lh_conclusive :: bool

definition into_candidates :: "'r located_holders \<Rightarrow> 'r list" where
  "into_candidates self = map fst (lh_records self)"

definition lh_is_empty :: "'r located_holders \<Rightarrow> bool" where
  "lh_is_empty self \<longleftrightarrow> lh_records self = []"

definition establishes_absence :: "'r located_holders \<Rightarrow> bool" where
  "establishes_absence self \<longleftrightarrow> lh_records self = [] \<and> lh_conclusive self"

record 'r forwarded_answers =
  fa_records :: "'r list"
  fa_conclusive :: bool

definition recursion_disabled :: "'r forwarded_answers" where
  "recursion_disabled = \<lparr>fa_records = [], fa_conclusive = True\<rparr>"

definition answers_refused :: "'r forwarded_answers" where
  "answers_refused = \<lparr>fa_records = [], fa_conclusive = False\<rparr>"

definition answers_asked :: "'r forwarded_answers" where
  "answers_asked = \<lparr>fa_records = [], fa_conclusive = False\<rparr>"

datatype 'r best_effort = BestEffort (be_items: "'r list") (be_source_failed: bool)

definition best_effort_absence :: "'r best_effort \<Rightarrow> bool" where
  "best_effort_absence self \<longleftrightarrow> be_items self = [] \<and> \<not> be_source_failed self"

section \<open>This node's own search\<close>

definition retain_excluding_self :: "('r \<Rightarrow> string) \<Rightarrow> string option \<Rightarrow> 'r list \<Rightarrow> 'r list" where
  "retain_excluding_self peer_of self_peer_id records =
     (case self_peer_id of
        None \<Rightarrow> records
      | Some me \<Rightarrow> filter (\<lambda>r. peer_of r \<noteq> me) records)"

definition walk_for_providers ::
  "('r, 'o, 'c) miss_ext \<Rightarrow> content_id \<Rightarrow> nat \<Rightarrow> ('r, 'o, 'c) node_content \<Rightarrow> 'r list option \<times> nat"
where
  "walk_for_providers X content now s =
     (case mx_find X content now of
        (None, t) \<Rightarrow> (None, t)
      | (Some found, t) \<Rightarrow>
          (Some (retain_excluding_self (mx_record_peer X) (nc_self_peer_id s) found), t))"

definition find_providers ::
  "('r, 'o, 'c) miss_ext \<Rightarrow> content_id \<Rightarrow> nat \<Rightarrow> ('r, 'o, 'c) node_content \<Rightarrow> 'r best_effort"
where
  "find_providers X content now s =
     (case fst (walk_for_providers X content now s) of
        Some found \<Rightarrow> BestEffort found False
      | None \<Rightarrow> BestEffort [] True)"

text \<open>The first-hand leg: the remembered slate, or else a walk whose finding is remembered.\<close>

definition first_hand_leg ::
  "('r, 'o, 'c) miss_ext \<Rightarrow> content_id \<Rightarrow> nat \<Rightarrow> ('r, 'o, 'c) node_content
     \<Rightarrow> ('r list \<times> bool) \<times> nat \<times> ('r, 'o, 'c) node_content"
where
  "first_hand_leg X content now s =
     (case holder_get_at (mx_is_expired X) content now (mx_unix X now) (nc_holder_cache s) of
        (Some cached, hc) \<Rightarrow> ((cached, True), now, s\<lparr>nc_holder_cache := hc\<rparr>)
      | (None, hc) \<Rightarrow>
          (case walk_for_providers X content now (s\<lparr>nc_holder_cache := hc\<rparr>) of
             (Some found, t) \<Rightarrow>
               ((found, True), t, s\<lparr>nc_holder_cache := holder_remember content found t hc\<rparr>)
           | (None, t) \<Rightarrow> (([], False), t, s\<lparr>nc_holder_cache := hc\<rparr>)))"

section \<open>Asking peers\<close>

fun answer_records :: "'r ask_outcome \<Rightarrow> 'r list" where
  "answer_records (Answered records) = records"
| "answer_records (AnsweredInconclusive records) = records"
| "answer_records _ = []"

text \<open>One exchange: the outcome is scored for routing and for conduct, its records are candidates.\<close>

definition ask_peer ::
  "('r, 'o, 'c) miss_ext \<Rightarrow> content_id \<Rightarrow> nat \<Rightarrow> nat \<Rightarrow> string \<Rightarrow> string \<Rightarrow> string \<Rightarrow> socket_addr list \<Rightarrow> nat
     \<Rightarrow> ('r, 'o, 'c) node_content \<Rightarrow> 'r forwarded_answers
     \<Rightarrow> 'r forwarded_answers \<times> nat \<times> ('r, 'o, 'c) node_content"
where
  "ask_peer X content next_depth remaining ask_id routed peer addrs now s answers =
     (let (outcome, t) = mx_ask X peer addrs content next_depth remaining ask_id now
      in (answers\<lparr>fa_records := fa_records answers @ answer_records outcome\<rparr>, t,
          s\<lparr>nc_observations :=
              routing_record (mx_routing X) routed outcome (t - now) t (nc_observations s),
            nc_conduct :=
              conduct_observe (mx_conduct X) routed (conduct_evidence_of outcome) (ticks t)
                (nc_conduct s)\<rparr>))"

fun ask_loop ::
  "('r, 'o, 'c) miss_ext \<Rightarrow> connected_pool \<Rightarrow> content_id \<Rightarrow> nat \<Rightarrow> nat \<Rightarrow> string \<Rightarrow> string list \<Rightarrow> nat
     \<Rightarrow> ('r, 'o, 'c) node_content \<Rightarrow> 'r forwarded_answers
     \<Rightarrow> 'r forwarded_answers \<times> nat \<times> ('r, 'o, 'c) node_content"
where
  "ask_loop X pool content next_depth deadline ask_id [] now s answers = (answers, now, s)"
| "ask_loop X pool content next_depth deadline ask_id (routed # peers) now s answers =
     (let peer = to_pool_key (mx_hex X) routed in
      case map_of pool peer of
        None \<Rightarrow> ask_loop X pool content next_depth deadline ask_id peers now s answers
      | Some addrs \<Rightarrow>
          let remaining = deadline - now in
          if remaining = 0 then (answers, now, s)
          else case ask_peer X content next_depth remaining ask_id routed peer addrs now s answers of
                 (answers', t, s') \<Rightarrow>
                   ask_loop X pool content next_depth deadline ask_id peers t s' answers')"

text \<open>The decision to forward: who is dialable, what the requestor may still spend, what the ranking says.\<close>

definition decide_forwarding ::
  "('r, 'o, 'c) miss_ext \<Rightarrow> hop_budget \<Rightarrow> requestor_id \<Rightarrow> nat \<Rightarrow> ('r, 'o, 'c) node_content
     \<Rightarrow> forward_decision \<times> ('r, 'o, 'c) node_content"
where
  "decide_forwarding X budget requestor now s =
     (let config = nc_config X s;
          asker = unwrap_or nobody
            (case requestor of Peer i \<Rightarrow> from_pool_key (mx_hex X) i | _ \<Rightarrow> None);
          me = unwrap_or nobody (Option.bind (nc_self_peer_id s) (from_pool_key (mx_hex X)));
          routable = List.map_filter (\<lambda>(peer, _). from_pool_key (mx_hex X) peer)
            (dialable_pool (nc_pool s));
          (dialable, conduct') = conduct_dialable (mx_conduct X) routable (ticks now) (nc_conduct s);
          (relay_ok, relay') = limiter_check requestor now (nc_relay_limiter s);
          (decision, obs') = routing_decide (mx_routing X) config asker
            (budget_remaining (rc_hop_cap config) budget) me dialable relay_ok now (nc_observations s)
      in (decision,
          s\<lparr>nc_conduct := conduct', nc_relay_limiter := relay', nc_observations := obs'\<rparr>))"

definition forwarded_holders ::
  "('r, 'o, 'c) miss_ext \<Rightarrow> content_id \<Rightarrow> hop_budget \<Rightarrow> requestor_id \<Rightarrow> nat \<Rightarrow> ('r, 'o, 'c) node_content
     \<Rightarrow> 'r forwarded_answers \<times> nat \<times> ('r, 'o, 'c) node_content"
where
  "forwarded_holders X content budget requestor now s =
     (if \<not> nc_forwarded_ask s then (recursion_disabled, now, s)
      else
        let (decision, s1) = decide_forwarding X budget requestor now s
        in case decision of
             Refuse refusal \<Rightarrow>
               (if refusal = Disabled then recursion_disabled else answers_refused, now, s1)
           | Forward peers hops_remaining \<Rightarrow>
               let (claimed, seen') = ask_claim (hb_ask_id budget) content now (nc_ask_seen s1);
                   s2 = s1\<lparr>nc_ask_seen := seen'\<rparr>
               in if \<not> claimed then (answers_refused, now, s2)
                  else if nc_free_slots s2 = 0 then (answers_refused, now, s2)
                  else
                    let config = nc_config X s;
                        next_depth = rc_hop_cap config - hops_remaining;
                        deadline = now + time_budget hops_remaining (rc_fan_out config) budget
                    in ask_loop X (dialable_pool (nc_pool s)) content next_depth deadline
                         (hb_ask_id budget) peers now s2 answers_asked)"

section \<open>Locating holders\<close>

definition retain_excluding_self_tagged ::
  "('r \<Rightarrow> string) \<Rightarrow> string option \<Rightarrow> ('r \<times> provenance) list \<Rightarrow> ('r \<times> provenance) list"
where
  "retain_excluding_self_tagged peer_of me records =
     (case me of None \<Rightarrow> records | Some m \<Rightarrow> filter (\<lambda>(r, _). peer_of r \<noteq> m) records)"

fun dedup_from :: "('a \<Rightarrow> 'k) \<Rightarrow> 'k set \<Rightarrow> 'a list \<Rightarrow> 'a list" where
  "dedup_from f seen [] = []"
| "dedup_from f seen (x # xs) =
     (if f x \<in> seen then dedup_from f seen xs else x # dedup_from f (insert (f x) seen) xs)"

definition dedup_by_peer_tagged :: "('r \<Rightarrow> string) \<Rightarrow> ('r \<times> provenance) list \<Rightarrow> ('r \<times> provenance) list" where
  "dedup_by_peer_tagged peer_of records = dedup_from (\<lambda>(r, _). peer_of r) {} records"

definition locate_holders ::
  "('r, 'o, 'c) miss_ext \<Rightarrow> content_id \<Rightarrow> hop_budget \<Rightarrow> requestor_id \<Rightarrow> nat \<Rightarrow> ('r, 'o, 'c) node_content
     \<Rightarrow> 'r located_holders \<times> nat \<times> ('r, 'o, 'c) node_content"
where
  "locate_holders X content budget requestor now s =
     (let ((first_hand, first_hand_conclusive), t1, s1) = first_hand_leg X content now s;
          (forwarded, t2, s2) = forwarded_holders X content budget requestor t1 s1;
          merged = mx_merge X (nc_config X s2) first_hand (fa_records forwarded);
          kept = retain_excluding_self_tagged (mx_record_peer X) (nc_self_peer_id s2) merged
      in (\<lparr>lh_records = dedup_by_peer_tagged (mx_record_peer X) kept,
           lh_conclusive = first_hand_conclusive \<and> fa_conclusive forwarded\<rparr>, t2, s2))"

section \<open>Fetching through\<close>

definition spawn_capsule_reshare ::
  "('r, 'o, 'c) miss_ext \<Rightarrow> content_id \<Rightarrow> read_origin \<Rightarrow> ('r, 'o, 'c) node_content \<Rightarrow> ('r, 'o, 'c) node_content"
where
  "spawn_capsule_reshare X content origin s =
     (if origin \<noteq> OriginLocal \<or> \<not> nc_backfill s then s
      else if \<not> nc_warmer s then s
      else let warm = (\<lambda>store rt. s\<lparr>nc_warms := nc_warms s @
                 [(hx_encode (mx_hex X) store, hx_encode (mx_hex X) rt)]\<rparr>)
           in case content of
                Root store rt \<Rightarrow> warm store rt
              | Resource store rt _ \<Rightarrow> warm store rt
              | Store _ \<Rightarrow> s)"

definition forget_stale_discovery ::
  "content_id \<Rightarrow> ('r, 'o, 'c) node_content \<Rightarrow> ('r, 'o, 'c) node_content"
where
  "forget_stale_discovery content s = s\<lparr>nc_holder_cache := holder_forget content (nc_holder_cache s)\<rparr>"

definition cache_fetched ::
  "string \<Rightarrow> fetched_resource \<Rightarrow> (string \<times> fetched_resource) list \<Rightarrow> (string \<times> fetched_resource) list"
where
  "cache_fetched key fetched cache =
     (let cache' = (if length cache \<ge> FETCHED_CACHE_CAP
                    then case cache of [] \<Rightarrow> cache | (k, _) # _ \<Rightarrow> AList.delete k cache
                    else cache)
      in AList.update key fetched cache')"

definition fetch_resource ::
  "('r, 'o, 'c) miss_ext \<Rightarrow> content_id \<Rightarrow> read_origin \<Rightarrow> nat \<Rightarrow> ('r, 'o, 'c) node_content
     \<Rightarrow> fetched_resource option \<times> nat \<times> ('r, 'o, 'c) node_content"
where
  "fetch_resource X content origin now s =
     (let key = mx_download_key X content in
      case map_of (nc_fetched s) key of
        Some hit \<Rightarrow> (Some hit, now, s)
      | None \<Rightarrow>
          let s0 = s\<lparr>nc_downloads := nc_downloads s @ [content]\<rparr> in
          (case mx_download X content now of
             (DownloadFailed, t) \<Rightarrow> (None, t, forget_stale_discovery content s0)
           | (DownloadUnreadable, t) \<Rightarrow> (None, t, s0)
           | (Downloaded bytes tot chunks rt prf, t) \<Rightarrow>
               let fetched = \<lparr>fres_bytes = bytes, fres_total_length = max tot (length bytes),
                     fres_chunk_lens = chunks, fres_root = rt, fres_inclusion_proof = prf\<rparr>;
                   s1 = s0\<lparr>nc_fetched := cache_fetched key fetched (nc_fetched s)\<rparr>
               in (Some fetched, t, spawn_capsule_reshare X content origin s1)))"

section \<open>The miss outcome\<close>

datatype 'r MissOutcome =
  Fetched fetched_resource
| RedirectTo (mo_providers: "'r list") (mo_next_depth: nat)
| NotFound
| MissInconclusive
| RateLimited

definition allow_proxy_fetch ::
  "requestor_id \<Rightarrow> nat \<Rightarrow> ('r, 'o, 'c) node_content \<Rightarrow> bool \<times> ('r, 'o, 'c) node_content"
where
  "allow_proxy_fetch requestor now s =
     (if is_local requestor then (True, s)
      else let (ok, l) = limiter_check requestor now (nc_proxy_limiter s)
           in (ok, s\<lparr>nc_proxy_limiter := l\<rparr>))"

definition redirect_leg ::
  "('r, 'o, 'c) miss_ext \<Rightarrow> content_id \<Rightarrow> hop_budget \<Rightarrow> requestor_id \<Rightarrow> nat \<Rightarrow> ('r, 'o, 'c) node_content
     \<Rightarrow> 'r MissOutcome \<times> nat \<times> ('r, 'o, 'c) node_content"
where
  "redirect_leg X content budget requestor now s =
     (let depth = budget_used budget in
      if depth \<ge> REDIRECT_HOP_CAP then (NotFound, now, s)
      else
        let (located, t, s') = locate_holders X content budget requestor now s
        in if lh_is_empty located
           then (if establishes_absence located then NotFound else MissInconclusive, t, s')
           else (RedirectTo (into_candidates located) (depth + 1), t, s'))"

definition miss_outcome_of ::
  "('r, 'o, 'c) miss_ext \<Rightarrow> content_id \<Rightarrow> hop_budget \<Rightarrow> bool \<Rightarrow> read_origin \<Rightarrow> requestor_id \<Rightarrow> nat
     \<Rightarrow> ('r, 'o, 'c) node_content \<Rightarrow> 'r MissOutcome \<times> nat \<times> ('r, 'o, 'c) node_content"
where
  "miss_outcome_of X content budget proxy origin requestor now s =
     (let (admitted, lim1) = limiter_check requestor now (nc_miss_limiter s);
          s1 = s\<lparr>nc_miss_limiter := lim1\<rparr>
      in if \<not> admitted then (RateLimited, now, s1)
         else if proxy \<or> nc_miss_mode s1 = FetchThrough then
           let (allowed, s2) = allow_proxy_fetch requestor now s1 in
           if allowed then
             (case fetch_resource X content origin now s2 of
                (Some fetched, t, s3) \<Rightarrow> (Fetched fetched, t, s3)
              | (None, t, s3) \<Rightarrow> redirect_leg X content budget requestor t s3)
           else redirect_leg X content budget requestor now s2
         else redirect_leg X content budget requestor now s1)"

text \<open>A node with no content engine has no miss path: the caller's own not-found stands.\<close>

definition miss_outcome ::
  "('r, 'o, 'c) miss_ext \<Rightarrow> content_id \<Rightarrow> hop_budget \<Rightarrow> bool \<Rightarrow> read_origin \<Rightarrow> requestor_id \<Rightarrow> nat
     \<Rightarrow> ('r, 'o, 'c) node_content option \<Rightarrow> 'r MissOutcome \<times> nat \<times> ('r, 'o, 'c) node_content option"
where
  "miss_outcome X content budget proxy origin requestor now engine =
     (case engine of
        None \<Rightarrow> (NotFound, now, None)
      | Some s \<Rightarrow>
          let (outcome, t, s') = miss_outcome_of X content budget proxy origin requestor now s
          in (outcome, t, Some s'))"

section \<open>The answers\<close>

text \<open>
  \<open>CONTENT_MISS_INCONCLUSIVE\<close> is the code \<open>dig-rpc-protocol\<close> assigns, and the cap on the providers a
  redirect names is \<open>dig-dht\<close>'s \<open>MAX_ADDRESSES_PER_RECORD\<close>: both are arguments.
\<close>

datatype 'r envelope =
  FrameResult single_frame
| WindowResult content_window
| ErrorCode int
| RedirectError int content_id "'r list" nat nat

definition redirect_error_object :: "nat \<Rightarrow> content_id \<Rightarrow> 'r list \<Rightarrow> nat \<Rightarrow> 'r envelope" where
  "redirect_error_object max_providers content providers next_depth =
     RedirectError CONTENT_REDIRECT content (take max_providers providers) next_depth REDIRECT_HOP_CAP"

definition miss_refusal_envelope :: "int \<Rightarrow> 'r MissOutcome \<Rightarrow> 'r envelope option" where
  "miss_refusal_envelope inconclusive outcome =
     (case outcome of
        RateLimited \<Rightarrow> Some (ErrorCode CONTENT_MISS_RATE_LIMITED)
      | MissInconclusive \<Rightarrow> Some (ErrorCode inconclusive)
      | _ \<Rightarrow> None)"

definition range_miss_envelope ::
  "nat \<Rightarrow> int \<Rightarrow> content_id \<Rightarrow> nat \<Rightarrow> nat \<Rightarrow> 'r MissOutcome \<Rightarrow> 'r envelope option"
where
  "range_miss_envelope max_providers inconclusive content offset len outcome =
     (case outcome of
        Fetched f \<Rightarrow> Some (case fetched_range_frame offset len f of
            Inr frame \<Rightarrow> FrameResult frame
          | Inl code \<Rightarrow> ErrorCode code)
      | RedirectTo providers next_depth \<Rightarrow>
          Some (redirect_error_object max_providers content providers next_depth)
      | _ \<Rightarrow> miss_refusal_envelope inconclusive outcome)"

definition content_miss_envelope ::
  "nat \<Rightarrow> int \<Rightarrow> content_id \<Rightarrow> nat \<Rightarrow> string option \<Rightarrow> 'r MissOutcome \<Rightarrow> 'r envelope option"
where
  "content_miss_envelope max_providers inconclusive content offset pinned_root_hex outcome =
     (case outcome of
        Fetched f \<Rightarrow>
          (let root_ok = (case pinned_root_hex of Some pin \<Rightarrow> fres_root f = Some pin | None \<Rightarrow> True)
           in if \<not> root_ok then None else Some (WindowResult (content_result offset f)))
      | RedirectTo providers next_depth \<Rightarrow>
          Some (redirect_error_object max_providers content providers next_depth)
      | _ \<Rightarrow> miss_refusal_envelope inconclusive outcome)"

end
