(* ===== verification/Miss_Facts.thy ===== *)
theory Miss_Facts
  imports Miss_Path
begin

text \<open>
  Facts about the miss path: what each leg leaves alone, what the merge of the two sources keeps, what
  the remembered slates hold, and what a miss does to the limiters. The two \<open>metered\<close> gates at the end
  carry the bounds of the limiters over whole histories of misses.
\<close>

section \<open>What each leg touches\<close>

text \<open>
  The legs below the miss outcome leave most of the state alone. \<open>same_core\<close> names what the
  forwarded leg never touches; it may score peers, charge the relay limiter and claim an ask.
\<close>

definition same_core :: "('r, 'o, 'c) node_content \<Rightarrow> ('r, 'o, 'c) node_content \<Rightarrow> bool" where
  "same_core s s' \<longleftrightarrow>
     nc_self_peer_id s' = nc_self_peer_id s \<and> nc_miss_mode s' = nc_miss_mode s
     \<and> nc_pool s' = nc_pool s \<and> nc_miss_limiter s' = nc_miss_limiter s
     \<and> nc_proxy_limiter s' = nc_proxy_limiter s \<and> nc_forwarded_ask s' = nc_forwarded_ask s
     \<and> nc_recursion_config s' = nc_recursion_config s \<and> nc_free_slots s' = nc_free_slots s
     \<and> nc_fetched s' = nc_fetched s \<and> nc_warms s' = nc_warms s
     \<and> nc_downloads s' = nc_downloads s"

lemma same_core_refl [simp]: "same_core s s"
  by (simp add: same_core_def)

lemma same_core_trans: "same_core a b \<Longrightarrow> same_core b c \<Longrightarrow> same_core a c"
  by (simp add: same_core_def)

lemma same_core_upd [simp]:
  "same_core s (s\<lparr>nc_observations := x\<rparr>)" "same_core s (s\<lparr>nc_conduct := y\<rparr>)"
  "same_core s (s\<lparr>nc_relay_limiter := l\<rparr>)" "same_core s (s\<lparr>nc_ask_seen := a\<rparr>)"
  "same_core s (s\<lparr>nc_holder_cache := h\<rparr>)"
  by (simp_all add: same_core_def)

definition same_cache :: "('r, 'o, 'c) node_content \<Rightarrow> ('r, 'o, 'c) node_content \<Rightarrow> bool" where
  "same_cache s s' \<longleftrightarrow> same_core s s' \<and> nc_holder_cache s' = nc_holder_cache s"

lemma ask_peer_frame:
  assumes "ask_peer X content d rem i routed peer addrs now s answers = (answers', t, s')"
  shows "same_cache s s'" "nc_ask_seen s' = nc_ask_seen s" "nc_relay_limiter s' = nc_relay_limiter s"
    "fa_conclusive answers' = fa_conclusive answers"
  using assms by (auto simp: ask_peer_def same_cache_def same_core_def split: prod.splits)

lemma ask_loop_frame:
  assumes "ask_loop X pool content d dl i peers now s answers = (answers', t, s')"
  shows "same_cache s s' \<and> nc_ask_seen s' = nc_ask_seen s \<and> nc_relay_limiter s' = nc_relay_limiter s
    \<and> fa_conclusive answers' = fa_conclusive answers"
  using assms
proof (induction peers arbitrary: now s answers)
  case Nil
  then show ?case by (simp add: same_cache_def)
next
  case (Cons routed peers)
  let ?peer = "to_pool_key (mx_hex X) routed"
  show ?case
  proof (cases "map_of pool ?peer")
    case None
    with Cons show ?thesis by (simp add: Let_def)
  next
    case (Some addrs)
    show ?thesis
    proof (cases "dl - now = 0")
      case True
      with Cons.prems Some show ?thesis by (simp add: same_cache_def)
    next
      case False
      obtain a1 t1 s1 where p: "ask_peer X content d (dl - now) i routed ?peer addrs now s answers = (a1, t1, s1)"
        by (cases "ask_peer X content d (dl - now) i routed ?peer addrs now s answers")
      from Cons.prems Some False p have "ask_loop X pool content d dl i peers t1 s1 a1 = (answers', t, s')"
        by (simp add: Let_def)
      from Cons.IH [OF this] ask_peer_frame [OF p] show ?thesis
        by (auto simp: same_cache_def intro: same_core_trans)
    qed
  qed
qed

lemma decide_forwarding_frame:
  assumes "decide_forwarding X budget requestor now s = (decision, s')"
  shows "same_cache s s'" "nc_ask_seen s' = nc_ask_seen s"
    "nc_relay_limiter s' = snd (limiter_check requestor now (nc_relay_limiter s))"
  using assms
  by (auto simp: decide_forwarding_def routing_decide_def Let_def same_cache_def same_core_def
      split: prod.splits)

lemma decide_forwarding_crate:
  assumes "decide_forwarding X budget requestor now s = (decision, s')"
  shows "\<exists>asker hops me pool ok obs t.
       rx_decide (mx_routing X) (nc_config X s) asker hops me pool ok obs t = decision"
  using assms unfolding decide_forwarding_def routing_decide_def Let_def
  by (simp split: prod.splits) blast

lemma forwarded_frame:
  assumes "forwarded_holders X content budget requestor now s = (answers, t, s')"
  shows "same_cache s s'"
    and "fa_conclusive answers \<Longrightarrow> \<not> nc_forwarded_ask s \<or> (\<exists>asker hops me pool ok obs t.
       rx_decide (mx_routing X) (nc_config X s) asker hops me pool ok obs t = Refuse Disabled)"
proof -
  have *: "same_cache s s' \<and> (fa_conclusive answers \<longrightarrow> \<not> nc_forwarded_ask s
      \<or> (\<exists>asker hops me pool ok obs t.
           rx_decide (mx_routing X) (nc_config X s) asker hops me pool ok obs t = Refuse Disabled))"
  proof (cases "nc_forwarded_ask s")
    case False
    with assms show ?thesis by (simp add: forwarded_holders_def same_cache_def)
  next
    case True
    obtain decision s1 where d: "decide_forwarding X budget requestor now s = (decision, s1)"
      by fastforce
    note fr = decide_forwarding_frame [OF d]
    show ?thesis
    proof (cases decision)
      case (Refuse refusal)
      with assms True d have "s' = s1" "fa_conclusive answers \<longrightarrow> refusal = Disabled"
        by (auto simp: forwarded_holders_def answers_refused_def split: if_splits)
      with fr decide_forwarding_crate [OF d] Refuse show ?thesis by blast
    next
      case (Forward peers hops)
      obtain claimed seen where cl: "ask_claim (hb_ask_id budget) content now (nc_ask_seen s1) = (claimed, seen)"
        by fastforce
      define s2 where "s2 = s1\<lparr>nc_ask_seen := seen\<rparr>"
      have s2: "same_cache s1 s2" by (simp add: s2_def same_cache_def)
      have "answers = answers_refused \<and> s' = s2
        \<or> (\<exists>dep dl. ask_loop X (dialable_pool (nc_pool s)) content dep dl (hb_ask_id budget) peers now s2
              answers_asked = (answers, t, s'))"
        using assms True d Forward cl
        by (auto simp: forwarded_holders_def s2_def Let_def split: if_splits)
      then have "same_cache s2 s' \<and> \<not> fa_conclusive answers"
        using ask_loop_frame by (fastforce simp: same_cache_def answers_refused_def answers_asked_def)
      with fr s2 show ?thesis by (auto simp: same_cache_def intro: same_core_trans)
    qed
  qed
  then show "same_cache s s'" by blast
  show "\<not> nc_forwarded_ask s \<or> (\<exists>asker hops me pool ok obs t.
       rx_decide (mx_routing X) (nc_config X s) asker hops me pool ok obs t = Refuse Disabled)"
    if "fa_conclusive answers" using * that by blast
qed

lemma first_hand_frame:
  assumes "first_hand_leg X content now s = (fh, t, s')"
  shows "same_core s s'"
  using assms by (auto simp: first_hand_leg_def split: prod.splits option.splits)

lemma locate_parts:
  assumes "locate_holders X content budget requestor now s = (lh, t, s')"
  obtains fh fhc t1 s1 fa where
    "first_hand_leg X content now s = ((fh, fhc), t1, s1)"
    "forwarded_holders X content budget requestor t1 s1 = (fa, t, s')"
    "lh_records lh = dedup_by_peer_tagged (mx_record_peer X)
       (retain_excluding_self_tagged (mx_record_peer X) (nc_self_peer_id s)
          (mx_merge X (nc_config X s') fh (fa_records fa)))"
    "lh_conclusive lh \<longleftrightarrow> fhc \<and> fa_conclusive fa"
    "same_core s s1" "same_core s s'"
proof -
  obtain fh fhc t1 s1 where 1: "first_hand_leg X content now s = ((fh, fhc), t1, s1)"
    by (metis prod.exhaust)
  obtain fa t2 s2 where 2: "forwarded_holders X content budget requestor t1 s1 = (fa, t2, s2)"
    by (metis prod.exhaust)
  have core: "same_core s s1" "same_core s s2"
    using first_hand_frame [OF 1] forwarded_frame(1) [OF 2]
    by (auto simp: same_cache_def intro: same_core_trans)
  have "nc_self_peer_id s2 = nc_self_peer_id s" using core by (simp add: same_core_def)
  then show ?thesis using assms 1 2 core that
    by (auto simp: locate_holders_def)
qed

lemma redirect_leg_frame:
  assumes "redirect_leg X content budget requestor now s = (outcome, t, s')"
  shows "same_core s s'"
proof (cases "locate_holders X content budget requestor now s")
  case (fields lh t' s1)
  then have "same_core s s1" by (blast elim: locate_parts)
  with assms fields show ?thesis
    by (auto simp: redirect_leg_def Let_def split: if_splits)
qed

text \<open>The fetch leg touches the caches and the list of warms, never a limiter.\<close>

definition same_limits :: "('r, 'o, 'c) node_content \<Rightarrow> ('r, 'o, 'c) node_content \<Rightarrow> bool" where
  "same_limits s s' \<longleftrightarrow> nc_self_peer_id s' = nc_self_peer_id s
     \<and> nc_miss_limiter s' = nc_miss_limiter s \<and> nc_proxy_limiter s' = nc_proxy_limiter s"

lemma same_core_limits: "same_core s s' \<Longrightarrow> same_limits s s'"
  by (simp add: same_core_def same_limits_def)

lemma same_limits_trans: "same_limits a b \<Longrightarrow> same_limits b c \<Longrightarrow> same_limits a c"
  by (simp add: same_limits_def)

lemma reshare_warms:
  "nc_warms (spawn_capsule_reshare X content origin s) = nc_warms s @
     (if origin = OriginLocal \<and> nc_backfill s \<and> nc_warmer s
      then case content of Store _ \<Rightarrow> []
           | _ \<Rightarrow> [(hx_encode (mx_hex X) (ci_store content), hx_encode (mx_hex X) (ci_root content))]
      else [])"
  by (cases content) (auto simp: spawn_capsule_reshare_def Let_def)

lemma reshare_frame [simp]:
  "nc_fetched (spawn_capsule_reshare X content origin s) = nc_fetched s"
  "nc_holder_cache (spawn_capsule_reshare X content origin s) = nc_holder_cache s"
  "nc_self_peer_id (spawn_capsule_reshare X content origin s) = nc_self_peer_id s"
  "nc_miss_limiter (spawn_capsule_reshare X content origin s) = nc_miss_limiter s"
  "nc_proxy_limiter (spawn_capsule_reshare X content origin s) = nc_proxy_limiter s"
  "nc_relay_limiter (spawn_capsule_reshare X content origin s) = nc_relay_limiter s"
  "nc_ask_seen (spawn_capsule_reshare X content origin s) = nc_ask_seen s"
  "nc_downloads (spawn_capsule_reshare X content origin s) = nc_downloads s"
  by (cases content; simp add: spawn_capsule_reshare_def Let_def)+

lemma fetch_resource_frame:
  assumes "fetch_resource X content origin now s = (res, t, s')"
  shows "same_limits s s'"
    "nc_warms s' \<noteq> nc_warms s \<Longrightarrow> origin = OriginLocal \<and> res \<noteq> None \<and> nc_warms s' = nc_warms s @
       [(hx_encode (mx_hex X) (ci_store content), hx_encode (mx_hex X) (ci_root content))]"
proof -
  have "same_limits s s' \<and> (nc_warms s' = nc_warms s \<or> origin = OriginLocal \<and> res \<noteq> None
      \<and> nc_warms s' = nc_warms s @
       [(hx_encode (mx_hex X) (ci_store content), hx_encode (mx_hex X) (ci_root content))])"
    using assms
    by (auto simp: fetch_resource_def Let_def forget_stale_discovery_def same_limits_def reshare_warms
        split: option.splits download_result.splits prod.splits if_splits content_id.splits)
  then show "same_limits s s'" "nc_warms s' \<noteq> nc_warms s \<Longrightarrow> origin = OriginLocal \<and> res \<noteq> None
      \<and> nc_warms s' = nc_warms s @
       [(hx_encode (mx_hex X) (ci_store content), hx_encode (mx_hex X) (ci_root content))]"
    by auto
qed

text \<open>How a miss goes: the limiter, the fetch it may try, the redirect leg it falls back to.\<close>

lemma miss_outcome_cases:
  assumes "miss_outcome_of X content budget proxy origin requestor now s = (outcome, t, s')"
  obtains
    (limited) "\<not> fst (limiter_check requestor now (nc_miss_limiter s))" "outcome = RateLimited" "t = now"
      "s' = s\<lparr>nc_miss_limiter := snd (limiter_check requestor now (nc_miss_limiter s))\<rparr>"
  | (fetched) s2 f where "fst (limiter_check requestor now (nc_miss_limiter s))"
      "proxy \<or> nc_miss_mode s = FetchThrough"
      "allow_proxy_fetch requestor now
         (s\<lparr>nc_miss_limiter := snd (limiter_check requestor now (nc_miss_limiter s))\<rparr>) = (True, s2)"
      "fetch_resource X content origin now s2 = (Some f, t, s')" "outcome = Fetched f"
  | (redirected) s2 t2 s3 where "fst (limiter_check requestor now (nc_miss_limiter s))"
      "s2 = s\<lparr>nc_miss_limiter := snd (limiter_check requestor now (nc_miss_limiter s))\<rparr>
       \<or> (\<exists>b. allow_proxy_fetch requestor now
         (s\<lparr>nc_miss_limiter := snd (limiter_check requestor now (nc_miss_limiter s))\<rparr>) = (b, s2))"
      "s3 = s2 \<or> fetch_resource X content origin now s2 = (None, t2, s3)
         \<and> allow_proxy_fetch requestor now
           (s\<lparr>nc_miss_limiter := snd (limiter_check requestor now (nc_miss_limiter s))\<rparr>) = (True, s2)"
      "redirect_leg X content budget requestor t2 s3 = (outcome, t, s')"
proof -
  obtain admitted l1 where lc: "limiter_check requestor now (nc_miss_limiter s) = (admitted, l1)"
    by fastforce
  define s1 where "s1 = s\<lparr>nc_miss_limiter := l1\<rparr>"
  obtain allowed s2 where al: "allow_proxy_fetch requestor now s1 = (allowed, s2)" by fastforce
  obtain res t2 s3 where fe: "fetch_resource X content origin now s2 = (res, t2, s3)"
    by (metis prod.exhaust)
  have mode: "nc_miss_mode s1 = nc_miss_mode s" by (simp add: s1_def)
  have unf: "miss_outcome_of X content budget proxy origin requestor now s =
     (if \<not> admitted then (RateLimited, now, s1)
      else if proxy \<or> nc_miss_mode s = FetchThrough then
        if allowed then
          (case res of Some f \<Rightarrow> (Fetched f, t2, s3)
           | None \<Rightarrow> redirect_leg X content budget requestor t2 s3)
        else redirect_leg X content budget requestor now s2
      else redirect_leg X content budget requestor now s1)"
    by (cases res)
       (simp_all only: miss_outcome_of_def lc prod.case Let_def s1_def [symmetric] mode al fe option.case)
  consider "\<not> admitted" | f where "admitted" "proxy \<or> nc_miss_mode s = FetchThrough" "allowed" "res = Some f"
    | "admitted" "proxy \<or> nc_miss_mode s = FetchThrough" "allowed" "res = None"
    | "admitted" "proxy \<or> nc_miss_mode s = FetchThrough" "\<not> allowed"
    | "admitted" "\<not> (proxy \<or> nc_miss_mode s = FetchThrough)"
    by (cases res) auto
  then show ?thesis
  proof cases
    case 1
    with assms unf lc show ?thesis by (intro limited) (simp_all add: s1_def)
  next
    case (2 f)
    with assms unf lc al fe show ?thesis by (intro fetched [of s2 f]) (simp_all add: s1_def)
  next
    case 3
    with assms unf lc al fe show ?thesis by (intro redirected [of s2 s3 t2]) (auto simp: s1_def)
  next
    case 4
    with assms unf lc al show ?thesis by (intro redirected [of s2 s2 now]) (auto simp: s1_def)
  next
    case 5
    with assms unf lc show ?thesis by (intro redirected [of s1 s1 now]) (simp_all add: s1_def)
  qed
qed

section \<open>Facts about the merge\<close>

text \<open>
  What \<open>dig-sex\<close> promises of the merge: the first-hand records, all of them and in order, and after
  them some of the hearsay, each tagged with where it came from.
\<close>

definition merge_law :: "('r, 'o, 'c) miss_ext \<Rightarrow> bool" where
  "merge_law X \<longleftrightarrow> (\<forall>cfg mine theirs. \<exists>hs. set hs \<subseteq> set theirs \<and>
     mx_merge X cfg mine theirs = map (\<lambda>r. (r, FirstHand)) mine @ map (\<lambda>r. (r, Hearsay)) hs)"

lemma dedup_from_append:
  "dedup_from f seen (xs @ ys) = dedup_from f seen xs @ dedup_from f (seen \<union> f ` set xs) ys"
  by (induction xs arbitrary: seen) (auto simp: insert_absorb)

lemma dedup_from_keys: "f ` set (dedup_from f seen xs) = f ` set xs - seen"
  by (induction xs arbitrary: seen) auto

lemma dedup_from_distinct: "distinct (map f (dedup_from f seen xs)) \<and> set (dedup_from f seen xs) \<subseteq> set xs"
proof (induction xs arbitrary: seen)
  case (Cons x xs)
  have "f x \<notin> f ` set (dedup_from f (insert (f x) seen) xs)" by (simp add: dedup_from_keys)
  with Cons show ?case by auto
qed simp

definition not_self :: "('r \<Rightarrow> string) \<Rightarrow> string option \<Rightarrow> 'r \<Rightarrow> bool" where
  "not_self peer_of me r \<longleftrightarrow> me \<noteq> Some (peer_of r)"

lemma retain_excluding_self_filter:
  "retain_excluding_self peer_of me rs = filter (not_self peer_of me) rs"
  by (cases me) (auto simp: retain_excluding_self_def not_self_def intro: filter_cong)

lemma retain_tagged_filter:
  "retain_excluding_self_tagged peer_of me rs = filter (\<lambda>(r, _). not_self peer_of me r) rs"
  by (cases me) (auto simp: retain_excluding_self_tagged_def not_self_def intro: filter_cong)

text \<open>The located records are the first-hand ones, one per peer and self excluded, then hearsay.\<close>

lemma merged_records:
  assumes "merge_law X"
    and "recs = dedup_by_peer_tagged (mx_record_peer X) (retain_excluding_self_tagged (mx_record_peer X) me
       (mx_merge X cfg fh theirs))"
  obtains a b where "recs = map (\<lambda>r. (r, FirstHand)) a @ map (\<lambda>r. (r, Hearsay)) b"
    "set a \<subseteq> set fh" "set b \<subseteq> set theirs"
    "mx_record_peer X ` set a = mx_record_peer X ` set (filter (not_self (mx_record_peer X) me) fh)"
    "distinct (map (mx_record_peer X) (a @ b))"
    "\<forall>r \<in> set (a @ b). not_self (mx_record_peer X) me r"
proof -
  let ?P = "mx_record_peer X" let ?k = "\<lambda>(r, _). mx_record_peer X r"
  let ?q = "not_self ?P me"
  have tag: "dedup_from ?k seen (map (\<lambda>r. (r, p)) xs) = map (\<lambda>r. (r, p)) (dedup_from ?P seen xs)"
    for p seen xs by (induction xs arbitrary: seen) auto
  obtain hs where hs: "set hs \<subseteq> set theirs"
    "mx_merge X cfg fh theirs = map (\<lambda>r. (r, FirstHand)) fh @ map (\<lambda>r. (r, Hearsay)) hs"
    using assms(1) unfolding merge_law_def by metis
  define a where "a = dedup_from ?P {} (filter ?q fh)"
  define b where "b = dedup_from ?P (?P ` set (filter ?q fh)) (filter ?q hs)"
  have fil: "filter (\<lambda>(r, _). ?q r) (map (\<lambda>r. (r, p)) xs) = map (\<lambda>r. (r, p)) (filter ?q xs)" for p xs
    by (induction xs) auto
  have "recs = dedup_from ?k {} (map (\<lambda>r. (r, FirstHand)) (filter ?q fh) @ map (\<lambda>r. (r, Hearsay)) (filter ?q hs))"
    unfolding assms(2) dedup_by_peer_tagged_def retain_tagged_filter hs(2) filter_append fil ..
  also have "\<dots> = map (\<lambda>r. (r, FirstHand)) a @ map (\<lambda>r. (r, Hearsay)) b"
    unfolding dedup_from_append tag a_def b_def by (simp add: image_image)
  finally have recs: "recs = map (\<lambda>r. (r, FirstHand)) a @ map (\<lambda>r. (r, Hearsay)) b" .
  have d: "distinct (map ?P a)" "set a \<subseteq> set (filter ?q fh)" "distinct (map ?P b)" "set b \<subseteq> set (filter ?q hs)"
    using dedup_from_distinct unfolding a_def b_def by metis+
  have keys: "?P ` set a = ?P ` set (filter ?q fh)" unfolding a_def by (simp add: dedup_from_keys)
  moreover have "?P ` set b = ?P ` set (filter ?q hs) - ?P ` set (filter ?q fh)"
    unfolding b_def by (rule dedup_from_keys)
  ultimately have "distinct (map ?P (a @ b))" using d by auto
  with recs d keys hs(1) show ?thesis by (intro that [of a b]) auto
qed

section \<open>The remembered slates\<close>

text \<open>No remembered slate names this node.\<close>

definition slates_ok :: "('r \<Rightarrow> string) \<Rightarrow> ('r, 'o, 'c) node_content \<Rightarrow> bool" where
  "slates_ok peer_of s \<longleftrightarrow>
     (\<forall>(c, (_, slate)) \<in> set (tm_entries (nc_holder_cache s)).
        \<forall>r \<in> set slate. not_self peer_of (nc_self_peer_id s) r)"

lemma ttl_get_entries: "set (tm_entries (snd (ttl_get k now m))) \<subseteq> set (tm_entries m)"
  by (auto simp: ttl_get_def AList.delete_eq split: option.splits prod.splits)

lemma ttl_insert_entries:
  "set (tm_entries (ttl_insert k v now m)) \<subseteq> insert (k, (now, v)) (set (tm_entries m))"
  using evict_for_subset [of k "tm_capacity m"]
  by (fastforce simp: ttl_insert_def Let_def dest!: in_set_update)

lemma holder_get_entries:
  assumes "holder_get_at ex c now nows m = (res, m')"
  shows "set (tm_entries m') \<subseteq> set (tm_entries m)"
    and "res = Some l \<Longrightarrow> l \<noteq> [] \<and> (\<exists>t slate. (c, (t, slate)) \<in> set (tm_entries m) \<and> set l \<subseteq> set slate)"
proof -
  obtain hit m1 where g: "ttl_get c now m = (hit, m1)" by fastforce
  have sub: "set (tm_entries m1) \<subseteq> set (tm_entries m)" using ttl_get_entries [of c now m] g by simp
  show "set (tm_entries m') \<subseteq> set (tm_entries m)"
    using assms g sub
    by (auto simp: holder_get_at_def ttl_remove_def AList.delete_eq Let_def split: option.splits if_splits)
  show "l \<noteq> [] \<and> (\<exists>t slate. (c, (t, slate)) \<in> set (tm_entries m) \<and> set l \<subseteq> set slate)" if "res = Some l"
  proof -
    from assms g that obtain slate where "hit = Some slate" "l = filter (\<lambda>r. \<not> ex r nows) slate" "l \<noteq> []"
      by (auto simp: holder_get_at_def Let_def split: option.splits if_splits)
    moreover from this g obtain t where "map_of (tm_entries m) c = Some (t, slate)"
      by (auto simp: ttl_get_def split: option.splits prod.splits if_splits)
    ultimately show ?thesis by (auto dest: map_of_SomeD)
  qed
qed

lemma first_hand_slate:
  assumes "first_hand_leg X content now s = ((fh, fhc), t, s')" "slates_ok (mx_record_peer X) s"
  shows "\<forall>r \<in> set fh. not_self (mx_record_peer X) (nc_self_peer_id s) r"
    and "slates_ok (mx_record_peer X) s'"
    and "fhc \<Longrightarrow> fh = [] \<Longrightarrow> \<exists>found t1. mx_find X content now = (Some found, t1)
        \<and> (\<forall>r \<in> set found. nc_self_peer_id s = Some (mx_record_peer X r))"
proof -
  let ?q = "not_self (mx_record_peer X) (nc_self_peer_id s)"
  obtain res hc where g: "holder_get_at (mx_is_expired X) content now (mx_unix X now) (nc_holder_cache s) = (res, hc)"
    by fastforce
  have hc: "set (tm_entries hc) \<subseteq> set (tm_entries (nc_holder_cache s))"
    by (rule holder_get_entries(1) [OF g])
  have ok_hc: "slates_ok (mx_record_peer X) (s\<lparr>nc_holder_cache := hc\<rparr>)"
    using assms(2) hc by (fastforce simp: slates_ok_def)
  have *: "(\<forall>r \<in> set fh. ?q r) \<and> slates_ok (mx_record_peer X) s' \<and>
      (fhc \<longrightarrow> fh = [] \<longrightarrow> (\<exists>found t1. mx_find X content now = (Some found, t1)
        \<and> (\<forall>r \<in> set found. nc_self_peer_id s = Some (mx_record_peer X r))))"
  proof (cases res)
    case (Some cached)
    with assms(1) g have "fh = cached" "s' = s\<lparr>nc_holder_cache := hc\<rparr>"
      by (auto simp: first_hand_leg_def)
    moreover obtain t0 slate where "cached \<noteq> []" "(content, (t0, slate)) \<in> set (tm_entries (nc_holder_cache s))"
      "set cached \<subseteq> set slate"
      using holder_get_entries(2) [OF g Some] by blast
    ultimately show ?thesis using assms(2) ok_hc by (fastforce simp: slates_ok_def)
  next
    case None
    obtain w t1 where w: "mx_find X content now = (w, t1)" by fastforce
    show ?thesis
    proof (cases w)
      case None
      with assms(1) g \<open>res = None\<close> w have "fh = []" "\<not> fhc" "s' = s\<lparr>nc_holder_cache := hc\<rparr>"
        by (auto simp: first_hand_leg_def walk_for_providers_def)
      with ok_hc show ?thesis by simp
    next
      case (Some found)
      with assms(1) g \<open>res = None\<close> w
      have fh: "fh = filter ?q found" "s' = s\<lparr>nc_holder_cache := holder_remember content fh t1 hc\<rparr>"
        by (auto simp: first_hand_leg_def walk_for_providers_def retain_excluding_self_filter)
      have "slates_ok (mx_record_peer X) s'"
      proof (cases "fh = []")
        case True
        with fh(2) ok_hc show ?thesis by (simp add: holder_remember_def)
      next
        case False
        have "set (tm_entries (ttl_insert content fh t1 hc)) \<subseteq> insert (content, (t1, fh)) (set (tm_entries hc))"
          by (rule ttl_insert_entries)
        moreover have "\<forall>r \<in> set fh. ?q r" using fh(1) by simp
        ultimately show ?thesis using False fh(2) ok_hc by (fastforce simp: slates_ok_def holder_remember_def)
      qed
      moreover have "fh = [] \<longrightarrow> (\<forall>r \<in> set found. nc_self_peer_id s = Some (mx_record_peer X r))"
        using fh(1) by (auto simp: filter_empty_conv not_self_def)
      ultimately show ?thesis using fh(1) w Some by auto
    qed
  qed
  then show "\<forall>r \<in> set fh. ?q r" "slates_ok (mx_record_peer X) s'" by blast+
  show "\<exists>found t1. mx_find X content now = (Some found, t1)
        \<and> (\<forall>r \<in> set found. nc_self_peer_id s = Some (mx_record_peer X r))" if "fhc" "fh = []"
    using * that by blast
qed

lemma redirect_leg_search:
  assumes "redirect_leg X content budget requestor now s = (outcome, t, s')"
    and "merge_law X" "slates_ok (mx_record_peer X) s"
  shows "outcome = NotFound \<Longrightarrow> REDIRECT_HOP_CAP \<le> budget_used budget \<or>
      (\<exists>found t1. mx_find X content now = (Some found, t1)
          \<and> (\<forall>r \<in> set found. nc_self_peer_id s = Some (mx_record_peer X r)))
      \<and> (\<not> nc_forwarded_ask s \<or> (\<exists>asker hops me pool ok obs t.
           rx_decide (mx_routing X) (nc_config X s) asker hops me pool ok obs t = Refuse Disabled))"
    and "slates_ok (mx_record_peer X) s'"
proof -
  obtain lh t2 s2 where l: "locate_holders X content budget requestor now s = (lh, t2, s2)"
    by (metis prod.exhaust)
  obtain fh fhc t1 s1 fa where p: "first_hand_leg X content now s = ((fh, fhc), t1, s1)"
    "forwarded_holders X content budget requestor t1 s1 = (fa, t2, s2)"
    "lh_records lh = dedup_by_peer_tagged (mx_record_peer X)
       (retain_excluding_self_tagged (mx_record_peer X) (nc_self_peer_id s)
          (mx_merge X (nc_config X s2) fh (fa_records fa)))"
    "lh_conclusive lh \<longleftrightarrow> fhc \<and> fa_conclusive fa" "same_core s s1" "same_core s s2"
    using locate_parts [OF l] by blast
  note fhs = first_hand_slate [OF p(1) assms(3)]
  have "slates_ok (mx_record_peer X) s2"
    using fhs(2) forwarded_frame(1) [OF p(2)] by (simp add: slates_ok_def same_cache_def same_core_def)
  then show "slates_ok (mx_record_peer X) s'"
    using assms(1,3) l by (auto simp: redirect_leg_def Let_def split: if_splits)
  assume nf: "outcome = NotFound"
  show "REDIRECT_HOP_CAP \<le> budget_used budget \<or>
      (\<exists>found t1. mx_find X content now = (Some found, t1)
          \<and> (\<forall>r \<in> set found. nc_self_peer_id s = Some (mx_record_peer X r)))
      \<and> (\<not> nc_forwarded_ask s \<or> (\<exists>asker hops me pool ok obs t.
           rx_decide (mx_routing X) (nc_config X s) asker hops me pool ok obs t = Refuse Disabled))"
  proof (cases "REDIRECT_HOP_CAP \<le> budget_used budget")
    case False
    with nf assms(1) l have e: "lh_records lh = []" "lh_conclusive lh"
      by (auto simp: redirect_leg_def establishes_absence_def lh_is_empty_def split: if_splits)
    obtain a b where "lh_records lh = map (\<lambda>r. (r, FirstHand)) a @ map (\<lambda>r. (r, Hearsay)) b"
      "mx_record_peer X ` set a = mx_record_peer X ` set (filter (not_self (mx_record_peer X) (nc_self_peer_id s)) fh)"
      using merged_records [OF assms(2) p(3)] by metis
    with e(1) fhs(1) have "fh = []" by auto
    moreover have "nc_config X s1 = nc_config X s" "nc_forwarded_ask s1 = nc_forwarded_ask s"
      using p(5) by (simp_all add: nc_config_def same_core_def)
    ultimately show ?thesis
      using e(2) p(4) fhs(3) forwarded_frame(2) [OF p(2)] by auto
  qed simp
qed

section \<open>The limiters along a miss\<close>

lemma allow_proxy_frame:
  assumes "allow_proxy_fetch requestor now s = (ok, s')"
  shows "nc_miss_limiter s' = nc_miss_limiter s" "nc_warms s' = nc_warms s"
    "nc_downloads s' = nc_downloads s"
    "nc_proxy_limiter s' = (if is_local requestor then nc_proxy_limiter s
       else snd (limiter_check requestor now (nc_proxy_limiter s)))"
    "ok \<longleftrightarrow> is_local requestor \<or> fst (limiter_check requestor now (nc_proxy_limiter s))"
  using assms by (auto simp: allow_proxy_fetch_def split: if_splits prod.splits)

lemma miss_limiters:
  assumes "miss_outcome_of X content budget proxy origin requestor now s = (outcome, t, s')"
  shows "nc_miss_limiter s' = snd (limiter_check requestor now (nc_miss_limiter s))"
    and "outcome = RateLimited \<longleftrightarrow> \<not> fst (limiter_check requestor now (nc_miss_limiter s))"
    and "nc_proxy_limiter s' = nc_proxy_limiter s
      \<or> nc_proxy_limiter s' = snd (limiter_check requestor now (nc_proxy_limiter s))"
    and "(\<exists>f. outcome = Fetched f) \<or> nc_downloads s' \<noteq> nc_downloads s \<Longrightarrow> is_local requestor
      \<or> fst (limiter_check requestor now (nc_proxy_limiter s))
        \<and> nc_proxy_limiter s' = snd (limiter_check requestor now (nc_proxy_limiter s))"
proof -
  let ?s1 = "s\<lparr>nc_miss_limiter := snd (limiter_check requestor now (nc_miss_limiter s))\<rparr>"
  have red: "redirect_leg X content budget requestor t2 s3 = (o', t', s4) \<Longrightarrow>
      o' \<noteq> RateLimited \<and> o' \<noteq> Fetched f" for t2 s3 o' t' s4 f
    by (auto simp: redirect_leg_def Let_def split: if_splits prod.splits)
  have *: "nc_miss_limiter s' = snd (limiter_check requestor now (nc_miss_limiter s))
    \<and> (outcome = RateLimited \<longleftrightarrow> \<not> fst (limiter_check requestor now (nc_miss_limiter s)))
    \<and> (nc_proxy_limiter s' = nc_proxy_limiter s
      \<or> nc_proxy_limiter s' = snd (limiter_check requestor now (nc_proxy_limiter s)))
    \<and> ((\<exists>f. outcome = Fetched f) \<or> nc_downloads s' \<noteq> nc_downloads s \<longrightarrow> is_local requestor
      \<or> fst (limiter_check requestor now (nc_proxy_limiter s))
        \<and> nc_proxy_limiter s' = snd (limiter_check requestor now (nc_proxy_limiter s)))"
    using assms
  proof (cases rule: miss_outcome_cases)
    case (fetched s2 g)
    then show ?thesis
      using allow_proxy_frame [OF fetched(3)] fetch_resource_frame(1) [OF fetched(4)]
      by (auto simp: same_limits_def)
  next
    case (redirected s2 t2 s3)
    have "same_limits s2 s'"
      using redirected(3) same_core_limits [OF redirect_leg_frame [OF redirected(4)]]
      by (auto dest: fetch_resource_frame(1) simp: same_limits_def)
    moreover have "nc_downloads s' = nc_downloads s3"
      using redirect_leg_frame [OF redirected(4)] by (simp add: same_core_def)
    moreover have "nc_downloads s2 = nc_downloads s"
      using redirected(2) by (auto simp: allow_proxy_fetch_def split: if_splits prod.splits)
    moreover have "s3 \<noteq> s2 \<Longrightarrow> is_local requestor
        \<or> fst (limiter_check requestor now (nc_proxy_limiter s))
          \<and> nc_proxy_limiter s2 = snd (limiter_check requestor now (nc_proxy_limiter s))"
      using redirected(3) allow_proxy_frame(4,5) by fastforce
    moreover have "nc_miss_limiter s2 = snd (limiter_check requestor now (nc_miss_limiter s))
        \<and> (nc_proxy_limiter s2 = nc_proxy_limiter s
          \<or> nc_proxy_limiter s2 = snd (limiter_check requestor now (nc_proxy_limiter s)))"
      using redirected(2) by (auto simp: allow_proxy_fetch_def split: if_splits prod.splits)
    ultimately show ?thesis
      using red [OF redirected(4)] redirected(1) by (auto simp: same_limits_def)
  qed auto
  then show "nc_miss_limiter s' = snd (limiter_check requestor now (nc_miss_limiter s))"
    "outcome = RateLimited \<longleftrightarrow> \<not> fst (limiter_check requestor now (nc_miss_limiter s))"
    "nc_proxy_limiter s' = nc_proxy_limiter s
      \<or> nc_proxy_limiter s' = snd (limiter_check requestor now (nc_proxy_limiter s))" by blast+
  show "is_local requestor \<or> fst (limiter_check requestor now (nc_proxy_limiter s))
        \<and> nc_proxy_limiter s' = snd (limiter_check requestor now (nc_proxy_limiter s))"
    if "(\<exists>f. outcome = Fetched f) \<or> nc_downloads s' \<noteq> nc_downloads s" using * that by blast
qed

text \<open>A call of the miss path, with the network it meets.\<close>

record ('r, 'o, 'c) miss_call =
  mc_ext :: "('r, 'o, 'c) miss_ext"
  mc_content :: content_id
  mc_budget :: hop_budget
  mc_proxy :: bool
  mc_origin :: read_origin
  mc_requestor :: requestor_id
  mc_now :: nat

definition run_miss :: "('r, 'o, 'c) miss_call \<Rightarrow> ('r, 'o, 'c) node_content \<Rightarrow> 'r MissOutcome \<times> nat \<times> ('r, 'o, 'c) node_content" where
  "run_miss e s = miss_outcome_of (mc_ext e) (mc_content e) (mc_budget e) (mc_proxy e) (mc_origin e)
     (mc_requestor e) (mc_now e) s"

text \<open>
  Gates that count, for one requestor, the searches and the proxied fetches done on its behalf. A fetch
  counts when a download was started for it, whether it delivered, failed or could not be read back,
  and also when it was served out of the cache of earlier downloads.
\<close>

definition search_gate ::
  "requestor_id \<Rightarrow> ('r, 'o, 'c) miss_call \<Rightarrow> ('r, 'o, 'c) node_content \<Rightarrow> bool \<times> ('r, 'o, 'c) node_content"
where
  "search_gate r0 e s = (let (outcome, _, s') = run_miss e s
     in (outcome \<noteq> RateLimited \<and> mc_requestor e = r0, s'))"

definition fetch_gate ::
  "requestor_id \<Rightarrow> ('r, 'o, 'c) miss_call \<Rightarrow> ('r, 'o, 'c) node_content \<Rightarrow> bool \<times> ('r, 'o, 'c) node_content"
where
  "fetch_gate r0 e s = (let (outcome, _, s') = run_miss e s
     in (((\<exists>f. outcome = Fetched f) \<or> nc_downloads s' \<noteq> nc_downloads s) \<and> mc_requestor e = r0, s'))"

interpretation search_meter: metered
  "search_gate r0" mc_now "\<lambda>s. limiter_balance r0 (nc_miss_limiter s)"
  "\<lambda>s t. limiter_ok (nc_miss_limiter s) t \<and> lim_refill_per_sec (nc_miss_limiter s) = rate" "max rate 0"
  for r0 rate
proof unfold_locales
  fix s :: "('r, 'o, 'c) node_content" and t and e :: "('r, 'o, 'c) miss_call"
  assume ok: "limiter_ok (nc_miss_limiter s) t \<and> lim_refill_per_sec (nc_miss_limiter s) = rate"
    and le: "t \<le> mc_now e"
  obtain outcome t' s' where run: "run_miss e s = (outcome, t', s')" by (metis prod.exhaust)
  let ?e = "(mc_requestor e, mc_now e)"
  have lim: "nc_miss_limiter s' = snd (counted_check r0 ?e (nc_miss_limiter s))"
    "outcome \<noteq> RateLimited \<and> mc_requestor e = r0 \<longleftrightarrow> fst (counted_check r0 ?e (nc_miss_limiter s))"
    using miss_limiters(1,2) [OF run [unfolded run_miss_def]] by auto
  have step: "search_gate r0 e s = (fst (counted_check r0 ?e (nc_miss_limiter s)), s')"
    using run lim(2) by (simp add: search_gate_def)
  show "limiter_ok (nc_miss_limiter (snd (search_gate r0 e s))) (mc_now e)
      \<and> lim_refill_per_sec (nc_miss_limiter (snd (search_gate r0 e s))) = rate"
    using limiter_meter.ok_step [of "nc_miss_limiter s" t rate ?e r0] ok le lim(1) step by simp
  show "limiter_balance r0 (nc_miss_limiter (snd (search_gate r0 e s))) (mc_now e)
      + (if fst (search_gate r0 e s) then 1 else 0) \<le> limiter_balance r0 (nc_miss_limiter s) (mc_now e)"
    using limiter_meter.pays [of "nc_miss_limiter s" t rate ?e r0] ok le lim(1) step by simp
next
  fix s :: "('r, 'o, 'c) node_content" and t t'
  assume "limiter_ok (nc_miss_limiter s) t \<and> lim_refill_per_sec (nc_miss_limiter s) = rate" "t \<le> t'"
  then show "limiter_balance r0 (nc_miss_limiter s) t'
      \<le> limiter_balance r0 (nc_miss_limiter s) t + max rate 0 * secs (t' - t)"
    by (intro limiter_meter.accrues) auto
next
  fix s :: "('r, 'o, 'c) node_content" and t
  assume "limiter_ok (nc_miss_limiter s) t \<and> lim_refill_per_sec (nc_miss_limiter s) = rate"
  then show "0 \<le> limiter_balance r0 (nc_miss_limiter s) t" by (intro limiter_meter.nonneg) auto
qed

lemma fetch_gate_check:
  assumes "run_miss e s = (outcome, t, s')" "\<not> is_local r0"
  shows "nc_proxy_limiter s' = nc_proxy_limiter s
      \<or> nc_proxy_limiter s' = snd (counted_check r0 (mc_requestor e, mc_now e) (nc_proxy_limiter s))"
    and "fst (fetch_gate r0 e s) \<Longrightarrow> fst (counted_check r0 (mc_requestor e, mc_now e) (nc_proxy_limiter s))
      \<and> nc_proxy_limiter s' = snd (counted_check r0 (mc_requestor e, mc_now e) (nc_proxy_limiter s))"
    and "snd (fetch_gate r0 e s) = s'"
  using miss_limiters(3,4) [OF assms(1) [unfolded run_miss_def]] assms
  by (auto simp: fetch_gate_def)

interpretation fetch_meter: metered
  "fetch_gate (Peer i0)" mc_now "\<lambda>s. limiter_balance (Peer i0) (nc_proxy_limiter s)"
  "\<lambda>s t. limiter_ok (nc_proxy_limiter s) t \<and> lim_refill_per_sec (nc_proxy_limiter s) = rate" "max rate 0"
  for i0 rate
proof unfold_locales
  fix s :: "('r, 'o, 'c) node_content" and t and e :: "('r, 'o, 'c) miss_call"
  assume ok: "limiter_ok (nc_proxy_limiter s) t \<and> lim_refill_per_sec (nc_proxy_limiter s) = rate"
    and le: "t \<le> mc_now e"
  obtain outcome t' s' where run: "run_miss e s = (outcome, t', s')" by (metis prod.exhaust)
  let ?e = "(mc_requestor e, mc_now e)"
  have "\<not> is_local (Peer i0)" by (simp add: is_local_def)
  note fg = fetch_gate_check [OF run this]
  show "limiter_ok (nc_proxy_limiter (snd (fetch_gate (Peer i0) e s))) (mc_now e)
      \<and> lim_refill_per_sec (nc_proxy_limiter (snd (fetch_gate (Peer i0) e s))) = rate"
    using fg(1) limiter_meter.ok_step [of "nc_proxy_limiter s" t rate ?e "Peer i0"] ok le
    unfolding fg(3) by (auto intro: limiter_ok_mono)
  show "limiter_balance (Peer i0) (nc_proxy_limiter (snd (fetch_gate (Peer i0) e s))) (mc_now e)
      + (if fst (fetch_gate (Peer i0) e s) then 1 else 0)
      \<le> limiter_balance (Peer i0) (nc_proxy_limiter s) (mc_now e)"
    using fg(1,2) limiter_meter.pays [of "nc_proxy_limiter s" t rate ?e "Peer i0"] ok le
    unfolding fg(3) by (auto split: if_splits)
next
  fix s :: "('r, 'o, 'c) node_content" and t t'
  assume "limiter_ok (nc_proxy_limiter s) t \<and> lim_refill_per_sec (nc_proxy_limiter s) = rate" "t \<le> t'"
  then show "limiter_balance (Peer i0) (nc_proxy_limiter s) t'
      \<le> limiter_balance (Peer i0) (nc_proxy_limiter s) t + max rate 0 * secs (t' - t)"
    by (intro limiter_meter.accrues) auto
next
  fix s :: "('r, 'o, 'c) node_content" and t
  assume "limiter_ok (nc_proxy_limiter s) t \<and> lim_refill_per_sec (nc_proxy_limiter s) = rate"
  then show "0 \<le> limiter_balance (Peer i0) (nc_proxy_limiter s) t" by (intro limiter_meter.nonneg) auto
qed

text \<open>A caller that follows redirects, echoing the depth each answer gave it.\<close>

inductive redirect_run :: "('r, 'o, 'c) node_content itself \<Rightarrow> nat \<Rightarrow> nat \<Rightarrow> bool" for T where
  start: "redirect_run T 0 0"
| hop: "redirect_run T n d \<Longrightarrow> budget_used budget = d \<Longrightarrow>
    miss_outcome X content budget proxy origin requestor now (engine :: ('r, 'o, 'c) node_content option)
      = (RedirectTo ps d', t, engine') \<Longrightarrow> redirect_run T (Suc n) d'"

inductive_cases redirect_run_SucE: "redirect_run T (Suc n) d"

lemma miss_outcome_redirect:
  assumes "miss_outcome X content budget proxy origin requestor now engine = (RedirectTo ps d, t, engine')"
  shows "d = Suc (budget_used budget) \<and> budget_used budget < REDIRECT_HOP_CAP"
proof -
  obtain s s' where "miss_outcome_of X content budget proxy origin requestor now s = (RedirectTo ps d, t, s')"
    using assms by (auto simp: miss_outcome_def split: option.splits prod.splits)
  then show ?thesis
  proof (cases rule: miss_outcome_cases)
    case (redirected s2 t2 s3)
    then show ?thesis by (auto simp: redirect_leg_def Let_def split: if_splits prod.splits)
  qed simp_all
qed

text \<open>The whole-capsule pulls a miss may start.\<close>

lemma miss_outcome_warms:
  assumes "miss_outcome_of X content budget proxy origin requestor now s = (outcome, t, s')"
    and "nc_warms s' \<noteq> nc_warms s"
  shows "origin = OriginLocal \<and> (\<exists>f. outcome = Fetched f) \<and> nc_warms s' = nc_warms s @
    [(hx_encode (mx_hex X) (ci_store content), hx_encode (mx_hex X) (ci_root content))]"
  using assms(1)
proof (cases rule: miss_outcome_cases)
  case limited
  with assms(2) show ?thesis by simp
next
  case (fetched s2 f)
  have "nc_warms s2 = nc_warms s" using allow_proxy_frame(2) [OF fetched(3)] by simp
  with fetch_resource_frame(2) [OF fetched(4)] assms(2) fetched(5) show ?thesis by auto
next
  case (redirected s2 t2 s3)
  have "nc_warms s2 = nc_warms s"
    using redirected(2) allow_proxy_frame(2) by fastforce
  moreover have "nc_warms s3 = nc_warms s2" using redirected(3) fetch_resource_frame(2) by fastforce
  moreover have "nc_warms s' = nc_warms s3"
    using redirect_leg_frame [OF redirected(4)] by (simp add: same_core_def)
  ultimately show ?thesis using assms(2) by simp
qed

end
