(* ===== verification/Miss_Correct.thy ===== *)
theory Miss_Correct
  imports Miss_Facts
begin

text \<open>
  The properties of the miss path, with the small network their witnesses are evaluated on.
\<close>

section \<open>A small network, for evaluation\<close>

text \<open>
  Records are peer names; the walk finds the given ones, nobody answers an ask, a download brings one
  byte, and recursion is switched off.
\<close>

definition sample_routing :: "unit routing_ext" where
  "sample_routing = \<lparr>rx_retain = (\<lambda>_ x. x), rx_record = (\<lambda>_ _ _ _ x. x),
     rx_decide = (\<lambda>_ _ _ _ _ _ _ _. Refuse Disabled)\<rparr>"

definition sample_miss :: "string list option \<Rightarrow> (string, unit, nat) miss_ext" where
  "sample_miss found = \<lparr>mx_hex = base16, mx_record_peer = (\<lambda>r. r), mx_is_expired = (\<lambda>_ _. False),
     mx_unix = (\<lambda>t. t), mx_find = (\<lambda>c t. (found, t)),
     mx_ask = (\<lambda>_ _ _ _ _ _ t. (Unreachable, t)),
     mx_download = (\<lambda>c t. (Downloaded ''x'' 1 [1] None None, t)), mx_download_key = ci_store,
     mx_merge = (\<lambda>_ mine theirs. map (\<lambda>r. (r, FirstHand)) mine @ map (\<lambda>r. (r, Hearsay)) theirs),
     mx_conduct = sample_conduct, mx_routing = sample_routing,
     mx_default_config = \<lparr>rc_enabled = False, rc_hop_cap = 2, rc_fan_out = 3\<rparr>\<rparr>"

definition sample_engine :: "(string, unit, nat) node_content" where
  "sample_engine = \<lparr>nc_self_peer_id = Some ''me'', nc_miss_mode = Redirect, nc_pool = [],
     nc_miss_limiter = limiter_with_defaults, nc_proxy_limiter = limiter_with_proxy_defaults,
     nc_relay_limiter = limiter_with_relay_defaults, nc_forwarded_ask = False,
     nc_recursion_config = None, nc_free_slots = 32, nc_holder_cache = holder_cache_new,
     nc_ask_seen = ask_seen_new MAX_FORWARDED_ASK_BUDGET, nc_observations = (), nc_conduct = [],
     nc_fetched = [], nc_backfill = True, nc_warmer = True, nc_warms = [],
     nc_downloads = []\<rparr>"

lemma sample_merge_law: "merge_law (sample_miss found)"
  unfolding merge_law_def sample_miss_def by auto

lemma sample_slates_ok: "slates_ok peer_of sample_engine"
  by (simp add: slates_ok_def sample_engine_def holder_cache_new_def ttl_new_def)

lemma fresh_admits: "1 \<le> cap \<Longrightarrow> fst (limiter_check r now (limiter_new cap rate))"
  by (simp add: limiter_check_def limiter_new_def MAX_TRACKED_REQUESTORS_def token_bucket_new_def
      try_acquire_def refill_def Let_def secs_def)

lemma sample_miss_admitted:
  "fst (limiter_check r now (nc_miss_limiter sample_engine))"
  "fst (limiter_check r now (nc_proxy_limiter sample_engine))"
  by (simp_all add: sample_engine_def limiter_with_defaults_def limiter_with_proxy_defaults_def
      fresh_admits DEFAULT_MISS_LOOKUP_BURST_def DEFAULT_PROXY_FETCH_BURST_def)

lemma sample_first_hand:
  "first_hand_leg (sample_miss (Some found)) content now (sample_engine\<lparr>nc_miss_limiter := l\<rparr>) =
     ((filter (\<lambda>r. r \<noteq> ''me'') found, True), now,
      sample_engine\<lparr>nc_miss_limiter := l, nc_holder_cache :=
        holder_remember content (filter (\<lambda>r. r \<noteq> ''me'') found) now holder_cache_new\<rparr>)"
  by (simp add: first_hand_leg_def sample_engine_def sample_miss_def holder_get_at_def ttl_get_def
      holder_cache_new_def ttl_new_def walk_for_providers_def retain_excluding_self_def)

lemma sample_redirect_leg:
  "fst (redirect_leg (sample_miss (Some found)) content (hop_budget_fresh i) r now
      (sample_engine\<lparr>nc_miss_limiter := l\<rparr>)) =
     (if filter (\<lambda>r. r \<noteq> ''me'') found = [] then NotFound
      else RedirectTo (dedup_from (\<lambda>r. r) {} (filter (\<lambda>r. r \<noteq> ''me'') found)) 1)"
proof -
  let ?f = "filter (\<lambda>r. r \<noteq> ''me'') found"
  have tag: "dedup_from (\<lambda>(r, _). r) seen (map (\<lambda>r. (r, FirstHand)) xs)
      = map (\<lambda>r. (r, FirstHand)) (dedup_from (\<lambda>r. r) seen xs)" for seen and xs :: "string list"
    by (induction xs arbitrary: seen) auto
  have ne: "dedup_from (\<lambda>r. r) {} ?f = [] \<longleftrightarrow> ?f = []"
    using dedup_from_keys [of "\<lambda>r. r" "{}" ?f] by (metis Diff_empty image_ident set_empty)
  have "lh_records (fst (locate_holders (sample_miss (Some found)) content (hop_budget_fresh i) r now
      (sample_engine\<lparr>nc_miss_limiter := l\<rparr>))) = map (\<lambda>r. (r, FirstHand)) (dedup_from (\<lambda>r. r) {} ?f)
    \<and> lh_conclusive (fst (locate_holders (sample_miss (Some found)) content (hop_budget_fresh i) r now
      (sample_engine\<lparr>nc_miss_limiter := l\<rparr>)))"
    by (simp add: locate_holders_def sample_first_hand forwarded_holders_def recursion_disabled_def)
       (simp add: sample_engine_def sample_miss_def dedup_by_peer_tagged_def retain_excluding_self_tagged_def
         filter_map comp_def tag)
  with ne show ?thesis
    by (simp add: redirect_leg_def hop_budget_fresh_def budget_used_def unwrap_or_def REDIRECT_HOP_CAP_def
        lh_is_empty_def establishes_absence_def into_candidates_def case_prod_beta Let_def comp_def)
qed

lemma sample_miss_outcome:
  "fst (miss_outcome (sample_miss (Some found)) content (hop_budget_fresh i) False origin r now (Some sample_engine)) =
     (if filter (\<lambda>r. r \<noteq> ''me'') found = [] then NotFound
      else RedirectTo (dedup_from (\<lambda>r. r) {} (filter (\<lambda>r. r \<noteq> ''me'') found)) 1)"
proof -
  have "nc_miss_mode sample_engine = Redirect" by (simp add: sample_engine_def)
  then show ?thesis
    using sample_redirect_leg [of found content i r now] sample_miss_admitted(1) [of r now]
    by (simp add: miss_outcome_def miss_outcome_of_def case_prod_beta Let_def)
qed

text \<open>The same network, where every download fails.\<close>

definition failing_miss :: "(string, unit, nat) miss_ext" where
  "failing_miss = (sample_miss None)\<lparr>mx_download := (\<lambda>c t. (DownloadFailed, t))\<rparr>"

lemma failing_fetch:
  "fetch_resource failing_miss content origin now s =
     (if map_of (nc_fetched s) (ci_store content) = None
      then (None, now, forget_stale_discovery content (s\<lparr>nc_downloads := nc_downloads s @ [content]\<rparr>))
      else (map_of (nc_fetched s) (ci_store content), now, s))"
  by (auto simp: fetch_resource_def failing_miss_def sample_miss_def Let_def split: option.splits)

lemma failing_download_logged:
  assumes "miss_outcome_of failing_miss content budget True origin requestor now sample_engine = (outcome, t, s')"
  shows "nc_downloads s' = [content]"
proof -
  define s1 where "s1 = sample_engine\<lparr>nc_miss_limiter :=
    snd (limiter_check requestor now (nc_miss_limiter sample_engine))\<rparr>"
  obtain ok s2 where al: "allow_proxy_fetch requestor now s1 = (ok, s2)" by fastforce
  have s1: "nc_proxy_limiter s1 = nc_proxy_limiter sample_engine" "nc_downloads s1 = []" "nc_fetched s1 = []"
    by (simp_all add: s1_def sample_engine_def)
  have s2: "ok" "nc_downloads s2 = []" "nc_fetched s2 = []"
    using allow_proxy_frame(3,5) [OF al] al s1 sample_miss_admitted(2) [of requestor now]
    by (auto simp: allow_proxy_fetch_def split: if_splits prod.splits)
  obtain t3 s3 where fe: "fetch_resource failing_miss content origin now s2 = (None, t3, s3)"
    and d3: "nc_downloads s3 = [content]"
    using s2 by (auto simp: failing_fetch forget_stale_discovery_def)
  have "redirect_leg failing_miss content budget requestor t3 s3 = (outcome, t, s')"
    using assms al fe s2(1) sample_miss_admitted(1) [of requestor now]
    by (simp add: miss_outcome_of_def case_prod_beta Let_def s1_def)
  from redirect_leg_frame [OF this] d3 show ?thesis by (simp add: same_core_def)
qed

section \<open>Properties\<close>

text \<open>
  C1: an absence is only ever asserted from this node's own completed search. When the miss path
  answers not-found below the hop cap, the node's own DHT walk completed and found nobody but, at
  most, this node, and no peer was asked: the forwarded leg is not installed or recursion is switched
  off. A failed walk, a peer that was asked, a refused or saturated forward always give inconclusive.
\<close>

theorem absence_needs_own_search:
  assumes "merge_law X" "slates_ok (mx_record_peer X) s"
    and "miss_outcome X content budget proxy origin requestor now (Some s) = (NotFound, t, s')"
  shows "REDIRECT_HOP_CAP \<le> budget_used budget \<or>
      (\<exists>t0 found t1. mx_find X content t0 = (Some found, t1)
          \<and> (\<forall>r \<in> set found. nc_self_peer_id s = Some (mx_record_peer X r)))
      \<and> (\<not> nc_forwarded_ask s \<or> (\<exists>asker hops me pool ok obs t.
           rx_decide (mx_routing X) (nc_config X s) asker hops me pool ok obs t = Refuse Disabled))"
proof -
  obtain s4 where "miss_outcome_of X content budget proxy origin requestor now s = (NotFound, t, s4)"
    using assms(3) by (auto simp: miss_outcome_def split: prod.splits)
  then show ?thesis
  proof (cases rule: miss_outcome_cases)
    case (redirected s2 t2 s3)
    have "nc_self_peer_id s2 = nc_self_peer_id s" "nc_forwarded_ask s2 = nc_forwarded_ask s"
      "nc_recursion_config s2 = nc_recursion_config s" "nc_holder_cache s2 = nc_holder_cache s"
      using redirected(2) by (auto simp: allow_proxy_fetch_def split: if_splits prod.splits)
    moreover have "nc_self_peer_id s3 = nc_self_peer_id s2" "nc_forwarded_ask s3 = nc_forwarded_ask s2"
      "nc_recursion_config s3 = nc_recursion_config s2"
      "set (tm_entries (nc_holder_cache s3)) \<subseteq> set (tm_entries (nc_holder_cache s2))"
      using redirected(3)
      by (auto simp: fetch_resource_def Let_def forget_stale_discovery_def holder_forget_def
          ttl_remove_def AList.delete_eq split: option.splits download_result.splits prod.splits)
    ultimately have s3: "slates_ok (mx_record_peer X) s3" "nc_config X s3 = nc_config X s"
      "nc_self_peer_id s3 = nc_self_peer_id s" "nc_forwarded_ask s3 = nc_forwarded_ask s"
      using assms(2) by (fastforce simp: slates_ok_def nc_config_def)+
    show ?thesis
      using redirect_leg_search(1) [OF redirected(4) assms(1) s3(1) refl] unfolding s3(2-4) by blast
  qed simp_all
qed

theorem absence_needs_own_search_witness:
  "fst (miss_outcome (sample_miss (Some [''me''])) (Store []) (hop_budget_fresh []) False OriginPeer
      (Peer ''x'') 5 (Some sample_engine)) = NotFound
   \<and> (\<exists>t0 found t1. mx_find (sample_miss (Some [''me''])) (Store []) t0 = (Some found, t1))"
proof -
  let ?X = "sample_miss (Some [''me''])" let ?b = "hop_budget_fresh []"
  have run: "fst (miss_outcome ?X (Store []) ?b False OriginPeer (Peer ''x'') 5 (Some sample_engine)) = NotFound"
    by (simp add: sample_miss_outcome)
  then obtain t s' where "miss_outcome ?X (Store []) ?b False OriginPeer (Peer ''x'') 5 (Some sample_engine)
      = (NotFound, t, s')" by (metis prod.collapse)
  from absence_needs_own_search [OF sample_merge_law sample_slates_ok this]
  have "\<exists>t0 found t1. mx_find ?X (Store []) t0 = (Some found, t1)"
    by (auto simp: REDIRECT_HOP_CAP_def hop_budget_fresh_def budget_used_def unwrap_or_def)
  with run show ?thesis by simp
qed

text \<open>
  C2: what one remote peer can make this node spend. Over any history of misses, by any requestors,
  with any content and whatever the network answers, the searches done for one peer are at most its
  lookup burst plus the refill of the elapsed time (16 and 4 a second by default). The fetches done for
  it are at most its proxy burst plus that refill (4 and 1 a second by default), where a fetch is every
  download started for it, those that fail or cannot be read back included, and every resource it is
  served out of the cache of downloads.
\<close>

theorem miss_amplification_bound:
  assumes "nc_miss_limiter s = limiter_with_defaults" "nc_proxy_limiter s = limiter_with_proxy_defaults"
    and "timed_from mc_now t es"
  shows "real (fst (run_gate (search_gate (Peer i)) es s)) \<le> 16 + 4 * secs (last_time mc_now t es - t)
    \<and> real (fst (run_gate (fetch_gate (Peer i)) es s)) \<le> 4 + 1 * secs (last_time mc_now t es - t)"
proof
  have bal: "limiter_balance (Peer i) (limiter_new cap rate) t = max cap 0" for cap rate
    by (simp add: limiter_balance_def limiter_new_def)
  show "real (fst (run_gate (search_gate (Peer i)) es s)) \<le> 16 + 4 * secs (last_time mc_now t es - t)"
    using search_meter.run_bound [of s t 4 es "Peer i"] assms bal [of 16 4]
    by (simp add: limiter_with_defaults_def DEFAULT_MISS_LOOKUP_BURST_def
        DEFAULT_MISS_LOOKUP_REFILL_PER_SEC_def limiter_ok_new) (simp add: limiter_new_def)
  show "real (fst (run_gate (fetch_gate (Peer i)) es s)) \<le> 4 + 1 * secs (last_time mc_now t es - t)"
    using fetch_meter.run_bound [of s t 1 es i] assms bal [of 4 1]
    by (simp add: limiter_with_proxy_defaults_def DEFAULT_PROXY_FETCH_BURST_def
        DEFAULT_PROXY_FETCH_REFILL_PER_SEC_def limiter_ok_new) (simp add: limiter_new_def)
qed

theorem miss_amplification_bound_witness:
  "\<exists>e. timed_from mc_now 3 [e] \<and> fst (run_gate (fetch_gate (Peer ''a'')) [e] sample_engine) = 1
     \<and> real (fst (run_gate (fetch_gate (Peer ''a'')) [e] sample_engine)) \<le> 4
     \<and> real (fst (run_gate (search_gate (Peer ''a'')) [e] sample_engine)) \<le> 16"
proof -
  define e where "e = \<lparr>mc_ext = failing_miss, mc_content = Store [], mc_budget = hop_budget_fresh [],
    mc_proxy = True, mc_origin = OriginPeer, mc_requestor = Peer ''a'', mc_now = 3\<rparr>"
  have lim: "nc_miss_limiter sample_engine = limiter_with_defaults"
    "nc_proxy_limiter sample_engine = limiter_with_proxy_defaults" "nc_downloads sample_engine = []"
    by (simp_all add: sample_engine_def)
  have e: "timed_from mc_now 3 [e]" "mc_requestor e = Peer ''a''" "last_time mc_now 3 [e] = 3"
    by (simp_all add: e_def)
  obtain outcome t s' where run: "run_miss e sample_engine = (outcome, t, s')" by (metis prod.exhaust)
  then have "nc_downloads s' = [Store []]"
    by (intro failing_download_logged [of "Store []" "hop_budget_fresh []" OriginPeer "Peer ''a''" 3 outcome t])
       (simp add: run_miss_def e_def)
  with run e(2) lim(3) have "fst (run_gate (fetch_gate (Peer ''a'')) [e] sample_engine) = 1"
    by (simp add: fetch_gate_def)
  with miss_amplification_bound [OF lim(1,2) e(1), of "''a''"] e show ?thesis by (intro exI [of _ e]) simp
qed

text \<open>
  an over-budget requestor costs nothing. The outcome is rate-limited exactly when the requestor's
  own lookup bucket refuses; then the answer is immediate and nothing but that limiter has changed,
  whatever the externals would have done.
\<close>

theorem rate_limited_first:
  assumes "miss_outcome_of X content budget proxy origin requestor now s = (outcome, t, s')"
  shows "(outcome = RateLimited \<longleftrightarrow> \<not> fst (limiter_check requestor now (nc_miss_limiter s)))
    \<and> (outcome = RateLimited \<longrightarrow> t = now
        \<and> s' = s\<lparr>nc_miss_limiter := snd (limiter_check requestor now (nc_miss_limiter s))\<rparr>)"
proof -
  note lim = miss_limiters(2) [OF assms]
  show ?thesis
    using assms
  proof (cases rule: miss_outcome_cases)
    case limited
    then show ?thesis by simp
  next
    case (fetched s2 f)
    then show ?thesis by simp
  next
    case (redirected s2 t2 s3)
    then show ?thesis using lim by blast
  qed
qed

theorem rate_limited_first_witness:
  "fst (miss_outcome_of (sample_miss None) (Store []) (hop_budget_fresh []) False OriginPeer (Peer ''x'') 5
     (sample_engine\<lparr>nc_miss_limiter := limiter_new 0 0\<rparr>)) = RateLimited"
proof -
  let ?s = "sample_engine\<lparr>nc_miss_limiter := limiter_new 0 0\<rparr>"
  obtain outcome t s' where run: "miss_outcome_of (sample_miss None) (Store []) (hop_budget_fresh []) False
      OriginPeer (Peer ''x'') 5 ?s = (outcome, t, s')" by (metis prod.exhaust)
  have "\<not> fst (limiter_check (Peer ''x'') 5 (nc_miss_limiter ?s))"
    by (simp add: limiter_check_def limiter_new_def MAX_TRACKED_REQUESTORS_def token_bucket_new_def
        try_acquire_def refill_def Let_def)
  with rate_limited_first [OF run] run show ?thesis by simp
qed

text \<open>
  C4: a redirect names holders this node may stand behind. It names at least one and never this node
  itself, each peer once; every first-hand holder is named, and named before any holder that peers
  only told us about, so hearsay can never push one out; and the depth it hands on is one more than
  the request's and within the cap.
\<close>

theorem redirect_names_holders:
  assumes "merge_law X" "slates_ok (mx_record_peer X) s"
    and "redirect_leg X content budget requestor now s = (RedirectTo ps d, t, s')"
    and "first_hand_leg X content now s = ((fh, fhc), t1, s1)"
  shows "ps \<noteq> [] \<and> d = budget_used budget + 1 \<and> d \<le> REDIRECT_HOP_CAP
    \<and> distinct (map (mx_record_peer X) ps)
    \<and> (\<forall>r \<in> set ps. nc_self_peer_id s \<noteq> Some (mx_record_peer X r))
    \<and> (\<exists>a b. ps = a @ b \<and> set a \<subseteq> set fh \<and> mx_record_peer X ` set a = mx_record_peer X ` set fh)"
proof -
  obtain lh where l: "locate_holders X content budget requestor now s = (lh, t, s')"
    and ps: "ps = into_candidates lh" "lh_records lh \<noteq> []" "d = budget_used budget + 1"
      "budget_used budget < REDIRECT_HOP_CAP"
    using assms(3) by (auto simp: redirect_leg_def Let_def lh_is_empty_def split: if_splits prod.splits)
  obtain fa where rec: "lh_records lh = dedup_by_peer_tagged (mx_record_peer X)
       (retain_excluding_self_tagged (mx_record_peer X) (nc_self_peer_id s)
          (mx_merge X (nc_config X s') fh fa))"
    using locate_parts [OF l] assms(4) by (metis Pair_inject)
  obtain a b where ab: "lh_records lh = map (\<lambda>r. (r, FirstHand)) a @ map (\<lambda>r. (r, Hearsay)) b"
    "set a \<subseteq> set fh"
    "mx_record_peer X ` set a = mx_record_peer X ` set (filter (not_self (mx_record_peer X) (nc_self_peer_id s)) fh)"
    "distinct (map (mx_record_peer X) (a @ b))"
    "\<forall>r \<in> set (a @ b). not_self (mx_record_peer X) (nc_self_peer_id s) r"
    using merged_records [OF assms(1) rec] by metis
  have "filter (not_self (mx_record_peer X) (nc_self_peer_id s)) fh = fh"
    using first_hand_slate(1) [OF assms(4,2)] by simp
  moreover have "ps = a @ b" using ps(1) ab(1) by (simp add: into_candidates_def comp_def)
  ultimately show ?thesis using ab ps by (auto simp: not_self_def)
qed

theorem redirect_names_holders_witness:
  "\<exists>ps d. fst (redirect_leg (sample_miss (Some [''a'', ''me'', ''b'', ''a''])) (Store []) (hop_budget_fresh [])
      (Peer ''x'') 5 (sample_engine\<lparr>nc_miss_limiter := limiter_with_defaults\<rparr>)) = RedirectTo ps d
    \<and> distinct ps \<and> ''me'' \<notin> set ps \<and> {''a'', ''b''} \<subseteq> set ps \<and> d = 1"
proof -
  let ?X = "sample_miss (Some [''a'', ''me'', ''b'', ''a''])" let ?c = "Store []"
  let ?s = "sample_engine\<lparr>nc_miss_limiter := limiter_with_defaults\<rparr>"
  obtain ps d where out: "fst (redirect_leg ?X ?c (hop_budget_fresh []) (Peer ''x'') 5 ?s) = RedirectTo ps d"
    unfolding sample_redirect_leg by simp
  then obtain t s' where leg: "redirect_leg ?X ?c (hop_budget_fresh []) (Peer ''x'') 5 ?s = (RedirectTo ps d, t, s')"
    by (metis prod.collapse)
  have ok: "slates_ok (mx_record_peer ?X) ?s"
    using sample_slates_ok by (simp add: slates_ok_def)
  have peer: "mx_record_peer ?X = (\<lambda>r. r)" "nc_self_peer_id ?s = Some ''me''"
    by (simp_all add: sample_miss_def sample_engine_def)
  from redirect_names_holders [OF sample_merge_law ok leg sample_first_hand]
  show ?thesis using out
    by (intro exI [of _ ps] exI [of _ d])
       (auto simp: peer hop_budget_fresh_def budget_used_def unwrap_or_def)
qed

text \<open>
  C6: redirects end. However many nodes a caller is sent through, each in whatever state and with
  whatever network, as long as it echoes the depth it was given it is redirected at most
  \<open>REDIRECT_HOP_CAP\<close> times, and the depth it carries counts the redirects.
\<close>

theorem redirects_end:
  assumes "redirect_run T n d"
  shows "d = n \<and> n \<le> REDIRECT_HOP_CAP"
  using assms
proof (induction rule: redirect_run.induct)
  case (hop n d budget X content proxy origin requestor now engine ps d' t engine')
  then show ?case using miss_outcome_redirect [OF hop.hyps(3)] by simp
qed simp

theorem redirects_end_witness:
  "\<exists>d. redirect_run TYPE((string, unit, nat) node_content) 1 d \<and> d = 1"
proof -
  have "fst (miss_outcome (sample_miss (Some [''p''])) (Store []) (hop_budget_fresh []) False OriginPeer
      (Peer ''x'') 5 (Some sample_engine)) = RedirectTo [''p''] 1"
    by (simp add: sample_miss_outcome)
  then obtain t e where "miss_outcome (sample_miss (Some [''p''])) (Store []) (hop_budget_fresh []) False OriginPeer
      (Peer ''x'') 5 (Some sample_engine) = (RedirectTo [''p''] 1, t, e)" by (metis prod.collapse)
  then have "redirect_run TYPE((string, unit, nat) node_content) (Suc 0) 1"
    by (intro redirect_run.hop [OF redirect_run.start])
       (simp_all add: hop_budget_fresh_def budget_used_def unwrap_or_def)
  with redirects_end [OF this] show ?thesis by auto
qed

text \<open>
  The engine's own part in making this node a holder: a miss it answers starts a whole-capsule pull only for a read of
  local origin that was served from other nodes; it starts one at most, for exactly the store and root of
  the content that was read. What the handlers around it start is the subject of \<open>Landing\<close>.
\<close>

lemma reshare_only_local:
  assumes "miss_outcome X content budget proxy origin requestor now (Some s) = (outcome, t, Some s')"
  shows "nc_warms s' = nc_warms s
    \<or> origin = OriginLocal \<and> (\<exists>f. outcome = Fetched f) \<and> nc_warms s' = nc_warms s @
        [(hx_encode (mx_hex X) (ci_store content), hx_encode (mx_hex X) (ci_root content))]"
proof -
  have "miss_outcome_of X content budget proxy origin requestor now s = (outcome, t, s')"
    using assms by (auto simp: miss_outcome_def split: prod.splits)
  from miss_outcome_warms [OF this] show ?thesis by blast
qed

end
