(* ===== verification/Landing.thy ===== *)
theory Landing
  imports Request Inbound_Demand Subscription
begin

text \<open>
  How a whole capsule gets onto the disk of a node, and whose it counts as. A read that another node answered,
  a read of content the node does not hold, a push, a stranger's request and a relay all may make
  the node pull a capsule. What tells them apart afterwards is one file: a capsule with a
  \<open><root>.relay\<close> marker beside it is kept for somebody else, and one without is advertised, and the operator's
  money is staked on it.

  \<^item> The claim (\<open>HolderClaim\<close>, \<open>persist_holder_claim\<close>) and the registry of running pulls (\<open>WarmRegistry\<close>) of
    \<open>module_reshare.rs\<close>; the claim a request is entitled to (\<open>holder_claim_for_landing\<close> of \<open>dispatch.rs\<close>).
  \<^item> What starts a pull: \<open>maybe_backfill_capsule\<close> and \<open>spawn_capsule_backfill\<close>, \<open>cache_fetch_and_cache\<close> and
    \<open>land_capsule_bytes\<close> (\<open>capsule_store.rs\<close>), the read path's \<open>sync_module_from\<close> and
    \<open>note_inbound_demand\<close> (\<open>lib.rs\<close>), the reshare of a fetched read and the relay (\<open>module_reshare.rs\<close>,
    \<open>module_relay.rs\<close>).
  \<^item> A pull is a task that other tasks overtake: it begins, its bytes arrive, it writes its claim, it publishes the
    file, and any step of others may fall in between. The lock of the cache is not modelled, so more
    interleavings are allowed here than there. The network, the check against the chain and the file system decide
    which step comes next and whether it succeeds: they are arguments of the steps.
  \<^item> The decision of \<open>dig_sex\<close> whether a capsule is worth acquiring, and its test of the neighbourhood of a key, are
    parameters. The tag of the tier beside a module, and modules of the legacy extension, are left out.
\<close>

section \<open>Capsules and claims\<close>

type_synonym capsule = "string \<times> string"

definition parse_capsule :: "string \<Rightarrow> string \<Rightarrow> capsule option" where
  "parse_capsule store rt =
     (if is_hex64 store \<and> is_hex64 rt then Some (to_ascii_lowercase store, to_ascii_lowercase rt) else None)"

definition capsule_text :: "capsule \<Rightarrow> string" where
  "capsule_text k = fst k @ '':'' @ snd k"

datatype holder_claim = Announce | Suppress

definition holder_claim_for_landing :: "read_origin \<Rightarrow> request_provenance \<Rightarrow> holder_claim" where
  "holder_claim_for_landing origin provenance =
     (case landing_origin origin provenance of OriginLocal \<Rightarrow> Announce | _ \<Rightarrow> Suppress)"

section \<open>The state\<close>

text \<open>
  How a pull ends: \<open>sync_module_from\<close> lands what the upstream served, a warm and a push land the capsule they
  were asked for; the first and the last take their marker back when the write fails.
\<close>

datatype pull_route = ViaSync | ViaWarm | ViaPush

datatype pull_phase = Waiting | Pulling | Marked capsule

record pull =
  pl_capsule :: capsule
  pl_claim :: holder_claim
  pl_key :: "string option"
  pl_route :: pull_route
  pl_phase :: pull_phase

record 'tier landing_state =
  ln_modules :: "capsule list"
  ln_markers :: "capsule list"
  ln_in_flight :: "string list"
  ln_pulls :: "(nat \<times> pull) list"
  ln_next :: nat
  ln_demand :: "'tier inbound_demand"

text \<open>The switches of the node, what it was built with, and the code of other crates.\<close>

record 'tier landing_env =
  le_content :: bool
  le_self :: bool
  le_warmer :: bool
  le_backfill :: bool
  le_onion_relay :: bool
  le_demand_cache :: bool
  le_peer_id :: "string option"
  le_max_concurrent :: nat
  le_hex :: hex_codec
  le_acquire :: "capsule \<Rightarrow> bool \<Rightarrow> capsule list \<Rightarrow> bool"
  le_near :: "string \<Rightarrow> string \<Rightarrow> string \<Rightarrow> bool"
  le_tier1 :: 'tier

definition DEFAULT_MAX_CONCURRENT_WARMS :: nat where "DEFAULT_MAX_CONCURRENT_WARMS = 4"

definition landing_new :: "'tier landing_state" where
  "landing_new = \<lparr>ln_modules = [], ln_markers = [], ln_in_flight = [], ln_pulls = [], ln_next = 0,
     ln_demand = demand_new\<rparr>"

definition module_exists :: "string \<Rightarrow> string \<Rightarrow> 'tier landing_state \<Rightarrow> bool" where
  "module_exists store rt s =
     (case parse_capsule store rt of None \<Rightarrow> False | Some k \<Rightarrow> k \<in> set (ln_modules s))"

section \<open>The registry of running pulls\<close>

definition registry_claim ::
  "'tier landing_env \<Rightarrow> string \<Rightarrow> 'tier landing_state \<Rightarrow> 'tier landing_state option"
where
  "registry_claim E key s =
     (if key \<in> set (ln_in_flight s) then None
      else if length (ln_in_flight s) \<ge> le_max_concurrent E then None
      else Some (s\<lparr>ln_in_flight := key # ln_in_flight s\<rparr>))"

definition in_flight_capsules :: "'tier landing_state \<Rightarrow> capsule list" where
  "in_flight_capsules s =
     List.map_filter (\<lambda>key.
         case dropWhile (\<lambda>c. c \<noteq> CHR '':'') key of
           [] \<Rightarrow> None
         | _ # rt \<Rightarrow> parse_capsule (takeWhile (\<lambda>c. c \<noteq> CHR '':'') key) rt)
       (ln_in_flight s)"

text \<open>A task starts; it ends, and a guard it holds is dropped.\<close>

definition start_pull :: "pull \<Rightarrow> 'tier landing_state \<Rightarrow> 'tier landing_state" where
  "start_pull p s = s\<lparr>ln_pulls := (ln_next s, p) # ln_pulls s, ln_next := Suc (ln_next s)\<rparr>"

definition end_pull :: "nat \<Rightarrow> pull \<Rightarrow> 'tier landing_state \<Rightarrow> 'tier landing_state" where
  "end_pull i p s =
     s\<lparr>ln_pulls := AList.delete i (ln_pulls s),
       ln_in_flight := (case pl_key p of None \<Rightarrow> ln_in_flight s | Some key \<Rightarrow> removeAll key (ln_in_flight s))\<rparr>"

section \<open>The claim on disk\<close>

text \<open>
  A marker that could not be written may have been created all the same (\<open>left\<close>); one that could not be removed
  is still there.
\<close>

definition persist_holder_claim ::
  "capsule \<Rightarrow> holder_claim \<Rightarrow> bool \<Rightarrow> bool \<Rightarrow> 'tier landing_state \<Rightarrow> bool \<times> 'tier landing_state"
where
  "persist_holder_claim k claim ok left s =
     (case claim of
        Suppress \<Rightarrow> (ok, if ok \<or> left then s\<lparr>ln_markers := List.insert k (ln_markers s)\<rparr> else s)
      | Announce \<Rightarrow> (ok, if ok then s\<lparr>ln_markers := removeAll k (ln_markers s)\<rparr> else s))"

section \<open>What starts a pull\<close>

definition spawn_capsule_backfill ::
  "'tier landing_env \<Rightarrow> string \<Rightarrow> string \<Rightarrow> holder_claim \<Rightarrow> 'tier landing_state \<Rightarrow> 'tier landing_state"
where
  "spawn_capsule_backfill E store rt claim s =
     (if \<not> le_content E then s
      else if \<not> le_self E then s
      else case parse_capsule store rt of
        None \<Rightarrow> s
      | Some k \<Rightarrow>
          if \<not> le_acquire E k (module_exists store rt s) (in_flight_capsules s) then s
          else let key = store @ '':'' @ rt in
            (case registry_claim E key s of
               None \<Rightarrow> s
             | Some s1 \<Rightarrow> start_pull \<lparr>pl_capsule = k, pl_claim = claim, pl_key = Some key, pl_route = ViaSync,
                                   pl_phase = Waiting\<rparr> s1))"

definition maybe_backfill_capsule ::
  "'tier landing_env \<Rightarrow> string \<Rightarrow> string \<Rightarrow> read_origin \<Rightarrow> 'tier landing_state \<Rightarrow> 'tier landing_state"
where
  "maybe_backfill_capsule E store rt origin s =
     (if origin \<noteq> OriginLocal then s
      else spawn_capsule_backfill E store rt (holder_claim_for_landing origin FirstParty) s)"

definition inbound_demand_pull_admitted :: "'tier landing_env \<Rightarrow> string \<Rightarrow> string \<Rightarrow> bool" where
  "inbound_demand_pull_admitted E store rt =
     (case le_peer_id E of
        None \<Rightarrow> False
      | Some peer_id \<Rightarrow>
          (case (hex64 (le_hex E) store, hex64 (le_hex E) rt) of
             (Some store_id, Some rt_bytes) \<Rightarrow> le_near E store_id rt_bytes peer_id
           | _ \<Rightarrow> False))"

definition note_inbound_demand ::
  "'tier landing_env \<Rightarrow> string \<Rightarrow> string \<Rightarrow> 'tier landing_state \<Rightarrow> 'tier landing_state"
where
  "note_inbound_demand E store rt s =
     (if \<not> is_hex64 store then s
      else let s1 = s\<lparr>ln_demand := snd (demand_record_op (le_tier1 E) store (ln_demand s))\<rparr>
           in if le_demand_cache E \<and> inbound_demand_pull_admitted E store rt
              then spawn_capsule_backfill E store rt (holder_claim_for_landing OriginPeer FirstParty) s1
              else s1)"

text \<open>The synchronisation of a read that found nothing (\<open>sync_module_from\<close> up to the download).\<close>

definition sync_module ::
  "string \<Rightarrow> string \<Rightarrow> holder_claim \<Rightarrow> 'tier landing_state \<Rightarrow> 'tier landing_state"
where
  "sync_module store rt claim s =
     (case parse_capsule store rt of
        None \<Rightarrow> s
      | Some k \<Rightarrow> start_pull \<lparr>pl_capsule = k, pl_claim = claim, pl_key = None, pl_route = ViaSync,
                            pl_phase = Pulling\<rparr> s)"

definition cache_fetch_and_cache ::
  "string \<Rightarrow> string \<Rightarrow> holder_claim \<Rightarrow> 'tier landing_state \<Rightarrow> 'tier landing_state"
where
  "cache_fetch_and_cache store rt claim s =
     (case parse_capsule store rt of
        None \<Rightarrow> s
      | Some k \<Rightarrow> if k \<in> set (ln_modules s) then s else sync_module store rt claim s)"

definition land_capsule_bytes ::
  "string \<Rightarrow> string \<Rightarrow> holder_claim \<Rightarrow> 'tier landing_state \<Rightarrow> 'tier landing_state"
where
  "land_capsule_bytes store rt claim s =
     (case parse_capsule store rt of
        None \<Rightarrow> s
      | Some k \<Rightarrow>
          if k \<in> set (ln_modules s) then s
          else start_pull \<lparr>pl_capsule = k, pl_claim = claim, pl_key = None, pl_route = ViaPush, pl_phase = Pulling\<rparr> s)"

text \<open>
  A warm. Of a capsule that is there already it only drops the marker, when the node now wants the capsule for itself
  and the marker can be removed (\<open>ok\<close>).
\<close>

definition warm_with_config ::
  "'tier landing_env \<Rightarrow> string \<Rightarrow> string \<Rightarrow> holder_claim \<Rightarrow> bool \<Rightarrow> 'tier landing_state \<Rightarrow> 'tier landing_state"
where
  "warm_with_config E store rt claim ok s =
     (case parse_capsule store rt of
        None \<Rightarrow> s
      | Some k \<Rightarrow>
          if k \<in> set (ln_modules s)
          then (if claim = Announce \<and> k \<in> set (ln_markers s) then snd (persist_holder_claim k claim ok False s) else s)
          else (case registry_claim E (capsule_text k) s of
                  None \<Rightarrow> s
                | Some s1 \<Rightarrow> start_pull \<lparr>pl_capsule = k, pl_claim = claim, pl_key = Some (capsule_text k),
                                      pl_route = ViaWarm, pl_phase = Pulling\<rparr> s1))"

definition reshare_fetched ::
  "'tier landing_env \<Rightarrow> string \<Rightarrow> string \<Rightarrow> read_origin \<Rightarrow> bool \<Rightarrow> 'tier landing_state \<Rightarrow> 'tier landing_state"
where
  "reshare_fetched E store rt origin ok s =
     (if origin \<noteq> OriginLocal \<or> \<not> le_backfill E then s
      else if \<not> le_warmer E then s
      else warm_with_config E store rt Announce ok s)"

definition relay_capsule ::
  "'tier landing_env \<Rightarrow> string \<Rightarrow> string \<Rightarrow> json \<Rightarrow> bool \<Rightarrow> 'tier landing_state \<Rightarrow> 'tier landing_state"
where
  "relay_capsule E store rt params allowed s =
     (if \<not> proxy_requested params then s
      else if \<not> le_content E then s
      else if \<not> le_onion_relay E then s
      else if \<not> le_warmer E then s
      else if \<not> allowed then s
      else warm_with_config E store rt Suppress False s)"

section \<open>The handlers that land, and the steps of a pull\<close>

text \<open>
  What a node is asked, with the transport and the provenance where the handler is given them: a read another node
  answered (the range and content legs), a read synchronised from upstream, \<open>cache.fetchAndCache\<close>, a push whose
  bytes were accepted, a read that was fetched through, a range a peer asked for, a relay.
\<close>

datatype landing_request =
  AnsweredMiss string string read_origin request_provenance
| ContentSync string string read_origin request_provenance
| FetchAndCache string string read_origin request_provenance
| PushedCapsule string string read_origin request_provenance
| FetchedThrough string string read_origin request_provenance bool
| PeerDemand string string
| RelayAsk string string json bool

fun landing_handler ::
  "'tier landing_env \<Rightarrow> landing_request \<Rightarrow> 'tier landing_state \<Rightarrow> 'tier landing_state"
where
  "landing_handler E (AnsweredMiss store rt origin prov) s =
     maybe_backfill_capsule E store rt (landing_origin origin prov) s"
| "landing_handler E (ContentSync store rt origin prov) s =
     sync_module store rt (holder_claim_for_landing origin prov) s"
| "landing_handler E (FetchAndCache store rt origin prov) s =
     cache_fetch_and_cache store rt (holder_claim_for_landing origin prov) s"
| "landing_handler E (PushedCapsule store rt origin prov) s =
     land_capsule_bytes store rt (holder_claim_for_landing origin prov) s"
| "landing_handler E (FetchedThrough store rt origin prov ok) s =
     reshare_fetched E store rt (landing_origin origin prov) ok s"
| "landing_handler E (PeerDemand store rt) s = note_inbound_demand E store rt s"
| "landing_handler E (RelayAsk store rt params allowed) s = relay_capsule E store rt params allowed s"

text \<open>A backfill that gets to run looks once more whether the capsule is there (\<open>gap_fill_generation\<close>).\<close>

definition begin_pull :: "nat \<Rightarrow> 'tier landing_state \<Rightarrow> 'tier landing_state" where
  "begin_pull i s =
     (case map_of (ln_pulls s) i of
        None \<Rightarrow> s
      | Some p \<Rightarrow>
          if pl_phase p \<noteq> Waiting then s
          else if pl_capsule p \<in> set (ln_modules s) then end_pull i p s
          else s\<lparr>ln_pulls := AList.update i (p\<lparr>pl_phase := Pulling\<rparr>) (ln_pulls s)\<rparr>)"

text \<open>A pull that fails, is refused by the chain, panics, or is lost with the process.\<close>

definition fail_pull :: "nat \<Rightarrow> 'tier landing_state \<Rightarrow> 'tier landing_state" where
  "fail_pull i s =
     (case map_of (ln_pulls s) i of
        None \<Rightarrow> s
      | Some p \<Rightarrow> end_pull i p s)"

text \<open>The bytes are there and checked: the claim is written before the file appears.\<close>

definition mark_pull :: "nat \<Rightarrow> string \<Rightarrow> bool \<Rightarrow> bool \<Rightarrow> 'tier landing_state \<Rightarrow> 'tier landing_state" where
  "mark_pull i served ok left s =
     (case map_of (ln_pulls s) i of
        None \<Rightarrow> s
      | Some p \<Rightarrow>
          if pl_phase p \<noteq> Pulling then s
          else case (if pl_route p = ViaSync then parse_capsule (fst (pl_capsule p)) served else Some (pl_capsule p)) of
                 None \<Rightarrow> end_pull i p s
               | Some k \<Rightarrow>
                   (let (wrote, s1) = persist_holder_claim k (pl_claim p) ok left s
                    in if wrote then s1\<lparr>ln_pulls := AList.update i (p\<lparr>pl_phase := Marked k\<rparr>) (ln_pulls s1)\<rparr>
                       else end_pull i p s1))"

text \<open>
  The file is renamed into place, or that fails. A failed \<open>write_atomic\<close> is rolled back by removing the marker,
  which may fail in turn (\<open>undone\<close>); a failed promotion of a warm leaves it.
\<close>

definition publish_pull :: "nat \<Rightarrow> bool \<Rightarrow> bool \<Rightarrow> 'tier landing_state \<Rightarrow> 'tier landing_state" where
  "publish_pull i ok undone s =
     (case map_of (ln_pulls s) i of
        None \<Rightarrow> s
      | Some p \<Rightarrow>
          (case pl_phase p of
             Marked k \<Rightarrow>
               end_pull i p
                 (if ok then s\<lparr>ln_modules := List.insert k (ln_modules s)\<rparr>
                  else if pl_route p = ViaWarm then s
                  else snd (persist_holder_claim k Announce undone False s))
           | _ \<Rightarrow> s))"

text \<open>A module is evicted or removed: first the file goes, then the marker beside it.\<close>

definition unlink_module :: "capsule \<Rightarrow> 'tier landing_state \<Rightarrow> 'tier landing_state" where
  "unlink_module k s = s\<lparr>ln_modules := removeAll k (ln_modules s)\<rparr>"

definition discard_relay_marker_beside :: "capsule \<Rightarrow> 'tier landing_state \<Rightarrow> 'tier landing_state" where
  "discard_relay_marker_beside k s = s\<lparr>ln_markers := removeAll k (ln_markers s)\<rparr>"

datatype landing_act =
  Ask landing_request
| BeginPull nat
| FailPull nat
| MarkPull nat string bool bool
| PublishPull nat bool bool
| Unlink capsule
| Discard capsule

fun landing_step :: "'tier landing_env \<Rightarrow> landing_act \<Rightarrow> 'tier landing_state \<Rightarrow> 'tier landing_state" where
  "landing_step E (Ask r) s = landing_handler E r s"
| "landing_step E (BeginPull i) s = begin_pull i s"
| "landing_step E (FailPull i) s = fail_pull i s"
| "landing_step E (MarkPull i served ok left) s = mark_pull i served ok left s"
| "landing_step E (PublishPull i ok undone) s = publish_pull i ok undone s"
| "landing_step E (Unlink k) s = unlink_module k s"
| "landing_step E (Discard k) s = discard_relay_marker_beside k s"

fun landing_run :: "'tier landing_env \<Rightarrow> landing_act list \<Rightarrow> 'tier landing_state \<Rightarrow> 'tier landing_state" where
  "landing_run E [] s = s"
| "landing_run E (a # as) s = landing_run E as (landing_step E a s)"

section \<open>Whose a capsule is\<close>

text \<open>A request the operator made: over a local transport, and not on behalf of a page from elsewhere.\<close>

fun first_party :: "landing_request \<Rightarrow> bool" where
  "first_party (AnsweredMiss store rt origin prov) \<longleftrightarrow> origin = OriginLocal \<and> prov = FirstParty"
| "first_party (ContentSync store rt origin prov) \<longleftrightarrow> origin = OriginLocal \<and> prov = FirstParty"
| "first_party (FetchAndCache store rt origin prov) \<longleftrightarrow> origin = OriginLocal \<and> prov = FirstParty"
| "first_party (PushedCapsule store rt origin prov) \<longleftrightarrow> origin = OriginLocal \<and> prov = FirstParty"
| "first_party (FetchedThrough store rt origin prov ok) \<longleftrightarrow> origin = OriginLocal \<and> prov = FirstParty"
| "first_party (PeerDemand store rt) \<longleftrightarrow> False"
| "first_party (RelayAsk store rt params allowed) \<longleftrightarrow> False"

fun requested_store :: "landing_request \<Rightarrow> string" where
  "requested_store (AnsweredMiss store rt origin prov) = to_ascii_lowercase store"
| "requested_store (ContentSync store rt origin prov) = to_ascii_lowercase store"
| "requested_store (FetchAndCache store rt origin prov) = to_ascii_lowercase store"
| "requested_store (PushedCapsule store rt origin prov) = to_ascii_lowercase store"
| "requested_store (FetchedThrough store rt origin prov ok) = to_ascii_lowercase store"
| "requested_store (PeerDemand store rt) = to_ascii_lowercase store"
| "requested_store (RelayAsk store rt params allowed) = to_ascii_lowercase store"

fun asks_for :: "landing_act \<Rightarrow> string set" where
  "asks_for (Ask r) = (if first_party r then {requested_store r} else {})"
| "asks_for _ = {}"

definition asked :: "landing_act list \<Rightarrow> string set" where
  "asked as = (\<Union>a \<in> set as. asks_for a)"

text \<open>
  The steps that take a marker away from under a capsule kept for somebody else: the marker of an evicted module is
  discarded only after another pull has written the same one or published the file again, or a write fails whose marker
  was there for another file as well.
\<close>

definition relayed_elsewhere :: "nat option \<Rightarrow> capsule \<Rightarrow> 'tier landing_state \<Rightarrow> bool" where
  "relayed_elsewhere own k s \<longleftrightarrow>
     k \<in> set (ln_modules s)
     \<or> list_ex (\<lambda>(j, p). Some j \<noteq> own \<and> pl_phase p = Marked k \<and> pl_claim p = Suppress) (ln_pulls s)"

fun spoils :: "landing_act \<Rightarrow> 'tier landing_state \<Rightarrow> bool" where
  "spoils (Discard k) s \<longleftrightarrow> k \<in> set (ln_markers s) \<and> relayed_elsewhere None k s"
| "spoils (PublishPull i ok undone) s \<longleftrightarrow>
     \<not> ok \<and> undone \<and>
     (case map_of (ln_pulls s) i of
        None \<Rightarrow> False
      | Some p \<Rightarrow> pl_route p \<noteq> ViaWarm \<and> pl_claim p = Suppress
                  \<and> (case pl_phase p of Marked k \<Rightarrow> relayed_elsewhere (Some i) k s | _ \<Rightarrow> False))"
| "spoils _ s \<longleftrightarrow> False"

fun unspoiled :: "'tier landing_env \<Rightarrow> landing_act list \<Rightarrow> 'tier landing_state \<Rightarrow> bool" where
  "unspoiled E [] s \<longleftrightarrow> True"
| "unspoiled E (a # as) s \<longleftrightarrow> \<not> spoils a s \<and> unspoiled E as (landing_step E a s)"

text \<open>The invariant, over the stores the operator has asked for so far.\<close>

definition pull_honest :: "string set \<Rightarrow> capsule list \<Rightarrow> pull \<Rightarrow> bool" where
  "pull_honest A markers p \<longleftrightarrow>
     to_ascii_lowercase (fst (pl_capsule p)) = fst (pl_capsule p)
     \<and> (pl_claim p = Announce \<longrightarrow> fst (pl_capsule p) \<in> A)
     \<and> (\<forall>k. pl_phase p = Marked k \<longrightarrow> fst k = fst (pl_capsule p)
          \<and> (pl_claim p = Suppress \<longrightarrow> k \<in> set markers \<or> fst k \<in> A))"

definition landing_honest :: "string set \<Rightarrow> 'tier landing_state \<Rightarrow> bool" where
  "landing_honest A s \<longleftrightarrow>
     (\<forall>k \<in> set (ln_modules s). k \<in> set (ln_markers s) \<or> fst k \<in> A)
     \<and> (\<forall>(i, p) \<in> set (ln_pulls s). pull_honest A (ln_markers s) p)"

lemma pull_honest_mono:
  "pull_honest A M p \<Longrightarrow> A \<subseteq> B \<Longrightarrow> set M - {k. fst k \<in> B} \<subseteq> set N \<Longrightarrow> pull_honest B N p"
  unfolding pull_honest_def by blast

lemma honest_mono: "landing_honest A s \<Longrightarrow> A \<subseteq> B \<Longrightarrow> landing_honest B s"
  by (fastforce simp: landing_honest_def intro: pull_honest_mono)

lemma honest_markers:
  assumes "landing_honest A s" "set (ln_markers s) - {k. fst k \<in> A} \<subseteq> set M"
  shows "landing_honest A (s\<lparr>ln_markers := M\<rparr>)"
  using assms by (fastforce simp: landing_honest_def intro: pull_honest_mono [OF _ order_refl])

lemma honest_frame [simp]:
  "landing_honest A (s\<lparr>ln_in_flight := f\<rparr>) = landing_honest A s"
  "landing_honest A (s\<lparr>ln_demand := d\<rparr>) = landing_honest A s"
  "landing_honest A (s\<lparr>ln_next := n\<rparr>) = landing_honest A s"
  by (simp_all add: landing_honest_def)

lemma honest_start:
  "landing_honest A s \<Longrightarrow> pull_honest A (ln_markers s) p \<Longrightarrow> landing_honest A (start_pull p s)"
  by (auto simp: landing_honest_def start_pull_def)

lemma in_set_delete: "x \<in> set (AList.delete i m) \<Longrightarrow> x \<in> set m \<and> fst x \<noteq> i"
  by (auto simp: AList.delete_eq)

lemma honest_end: "landing_honest A s \<Longrightarrow> landing_honest A (end_pull i p s)"
  by (auto simp: landing_honest_def end_pull_def dest!: in_set_delete split: option.splits)

lemma honest_update:
  "landing_honest A s \<Longrightarrow> pull_honest A (ln_markers s) p \<Longrightarrow> landing_honest A (s\<lparr>ln_pulls := AList.update i p (ln_pulls s)\<rparr>)"
  by (auto simp: landing_honest_def dest!: in_set_update)

lemma honest_pull: "landing_honest A s \<Longrightarrow> map_of (ln_pulls s) i = Some p \<Longrightarrow> pull_honest A (ln_markers s) p"
  by (auto simp: landing_honest_def dest!: map_of_SomeD)

lemma honest_persist:
  assumes "landing_honest A s" "claim = Announce \<longrightarrow> fst k \<in> A"
  shows "landing_honest A (snd (persist_holder_claim k claim ok left s))"
  using assms honest_markers [OF assms(1), of "List.insert k (ln_markers s)"]
    honest_markers [OF assms(1), of "removeAll k (ln_markers s)"]
  by (cases claim) (auto simp: persist_holder_claim_def)

lemma persist_frame [simp]:
  "ln_pulls (snd (persist_holder_claim k claim ok left s)) = ln_pulls s"
  "ln_modules (snd (persist_holder_claim k claim ok left s)) = ln_modules s"
  "ln_in_flight (snd (persist_holder_claim k claim ok left s)) = ln_in_flight s"
  "ln_next (snd (persist_holder_claim k claim ok left s)) = ln_next s"
  "fst (persist_holder_claim k claim ok left s) = ok"
  by (cases claim; simp add: persist_holder_claim_def)+

lemma claim_announce_iff:
  "holder_claim_for_landing origin prov = Announce \<longleftrightarrow> origin = OriginLocal \<and> prov = FirstParty"
  by (cases origin; cases prov) (simp_all add: holder_claim_for_landing_def)

lemma landing_local_iff: "landing_origin origin prov = OriginLocal \<longleftrightarrow> origin = OriginLocal \<and> prov = FirstParty"
  by (cases prov) auto

lemma parse_capsule_store: "parse_capsule store rt = Some k \<Longrightarrow> fst k = to_ascii_lowercase store"
  by (auto simp: parse_capsule_def split: if_splits)

lemma fresh_pull_honest:
  assumes "parse_capsule store rt = Some k" "claim = Announce \<longrightarrow> to_ascii_lowercase store \<in> A" "phase \<in> {Waiting, Pulling}"
  shows "pull_honest A M \<lparr>pl_capsule = k, pl_claim = claim, pl_key = key, pl_route = route, pl_phase = phase\<rparr>"
  using assms by (auto simp: pull_honest_def parse_capsule_store)

lemma registry_claim_Some:
  "registry_claim E key s = Some s1 \<Longrightarrow> s1 = s\<lparr>ln_in_flight := key # ln_in_flight s\<rparr> \<and> key \<notin> set (ln_in_flight s)
     \<and> length (ln_in_flight s) < le_max_concurrent E"
  by (auto simp: registry_claim_def split: if_splits)

text \<open>Each way to start a pull keeps the invariant, when an announcing one was asked for.\<close>

lemma honest_backfill:
  assumes "landing_honest A s" "claim = Announce \<longrightarrow> to_ascii_lowercase store \<in> A"
  shows "landing_honest A (spawn_capsule_backfill E store rt claim s)"
  using assms
  by (auto simp: spawn_capsule_backfill_def Let_def split: option.splits dest!: registry_claim_Some
      intro!: honest_start fresh_pull_honest)

lemma honest_warm:
  assumes "landing_honest A s" "claim = Announce \<longrightarrow> to_ascii_lowercase store \<in> A"
  shows "landing_honest A (warm_with_config E store rt claim ok s)"
proof (cases "parse_capsule store rt")
  case (Some k)
  then have "fst k = to_ascii_lowercase store" by (rule parse_capsule_store)
  with assms Some show ?thesis
    by (auto simp: warm_with_config_def split: option.splits dest!: registry_claim_Some
        intro!: honest_start honest_persist fresh_pull_honest)
qed (use assms in \<open>simp add: warm_with_config_def\<close>)

lemma honest_sync:
  assumes "landing_honest A s" "claim = Announce \<longrightarrow> to_ascii_lowercase store \<in> A"
  shows "landing_honest A (sync_module store rt claim s)" "landing_honest A (cache_fetch_and_cache store rt claim s)"
    "landing_honest A (land_capsule_bytes store rt claim s)"
  using assms
  by (auto simp: sync_module_def cache_fetch_and_cache_def land_capsule_bytes_def split: option.splits
      intro!: honest_start fresh_pull_honest)

lemma honest_handler:
  assumes "landing_honest A s" "first_party r \<Longrightarrow> requested_store r \<in> A"
  shows "landing_honest A (landing_handler E r s)"
  using assms
  by (cases r)
    (auto simp: maybe_backfill_capsule_def note_inbound_demand_def reshare_fetched_def relay_capsule_def Let_def
      claim_announce_iff landing_local_iff intro!: honest_backfill honest_warm honest_sync)

text \<open>And so do the steps of a pull that is running.\<close>

lemma honest_mark:
  assumes "landing_honest A s"
  shows "landing_honest A (mark_pull i served ok left s)"
proof (cases "map_of (ln_pulls s) i")
  case (Some p)
  let ?k = "if pl_route p = ViaSync then parse_capsule (fst (pl_capsule p)) served else Some (pl_capsule p)"
  have p: "pull_honest A (ln_markers s) p" using assms Some by (rule honest_pull)
  have store: "fst k = fst (pl_capsule p)" if "?k = Some k" for k
    using that p by (auto simp: pull_honest_def split: if_splits dest!: parse_capsule_store)
  have per: "landing_honest A (snd (persist_holder_claim k (pl_claim p) ok left s))" if "?k = Some k" for k
    using assms p store [OF that] by (intro honest_persist) (auto simp: pull_honest_def)
  have "pull_honest A (ln_markers (snd (persist_holder_claim k (pl_claim p) True left s))) (p\<lparr>pl_phase := Marked k\<rparr>)"
    if "?k = Some k" for k
    using p store [OF that] by (cases "pl_claim p") (auto simp: pull_honest_def persist_holder_claim_def)
  then have "landing_honest A ((snd (persist_holder_claim k (pl_claim p) True left s))
      \<lparr>ln_pulls := AList.update i (p\<lparr>pl_phase := Marked k\<rparr>) (ln_pulls s)\<rparr>)" if "?k = Some k" "ok" for k
    using that per [OF that(1)] honest_update [of A "snd (persist_holder_claim k (pl_claim p) True left s)"] by simp
  with Some per show ?thesis
    by (cases ?k; cases ok) (simp_all add: mark_pull_def assms split_beta Let_def honest_end)
qed (use assms in \<open>simp add: mark_pull_def\<close>)

lemma honest_publish:
  assumes "landing_honest A s" "\<not> spoils (PublishPull i ok undone) s"
  shows "landing_honest A (publish_pull i ok undone s)"
proof (cases "map_of (ln_pulls s) i")
  case (Some p)
  have p: "pull_honest A (ln_markers s) p" using assms(1) Some by (rule honest_pull)
  show ?thesis
  proof (cases "pl_phase p")
    case (Marked k)
    have own: "k \<in> set (ln_markers s) \<or> fst k \<in> A" "pl_claim p = Announce \<longrightarrow> fst k \<in> A"
      using p Marked by (cases "pl_claim p"; auto simp: pull_honest_def)+
    have put: "landing_honest A (s\<lparr>ln_modules := List.insert k (ln_modules s)\<rparr>)"
      using assms(1) own(1) by (auto simp: landing_honest_def)
    have undo: "landing_honest A (end_pull i p (snd (persist_holder_claim k Announce undone False s)))"
      if "\<not> ok" "pl_route p \<noteq> ViaWarm"
    proof (cases "fst k \<in> A \<or> \<not> undone")
      case True
      then show ?thesis
        using honest_persist [OF assms(1), of Announce k undone False] assms(1)
        by (auto simp: persist_holder_claim_def intro: honest_end)
    next
      case False
      then have "\<not> relayed_elsewhere (Some i) k s"
        using assms(2) that Some Marked own(2) by (cases "pl_claim p") auto
      with assms(1) False show ?thesis
        by (fastforce simp: landing_honest_def pull_honest_def end_pull_def persist_holder_claim_def relayed_elsewhere_def
            list_ex_iff dest!: in_set_delete split: option.splits)
    qed
    show ?thesis using Some Marked put undo assms(1) by (auto simp: publish_pull_def intro: honest_end)
  qed (use Some assms(1) in \<open>simp_all add: publish_pull_def\<close>)
qed (use assms in \<open>simp add: publish_pull_def\<close>)

lemma honest_step:
  assumes "landing_honest A s" "\<not> spoils a s" "asks_for a \<subseteq> A"
  shows "landing_honest A (landing_step E a s)"
proof (cases a)
  case (Ask r)
  with assms show ?thesis by (auto intro!: honest_handler split: if_splits)
next
  case (BeginPull i)
  have "pull_honest A (ln_markers s) (p\<lparr>pl_phase := Pulling\<rparr>)" if "map_of (ln_pulls s) i = Some p" for p
    using honest_pull [OF assms(1) that] by (simp add: pull_honest_def)
  with BeginPull assms(1) show ?thesis by (auto simp: begin_pull_def split: option.splits intro!: honest_end honest_update)
next
  case (FailPull i)
  with assms(1) show ?thesis by (auto simp: fail_pull_def split: option.splits intro!: honest_end)
next
  case (MarkPull i served ok left)
  with assms(1) show ?thesis by (simp add: honest_mark)
next
  case (PublishPull i ok undone)
  with assms show ?thesis by (simp add: honest_publish)
next
  case (Unlink k)
  with assms(1) show ?thesis by (auto simp: landing_honest_def unlink_module_def)
next
  case (Discard k)
  show ?thesis
  proof (cases "k \<in> set (ln_markers s)")
    case True
    with assms(2) Discard have "\<not> relayed_elsewhere None k s" by simp
    with assms(1) Discard show ?thesis
      by (fastforce simp: landing_honest_def pull_honest_def discard_relay_marker_beside_def relayed_elsewhere_def list_ex_iff)
  next
    case False
    then have "removeAll k (ln_markers s) = ln_markers s" by simp
    with assms(1) Discard show ?thesis by (simp add: discard_relay_marker_beside_def)
  qed
qed

lemma asked_Cons: "asked (a # as) = asks_for a \<union> asked as"
  by (simp add: asked_def)

lemma honest_run:
  "landing_honest A s \<Longrightarrow> unspoiled E as s \<Longrightarrow> landing_honest (A \<union> asked as) (landing_run E as s)"
proof (induction as arbitrary: A s)
  case (Cons a as)
  have "landing_honest (A \<union> asks_for a) (landing_step E a s)"
  proof (rule honest_step)
    show "landing_honest (A \<union> asks_for a) s" using Cons.prems(1) by (rule honest_mono) simp
    show "\<not> spoils a s" using Cons.prems(2) by simp
  qed simp
  from Cons.IH [OF this] Cons.prems(2) show ?case by (simp add: asked_Cons Un_assoc)
qed (simp add: asked_def)

section \<open>How many pulls run\<close>

definition held_keys :: "(nat \<times> pull) list \<Rightarrow> string list" where
  "held_keys ps = List.map_filter (\<lambda>(i, p). pl_key p) ps"

definition registered :: "'tier landing_env \<Rightarrow> 'tier landing_state \<Rightarrow> bool" where
  "registered E s \<longleftrightarrow>
     hm_ok (ln_pulls s) \<and> (\<forall>(i, p) \<in> set (ln_pulls s). i < ln_next s)
     \<and> distinct (ln_in_flight s) \<and> length (ln_in_flight s) \<le> le_max_concurrent E
     \<and> mset (held_keys (ln_pulls s)) = mset (ln_in_flight s)"

lemma mset_held_keys:
  "mset (held_keys ps) = (\<Sum>x \<in># mset ps. case pl_key (snd x) of None \<Rightarrow> {#} | Some k \<Rightarrow> {#k#})"
  by (induction ps) (auto simp: held_keys_def map_filter_simps split: option.splits)

lemma held_keys_delete:
  assumes "hm_ok ps" "map_of ps i = Some p"
  shows "mset (held_keys ps) = (case pl_key p of None \<Rightarrow> {#} | Some k \<Rightarrow> {#k#}) + mset (held_keys (AList.delete i ps))"
  unfolding mset_held_keys mset_delete_hm [OF assms] by simp

lemma held_keys_update:
  assumes "hm_ok ps" "map_of ps i = Some p" "pl_key p' = pl_key p"
  shows "mset (held_keys (AList.update i p' ps)) = mset (held_keys ps)"
  unfolding mset_held_keys mset_update_hm [OF assms(1)] mset_delete_hm [OF assms(1,2)] by (simp add: assms(3))

lemma registered_markers [simp]:
  "registered E (s\<lparr>ln_markers := M\<rparr>) = registered E s"
  "registered E (s\<lparr>ln_modules := D\<rparr>) = registered E s"
  "registered E (s\<lparr>ln_demand := d\<rparr>) = registered E s"
  by (simp_all add: registered_def)

lemma registered_persist [simp]: "registered E (snd (persist_holder_claim k claim ok left s)) = registered E s"
  by (cases claim) (simp_all add: persist_holder_claim_def)

lemma fresh_pull: "registered E s \<Longrightarrow> ln_next s \<notin> fst ` set (ln_pulls s)"
  by (auto simp: registered_def)

lemma registered_start:
  assumes "registered E s" "pl_key p = None"
  shows "registered E (start_pull p s)"
  using assms fresh_pull [OF assms(1)]
  by (auto simp: registered_def start_pull_def hm_ok_def held_keys_def map_filter_simps)

lemma registered_start_guarded:
  assumes "registered E s" "registry_claim E key s = Some s1" "pl_key p = Some key"
  shows "registered E (start_pull p s1)"
  using assms fresh_pull [OF assms(1)]
  by (auto simp: registered_def start_pull_def hm_ok_def held_keys_def dest!: registry_claim_Some) fastforce

lemma registered_end:
  assumes "registered E s" "map_of (ln_pulls s) i = Some p"
  shows "registered E (end_pull i p s)"
proof -
  have keys: "mset (ln_in_flight s) =
      (case pl_key p of None \<Rightarrow> {#} | Some k \<Rightarrow> {#k#}) + mset (held_keys (AList.delete i (ln_pulls s)))"
    using assms held_keys_delete [of "ln_pulls s" i p] by (simp add: registered_def)
  have "mset (held_keys (AList.delete i (ln_pulls s)))
      = mset (case pl_key p of None \<Rightarrow> ln_in_flight s | Some key \<Rightarrow> removeAll key (ln_in_flight s))"
  proof (cases "pl_key p")
    case (Some key)
    have "distinct (ln_in_flight s)" using assms(1) by (simp add: registered_def)
    then have "removeAll key (ln_in_flight s) = remove1 key (ln_in_flight s)" by (simp add: distinct_remove1_removeAll)
    with keys Some show ?thesis by simp
  qed (use keys in simp)
  with assms(1) show ?thesis
    by (auto simp: registered_def end_pull_def distinct_removeAll dest!: in_set_delete split: option.splits intro: le_trans [OF length_removeAll_less_eq])
qed

lemma registered_update:
  assumes "registered E s" "map_of (ln_pulls s) i = Some p" "pl_key p' = pl_key p"
  shows "registered E (s\<lparr>ln_pulls := AList.update i p' (ln_pulls s)\<rparr>)"
  using assms held_keys_update [OF _ assms(2,3)] map_of_SomeD [OF assms(2)]
  by (auto simp: registered_def dest!: in_set_update)

lemma registered_backfill:
  "registered E s \<Longrightarrow> registered E (spawn_capsule_backfill E store rt claim s)"
  by (auto simp: spawn_capsule_backfill_def Let_def split: option.splits intro: registered_start_guarded)

lemma registered_warm:
  "registered E s \<Longrightarrow> registered E (warm_with_config E store rt claim ok s)"
  by (auto simp: warm_with_config_def split: option.splits intro: registered_start_guarded)

lemma registered_step:
  assumes "registered E s"
  shows "registered E (landing_step E a s)"
proof (cases a)
  case (Ask r)
  with assms show ?thesis
    by (cases r)
      (auto simp: maybe_backfill_capsule_def note_inbound_demand_def reshare_fetched_def relay_capsule_def Let_def
        sync_module_def cache_fetch_and_cache_def land_capsule_bytes_def split: option.splits
        intro!: registered_backfill registered_warm registered_start)
qed (use assms in \<open>auto simp: begin_pull_def fail_pull_def mark_pull_def publish_pull_def unlink_module_def
    discard_relay_marker_beside_def split_beta Let_def split: option.splits pull_phase.splits
    intro!: registered_end registered_update [where s = "snd (persist_holder_claim _ _ _ _ s)", simplified] registered_update\<close>)

lemma registered_run: "registered E s \<Longrightarrow> registered E (landing_run E as s)"
  by (induction E as s rule: landing_run.induct) (auto intro: registered_step)

text \<open>What a request from a peer may start.\<close>

lemma peer_demand_gated:
  assumes "ln_pulls (landing_step E (Ask (PeerDemand store rt)) s) \<noteq> ln_pulls s"
  shows "le_demand_cache E \<and> inbound_demand_pull_admitted E store rt
    \<and> (\<exists>k. parse_capsule store rt = Some k \<and> ln_pulls (landing_step E (Ask (PeerDemand store rt)) s) =
         (ln_next s, \<lparr>pl_capsule = k, pl_claim = Suppress, pl_key = Some (store @ '':'' @ rt), pl_route = ViaSync,
                      pl_phase = Waiting\<rparr>) # ln_pulls s)"
proof -
  have "holder_claim_for_landing OriginPeer FirstParty = Suppress" by (simp add: holder_claim_for_landing_def)
  with assms show ?thesis
    by (auto simp: note_inbound_demand_def spawn_capsule_backfill_def start_pull_def registry_claim_def Let_def
        split: if_splits option.splits)
qed

section \<open>Properties\<close>

text \<open>
  C5: nobody else's request makes the operator a holder. However reads answered elsewhere, reads synchronised from
  upstream, fetches, pushes, reads fetched through, requests of peers and relays follow one another, from any
  transport and any page, and however the pulls they start interleave, fail or are cut off, on a node
  that starts empty every capsule on disk without a relay marker - the ones it advertises and stakes money on - is of a
  store the operator asked for in person (over a local transport and first-party), and so is every running pull that
  will advertise; of the pulls under the registry no two have the same key and no more run than its cap. A request
  of a peer starts a pull only with the opt-in switch on and a key in the node's neighbourhood, and never one that will advertise.
  The theorem excepts two steps of the code that take the marker of a relayed capsule away: rolling back a failed
  write while the same capsule is on disk or about to be, and discarding the marker of an evicted file
  after another pull of it has written its own (\<open>failed_write_unmarks\<close> below shows the first happening).
  What operators start themselves (subscriptions, chain gap-fill, tier 0) is not among the requests.
\<close>

theorem strangers_never_make_holder:
  assumes "unspoiled E as landing_new" "landing_run E as landing_new = s'"
  shows "(\<forall>k \<in> set (ln_modules s'). k \<notin> set (ln_markers s') \<longrightarrow>
           (\<exists>r. Ask r \<in> set as \<and> first_party r \<and> requested_store r = fst k))
    \<and> (\<forall>(i, p) \<in> set (ln_pulls s'). pl_claim p = Announce \<longrightarrow>
           (\<exists>r. Ask r \<in> set as \<and> first_party r \<and> requested_store r = fst (pl_capsule p)))
    \<and> distinct (List.map_filter (\<lambda>(i, p). pl_key p) (ln_pulls s'))
    \<and> length (List.map_filter (\<lambda>(i, p). pl_key p) (ln_pulls s')) \<le> le_max_concurrent E
    \<and> (\<forall>store rt i p. (i, p) \<in> set (ln_pulls (landing_step E (Ask (PeerDemand store rt)) s')) \<and> (i, p) \<notin> set (ln_pulls s')
         \<longrightarrow> le_demand_cache E \<and> inbound_demand_pull_admitted E store rt \<and> pl_claim p = Suppress)"
proof -
  have "landing_honest ({} \<union> asked as) (landing_run E as landing_new)"
    using assms(1) by (intro honest_run) (simp_all add: landing_honest_def landing_new_def)
  then have honest: "landing_honest (asked as) s'" by (simp add: assms(2))
  have own: "\<exists>r. Ask r \<in> set as \<and> first_party r \<and> requested_store r = x" if "x \<in> asked as" for x
  proof -
    from that obtain a where a: "a \<in> set as" "x \<in> asks_for a" by (auto simp: asked_def)
    have "\<exists>r. a = Ask r \<and> first_party r \<and> requested_store r = x"
      by (cases a) (use a(2) in \<open>auto split: if_splits\<close>)
    with a(1) show ?thesis by blast
  qed
  have "registered E (landing_run E as landing_new)"
    by (rule registered_run) (simp add: registered_def landing_new_def held_keys_def map_filter_simps)
  then have "distinct (held_keys (ln_pulls s')) \<and> length (held_keys (ln_pulls s')) \<le> le_max_concurrent E"
    unfolding registered_def assms(2) by (metis mset_eq_imp_distinct_iff mset_eq_length)
  moreover have "le_demand_cache E \<and> inbound_demand_pull_admitted E store rt \<and> pl_claim p = Suppress"
    if "(i, p) \<in> set (ln_pulls (landing_step E (Ask (PeerDemand store rt)) s'))" "(i, p) \<notin> set (ln_pulls s')" for store rt i p
  proof -
    have "ln_pulls (landing_step E (Ask (PeerDemand store rt)) s') \<noteq> ln_pulls s'" using that by metis
    from peer_demand_gated [OF this] that show ?thesis by auto
  qed
  moreover have "\<forall>k \<in> set (ln_modules s'). k \<notin> set (ln_markers s') \<longrightarrow> fst k \<in> asked as"
    "\<forall>(i, p) \<in> set (ln_pulls s'). pl_claim p = Announce \<longrightarrow> fst (pl_capsule p) \<in> asked as"
    using honest by (auto simp: landing_honest_def pull_honest_def)
  ultimately show ?thesis using own by (fastforce simp: held_keys_def)
qed

section \<open>Concrete runs\<close>

text \<open>
  The sample node takes up every capsule and has all its switches on. A stranger's read lands a capsule of
  store \<open>aa...\<close>, and the operator's one of store \<open>bb...\<close>.
\<close>

definition sample_node :: "unit landing_env" where
  "sample_node = \<lparr>le_content = True, le_self = True, le_warmer = True, le_backfill = True, le_onion_relay = True,
     le_demand_cache = True, le_peer_id = None, le_max_concurrent = DEFAULT_MAX_CONCURRENT_WARMS,
     le_hex = \<lparr>hx_decode = Some, hx_encode = (\<lambda>s. s)\<rparr>, le_acquire = (\<lambda>_ held _. \<not> held), le_near = (\<lambda>_ _ _. True),
     le_tier1 = ()\<rparr>"

definition sample_as :: string where "sample_as = replicate 64 CHR ''a''"
definition sample_bs :: string where "sample_bs = replicate 64 CHR ''b''"

lemma sample_ids [simp]:
  "is_hex64 sample_as" "is_hex64 sample_bs" "to_ascii_lowercase sample_as = sample_as"
  "to_ascii_lowercase sample_bs = sample_bs" "sample_as \<noteq> sample_bs" "sample_bs \<noteq> sample_as"
  by (simp_all add: sample_as_def sample_bs_def is_hex64_def is_ascii_hexdigit_def to_ascii_lowercase_def ascii_lower_def
      list_all_iff Let_def numeral_eq_Suc)

lemma sample_parse [simp]:
  "parse_capsule sample_as sample_as = Some (sample_as, sample_as)"
  "parse_capsule sample_bs sample_as = Some (sample_bs, sample_as)"
  by (simp_all add: parse_capsule_def)

definition stranger_read :: "landing_act list" where
  "stranger_read = [Ask (ContentSync sample_as sample_as OriginPeer FirstParty), MarkPull 0 sample_as True False,
     PublishPull 0 True False]"

definition operator_read :: "landing_act list" where
  "operator_read = [Ask (AnsweredMiss sample_bs sample_as OriginLocal FirstParty), BeginPull 1, MarkPull 1 sample_as True False,
     PublishPull 1 True False]"

lemmas landing_eval = landing_new_def sync_module_def start_pull_def mark_pull_def publish_pull_def end_pull_def
  persist_holder_claim_def holder_claim_for_landing_def maybe_backfill_capsule_def spawn_capsule_backfill_def
  begin_pull_def registry_claim_def module_exists_def Let_def

lemma sample_landing:
  "unspoiled sample_node (stranger_read @ operator_read) landing_new"
  "ln_modules (landing_run sample_node (stranger_read @ operator_read) landing_new) = [(sample_bs, sample_as), (sample_as, sample_as)]"
  "ln_markers (landing_run sample_node (stranger_read @ operator_read) landing_new) = [(sample_as, sample_as)]"
  by (simp_all add: stranger_read_def operator_read_def landing_eval sample_node_def DEFAULT_MAX_CONCURRENT_WARMS_def)

theorem strangers_never_make_holder_witness:
  "ln_modules (landing_run sample_node (stranger_read @ operator_read) landing_new) = [(sample_bs, sample_as), (sample_as, sample_as)]
   \<and> ln_markers (landing_run sample_node (stranger_read @ operator_read) landing_new) = [(sample_as, sample_as)]
   \<and> (\<exists>r. Ask r \<in> set (stranger_read @ operator_read) \<and> first_party r \<and> requested_store r = sample_bs)"
proof -
  have "(sample_bs, sample_as) \<in> set (ln_modules (landing_run sample_node (stranger_read @ operator_read) landing_new))"
    "(sample_bs, sample_as) \<notin> set (ln_markers (landing_run sample_node (stranger_read @ operator_read) landing_new))"
    by (simp_all add: sample_landing(2,3))
  with strangers_never_make_holder [OF sample_landing(1) refl] show ?thesis
    by (fastforce simp: sample_landing(2,3))
qed

text \<open>
  The first exception at work: a stranger's read has landed a capsule, marked; a second such read of it gets as far as
  the write, which fails, and the rollback removes the marker of the first. The node now advertises, and stakes money on, a
  capsule only a stranger ever asked for.
\<close>

lemma failed_write_unmarks:
  "let s = landing_run sample_node (stranger_read @
       [Ask (ContentSync sample_as sample_as OriginPeer FirstParty), MarkPull 1 sample_as True False, PublishPull 1 False True])
     landing_new
   in ln_modules s = [(sample_as, sample_as)] \<and> ln_markers s = []"
  by (simp add: stranger_read_def landing_eval)

end
