(* ===== verification/Quorum.thy ===== *)
theory Quorum
  imports Prelude
begin

text \<open>
  The trust a light client puts in peers it did not choose: \<open>crates/dig-wallet/src/sage/quorum.rs\<close>.
  Whom to ask (a uniform sample), who is worth asking (a band around the median claim), at which
  height, and when the answers corroborate one another.

  The operating system's randomness is the list of the 64-bit draws it yields; a loop that outruns
  the list has no result yet, which is the outer \<open>None\<close>. The order in which a \<open>HashMap\<close> yields its
  entries is an argument of the tally, any permutation. Heights are 32-bit naturals; floating-point
  probabilities are reals.
\<close>

section \<open>Constants\<close>

definition QUORUM_SAMPLE :: nat where "QUORUM_SAMPLE = 4"
definition QUORUM_AGREEMENT :: nat where "QUORUM_AGREEMENT = 3"
definition CORROBORATION_FLOOR :: nat where "CORROBORATION_FLOOR = 2"
definition BOND_CORROBORATION_FLOOR :: nat where "BOND_CORROBORATION_FLOOR = 3"
definition QUORUM_DIAL_WIDE :: nat where "QUORUM_DIAL_WIDE = 10"
definition QUORUM_HOLD :: nat where "QUORUM_HOLD = 5"
definition PEAK_LAG_TOLERANCE :: nat where "PEAK_LAG_TOLERANCE = 3"
definition SETTLED_LAG :: nat where "SETTLED_LAG = 2"

lemmas quorum_constants =
  QUORUM_SAMPLE_def QUORUM_AGREEMENT_def CORROBORATION_FLOOR_def BOND_CORROBORATION_FLOOR_def
  PEAK_LAG_TOLERANCE_def SETTLED_LAG_def QUORUM_HOLD_def

definition required_agreement :: "nat \<Rightarrow> nat" where
  "required_agreement answered =
     max ((answered * QUORUM_AGREEMENT + (QUORUM_SAMPLE - 1)) div QUORUM_SAMPLE) CORROBORATION_FLOOR"

section \<open>The sample\<close>

definition draw_zone :: "nat \<Rightarrow> nat" where
  "draw_zone bound = u64_max - u64_max mod bound"

text \<open>The rejection loop: the first draw below the zone.\<close>

fun draw_below :: "nat \<Rightarrow> nat list \<Rightarrow> (nat \<times> nat list) option" where
  "draw_below bound [] = None"
| "draw_below bound (draw # draws) =
     (if draw < draw_zone bound then Some (draw mod bound, draws) else draw_below bound draws)"

definition uniform_below :: "nat \<Rightarrow> nat list \<Rightarrow> (nat option \<times> nat list) option" where
  "uniform_below bound draws =
     (if bound = 0 then Some (None, draws)
      else case draw_below bound draws of
             None \<Rightarrow> None
           | Some (r, rest) \<Rightarrow> Some (Some r, rest))"

definition swap :: "nat \<Rightarrow> nat \<Rightarrow> 'a list \<Rightarrow> 'a list" where
  "swap i j xs = xs[i := xs ! j, j := xs ! i]"

fun sample_loop ::
  "nat \<Rightarrow> nat \<Rightarrow> nat list \<Rightarrow> nat list \<Rightarrow> nat list \<Rightarrow> (nat list \<times> nat list) option"
where
  "sample_loop 0 taken pool chosen draws = Some (chosen, draws)"
| "sample_loop (Suc left) taken pool chosen draws =
     (case uniform_below (length pool - taken) draws of
        None \<Rightarrow> None
      | Some (None, rest) \<Rightarrow> Some (chosen, rest)
      | Some (Some offset, rest) \<Rightarrow>
          (let pool = swap taken (taken + offset) pool
           in sample_loop left (taken + 1) pool (chosen @ [pool ! taken]) rest))"

definition select_sample :: "nat \<Rightarrow> nat \<Rightarrow> nat list \<Rightarrow> (nat list \<times> nat list) option" where
  "select_sample n k draws = sample_loop (min k n) 0 [0..<n] [] draws"

section \<open>Candidates and heights\<close>

record peak_claim =
  pk_height :: nat
  pk_header_hash :: string

record candidate =
  cand_id :: string
  cand_claim :: peak_claim

abbreviation (input) claimed :: "candidate \<Rightarrow> nat" where
  "claimed c \<equiv> pk_height (cand_claim c)"

definition lower_median :: "nat list \<Rightarrow> nat" where
  "lower_median heights = sort heights ! ((length heights - 1) div 2)"

definition eligible :: "candidate list \<Rightarrow> nat \<Rightarrow> candidate list" where
  "eligible cands tolerance =
     (let heights = map claimed cands
      in if heights = [] then []
         else let median = lower_median heights;
                  low = median - tolerance;
                  high = u32_sat_add median tolerance
              in filter (\<lambda>c. low \<le> claimed c \<and> claimed c \<le> high) cands)"

definition band_kept_a_majority :: "nat \<Rightarrow> nat \<Rightarrow> bool" where
  "band_kept_a_majority claimants credible \<longleftrightarrow> claimants < credible * 2"

definition hold_best ::
  "candidate list \<Rightarrow> nat \<Rightarrow> nat \<Rightarrow> nat list \<Rightarrow> (candidate list option \<times> nat list) option"
where
  "hold_best cands tolerance hold draws =
     (let credible = eligible cands tolerance
      in if \<not> band_kept_a_majority (length cands) (length credible) then Some (None, draws)
         else if length credible \<le> hold then Some (Some credible, draws)
         else case select_sample (length credible) hold draws of
                None \<Rightarrow> None
              | Some (indices, rest) \<Rightarrow> Some (Some (map (\<lambda>i. credible ! i) indices), rest))"

definition common_height :: "candidate list \<Rightarrow> nat \<Rightarrow> nat option" where
  "common_height sample lag =
     (if sample = [] then None
      else let lowest = Min (set (map claimed sample))
           in if lag \<le> lowest then Some (lowest - lag) else None)"

definition settled_peak :: "candidate list \<Rightarrow> nat option" where
  "settled_peak cands =
     (if length cands < CORROBORATION_FLOOR then None
      else let credible = eligible cands PEAK_LAG_TOLERANCE
           in if length credible < CORROBORATION_FLOOR
                 \<or> \<not> band_kept_a_majority (length cands) (length credible)
              then None
              else common_height credible SETTLED_LAG)"

section \<open>The tally\<close>

datatype 'a verdict =
  Unanimous 'a nat
| MajorityWithDissent 'a nat "string list"
| Split "nat list"
| Insufficient nat nat

fun corroborated :: "'a verdict \<Rightarrow> 'a option" where
  "corroborated (Unanimous answer _) = Some answer"
| "corroborated (MajorityWithDissent answer _ _) = Some answer"
| "corroborated (Split _) = None"
| "corroborated (Insufficient _ _) = None"

fun agreed :: "'a verdict \<Rightarrow> nat" where
  "agreed (Unanimous _ n) = n"
| "agreed (MajorityWithDissent _ n _) = n"
| "agreed (Split _) = 0"
| "agreed (Insufficient _ _) = 0"

record 'a response =
  resp_peer :: string
  resp_answer :: 'a

fun count_answers :: "'a list \<Rightarrow> ('a \<times> nat) list \<Rightarrow> ('a \<times> nat) list" where
  "count_answers [] counts = counts"
| "count_answers (a # as) counts =
     count_answers as
       (AList.update a ((case map_of counts a of None \<Rightarrow> 0 | Some n \<Rightarrow> n) + 1) counts)"

text \<open>\<open>max_by_key\<close>: the last of the entries with the greatest count.\<close>

fun max_by_votes :: "('a \<times> nat) list \<Rightarrow> ('a \<times> nat) option" where
  "max_by_votes [] = None"
| "max_by_votes (x # xs) =
     (case max_by_votes xs of
        None \<Rightarrow> Some x
      | Some y \<Rightarrow> if snd x \<le> snd y then Some y else Some x)"

definition tally_with_floor ::
  "(('a \<times> nat) list \<Rightarrow> ('a \<times> nat) list) \<Rightarrow> 'a response list \<Rightarrow> nat \<Rightarrow> 'a verdict"
where
  "tally_with_floor order responses flr =
     (let flr = max flr CORROBORATION_FLOOR;
          answered = length responses
      in if answered < flr then Insufficient answered flr
         else
           let required = max (required_agreement answered) flr;
               counts = order (count_answers (map resp_answer responses) [])
           in case max_by_votes counts of
                None \<Rightarrow> Split []
              | Some (winner, votes) \<Rightarrow>
                  if votes < required then Split (rev (sort (map snd counts)))
                  else let dissenters = map resp_peer (filter (\<lambda>r. resp_answer r \<noteq> winner) responses)
                       in if dissenters = [] then Unanimous winner votes
                          else MajorityWithDissent winner votes dissenters)"

definition tally ::
  "(('a \<times> nat) list \<Rightarrow> ('a \<times> nat) list) \<Rightarrow> 'a response list \<Rightarrow> 'a verdict"
where
  "tally order responses = tally_with_floor order responses CORROBORATION_FLOOR"

section \<open>Spentness and the limit of the sample\<close>

datatype spent_evidence = EvidenceSpent | UnanimouslyUnspent | Unproven

definition resolve_spent :: "bool list \<Rightarrow> nat \<Rightarrow> spent_evidence" where
  "resolve_spent reports sample_size =
     (if list_ex (\<lambda>spent. spent) reports then EvidenceSpent
      else if length reports < sample_size then Unproven
      else UnanimouslyUnspent)"

definition is_selectable :: "spent_evidence \<Rightarrow> bool" where
  "is_selectable ev \<longleftrightarrow> ev = UnanimouslyUnspent"

fun binomial_f :: "nat \<Rightarrow> nat \<Rightarrow> real" where
  "binomial_f n 0 = 1"
| "binomial_f n (Suc k) = binomial_f n k * real (n - k) / real (k + 1)"

definition sybil_success_probability :: "real \<Rightarrow> nat \<Rightarrow> real" where
  "sybil_success_probability hostile_fraction answered =
     (let f = max 0 (min hostile_fraction 1)
      in \<Sum>k \<leftarrow> [required_agreement answered..<Suc answered].
           binomial_f answered k * f ^ k * (1 - f) ^ (answered - k))"

section \<open>What the tally promises\<close>

definition votes_for :: "'a \<Rightarrow> 'a response list \<Rightarrow> nat" where
  "votes_for a responses = length (filter (\<lambda>r. resp_answer r = a) responses)"

definition any_order :: "(('a \<times> nat) list \<Rightarrow> ('a \<times> nat) list) \<Rightarrow> bool" where
  "any_order order \<longleftrightarrow> (\<forall>m. mset (order m) = mset m)"

lemma count_answers_keys: "hm_ok counts \<Longrightarrow> hm_ok (count_answers as counts)"
  by (induction as counts rule: count_answers.induct) auto

lemma count_answers_votes:
  "map_of (count_answers as counts) a =
     (case map_of counts a of
        None \<Rightarrow> if a \<in> set as then Some (length (filter (\<lambda>b. b = a) as)) else None
      | Some n \<Rightarrow> Some (n + length (filter (\<lambda>b. b = a) as)))"
  by (induction as counts rule: count_answers.induct) (auto simp: update_conv' split: option.splits)

lemma max_by_votes_None [simp]: "max_by_votes m = None \<longleftrightarrow> m = []"
  by (cases m) (auto split: option.splits)

lemma max_by_votes_in: "max_by_votes m = Some x \<Longrightarrow> x \<in> set m"
  by (induction m arbitrary: x) (auto split: option.splits if_splits)

lemma max_by_votes_max: "max_by_votes m = Some x \<Longrightarrow> y \<in> set m \<Longrightarrow> snd y \<le> snd x"
  by (induction m arbitrary: x) (fastforce split: option.splits if_splits)+

lemma counted_votes:
  assumes "any_order order"
  shows "(a, n) \<in> set (order (count_answers (map resp_answer rs) [])) \<longleftrightarrow>
    n = votes_for a rs \<and> 0 < n"
proof -
  let ?m = "count_answers (map resp_answer rs) []"
  have "hm_ok ?m" by (rule count_answers_keys) simp
  then have "(a, n) \<in> set ?m \<longleftrightarrow> map_of ?m a = Some n" by (rule hm_in_set_iff)
  moreover have "length (filter (\<lambda>b. b = a) (map resp_answer rs)) = votes_for a rs"
    by (simp add: votes_for_def filter_map o_def)
  moreover have "a \<in> set (map resp_answer rs) \<longleftrightarrow> 0 < votes_for a rs"
    by (auto simp: votes_for_def filter_empty_conv)
  ultimately have "(a, n) \<in> set ?m \<longleftrightarrow> n = votes_for a rs \<and> 0 < n"
    by (auto simp: count_answers_votes)
  moreover have "set (order ?m) = set ?m"
    using assms by (metis any_order_def set_mset_mset)
  ultimately show ?thesis by simp
qed

lemma votes_disjoint: "a \<noteq> b \<Longrightarrow> votes_for a rs + votes_for b rs \<le> length rs"
  unfolding votes_for_def by (induction rs) auto

lemma required_majority: "length rs < 2 * required_agreement (length rs)"
  by (auto simp: required_agreement_def quorum_constants)

text \<open>What it takes to be corroborated, free of maps and orders.\<close>

definition bar :: "nat \<Rightarrow> nat \<Rightarrow> nat" where
  "bar answered flr = max (required_agreement answered) (max flr CORROBORATION_FLOOR)"

lemma bar_unique:
  "bar (length rs) flr \<le> votes_for a rs \<Longrightarrow> bar (length rs) flr \<le> votes_for b rs \<Longrightarrow> a = b"
  using votes_disjoint [of a b rs] required_majority [of rs] unfolding bar_def by linarith

lemma tally_winner:
  assumes "any_order order" "corroborated (tally_with_floor order rs flr) = Some a"
  shows "max flr CORROBORATION_FLOOR \<le> length rs \<and> bar (length rs) flr \<le> votes_for a rs
    \<and> agreed (tally_with_floor order rs flr) = votes_for a rs"
proof -
  let ?counts = "order (count_answers (map resp_answer rs) [])"
  obtain votes where m: "max_by_votes ?counts = Some (a, votes)"
    and bar: "bar (length rs) flr \<le> votes" "max flr CORROBORATION_FLOOR \<le> length rs"
      "agreed (tally_with_floor order rs flr) = votes"
    using assms(2)
    by (auto simp: tally_with_floor_def Let_def bar_def not_less split: if_splits option.splits)
  have "votes = votes_for a rs"
    using max_by_votes_in [OF m] by (simp add: counted_votes [OF assms(1)])
  with bar show ?thesis by simp
qed

lemma tally_decides:
  assumes order: "any_order order" and flr: "max flr CORROBORATION_FLOOR \<le> length rs"
    and votes: "bar (length rs) flr \<le> votes_for a rs"
  shows "corroborated (tally_with_floor order rs flr) = Some a"
proof -
  let ?counts = "order (count_answers (map resp_answer rs) [])"
  have "0 < votes_for a rs" using votes by (auto simp: bar_def quorum_constants)
  then have "(a, votes_for a rs) \<in> set ?counts" by (simp add: counted_votes [OF order])
  then obtain w n where m: "max_by_votes ?counts = Some (w, n)" "votes_for a rs \<le> n"
    by (metis empty_iff empty_set max_by_votes_None max_by_votes_max not_None_eq prod.collapse snd_conv)
  have "n = votes_for w rs" using max_by_votes_in [OF m(1)] by (simp add: counted_votes [OF order])
  with m(2) votes bar_unique [of rs flr w a] have w: "w = a" by simp
  have "\<not> n < bar (length rs) flr" using m(2) votes by simp
  then show ?thesis
    using flr m(1) w by (simp add: tally_with_floor_def Let_def bar_def not_less)
qed

lemma tally_bar:
  assumes order: "any_order order"
  shows "corroborated (tally_with_floor order rs flr) = Some a \<longleftrightarrow>
      max flr 2 \<le> length rs \<and> max flr 2 \<le> votes_for a rs \<and> 3 * length rs \<le> 4 * votes_for a rs"
proof -
  have up: "(n * 3 + 3) div 4 \<le> v \<longleftrightarrow> 3 * n \<le> 4 * v" for n v :: nat by linarith
  have bar: "bar (length rs) flr \<le> v \<longleftrightarrow> max flr 2 \<le> v \<and> 3 * length rs \<le> 4 * v" for v
    by (auto simp: bar_def required_agreement_def quorum_constants up)
  have "corroborated (tally_with_floor order rs flr) = Some a \<longleftrightarrow>
      max flr CORROBORATION_FLOOR \<le> length rs \<and> bar (length rs) flr \<le> votes_for a rs \<and> True"
    using tally_winner [OF order, of rs flr a] tally_decides [OF order, of flr rs a] by blast
  with bar show ?thesis by (simp add: CORROBORATION_FLOOR_def)
qed

text \<open>
  An answer is corroborated exactly when enough peers answered and enough of those gave it: at
  least the floor, and at least three quarters of all that answered, rounded up, and never fewer
  than two. At most one answer can meet that bar, so the verdict does not depend on the order in
  which the map of counts is read, and the number of agreeing peers it carries is the number of
  votes.
\<close>

theorem tally_is_three_quarters:
  assumes order: "any_order order"
  shows "(corroborated (tally_with_floor order rs flr) = Some a \<longleftrightarrow>
      max flr 2 \<le> length rs \<and> max flr 2 \<le> votes_for a rs
      \<and> 3 * length rs \<le> 4 * votes_for a rs)
    \<and> (corroborated (tally_with_floor order rs flr) = Some a \<longrightarrow>
      agreed (tally_with_floor order rs flr) = votes_for a rs)"
  using tally_bar [OF order] tally_winner [OF order] by blast

text \<open>Four answers, one of them different; and the same four in a bond verdict's round of three.\<close>

definition sample_responses :: "nat response list" where
  "sample_responses = map (\<lambda>(p, a). \<lparr>resp_peer = p, resp_answer = a\<rparr>)
     [(''a'', 7), (''b'', 9), (''c'', 7), (''d'', 7)]"

theorem tally_is_three_quarters_witness:
  "corroborated (tally_with_floor rev sample_responses 3) = Some 7
   \<and> agreed (tally_with_floor rev sample_responses 3) = 3"
proof -
  have "any_order rev" by (simp add: any_order_def)
  from tally_is_three_quarters [OF this, of sample_responses 3 7] show ?thesis
    by (simp add: sample_responses_def votes_for_def)
qed

section \<open>Honest majorities\<close>

lemma length_filter_mono:
  "(\<And>x. x \<in> set xs \<Longrightarrow> P x \<Longrightarrow> Q x) \<Longrightarrow> length (filter P xs) \<le> length (filter Q xs)"
  by (induction xs) (auto simp: le_SucI)

text \<open>Honest answers prevail over a quarter of liars, and liars short of the bar carry nothing.\<close>

lemma honest_answers_prevail:
  assumes order: "any_order order"
    and honest: "\<And>r. r \<in> set rs \<Longrightarrow> \<not> hostile r \<Longrightarrow> resp_answer r = truth"
    and h: "h = length (filter hostile rs)"
  shows "4 * h < 3 * length rs \<Longrightarrow>
      corroborated (tally_with_floor order rs flr) \<in> {None, Some truth}"
    and "4 * h \<le> length rs \<Longrightarrow> max flr 2 \<le> length rs - h \<Longrightarrow>
      corroborated (tally_with_floor order rs flr) = Some truth"
proof -
  have lies: "votes_for a rs \<le> h" if "a \<noteq> truth" for a
    unfolding votes_for_def h using honest that by (intro length_filter_mono) metis
  have split: "length (filter (\<lambda>r. \<not> hostile r) rs) = length rs - h"
    unfolding h using sum_length_filter_compl [of hostile rs] by simp
  have truth: "length rs - h \<le> votes_for truth rs"
    unfolding votes_for_def split [symmetric] using honest by (intro length_filter_mono) blast
  show "corroborated (tally_with_floor order rs flr) \<in> {None, Some truth}"
    if "4 * h < 3 * length rs"
  proof (cases "corroborated (tally_with_floor order rs flr)")
    case (Some a)
    then have "3 * length rs \<le> 4 * votes_for a rs" using tally_bar [OF order] by blast
    with lies [of a] that Some show ?thesis by (cases "a = truth") auto
  qed simp
  have "h \<le> length rs" by (simp add: h)
  then show "4 * h \<le> length rs \<Longrightarrow> max flr 2 \<le> length rs - h \<Longrightarrow>
      corroborated (tally_with_floor order rs flr) = Some truth"
    using truth tally_bar [OF order] by fastforce
qed

text \<open>The median of a list lies wherever a strict majority of it lies.\<close>

lemma filter_prefix_out:
  assumes "\<And>i. i < m \<Longrightarrow> i < length s \<Longrightarrow> \<not> P (s ! i)"
  shows "length (filter P s) \<le> length s - m"
proof -
  have "filter P (take m s) = []" using assms by (auto simp: filter_empty_conv in_set_conv_nth)
  then have "filter P s = filter P (drop m s)"
    by (metis append_take_drop_id filter_append self_append_conv2)
  then show ?thesis by (metis length_drop length_filter_le)
qed

lemma filter_suffix_out:
  assumes "\<And>i. m \<le> i \<Longrightarrow> i < length s \<Longrightarrow> \<not> P (s ! i)"
  shows "length (filter P s) \<le> m"
proof -
  have "filter P (drop m s) = []" using assms by (auto simp: filter_empty_conv in_set_conv_nth)
  then have "filter P s = filter P (take m s)"
    by (metis append_take_drop_id append_Nil2 filter_append)
  then show ?thesis by (metis length_filter_le length_take min.cobounded2 order_trans)
qed

lemma median_of_majority:
  assumes "length xs < 2 * length (filter (\<lambda>x. low \<le> x \<and> x \<le> high) xs)"
  shows "low \<le> lower_median xs \<and> lower_median xs \<le> high"
proof -
  let ?s = "sort xs" and ?P = "\<lambda>x. low \<le> x \<and> x \<le> high" and ?m = "(length xs - 1) div 2"
  have count: "length (filter ?P ?s) = length (filter ?P xs)"
    by (metis mset_filter mset_sort size_mset)
  have m: "?m < length ?s" using assms by (cases xs) auto
  have "low \<le> ?s ! ?m"
  proof (rule ccontr)
    assume "\<not> low \<le> ?s ! ?m"
    then have "\<not> ?P (?s ! i)" if "i < Suc ?m" for i
      using that m sorted_nth_mono [OF sorted_sort, of i ?m xs] by auto
    from filter_prefix_out [of "Suc ?m" ?s ?P] this assms count show False by fastforce
  qed
  moreover have "?s ! ?m \<le> high"
  proof (rule ccontr)
    assume "\<not> ?s ! ?m \<le> high"
    then have "\<not> ?P (?s ! i)" if "?m \<le> i" "i < length ?s" for i
      using that sorted_nth_mono [OF sorted_sort, of ?m i xs] by auto
    from filter_suffix_out [of ?m ?s ?P] this assms count show False by fastforce
  qed
  ultimately show ?thesis by (simp add: lower_median_def)
qed

text \<open>The settled height never leads a credible honest claim.\<close>

lemma settled_below_credible:
  assumes "settled_peak cands = Some p" "c \<in> set (eligible cands PEAK_LAG_TOLERANCE)"
  shows "p + SETTLED_LAG \<le> claimed c"
proof -
  have "Min (set (map claimed (eligible cands PEAK_LAG_TOLERANCE))) \<le> claimed c"
    using assms(2) by (intro Min_le) auto
  with assms(1) show ?thesis
    by (auto simp: settled_peak_def common_height_def Let_def split: if_splits)
qed

text \<open>
  When a strict majority of the peers that claim a peak, at least two, are honest and within
  three blocks of the tip, the node settles on a height whatever the others claim: a height at
  least two blocks and at most eight below the tip. Neither an outlier nor a minority that agrees
  among itself can make it lead the tip, stall, or fall far behind.
\<close>

theorem honest_majority_settles:
  assumes majority: "length cands < 2 * length (filter honest cands)" "2 \<le> length (filter honest cands)"
    and honest: "\<And>c. c \<in> set cands \<Longrightarrow> honest c \<Longrightarrow> tip \<le> claimed c + 3 \<and> claimed c \<le> tip"
    and tip: "8 \<le> tip" "tip \<le> u32_max"
  shows "\<exists>p. settled_peak cands = Some p \<and> tip \<le> p + 8 \<and> p + 2 \<le> tip"
proof -
  let ?P = "\<lambda>x. tip - 3 \<le> x \<and> x \<le> tip" and ?E = "eligible cands PEAK_LAG_TOLERANCE"
  define median where "median = lower_median (map claimed cands)"
  have "length (filter honest cands) \<le> length (filter (\<lambda>c. ?P (claimed c)) cands)"
    by (rule length_filter_mono) (use honest in force)
  also have "\<dots> = length (filter ?P (map claimed cands))" by (simp add: filter_map o_def)
  finally have "length (map claimed cands) < 2 * length (filter ?P (map claimed cands))"
    using majority(1) by simp
  from median_of_majority [OF this] have median: "tip - 3 \<le> median" "median \<le> tip"
    by (simp_all add: median_def)
  have ne: "cands \<noteq> []" using majority by auto
  have E: "?E = filter (\<lambda>c. median - 3 \<le> claimed c \<and> claimed c \<le> min (median + 3) u32_max) cands"
    using ne by (simp add: eligible_def Let_def median_def PEAK_LAG_TOLERANCE_def u32_sat_add_def)
  have "length (filter honest cands) \<le> length ?E"
    unfolding E by (rule length_filter_mono) (use honest median tip in force)
  with majority have big: "2 \<le> length ?E" "length cands < length ?E * 2" "?E \<noteq> []"
    by auto
  have "2 \<le> length cands" using majority length_filter_le [of honest cands] by linarith
  with big have peak: "settled_peak cands = common_height ?E 2"
    by (simp add: settled_peak_def band_kept_a_majority_def quorum_constants)
  define lowest where "lowest = Min (set (map claimed ?E))"
  have "lowest \<in> set (map claimed ?E)" unfolding lowest_def using big(3) by (intro Min_in) auto
  then have low: "tip \<le> lowest + 6" unfolding E using median by auto
  obtain c where c: "c \<in> set cands" "honest c"
    using majority(2) by (metis filter_empty_conv le_zero_eq length_0_conv zero_neq_numeral)
  then have "c \<in> set ?E" unfolding E using honest [of c] median tip by auto
  then have "lowest \<le> claimed c" unfolding lowest_def by (intro Min_le) auto
  with honest [OF c] have "lowest \<le> tip" by simp
  moreover have "common_height ?E 2 = Some (lowest - 2)"
    unfolding common_height_def Let_def lowest_def [symmetric] using big(3) low tip by auto
  ultimately show ?thesis using peak low tip by auto
qed

section \<open>The sample is uniform\<close>

lemma draw_zone_multiple: "0 < m \<Longrightarrow> draw_zone m = draw_zone m div m * m"
  by (simp add: draw_zone_def minus_mod_eq_mult_div)

lemma draws_per_residue:
  assumes "r < m"
  shows "card {d. d < draw_zone m \<and> d mod m = r} = draw_zone m div m"
proof -
  define q where "q = draw_zone m div m"
  have zone: "draw_zone m = q * m" using assms draw_zone_multiple [of m] by (simp add: q_def)
  have "{d. d < draw_zone m \<and> d mod m = r} = (\<lambda>j. j * m + r) ` {..<q}"
  proof (intro set_eqI iffI)
    fix d assume d: "d \<in> {d. d < draw_zone m \<and> d mod m = r}"
    then have "d div m < q" using zone by (simp add: less_mult_imp_div_less)
    moreover have "d = d div m * m + r" using d by auto
    ultimately show "d \<in> (\<lambda>j. j * m + r) ` {..<q}" by blast
  next
    fix d assume "d \<in> (\<lambda>j. j * m + r) ` {..<q}"
    then obtain j where j: "j < q" "d = j * m + r" by auto
    then have "Suc j * m \<le> q * m" by (intro mult_le_mono1) simp
    with j assms show "d \<in> {d. d < draw_zone m \<and> d mod m = r}" by (simp add: zone)
  qed
  moreover have "inj_on (\<lambda>j. j * m + r) {..<q}" using assms by (intro inj_onI) simp
  ultimately show ?thesis by (simp add: card_image q_def)
qed

lemma swap_length [simp]: "length (swap i j xs) = length xs"
  by (simp add: swap_def)

lemma swap_mset: "i < length xs \<Longrightarrow> j < length xs \<Longrightarrow> mset (swap i j xs) = mset xs"
  by (simp add: swap_def mset_swap)

lemma swap_take:
  assumes "i \<le> j" "j < length xs"
  shows "take i (swap i j xs) = take i xs" "swap i j xs ! i = xs ! j"
  using assms by (auto simp: swap_def nth_list_update)

lemma in_drop: "i \<le> j \<Longrightarrow> j < length xs \<Longrightarrow> xs ! j \<in> set (drop i xs)"
  using nth_mem [of "j - i" "drop i xs"] by simp

lemma swap_rest:
  assumes "distinct xs" "i \<le> j" "j < length xs"
  shows "distinct (swap i j xs)"
    "set (drop (Suc i) (swap i j xs)) = set (drop i xs) - {xs ! j}"
proof -
  let ?ys = "swap i j xs"
  have ys: "mset ?ys = mset xs" using assms by (intro swap_mset) auto
  then show d: "distinct ?ys" using assms(1) by (metis mset_eq_imp_distinct_iff)
  have "?ys = take i ?ys @ ?ys ! i # drop (Suc i) ?ys" using assms by (intro id_take_nth_drop) simp
  then have split: "?ys = take i xs @ xs ! j # drop (Suc i) ?ys"
    using swap_take [OF assms(2,3)] by simp
  have "set ?ys = set (take i xs) \<union> set (drop i xs)"
    using ys by (metis append_take_drop_id set_append set_mset_mset)
  moreover have "set (take i xs) \<inter> set (drop i xs) = {}"
    using assms(1) by (simp add: set_take_disj_set_drop_if_distinct)
  moreover have "xs ! j \<in> set (drop i xs)"
    using assms(2,3) by (rule in_drop)
  moreover have "set ?ys = insert (xs ! j) (set (take i xs) \<union> set (drop (Suc i) ?ys))"
    by (subst split) auto
  moreover have "xs ! j \<notin> set (drop (Suc i) ?ys)" "set (take i xs) \<inter> set (drop (Suc i) ?ys) = {}"
    using d split by (metis distinct.simps(2) distinct_append, metis distinct_append disjoint_insert(1) list.set(2))
  ultimately show "set (drop (Suc i) ?ys) = set (drop i xs) - {xs ! j}" by blast
qed

lemma draw_below_sound: "draw_below m ds = Some (r, rest) \<Longrightarrow> 0 < m \<Longrightarrow> r < m"
  by (induction m ds rule: draw_below.induct) (auto split: if_splits)

lemma sample_loop_sound:
  "sample_loop left taken pool ch ds = Some (xs, rest) \<Longrightarrow> distinct pool \<Longrightarrow>
    taken + left \<le> length pool \<Longrightarrow>
    \<exists>ys. xs = ch @ ys \<and> length ys = left \<and> distinct ys \<and> set ys \<subseteq> set (drop taken pool)"
proof (induction left arbitrary: taken pool ch ds)
  case (Suc left)
  let ?m = "length pool - taken"
  obtain r rest' where d: "draw_below ?m ds = Some (r, rest')"
    and loop: "sample_loop left (Suc taken) (swap taken (taken + r) pool)
      (ch @ [swap taken (taken + r) pool ! taken]) rest' = Some (xs, rest)"
    using Suc.prems by (auto simp: uniform_below_def Let_def split: option.splits if_splits)
  have r: "taken + r < length pool" using draw_below_sound [OF d] Suc.prems(3) by auto
  note sw = swap_rest [OF Suc.prems(2) le_add1 r] swap_take [OF le_add1 r]
  obtain ys where ys: "xs = (ch @ [pool ! (taken + r)]) @ ys" "length ys = left" "distinct ys"
      "set ys \<subseteq> set (drop taken pool) - {pool ! (taken + r)}"
    using Suc.IH [OF loop] sw Suc.prems(3) by auto
  have "pool ! (taken + r) \<in> set (drop taken pool)"
    using r by (intro in_drop) simp_all
  with ys show ?case by (intro exI [of _ "pool ! (taken + r) # ys"]) auto
qed simp

text \<open>The draws, one to a choice, that no rejection discards.\<close>

definition clean :: "nat \<Rightarrow> nat list \<Rightarrow> bool" where
  "clean m ds \<longleftrightarrow> (\<forall>i < length ds. ds ! i < draw_zone (m - i))"

lemma clean_Cons: "clean m (d # ds) \<longleftrightarrow> d < draw_zone m \<and> clean (m - 1) ds"
  by (auto simp: clean_def nth_Cons split: nat.splits)

lemma sample_loop_clean:
  assumes "d < draw_zone (length pool - taken)" "taken < length pool"
  shows "sample_loop (Suc left) taken pool ch (d # ds) =
    sample_loop left (Suc taken) (swap taken (taken + d mod (length pool - taken)) pool)
      (ch @ [pool ! (taken + d mod (length pool - taken))]) ds"
proof -
  have "d mod (length pool - taken) < length pool - taken" using assms(2) by simp
  then have "taken + d mod (length pool - taken) < length pool" by simp
  from swap_take(2) [OF le_add1 this] show ?thesis
    using assms by (simp add: uniform_below_def Let_def)
qed

lemma sample_loop_choice:
  assumes pool: "distinct pool" "taken + Suc left \<le> length pool"
    and d: "d < draw_zone (length pool - taken)" and r: "r < length pool - taken"
  shows "sample_loop (Suc left) taken pool ch (d # ds) = Some (ch @ pool ! (taken + r) # ys, []) \<longleftrightarrow>
    d mod (length pool - taken) = r \<and> sample_loop left (Suc taken) (swap taken (taken + r) pool)
      (ch @ [pool ! (taken + r)]) ds = Some ((ch @ [pool ! (taken + r)]) @ ys, [])"
proof -
  define q where "q = d mod (length pool - taken)"
  have q: "taken + q < length pool" unfolding q_def
    using r mod_less_divisor [of "length pool - taken" d] by linarith
  have loop: "sample_loop (Suc left) taken pool ch (d # ds) =
      sample_loop left (Suc taken) (swap taken (taken + q) pool) (ch @ [pool ! (taken + q)]) ds"
    unfolding q_def using r by (intro sample_loop_clean [OF d]) simp
  have "q = r" if L: "sample_loop left (Suc taken) (swap taken (taken + q) pool)
      (ch @ [pool ! (taken + q)]) ds = Some (ch @ pool ! (taken + r) # ys, [])"
  proof -
    have "pool ! (taken + q) = pool ! (taken + r)"
      using sample_loop_sound [OF L swap_rest(1) [OF pool(1) le_add1 q]] pool(2) by auto
    then show ?thesis using nth_eq_iff_index_eq [OF pool(1) q, of "taken + r"] r by simp
  qed
  then show ?thesis unfolding loop q_def [symmetric] by (auto simp del: sample_loop.simps)
qed

lemma sample_loop_count:
  "distinct pool \<Longrightarrow> taken + left \<le> length pool \<Longrightarrow> distinct xs \<Longrightarrow> length xs = left \<Longrightarrow>
    set xs \<subseteq> set (drop taken pool) \<Longrightarrow>
    card {ds. length ds = left \<and> clean (length pool - taken) ds
        \<and> sample_loop left taken pool ch ds = Some (ch @ xs, [])}
      = (\<Prod>i<left. draw_zone (length pool - taken - i) div (length pool - taken - i))"
proof (induction left arbitrary: taken pool ch xs)
  case 0
  then have "{ds. length ds = 0 \<and> clean (length pool - taken) ds
      \<and> sample_loop 0 taken pool ch ds = Some (ch @ xs, [])} = {[]}"
    by (auto simp: clean_def)
  then show ?case by simp
next
  case (Suc left)
  let ?m = "length pool - taken"
  obtain x ys where xs: "xs = x # ys" using Suc.prems by (cases xs) auto
  obtain r where r: "r < ?m" "pool ! (taken + r) = x"
    using Suc.prems(5) unfolding xs by (auto simp: in_set_conv_nth)
  then have r': "taken + r < length pool" by simp
  define pool' where "pool' = swap taken (taken + r) pool"
  note sw = swap_rest [OF Suc.prems(1) le_add1 r', folded pool'_def]
  let ?S = "{ds. length ds = left \<and> clean (length pool' - Suc taken) ds
    \<and> sample_loop left (Suc taken) pool' (ch @ [x]) ds = Some ((ch @ [x]) @ ys, [])}"
  let ?D = "{d. d < draw_zone ?m \<and> d mod ?m = r}"
  have len: "length pool' - Suc taken = ?m - 1" by (simp add: pool'_def)
  have step: "sample_loop (Suc left) taken pool ch (d # ds) = Some (ch @ xs, []) \<longleftrightarrow>
      d mod ?m = r \<and> sample_loop left (Suc taken) pool' (ch @ [x]) ds = Some ((ch @ [x]) @ ys, [])"
    if "d < draw_zone ?m" for d ds
    using sample_loop_choice [OF Suc.prems(1,2) that r(1), of ch ds ys]
    unfolding pool'_def xs r(2) .
  have "{ds. length ds = Suc left \<and> clean ?m ds
      \<and> sample_loop (Suc left) taken pool ch ds = Some (ch @ xs, [])}
    = (\<lambda>(d, ds). d # ds) ` (?D \<times> ?S)" (is "?A = ?B")
  proof (intro set_eqI iffI)
    fix ds assume "ds \<in> ?A"
    then show "ds \<in> ?B" using step by (cases ds) (auto simp: clean_Cons len simp del: sample_loop.simps)
  next
    fix ds assume "ds \<in> ?B"
    then show "ds \<in> ?A" using step by (auto simp: clean_Cons len simp del: sample_loop.simps)
  qed
  moreover have "inj_on (\<lambda>(d, ds). d # ds) (?D \<times> ?S)" by (auto simp: inj_on_def)
  moreover have "set ys \<subseteq> set (drop taken pool) - {x}" using Suc.prems(3,5) by (auto simp: xs)
  then have "card ?S = (\<Prod>i<left. draw_zone (?m - 1 - i) div (?m - 1 - i))"
    using Suc.IH [of pool' "Suc taken" ys "ch @ [x]"] Suc.prems sw r xs
    by (simp add: pool'_def)
  ultimately show ?case
    by (simp add: card_image card_cartesian_product draws_per_residue [OF r(1)]
        prod.lessThan_Suc_shift del: sample_loop.simps prod.lessThan_Suc)
qed

text \<open>
  The sample of peers is uniform. Whatever the entropy, the result is as many distinct indices
  as asked for, all in range; and among the draws that no rejection discards, every ordered choice
  of distinct indices is produced by the same number of them. No place in the candidate list is
  worth anything.
\<close>

theorem sample_is_uniform:
  assumes "k \<le> n" "distinct xs" "length xs = k" "set xs \<subseteq> {..<n}"
  shows "card {ds. length ds = k \<and> clean n ds \<and> select_sample n k ds = Some (xs, [])}
      = (\<Prod>i<k. draw_zone (n - i) div (n - i))
    \<and> (select_sample n k ds = Some (ys, rest) \<longrightarrow>
        length ys = k \<and> distinct ys \<and> set ys \<subseteq> {..<n})"
proof -
  have "card {ds. length ds = k \<and> clean n ds \<and> select_sample n k ds = Some (xs, [])}
      = (\<Prod>i<k. draw_zone (n - i) div (n - i))"
    using sample_loop_count [of "[0..<n]" 0 k xs "[]"] assms
    by (simp add: select_sample_def min_absorb1 atLeast0LessThan)
  moreover have "length ys = k \<and> distinct ys \<and> set ys \<subseteq> {..<n}"
    if "select_sample n k ds = Some (ys, rest)"
    using sample_loop_sound [of k 0 "[0..<n]" "[]" ds ys rest] that assms(1)
    by (simp add: select_sample_def min_absorb1 atLeast0LessThan)
  ultimately show ?thesis by blast
qed

theorem sample_is_uniform_witness:
  "card {ds. length ds = 2 \<and> clean 3 ds \<and> select_sample 3 2 ds = Some ([2, 0], [])}
      = 6148914691236517205 * 9223372036854775807
   \<and> select_sample 3 2 [u64_max, 5, 7, 9] = Some ([2, 0], [9])"
proof -
  have "distinct [2::nat, 0]" "length [2::nat, 0] = 2" "set [2::nat, 0] \<subseteq> {..<3}" "(2::nat) \<le> 3"
    by auto
  from sample_is_uniform [OF this(4,1,2,3), of "[]"]
  have "card {ds. length ds = 2 \<and> clean 3 ds \<and> select_sample 3 2 ds = Some ([2, 0], [])}
      = (\<Prod>i<2. draw_zone (3 - i) div (3 - i))" by simp
  also have "\<dots> = draw_zone 3 div 3 * (draw_zone 2 div 2)" by (simp add: lessThan_nat_numeral)
  finally have count: "card {ds. length ds = 2 \<and> clean 3 ds \<and> select_sample 3 2 ds = Some ([2, 0], [])}
      = draw_zone 3 div 3 * (draw_zone 2 div 2)" .
  have upto: "[0..<3] = [0, 1, 2::nat]" by (simp add: numeral_3_eq_3)
  have "select_sample 3 2 [u64_max, 5, 7, 9] = sample_loop (Suc (Suc 0)) 0 [0, 1, 2] [] [u64_max, 5, 7, 9]"
    by (simp add: select_sample_def upto numeral_2_eq_2)
  also have "\<dots> = Some ([2, 0], [9])"
  proof -
    have draws: "uniform_below 3 [u64_max, 5, 7, 9] = Some (Some 2, [7, 9])"
      "uniform_below 2 [7, 9] = Some (Some 1, [9])"
      by (simp_all add: uniform_below_def draw_zone_def)
    then show ?thesis
      by (simp add: Let_def swap_def draws(1) [unfolded numeral_3_eq_3] draws(2) [unfolded numeral_2_eq_2])
  qed
  finally show ?thesis using count by (simp add: draw_zone_def)
qed

end
