(* ===== verification/Reward_Admission.thy ===== *)
theory Reward_Admission
  imports Prelude
begin

text \<open>
  Admission to a reward distributor's entry set: \<open>rewards/gate.rs\<close> and \<open>rewards/admission.rs\<close>, with
  the constants of \<open>rewards/spec_constants.rs\<close> they read.

  The three calls on a mirror coin are the trait \<open>MirrorCoinReader\<close>, whose implementation reads the
  chain: a record of functions, an argument of the gate. The gate itself is the trait
  \<open>MirrorCoinGatePort\<close>, of which \<open>SpecMirrorCoinGate\<close> is the implementation; \<open>admit\<close> is verified
  against the contract of the trait (the locale \<open>mirror_gate\<close>) and the contract is discharged for
  \<open>SpecMirrorCoinGate\<close>. A 32-byte identifier is the list of its bytes.
\<close>

type_synonym bytes32 = string

definition MIRROR_EPOCH_GRACE_SECONDS :: nat where "MIRROR_EPOCH_GRACE_SECONDS = 21600"

section \<open>The gate\<close>

record epoch_context =
  current_epoch :: "nat option"
  epoch_rolled_over_at :: "nat option"
  ec_now :: nat

definition in_grace_window :: "epoch_context \<Rightarrow> bool" where
  "in_grace_window ctx =
     (case epoch_rolled_over_at ctx of
        Some rolled_at \<Rightarrow> ec_now ctx - rolled_at < MIRROR_EPOCH_GRACE_SECONDS
      | None \<Rightarrow> False)"

record mirror_coin_reader =
  mr_advertises :: "bytes32 \<Rightarrow> bytes32 \<Rightarrow> bytes32 \<Rightarrow> nat \<Rightarrow> bool"
  mr_declares_peer :: "bytes32 \<Rightarrow> bytes32 \<Rightarrow> bool"
  mr_owner_puzzle_hash :: "bytes32 \<Rightarrow> bytes32 option"

datatype gate_ineligible_reason =
  AbsentCoinIdHint | DoesNotAdvertise | PeerNotDeclared | AbsentDeclaration

datatype gate_outcome =
  Eligible (payout_puzzle_hash: bytes32)
| Ineligible gate_ineligible_reason

datatype gate_error = EpochOrdinalUnavailable

record spec_mirror_coin_gate =
  smg_reader :: mirror_coin_reader
  smg_store_id :: bytes32
  smg_root :: bytes32
  smg_coin_hint_for :: "(bytes32 \<times> bytes32 option) list"

definition advertises_current_or_previous ::
  "spec_mirror_coin_gate \<Rightarrow> bytes32 \<Rightarrow> nat \<Rightarrow> bool \<Rightarrow> bool"
where
  "advertises_current_or_previous self coin_id census_epoch in_grace =
     (let advertises = (\<lambda>epoch. mr_advertises (smg_reader self) coin_id (smg_store_id self)
            (smg_root self) epoch)
      in if advertises census_epoch then True
         else if in_grace \<and> census_epoch > 0 then advertises (census_epoch - 1)
         else False)"

definition gate_evaluate ::
  "spec_mirror_coin_gate \<Rightarrow> bytes32 \<Rightarrow> epoch_context \<Rightarrow> gate_error + gate_outcome"
where
  "gate_evaluate self peer_id ctx =
     (case current_epoch ctx of
        None \<Rightarrow> Inl EpochOrdinalUnavailable
      | Some epoch \<Rightarrow>
          (case (if epoch = 0 then None else Some (epoch - 1)) of
             None \<Rightarrow> Inr (Ineligible DoesNotAdvertise)
           | Some census_epoch \<Rightarrow>
               (case Option.bind (map_of (smg_coin_hint_for self) peer_id) id of
                  None \<Rightarrow> Inr (Ineligible AbsentCoinIdHint)
                | Some hint \<Rightarrow>
                    if \<not> advertises_current_or_previous self hint census_epoch (in_grace_window ctx)
                    then Inr (Ineligible DoesNotAdvertise)
                    else if \<not> mr_declares_peer (smg_reader self) hint peer_id
                    then Inr (Ineligible PeerNotDeclared)
                    else (case mr_owner_puzzle_hash (smg_reader self) hint of
                            Some h \<Rightarrow> Inr (Eligible h)
                          | None \<Rightarrow> Inr (Ineligible AbsentDeclaration)))))"

section \<open>Admission\<close>

datatype discovery_path = DhtWalk | LocalProviderSet | DiscoveredCache | ManualAdd

record candidate =
  cand_peer_id :: bytes32
  cand_path :: discovery_path

record own_identity =
  own_peer_id :: bytes32
  controlled_puzzle_hashes :: "bytes32 list"

definition controls :: "own_identity \<Rightarrow> bytes32 \<Rightarrow> bool" where
  "controls own puzzle_hash = list_ex (\<lambda>h. h = puzzle_hash) (controlled_puzzle_hashes own)"

record admitted_peer =
  ap_payout_puzzle_hash :: bytes32
  ap_launcher_id :: bytes32

datatype admission_decision =
  Admit admitted_peer | SelfExcluded | GateIneligible | ChainSourceUnavailable

definition admit ::
  "candidate \<Rightarrow> own_identity \<Rightarrow> (bytes32 \<Rightarrow> epoch_context \<Rightarrow> gate_error + gate_outcome)
     \<Rightarrow> epoch_context \<Rightarrow> bytes32 \<Rightarrow> admission_decision"
where
  "admit cand own evaluate ctx launcher_id =
     (if cand_peer_id cand = own_peer_id own then SelfExcluded
      else case evaluate (cand_peer_id cand) ctx of
             Inl EpochOrdinalUnavailable \<Rightarrow> ChainSourceUnavailable
           | Inr (Eligible h) \<Rightarrow>
               if controls own h then SelfExcluded
               else Admit \<lparr>ap_payout_puzzle_hash = h, ap_launcher_id = launcher_id\<rparr>
           | Inr (Ineligible _) \<Rightarrow> GateIneligible)"

section \<open>The contract of the gate\<close>

text \<open>
  What \<open>admit\<close> relies on: the gate calls a peer eligible exactly when it qualifies, and fails exactly
  when the epoch ordinal was not supplied. \<open>qualifies\<close> is the rule the gate implements.
\<close>

locale mirror_gate =
  fixes evaluate :: "bytes32 \<Rightarrow> epoch_context \<Rightarrow> gate_error + gate_outcome"
    and qualifies :: "epoch_context \<Rightarrow> bytes32 \<Rightarrow> bytes32 \<Rightarrow> bool"
  assumes eligible_iff: "evaluate peer ctx = Inr (Eligible h) \<longleftrightarrow> qualifies ctx peer h"
    and fault_iff: "evaluate peer ctx = Inl e \<longleftrightarrow> current_epoch ctx = None"
begin

lemma admit_iff:
  "admit cand own evaluate ctx launcher = Admit ap \<longleftrightarrow>
     cand_peer_id cand \<noteq> own_peer_id own
     \<and> ap_payout_puzzle_hash ap \<notin> set (controlled_puzzle_hashes own)
     \<and> ap_launcher_id ap = launcher
     \<and> qualifies ctx (cand_peer_id cand) (ap_payout_puzzle_hash ap)"
  by (cases ap) (auto simp: admit_def controls_def list_ex_iff eligible_iff [symmetric]
      split: sum.splits gate_outcome.splits gate_error.splits)

lemma admit_fault:
  "admit cand own evaluate ctx launcher = ChainSourceUnavailable \<longleftrightarrow>
     cand_peer_id cand \<noteq> own_peer_id own \<and> current_epoch ctx = None"
proof -
  have "current_epoch ctx = None \<longleftrightarrow> (\<exists>e. evaluate (cand_peer_id cand) ctx = Inl e)"
    by (simp add: fault_iff)
  then show ?thesis
    by (auto simp: admit_def split: sum.splits gate_outcome.splits gate_error.splits)
qed

lemma admit_payout_unique:
  assumes "qualifies ctx peer h" "qualifies ctx peer h'"
  shows "h = h'"
  using assms by (simp add: eligible_iff [symmetric])

end

definition coin_qualifies ::
  "spec_mirror_coin_gate \<Rightarrow> epoch_context \<Rightarrow> bytes32 \<Rightarrow> bytes32 \<Rightarrow> bool"
where
  "coin_qualifies g ctx peer h \<longleftrightarrow>
     (\<exists>n coin. current_epoch ctx = Some (Suc n)
        \<and> map_of (smg_coin_hint_for g) peer = Some (Some coin)
        \<and> (mr_advertises (smg_reader g) coin (smg_store_id g) (smg_root g) n
           \<or> 0 < n \<and> in_grace_window ctx
              \<and> mr_advertises (smg_reader g) coin (smg_store_id g) (smg_root g) (n - 1))
        \<and> mr_declares_peer (smg_reader g) coin peer
        \<and> mr_owner_puzzle_hash (smg_reader g) coin = Some h)"

lemma gate_evaluate_eligible:
  "gate_evaluate g peer ctx = Inr (Eligible h) \<longleftrightarrow> coin_qualifies g ctx peer h"
proof (cases "current_epoch ctx")
  case None
  then show ?thesis by (simp add: gate_evaluate_def coin_qualifies_def)
next
  case (Some e)
  show ?thesis
  proof (cases "\<exists>coin. map_of (smg_coin_hint_for g) peer = Some (Some coin)")
    case True
    then obtain coin where "map_of (smg_coin_hint_for g) peer = Some (Some coin)" by blast
    with Some show ?thesis
      by (cases e) (auto simp: gate_evaluate_def coin_qualifies_def advertises_current_or_previous_def
          Let_def split: option.splits if_splits)
  next
    case False
    then have "Option.bind (map_of (smg_coin_hint_for g) peer) id = None"
      by (cases "map_of (smg_coin_hint_for g) peer") auto
    with Some False show ?thesis
      by (auto simp: gate_evaluate_def coin_qualifies_def split: option.splits)
  qed
qed

lemma gate_evaluate_fault:
  "gate_evaluate g peer ctx = Inl e \<longleftrightarrow> current_epoch ctx = None"
  by (cases e) (auto simp: gate_evaluate_def split: option.splits if_splits)

interpretation spec_gate: mirror_gate "gate_evaluate g" "coin_qualifies g" for g
  by unfold_locales (rule gate_evaluate_eligible gate_evaluate_fault)+

section \<open>Who is admitted\<close>

text \<open>
  C24: who becomes an entry. A candidate is admitted, whatever discovery path produced it, exactly when
  it is not this node on either coordinate (its peer id, or a payout address this node's wallet
  controls) and its mirror coin qualifies: the epoch is known and not the first, the coin advertises
  this store and root for the census of exactly the previous epoch (or, during the grace window after
  a rollover, the one before), declares this peer, and names the payout address. A missing epoch
  ordinal is reported as the node's own fault, for every candidate but itself, and never as the
  candidate's.
\<close>

theorem admission_rule:
  "(admit cand own (gate_evaluate g) ctx launcher = Admit ap \<longleftrightarrow>
      cand_peer_id cand \<noteq> own_peer_id own
      \<and> ap_payout_puzzle_hash ap \<notin> set (controlled_puzzle_hashes own)
      \<and> ap_launcher_id ap = launcher
      \<and> coin_qualifies g ctx (cand_peer_id cand) (ap_payout_puzzle_hash ap))
   \<and> (admit cand own (gate_evaluate g) ctx launcher = ChainSourceUnavailable \<longleftrightarrow>
      cand_peer_id cand \<noteq> own_peer_id own \<and> current_epoch ctx = None)
   \<and> admit cand own (gate_evaluate g) ctx launcher
      = admit (cand\<lparr>cand_path := path\<rparr>) own (gate_evaluate g) ctx launcher"
  using spec_gate.admit_iff spec_gate.admit_fault by (simp add: admit_def)

end
