(* ===== verification/Reward_Challenge.thy ===== *)
theory Reward_Challenge
  imports Reward_Admission
begin

text \<open>
  Possession challenges: \<open>rewards/challenge.rs\<close>. Which window of which resource a mirror is asked
  for, the memory that keeps a window from being asked again too soon, the comparison of the answer,
  and the strikes the outcome feeds.

  The words the operating system's generator draws are an argument, one natural below \<open>2 ^ 64\<close> per
  draw; the transport is an argument too. The workspace is built with overflow checks, so an addition
  that leaves its type panics: a panic is the value \<open>None\<close>.
\<close>

definition CHALLENGE_WINDOW_BYTES :: nat where "CHALLENGE_WINDOW_BYTES = 65536"
definition CHALLENGE_NO_REPEAT_CYCLES :: nat where "CHALLENGE_NO_REPEAT_CYCLES = 8"
definition CHALLENGE_STRIKES_TO_EVICT :: nat where "CHALLENGE_STRIKES_TO_EVICT = 3"

record resource =
  res_id :: bytes32
  res_length :: nat

record window_plan =
  resource_index :: nat
  wp_offset :: nat
  wp_length :: nat

definition csprng_u64_below :: "nat \<Rightarrow> nat \<Rightarrow> nat" where
  "csprng_u64_below draw bound = (if bound = 0 then 0 else draw mod bound)"

section \<open>The memory of issued windows\<close>

type_synonym challenge_subject = "bytes32 \<times> bytes32"
type_synonym issued_window = "nat \<times> bytes32 \<times> nat"
type_synonym no_repeat_memory = "(challenge_subject \<times> issued_window list) list"

definition memory_new :: no_repeat_memory where
  "memory_new = []"

definition is_repeat :: "no_repeat_memory \<Rightarrow> bytes32 \<Rightarrow> bytes32 \<Rightarrow> bytes32 \<Rightarrow> nat \<Rightarrow> nat \<Rightarrow> bool" where
  "is_repeat recent peer_id launcher_id resource_id offset cycle_index =
     (case map_of recent (peer_id, launcher_id) of
        None \<Rightarrow> False
      | Some windows \<Rightarrow>
          list_ex (\<lambda>(cyc, rid, off). rid = resource_id \<and> off = offset
            \<and> cycle_index - cyc < CHALLENGE_NO_REPEAT_CYCLES) windows)"

definition prune_memory :: "nat \<Rightarrow> no_repeat_memory \<Rightarrow> no_repeat_memory" where
  "prune_memory cycle_index recent =
     filter (\<lambda>(_, windows). windows \<noteq> [])
       (map (\<lambda>(subject, windows).
          (subject, filter (\<lambda>(cyc, _, _). cycle_index - cyc < CHALLENGE_NO_REPEAT_CYCLES) windows))
        recent)"

definition record_window ::
  "bytes32 \<Rightarrow> bytes32 \<Rightarrow> bytes32 \<Rightarrow> nat \<Rightarrow> nat \<Rightarrow> no_repeat_memory \<Rightarrow> no_repeat_memory"
where
  "record_window peer_id launcher_id resource_id offset cycle_index recent =
     (let kept = prune_memory cycle_index recent;
          windows = (case map_of kept (peer_id, launcher_id) of Some ws \<Rightarrow> ws | None \<Rightarrow> [])
      in AList.update (peer_id, launcher_id) (windows @ [(cycle_index, resource_id, offset)]) kept)"

section \<open>The choice of a window\<close>

text \<open>\<open>Iterator::sum\<close> over \<open>u64\<close>: an overflow panics.\<close>

fun u64_sum :: "nat \<Rightarrow> nat list \<Rightarrow> nat option" where
  "u64_sum acc [] = Some acc"
| "u64_sum acc (n # ns) = (if acc + n \<le> u64_max then u64_sum (acc + n) ns else None)"

fun pick_position :: "nat \<Rightarrow> nat \<Rightarrow> nat \<Rightarrow> resource list \<Rightarrow> nat option" where
  "pick_position pick cumulative i [] = None"
| "pick_position pick cumulative i (r # rs) =
     (let cumulative' = cumulative + res_length r
      in if pick < cumulative' then Some i else pick_position pick cumulative' (Suc i) rs)"

text \<open>One attempt: the plan two draws lead to, and the resource it names.\<close>

definition plan_window :: "resource list \<Rightarrow> nat \<Rightarrow> nat \<Rightarrow> nat \<Rightarrow> window_plan" where
  "plan_window resources total_length draw1 draw2 =
     (let pick = csprng_u64_below draw1 total_length;
          i = (case pick_position pick 0 0 resources of
                 Some i \<Rightarrow> i | None \<Rightarrow> length resources - 1);
          r = resources ! i;
          len = min CHALLENGE_WINDOW_BYTES (res_length r);
          max_offset = res_length r - len
      in \<lparr>resource_index = i, wp_offset = csprng_u64_below draw2 (max_offset + 1), wp_length = len\<rparr>)"

fun select_loop ::
  "nat \<Rightarrow> resource list \<Rightarrow> nat \<Rightarrow> bytes32 \<Rightarrow> bytes32 \<Rightarrow> nat \<Rightarrow> (nat \<Rightarrow> nat) \<Rightarrow> nat \<Rightarrow> no_repeat_memory
     \<Rightarrow> window_plan option \<times> no_repeat_memory"
where
  "select_loop 0 resources tot peer launcher cycle_index draws k memory = (None, memory)"
| "select_loop (Suc attempts) resources tot peer launcher cycle_index draws k memory =
     (let plan = plan_window resources tot (draws k) (draws (k + 1));
          rid = res_id (resources ! resource_index plan)
      in if \<not> is_repeat memory peer launcher rid (wp_offset plan) cycle_index
         then (Some plan, record_window peer launcher rid (wp_offset plan) cycle_index memory)
         else select_loop attempts resources tot peer launcher cycle_index draws (k + 2) memory)"

definition select_window ::
  "resource list \<Rightarrow> bytes32 \<Rightarrow> bytes32 \<Rightarrow> nat \<Rightarrow> (nat \<Rightarrow> nat) \<Rightarrow> no_repeat_memory
     \<Rightarrow> (window_plan option \<times> no_repeat_memory) option"
where
  "select_window resources peer_id launcher_id cycle_index draws memory =
     (case u64_sum 0 (map res_length resources) of
        None \<Rightarrow> None
      | Some total_length \<Rightarrow>
          if resources = [] \<or> total_length = 0 then Some (None, memory)
          else Some (select_loop 16 resources total_length peer_id launcher_id cycle_index draws 0 memory))"

section \<open>The comparison\<close>

datatype challenge_failure =
  Transport | PeerIdMismatch | Timeout | RpcError string | FrameLengthMismatch | OffsetMismatch
| LayoutMismatch | DecodeError

type_synonym challenge_transport =
  "bytes32 \<Rightarrow> bytes32 \<Rightarrow> nat \<Rightarrow> nat \<Rightarrow> challenge_failure + string"

definition run_window ::
  "challenge_transport \<Rightarrow> bytes32 \<Rightarrow> bytes32 \<Rightarrow> nat \<Rightarrow> nat \<Rightarrow> string \<Rightarrow> bool"
where
  "run_window transport peer_id resource_id offset len expected_bytes =
     (case transport peer_id resource_id offset len of
        Inr bytes \<Rightarrow> bytes = expected_bytes
      | Inl _ \<Rightarrow> False)"

fun run_cycle ::
  "challenge_transport \<Rightarrow> bytes32 \<Rightarrow> (bytes32 \<times> nat \<times> nat \<times> string) list \<Rightarrow> bool"
where
  "run_cycle transport peer_id [] = True"
| "run_cycle transport peer_id ((resource_id, offset, len, expected) # windows) =
     (if \<not> run_window transport peer_id resource_id offset len expected then False
      else run_cycle transport peer_id windows)"

section \<open>Strikes\<close>

type_synonym strike_tracker = "(challenge_subject \<times> nat) list"

definition strikes_new :: strike_tracker where
  "strikes_new = []"

definition consecutive_failures :: "bytes32 \<Rightarrow> bytes32 \<Rightarrow> strike_tracker \<Rightarrow> nat" where
  "consecutive_failures peer_id launcher_id s =
     (case map_of s (peer_id, launcher_id) of Some n \<Rightarrow> n | None \<Rightarrow> 0)"

definition record_peer_outcome ::
  "bytes32 \<Rightarrow> bytes32 \<Rightarrow> bool \<Rightarrow> strike_tracker \<Rightarrow> (bool \<times> strike_tracker) option"
where
  "record_peer_outcome peer_id launcher_id passed s =
     (let key = (peer_id, launcher_id) in
      if passed then Some (False, AList.update key 0 s)
      else let count = consecutive_failures peer_id launcher_id s + 1
           in if count > u32_max then None
              else Some (count \<ge> CHALLENGE_STRIKES_TO_EVICT, AList.update key count s))"

definition record_prover_fault :: "bytes32 \<Rightarrow> bytes32 \<Rightarrow> strike_tracker \<Rightarrow> strike_tracker" where
  "record_prover_fault peer_id launcher_id s = s"

definition reset_all :: "strike_tracker \<Rightarrow> strike_tracker" where
  "reset_all s = []"

section \<open>Facts about the choice\<close>

lemma u64_sum_eq:
  "acc \<le> u64_max \<Longrightarrow>
     u64_sum acc ns = (if acc + sum_list ns \<le> u64_max then Some (acc + sum_list ns) else None)"
  by (induction acc ns rule: u64_sum.induct) auto

lemma pick_position_spec:
  "pick < c + sum_list (map res_length rs) \<Longrightarrow> c \<le> pick \<Longrightarrow>
     \<exists>j < length rs. pick_position pick c i rs = Some (i + j)
       \<and> c + sum_list (map res_length (take j rs)) \<le> pick
       \<and> pick < c + sum_list (map res_length (take (Suc j) rs))"
proof (induction pick c i rs rule: pick_position.induct)
  case (2 pick c i r rs)
  show ?case
  proof (cases "pick < c + res_length r")
    case True
    then show ?thesis using 2 by (intro exI [of _ 0]) simp
  next
    case False
    then obtain j where "j < length rs" "pick_position pick (c + res_length r) (Suc i) rs = Some (Suc i + j)"
      "c + res_length r + sum_list (map res_length (take j rs)) \<le> pick"
      "pick < c + res_length r + sum_list (map res_length (take (Suc j) rs))"
      using 2 by (auto simp: add.assoc)
    with False show ?thesis by (intro exI [of _ "Suc j"]) (simp add: add.assoc)
  qed
qed simp

text \<open>A plan that is worth asking: it lies in the resource the first draw fell into.\<close>

definition plan_ok :: "resource list \<Rightarrow> nat \<Rightarrow> nat \<Rightarrow> window_plan \<Rightarrow> bool" where
  "plan_ok rs draw1 draw2 plan \<longleftrightarrow>
     (let i = resource_index plan; r = rs ! i;
          pick = draw1 mod sum_list (map res_length rs);
          start = sum_list (map res_length (take i rs))
      in i < length rs \<and> start \<le> pick \<and> pick < start + res_length r
         \<and> wp_length plan = min CHALLENGE_WINDOW_BYTES (res_length r) \<and> 0 < wp_length plan
         \<and> wp_offset plan = draw2 mod (res_length r - wp_length plan + 1)
         \<and> wp_offset plan + wp_length plan \<le> res_length r)"

lemma plan_window_ok:
  assumes "tot = sum_list (map res_length rs)" "0 < tot"
  shows "plan_ok rs d1 d2 (plan_window rs tot d1 d2)"
proof -
  let ?pick = "d1 mod tot"
  obtain j where j: "j < length rs" "pick_position ?pick 0 0 rs = Some j"
    "sum_list (map res_length (take j rs)) \<le> ?pick"
    "?pick < sum_list (map res_length (take (Suc j) rs))"
    using pick_position_spec [of ?pick 0 rs 0] assms by auto
  have take: "sum_list (map res_length (take (Suc j) rs))
      = sum_list (map res_length (take j rs)) + res_length (rs ! j)"
    using j(1) by (simp add: take_Suc_conv_app_nth)
  then have pos: "0 < res_length (rs ! j)" using j by simp
  let ?max = "res_length (rs ! j) - min CHALLENGE_WINDOW_BYTES (res_length (rs ! j))"
  have "d2 mod (?max + 1) \<le> ?max"
    using mod_less_divisor [of "?max + 1" d2] by simp
  then have "d2 mod (?max + 1) + min CHALLENGE_WINDOW_BYTES (res_length (rs ! j)) \<le> res_length (rs ! j)"
    by linarith
  moreover have plan: "plan_window rs tot d1 d2 = \<lparr>resource_index = j, wp_offset = d2 mod (?max + 1),
      wp_length = min CHALLENGE_WINDOW_BYTES (res_length (rs ! j))\<rparr>"
    using assms(2) j(2) by (simp add: plan_window_def csprng_u64_below_def Let_def)
  moreover have "0 < min CHALLENGE_WINDOW_BYTES (res_length (rs ! j))"
    using pos by (simp add: CHALLENGE_WINDOW_BYTES_def)
  ultimately show ?thesis
    using j(1,3,4) unfolding take plan plan_ok_def Let_def assms(1) [symmetric] by simp
qed

lemma select_loop_cases:
  "select_loop n rs tot peer launcher cyc draws k mem = (res, mem') \<Longrightarrow>
     (case res of
        None \<Rightarrow> mem' = mem \<and> (\<forall>j < n. let plan = plan_window rs tot (draws (k + 2 * j)) (draws (k + 2 * j + 1)) in
            is_repeat mem peer launcher (res_id (rs ! resource_index plan)) (wp_offset plan) cyc)
      | Some plan \<Rightarrow>
          (\<exists>j < n. plan = plan_window rs tot (draws (k + 2 * j)) (draws (k + 2 * j + 1)))
          \<and> \<not> is_repeat mem peer launcher (res_id (rs ! resource_index plan)) (wp_offset plan) cyc
          \<and> mem' = record_window peer launcher (res_id (rs ! resource_index plan)) (wp_offset plan) cyc mem)"
proof (induction n arbitrary: k)
  case (Suc n)
  let ?plan = "plan_window rs tot (draws k) (draws (k + 1))"
  show ?case
  proof (cases "is_repeat mem peer launcher (res_id (rs ! resource_index ?plan)) (wp_offset ?plan) cyc")
    case True
    then have "select_loop n rs tot peer launcher cyc draws (k + 2) mem = (res, mem')"
      using Suc.prems by (simp add: Let_def)
    note IH = Suc.IH [OF this]
    have shift: "k + 2 + 2 * j = k + 2 * Suc j" "k + 2 + 2 * j + 1 = k + 2 * Suc j + 1" for j
      by simp_all
    show ?thesis
    proof (cases res)
      case None
      have "let plan = plan_window rs tot (draws (k + 2 * j)) (draws (k + 2 * j + 1)) in
          is_repeat mem peer launcher (res_id (rs ! resource_index plan)) (wp_offset plan) cyc"
        if "j < Suc n" for j
        using that True IH unfolding None option.case shift by (cases j) (simp_all add: Let_def)
      with IH None show ?thesis by simp
    next
      case (Some plan)
      then obtain j where "j < n"
        "plan = plan_window rs tot (draws (k + 2 * Suc j)) (draws (k + 2 * Suc j + 1))"
        using IH unfolding Some option.case shift by blast
      then have "\<exists>j < Suc n. plan = plan_window rs tot (draws (k + 2 * j)) (draws (k + 2 * j + 1))"
        using Suc_mono by blast
      with IH Some show ?thesis by simp
    qed
  next
    case False
    then have eq: "res = Some ?plan"
      "mem' = record_window peer launcher (res_id (rs ! resource_index ?plan)) (wp_offset ?plan) cyc mem"
      using Suc.prems by (auto simp: Let_def)
    have "\<exists>j < Suc n. ?plan = plan_window rs tot (draws (k + 2 * j)) (draws (k + 2 * j + 1))"
      by (intro exI [of _ 0]) simp
    with eq False show ?thesis by simp
  qed
qed auto

lemma select_window_first:
  assumes "sum_list (map res_length rs) \<le> u64_max" "0 < sum_list (map res_length rs)"
    and "plan = plan_window rs (sum_list (map res_length rs)) (draws 0) (draws 1)"
    and "rid = res_id (rs ! resource_index plan)"
    and "\<not> is_repeat mem peer launcher rid (wp_offset plan) cyc"
  shows "select_window rs peer launcher cyc draws mem
    = Some (Some plan, record_window peer launcher rid (wp_offset plan) cyc mem)"
proof -
  have "select_loop (Suc 15) rs (sum_list (map res_length rs)) peer launcher cyc draws 0 mem
      = (Some plan, record_window peer launcher rid (wp_offset plan) cyc mem)"
    using assms(3-5) by (simp only: select_loop.simps Let_def add_0) simp
  with assms(1,2) show ?thesis
    by (cases "rs = []") (simp_all add: select_window_def u64_sum_eq del: sum_list_eq_0_iff)
qed

section \<open>Facts about the memory\<close>

definition windows_of :: "no_repeat_memory \<Rightarrow> challenge_subject \<Rightarrow> issued_window list" where
  "windows_of mem s = (case map_of mem s of Some ws \<Rightarrow> ws | None \<Rightarrow> [])"

lemma is_repeat_windows:
  "is_repeat mem p l rid off cyc \<longleftrightarrow>
     (\<exists>c. (c, rid, off) \<in> set (windows_of mem (p, l)) \<and> cyc - c < CHALLENGE_NO_REPEAT_CYCLES)"
  by (auto simp: is_repeat_def windows_of_def list_ex_iff split: option.splits)

lemma map_of_filtered:
  "hm_ok m \<Longrightarrow> map_of (filter (\<lambda>(_, ws). ws \<noteq> []) (map (\<lambda>(k, ws). (k, f ws)) m)) k
     = (case map_of m k of Some ws \<Rightarrow> if f ws = [] then None else Some (f ws) | None \<Rightarrow> None)"
  by (induction m) (force simp: hm_ok_def split: option.splits dest: map_of_SomeD)+

lemma windows_of_prune:
  "hm_ok mem \<Longrightarrow> windows_of (prune_memory cyc mem) s
     = filter (\<lambda>(c, _, _). cyc - c < CHALLENGE_NO_REPEAT_CYCLES) (windows_of mem s)"
  by (simp add: windows_of_def prune_memory_def map_of_filtered split: option.splits)

lemma hm_ok_prune: "hm_ok mem \<Longrightarrow> hm_ok (prune_memory cyc mem)"
  unfolding prune_memory_def by (induction mem) (force simp: hm_ok_def)+

lemma hm_ok_record: "hm_ok mem \<Longrightarrow> hm_ok (record_window p l rid off cyc mem)"
  by (simp add: record_window_def Let_def hm_ok_update hm_ok_prune)

lemma windows_of_record:
  "hm_ok mem \<Longrightarrow> windows_of (record_window p l rid off cyc mem) s
     = filter (\<lambda>(c, _, _). cyc - c < CHALLENGE_NO_REPEAT_CYCLES) (windows_of mem s)
       @ (if s = (p, l) then [(cyc, rid, off)] else [])"
  using windows_of_prune [of mem cyc s]
  by (auto simp: record_window_def Let_def windows_of_def update_conv' split: option.splits)

text \<open>
  The memory against the full history of issued windows: it holds, per subject and in order, exactly
  the windows inside the horizon of the last one issued, and no subject without one.
\<close>

definition latest :: "(challenge_subject \<times> issued_window) list \<Rightarrow> nat" where
  "latest h = (if h = [] then 0 else fst (snd (last h)))"

definition remembers :: "no_repeat_memory \<Rightarrow> (challenge_subject \<times> issued_window) list \<Rightarrow> bool" where
  "remembers mem h \<longleftrightarrow> hm_ok mem \<and> [] \<notin> snd ` set mem \<and>
     (\<forall>s. windows_of mem s
        = map snd (filter (\<lambda>(s', c, _). s' = s \<and> latest h - c < CHALLENGE_NO_REPEAT_CYCLES) h))"

lemma remembersD:
  "remembers mem h \<Longrightarrow> windows_of mem s
     = map snd (filter (\<lambda>(s', c, _). s' = s \<and> latest h - c < CHALLENGE_NO_REPEAT_CYCLES) h)"
  unfolding remembers_def by blast

lemma remembers_new: "remembers memory_new []"
  by (simp add: remembers_def memory_new_def windows_of_def hm_ok_def)

lemma remembers_record:
  assumes "remembers mem h" "latest h \<le> cyc"
  shows "remembers (record_window p l rid off cyc mem) (h @ [((p, l), cyc, rid, off)])"
proof -
  have ok: "hm_ok mem" using assms(1) by (simp add: remembers_def)
  have "[] \<notin> snd ` set (record_window p l rid off cyc mem)"
    by (auto simp: record_window_def Let_def prune_memory_def update_conv'
        dest!: in_set_update split: option.splits)
  moreover have "filter (\<lambda>(c, _, _). cyc - c < CHALLENGE_NO_REPEAT_CYCLES) (windows_of mem s)
      = map snd (filter (\<lambda>(s', c, _). s' = s \<and> cyc - c < CHALLENGE_NO_REPEAT_CYCLES) h)" for s
  proof -
    have "latest h - c < CHALLENGE_NO_REPEAT_CYCLES" if "cyc - c < CHALLENGE_NO_REPEAT_CYCLES" for c
      using that assms(2) by simp
    then show ?thesis
      by (auto simp: remembersD [OF assms(1)] filter_map o_def case_prod_beta intro!: arg_cong [where f = "map snd"] filter_cong)
  qed
  ultimately show ?thesis
    using hm_ok_record [OF ok]
    by (simp add: remembers_def windows_of_record [OF ok] latest_def CHALLENGE_NO_REPEAT_CYCLES_def)
qed

lemma remembers_repeat:
  assumes "remembers mem h" "latest h \<le> cyc"
  shows "is_repeat mem p l rid off cyc \<longleftrightarrow>
    (\<exists>c. ((p, l), c, rid, off) \<in> set h \<and> cyc - c < CHALLENGE_NO_REPEAT_CYCLES)"
proof -
  have "latest h - c < CHALLENGE_NO_REPEAT_CYCLES" if "cyc - c < CHALLENGE_NO_REPEAT_CYCLES" for c
    using that assms(2) by simp
  then show ?thesis by (force simp: is_repeat_windows remembersD [OF assms(1)])
qed

section \<open>Issuing windows\<close>

text \<open>A run of the selection over one memory: the windows issued, oldest first.\<close>

record challenge_call =
  cc_resources :: "resource list"
  cc_peer :: bytes32
  cc_launcher :: bytes32
  cc_cycle :: nat
  cc_draws :: "nat \<Rightarrow> nat"

definition issue :: "challenge_call \<Rightarrow> no_repeat_memory
    \<Rightarrow> ((challenge_subject \<times> issued_window) list \<times> no_repeat_memory) option" where
  "issue c mem =
     (case select_window (cc_resources c) (cc_peer c) (cc_launcher c) (cc_cycle c) (cc_draws c) mem of
        None \<Rightarrow> None
      | Some (None, mem') \<Rightarrow> Some ([], mem')
      | Some (Some plan, mem') \<Rightarrow>
          Some ([((cc_peer c, cc_launcher c), cc_cycle c,
                  res_id (cc_resources c ! resource_index plan), wp_offset plan)], mem'))"

fun issue_run :: "challenge_call list \<Rightarrow> (challenge_subject \<times> issued_window) list \<Rightarrow> no_repeat_memory
    \<Rightarrow> ((challenge_subject \<times> issued_window) list \<times> no_repeat_memory) option" where
  "issue_run [] h mem = Some (h, mem)"
| "issue_run (c # cs) h mem =
     (case issue c mem of None \<Rightarrow> None | Some (w, mem') \<Rightarrow> issue_run cs (h @ w) mem')"

text \<open>No window is issued to a subject twice within the horizon.\<close>

definition spaced :: "(challenge_subject \<times> issued_window) list \<Rightarrow> bool" where
  "spaced h \<longleftrightarrow> sorted_wrt (\<lambda>(s, c, w) (s', c', w'). s = s' \<and> w = w' \<longrightarrow>
     c + CHALLENGE_NO_REPEAT_CYCLES \<le> c') h"

lemma issue_cases:
  assumes "issue c mem = Some (w, mem')"
  obtains (none) "w = []" "mem' = mem"
  | (some) plan j where "j < 16"
      "plan_ok (cc_resources c) (cc_draws c (2 * j)) (cc_draws c (2 * j + 1)) plan"
      "let rid = res_id (cc_resources c ! resource_index plan) in
         w = [((cc_peer c, cc_launcher c), cc_cycle c, rid, wp_offset plan)]
         \<and> \<not> is_repeat mem (cc_peer c) (cc_launcher c) rid (wp_offset plan) (cc_cycle c)
         \<and> mem' = record_window (cc_peer c) (cc_launcher c) rid (wp_offset plan) (cc_cycle c) mem"
proof -
  let ?tot = "sum_list (map res_length (cc_resources c))"
  consider "w = [] \<and> mem' = mem"
    | res where "0 < ?tot"
      "select_loop 16 (cc_resources c) ?tot (cc_peer c) (cc_launcher c) (cc_cycle c) (cc_draws c) 0 mem
         = (res, mem')"
      "w = (case res of None \<Rightarrow> [] | Some plan \<Rightarrow> [((cc_peer c, cc_launcher c), cc_cycle c,
             res_id (cc_resources c ! resource_index plan), wp_offset plan)])"
    using assms by (auto simp: issue_def select_window_def u64_sum_eq split: option.splits if_splits prod.splits)
  then show thesis
  proof cases
    case 1
    then show thesis using none by simp
  next
    case (2 res)
    show thesis
    proof (cases res)
      case None
      then show thesis using select_loop_cases [OF 2(2)] 2(3) none by simp
    next
      case (Some plan)
      with select_loop_cases [OF 2(2)] obtain j where "j < 16"
        "plan = plan_window (cc_resources c) ?tot (cc_draws c (2 * j)) (cc_draws c (2 * j + 1))"
        by auto
      with select_loop_cases [OF 2(2)] Some 2(1,3) plan_window_ok [of ?tot "cc_resources c"]
      show thesis by (intro some [of j plan]) (simp_all add: Let_def)
    qed
  qed
qed

lemma issue_step:
  assumes "issue c mem = Some (w, mem')" "remembers mem h" "spaced h" "latest h \<le> cc_cycle c"
    and "\<forall>x \<in> set h. fst (snd x) \<le> latest h"
  shows "remembers mem' (h @ w) \<and> spaced (h @ w) \<and> latest (h @ w) \<le> cc_cycle c
    \<and> (\<forall>x \<in> set (h @ w). fst (snd x) \<le> latest (h @ w))"
  using assms(1)
proof (cases rule: issue_cases)
  case none
  with assms show ?thesis by simp
next
  case (some plan j)
  define rid where "rid = res_id (cc_resources c ! resource_index plan)"
  have w: "w = [((cc_peer c, cc_launcher c), cc_cycle c, rid, wp_offset plan)]"
    and fresh: "\<not> is_repeat mem (cc_peer c) (cc_launcher c) rid (wp_offset plan) (cc_cycle c)"
    and mem': "mem' = record_window (cc_peer c) (cc_launcher c) rid (wp_offset plan) (cc_cycle c) mem"
    using some(3) by (simp_all add: rid_def Let_def)
  have "cyc + CHALLENGE_NO_REPEAT_CYCLES \<le> cc_cycle c"
    if "((cc_peer c, cc_launcher c), cyc, rid, wp_offset plan) \<in> set h" for cyc
    using that fresh assms(4,5) by (force simp: remembers_repeat [OF assms(2,4)])
  then have "spaced (h @ w)"
    using assms(3) by (auto simp: spaced_def w sorted_wrt_append)
  moreover have "\<forall>x \<in> set (h @ w). fst (snd x) \<le> latest (h @ w)"
    using assms(4,5) by (force simp: w latest_def split: if_splits)
  ultimately show ?thesis
    using remembers_record [OF assms(2,4)] by (simp add: mem' w latest_def)
qed

lemma issue_run_facts:
  "issue_run cs h mem = Some (h', mem') \<Longrightarrow> remembers mem h \<Longrightarrow> spaced h \<Longrightarrow>
     \<forall>x \<in> set h. fst (snd x) \<le> latest h \<Longrightarrow> sorted (map cc_cycle cs) \<Longrightarrow>
     \<forall>c \<in> set cs. latest h \<le> cc_cycle c \<Longrightarrow> remembers mem' h' \<and> spaced h'"
proof (induction cs h mem rule: issue_run.induct)
  case (2 c cs h mem)
  then obtain w m where w: "issue c mem = Some (w, m)" "issue_run cs (h @ w) m = Some (h', mem')"
    by (auto split: option.splits)
  have step: "remembers m (h @ w)" "spaced (h @ w)" "latest (h @ w) \<le> cc_cycle c"
    "\<forall>x \<in> set (h @ w). fst (snd x) \<le> latest (h @ w)"
    using issue_step [OF w(1) "2.prems"(2,3)] "2.prems" by auto
  with "2.prems" have "\<forall>d \<in> set cs. latest (h @ w) \<le> cc_cycle d" by fastforce
  with step "2.prems" show ?case
    by (intro "2.IH" [OF w(1) refl w(2)]) simp_all
qed simp

section \<open>Facts about strikes\<close>

text \<open>The windows a peer answers with exactly the expected bytes.\<close>

definition answers :: "challenge_transport \<Rightarrow> bytes32 \<Rightarrow> (bytes32 \<times> nat \<times> nat \<times> string) list \<Rightarrow> bool" where
  "answers transport peer windows \<longleftrightarrow>
     list_all (\<lambda>(rid, off, len, expected). transport peer rid off len = Inr expected) windows"

lemma run_cycle_answers: "run_cycle transport peer windows = answers transport peer windows"
  by (induction transport peer windows rule: run_cycle.induct)
    (auto simp: answers_def run_window_def split: sum.splits)

datatype strike_op =
  Challenged challenge_transport bytes32 bytes32 "(bytes32 \<times> nat \<times> nat \<times> string) list"
| ProverFault bytes32 bytes32
| Restarted

fun strike_step :: "strike_op \<Rightarrow> strike_tracker \<Rightarrow> strike_tracker option" where
  "strike_step (Challenged transport peer launcher windows) s =
     map_option snd (record_peer_outcome peer launcher (run_cycle transport peer windows) s)"
| "strike_step (ProverFault peer launcher) s = Some (record_prover_fault peer launcher s)"
| "strike_step Restarted s = Some (reset_all s)"

fun strike_run :: "strike_op list \<Rightarrow> strike_tracker \<Rightarrow> strike_tracker option" where
  "strike_run [] s = Some s"
| "strike_run (op # ops) s = Option.bind (strike_step op s) (strike_run ops)"

text \<open>
  The failed challenges of a subject since its last passed one or the last restart, over a history
  whose newest operation comes first.
\<close>

fun streak :: "challenge_subject \<Rightarrow> strike_op list \<Rightarrow> nat" where
  "streak subject [] = 0"
| "streak subject (Challenged transport peer launcher windows # ops) =
     (if subject \<noteq> (peer, launcher) then streak subject ops
      else if answers transport peer windows then 0 else Suc (streak subject ops))"
| "streak subject (ProverFault peer launcher # ops) = streak subject ops"
| "streak subject (Restarted # ops) = 0"

lemma streak_le_length: "streak subject ops \<le> length ops"
proof (induction ops)
  case (Cons op ops)
  then show ?case by (cases op) auto
qed simp

lemma strike_run_append:
  "strike_run (ops @ ops') s = Option.bind (strike_run ops s) (strike_run ops')"
  by (induction ops arbitrary: s) (auto simp: bind_assoc split: option.splits Option.bind_splits)

lemma record_peer_outcome_eq:
  assumes "consecutive_failures peer launcher s < u32_max"
  shows "record_peer_outcome peer launcher passed s =
    Some (\<not> passed \<and> 2 \<le> consecutive_failures peer launcher s,
      AList.update (peer, launcher) (if passed then 0 else Suc (consecutive_failures peer launcher s)) s)"
  using assms by (auto simp: record_peer_outcome_def Let_def CHALLENGE_STRIKES_TO_EVICT_def)

lemma strike_run_streak:
  "length ops \<le> u32_max \<Longrightarrow> \<exists>s. strike_run ops strikes_new = Some s
     \<and> (\<forall>p l. consecutive_failures p l s = streak (p, l) (rev ops))"
proof (induction ops rule: rev_induct)
  case Nil
  then show ?case by (simp add: strikes_new_def consecutive_failures_def)
next
  case (snoc op ops)
  then obtain s where s: "strike_run ops strikes_new = Some s"
    "\<And>p l. consecutive_failures p l s = streak (p, l) (rev ops)"
    by auto
  have "streak x (rev ops) < u32_max" for x
    using streak_le_length [of x "rev ops"] snoc.prems by simp
  then have lt: "consecutive_failures p l s < u32_max" for p l by (simp only: s(2))
  have "\<exists>s'. strike_step op s = Some s'
      \<and> (\<forall>p l. consecutive_failures p l s' = streak (p, l) (op # rev ops))"
  proof (cases op)
    case (Challenged tr peer launcher ws)
    then show ?thesis
      using s(2) by (auto simp: record_peer_outcome_eq [OF lt] run_cycle_answers consecutive_failures_def
          update_conv')
  qed (use s(2) in \<open>auto simp: record_prover_fault_def reset_all_def consecutive_failures_def\<close>)
  then show ?case by (auto simp: strike_run_append s(1))
qed

section \<open>What the challenges establish\<close>

text \<open>
  which window is asked for. The choice fails to return only when the resources' lengths overflow
  a \<open>u64\<close>. A window is issued from one of sixteen attempts; it lies inside the resource into whose
  share of the bytes the first draw fell (so a resource is chosen in proportion to its length), has
  64 KiB or the whole of a smaller resource, starts where the second draw says within what is left,
  and has not been issued to this subject within the horizon. No window is issued only when there are
  no bytes at all or every one of the sixteen attempts was such a repeat.
\<close>

theorem challenge_window_sound:
  "case select_window rs peer launcher cyc draws mem of
     None \<Rightarrow> u64_max < sum_list (map res_length rs)
   | Some (None, mem') \<Rightarrow> mem' = mem \<and> (sum_list (map res_length rs) = 0
       \<or> (\<forall>j < 16. \<exists>plan. plan_ok rs (draws (2 * j)) (draws (2 * j + 1)) plan
            \<and> is_repeat mem peer launcher (res_id (rs ! resource_index plan)) (wp_offset plan) cyc))
   | Some (Some plan, mem') \<Rightarrow>
       (\<exists>j < 16. plan_ok rs (draws (2 * j)) (draws (2 * j + 1)) plan)
       \<and> \<not> is_repeat mem peer launcher (res_id (rs ! resource_index plan)) (wp_offset plan) cyc"
proof (cases "sum_list (map res_length rs) \<le> u64_max \<and> 0 < sum_list (map res_length rs)")
  case True
  let ?tot = "sum_list (map res_length rs)"
  obtain res mem' where run: "select_loop 16 rs ?tot peer launcher cyc draws 0 mem = (res, mem')"
    by fastforce
  then have sel: "select_window rs peer launcher cyc draws mem = Some (res, mem')"
    using True by (cases "rs = []") (simp_all add: select_window_def u64_sum_eq del: sum_list_eq_0_iff)
  have "plan_ok rs d1 d2 (plan_window rs ?tot d1 d2)" for d1 d2
    using True by (intro plan_window_ok) simp_all
  with select_loop_cases [OF run] show ?thesis
    unfolding sel by (cases res) (auto simp: Let_def)
qed (auto simp: select_window_def u64_sum_eq)

theorem challenge_window_sound_witness:
  "case select_window [\<lparr>res_id = ''a'', res_length = 70000\<rparr>] ''p'' ''l'' 0 (\<lambda>k. 100) memory_new of
     None \<Rightarrow> False
   | Some (None, mem') \<Rightarrow> False
   | Some (Some plan, mem') \<Rightarrow> wp_offset plan + wp_length plan \<le> 70000"
  using challenge_window_sound [where rs = "[\<lparr>res_id = ''a'', res_length = 70000\<rparr>]" and peer = "''p''"
      and launcher = "''l''" and cyc = 0 and mem = memory_new and draws = "\<lambda>k. 100"]
  by (auto simp: plan_ok_def Let_def memory_new_def is_repeat_def split: option.splits prod.splits
      dest: spec [of _ "0 :: nat"])

text \<open>
  C25: no window is asked twice too soon. Over any sequence of selections with cycle indices that do
  not go back, whatever is drawn, a window of one resource is issued to a peer for a distributor again
  only eight cycles later or more; and the memory that ensures it never holds a subject that was not
  issued a window inside that horizon, so it does not grow with the identities peers present.
\<close>

theorem windows_never_repeat:
  assumes "issue_run calls [] memory_new = Some (h, mem)" "sorted (map cc_cycle calls)"
  shows "sorted_wrt (\<lambda>(s, c, w) (s', c', w'). s = s' \<and> w = w' \<longrightarrow> c + CHALLENGE_NO_REPEAT_CYCLES \<le> c') h
    \<and> distinct (map fst mem)
    \<and> fst ` set mem \<subseteq> fst ` {x \<in> set h. latest h - fst (snd x) < CHALLENGE_NO_REPEAT_CYCLES}"
proof -
  have facts: "remembers mem h" "spaced h"
    using issue_run_facts [OF assms(1) remembers_new] assms(2) by (simp_all add: spaced_def latest_def)
  have "s \<in> fst ` {x \<in> set h. latest h - fst (snd x) < CHALLENGE_NO_REPEAT_CYCLES}"
    if "(s, ws) \<in> set mem" for s ws
  proof -
    have "ws \<noteq> []" "windows_of mem s = ws"
      using that facts(1) by (force simp: remembers_def windows_of_def hm_ok_def)+
    then obtain w where "w \<in> set (windows_of mem s)" by (cases ws) auto
    then show ?thesis unfolding remembersD [OF facts(1)] by force
  qed
  then show ?thesis using facts by (auto simp: spaced_def remembers_def hm_ok_def)
qed

theorem windows_never_repeat_witness:
  "\<exists>h mem. issue_run
       [\<lparr>cc_resources = [\<lparr>res_id = ''a'', res_length = 9\<rparr>], cc_peer = ''p'', cc_launcher = ''l'',
         cc_cycle = 3, cc_draws = (\<lambda>k. 0)\<rparr>,
        \<lparr>cc_resources = [\<lparr>res_id = ''a'', res_length = 9\<rparr>], cc_peer = ''p'', cc_launcher = ''l'',
         cc_cycle = 11, cc_draws = (\<lambda>k. 0)\<rparr>] [] memory_new = Some (h, mem) \<and> length h = 2 \<and>
     sorted_wrt (\<lambda>(s, c, w) (s', c', w'). s = s' \<and> w = w' \<longrightarrow> c + CHALLENGE_NO_REPEAT_CYCLES \<le> c') h"
  (is "\<exists>h mem. issue_run ?cs [] memory_new = _ \<and> _ h \<and> _ h")
proof -
  have run: "issue_run ?cs [] memory_new = Some ([((''p'', ''l''), 3, ''a'', 0), ((''p'', ''l''), 11, ''a'', 0)],
      [((''p'', ''l''), [(11, ''a'', 0)])])"
    by (simp add: issue_def select_window_first plan_window_def csprng_u64_below_def
        Let_def CHALLENGE_WINDOW_BYTES_def is_repeat_def record_window_def prune_memory_def memory_new_def
        CHALLENGE_NO_REPEAT_CYCLES_def)
  show ?thesis
    by (rule exI, rule exI, rule conjI, rule run, rule conjI, simp,
        rule windows_never_repeat [OF run, THEN conjunct1]) simp
qed

text \<open>
  what evicts a mirror. After any history of challenge cycles, faults of the prover itself and
  restarts, the next cycle schedules a removal exactly when the peer left some window of it
  unanswered or answered it with other bytes, and had failed the two challenges before it, with no
  passed challenge and no restart in between. Faults of the prover, and what other peers do, count
  for nothing; one cycle answered in full clears the record.
\<close>

theorem eviction_needs_three_strikes:
  assumes "length ops < u32_max"
  shows "\<exists>s s'. strike_run ops strikes_new = Some s
    \<and> record_peer_outcome peer launcher (run_cycle transport peer windows) s
        = Some (\<not> answers transport peer windows \<and> 2 \<le> streak (peer, launcher) (rev ops), s')
    \<and> consecutive_failures peer launcher s'
        = streak (peer, launcher) (Challenged transport peer launcher windows # rev ops)"
proof -
  obtain s where s: "strike_run ops strikes_new = Some s"
    "\<And>p l. consecutive_failures p l s = streak (p, l) (rev ops)"
    using strike_run_streak [of ops] assms by auto
  have "streak (peer, launcher) (rev ops) < u32_max"
    using streak_le_length [of "(peer, launcher)" "rev ops"] assms by simp
  then have "consecutive_failures peer launcher s < u32_max" by (simp only: s(2))
  note out = record_peer_outcome_eq [OF this, of "answers transport peer windows"]
  have "consecutive_failures peer launcher (AList.update (peer, launcher) n s) = n" for n
    by (simp add: consecutive_failures_def update_conv')
  with out s show ?thesis by (auto simp: run_cycle_answers)
qed

theorem eviction_needs_three_strikes_witness:
  "\<exists>s s'. strike_run (replicate 2 (Challenged (\<lambda>_ _ _ _. Inl Timeout) ''p'' ''l'' [(''a'', 0, 1, ''x'')])
       @ [ProverFault ''p'' ''l'']) strikes_new = Some s
    \<and> record_peer_outcome ''p'' ''l'' (run_cycle (\<lambda>_ _ _ _. Inl Timeout) ''p'' [(''a'', 0, 1, ''x'')]) s
        = Some (True, s')"
  using eviction_needs_three_strikes [of "replicate 2 (Challenged (\<lambda>_ _ _ _. Inl Timeout) ''p'' ''l'' [(''a'', 0, 1, ''x'')])
       @ [ProverFault ''p'' ''l'']" "''p''" "''l''" "\<lambda>_ _ _ _. Inl Timeout" "[(''a'', 0, 1, ''x'')]"]
  by (auto simp: answers_def numeral_2_eq_2)

text \<open>
  The pruning horizon is that of the recording cycle for every subject at once. When the cycles of two
  distributors do not advance together, issuing a window for one of them forgets a window of the
  other that is still inside the other's own horizon.
\<close>

theorem prune_forgets_other_distributor:
  assumes "l1 \<noteq> l2" "c \<le> d" "d < c + 8" "c + 8 \<le> e"
  shows "is_repeat (record_window p l1 rid off c memory_new) p l1 rid off d
    \<and> \<not> is_repeat (record_window p l2 rid' off' e (record_window p l1 rid off c memory_new)) p l1 rid off d"
  using assms by (simp add: record_window_def prune_memory_def memory_new_def is_repeat_def
      CHALLENGE_NO_REPEAT_CYCLES_def)

end
