(* ===== verification/Entry_Writes.thy ===== *)
theory Entry_Writes
  imports Reward_Admission Contracts
begin

text \<open>
  The bounds on what the prover spends: \<open>rewards/writes.rs\<close>, with the entry actions and bundles of
  \<open>rewards/port.rs\<close>. \<open>EntryWriteScheduler\<close> with \<open>FeeBudget\<close> is the in-memory writer,
  \<open>PersistedEntryWriter\<close> the one whose bounds survive a restart. What the write-bound store answers is
  an argument: a load gives a state or fails, a save succeeds or fails. Times are seconds.

  The workspace is built with overflow checks: an addition that leaves \<open>u64\<close> panics, which is the
  value \<open>None\<close>. \<open>as u32\<close> truncates.
\<close>

definition SECONDS_PER_DAY :: nat where "SECONDS_PER_DAY = 86400"
definition ENTRY_WRITE_MIN_INTERVAL_SECONDS :: nat where "ENTRY_WRITE_MIN_INTERVAL_SECONDS = 3600"
definition MAX_ENTRY_WRITES_PER_BUNDLE :: nat where "MAX_ENTRY_WRITES_PER_BUNDLE = 8"
definition REENTRY_COOLDOWN_SECONDS :: nat where "REENTRY_COOLDOWN_SECONDS = 21600"
definition MAX_ENTRIES_PER_DISTRIBUTOR :: nat where "MAX_ENTRIES_PER_DISTRIBUTOR = 250"

definition MAX_BUNDLES_PER_DAY :: nat where
  "MAX_BUNDLES_PER_DAY = SECONDS_PER_DAY div ENTRY_WRITE_MIN_INTERVAL_SECONDS"

definition as_u32 :: "nat \<Rightarrow> nat" where
  "as_u32 n = n mod 4294967296"

definition u64_add :: "nat \<Rightarrow> nat \<Rightarrow> nat option" where
  "u64_add a b = (if a + b \<le> u64_max then Some (a + b) else None)"

section \<open>Actions, bundles and the fee budget\<close>

datatype entry_action =
  Add admitted_peer
| Remove (removed_puzzle_hash: bytes32) (removed_launcher: bytes32)

record entry_write_bundle =
  wb_launcher_id :: bytes32
  wb_actions :: "entry_action list"
  wb_fee_mojos :: nat

record fee_budget =
  limit_mojos_per_day :: nat
  spent_mojos_today :: nat
  day_started_at :: nat

definition daily_limit_for :: "nat \<Rightarrow> nat" where
  "daily_limit_for standard_fee_mojos = u64_sat_mul standard_fee_mojos MAX_BUNDLES_PER_DAY"

definition fee_budget_new :: "nat \<Rightarrow> nat \<Rightarrow> fee_budget" where
  "fee_budget_new standard_fee_mojos now =
     \<lparr>limit_mojos_per_day = daily_limit_for standard_fee_mojos, spent_mojos_today = 0, day_started_at = now\<rparr>"

definition roll_if_new_day :: "nat \<Rightarrow> fee_budget \<Rightarrow> fee_budget" where
  "roll_if_new_day now b =
     (if now - day_started_at b \<ge> SECONDS_PER_DAY
      then b\<lparr>spent_mojos_today := 0, day_started_at := now\<rparr> else b)"

definition try_spend :: "nat \<Rightarrow> nat \<Rightarrow> fee_budget \<Rightarrow> (bool \<times> fee_budget) option" where
  "try_spend fee_mojos now b =
     (let b1 = roll_if_new_day now b in
      if u64_sat_add (spent_mojos_today b1) fee_mojos > limit_mojos_per_day b1 then Some (False, b1)
      else map_option (\<lambda>spent. (True, b1\<lparr>spent_mojos_today := spent\<rparr>))
             (u64_add (spent_mojos_today b1) fee_mojos))"

section \<open>The in-memory writer\<close>

datatype write_outcome =
  Bundle entry_write_bundle nat
| Pending nat
| FeeBudgetExhausted nat

record entry_write_scheduler =
  last_bundle_sent_at :: "(bytes32 \<times> nat) list"
  cooldown_until :: "((bytes32 \<times> bytes32) \<times> nat) list"

definition scheduler_new :: entry_write_scheduler where
  "scheduler_new = \<lparr>last_bundle_sent_at = [], cooldown_until = []\<rparr>"

definition is_rate_limited :: "bytes32 \<Rightarrow> nat \<Rightarrow> entry_write_scheduler \<Rightarrow> bool" where
  "is_rate_limited launcher_id now s =
     (case map_of (last_bundle_sent_at s) launcher_id of
        Some sent \<Rightarrow> now - sent < ENTRY_WRITE_MIN_INTERVAL_SECONDS
      | None \<Rightarrow> False)"

definition is_in_reentry_cooldown :: "bytes32 \<Rightarrow> bytes32 \<Rightarrow> nat \<Rightarrow> entry_write_scheduler \<Rightarrow> bool" where
  "is_in_reentry_cooldown puzzle_hash launcher_id now s =
     (case map_of (cooldown_until s) (puzzle_hash, launcher_id) of
        Some until \<Rightarrow> now < until
      | None \<Rightarrow> False)"

text \<open>The loop both writers run over a bundle's removals.\<close>

fun record_removals ::
  "entry_action list \<Rightarrow> nat \<Rightarrow> ((bytes32 \<times> bytes32) \<times> nat) list \<Rightarrow> ((bytes32 \<times> bytes32) \<times> nat) list option"
where
  "record_removals [] now cd = Some cd"
| "record_removals (Add _ # actions) now cd = record_removals actions now cd"
| "record_removals (Remove puzzle_hash launcher_id # actions) now cd =
     (case u64_add now REENTRY_COOLDOWN_SECONDS of
        None \<Rightarrow> None
      | Some until \<Rightarrow> record_removals actions now (AList.update (puzzle_hash, launcher_id) until cd))"

definition scheduler_decide ::
  "bytes32 \<Rightarrow> entry_action list \<Rightarrow> nat \<Rightarrow> nat \<Rightarrow> entry_write_scheduler \<Rightarrow> fee_budget
     \<Rightarrow> (write_outcome \<times> entry_write_scheduler \<times> fee_budget) option"
where
  "scheduler_decide launcher_id decisions fee_mojos now s budget =
     (if decisions = [] then Some (Pending 0, s, budget)
      else if is_rate_limited launcher_id now s
      then Some (Pending (as_u32 (length decisions)), s, budget)
      else
        let n = min (length decisions) MAX_ENTRY_WRITES_PER_BUNDLE in
        case try_spend fee_mojos now budget of
          None \<Rightarrow> None
        | Some (False, budget') \<Rightarrow>
            Some (FeeBudgetExhausted (as_u32 (length decisions)), s, budget')
        | Some (True, budget') \<Rightarrow>
            Some (Bundle \<lparr>wb_launcher_id = launcher_id, wb_actions = take n decisions,
                    wb_fee_mojos = fee_mojos\<rparr> (as_u32 (length (drop n decisions))),
                  s\<lparr>last_bundle_sent_at := AList.update launcher_id now (last_bundle_sent_at s)\<rparr>,
                  budget'))"

definition record_submitted ::
  "entry_write_bundle \<Rightarrow> nat \<Rightarrow> entry_write_scheduler \<Rightarrow> entry_write_scheduler option"
where
  "record_submitted bundle now s =
     map_option (\<lambda>cd. s\<lparr>cooldown_until := cd\<rparr>) (record_removals (wb_actions bundle) now (cooldown_until s))"

section \<open>The writer whose bounds persist\<close>

record write_bound_state =
  wbs_last_bundle_sent_at :: "nat option"
  wbs_spent_mojos_today :: nat
  wbs_day_started_at :: nat
  wbs_cooldown_until :: "((bytes32 \<times> bytes32) \<times> nat) list"

datatype persisted_write_outcome =
  PBundle entry_write_bundle nat
| PPending nat
| PFeeBudgetExhausted nat
| PersistenceUnavailable

definition roll_day :: "nat \<Rightarrow> write_bound_state \<Rightarrow> write_bound_state" where
  "roll_day now st =
     (if now - wbs_day_started_at st \<ge> SECONDS_PER_DAY
      then st\<lparr>wbs_spent_mojos_today := 0, wbs_day_started_at := now\<rparr> else st)"

definition writer_decide ::
  "bool \<Rightarrow> write_bound_state option \<Rightarrow> bytes32 \<Rightarrow> entry_action list \<Rightarrow> nat \<Rightarrow> nat \<Rightarrow> nat
     \<Rightarrow> (persisted_write_outcome \<times> write_bound_state option) option"
where
  "writer_decide poisoned loaded launcher_id decisions fee_mojos daily_limit_mojos now =
     (if poisoned then Some (PersistenceUnavailable, None)
      else case loaded of
        None \<Rightarrow> Some (PersistenceUnavailable, None)
      | Some loaded_state \<Rightarrow>
          let st = roll_day now loaded_state in
          if decisions = [] then Some (PPending 0, Some st)
          else if (case wbs_last_bundle_sent_at st of
                     Some sent \<Rightarrow> now - sent < ENTRY_WRITE_MIN_INTERVAL_SECONDS | None \<Rightarrow> False)
          then Some (PPending (as_u32 (length decisions)), Some st)
          else if u64_sat_add (wbs_spent_mojos_today st) fee_mojos > daily_limit_mojos
          then Some (PFeeBudgetExhausted (as_u32 (length decisions)), Some st)
          else
            let n = min (length decisions) MAX_ENTRY_WRITES_PER_BUNDLE in
            case u64_add (wbs_spent_mojos_today st) fee_mojos of
              None \<Rightarrow> None
            | Some spent \<Rightarrow>
                (case record_removals (take n decisions) now (wbs_cooldown_until st) of
                   None \<Rightarrow> None
                 | Some cd \<Rightarrow>
                     Some (PBundle \<lparr>wb_launcher_id = launcher_id, wb_actions = take n decisions,
                             wb_fee_mojos = fee_mojos\<rparr> (as_u32 (length (drop n decisions))),
                           Some (st\<lparr>wbs_last_bundle_sent_at := Some now,
                                    wbs_spent_mojos_today := spent, wbs_cooldown_until := cd\<rparr>))))"

text \<open>A commit: the store takes the state, or the writer is poisoned for the rest of its life.\<close>

definition writer_commit :: "bool \<Rightarrow> bool \<Rightarrow> bool" where
  "writer_commit save_ok poisoned = (if \<not> save_ok then True else poisoned)"

definition no_persistence_load :: "bytes32 \<Rightarrow> write_bound_state option" where
  "no_persistence_load launcher_id = None"

definition is_entry_set_full :: "nat \<Rightarrow> bool" where
  "is_entry_set_full current_entry_count = (current_entry_count \<ge> MAX_ENTRIES_PER_DISTRIBUTOR)"

definition is_unfunded :: "nat \<Rightarrow> bool" where
  "is_unfunded reserve_base_units = (reserve_base_units = 0)"

section \<open>A prover's cycles\<close>

text \<open>
  One cycle of one distributor, as the writer's contract asks of its caller: decide, submit the bundle
  if there is one, and commit the state once the chain has accepted it. Whether the load, the submit
  and the save succeed is part of the cycle. A panic submits nothing.
\<close>

record writer_world =
  ww_saved :: write_bound_state
  ww_poisoned :: bool

record write_cycle =
  wc_decisions :: "entry_action list"
  wc_fee :: nat
  wc_now :: nat
  wc_load_ok :: bool
  wc_submit_ok :: bool
  wc_save_ok :: bool

definition writer_cycle ::
  "bytes32 \<Rightarrow> nat \<Rightarrow> write_cycle \<Rightarrow> writer_world \<Rightarrow> entry_write_bundle option \<times> writer_world"
where
  "writer_cycle launcher daily_limit c w =
     (case writer_decide (ww_poisoned w) (if wc_load_ok c then Some (ww_saved w) else None) launcher
             (wc_decisions c) (wc_fee c) daily_limit (wc_now c) of
        Some (PBundle bundle pending, Some st) \<Rightarrow>
          if wc_submit_ok c
          then (Some bundle, \<lparr>ww_saved = (if wc_save_ok c then st else ww_saved w),
                  ww_poisoned = writer_commit (wc_save_ok c) (ww_poisoned w)\<rparr>)
          else (None, w)
      | _ \<Rightarrow> (None, w))"

fun writer_run ::
  "bytes32 \<Rightarrow> nat \<Rightarrow> write_cycle list \<Rightarrow> writer_world \<Rightarrow> entry_write_bundle list \<times> writer_world"
where
  "writer_run launcher daily_limit [] w = ([], w)"
| "writer_run launcher daily_limit (c # cs) w =
     (let (b, w1) = writer_cycle launcher daily_limit c w;
          (bs, w2) = writer_run launcher daily_limit cs w1
      in (case b of Some bundle \<Rightarrow> bundle # bs | None \<Rightarrow> bs, w2))"

lemma roll_day_sel [simp]:
  "wbs_last_bundle_sent_at (roll_day now st) = wbs_last_bundle_sent_at st"
  "wbs_cooldown_until (roll_day now st) = wbs_cooldown_until st"
  by (simp_all add: roll_day_def)

lemma writer_cycle_cases:
  assumes "writer_cycle launcher L c w = (b, w')"
  obtains (idle) "b = None" "w' = w"
  | (sent) bd cd where "b = Some bd" "\<not> ww_poisoned w" "wc_submit_ok c"
      "wb_launcher_id bd = launcher" "wb_fee_mojos bd = wc_fee c"
      "wb_actions bd = take MAX_ENTRY_WRITES_PER_BUNDLE (wc_decisions c)"
      "case wbs_last_bundle_sent_at (ww_saved w) of
         Some sent \<Rightarrow> sent + ENTRY_WRITE_MIN_INTERVAL_SECONDS \<le> wc_now c | None \<Rightarrow> True"
      "wbs_spent_mojos_today (roll_day (wc_now c) (ww_saved w)) + wc_fee c \<le> L"
      "w' = \<lparr>ww_saved = (if wc_save_ok c then (roll_day (wc_now c) (ww_saved w))
              \<lparr>wbs_last_bundle_sent_at := Some (wc_now c),
               wbs_spent_mojos_today := wbs_spent_mojos_today (roll_day (wc_now c) (ww_saved w)) + wc_fee c,
               wbs_cooldown_until := cd\<rparr> else ww_saved w), ww_poisoned = \<not> wc_save_ok c\<rparr>"
proof (cases "b")
  case None
  then have "w' = w"
    using assms by (auto simp: writer_cycle_def split: option.splits prod.splits
        persisted_write_outcome.splits if_splits)
  with None idle show thesis by blast
next
  case (Some bd)
  let ?st = "roll_day (wc_now c) (ww_saved w)"
  from Some assms obtain pending st where
    d: "writer_decide (ww_poisoned w) (if wc_load_ok c then Some (ww_saved w) else None) launcher
          (wc_decisions c) (wc_fee c) L (wc_now c) = Some (PBundle bd pending, Some st)"
    and sub: "wc_submit_ok c"
    and w': "w' = \<lparr>ww_saved = (if wc_save_ok c then st else ww_saved w),
        ww_poisoned = writer_commit (wc_save_ok c) (ww_poisoned w)\<rparr>"
    by (auto simp: writer_cycle_def split: option.splits prod.splits
        persisted_write_outcome.splits if_splits)
  from d have np: "\<not> ww_poisoned w" and ld: "wc_load_ok c"
    by (auto simp: writer_decide_def split: if_splits)
  from d np ld obtain cd where
    rest: "\<not> (case wbs_last_bundle_sent_at (ww_saved w) of
          Some sent \<Rightarrow> wc_now c - sent < ENTRY_WRITE_MIN_INTERVAL_SECONDS | None \<Rightarrow> False)"
      "u64_sat_add (wbs_spent_mojos_today ?st) (wc_fee c) \<le> L"
      "wbs_spent_mojos_today ?st + wc_fee c \<le> u64_max"
      "bd = \<lparr>wb_launcher_id = launcher,
         wb_actions = take (min (length (wc_decisions c)) MAX_ENTRY_WRITES_PER_BUNDLE) (wc_decisions c),
         wb_fee_mojos = wc_fee c\<rparr>"
      "st = ?st\<lparr>wbs_last_bundle_sent_at := Some (wc_now c),
         wbs_spent_mojos_today := wbs_spent_mojos_today ?st + wc_fee c, wbs_cooldown_until := cd\<rparr>"
    by (auto simp: writer_decide_def Let_def u64_add_def not_less split: if_splits option.splits)
  show thesis
  proof (rule sent [of bd cd])
    show "wbs_spent_mojos_today ?st + wc_fee c \<le> L"
      using rest(2,3) by (simp add: u64_sat_add_def)
    show "case wbs_last_bundle_sent_at (ww_saved w) of
         Some sent \<Rightarrow> sent + ENTRY_WRITE_MIN_INTERVAL_SECONDS \<le> wc_now c | None \<Rightarrow> True"
      using rest(1) by (auto simp: ENTRY_WRITE_MIN_INTERVAL_SECONDS_def split: option.splits)
    show "wb_actions bd = take MAX_ENTRY_WRITES_PER_BUNDLE (wc_decisions c)"
      by (simp add: rest(4) min_def)
  qed (use Some np sub w' rest(4,5) in \<open>simp_all add: writer_commit_def\<close>)
qed

section \<open>The rate of bundles\<close>

definition writer_gate :: "bytes32 \<Rightarrow> nat \<Rightarrow> write_cycle \<Rightarrow> writer_world \<Rightarrow> bool \<times> writer_world" where
  "writer_gate launcher L c w = (let (b, w') = writer_cycle launcher L c w in (b \<noteq> None, w'))"

text \<open>What a writer may still send: a whole bundle at first, and again an interval after the last.\<close>

definition write_balance :: "writer_world \<Rightarrow> nat \<Rightarrow> real" where
  "write_balance w t =
     (if ww_poisoned w then 0
      else case wbs_last_bundle_sent_at (ww_saved w) of
             None \<Rightarrow> 1
           | Some sent \<Rightarrow> min 1 (secs (t - sent * 1000000000) / 3600))"

definition write_ok :: "writer_world \<Rightarrow> nat \<Rightarrow> bool" where
  "write_ok w t \<longleftrightarrow>
     (case wbs_last_bundle_sent_at (ww_saved w) of None \<Rightarrow> True | Some sent \<Rightarrow> sent * 1000000000 \<le> t)"

abbreviation cycle_nanos :: "write_cycle \<Rightarrow> nat" where
  "cycle_nanos c \<equiv> wc_now c * 1000000000"

lemma writer_gate_run:
  "run_gate (writer_gate launcher L) cs w
     = (length (fst (writer_run launcher L cs w)), snd (writer_run launcher L cs w))"
  by (induction cs arbitrary: w) (auto simp: writer_gate_def Let_def split: prod.splits option.splits)

lemma writer_gate_pays:
  assumes "write_ok w t" "t \<le> cycle_nanos c"
  shows "write_ok (snd (writer_gate launcher L c w)) (cycle_nanos c)
    \<and> write_balance (snd (writer_gate launcher L c w)) (cycle_nanos c)
        + (if fst (writer_gate launcher L c w) then 1 else 0) \<le> write_balance w (cycle_nanos c)"
proof -
  obtain b w' where run: "writer_cycle launcher L c w = (b, w')" by fastforce
  then show ?thesis
  proof (cases rule: writer_cycle_cases)
    case idle
    then show ?thesis using run assms by (auto simp: writer_gate_def write_ok_def split: option.splits)
  next
    case (sent bd cd)
    have "1 \<le> secs (cycle_nanos c - s * 1000000000) / 3600"
      if "wbs_last_bundle_sent_at (ww_saved w) = Some s" for s
    proof -
      have "s + 3600 \<le> wc_now c"
        using sent(7) that by (simp add: ENTRY_WRITE_MIN_INTERVAL_SECONDS_def)
      then have "3600 * 1000000000 \<le> cycle_nanos c - s * 1000000000" by simp
      then have "secs (3600 * 1000000000) \<le> secs (cycle_nanos c - s * 1000000000)" by (rule secs_mono)
      then show ?thesis by (simp add: secs_def)
    qed
    then have "write_balance w (cycle_nanos c) = 1"
      using sent(2) by (auto simp: write_balance_def split: option.splits)
    moreover have "write_balance w' (cycle_nanos c) = 0" "write_ok w' (cycle_nanos c)"
      using sent(9) assms by (auto simp: write_balance_def write_ok_def split: option.splits)
    ultimately show ?thesis using run sent(1) by (simp add: writer_gate_def)
  qed
qed

lemma write_balance_accrues:
  assumes "write_ok w t" "t \<le> t'"
  shows "write_balance w t' \<le> write_balance w t + 1 / 3600 * secs (t' - t)"
proof (cases "wbs_last_bundle_sent_at (ww_saved w)")
  case (Some s)
  have "secs (t' - s * 1000000000) = secs (t - s * 1000000000) + secs (t' - t)"
    using assms Some by (intro secs_diff_split) (simp_all add: write_ok_def)
  then show ?thesis
    using Some secs_nonneg [of "t' - t"] by (auto simp: write_balance_def min_def field_simps simp del: secs_nonneg)
qed (simp add: write_balance_def)

interpretation write_meter: metered "writer_gate launcher L" cycle_nanos write_balance write_ok "1 / 3600"
  for launcher L
  using writer_gate_pays write_balance_accrues
  by unfold_locales (auto simp: write_balance_def split: option.splits)

section \<open>The fees\<close>

lemma poisoned_run: "ww_poisoned w \<Longrightarrow> fst (writer_run launcher L cs w) = []"
proof (induction cs arbitrary: w)
  case (Cons c cs)
  obtain b w' where run: "writer_cycle launcher L c w = (b, w')" by fastforce
  then have "b = None" "w' = w"
    using Cons.prems by (cases rule: writer_cycle_cases; simp)+
  with run Cons.IH [OF Cons.prems] show ?case by (auto split: prod.splits)
qed simp

lemma roll_day_cases:
  obtains "roll_day now st = st"
  | "wbs_day_started_at st + SECONDS_PER_DAY \<le> now" "wbs_spent_mojos_today (roll_day now st) = 0"
    "wbs_day_started_at (roll_day now st) = now"
  by (cases "now - wbs_day_started_at st \<ge> SECONDS_PER_DAY")
    (auto simp: roll_day_def SECONDS_PER_DAY_def)

lemma day_later:
  assumes "d + SECONDS_PER_DAY \<le> now" "now \<le> T"
  shows "Suc ((T - now) div SECONDS_PER_DAY) \<le> (T - d) div SECONDS_PER_DAY"
proof -
  have "(T - now + SECONDS_PER_DAY) div SECONDS_PER_DAY \<le> (T - d) div SECONDS_PER_DAY"
    using assms by (intro div_le_mono) simp
  then show ?thesis by (simp add: SECONDS_PER_DAY_def)
qed

lemma writer_run_fees:
  "timed_from wc_now t cs \<Longrightarrow> wbs_day_started_at (ww_saved w) \<le> t \<Longrightarrow>
     wbs_spent_mojos_today (ww_saved w) \<le> L \<Longrightarrow>
     sum_list (map wb_fee_mojos (fst (writer_run launcher L cs w))) + wbs_spent_mojos_today (ww_saved w)
       \<le> L * Suc ((last_time wc_now t cs - wbs_day_started_at (ww_saved w)) div SECONDS_PER_DAY)"
proof (induction cs arbitrary: w t)
  case (Cons c cs)
  let ?T = "last_time wc_now (wc_now c) cs"
  obtain b w' where run: "writer_cycle launcher L c w = (b, w')" by fastforce
  have t: "timed_from wc_now (wc_now c) cs" "wbs_day_started_at (ww_saved w) \<le> wc_now c"
    using Cons.prems by auto
  have T: "wc_now c \<le> ?T" using last_time_ge [OF t(1)] .
  from run show ?case
  proof (cases rule: writer_cycle_cases)
    case idle
    with Cons.IH [OF t Cons.prems(3)] run show ?thesis by (auto split: prod.splits)
  next
    case (sent bd cd)
    let ?st = "roll_day (wc_now c) (ww_saved w)"
    let ?rest = "sum_list (map wb_fee_mojos (fst (writer_run launcher L cs w')))"
    have rolled: "wbs_day_started_at ?st \<le> wc_now c"
      using t(2) by (cases rule: roll_day_cases [of "wc_now c" "ww_saved w"]) auto
    have rest: "?rest + (wbs_spent_mojos_today ?st + wc_fee c)
        \<le> L * Suc ((?T - wbs_day_started_at ?st) div SECONDS_PER_DAY)"
    proof (cases "wc_save_ok c")
      case True
      then show ?thesis using Cons.IH [OF t(1), of w'] sent(8,9) rolled by simp
    next
      case False
      then have "fst (writer_run launcher L cs w') = []" using sent(9) by (simp add: poisoned_run)
      then show ?thesis using sent(8) by simp
    qed
    have "?rest + wc_fee c + wbs_spent_mojos_today (ww_saved w)
        \<le> L * Suc ((?T - wbs_day_started_at (ww_saved w)) div SECONDS_PER_DAY)"
    proof (cases rule: roll_day_cases [of "wc_now c" "ww_saved w"])
      case 1
      with rest show ?thesis by simp
    next
      case 2
      have "?rest + wc_fee c \<le> L * Suc ((?T - wc_now c) div SECONDS_PER_DAY)"
        using rest 2 by simp
      also have "\<dots> \<le> L * ((?T - wbs_day_started_at (ww_saved w)) div SECONDS_PER_DAY)"
        by (intro mult_le_mono2 day_later 2(1) T)
      finally show ?thesis using Cons.prems(3) by simp
    qed
    then show ?thesis using run sent(1,5) by (auto split: prod.splits)
  qed
qed simp

section \<open>The two writers agree\<close>

text \<open>
  One cycle of the in-memory writer under the same contract, when the submit succeeds. The two writers
  are compared while the store works.
\<close>

definition scheduler_cycle ::
  "bytes32 \<Rightarrow> entry_action list \<Rightarrow> nat \<Rightarrow> nat \<Rightarrow> entry_write_scheduler \<times> fee_budget
     \<Rightarrow> (write_outcome \<times> entry_write_scheduler \<times> fee_budget) option"
where
  "scheduler_cycle launcher decisions fee now sb =
     (case scheduler_decide launcher decisions fee now (fst sb) (snd sb) of
        None \<Rightarrow> None
      | Some (Bundle b pending, s', budget') \<Rightarrow>
          map_option (\<lambda>s2. (Bundle b pending, s2, budget')) (record_submitted b now s')
      | Some (outcome, s', budget') \<Rightarrow> Some (outcome, s', budget'))"

definition persisted_cycle ::
  "bytes32 \<Rightarrow> entry_action list \<Rightarrow> nat \<Rightarrow> nat \<Rightarrow> nat \<Rightarrow> write_bound_state
     \<Rightarrow> (persisted_write_outcome \<times> write_bound_state) option"
where
  "persisted_cycle launcher decisions fee limit now st =
     (case writer_decide False (Some st) launcher decisions fee limit now of
        None \<Rightarrow> None
      | Some (PBundle b pending, Some st') \<Rightarrow> Some (PBundle b pending, st')
      | Some (outcome, _) \<Rightarrow> Some (outcome, st))"

fun persisted_view :: "write_outcome \<Rightarrow> persisted_write_outcome" where
  "persisted_view (Bundle b pending) = PBundle b pending"
| "persisted_view (Pending n) = PPending n"
| "persisted_view (FeeBudgetExhausted n) = PFeeBudgetExhausted n"

definition same_bounds :: "bytes32 \<Rightarrow> nat \<Rightarrow> entry_write_scheduler \<times> fee_budget \<Rightarrow> write_bound_state \<Rightarrow> bool" where
  "same_bounds launcher limit sb st \<longleftrightarrow>
     map_of (last_bundle_sent_at (fst sb)) launcher = wbs_last_bundle_sent_at st
     \<and> cooldown_until (fst sb) = wbs_cooldown_until st
     \<and> limit_mojos_per_day (snd sb) = limit
     \<and> spent_mojos_today (snd sb) = wbs_spent_mojos_today st
     \<and> day_started_at (snd sb) = wbs_day_started_at st"

lemma same_bounds_roll:
  assumes "same_bounds launcher L (s, bud) st"
  shows "spent_mojos_today (roll_if_new_day now bud) = wbs_spent_mojos_today (roll_day now st)"
    "day_started_at (roll_if_new_day now bud) = wbs_day_started_at (roll_day now st)"
    "limit_mojos_per_day (roll_if_new_day now bud) = L"
  using assms by (simp_all add: same_bounds_def roll_if_new_day_def roll_day_def)

text \<open>Out of budget means that the day has not just rolled over, unless one fee alone exceeds the limit.\<close>

lemma exhausted_not_rolled:
  assumes "u64_sat_add (spent_mojos_today (roll_if_new_day now bud)) fee > L" "fee \<le> L"
  shows "roll_if_new_day now bud = bud"
  using assms by (auto simp: roll_if_new_day_def u64_sat_add_def split: if_splits)

lemma cycles_agree:
  assumes sim: "same_bounds launcher L (s, bud) st" and fee: "fee \<le> L"
  shows "case scheduler_cycle launcher decisions fee now (s, bud) of
      None \<Rightarrow> persisted_cycle launcher decisions fee L now st = None
    | Some (outcome, s', bud') \<Rightarrow>
        \<exists>st'. persisted_cycle launcher decisions fee L now st = Some (persisted_view outcome, st')
          \<and> same_bounds launcher L (s', bud') st'"
proof -
  note roll = same_bounds_roll [OF sim, of now]
  have limited: "is_rate_limited launcher now s = (case wbs_last_bundle_sent_at st of
      Some sent \<Rightarrow> now - sent < ENTRY_WRITE_MIN_INTERVAL_SECONDS | None \<Rightarrow> False)"
    using sim by (simp add: is_rate_limited_def same_bounds_def)
  consider "decisions = [] \<or> is_rate_limited launcher now s"
    | "decisions \<noteq> []" "\<not> is_rate_limited launcher now s"
      "u64_sat_add (wbs_spent_mojos_today (roll_day now st)) fee > L"
    | "decisions \<noteq> []" "\<not> is_rate_limited launcher now s"
      "u64_sat_add (wbs_spent_mojos_today (roll_day now st)) fee \<le> L"
    by linarith
  then show ?thesis
  proof cases
    case 1
    then show ?thesis
      using sim by (auto simp: scheduler_cycle_def scheduler_decide_def persisted_cycle_def
          writer_decide_def Let_def limited [symmetric])
  next
    case 2
    then have "roll_if_new_day now bud = bud"
      using exhausted_not_rolled [OF _ fee] roll by simp
    with 2 show ?thesis
      using sim roll by (simp add: scheduler_cycle_def scheduler_decide_def persisted_cycle_def
          writer_decide_def Let_def limited [symmetric] try_spend_def)
  next
    case 3
    have cd: "cooldown_until s = wbs_cooldown_until st" using sim by (simp add: same_bounds_def)
    let ?n = "min (length decisions) MAX_ENTRY_WRITES_PER_BUNDLE"
    show ?thesis
    proof (cases "u64_add (wbs_spent_mojos_today (roll_day now st)) fee = None
        \<or> record_removals (take ?n decisions) now (wbs_cooldown_until st) = None")
      case True
      with 3 show ?thesis
        using roll cd by (auto simp: scheduler_cycle_def scheduler_decide_def persisted_cycle_def
          writer_decide_def Let_def limited [symmetric] try_spend_def record_submitted_def split: option.splits)
    next
      case False
      then obtain spent cds where "u64_add (wbs_spent_mojos_today (roll_day now st)) fee = Some spent"
        "record_removals (take ?n decisions) now (wbs_cooldown_until st) = Some cds" by auto
      with 3 show ?thesis
        using roll cd by (simp add: scheduler_cycle_def scheduler_decide_def persisted_cycle_def
          writer_decide_def Let_def limited [symmetric] try_spend_def record_submitted_def same_bounds_def
          update_conv')
    qed
  qed
qed

fun scheduler_run ::
  "bytes32 \<Rightarrow> (entry_action list \<times> nat \<times> nat) list \<Rightarrow> entry_write_scheduler \<times> fee_budget \<Rightarrow> write_outcome list option"
where
  "scheduler_run launcher [] sb = Some []"
| "scheduler_run launcher ((decisions, fee, now) # cs) sb =
     (case scheduler_cycle launcher decisions fee now sb of
        None \<Rightarrow> None
      | Some (outcome, sb') \<Rightarrow> map_option (Cons outcome) (scheduler_run launcher cs sb'))"

fun persisted_run ::
  "bytes32 \<Rightarrow> nat \<Rightarrow> (entry_action list \<times> nat \<times> nat) list \<Rightarrow> write_bound_state \<Rightarrow> persisted_write_outcome list option"
where
  "persisted_run launcher limit [] st = Some []"
| "persisted_run launcher limit ((decisions, fee, now) # cs) st =
     (case persisted_cycle launcher decisions fee limit now st of
        None \<Rightarrow> None
      | Some (outcome, st') \<Rightarrow> map_option (Cons outcome) (persisted_run launcher limit cs st'))"

lemma runs_agree:
  "same_bounds launcher L (s, bud) st \<Longrightarrow> \<forall>(_, fee, _) \<in> set cs. fee \<le> L \<Longrightarrow>
     persisted_run launcher L cs st = map_option (map persisted_view) (scheduler_run launcher cs (s, bud))"
proof (induction cs arbitrary: s bud st)
  case (Cons c cs)
  obtain decisions fee now where c: "c = (decisions, fee, now)" by (cases c)
  have fee: "fee \<le> L" using Cons.prems(2) c by simp
  note agree = cycles_agree [OF Cons.prems(1) fee, of decisions now]
  show ?case
  proof (cases "scheduler_cycle launcher decisions fee now (s, bud)")
    case None
    then show ?thesis using agree c by simp
  next
    case (Some r)
    obtain outcome s' bud' where r: "r = (outcome, s', bud')" by (cases r)
    then obtain st' where st': "persisted_cycle launcher decisions fee L now st = Some (persisted_view outcome, st')"
      "same_bounds launcher L (s', bud') st'"
      using agree Some by auto
    show ?thesis
      using Cons.IH [OF st'(2)] Cons.prems(2) Some r st'(1) c by (simp add: option.map_comp o_def)
  qed
qed simp

lemma record_removals_lookup:
  "record_removals actions now cd = Some cd' \<Longrightarrow>
     map_of cd' (p, l) = (if Remove p l \<in> set actions then Some (now + REENTRY_COOLDOWN_SECONDS) else map_of cd (p, l))"
  by (induction actions now cd rule: record_removals.induct)
    (auto simp: u64_add_def update_conv' split: option.splits if_splits)

section \<open>What the writers guarantee\<close>

text \<open>
  C23: the fee ceiling. Whatever is decided, whichever loads, submits and saves fail, and however often
  the bounds are read back from the store, the fees of all bundles a writer submits for a distributor
  stay within one daily limit for every started day since the day of the loaded state began, the part
  already spent included. Every bundle carries at most eight actions.
\<close>

theorem daily_fee_ceiling:
  assumes "timed_from wc_now t cs" "wbs_day_started_at (ww_saved w) \<le> t"
    and "wbs_spent_mojos_today (ww_saved w) \<le> L"
  shows "sum_list (map wb_fee_mojos (fst (writer_run launcher L cs w))) + wbs_spent_mojos_today (ww_saved w)
      \<le> L * Suc ((last_time wc_now t cs - wbs_day_started_at (ww_saved w)) div SECONDS_PER_DAY)
    \<and> (\<forall>b \<in> set (fst (writer_run launcher L cs w)). length (wb_actions b) \<le> MAX_ENTRY_WRITES_PER_BUNDLE)"
proof
  show "\<forall>b \<in> set (fst (writer_run launcher L cs w)). length (wb_actions b) \<le> MAX_ENTRY_WRITES_PER_BUNDLE"
  proof (induction cs arbitrary: w)
    case (Cons c cs)
    obtain b w' where run: "writer_cycle launcher L c w = (b, w')" by fastforce
    then have "\<forall>bd. b = Some bd \<longrightarrow> length (wb_actions bd) \<le> MAX_ENTRY_WRITES_PER_BUNDLE"
      by (cases rule: writer_cycle_cases) simp_all
    with run Cons.IH [of w'] show ?case by (auto split: prod.splits option.splits)
  qed simp
qed (rule writer_run_fees [OF assms])

text \<open>A first bundle of one addition, then nothing within the interval.\<close>

definition sample_cycle :: "nat \<Rightarrow> write_cycle" where
  "sample_cycle now = \<lparr>wc_decisions = [Add \<lparr>ap_payout_puzzle_hash = ''h'', ap_launcher_id = ''l''\<rparr>],
     wc_fee = 5, wc_now = now, wc_load_ok = True, wc_submit_ok = True, wc_save_ok = True\<rparr>"

definition sample_world :: writer_world where
  "sample_world = \<lparr>ww_saved = \<lparr>wbs_last_bundle_sent_at = None, wbs_spent_mojos_today = 0,
     wbs_day_started_at = 1000, wbs_cooldown_until = []\<rparr>, ww_poisoned = False\<rparr>"

definition sample_cycles :: "write_cycle list" where
  "sample_cycles = [sample_cycle 1000, sample_cycle 2000, sample_cycle 5000]"

lemma sample_run: "map wb_fee_mojos (fst (writer_run ''l'' 240 sample_cycles sample_world)) = [5, 5]"
  by (simp add: sample_cycles_def sample_cycle_def sample_world_def writer_cycle_def writer_decide_def Let_def
      roll_day_def SECONDS_PER_DAY_def u64_sat_add_def u64_add_def MAX_ENTRY_WRITES_PER_BUNDLE_def
      writer_commit_def ENTRY_WRITE_MIN_INTERVAL_SECONDS_def)

lemma sample_sel:
  "timed_from wc_now 1000 sample_cycles" "last_time wc_now 1000 sample_cycles = 5000"
  "wbs_day_started_at (ww_saved sample_world) = 1000" "wbs_spent_mojos_today (ww_saved sample_world) = 0"
  "wbs_last_bundle_sent_at (ww_saved sample_world) = None"
  by (simp_all add: sample_cycles_def sample_cycle_def sample_world_def)

theorem daily_fee_ceiling_witness:
  "map wb_fee_mojos (fst (writer_run ''l'' 240 sample_cycles sample_world)) = [5, 5]
   \<and> sum_list [5, 5] + 0 \<le> (240 :: nat) * Suc ((5000 - 1000) div SECONDS_PER_DAY)"
  using daily_fee_ceiling [of 1000 sample_cycles sample_world 240 "''l''"]
  by (simp add: sample_run sample_sel)

text \<open>
  the rate of writes. Over any run of cycles, with whatever failures, a writer submits at most one
  bundle and one more for each full hour of the run; so at most 24 bundles and 192 entry actions a day.
\<close>

theorem bundle_rate_bound:
  assumes "timed_from wc_now t cs"
    and "case wbs_last_bundle_sent_at (ww_saved w) of None \<Rightarrow> True | Some sent \<Rightarrow> sent \<le> t"
  shows "length (fst (writer_run launcher L cs w)) \<le> 1 + (last_time wc_now t cs - t) div ENTRY_WRITE_MIN_INTERVAL_SECONDS"
proof -
  let ?n = "length (fst (writer_run launcher L cs w))" and ?T = "last_time wc_now t cs"
  have T: "t \<le> ?T" by (rule last_time_ge [OF assms(1)])
  have "write_ok w (t * 1000000000)"
    using assms(2) by (simp add: write_ok_def split: option.splits)
  moreover have "timed_from cycle_nanos (t * 1000000000) cs"
    using assms(1) by (simp add: timed_from_scale)
  ultimately have "real ?n \<le> write_balance w (t * 1000000000)
      + 1 / 3600 * secs (last_time cycle_nanos (t * 1000000000) cs - t * 1000000000)"
    using write_meter.run_bound [of w "t * 1000000000" cs launcher L] by (simp add: writer_gate_run)
  moreover have "write_balance w (t * 1000000000) \<le> 1"
    by (simp add: write_balance_def split: option.splits)
  moreover have "secs (last_time cycle_nanos (t * 1000000000) cs - t * 1000000000) = real (?T - t)"
    using T by (simp add: last_time_scale secs_def flip: diff_mult_distrib)
  ultimately have "real ?n \<le> 1 + real (?T - t) / 3600" by simp
  then have "(?n - 1) * 3600 \<le> ?T - t"
    by (cases ?n) (simp_all add: field_simps flip: of_nat_mult of_nat_add)
  then have "?n - 1 \<le> (?T - t) div 3600"
    by (simp add: less_eq_div_iff_mult_less_eq)
  then show ?thesis by (simp add: ENTRY_WRITE_MIN_INTERVAL_SECONDS_def)
qed

theorem bundle_rate_bound_witness:
  "length (fst (writer_run ''l'' 240 sample_cycles sample_world)) = 2
   \<and> (2 :: nat) \<le> 1 + (5000 - 1000) div ENTRY_WRITE_MIN_INTERVAL_SECONDS"
proof -
  have "length (fst (writer_run ''l'' 240 sample_cycles sample_world)) = 2"
    using arg_cong [OF sample_run, of length] by simp
  with bundle_rate_bound [of 1000 sample_cycles sample_world "''l''" 240] show ?thesis
    by (simp only: sample_sel) simp
qed

text \<open>
  C26: the persisted writer is the in-memory one. Started with the same clock and limit and driven
  through the same cycles, with submits and saves that succeed and no single fee above the daily limit,
  the two give the same outcome in every cycle: the same bundles, the same withheld counts, the same
  exhaustion.
\<close>

theorem persisted_writer_is_scheduler:
  assumes "\<forall>(_, fee, _) \<in> set cs. fee \<le> daily_limit_for std"
  shows "persisted_run launcher (daily_limit_for std) cs
      \<lparr>wbs_last_bundle_sent_at = None, wbs_spent_mojos_today = 0, wbs_day_started_at = t, wbs_cooldown_until = []\<rparr>
    = map_option (map persisted_view) (scheduler_run launcher cs (scheduler_new, fee_budget_new std t))"
  using assms by (intro runs_agree) (simp_all add: same_bounds_def scheduler_new_def fee_budget_new_def)

theorem persisted_writer_is_scheduler_witness:
  "persisted_run ''l'' (daily_limit_for 5) [([Remove ''h'' ''l''], 5, 1000), ([Remove ''g'' ''l''], 5, 2000)]
      \<lparr>wbs_last_bundle_sent_at = None, wbs_spent_mojos_today = 0, wbs_day_started_at = 7, wbs_cooldown_until = []\<rparr>
    = map_option (map persisted_view) (scheduler_run ''l'' [([Remove ''h'' ''l''], 5, 1000), ([Remove ''g'' ''l''], 5, 2000)]
        (scheduler_new, fee_budget_new 5 7))"
  by (rule persisted_writer_is_scheduler)
    (simp add: daily_limit_for_def u64_sat_mul_def MAX_BUNDLES_PER_DAY_def SECONDS_PER_DAY_def
      ENTRY_WRITE_MIN_INTERVAL_SECONDS_def)

text \<open>
  a removed entry waits. Once a bundle has been recorded as submitted, every payout address it
  removed is refused re-entry for exactly six hours from then, whichever peer presents it, and nothing
  changes for any other address.
\<close>

theorem removed_entry_waits:
  assumes "record_submitted b now s = Some s'"
  shows "(is_in_reentry_cooldown p l t s' \<longleftrightarrow>
      (if Remove p l \<in> set (wb_actions b) then t < now + REENTRY_COOLDOWN_SECONDS
       else is_in_reentry_cooldown p l t s))
    \<and> last_bundle_sent_at s' = last_bundle_sent_at s"
proof -
  obtain cd where cd: "record_removals (wb_actions b) now (cooldown_until s) = Some cd"
    "s' = s\<lparr>cooldown_until := cd\<rparr>"
    using assms by (auto simp: record_submitted_def)
  then show ?thesis
    by (simp add: is_in_reentry_cooldown_def record_removals_lookup [OF cd(1)])
qed

theorem removed_entry_waits_witness:
  "\<exists>s'. record_submitted \<lparr>wb_launcher_id = ''l'', wb_actions = [Remove ''h'' ''l''], wb_fee_mojos = 5\<rparr> 100 scheduler_new
       = Some s' \<and> is_in_reentry_cooldown ''h'' ''l'' 21699 s' \<and> \<not> is_in_reentry_cooldown ''h'' ''l'' 21700 s'"
proof -
  obtain s' where s': "record_submitted \<lparr>wb_launcher_id = ''l'', wb_actions = [Remove ''h'' ''l''], wb_fee_mojos = 5\<rparr>
      100 scheduler_new = Some s'"
    by (auto simp: record_submitted_def u64_add_def REENTRY_COOLDOWN_SECONDS_def)
  with removed_entry_waits [OF s', of "''h''" "''l''"] show ?thesis
    by (intro exI [of _ s']) (simp add: REENTRY_COOLDOWN_SECONDS_def)
qed

end
