(* ===== verification/Prover_Status.thy ===== *)
theory Prover_Status
  imports Reward_Admission
begin

text \<open>
  The prover's status record and its cycle: \<open>rewards/state.rs\<close>, \<open>rewards/cycle.rs\<close> and
  \<open>rewards/staleness.rs\<close>.

  The record is shared by the cycle runner and the heartbeat loop. Every \<open>StatusHandle::update\<close> holds
  the lock, so it is one step; the runner reads the clock before it takes the lock, so that reading is
  a step of its own and a heartbeat may come in between. Seconds are naturals: readings stay far below
  \<open>2 ^ 64\<close>.
\<close>

definition PROVER_CYCLE_PERIOD_SECONDS :: nat where "PROVER_CYCLE_PERIOD_SECONDS = 3600"
definition PROVER_HEARTBEAT_SECONDS :: nat where "PROVER_HEARTBEAT_SECONDS = 60"
definition STALE_ENTRY_SET_SECONDS :: nat where "STALE_ENTRY_SET_SECONDS = 172800"

section \<open>The record\<close>

datatype prover_state =
  Idle | Running | LocalCopyMissing | ProverChainSourceUnavailable | Unfunded | ProverFeeBudgetExhausted
| EntrySetFull | Paused | Stopped

record prover_counters =
  mirrors_seen :: nat
  challenges_issued :: nat
  challenges_passed :: nat
  challenges_failed :: nat
  entries_added :: nat
  entries_removed :: nat
  entry_count :: nat
  pc_reserve_base_units :: nat
  pc_total_paid_out_base_units :: nat

definition counters_default :: prover_counters where
  "counters_default = \<lparr>mirrors_seen = 0, challenges_issued = 0, challenges_passed = 0,
     challenges_failed = 0, entries_added = 0, entries_removed = 0, entry_count = 0,
     pc_reserve_base_units = 0, pc_total_paid_out_base_units = 0\<rparr>"

record reward_prover_status =
  ps_launcher_id :: bytes32
  ps_store_id :: bytes32
  ps_root :: bytes32
  ps_prover_state :: prover_state
  prover_state_since :: nat
  last_cycle_started_at :: "nat option"
  last_cycle_completed_at :: "nat option"
  next_cycle_due_at :: "nat option"
  ps_last_entry_write_at :: "nat option"
  consecutive_cycle_failures :: nat
  pending_entry_writes :: nat
  observed_at :: nat
  ps_counters :: prover_counters

definition new_status :: "bytes32 \<Rightarrow> bytes32 \<Rightarrow> bytes32 \<Rightarrow> nat \<Rightarrow> reward_prover_status" where
  "new_status launcher_id store_id rt now =
     \<lparr>ps_launcher_id = launcher_id, ps_store_id = store_id, ps_root = rt, ps_prover_state = Idle,
      prover_state_since = now, last_cycle_started_at = None, last_cycle_completed_at = None,
      next_cycle_due_at = None, ps_last_entry_write_at = None, consecutive_cycle_failures = 0,
      pending_entry_writes = 0, observed_at = now, ps_counters = counters_default\<rparr>"

definition idle_status :: "bytes32 \<Rightarrow> bytes32 \<Rightarrow> bytes32 \<Rightarrow> nat \<Rightarrow> reward_prover_status" where
  "idle_status = new_status"

section \<open>The updates\<close>

definition cycle_started :: "nat \<Rightarrow> reward_prover_status \<Rightarrow> reward_prover_status" where
  "cycle_started started_at s =
     s\<lparr>ps_prover_state := Running, last_cycle_started_at := Some started_at, observed_at := started_at\<rparr>"

definition cycle_completed :: "nat \<Rightarrow> reward_prover_status \<Rightarrow> reward_prover_status" where
  "cycle_completed completed_at s =
     s\<lparr>ps_prover_state := Idle, last_cycle_completed_at := Some completed_at,
       next_cycle_due_at := Some (completed_at + PROVER_CYCLE_PERIOD_SECONDS),
       consecutive_cycle_failures := 0, observed_at := completed_at\<rparr>"

definition cycle_abandoned :: "nat \<Rightarrow> reward_prover_status \<Rightarrow> reward_prover_status" where
  "cycle_abandoned now s =
     s\<lparr>ps_prover_state := Idle, consecutive_cycle_failures := consecutive_cycle_failures s + 1,
       observed_at := now\<rparr>"

definition heartbeat_tick :: "nat \<Rightarrow> reward_prover_status \<Rightarrow> reward_prover_status" where
  "heartbeat_tick now s = s\<lparr>observed_at := now\<rparr>"

definition is_wedged :: "nat \<Rightarrow> nat \<Rightarrow> bool" where
  "is_wedged observed reader_now = (reader_now - observed > PROVER_HEARTBEAT_SECONDS * 2)"

record entry_slot =
  es_payout_puzzle_hash :: bytes32
  es_counter :: nat
  es_shares :: nat

record distributor_chain_state =
  reserve_base_units :: nat
  ds_entries :: "entry_slot list"
  current_distributor_epoch :: nat
  ds_last_entry_write_at :: "nat option"
  ds_total_paid_out_base_units :: nat

definition is_entry_set_stale :: "distributor_chain_state \<Rightarrow> nat \<Rightarrow> nat \<Rightarrow> bool" where
  "is_entry_set_stale st now distributor_created_at =
     (if reserve_base_units st = 0 then False
      else case ds_last_entry_write_at st of
             Some last_write \<Rightarrow> now - last_write \<ge> STALE_ENTRY_SET_SECONDS
           | None \<Rightarrow> now - distributor_created_at \<ge> STALE_ENTRY_SET_SECONDS)"

section \<open>The runner and the heartbeat, interleaved\<close>

text \<open>
  Where \<open>run_cycle_with_deadline\<close> is: outside, with the clock read before one of its updates, or with
  the cycle's work under way. \<open>timeout\<close> decides whether the work completed or was abandoned.
\<close>

datatype runner =
  Outside | StartRead nat | Working | CompleteRead nat | AbandonRead nat

record prover_world =
  pw_status :: reward_prover_status
  pw_runner :: runner
  pw_clock :: nat

datatype prover_event =
  ClockAdvances nat
| Heartbeat nat
| ReadClock
| CycleStarted nat
| CycleCompleted nat
| CycleAbandoned nat

inductive prover_step :: "prover_world \<Rightarrow> prover_event \<Rightarrow> prover_world \<Rightarrow> bool" where
  clock: "prover_step w (ClockAdvances d) (w\<lparr>pw_clock := pw_clock w + d\<rparr>)"
| heartbeat: "prover_step w (Heartbeat (pw_clock w)) (w\<lparr>pw_status := heartbeat_tick (pw_clock w) (pw_status w)\<rparr>)"
| start_read: "pw_runner w = Outside \<Longrightarrow>
    prover_step w ReadClock (w\<lparr>pw_runner := StartRead (pw_clock w)\<rparr>)"
| start: "pw_runner w = StartRead t \<Longrightarrow>
    prover_step w (CycleStarted t) (w\<lparr>pw_runner := Working, pw_status := cycle_started t (pw_status w)\<rparr>)"
| complete_read: "pw_runner w = Working \<Longrightarrow>
    prover_step w ReadClock (w\<lparr>pw_runner := CompleteRead (pw_clock w)\<rparr>)"
| complete: "pw_runner w = CompleteRead t \<Longrightarrow>
    prover_step w (CycleCompleted t) (w\<lparr>pw_runner := Outside, pw_status := cycle_completed t (pw_status w)\<rparr>)"
| abandon_read: "pw_runner w = Working \<Longrightarrow>
    prover_step w ReadClock (w\<lparr>pw_runner := AbandonRead (pw_clock w)\<rparr>)"
| abandon: "pw_runner w = AbandonRead t \<Longrightarrow>
    prover_step w (CycleAbandoned t) (w\<lparr>pw_runner := Outside, pw_status := cycle_abandoned t (pw_status w)\<rparr>)"

inductive_cases prover_stepE: "prover_step w e w'"

text \<open>The runs of a prover started at time \<open>t\<close>, with their events, newest first.\<close>

inductive prover_run :: "bytes32 \<Rightarrow> bytes32 \<Rightarrow> bytes32 \<Rightarrow> nat \<Rightarrow> prover_event list \<Rightarrow> prover_world \<Rightarrow> bool"
  for launcher store rt t
where
  init: "prover_run launcher store rt t []
    \<lparr>pw_status = idle_status launcher store rt t, pw_runner = Outside, pw_clock = t\<rparr>"
| step: "prover_run launcher store rt t es w \<Longrightarrow> prover_step w e w' \<Longrightarrow>
    prover_run launcher store rt t (e # es) w'"

section \<open>What the record says about the run\<close>

text \<open>The readings a run has written into the record, newest first, and the fate of its cycles.\<close>

fun written :: "prover_event list \<Rightarrow> nat list" where
  "written [] = []"
| "written (Heartbeat n # es) = n # written es"
| "written (CycleStarted n # es) = n # written es"
| "written (CycleCompleted n # es) = n # written es"
| "written (CycleAbandoned n # es) = n # written es"
| "written (_ # es) = written es"

fun completions :: "prover_event list \<Rightarrow> nat list" where
  "completions [] = []"
| "completions (CycleCompleted n # es) = n # completions es"
| "completions (_ # es) = completions es"

fun starts :: "prover_event list \<Rightarrow> nat list" where
  "starts [] = []"
| "starts (CycleStarted n # es) = n # starts es"
| "starts (_ # es) = starts es"

fun failures :: "prover_event list \<Rightarrow> nat" where
  "failures [] = 0"
| "failures (CycleCompleted n # es) = 0"
| "failures (CycleAbandoned n # es) = Suc (failures es)"
| "failures (_ # es) = failures es"

definition opt_hd :: "'a list \<Rightarrow> 'a option" where
  "opt_hd xs = (case xs of [] \<Rightarrow> None | x # _ \<Rightarrow> Some x)"

fun in_cycle :: "runner \<Rightarrow> bool" where
  "in_cycle Outside = False"
| "in_cycle (StartRead t) = False"
| "in_cycle _ = True"

fun read_of :: "runner \<Rightarrow> nat option" where
  "read_of (StartRead t) = Some t"
| "read_of (CompleteRead t) = Some t"
| "read_of (AbandonRead t) = Some t"
| "read_of _ = None"

definition record_inv :: "nat \<Rightarrow> prover_event list \<Rightarrow> prover_world \<Rightarrow> bool" where
  "record_inv t es w \<longleftrightarrow>
     observed_at (pw_status w) = hd (written es @ [t])
     \<and> last_cycle_completed_at (pw_status w) = opt_hd (completions es)
     \<and> last_cycle_started_at (pw_status w) = opt_hd (starts es)
     \<and> next_cycle_due_at (pw_status w)
         = map_option (\<lambda>c. c + PROVER_CYCLE_PERIOD_SECONDS) (opt_hd (completions es))
     \<and> consecutive_cycle_failures (pw_status w) = failures es
     \<and> ps_prover_state (pw_status w) = (if in_cycle (pw_runner w) then Running else Idle)
     \<and> length (starts es) = length (completions es) + length (filter (\<lambda>e. \<exists>n. e = CycleAbandoned n) es)
         + (if in_cycle (pw_runner w) then 1 else 0)
     \<and> (\<forall>n \<in> set (written es). n \<le> pw_clock w) \<and> t \<le> pw_clock w
     \<and> (\<forall>n. read_of (pw_runner w) = Some n \<longrightarrow> n \<le> pw_clock w)"

lemma record_inv_run: "prover_run launcher store rt t es w \<Longrightarrow> record_inv t es w"
proof (induction rule: prover_run.induct)
  case init
  then show ?case
    by (simp add: record_inv_def idle_status_def new_status_def opt_hd_def)
next
  case (step es w e w')
  from step.hyps(2) step.IH show ?case
    by cases (auto simp: record_inv_def heartbeat_tick_def cycle_started_def cycle_completed_def
        cycle_abandoned_def opt_hd_def)
qed

lemma written_append [simp]: "written (es @ es') = written es @ written es'"
  by (induction es rule: written.induct) simp_all

lemma state_since_run:
  "prover_run launcher store rt t es w \<Longrightarrow> prover_state_since (pw_status w) = t"
proof (induction rule: prover_run.induct)
  case (step es w e w')
  from step.hyps(2) step.IH show ?case
    by cases (auto simp: heartbeat_tick_def cycle_started_def cycle_completed_def cycle_abandoned_def)
qed (simp add: idle_status_def new_status_def)

text \<open>
  the record tells the truth about the cycles, however the runner and the heartbeat interleave.
  At every moment the last start and completion times are those of the last cycle that started and
  that completed; the next cycle is due one period after that completion; the failure count is the
  number of cycles abandoned since; the state is running exactly while a cycle is under way; and every
  cycle that started has completed, was abandoned, or is the one under way. An abandoned cycle or a
  heartbeat never passes for a completion.
\<close>

theorem cycle_record_honest:
  assumes "prover_run launcher store rt t es w"
  shows "last_cycle_completed_at (pw_status w) = opt_hd (completions es)
    \<and> last_cycle_started_at (pw_status w) = opt_hd (starts es)
    \<and> next_cycle_due_at (pw_status w)
        = map_option (\<lambda>c. c + PROVER_CYCLE_PERIOD_SECONDS) (opt_hd (completions es))
    \<and> consecutive_cycle_failures (pw_status w) = failures es
    \<and> (ps_prover_state (pw_status w) = Running \<longleftrightarrow> in_cycle (pw_runner w))
    \<and> length (starts es) = length (completions es) + length (filter (\<lambda>e. \<exists>n. e = CycleAbandoned n) es)
        + (if in_cycle (pw_runner w) then 1 else 0)"
  using record_inv_run [OF assms] by (simp add: record_inv_def)

text \<open>One cycle that is abandoned, with a heartbeat while it runs.\<close>

lemma sample_prover_run:
  "\<exists>w. prover_run [] [] [] 10 [CycleAbandoned 910, ReadClock, Heartbeat 910, ClockAdvances 900,
     CycleStarted 10, ReadClock] w \<and> pw_clock w = 910"
proof -
  let ?w0 = "\<lparr>pw_status = idle_status [] [] [] 10, pw_runner = Outside, pw_clock = 10\<rparr>"
  let ?w1 = "?w0\<lparr>pw_runner := StartRead 10\<rparr>"
  let ?w2 = "?w1\<lparr>pw_runner := Working, pw_status := cycle_started 10 (pw_status ?w1)\<rparr>"
  let ?w3 = "?w2\<lparr>pw_clock := pw_clock ?w2 + 900\<rparr>"
  let ?w4 = "?w3\<lparr>pw_status := heartbeat_tick (pw_clock ?w3) (pw_status ?w3)\<rparr>"
  let ?w5 = "?w4\<lparr>pw_runner := AbandonRead (pw_clock ?w4)\<rparr>"
  have steps: "prover_step ?w0 ReadClock ?w1" "prover_step ?w1 (CycleStarted 10) ?w2"
    "prover_step ?w2 (ClockAdvances 900) ?w3" "prover_step ?w3 (Heartbeat 910) ?w4"
    "prover_step ?w4 ReadClock ?w5"
    "prover_step ?w5 (CycleAbandoned 910) (?w5\<lparr>pw_runner := Outside, pw_status := cycle_abandoned 910 (pw_status ?w5)\<rparr>)"
    using prover_step.start_read [of ?w0] prover_step.start [of ?w1 10] prover_step.clock [of ?w2 900]
      prover_step.heartbeat [of ?w3] prover_step.abandon_read [of ?w4] prover_step.abandon [of ?w5 910]
    by simp_all
  show ?thesis
    by (intro exI conjI, rule prover_run.step [OF prover_run.step [OF prover_run.step [OF prover_run.step
        [OF prover_run.step [OF prover_run.step [OF prover_run.init steps(1)] steps(2)] steps(3)] steps(4)]
          steps(5)] steps(6)]) simp
qed

theorem cycle_record_honest_witness:
  "\<exists>es w. prover_run [] [] [] 10 es w \<and> last_cycle_started_at (pw_status w) = Some 10
     \<and> last_cycle_completed_at (pw_status w) = None \<and> consecutive_cycle_failures (pw_status w) = 1"
proof -
  obtain w where w: "prover_run [] [] [] 10 [CycleAbandoned 910, ReadClock, Heartbeat 910,
      ClockAdvances 900, CycleStarted 10, ReadClock] w"
    using sample_prover_run by blast
  from cycle_record_honest [OF w] have "last_cycle_started_at (pw_status w) = Some 10"
    "last_cycle_completed_at (pw_status w) = None" "consecutive_cycle_failures (pw_status w) = 1"
    by (simp_all add: opt_hd_def)
  with w show ?thesis by blast
qed

text \<open>
  a stalled prover cannot look alive. When a reader's own clock says that the record is not wedged,
  one of the writers read its clock and wrote the record within the last 120 seconds (or the prover
  started then). And once a reader finds the record wedged, it stays wedged at every later time until
  one of the writers writes it again: nothing else moves it.
\<close>

theorem wedge_is_honest:
  assumes "prover_run launcher store rt t es w"
  shows "(\<not> is_wedged (observed_at (pw_status w)) reader_now \<longrightarrow>
      (\<exists>n \<in> set (written es) \<union> {t}. n \<le> pw_clock w \<and> reader_now \<le> n + 120))
    \<and> (\<forall>es' w' now'. prover_run launcher store rt t (es' @ es) w' \<and> written es' = []
        \<and> is_wedged (observed_at (pw_status w)) reader_now \<and> reader_now \<le> now' \<longrightarrow>
        is_wedged (observed_at (pw_status w')) now')"
proof (intro conjI impI allI)
  have inv: "observed_at (pw_status w) = hd (written es @ [t])"
    "\<forall>n \<in> set (written es). n \<le> pw_clock w" "t \<le> pw_clock w"
    using record_inv_run [OF assms] by (simp_all add: record_inv_def)
  assume "\<not> is_wedged (observed_at (pw_status w)) reader_now"
  then have "reader_now \<le> observed_at (pw_status w) + 120"
    by (simp add: is_wedged_def PROVER_HEARTBEAT_SECONDS_def)
  moreover have "observed_at (pw_status w) \<in> set (written es) \<union> {t}"
    unfolding inv(1) by (cases "written es") auto
  ultimately show "\<exists>n \<in> set (written es) \<union> {t}. n \<le> pw_clock w \<and> reader_now \<le> n + 120"
    using inv(2,3) by blast
next
  fix es' w' now'
  assume a: "prover_run launcher store rt t (es' @ es) w' \<and> written es' = []
      \<and> is_wedged (observed_at (pw_status w)) reader_now \<and> reader_now \<le> now'"
  then have "observed_at (pw_status w') = observed_at (pw_status w)"
    using record_inv_run [OF assms] record_inv_run [of launcher store rt t "es' @ es" w']
    by (simp add: record_inv_def)
  with a show "is_wedged (observed_at (pw_status w')) now'"
    unfolding is_wedged_def by linarith
qed

theorem wedge_is_honest_witness:
  "\<exists>es w. prover_run [] [] [] 10 es w \<and> pw_clock w = 910
     \<and> (\<exists>n \<in> set (written es) \<union> {10}. n \<le> pw_clock w \<and> 910 \<le> n + 120)"
proof -
  let ?es = "[CycleAbandoned 910, ReadClock, Heartbeat 910, ClockAdvances 900, CycleStarted 10, ReadClock]"
  obtain w where w: "prover_run [] [] [] 10 ?es w" "pw_clock w = 910"
    using sample_prover_run by blast
  have "observed_at (pw_status w) = 910"
    using record_inv_run [OF w(1)] by (simp add: record_inv_def)
  then have "\<not> is_wedged (observed_at (pw_status w)) 910" by (simp add: is_wedged_def)
  with wedge_is_honest [OF w(1), of 910] have "\<exists>n \<in> set (written ?es) \<union> {10}. n \<le> pw_clock w \<and> 910 \<le> n + 120"
    by blast
  with w show ?thesis by blast
qed

text \<open>
  The time the state was entered is set when the record is made and never again: the updates that move
  the prover between idle and running leave it at the start of the process.
\<close>

theorem state_since_never_moves:
  assumes "prover_run launcher store rt t es w"
  shows "prover_state_since (pw_status w) = t"
  using state_since_run [OF assms] .

end
