(* ===== verification/Funded_Registry.thy ===== *)
theory Funded_Registry
  imports Reward_Admission Wire
begin

text \<open>
  The registry of the distributors this node funds: \<open>rewards/funded.rs\<close>.

  The registry holds no state between calls: every operation reads the record file and writes it anew.
  The disk is explicit: whether the state directory exists, what reading the record file gives, and
  the copy kept for the operator. The JSON reader and writer of the record are arguments
  (\<open>serde_json\<close>), with the law that what was written is read back; the hex codec is the one of
  \<open>Wire\<close>. The text of a file is of any type. Which step of a save fails, and whether the quarantine copy succeeds, are arguments. A save
  writes a temporary file and renames it, so a failed save leaves the record as it was.
\<close>

section \<open>Records and outcomes\<close>

definition RECORD_FORMAT_VERSION :: nat where "RECORD_FORMAT_VERSION = 1"

record funded_distributor =
  fd_launcher_id :: bytes32
  fd_store_id :: "bytes32 option"

datatype not_configured_reason = NoStateDirectory | StateDirectoryMissing | NoRecordWritten

datatype funded_distributors_read =
  Funded "funded_distributor list"
| FundsNothing
| NotConfigured not_configured_reason
| PersistedStateCorrupt (quarantined: bool)
| IoFailed string

definition determined :: "funded_distributors_read \<Rightarrow> funded_distributor list option" where
  "determined self =
     (case self of
        Funded fds \<Rightarrow> Some fds
      | FundsNothing \<Rightarrow> Some []
      | NotConfigured _ \<Rightarrow> None
      | PersistedStateCorrupt _ \<Rightarrow> None
      | IoFailed _ \<Rightarrow> None)"

datatype record_outcome =
  Recorded
| AlreadyRecorded
| IdentityRefined
| IdentityConflict (recorded: bytes32) (offered: bytes32)
| RecordNotConfigured not_configured_reason
| RecordStateCorrupt bool
| RecordIoFailed string

record persisted_distributor =
  pd_launcher_id :: string
  pd_store_id :: "string option"

record persisted_record =
  pr_version :: nat
  pr_distributors :: "persisted_distributor list"

record 'txt record_codec =
  rc_parse :: "'txt \<Rightarrow> persisted_record option"
  rc_render :: "persisted_record \<Rightarrow> 'txt"
  rc_hex :: hex_codec

definition codec_laws :: "'txt record_codec \<Rightarrow> bool" where
  "codec_laws C \<longleftrightarrow> (\<forall>r. rc_parse C (rc_render C r) = Some r) \<and> hex_laws (rc_hex C)"

section \<open>The disk\<close>

datatype 'txt file_read = FileNotFound | FileError string | FileText 'txt

datatype save_fault = NoDirectory string | WriteFailed string

record 'txt disk =
  dir_exists :: bool
  record_file :: "'txt file_read"
  quarantine_file :: "'txt option"

section \<open>Reading and writing the record\<close>

definition parse_id :: "'txt record_codec \<Rightarrow> string \<Rightarrow> bytes32 option" where
  "parse_id C txt =
     (case hx_decode (rc_hex C) txt of
        None \<Rightarrow> None
      | Some bytes \<Rightarrow> if length bytes = 32 then Some bytes else None)"

definition from_distributors :: "'txt record_codec \<Rightarrow> funded_distributor list \<Rightarrow> persisted_record" where
  "from_distributors C fds =
     \<lparr>pr_version = RECORD_FORMAT_VERSION,
      pr_distributors = map (\<lambda>d. \<lparr>pd_launcher_id = hx_encode (rc_hex C) (fd_launcher_id d),
        pd_store_id = map_option (hx_encode (rc_hex C)) (fd_store_id d)\<rparr>) fds\<rparr>"

definition into_distributor :: "'txt record_codec \<Rightarrow> persisted_distributor \<Rightarrow> funded_distributor option" where
  "into_distributor C d =
     (case parse_id C (pd_launcher_id d) of
        None \<Rightarrow> None
      | Some launcher \<Rightarrow>
          (case pd_store_id d of
             None \<Rightarrow> Some \<lparr>fd_launcher_id = launcher, fd_store_id = None\<rparr>
           | Some txt \<Rightarrow> map_option (\<lambda>st. \<lparr>fd_launcher_id = launcher, fd_store_id = Some st\<rparr>) (parse_id C txt)))"

fun into_distributors :: "'txt record_codec \<Rightarrow> persisted_distributor list \<Rightarrow> funded_distributor list option" where
  "into_distributors C [] = Some []"
| "into_distributors C (d # ds) =
     (case into_distributor C d of
        None \<Rightarrow> None
      | Some fd \<Rightarrow> map_option (Cons fd) (into_distributors C ds))"

datatype load_failure = Corrupt | Io string

definition load :: "'txt record_codec \<Rightarrow> 'txt disk \<Rightarrow> load_failure + persisted_record option" where
  "load C d =
     (case record_file d of
        FileNotFound \<Rightarrow> Inr None
      | FileError e \<Rightarrow> Inl (Io e)
      | FileText txt \<Rightarrow>
          (case rc_parse C txt of
             None \<Rightarrow> Inl Corrupt
           | Some rcd \<Rightarrow> if pr_version rcd \<noteq> RECORD_FORMAT_VERSION then Inl Corrupt else Inr (Some rcd)))"

definition save :: "'txt record_codec \<Rightarrow> save_fault option \<Rightarrow> funded_distributor list \<Rightarrow> 'txt disk \<Rightarrow> string option \<times> 'txt disk" where
  "save C fault fds d =
     (case fault of
        Some (NoDirectory e) \<Rightarrow> (Some e, d)
      | Some (WriteFailed e) \<Rightarrow> (Some e, d\<lparr>dir_exists := True\<rparr>)
      | None \<Rightarrow> (None, d\<lparr>dir_exists := True, record_file := FileText (rc_render C (from_distributors C fds))\<rparr>))"

definition quarantine :: "bool \<Rightarrow> 'txt disk \<Rightarrow> bool \<times> 'txt disk" where
  "quarantine copy_ok d =
     (case record_file d of
        FileText txt \<Rightarrow> if copy_ok then (True, d\<lparr>quarantine_file := Some txt\<rparr>) else (False, d)
      | _ \<Rightarrow> (False, d))"

definition report_corrupt :: "bool \<Rightarrow> 'txt disk \<Rightarrow> funded_distributors_read \<times> 'txt disk" where
  "report_corrupt copy_ok d = (let (q, d') = quarantine copy_ok d in (PersistedStateCorrupt q, d'))"

definition refuse_corrupt :: "bool \<Rightarrow> 'txt disk \<Rightarrow> record_outcome \<times> 'txt disk" where
  "refuse_corrupt copy_ok d = (let (q, d') = quarantine copy_ok d in (RecordStateCorrupt q, d'))"

definition absent_record_reason :: "bool \<Rightarrow> 'txt disk \<Rightarrow> not_configured_reason" where
  "absent_record_reason has_dir d =
     (if \<not> has_dir then NoStateDirectory
      else if \<not> dir_exists d then StateDirectoryMissing
      else NoRecordWritten)"

section \<open>The operations\<close>

text \<open>\<open>has_dir\<close>: whether a state directory is configured at all.\<close>

definition registry_read :: "'txt record_codec \<Rightarrow> bool \<Rightarrow> bool \<Rightarrow> 'txt disk \<Rightarrow> funded_distributors_read \<times> 'txt disk" where
  "registry_read C has_dir copy_ok d =
     (if \<not> has_dir then (NotConfigured NoStateDirectory, d)
      else case load C d of
             Inr (Some rcd) \<Rightarrow>
               (case into_distributors C (pr_distributors rcd) of
                  Some fds \<Rightarrow> (if fds = [] then FundsNothing else Funded fds, d)
                | None \<Rightarrow> report_corrupt copy_ok d)
           | Inr None \<Rightarrow> (NotConfigured (absent_record_reason has_dir d), d)
           | Inl Corrupt \<Rightarrow> report_corrupt copy_ok d
           | Inl (Io e) \<Rightarrow> (IoFailed e, d))"

fun merge :: "funded_distributor \<Rightarrow> funded_distributor list \<Rightarrow> record_outcome \<times> funded_distributor list" where
  "merge distributor [] = (Recorded, [distributor])"
| "merge distributor (existing # fds) =
     (if fd_launcher_id existing = fd_launcher_id distributor
      then case (fd_store_id existing, fd_store_id distributor) of
             (Some old, Some new) \<Rightarrow>
               (if old \<noteq> new then IdentityConflict old new else AlreadyRecorded, existing # fds)
           | (None, Some new) \<Rightarrow> (IdentityRefined, existing\<lparr>fd_store_id := Some new\<rparr> # fds)
           | _ \<Rightarrow> (AlreadyRecorded, existing # fds)
      else let (outcome, fds') = merge distributor fds in (outcome, existing # fds'))"

fun is_conflict :: "record_outcome \<Rightarrow> bool" where
  "is_conflict (IdentityConflict _ _) = True"
| "is_conflict _ = False"

definition registry_record ::
  "'txt record_codec \<Rightarrow> bool \<Rightarrow> bool \<Rightarrow> save_fault option \<Rightarrow> funded_distributor \<Rightarrow> 'txt disk \<Rightarrow> record_outcome \<times> 'txt disk"
where
  "registry_record C has_dir copy_ok fault distributor d =
     (if \<not> has_dir then (RecordNotConfigured NoStateDirectory, d)
      else
        let proceed = (\<lambda>fds.
              let (outcome, fds') = merge distributor fds in
              if is_conflict outcome then (outcome, d)
              else if outcome = AlreadyRecorded then (outcome, d)
              else case save C fault fds' d of
                     (None, d') \<Rightarrow> (outcome, d')
                   | (Some e, d') \<Rightarrow> (RecordIoFailed e, d'))
        in case load C d of
             Inr (Some rcd) \<Rightarrow>
               (case into_distributors C (pr_distributors rcd) of
                  Some fds \<Rightarrow> proceed fds
                | None \<Rightarrow> refuse_corrupt copy_ok d)
           | Inr None \<Rightarrow> proceed []
           | Inl Corrupt \<Rightarrow> refuse_corrupt copy_ok d
           | Inl (Io e) \<Rightarrow> (RecordIoFailed e, d))"

section \<open>Facts about the record\<close>

definition fd_ok :: "funded_distributor \<Rightarrow> bool" where
  "fd_ok d \<longleftrightarrow> length (fd_launcher_id d) = 32 \<and> (\<forall>st. fd_store_id d = Some st \<longrightarrow> length st = 32)"

lemma into_from_distributors:
  assumes "codec_laws C" "list_all fd_ok fds"
  shows "into_distributors C (pr_distributors (from_distributors C fds)) = Some fds"
  using assms by (induction fds) (auto simp: from_distributors_def into_distributor_def parse_id_def
      codec_laws_def hex_laws_def fd_ok_def split: option.splits)

lemma load_saved:
  assumes "codec_laws C"
  shows "record_file d = FileText (rc_render C (from_distributors C fds)) \<Longrightarrow>
    load C d = Inr (Some (from_distributors C fds))"
  using assms by (simp add: load_def codec_laws_def from_distributors_def)

text \<open>The set as a map from launcher ids to what is known of the store, and what recording does to it.\<close>

definition funded_map :: "funded_distributor list \<Rightarrow> (bytes32 \<rightharpoonup> bytes32 option)" where
  "funded_map fds = map_of (map (\<lambda>d. (fd_launcher_id d, fd_store_id d)) fds)"

definition spec_record :: "funded_distributor \<Rightarrow> (bytes32 \<rightharpoonup> bytes32 option) \<Rightarrow> (bytes32 \<rightharpoonup> bytes32 option)" where
  "spec_record d m =
     (case m (fd_launcher_id d) of
        Some (Some _) \<Rightarrow> m
      | _ \<Rightarrow> m(fd_launcher_id d \<mapsto> fd_store_id d))"

definition set_ok :: "funded_distributor list \<Rightarrow> bool" where
  "set_ok fds \<longleftrightarrow> list_all fd_ok fds \<and> distinct (map fd_launcher_id fds)"

lemma merge_facts:
  assumes "merge d fds = (outcome, fds')" "fd_ok d" "set_ok fds"
  shows "set_ok fds' \<and> fds' \<noteq> [] \<and> funded_map fds' = spec_record d (funded_map fds)
    \<and> fd_launcher_id ` set fds' = insert (fd_launcher_id d) (fd_launcher_id ` set fds)
    \<and> (is_conflict outcome \<or> outcome = AlreadyRecorded \<longrightarrow> fds' = fds)"
  using assms
proof (induction fds arbitrary: outcome fds')
  case Nil
  then show ?case by (auto simp: set_ok_def funded_map_def spec_record_def)
next
  case (Cons e fds)
  show ?case
  proof (cases "fd_launcher_id e = fd_launcher_id d")
    case True
    with Cons.prems show ?thesis
      by (auto simp: set_ok_def funded_map_def spec_record_def fd_ok_def split: option.splits if_splits)
  next
    case False
    then obtain rest where rest: "merge d fds = (outcome, rest)" "fds' = e # rest"
      using Cons.prems(1) by (auto split: prod.splits)
    have ok: "set_ok fds" "fd_ok e" "fd_launcher_id e \<notin> fd_launcher_id ` set fds"
      using Cons.prems(3) by (auto simp: set_ok_def)
    note IH = Cons.IH [OF rest(1) Cons.prems(2) ok(1)]
    have cons: "funded_map (e # xs) = (funded_map xs)(fd_launcher_id e \<mapsto> fd_store_id e)" for xs
      by (simp add: funded_map_def)
    have "spec_record d ((funded_map fds)(fd_launcher_id e \<mapsto> fd_store_id e))
        = (spec_record d (funded_map fds))(fd_launcher_id e \<mapsto> fd_store_id e)"
      using False by (auto simp: spec_record_def split: option.splits)
    then have "funded_map fds' = spec_record d (funded_map (e # fds))"
      using IH by (simp add: cons rest(2))
    with IH ok False rest(2) show ?thesis by (auto simp: set_ok_def)
  qed
qed

section \<open>Runs\<close>

datatype registry_op = ReadOp bool | RecordOp bool "save_fault option" funded_distributor

fun registry_step :: "'txt record_codec \<Rightarrow> registry_op \<Rightarrow> 'txt disk \<Rightarrow> 'txt disk" where
  "registry_step C (ReadOp copy_ok) d = snd (registry_read C True copy_ok d)"
| "registry_step C (RecordOp copy_ok fault x) d = snd (registry_record C True copy_ok fault x d)"

text \<open>What a sequence of operations records: the recordings whose save did not fail, in order.\<close>

fun spec_step :: "registry_op \<Rightarrow> (bytes32 \<rightharpoonup> bytes32 option) \<Rightarrow> (bytes32 \<rightharpoonup> bytes32 option)" where
  "spec_step (RecordOp copy_ok None x) m = spec_record x m"
| "spec_step _ m = m"

text \<open>The disk holds the set, or nothing has been recorded.\<close>

definition disk_holds :: "'txt record_codec \<Rightarrow> 'txt disk \<Rightarrow> (bytes32 \<rightharpoonup> bytes32 option) \<Rightarrow> bool" where
  "disk_holds C d m \<longleftrightarrow>
     record_file d = FileNotFound \<and> m = Map.empty
     \<or> (\<exists>fds. record_file d = FileText (rc_render C (from_distributors C fds)) \<and> set_ok fds \<and> fds \<noteq> []
          \<and> m = funded_map fds)"

lemma registry_read_holds:
  assumes "codec_laws C" "disk_holds C d m"
  shows "snd (registry_read C True copy_ok d) = d
    \<and> (case determined (fst (registry_read C True copy_ok d)) of
         None \<Rightarrow> m = Map.empty
       | Some fds \<Rightarrow> fds \<noteq> [] \<and> set_ok fds \<and> m = funded_map fds)"
proof (cases "record_file d = FileNotFound")
  case True
  then show ?thesis
    using assms(2) by (auto simp: registry_read_def load_def determined_def disk_holds_def)
next
  case False
  then obtain fds where fds: "record_file d = FileText (rc_render C (from_distributors C fds))" "set_ok fds"
    "fds \<noteq> []" "m = funded_map fds"
    using assms(2) by (auto simp: disk_holds_def)
  then show ?thesis
    using into_from_distributors [OF assms(1), of fds]
    by (simp add: registry_read_def load_saved [OF assms(1) fds(1)] determined_def set_ok_def)
qed

lemma registry_record_holds:
  assumes "codec_laws C" "disk_holds C d m" "fd_ok x"
  shows "disk_holds C (snd (registry_record C True copy_ok fault x d))
    (if fault = None then spec_record x m else m)"
proof -
  obtain fds where fds: "set_ok fds" "m = funded_map fds"
    "record_file d = FileNotFound \<and> fds = [] \<or>
      record_file d = FileText (rc_render C (from_distributors C fds)) \<and> fds \<noteq> []"
    using assms(2) by (auto simp: disk_holds_def set_ok_def funded_map_def)
  obtain outcome fds' where mg: "merge x fds = (outcome, fds')" by fastforce
  note facts = merge_facts [OF mg assms(3) fds(1)]
  let ?out = "if is_conflict outcome then (outcome, d) else if outcome = AlreadyRecorded then (outcome, d)
      else case save C fault fds' d of (None, d') \<Rightarrow> (outcome, d') | (Some e, d') \<Rightarrow> (RecordIoFailed e, d')"
  have run: "registry_record C True copy_ok fault x d = ?out"
    using fds(3)
  proof
    assume "record_file d = FileNotFound \<and> fds = []"
    with mg show ?thesis by (auto simp: registry_record_def load_def Let_def)
  next
    assume "record_file d = FileText (rc_render C (from_distributors C fds)) \<and> fds \<noteq> []"
    with mg show ?thesis
      using into_from_distributors [OF assms(1), of fds] fds(1)
      by (simp add: registry_record_def load_saved [OF assms(1)] Let_def set_ok_def)
  qed
  show ?thesis
  proof (cases "is_conflict outcome \<or> outcome = AlreadyRecorded")
    case True
    with facts have "spec_record x m = m" using fds(2) by metis
    with True run assms(2) show ?thesis by auto
  next
    case False
    then show ?thesis
      using facts fds assms(2) unfolding run
      by (auto simp: save_def disk_holds_def split: option.splits save_fault.splits)
  qed
qed

lemma registry_run_holds:
  "codec_laws C \<Longrightarrow> disk_holds C d m \<Longrightarrow> \<forall>c f x. RecordOp c f x \<in> set ops \<longrightarrow> fd_ok x \<Longrightarrow>
     disk_holds C (fold (registry_step C) ops d) (fold spec_step ops m)"
proof (induction ops arbitrary: d m)
  case (Cons op ops)
  have "disk_holds C (registry_step C op d) (spec_step op m)"
  proof (cases op)
    case (ReadOp c)
    then show ?thesis using registry_read_holds [OF Cons.prems(1,2)] Cons.prems(2) by simp
  next
    case (RecordOp c f x)
    then have "fd_ok x" using Cons.prems(3) by auto
    from registry_record_holds [OF Cons.prems(1,2) this, of c f] RecordOp show ?thesis
      by (cases f) simp_all
  qed
  with Cons show ?case by simp
qed simp

section \<open>What the registry guarantees\<close>

text \<open>
  C27: the registry is a map that only grows. From an empty directory, through any sequence of reads and
  recordings and whichever saves fail, what a read determines is exactly the map that the recordings
  whose save went through build up: a new launcher id is added, a missing store id is filled in, and a
  store id once recorded never changes. A read determines nothing only when nothing was recorded, and
  is never the empty list.
\<close>

theorem registry_is_a_growing_map:
  assumes "codec_laws C" "record_file d = FileNotFound"
    and "\<forall>c f x. RecordOp c f x \<in> set ops \<longrightarrow> fd_ok x"
  shows "case determined (fst (registry_read C True copy_ok (fold (registry_step C) ops d))) of
      None \<Rightarrow> fold spec_step ops Map.empty = Map.empty
    | Some fds \<Rightarrow> fds \<noteq> [] \<and> distinct (map fd_launcher_id fds)
        \<and> funded_map fds = fold spec_step ops Map.empty"
proof -
  have "disk_holds C d Map.empty" using assms(2) by (simp add: disk_holds_def)
  from registry_run_holds [OF assms(1) this assms(3)]
  have "disk_holds C (fold (registry_step C) ops d) (fold spec_step ops Map.empty)" .
  from registry_read_holds [OF assms(1) this, of copy_ok] show ?thesis
    by (auto simp: set_ok_def split: option.splits)
qed

definition sample_codec :: "persisted_record record_codec" where
  "sample_codec = \<lparr>rc_parse = Some, rc_render = id, rc_hex = base16\<rparr>"

lemma sample_codec_laws: "codec_laws sample_codec"
  by (simp add: codec_laws_def sample_codec_def base16_laws)

theorem registry_is_a_growing_map_witness:
  "\<exists>fds. determined (fst (registry_read sample_codec True True
       (fold (registry_step sample_codec)
          [RecordOp True None \<lparr>fd_launcher_id = replicate 32 CHR ''a'', fd_store_id = None\<rparr>, ReadOp True]
          \<lparr>dir_exists = False, record_file = FileNotFound, quarantine_file = None\<rparr>))) = Some fds
     \<and> funded_map fds = [replicate 32 CHR ''a'' \<mapsto> None]"
proof -
  let ?x = "\<lparr>fd_launcher_id = replicate 32 CHR ''a'', fd_store_id = None\<rparr>"
  let ?ops = "[RecordOp True None ?x, ReadOp True]"
  let ?d = "\<lparr>dir_exists = False, record_file = FileNotFound, quarantine_file = None\<rparr>"
  have ops: "\<forall>c f x. RecordOp c f x \<in> set ?ops \<longrightarrow> fd_ok x" by (simp add: fd_ok_def)
  have m: "fold spec_step ?ops Map.empty = [replicate 32 CHR ''a'' \<mapsto> None]"
    by (simp add: spec_record_def)
  show ?thesis
    using registry_is_a_growing_map [OF sample_codec_laws _ ops, of ?d True] unfolding m
    by (auto split: option.splits)
qed

text \<open>A record file that says something this build cannot trust.\<close>

definition untrusted :: "'txt record_codec \<Rightarrow> 'txt file_read \<Rightarrow> bool" where
  "untrusted C f \<longleftrightarrow>
     (case f of
        FileNotFound \<Rightarrow> False
      | FileError _ \<Rightarrow> True
      | FileText txt \<Rightarrow>
          (case rc_parse C txt of
             None \<Rightarrow> True
           | Some rcd \<Rightarrow> pr_version rcd \<noteq> RECORD_FORMAT_VERSION
               \<or> into_distributors C (pr_distributors rcd) = None))"

lemma untrusted_step:
  assumes "untrusted C (record_file d)"
  shows "record_file (registry_step C op d) = record_file d"
    "registry_read C True copy_ok d = (case record_file d of
       FileText txt \<Rightarrow> (PersistedStateCorrupt copy_ok, if copy_ok then d\<lparr>quarantine_file := Some txt\<rparr> else d)
     | FileError e \<Rightarrow> (IoFailed e, d))"
    "fst (registry_record C True copy_ok fault x d) = (case record_file d of
       FileText _ \<Rightarrow> RecordStateCorrupt copy_ok | FileError e \<Rightarrow> RecordIoFailed e)"
  using assms
  by (cases op; auto simp: untrusted_def registry_read_def registry_record_def load_def determined_def
      report_corrupt_def refuse_corrupt_def quarantine_def
      split: file_read.splits option.splits if_splits load_failure.splits)+

lemma untrusted_run:
  "untrusted C (record_file d) \<Longrightarrow> record_file (fold (registry_step C) ops d) = record_file d"
  by (induction ops arbitrary: d) (simp_all add: untrusted_step(1))

text \<open>
  C28: a record that cannot be trusted is never lost and never read as an empty set. While the record
  file is unreadable, unparseable, of another version or names a malformed id, no sequence of reads
  and recordings changes it. After any such sequence a read of a file that could be read says corrupt,
  says whether a copy was set aside and, if so, has set aside exactly its text; a read of one that
  could not says so, with its error; and every recording is refused with the same answer. Neither is
  ever reported as not configured or as funding nothing.
\<close>

theorem untrusted_record_kept:
  assumes "untrusted C (record_file d)" "d' = fold (registry_step C) ops d"
  shows "record_file d' = record_file d
    \<and> (case record_file d of
         FileText txt \<Rightarrow>
           registry_read C True copy_ok d'
             = (PersistedStateCorrupt copy_ok, if copy_ok then d'\<lparr>quarantine_file := Some txt\<rparr> else d')
           \<and> fst (registry_record C True copy_ok fault x d') = RecordStateCorrupt copy_ok
       | FileError e \<Rightarrow>
           registry_read C True copy_ok d' = (IoFailed e, d')
           \<and> fst (registry_record C True copy_ok fault x d') = RecordIoFailed e
       | FileNotFound \<Rightarrow> False)"
proof -
  have "record_file d' = record_file d" using untrusted_run assms by blast
  with untrusted_step(2,3) [of C d'] assms(1) show ?thesis
    by (auto simp: untrusted_def split: file_read.splits)
qed

theorem untrusted_record_kept_witness:
  "let d = \<lparr>dir_exists = True, record_file = FileText \<lparr>pr_version = 2, pr_distributors = []\<rparr>,
         quarantine_file = None\<rparr>;
       d' = fold (registry_step sample_codec)
         [RecordOp True None \<lparr>fd_launcher_id = ''x'', fd_store_id = None\<rparr>, ReadOp True] d
   in record_file d' = record_file d \<and> fst (registry_read sample_codec True True d') = PersistedStateCorrupt True"
proof -
  define d where "d = (\<lparr>dir_exists = True, record_file = FileText \<lparr>pr_version = 2, pr_distributors = []\<rparr>,
         quarantine_file = None\<rparr> :: persisted_record disk)"
  define d' where "d' = fold (registry_step sample_codec)
         [RecordOp True None \<lparr>fd_launcher_id = ''x'', fd_store_id = None\<rparr>, ReadOp True] d"
  have "untrusted sample_codec (record_file d)"
    by (simp add: d_def untrusted_def sample_codec_def RECORD_FORMAT_VERSION_def)
  from untrusted_record_kept [OF this d'_def, where copy_ok = True]
  have "record_file d' = record_file d \<and> fst (registry_read sample_codec True True d') = PersistedStateCorrupt True"
    by (simp add: d_def)
  then show ?thesis unfolding Let_def d'_def d_def .
qed

end
