(* ===== verification/Mirror_Plan.thy ===== *)
theory Mirror_Plan
  imports Prelude
begin

text \<open>
  The reconcile plan of the mirror engine (\<open>mirror/plan.rs\<close>): what the chain must be made to look
  like, given what is on disk, and how far down the creates the wallet can pay.

  \<open>Bond\<close>, \<open>HeldMirror\<close> and \<open>ReclaimReason\<close> derive \<open>Ord\<close> from their fields in order; the instances
  below are those orders, so that \<open>sort\<close> is the order the plan is returned in. A \<open>BTreeSet\<close> that is
  only asked for membership is the list it was filled from. \<open>apply_safety_margin\<close> belongs to the
  external crate \<open>dig-mirror-collateral\<close> and is a parameter.
\<close>

section \<open>Bonds and coins\<close>

record bond =
  store_id :: string
  root_hash :: string

record held_mirror =
  coin_id :: string
  hm_store_id :: string
  hm_root :: string
  hm_epoch :: int
  collateral_dig_base_units :: nat

definition bond_of :: "held_mirror \<Rightarrow> bond" where
  "bond_of c = \<lparr>store_id = hm_store_id c, root_hash = hm_root c\<rparr>"

datatype trigger = Daily | Manual

datatype reclaim_reason = NoLongerHeld | EpochEnded | UrlStale trigger

text \<open>The fields an order compares, in the order it compares them.\<close>

definition bond_key :: "'a bond_scheme \<Rightarrow> string \<times> string \<times> 'a" where
  "bond_key b = (store_id b, root_hash b, bond.more b)"

definition held_key :: "'a held_mirror_scheme \<Rightarrow> string \<times> string \<times> string \<times> int \<times> nat \<times> 'a" where
  "held_key c = (coin_id c, hm_store_id c, hm_root c, hm_epoch c, collateral_dig_base_units c,
     held_mirror.more c)"

lemma bond_key_inj: "bond_key a = bond_key b \<Longrightarrow> a = b"
  by (simp add: bond_key_def)

lemma held_key_inj: "held_key a = held_key b \<Longrightarrow> a = b"
  by (simp add: held_key_def)

instantiation bond_ext :: (linorder) linorder
begin

definition less_eq_bond_ext :: "'a bond_scheme \<Rightarrow> 'a bond_scheme \<Rightarrow> bool" where
  "less_eq_bond_ext a b \<longleftrightarrow> bond_key a \<le> bond_key b"

definition less_bond_ext :: "'a bond_scheme \<Rightarrow> 'a bond_scheme \<Rightarrow> bool" where
  "less_bond_ext a b \<longleftrightarrow> bond_key a < bond_key b"

instance
  by standard
    (auto simp: less_eq_bond_ext_def less_bond_ext_def simp del: less_eq_prod_simp less_prod_simp
      intro: bond_key_inj)

end

instantiation held_mirror_ext :: (linorder) linorder
begin

definition less_eq_held_mirror_ext :: "'a held_mirror_scheme \<Rightarrow> 'a held_mirror_scheme \<Rightarrow> bool" where
  "less_eq_held_mirror_ext a b \<longleftrightarrow> held_key a \<le> held_key b"

definition less_held_mirror_ext :: "'a held_mirror_scheme \<Rightarrow> 'a held_mirror_scheme \<Rightarrow> bool" where
  "less_held_mirror_ext a b \<longleftrightarrow> held_key a < held_key b"

instance
  by standard
    (auto simp: less_eq_held_mirror_ext_def less_held_mirror_ext_def
      simp del: less_eq_prod_simp less_prod_simp intro: held_key_inj)

end

fun reason_rank :: "reclaim_reason \<Rightarrow> nat" where
  "reason_rank NoLongerHeld = 0"
| "reason_rank EpochEnded = 1"
| "reason_rank (UrlStale Daily) = 2"
| "reason_rank (UrlStale Manual) = 3"

lemma reason_rank_inj: "reason_rank a = reason_rank b \<Longrightarrow> a = b"
  by (cases a rule: reason_rank.cases; cases b rule: reason_rank.cases) simp_all

instantiation reclaim_reason :: linorder
begin

definition less_eq_reclaim_reason :: "reclaim_reason \<Rightarrow> reclaim_reason \<Rightarrow> bool" where
  "less_eq_reclaim_reason a b \<longleftrightarrow> reason_rank a \<le> reason_rank b"

definition less_reclaim_reason :: "reclaim_reason \<Rightarrow> reclaim_reason \<Rightarrow> bool" where
  "less_reclaim_reason a b \<longleftrightarrow> reason_rank a < reason_rank b"

instance
  by standard (auto simp: less_eq_reclaim_reason_def less_reclaim_reason_def intro: reason_rank_inj)

end

section \<open>The plan\<close>

record mirror_plan =
  mp_reclaim :: "(held_mirror \<times> reclaim_reason) list"
  mp_create :: "bond list"

definition mp_is_empty :: "mirror_plan \<Rightarrow> bool" where
  "mp_is_empty p \<longleftrightarrow> mp_reclaim p = [] \<and> mp_create p = []"

text \<open>The loop over the coins: what is reclaimed and which bonds are covered.\<close>

fun plan_scan ::
  "bond list \<Rightarrow> int \<Rightarrow> held_mirror list \<Rightarrow> (held_mirror \<times> reclaim_reason) list \<Rightarrow> bond list
     \<Rightarrow> (held_mirror \<times> reclaim_reason) list \<times> bond list"
where
  "plan_scan held current_epoch [] reclaim covered = (reclaim, covered)"
| "plan_scan held current_epoch (c # coins) reclaim covered =
     (if hm_epoch c < current_epoch
      then plan_scan held current_epoch coins (reclaim @ [(c, EpochEnded)]) covered
      else if hm_epoch c = current_epoch
      then if bond_of c \<in> set held
           then plan_scan held current_epoch coins reclaim (bond_of c # covered)
           else plan_scan held current_epoch coins (reclaim @ [(c, NoLongerHeld)]) covered
      else plan_scan held current_epoch coins reclaim covered)"

definition plan :: "bond list \<Rightarrow> held_mirror list \<Rightarrow> int \<Rightarrow> bond list \<Rightarrow> mirror_plan" where
  "plan held on_chain current_epoch in_flight =
     (let (reclaim, covered) = plan_scan held current_epoch on_chain [] [];
          create = filter (\<lambda>b. b \<notin> set covered \<and> b \<notin> set in_flight) held
      in \<lparr>mp_reclaim = sort reclaim, mp_create = remdups_adj (sort create)\<rparr>)"

section \<open>Funds\<close>

record funding_split =
  fs_affordable :: "bond list"
  fs_short :: "bond list"
  fs_shortfall_dig_base_units :: nat

definition is_funded :: "funding_split \<Rightarrow> bool" where
  "is_funded s \<longleftrightarrow> fs_short s = []"

text \<open>\<open>usize\<close> is 64 bits wide, so the cast of the count is exact.\<close>

definition split_by_funds :: "bond list \<Rightarrow> nat \<Rightarrow> nat \<Rightarrow> funding_split" where
  "split_by_funds create balance per_coin =
     (let affordable_count = (if per_coin = 0 then 0 else min (balance div per_coin) (length create));
          short = drop affordable_count create
      in \<lparr>fs_affordable = take affordable_count create, fs_short = short,
          fs_shortfall_dig_base_units = u64_sat_mul (length short) per_coin\<rparr>)"

text \<open>The published result of the requirement machinery (\<open>dig-node-control-interface\<close>).\<close>

datatype unknown_reason_code =
  NotCensused | BehindFinalityDepth | NoChainSource | RecordUnreadable | BalanceUnreadable

datatype collateral_requirement =
  RequirementKnown nat
| RequirementUnknown unknown_reason_code

type_synonym safety_margin = "nat \<Rightarrow> nat \<Rightarrow> nat"

fun per_coin_dig_base_units :: "safety_margin \<Rightarrow> collateral_requirement \<Rightarrow> nat \<Rightarrow> nat option" where
  "per_coin_dig_base_units margin (RequirementKnown required) margin_bp = Some (margin required margin_bp)"
| "per_coin_dig_base_units margin (RequirementUnknown _) margin_bp = None"

section \<open>What the plan holds\<close>

text \<open>The table of the doc comment: what happens to one coin.\<close>

definition reason_for :: "bond list \<Rightarrow> int \<Rightarrow> held_mirror \<Rightarrow> reclaim_reason option" where
  "reason_for held ep c =
     (if hm_epoch c < ep then Some EpochEnded
      else if hm_epoch c = ep \<and> bond_of c \<notin> set held then Some NoLongerHeld
      else None)"

definition covers :: "int \<Rightarrow> held_mirror \<Rightarrow> bond \<Rightarrow> bool" where
  "covers ep c b \<longleftrightarrow> hm_epoch c = ep \<and> bond_of c = b"

lemma plan_scan_reclaim:
  "fst (plan_scan held ep cs reclaim covered)
     = reclaim @ List.map_filter (\<lambda>c. map_option (Pair c) (reason_for held ep c)) cs"
  by (induction cs arbitrary: reclaim covered)
    (auto simp: map_filter_simps reason_for_def)

lemma plan_scan_covered:
  "set (snd (plan_scan held ep cs reclaim covered))
     = set covered \<union> {b \<in> set held. \<exists>c \<in> set cs. covers ep c b}"
  by (induction cs arbitrary: reclaim covered) (auto simp: covers_def)

lemma mset_plan_reclaim:
  "mset (mp_reclaim (plan held on_chain ep in_flight))
     = mset (List.map_filter (\<lambda>c. map_option (Pair c) (reason_for held ep c)) on_chain)"
  by (simp add: plan_def split_beta plan_scan_reclaim)

lemma plan_reclaim_iff:
  "(c, r) \<in> set (mp_reclaim (plan held on_chain ep in_flight))
     \<longleftrightarrow> c \<in> set on_chain \<and> reason_for held ep c = Some r"
  unfolding set_mset_mset [symmetric] mset_plan_reclaim
  by (auto simp: set_map_filter)

lemma plan_reclaimed_iff:
  "c \<in> fst ` set (mp_reclaim (plan held on_chain ep in_flight))
     \<longleftrightarrow> c \<in> set on_chain \<and> reason_for held ep c \<noteq> None"
proof
  assume "c \<in> fst ` set (mp_reclaim (plan held on_chain ep in_flight))"
  then obtain r where "(c, r) \<in> set (mp_reclaim (plan held on_chain ep in_flight))" by auto
  then show "c \<in> set on_chain \<and> reason_for held ep c \<noteq> None" by (simp add: plan_reclaim_iff)
next
  assume "c \<in> set on_chain \<and> reason_for held ep c \<noteq> None"
  then obtain r where "(c, r) \<in> set (mp_reclaim (plan held on_chain ep in_flight))"
    by (auto simp: plan_reclaim_iff)
  then show "c \<in> fst ` set (mp_reclaim (plan held on_chain ep in_flight))" by (rule rev_image_eqI) simp
qed

lemma plan_create_iff:
  "b \<in> set (mp_create (plan held on_chain ep in_flight))
     \<longleftrightarrow> b \<in> set held \<and> b \<notin> set in_flight \<and> (\<forall>c \<in> set on_chain. \<not> covers ep c b)"
  by (auto simp: plan_def split_beta plan_scan_covered)

lemma distinct_remdups_adj_sorted: "sorted xs \<Longrightarrow> distinct (remdups_adj xs)"
  by (induction xs rule: remdups_adj.induct) auto

lemma plan_create_order:
  "sorted (mp_create (plan held on_chain ep in_flight))"
  "distinct (mp_create (plan held on_chain ep in_flight))"
  by (simp_all add: plan_def split_beta distinct_remdups_adj_sorted)

lemmas plan_simps = plan_reclaim_iff plan_create_iff plan_create_order

section \<open>What the wallet can pay\<close>

lemma split_by_funds_parts:
  "fs_affordable (split_by_funds create balance per_coin) @ fs_short (split_by_funds create balance per_coin) = create"
  by (simp add: split_by_funds_def Let_def)

lemma split_by_funds_shortfall:
  "fs_shortfall_dig_base_units (split_by_funds create balance per_coin)
     = u64_sat_mul (length (fs_short (split_by_funds create balance per_coin))) per_coin"
  by (simp add: split_by_funds_def Let_def)

lemma split_by_funds_cost:
  "length (fs_affordable (split_by_funds create balance per_coin)) * per_coin \<le> balance"
proof -
  let ?n = "if per_coin = 0 then 0 else min (balance div per_coin) (length create)"
  have "?n * per_coin \<le> balance div per_coin * per_coin" by (auto intro: mult_le_mono1)
  also have "\<dots> \<le> balance" by simp
  finally show ?thesis by (simp add: split_by_funds_def Let_def min.absorb2 mult.commute)
qed

lemma split_by_funds_maximal:
  assumes "fs_short (split_by_funds create balance per_coin) \<noteq> []" "0 < per_coin"
  shows "balance < (length (fs_affordable (split_by_funds create balance per_coin)) + 1) * per_coin"
proof -
  from assms have lt: "balance div per_coin < length create"
    by (auto simp: split_by_funds_def Let_def split: if_splits)
  have "balance < (balance div per_coin + 1) * per_coin"
    using assms(2) by (simp add: dividend_less_div_times)
  with lt assms(2) show ?thesis by (simp add: split_by_funds_def Let_def min_def)
qed

section \<open>Properties\<close>

text \<open>
  The chain once the spends of a plan have landed: the reclaimed coins are gone and every create, the
  ones in flight included, is a coin. \<open>mint\<close> is the coin the chain makes for a bond.
\<close>

definition landed ::
  "(bond \<Rightarrow> held_mirror) \<Rightarrow> mirror_plan \<Rightarrow> bond list \<Rightarrow> held_mirror list \<Rightarrow> held_mirror list"
where
  "landed mint p in_flight on_chain =
     filter (\<lambda>c. c \<notin> fst ` set (mp_reclaim p)) on_chain @ map mint (mp_create p) @ map mint in_flight"

text \<open>
  one plan is enough. Whatever the disk and the chain look like, once the spends of the plan and the
  creates in flight have landed, the next plan is empty: every held bond has a coin of the current
  epoch, no coin of an ended epoch and no current coin without its capsule is left, no coin that was
  wanted or that bonds a future epoch was touched, and no bond that had a coin or a create in flight
  was paid for again.
\<close>
theorem plan_converges:
  fixes on_chain held :: "_ list"
  assumes "\<And>b. bond_of (mint b) = b \<and> hm_epoch (mint b) = ep" "set in_flight \<subseteq> set held"
  defines "p \<equiv> plan held on_chain ep in_flight"
  defines "after \<equiv> landed mint p in_flight on_chain"
  shows "mp_is_empty (plan held after ep [])
    \<and> (\<forall>b \<in> set held. \<exists>c \<in> set after. covers ep c b)
    \<and> (\<forall>c \<in> set on_chain. c \<notin> set after \<longrightarrow> hm_epoch c < ep \<or> hm_epoch c = ep \<and> bond_of c \<notin> set held)
    \<and> (\<forall>c \<in> set after. ep \<le> hm_epoch c \<and> (hm_epoch c = ep \<longrightarrow> bond_of c \<in> set held))
    \<and> distinct (mp_create p) \<and> set (mp_create p) \<subseteq> set held - set in_flight - bond_of ` {c \<in> set on_chain. hm_epoch c = ep}"
proof -
  have kept: "c \<in> set after \<longleftrightarrow>
      c \<in> set on_chain \<and> reason_for held ep c = None \<or> c \<in> mint ` (set (mp_create p) \<union> set in_flight)" for c
    unfolding after_def landed_def p_def set_append set_filter set_map by (auto simp: plan_reclaimed_iff)
  have new: "covers ep (mint b) b" "reason_for held ep (mint b) = None \<longleftrightarrow> b \<in> set held" for b
    by (simp_all add: covers_def reason_for_def assms(1))
  have cov: "\<exists>c \<in> set after. covers ep c b" if b: "b \<in> set held" for b
  proof (cases "b \<in> set (mp_create p) \<union> set in_flight")
    case True
    then have "mint b \<in> set after" by (auto simp: kept)
    with new(1) show ?thesis by blast
  next
    case False
    with b obtain c where "c \<in> set on_chain" "covers ep c b" by (auto simp: p_def plan_create_iff)
    moreover from this b have "reason_for held ep c = None" by (auto simp: reason_for_def covers_def)
    ultimately show ?thesis by (auto simp: kept)
  qed
  have none: "reason_for held ep c = None" if "c \<in> set after" for c
    using that assms(2) by (auto simp: kept new(2)) (auto simp: p_def plan_create_iff)
  have "mp_reclaim (plan held after ep []) = []"
    using none plan_reclaim_iff [of _ _ held after ep "[]"]
    by (metis list.set_intros(1) neq_Nil_conv option.distinct(1) surj_pair)
  moreover have "mp_create (plan held after ep []) = []"
    using cov plan_create_iff [of _ held after ep "[]"] by (metis list.set_intros(1) neq_Nil_conv)
  moreover have "ep \<le> hm_epoch c \<and> (hm_epoch c = ep \<longrightarrow> bond_of c \<in> set held)" if "c \<in> set after" for c
    using none [OF that] by (auto simp: reason_for_def split: if_splits)
  moreover have "hm_epoch c < ep \<or> hm_epoch c = ep \<and> bond_of c \<notin> set held"
    if "c \<in> set on_chain" "c \<notin> set after" for c
    using that by (auto simp: kept reason_for_def split: if_splits)
  ultimately show ?thesis
    using cov by (auto simp: mp_is_empty_def p_def plan_simps covers_def)
qed

definition sample_mint :: "bond \<Rightarrow> held_mirror" where
  "sample_mint b = \<lparr>coin_id = ''n'', hm_store_id = store_id b, hm_root = root_hash b, hm_epoch = 7,
     collateral_dig_base_units = 20\<rparr>"

theorem plan_converges_witness:
  "mp_is_empty (plan [\<lparr>store_id = ''s'', root_hash = ''r''\<rparr>]
     (landed sample_mint (plan [\<lparr>store_id = ''s'', root_hash = ''r''\<rparr>]
        [\<lparr>coin_id = ''o'', hm_store_id = ''s'', hm_root = ''r'', hm_epoch = 6, collateral_dig_base_units = 10\<rparr>] 7 [])
        [] [\<lparr>coin_id = ''o'', hm_store_id = ''s'', hm_root = ''r'', hm_epoch = 6, collateral_dig_base_units = 10\<rparr>])
     7 [])"
  using plan_converges [where mint = sample_mint and ep = 7 and in_flight = "[]"]
  by (simp add: sample_mint_def bond_of_def)

end
