(* ===== verification/Mirror_Advertise.thy ===== *)
theory Mirror_Advertise
  imports Address_Book
begin

text \<open>
  Where the node says its stores can be fetched from (\<open>mirror/advertise.rs\<close>): the operator's list if
  there is one, otherwise the node's own public address once independent sources agree on it.

  An \<open>Ipv4Addr\<close> is a natural below \<open>2 ^ 32\<close> and an \<open>Ipv6Addr\<close> one below \<open>2 ^ 128\<close>, both big-endian,
  as in \<open>socket_addr\<close>. Two external crates are parameters: \<open>url\<close>, whose parser yields the host of an
  absolute URL, and \<open>dig-stun\<close>, whose \<open>establish\<close> turns the readings into one verdict per family.
\<close>

section \<open>Addresses of the standard library\<close>

definition octet :: "nat \<Rightarrow> nat \<Rightarrow> nat" where
  "octet ip i = ip div 256 ^ (3 - i) mod 256"

definition segment :: "nat \<Rightarrow> nat \<Rightarrow> nat" where
  "segment ip i = ip div 65536 ^ (7 - i) mod 65536"

definition v4_is_private :: "nat \<Rightarrow> bool" where
  "v4_is_private ip \<longleftrightarrow> octet ip 0 = 10
     \<or> octet ip 0 = 172 \<and> 16 \<le> octet ip 1 \<and> octet ip 1 \<le> 31
     \<or> octet ip 0 = 192 \<and> octet ip 1 = 168"

definition v4_is_link_local :: "nat \<Rightarrow> bool" where
  "v4_is_link_local ip \<longleftrightarrow> octet ip 0 = 169 \<and> octet ip 1 = 254"

definition v4_is_loopback :: "nat \<Rightarrow> bool" where
  "v4_is_loopback ip \<longleftrightarrow> octet ip 0 = 127"

definition v4_is_multicast :: "nat \<Rightarrow> bool" where
  "v4_is_multicast ip \<longleftrightarrow> 224 \<le> octet ip 0 \<and> octet ip 0 \<le> 239"

definition v4_is_documentation :: "nat \<Rightarrow> bool" where
  "v4_is_documentation ip \<longleftrightarrow>
     octet ip 0 = 192 \<and> octet ip 1 = 0 \<and> octet ip 2 = 2
     \<or> octet ip 0 = 198 \<and> octet ip 1 = 51 \<and> octet ip 2 = 100
     \<or> octet ip 0 = 203 \<and> octet ip 1 = 0 \<and> octet ip 2 = 113"

definition v6_is_multicast :: "nat \<Rightarrow> bool" where
  "v6_is_multicast ip \<longleftrightarrow> segment ip 0 div 256 = 255"

text \<open>\<open>Ipv6Addr::to_ipv4\<close>: the IPv4-compatible and the IPv4-mapped forms.\<close>

definition v6_to_ipv4 :: "nat \<Rightarrow> nat option" where
  "v6_to_ipv4 ip =
     (let prefix = ip div 2 ^ 32 in if prefix = 0 \<or> prefix = 65535 then Some (ip mod 2 ^ 32) else None)"

text \<open>\<open>Display\<close> of numbers and addresses.\<close>

definition digit_char :: "nat \<Rightarrow> char" where
  "digit_char d = ''0123456789abcdef'' ! d"

function show_base :: "nat \<Rightarrow> nat \<Rightarrow> string" where
  "show_base b n = (if b \<le> 1 \<or> n < b then [digit_char n] else show_base b (n div b) @ [digit_char (n mod b)])"
  by pat_completeness auto
termination
  by (relation "measure snd") auto

declare show_base.simps [simp del]

definition show_ipv4 :: "nat \<Rightarrow> string" where
  "show_ipv4 ip =
     show_base 10 (octet ip 0) @ ''.'' @ show_base 10 (octet ip 1) @ ''.''
     @ show_base 10 (octet ip 2) @ ''.'' @ show_base 10 (octet ip 3)"

fun show_segments :: "nat list \<Rightarrow> string" where
  "show_segments [] = ''''"
| "show_segments [s] = show_base 16 s"
| "show_segments (s # ss) = show_base 16 s @ '':'' @ show_segments ss"

text \<open>The longest run of zero segments, the first one if there are several: start and length.\<close>

fun zero_run :: "nat list \<Rightarrow> nat \<Rightarrow> nat \<times> nat \<Rightarrow> nat \<times> nat \<Rightarrow> nat \<times> nat" where
  "zero_run [] i current longest = longest"
| "zero_run (s # ss) i (start, len) longest =
     (if s = 0
      then let start = (if len = 0 then i else start); len = len + 1
           in zero_run ss (i + 1) (start, len) (if snd longest < len then (start, len) else longest)
      else zero_run ss (i + 1) (0, 0) longest)"

definition show_ipv6 :: "nat \<Rightarrow> string" where
  "show_ipv6 ip =
     (if ip div 2 ^ 32 = 65535 then ''::ffff:'' @ show_ipv4 (ip mod 2 ^ 32)
      else let segs = map (segment ip) [0..<8]; (start, len) = zero_run segs 0 (0, 0) (0, 0)
           in if len > 1 then show_segments (take start segs) @ ''::'' @ show_segments (drop (start + len) segs)
              else show_segments segs)"

fun show_socket :: "socket_addr \<Rightarrow> string" where
  "show_socket (V4 ip port) = show_ipv4 ip @ '':'' @ show_base 10 port"
| "show_socket (V6 ip port flowinfo scope) =
     ''['' @ show_ipv6 ip @ (if scope = 0 then '''' else ''%'' @ show_base 10 scope) @ '']:'' @ show_base 10 port"

text \<open>\<open>Ipv4Addr::from_str\<close>: four decimal octets of at most three digits, without leading zeros.\<close>

fun split_on :: "(char \<Rightarrow> bool) \<Rightarrow> string \<Rightarrow> string list" where
  "split_on sep [] = [[]]"
| "split_on sep (c # cs) =
     (if sep c then [] # split_on sep cs
      else case split_on sep cs of w # ws \<Rightarrow> (c # w) # ws | [] \<Rightarrow> [[c]])"

definition is_dec_digit :: "char \<Rightarrow> bool" where
  "is_dec_digit c \<longleftrightarrow> 48 \<le> (of_char c :: nat) \<and> of_char c \<le> (57 :: nat)"

definition parse_octet :: "string \<Rightarrow> nat option" where
  "parse_octet w =
     (if w = [] \<or> length w > 3 \<or> \<not> list_all is_dec_digit w \<or> (length w > 1 \<and> hd w = CHR ''0'') then None
      else let n = foldl (\<lambda>a c. a * 10 + (of_char c - 48)) 0 w in if n < 256 then Some n else None)"

definition parse_ipv4 :: "string \<Rightarrow> nat option" where
  "parse_ipv4 s =
     (case map parse_octet (split_on (\<lambda>c. c = CHR ''.'') s) of
        [Some a, Some b, Some c, Some d] \<Rightarrow> Some (((a * 256 + b) * 256 + c) * 256 + d)
      | _ \<Rightarrow> None)"

section \<open>Which addresses may be published\<close>

datatype rejection = NotAbsolute | ThisMachineOnly | NotGloballyRoutable

record advertised =
  accepted :: "string list"
  rejected :: "(string \<times> rejection) list"

definition advertised_default :: advertised where
  "advertised_default = \<lparr>accepted = [], rejected = []\<rparr>"

definition operator_can_advertise :: "advertised \<Rightarrow> bool" where
  "operator_can_advertise a \<longleftrightarrow> accepted a \<noteq> []"

definition is_globally_routable_v4 :: "nat \<Rightarrow> bool" where
  "is_globally_routable_v4 ip =
     (let a = octet ip 0; b = octet ip 1 in
      \<not> (ip = 0
         \<or> v4_is_loopback ip
         \<or> v4_is_private ip
         \<or> v4_is_link_local ip
         \<or> v4_is_multicast ip
         \<or> ip = 4294967295
         \<or> v4_is_documentation ip
         \<or> a = 0
         \<or> a = 100 \<and> 64 \<le> b \<and> b < 128
         \<or> a = 198 \<and> (b = 18 \<or> b = 19)
         \<or> a = 192 \<and> b = 0 \<and> octet ip 2 = 0
         \<or> a \<ge> 240))"

text \<open>The masks \<open>0xffc0\<close> and \<open>0xfe00\<close> keep the upper ten and seven bits of the segment.\<close>

definition is_globally_routable_v6 :: "nat \<Rightarrow> bool" where
  "is_globally_routable_v6 ip =
     (let seg = segment ip in
      \<not> (ip = 0
         \<or> ip = 1
         \<or> v6_is_multicast ip
         \<or> seg 0 div 64 = 0xfe80 div 64
         \<or> seg 0 div 512 = 0xfc00 div 512
         \<or> seg 0 = 0x2001 \<and> seg 1 = 0x0db8
         \<or> seg 0 = 0x2001 \<and> seg 1 = 0x0002 \<and> seg 2 = 0
         \<or> seg 0 = 0x0100 \<and> seg 1 = 0 \<and> seg 2 = 0 \<and> seg 3 = 0))"

fun is_globally_routable :: "socket_addr \<Rightarrow> bool" where
  "is_globally_routable (V4 ip port) = is_globally_routable_v4 ip"
| "is_globally_routable (V6 ip port flowinfo scope) =
     (case v6_to_ipv4 ip of
        Some embedded \<Rightarrow> is_globally_routable_v4 embedded
      | None \<Rightarrow> is_globally_routable_v6 ip)"

definition is_this_machine_only_v4 :: "nat \<Rightarrow> bool" where
  "is_this_machine_only_v4 ip \<longleftrightarrow> v4_is_loopback ip \<or> ip = 0 \<or> v4_is_link_local ip"

section \<open>The operator's list\<close>

datatype url_host = Domain string | HostIpv4 nat | HostIpv6 nat

text \<open>
  The parser of the \<open>url\<close> crate: \<open>None\<close> when the text is no absolute URL, otherwise the URL's host,
  if it has one.
\<close>

type_synonym url_parser = "string \<Rightarrow> url_host option option"

definition DIG_LOCAL_HOST :: string where "DIG_LOCAL_HOST = ''dig.local''"

definition trim_end_dots :: "string \<Rightarrow> string" where
  "trim_end_dots s = rev (dropWhile (\<lambda>c. c = CHR ''.'') (rev s))"

fun host_is_this_machine :: "url_host \<Rightarrow> bool" where
  "host_is_this_machine (Domain name) =
     (case parse_ipv4 name of
        Some ip \<Rightarrow> is_this_machine_only_v4 ip
      | None \<Rightarrow> let name = to_ascii_lowercase (trim_end_dots name)
                in name = ''localhost'' \<or> suffix ''.localhost'' name \<or> name = DIG_LOCAL_HOST)"
| "host_is_this_machine (HostIpv4 ip) = is_this_machine_only_v4 ip"
| "host_is_this_machine (HostIpv6 ip) =
     (ip = 1 \<or> ip = 0 \<or> segment ip 0 div 64 = 0xfe80 div 64
      \<or> (case v6_to_ipv4 ip of Some e \<Rightarrow> is_this_machine_only_v4 e | None \<Rightarrow> False))"

definition classify :: "url_parser \<Rightarrow> string \<Rightarrow> rejection option" where
  "classify U entry =
     (case U entry of
        None \<Rightarrow> Some NotAbsolute
      | Some None \<Rightarrow> Some NotAbsolute
      | Some (Some host) \<Rightarrow> if host_is_this_machine host then Some ThisMachineOnly else None)"

text \<open>One entry, as both loops treat it.\<close>

definition take_entry :: "url_parser \<Rightarrow> string \<Rightarrow> advertised \<Rightarrow> advertised" where
  "take_entry U entry out =
     (case classify U entry of
        Some reason \<Rightarrow> out\<lparr>rejected := rejected out @ [(entry, reason)]\<rparr>
      | None \<Rightarrow> if entry \<in> set (accepted out) then out else out\<lparr>accepted := accepted out @ [entry]\<rparr>)"

definition is_url_separator :: "char \<Rightarrow> bool" where
  "is_url_separator c \<longleftrightarrow> c \<in> {CHR '','', CHR '' '', CHR 0x09, CHR 0x0A, CHR 0x0D}"

definition parse_advertised_urls :: "url_parser \<Rightarrow> string \<Rightarrow> advertised" where
  "parse_advertised_urls U raw =
     foldl (\<lambda>out piece. let entry = str_trim piece in if entry = [] then out else take_entry U entry out)
       advertised_default (split_on is_url_separator raw)"

fun join_commas :: "string list \<Rightarrow> string" where
  "join_commas [] = ''''"
| "join_commas [u] = u"
| "join_commas (u # us) = u @ '','' @ join_commas us"

definition advertised_urls_precedence ::
  "url_parser \<Rightarrow> string option \<Rightarrow> string list option \<Rightarrow> advertised"
where
  "advertised_urls_precedence U env_value persisted =
     (case (case env_value of Some v \<Rightarrow> if str_trim v \<noteq> [] then Some v else None | None \<Rightarrow> None) of
        Some v \<Rightarrow> parse_advertised_urls U v
      | None \<Rightarrow> (case persisted of
                   Some urls \<Rightarrow> parse_advertised_urls U (join_commas urls)
                 | None \<Rightarrow> advertised_default))"

section \<open>The node's own address\<close>

record reflexive =
  rf_source :: string
  rf_addr :: socket_addr

record public_address =
  pa_reflexive :: "reflexive list"
  relay_reserved :: bool
  direct_mapping :: bool

definition is_live :: "public_address \<Rightarrow> bool" where
  "is_live a \<longleftrightarrow> relay_reserved a \<or> direct_mapping a"

text \<open>
  The verdict of \<open>dig-stun\<close> on one family: the agreed address, an agreed address that is not global
  unicast, or any of the verdicts that establish nothing.
\<close>

datatype family_verdict = Established nat | NotGlobal | NotEstablished

type_synonym stun = "(string \<times> socket_addr) list \<Rightarrow> family_verdict \<times> family_verdict"

text \<open>The verdicts on IPv6 and on IPv4.\<close>

definition established :: "stun \<Rightarrow> public_address \<Rightarrow> family_verdict \<times> family_verdict" where
  "established S a = S (map (\<lambda>r. (rf_source r, rf_addr r)) (pa_reflexive a))"

definition established_addresses :: "stun \<Rightarrow> public_address \<Rightarrow> socket_addr list" where
  "established_addresses S a =
     (case pa_reflexive a of
        [] \<Rightarrow> []
      | r # _ \<Rightarrow>
          let port = sa_port (rf_addr r); (v6, v4) = established S a
          in (case v6 of Established ip \<Rightarrow> [V6 ip port 0 0] | _ \<Rightarrow> [])
             @ (case v4 of Established ip \<Rightarrow> [V4 ip port] | _ \<Rightarrow> []))"

definition any_family_not_global :: "stun \<Rightarrow> public_address \<Rightarrow> bool" where
  "any_family_not_global S a = (let (v6, v4) = established S a in v6 = NotGlobal \<or> v4 = NotGlobal)"

definition DERIVED_SCHEME :: string where "DERIVED_SCHEME = ''dig''"

definition derived_url :: "socket_addr \<Rightarrow> string" where
  "derived_url addr = DERIVED_SCHEME @ ''://'' @ show_socket addr"

definition derived_urls :: "url_parser \<Rightarrow> socket_addr list \<Rightarrow> advertised" where
  "derived_urls U agreed =
     foldl (\<lambda>out addr.
         let url = derived_url addr in
         if \<not> is_globally_routable addr
         then out\<lparr>rejected := rejected out @ [(url, NotGloballyRoutable)]\<rparr>
         else take_entry U url out)
       advertised_default (filter is_ipv6 agreed @ filter is_ipv4 agreed)"

section \<open>The decision\<close>

datatype advertise_state = Override | Derived | Off | NoPublicAddress | Uncorroborated | NoRelay

fun state_label :: "advertise_state \<Rightarrow> string" where
  "state_label Override = ''advertising_override''"
| "state_label Derived = ''advertising_derived''"
| "state_label Off = ''off''"
| "state_label NoPublicAddress = ''no_public_address''"
| "state_label Uncorroborated = ''uncorroborated_address''"
| "state_label NoRelay = ''no_relay''"

record effective =
  eff_urls :: "string list"
  eff_state :: advertise_state
  eff_rejected :: "(string \<times> rejection) list"

definition effective_default :: effective where
  "effective_default = \<lparr>eff_urls = [], eff_state = NoPublicAddress, eff_rejected = []\<rparr>"

definition can_advertise :: "effective \<Rightarrow> bool" where
  "can_advertise e \<longleftrightarrow> eff_urls e \<noteq> []"

definition effective_urls :: "url_parser \<Rightarrow> stun \<Rightarrow> advertised \<Rightarrow> public_address \<Rightarrow> effective" where
  "effective_urls U S operator address =
     (if operator_can_advertise operator
      then effective_default\<lparr>eff_urls := accepted operator, eff_state := Override\<rparr>
      else if rejected operator \<noteq> [] then effective_default\<lparr>eff_state := Off\<rparr>
      else
        let agreed = established_addresses S address in
        if agreed = []
        then effective_default\<lparr>eff_state :=
               (if pa_reflexive address = [] \<or> any_family_not_global S address
                then NoPublicAddress else Uncorroborated)\<rparr>
        else
          let derived = derived_urls U agreed in
          if \<not> operator_can_advertise derived
          then effective_default\<lparr>eff_state := NoPublicAddress, eff_rejected := rejected derived\<rparr>
          else if \<not> is_live address
          then effective_default\<lparr>eff_state := NoRelay, eff_rejected := rejected derived\<rparr>
          else \<lparr>eff_urls = accepted derived, eff_state = Derived, eff_rejected = rejected derived\<rparr>)"

section \<open>What may be published\<close>

text \<open>An accepted list: no entry twice, and every entry passed the check.\<close>

definition adv_ok :: "url_parser \<Rightarrow> advertised \<Rightarrow> bool" where
  "adv_ok U a \<longleftrightarrow> distinct (accepted a) \<and> (\<forall>u \<in> set (accepted a). classify U u = None)"

lemma adv_ok_default [simp]: "adv_ok U advertised_default"
  by (simp add: adv_ok_def advertised_default_def)

lemma adv_ok_take_entry [simp]: "adv_ok U a \<Longrightarrow> adv_ok U (take_entry U entry a)"
  by (auto simp: adv_ok_def take_entry_def split: option.splits)

lemma adv_ok_reject [simp]: "adv_ok U (a\<lparr>rejected := r\<rparr>) = adv_ok U a"
  by (simp add: adv_ok_def)

lemma foldl_invariant: "P a \<Longrightarrow> (\<And>a x. x \<in> set xs \<Longrightarrow> P a \<Longrightarrow> P (f a x)) \<Longrightarrow> P (foldl f a xs)"
  by (induction xs arbitrary: a) auto

lemma adv_ok_parse: "adv_ok U (parse_advertised_urls U raw)"
  unfolding parse_advertised_urls_def by (rule foldl_invariant) (simp_all add: Let_def)

lemma adv_ok_precedence: "adv_ok U (advertised_urls_precedence U env persisted)"
  by (simp add: advertised_urls_precedence_def adv_ok_parse split: option.splits)

lemma adv_ok_derived: "adv_ok U (derived_urls U agreed)"
  unfolding derived_urls_def by (rule foldl_invariant) (simp_all add: Let_def)

lemma accepted_take_entry:
  "u \<in> set (accepted (take_entry U entry a)) \<Longrightarrow> u = entry \<or> u \<in> set (accepted a)"
  by (auto simp: take_entry_def split: option.splits if_splits)

text \<open>Where a derived URL comes from: an agreed address that is globally routable.\<close>

lemma derived_urls_source:
  "\<forall>u \<in> set (accepted (derived_urls U agreed)). \<exists>addr \<in> set agreed. u = derived_url addr \<and> is_globally_routable addr"
  unfolding derived_urls_def
proof (rule foldl_invariant)
  fix a :: advertised and addr
  assume ad: "addr \<in> set (filter is_ipv6 agreed @ filter is_ipv4 agreed)"
    and IH: "\<forall>u \<in> set (accepted a). \<exists>addr \<in> set agreed. u = derived_url addr \<and> is_globally_routable addr"
  show "\<forall>u \<in> set (accepted (let url = derived_url addr
        in if \<not> is_globally_routable addr
           then a\<lparr>rejected := rejected a @ [(url, NotGloballyRoutable)]\<rparr>
           else take_entry U url a)).
      \<exists>addr \<in> set agreed. u = derived_url addr \<and> is_globally_routable addr"
    using ad IH by (auto simp: Let_def dest!: accepted_take_entry)
qed (simp add: advertised_default_def)

lemma established_addresses_source:
  "addr \<in> set (established_addresses S a) \<Longrightarrow>
     (\<exists>ip port. addr = V6 ip port 0 0 \<and> fst (established S a) = Established ip)
     \<or> (\<exists>ip port. addr = V4 ip port \<and> snd (established S a) = Established ip)"
  by (cases "established S a")
    (auto simp: established_addresses_def Let_def split: list.splits family_verdict.splits)

lemma effective_cases:
  obtains (override) "operator_can_advertise operator"
      "effective_urls U S operator address =
         \<lparr>eff_urls = accepted operator, eff_state = Override, eff_rejected = []\<rparr>"
  | (silent) "\<not> operator_can_advertise operator"
      "eff_urls (effective_urls U S operator address) = []"
      "eff_state (effective_urls U S operator address) \<notin> {Override, Derived}"
  | (derived) "\<not> operator_can_advertise operator" "rejected operator = []" "is_live address"
      "operator_can_advertise (derived_urls U (established_addresses S address))"
      "eff_urls (effective_urls U S operator address)
         = accepted (derived_urls U (established_addresses S address))"
      "eff_state (effective_urls U S operator address) = Derived"
proof -
  let ?d = "derived_urls U (established_addresses S address)"
  consider "operator_can_advertise operator"
    | "\<not> operator_can_advertise operator" "rejected operator \<noteq> []"
    | "\<not> operator_can_advertise operator" "rejected operator = []" "established_addresses S address = []"
    | "\<not> operator_can_advertise operator" "rejected operator = []" "established_addresses S address \<noteq> []"
      "\<not> operator_can_advertise ?d \<or> \<not> is_live address"
    | "\<not> operator_can_advertise operator" "rejected operator = []" "established_addresses S address \<noteq> []"
      "operator_can_advertise ?d" "is_live address"
    by blast
  then show thesis
  proof cases
    case 1
    then show thesis by (intro override) (simp_all add: effective_urls_def effective_default_def)
  next
    case 2
    then show thesis by (intro silent) (simp_all add: effective_urls_def effective_default_def)
  next
    case 3
    then show thesis by (intro silent) (simp_all add: effective_urls_def effective_default_def)
  next
    case 4
    then show thesis by (intro silent) (auto simp: effective_urls_def effective_default_def Let_def)
  next
    case 5
    then show thesis by (intro derived) (simp_all add: effective_urls_def Let_def)
  qed
qed

section \<open>Properties\<close>

text \<open>
  what the node publishes is vetted. It publishes URLs exactly in the two publishing states; no
  URL is published twice, and none is without a host or names only this machine. The operator's
  accepted entries win outright; an operator value of which nothing is publishable publishes nothing,
  never the derived address; and a derived URL names an address \<open>dig-stun\<close> established for its family,
  which is globally routable, while a path to the node is held.
\<close>
theorem advertised_urls_vetted:
  fixes U S address env persisted
  defines "operator \<equiv> advertised_urls_precedence U env persisted"
  defines "e \<equiv> effective_urls U S operator address"
  shows "(can_advertise e \<longleftrightarrow> eff_state e \<in> {Override, Derived})
    \<and> distinct (eff_urls e) \<and> (\<forall>u \<in> set (eff_urls e). classify U u = None)
    \<and> (accepted operator \<noteq> [] \<longrightarrow> eff_urls e = accepted operator)
    \<and> (accepted operator = [] \<and> rejected operator \<noteq> [] \<longrightarrow> eff_urls e = [])
    \<and> (eff_state e = Derived \<longrightarrow> is_live address \<and>
        (\<forall>u \<in> set (eff_urls e). \<exists>addr. u = derived_url addr \<and> is_globally_routable addr \<and>
           ((\<exists>ip port. addr = V6 ip port 0 0 \<and> fst (established S address) = Established ip)
            \<or> (\<exists>ip port. addr = V4 ip port \<and> snd (established S address) = Established ip))))"
proof -
  have ok: "adv_ok U operator" by (simp add: operator_def adv_ok_precedence)
  show ?thesis
  proof (cases rule: effective_cases [of operator U S address])
    case override
    with ok show ?thesis by (auto simp: e_def can_advertise_def operator_can_advertise_def adv_ok_def)
  next
    case silent
    then show ?thesis by (auto simp: e_def can_advertise_def operator_can_advertise_def)
  next
    case derived
    have "\<forall>u \<in> set (eff_urls e). \<exists>addr. u = derived_url addr \<and> is_globally_routable addr \<and>
           ((\<exists>ip port. addr = V6 ip port 0 0 \<and> fst (established S address) = Established ip)
            \<or> (\<exists>ip port. addr = V4 ip port \<and> snd (established S address) = Established ip))"
      using derived_urls_source [of U "established_addresses S address"] established_addresses_source
      by (fastforce simp: e_def derived(5))
    with derived adv_ok_derived [of U "established_addresses S address"] show ?thesis
      by (simp add: e_def can_advertise_def operator_can_advertise_def adv_ok_def)
  qed
qed

definition sample_stun :: stun where
  "sample_stun readings = (if length readings = 2 then (Established 1, Established 134744072) else (NotEstablished, NotEstablished))"

definition sample_parser :: url_parser where
  "sample_parser u = (if u = ''dig://8.8.8.8:9444'' then Some (Some (Domain ''8.8.8.8'')) else None)"

definition sample_address :: public_address where
  "sample_address = \<lparr>pa_reflexive = [\<lparr>rf_source = ''relay:a'', rf_addr = V4 134744072 9444\<rparr>,
      \<lparr>rf_source = ''public:b'', rf_addr = V4 134744072 9444\<rparr>], relay_reserved = True, direct_mapping = False\<rparr>"

lemma segments_loopback: "map (segment 1) [0..<8] = [0, 0, 0, 0, 0, 0, 0, 1]"
  by (simp add: segment_def upt_rec)

lemma sample_effective:
  "effective_urls sample_parser sample_stun (advertised_urls_precedence sample_parser None None) sample_address
     = \<lparr>eff_urls = [''dig://8.8.8.8:9444''], eff_state = Derived,
        eff_rejected = [(''dig://[::1]:9444'', NotGloballyRoutable)]\<rparr>"
proof -
  have a: "established_addresses sample_stun sample_address = [V6 1 9444 0 0, V4 134744072 9444]"
    by (simp add: established_addresses_def established_def sample_stun_def sample_address_def)
  have r: "is_globally_routable (V4 134744072 9444)" "\<not> is_globally_routable (V6 1 9444 0 0)"
    by (simp_all add: is_globally_routable_v4_def octet_def v4_is_loopback_def v4_is_private_def
        v4_is_link_local_def v4_is_multicast_def v4_is_documentation_def v6_to_ipv4_def)
  have u: "derived_url (V4 134744072 9444) = ''dig://8.8.8.8:9444''"
    "derived_url (V6 1 9444 0 0) = ''dig://[::1]:9444''"
    unfolding derived_url_def DERIVED_SCHEME_def
    by (simp_all add: show_ipv4_def show_base.simps digit_char_def octet_def show_ipv6_def segments_loopback [unfolded One_nat_def])
  have c: "classify sample_parser ''dig://8.8.8.8:9444'' = None"
    by (simp add: classify_def sample_parser_def parse_ipv4_def parse_octet_def is_dec_digit_def
        is_this_machine_only_v4_def v4_is_loopback_def v4_is_link_local_def octet_def)
  have "derived_urls sample_parser [V6 1 9444 0 0, V4 134744072 9444]
      = \<lparr>accepted = [''dig://8.8.8.8:9444''], rejected = [(''dig://[::1]:9444'', NotGloballyRoutable)]\<rparr>"
    using r c u [unfolded One_nat_def] by (simp add: derived_urls_def take_entry_def advertised_default_def Let_def)
  with a show ?thesis
    by (simp add: effective_urls_def advertised_urls_precedence_def operator_can_advertise_def
        advertised_default_def is_live_def sample_address_def Let_def)
qed

theorem advertised_urls_vetted_witness:
  "\<exists>addr. ''dig://8.8.8.8:9444'' = derived_url addr \<and> is_globally_routable addr
     \<and> classify sample_parser ''dig://8.8.8.8:9444'' = None"
  using advertised_urls_vetted [where U = sample_parser and S = sample_stun and env = None
      and persisted = None and address = sample_address, unfolded sample_effective]
  by auto

text \<open>
  A trailing dot hides a loopback literal from the check under a scheme whose host is not parsed as an
  address: it is neither an IPv4 literal nor one of the local names.
\<close>

lemma trailing_dot_loopback_accepted:
  "host_is_this_machine (Domain ''127.0.0.1'') \<and> \<not> host_is_this_machine (Domain ''127.0.0.1.'')
   \<and> host_is_this_machine (Domain ''localhost.'')"
  by (simp add: parse_ipv4_def parse_octet_def is_dec_digit_def is_this_machine_only_v4_def
      v4_is_loopback_def octet_def trim_end_dots_def to_ascii_lowercase_def ascii_lower_def
      DIG_LOCAL_HOST_def suffix_to_prefix Let_def)

end
