(* ===== verification/Mirror_Reconcile.thy ===== *)
theory Mirror_Reconcile
  imports Mirror_Plan Mirror_Advertise
begin

text \<open>
  Whether to bring the node's mirror coins in line with what it advertises now, and which of them
  (\<open>mirror/reconcile.rs\<close>). A coin's URLs cannot be changed in place: it is reclaimed and created anew,
  so the decision first sizes the set to what the wallet can create again, one spend after the other.
\<close>

section \<open>The decision\<close>

record declared_bond =
  db_held :: held_mirror
  db_urls :: "string list"

datatype refusal_reason =
  AdvertiseNotPublishing advertise_state
| RefusedDisabled
| NoMirrorCoins
| UrlUnchanged
| RefusedRequirementUnknown unknown_reason_code
| FundsUnmeasured
| InsufficientFunds nat nat
| ReconcileInProgress

fun refusal_label :: "refusal_reason \<Rightarrow> string" where
  "refusal_label (AdvertiseNotPublishing st) = state_label st"
| "refusal_label RefusedDisabled = ''disabled''"
| "refusal_label NoMirrorCoins = ''no_mirror_coins''"
| "refusal_label UrlUnchanged = ''url_unchanged''"
| "refusal_label (RefusedRequirementUnknown _) = ''requirement_unknown''"
| "refusal_label FundsUnmeasured = ''funds_unmeasured''"
| "refusal_label (InsufficientFunds _ _) = ''insufficient_funds''"
| "refusal_label ReconcileInProgress = ''reconcile_in_progress''"

record reconcile_directive =
  rd_coin_ids :: "string list"
  rd_left_unaffordable :: nat
  rd_trigger :: trigger

record reconcile_inputs =
  ri_trigger :: trigger
  ri_advertised :: effective
  ri_mirror_enabled :: bool
  ri_held_bonds :: "bond list"
  ri_bonded :: "declared_bond list"
  ri_current_epoch :: int
  ri_requirement :: collateral_requirement
  ri_margin_bp :: nat
  ri_dig_balance :: "nat option"
  ri_reconcile_in_progress :: bool

text \<open>The coins a reconcile may touch: of the current epoch, with their capsule still on disk.\<close>

definition reconcile_candidates :: "declared_bond list \<Rightarrow> bond list \<Rightarrow> int \<Rightarrow> declared_bond list" where
  "reconcile_candidates bonded held_bonds current_epoch =
     filter (\<lambda>d. bond_of (db_held d) \<in> set held_bonds)
       (filter (\<lambda>d. hm_epoch (db_held d) = current_epoch) bonded)"

definition stale_set :: "declared_bond list \<Rightarrow> bond list \<Rightarrow> int \<Rightarrow> string list \<Rightarrow> declared_bond list" where
  "stale_set bonded held_bonds current_epoch target =
     filter (\<lambda>d. set (db_urls d) \<noteq> set target)
       (sort_key (\<lambda>d. (hm_store_id (db_held d), hm_root (db_held d)))
         (reconcile_candidates bonded held_bonds current_epoch))"

text \<open>The walk that sizes the prefix: each coin's own collateral comes home before its recreate is paid.\<close>

fun size_prefix :: "nat \<Rightarrow> nat \<Rightarrow> declared_bond list \<Rightarrow> nat" where
  "size_prefix per_coin running_balance [] = 0"
| "size_prefix per_coin running_balance (d # ds) =
     (let running_balance = u64_sat_add running_balance (collateral_dig_base_units (db_held d))
      in if running_balance \<ge> per_coin then Suc (size_prefix per_coin (running_balance - per_coin) ds) else 0)"

definition reconcile_decide ::
  "safety_margin \<Rightarrow> reconcile_inputs \<Rightarrow> refusal_reason + reconcile_directive"
where
  "reconcile_decide margin i =
     (if \<not> can_advertise (ri_advertised i) then Inl (AdvertiseNotPublishing (eff_state (ri_advertised i)))
      else if \<not> ri_mirror_enabled i then Inl RefusedDisabled
      else if length (reconcile_candidates (ri_bonded i) (ri_held_bonds i) (ri_current_epoch i)) = 0
      then Inl NoMirrorCoins
      else
        let stale = stale_set (ri_bonded i) (ri_held_bonds i) (ri_current_epoch i) (eff_urls (ri_advertised i)) in
        if stale = [] then Inl UrlUnchanged
        else case ri_requirement i of
          RequirementUnknown reason \<Rightarrow> Inl (RefusedRequirementUnknown reason)
        | RequirementKnown required \<Rightarrow>
            let per_coin = margin required (ri_margin_bp i) in
            (case ri_dig_balance i of
               None \<Rightarrow> Inl FundsUnmeasured
             | Some balance \<Rightarrow>
                 let k = size_prefix per_coin balance stale in
                 if k = 0
                 then Inl (InsufficientFunds
                        (u64_sat_add balance (collateral_dig_base_units (db_held (hd stale)))) per_coin)
                 else if ri_reconcile_in_progress i then Inl ReconcileInProgress
                 else Inr \<lparr>rd_coin_ids = map (\<lambda>d. coin_id (db_held d)) (take k stale),
                           rd_left_unaffordable = length stale - k, rd_trigger = ri_trigger i\<rparr>))"

section \<open>Facts about the sizing\<close>

abbreviation collateral_sum :: "declared_bond list \<Rightarrow> nat" where
  "collateral_sum ds \<equiv> sum_list (map (\<lambda>d. collateral_dig_base_units (db_held d)) ds)"

lemma size_prefix_le: "size_prefix per_coin balance ds \<le> length ds"
  by (induction ds arbitrary: balance) (simp_all add: Let_def)

text \<open>Every recreate of the prefix is paid for by what the wallet held and what has come home by then.\<close>

lemma size_prefix_funded:
  "i \<le> size_prefix per_coin balance ds \<Longrightarrow> i * per_coin \<le> balance + collateral_sum (take i ds)"
proof (induction ds arbitrary: balance i)
  case (Cons d ds)
  let ?r = "u64_sat_add balance (collateral_dig_base_units (db_held d))"
  have r: "?r \<le> balance + collateral_dig_base_units (db_held d)" by (simp add: u64_sat_add_def)
  show ?case
  proof (cases i)
    case (Suc j)
    with Cons.prems have "per_coin \<le> ?r" "j \<le> size_prefix per_coin (?r - per_coin) ds"
      by (simp_all add: Let_def split: if_splits)
    with Cons.IH [of j "?r - per_coin"] r Suc show ?thesis by simp
  qed simp
qed simp

text \<open>And the prefix cannot be longer, as long as the sums fit their width.\<close>

lemma size_prefix_maximal:
  assumes "balance + collateral_sum ds \<le> u64_max" "size_prefix per_coin balance ds < length ds"
  shows "balance + collateral_sum (take (Suc (size_prefix per_coin balance ds)) ds)
    < Suc (size_prefix per_coin balance ds) * per_coin"
  using assms
proof (induction ds arbitrary: balance)
  case (Cons d ds)
  let ?r = "u64_sat_add balance (collateral_dig_base_units (db_held d))"
  have r: "?r = balance + collateral_dig_base_units (db_held d)"
    using Cons.prems(1) by (simp add: u64_sat_add_def)
  show ?case
  proof (cases "?r \<ge> per_coin")
    case True
    define m where "m = size_prefix per_coin (?r - per_coin) ds"
    have "m < length ds" using Cons.prems(2) True by (simp add: m_def Let_def)
    with Cons.prems(1) r True have "?r - per_coin + collateral_sum (take (Suc m) ds) < Suc m * per_coin"
      unfolding m_def by (intro Cons.IH) simp_all
    then have "?r + collateral_sum (take (Suc m) ds) < Suc (Suc m) * per_coin" using True by simp
    moreover have "size_prefix per_coin (balance + collateral_dig_base_units (db_held d) - per_coin) ds = m"
      by (simp add: m_def r)
    ultimately show ?thesis using True r by (simp add: Let_def add.assoc)
  next
    case False
    then show ?thesis by (simp add: r)
  qed
qed simp

lemma stale_set_iff:
  "d \<in> set (stale_set bonded held ep target) \<longleftrightarrow>
     d \<in> set bonded \<and> hm_epoch (db_held d) = ep \<and> bond_of (db_held d) \<in> set held
     \<and> set (db_urls d) \<noteq> set target"
  by (auto simp: stale_set_def reconcile_candidates_def)

lemma stale_set_sorted:
  "sorted (map (\<lambda>d. (hm_store_id (db_held d), hm_root (db_held d))) (stale_set bonded held ep target))"
  unfolding stale_set_def by (rule sorted_filter) simp

text \<open>What a directive says about its inputs.\<close>

lemma reconcile_decideE:
  assumes "reconcile_decide margin i = Inr dir"
  obtains stale required balance k where
    "can_advertise (ri_advertised i)" "ri_mirror_enabled i" "\<not> ri_reconcile_in_progress i"
    "ri_requirement i = RequirementKnown required" "ri_dig_balance i = Some balance"
    "stale = stale_set (ri_bonded i) (ri_held_bonds i) (ri_current_epoch i) (eff_urls (ri_advertised i))"
    "k = size_prefix (margin required (ri_margin_bp i)) balance stale" "0 < k"
    "dir = \<lparr>rd_coin_ids = map (\<lambda>d. coin_id (db_held d)) (take k stale),
       rd_left_unaffordable = length stale - k, rd_trigger = ri_trigger i\<rparr>"
  using assms unfolding reconcile_decide_def Let_def
  by (simp split: if_splits collateral_requirement.splits option.splits)

section \<open>Properties\<close>

text \<open>
  a reconcile never costs a bond. A directive is given only to a publishing node with the switch on,
  a known price, a measured balance and no earlier reconcile open. It names a non-empty prefix, in
  canonical order, of the coins of the current epoch whose capsule is on disk and whose URLs differ from
  what the node publishes; at every point of the sequence the wallet's balance and the collateral that
  has come home so far pay for as many recreates; and the prefix is the longest of that kind.
\<close>
theorem reconcile_self_funding:
  assumes "reconcile_decide margin i = Inr dir" "ri_requirement i = RequirementKnown required"
    "ri_dig_balance i = Some balance"
  defines "per_coin \<equiv> margin required (ri_margin_bp i)"
  shows "\<exists>stale k. 0 < k \<and> k \<le> length stale
    \<and> set stale = {d \<in> set (ri_bonded i). hm_epoch (db_held d) = ri_current_epoch i
         \<and> bond_of (db_held d) \<in> set (ri_held_bonds i) \<and> set (db_urls d) \<noteq> set (eff_urls (ri_advertised i))}
    \<and> sorted (map (\<lambda>d. (hm_store_id (db_held d), hm_root (db_held d))) stale)
    \<and> rd_coin_ids dir = map (\<lambda>d. coin_id (db_held d)) (take k stale)
    \<and> rd_left_unaffordable dir = length stale - k
    \<and> (\<forall>j \<le> k. j * per_coin \<le> balance + collateral_sum (take j stale))
    \<and> (k < length stale \<and> balance + collateral_sum stale \<le> u64_max \<longrightarrow>
         balance + collateral_sum (take (Suc k) stale) < Suc k * per_coin)
    \<and> can_advertise (ri_advertised i) \<and> ri_mirror_enabled i \<and> \<not> ri_reconcile_in_progress i"
proof -
  from assms(1) obtain stale k where
    g: "can_advertise (ri_advertised i)" "ri_mirror_enabled i" "\<not> ri_reconcile_in_progress i"
    and st: "stale = stale_set (ri_bonded i) (ri_held_bonds i) (ri_current_epoch i) (eff_urls (ri_advertised i))"
    and k: "k = size_prefix per_coin balance stale" "0 < k"
    and dir: "rd_coin_ids dir = map (\<lambda>d. coin_id (db_held d)) (take k stale)"
      "rd_left_unaffordable dir = length stale - k"
    using assms(2,3) by (elim reconcile_decideE) (auto simp: per_coin_def)
  show ?thesis
    using g k dir size_prefix_le [of per_coin balance stale] size_prefix_funded [of _ per_coin balance stale]
      size_prefix_maximal [of balance stale per_coin] stale_set_sorted stale_set_iff
    by (intro exI [of _ stale] exI [of _ k]) (auto simp: st)
qed

definition sample_coin :: "string \<Rightarrow> nat \<Rightarrow> declared_bond" where
  "sample_coin s n = \<lparr>db_held = \<lparr>coin_id = ''c'' @ s, hm_store_id = s, hm_root = ''r'', hm_epoch = 4,
     collateral_dig_base_units = n\<rparr>, db_urls = [''old'']\<rparr>"

definition sample_inputs :: reconcile_inputs where
  "sample_inputs = \<lparr>ri_trigger = Manual,
     ri_advertised = \<lparr>eff_urls = [''new''], eff_state = Derived, eff_rejected = []\<rparr>, ri_mirror_enabled = True,
     ri_held_bonds = [\<lparr>store_id = ''a'', root_hash = ''r''\<rparr>, \<lparr>store_id = ''b'', root_hash = ''r''\<rparr>],
     ri_bonded = [sample_coin ''b'' 5, sample_coin ''a'' 12], ri_current_epoch = 4,
     ri_requirement = RequirementKnown 10, ri_margin_bp = 0, ri_dig_balance = Some 1,
     ri_reconcile_in_progress = False\<rparr>"

lemma sample_decide:
  "reconcile_decide (\<lambda>required bp. required) sample_inputs
     = Inr \<lparr>rd_coin_ids = [''ca''], rd_left_unaffordable = 1, rd_trigger = Manual\<rparr>"
  by (simp add: reconcile_decide_def sample_inputs_def can_advertise_def reconcile_candidates_def stale_set_def
      sample_coin_def bond_of_def u64_sat_add_def Let_def)

theorem reconcile_self_funding_witness:
  "\<exists>stale k. [''ca''] = map (\<lambda>d. coin_id (db_held d)) (take k stale)
     \<and> 0 < k \<and> k < length stale \<and> (\<forall>j \<le> k. j * 10 \<le> 1 + collateral_sum (take j stale))"
proof -
  have req: "ri_requirement sample_inputs = RequirementKnown 10" "ri_dig_balance sample_inputs = Some 1"
    by (simp_all add: sample_inputs_def)
  obtain stale k where "0 < k"
      and ids: "[''ca''] = map (\<lambda>d. coin_id (db_held d)) (take k stale)" and left: "1 = length stale - k"
      and fund: "\<forall>j \<le> k. j * 10 \<le> 1 + collateral_sum (take j stale)"
    using reconcile_self_funding [OF sample_decide req] by (elim exE conjE) simp
  moreover from left have "k < length stale" by simp
  ultimately show ?thesis by (intro exI [of _ stale] exI [of _ k] conjI)
qed

end
