(* ===== verification/Mirror_Pass.thy ===== *)
theory Mirror_Pass
  imports Mirror_Reconcile
begin

text \<open>
  What one reconcile pass decides (\<open>mirror/pass.rs\<close>): the coins to spend home, the creates the wallet
  can pay for, and one state for every bond the node serves.
\<close>

section \<open>The decision\<close>

datatype bond_state =
  Bonded string int nat
| Pending
| Unfunded nat
| FundsUnknown
| Deferred unknown_reason_code
| Disabled
| Unadvertised
| Withheld
| Reclaiming string int nat

record pass_decision =
  pd_reclaim :: "(held_mirror \<times> reclaim_reason) list"
  pd_create :: "bond list"
  pd_per_coin :: "nat option"
  pd_states :: "(bond \<times> bond_state) list"
  pd_funding_shortfall :: "nat option"

record pass_inputs =
  pi_held :: "bond list"
  pi_relayed :: "bond list"
  pi_on_chain :: "held_mirror list"
  pi_in_flight :: "bond list"
  pi_current_epoch :: int
  pi_requirement :: collateral_requirement
  pi_margin_bp :: nat
  pi_dig_balance :: "nat option"
  pi_creates_enabled :: bool
  pi_can_advertise :: bool
  pi_reconcile :: "reconcile_directive option"

fun unknown_reason :: "collateral_requirement \<Rightarrow> unknown_reason_code" where
  "unknown_reason (RequirementUnknown reason) = reason"
| "unknown_reason (RequirementKnown _) = NotCensused"

text \<open>The reclaims a directive adds: the first coin on chain with each of its ids.\<close>

definition directive_reclaims ::
  "held_mirror list \<Rightarrow> reconcile_directive option \<Rightarrow> (held_mirror \<times> reclaim_reason) list"
where
  "directive_reclaims on_chain reconcile =
     (case reconcile of
        None \<Rightarrow> []
      | Some directive \<Rightarrow>
          List.map_filter (\<lambda>cid. map_option (\<lambda>c. (c, UrlStale (rd_trigger directive)))
              (find (\<lambda>c. coin_id c = cid) on_chain))
            (rd_coin_ids directive))"

text \<open>
  The loop over the current coins of a bond: it stops at the first that is not being reclaimed, and
  remembers the first that is.
\<close>

fun pick_coin :: "(held_mirror \<times> reclaim_reason) list \<Rightarrow> held_mirror list \<Rightarrow> held_mirror option
  \<Rightarrow> held_mirror option \<times> held_mirror option"
where
  "pick_coin reclaim [] reclaiming = (reclaiming, None)"
| "pick_coin reclaim (c # cs) reclaiming =
     (if list_ex (\<lambda>(r, _). coin_id r = coin_id c) reclaim
      then pick_coin reclaim cs (case reclaiming of None \<Rightarrow> Some c | Some g \<Rightarrow> Some g)
      else (reclaiming, Some c))"

definition bond_state_of ::
  "pass_inputs \<Rightarrow> bond list \<Rightarrow> funding_split option \<Rightarrow> nat option \<Rightarrow> (held_mirror \<times> reclaim_reason) list
     \<Rightarrow> bond \<Rightarrow> bond_state"
where
  "bond_state_of i affordable split per_coin reclaim b =
     (let current = filter (\<lambda>c. hm_epoch c = pi_current_epoch i \<and> hm_store_id c = store_id b
                                \<and> hm_root c = root_hash b) (pi_on_chain i);
          (reclaiming, coin) = pick_coin reclaim current None
      in case coin of
           Some c \<Rightarrow> Bonded (coin_id c) (hm_epoch c) (collateral_dig_base_units c)
         | None \<Rightarrow>
        (case reclaiming of
           Some g \<Rightarrow> Reclaiming (coin_id g) (hm_epoch g) (collateral_dig_base_units g)
         | None \<Rightarrow>
           if \<not> pi_creates_enabled i then Disabled
           else if \<not> pi_can_advertise i then Unadvertised
           else if b \<in> set (pi_in_flight i) then Pending
           else case (per_coin, split) of
             (Some price, Some sp) \<Rightarrow>
               if b \<in> set affordable then Pending
               else if b \<in> set (fs_short sp) then Unfunded price
               else Pending
           | _ \<Rightarrow> if pi_dig_balance i = None then FundsUnknown
                  else Deferred (unknown_reason (pi_requirement i))))"

text \<open>\<open>dedup_by\<close> on the first component: of adjacent entries of one key the first is kept.\<close>

fun dedup_by_key :: "('k \<times> 'a) list \<Rightarrow> ('k \<times> 'a) list" where
  "dedup_by_key [] = []"
| "dedup_by_key [x] = [x]"
| "dedup_by_key (x # y # xs) = (if fst y = fst x then dedup_by_key (x # xs) else x # dedup_by_key (y # xs))"

definition bond_states ::
  "pass_inputs \<Rightarrow> bond list \<Rightarrow> funding_split option \<Rightarrow> nat option \<Rightarrow> (held_mirror \<times> reclaim_reason) list
     \<Rightarrow> (bond \<times> bond_state) list"
where
  "bond_states i affordable split per_coin reclaim =
     dedup_by_key (sort_key fst
       (map (\<lambda>b. (b, Withheld)) (pi_relayed i)
        @ map (\<lambda>b. (b, bond_state_of i affordable split per_coin reclaim b)) (pi_held i)))"

definition pass_decide :: "safety_margin \<Rightarrow> pass_inputs \<Rightarrow> pass_decision" where
  "pass_decide margin i =
     (let desired = (if pi_creates_enabled i then pi_held i else []);
          p = plan desired (pi_on_chain i) (pi_current_epoch i) (pi_in_flight i);
          reclaim = mp_reclaim p @ directive_reclaims (pi_on_chain i) (pi_reconcile i);
          per_coin = per_coin_dig_base_units margin (pi_requirement i) (pi_margin_bp i);
          (affordable, split) =
            (case (per_coin, pi_dig_balance i) of
               (Some price, Some balance) \<Rightarrow>
                 if pi_can_advertise i
                 then let sp = split_by_funds (mp_create p) balance price in (fs_affordable sp, Some sp)
                 else ([], None)
             | _ \<Rightarrow> ([], None));
          shortfall =
            (case (per_coin, split) of
               (Some price, Some sp) \<Rightarrow>
                 if price > 0 \<and> \<not> is_funded sp then Some (fs_shortfall_dig_base_units sp) else None
             | _ \<Rightarrow> None)
      in \<lparr>pd_reclaim = reclaim, pd_create = affordable, pd_per_coin = per_coin,
          pd_states = bond_states i affordable split per_coin reclaim,
          pd_funding_shortfall = shortfall\<rparr>)"

section \<open>The parts of a decision\<close>

abbreviation pass_plan :: "pass_inputs \<Rightarrow> mirror_plan" where
  "pass_plan i \<equiv> plan (if pi_creates_enabled i then pi_held i else []) (pi_on_chain i)
     (pi_current_epoch i) (pi_in_flight i)"

lemma pass_reclaim:
  "pd_reclaim (pass_decide margin i) = mp_reclaim (pass_plan i) @ directive_reclaims (pi_on_chain i) (pi_reconcile i)"
  by (simp add: pass_decide_def Let_def split_beta)

lemma pass_per_coin:
  "pd_per_coin (pass_decide margin i) = per_coin_dig_base_units margin (pi_requirement i) (pi_margin_bp i)"
  by (simp add: pass_decide_def Let_def split_beta)

lemma pass_create_priced:
  assumes "pi_can_advertise i" "pi_requirement i = RequirementKnown required" "pi_dig_balance i = Some balance"
  shows "pd_create (pass_decide margin i)
    = fs_affordable (split_by_funds (mp_create (pass_plan i)) balance (margin required (pi_margin_bp i)))"
  using assms by (simp add: pass_decide_def Let_def)

lemma pass_create_none:
  assumes "\<not> pi_can_advertise i \<or> pi_dig_balance i = None \<or> (\<exists>r. pi_requirement i = RequirementUnknown r)"
  shows "pd_create (pass_decide margin i) = []"
  using assms by (auto simp: pass_decide_def Let_def split: option.splits)

lemma pass_create_prefix: "\<exists>rest. mp_create (pass_plan i) = pd_create (pass_decide margin i) @ rest"
proof (cases "\<not> pi_can_advertise i \<or> pi_dig_balance i = None \<or> (\<exists>r. pi_requirement i = RequirementUnknown r)")
  case True
  then show ?thesis by (simp add: pass_create_none)
next
  case False
  then obtain required balance where "pi_requirement i = RequirementKnown required" "pi_dig_balance i = Some balance"
    by (metis collateral_requirement.exhaust option.exhaust)
  with False show ?thesis
    using split_by_funds_parts [of "mp_create (pass_plan i)" balance "margin required (pi_margin_bp i)"]
    by (metis pass_create_priced)
qed

lemma pass_create_off: "\<not> pi_creates_enabled i \<Longrightarrow> pd_create (pass_decide margin i) = []"
  using pass_create_prefix [of i margin] plan_create_iff [of _ "[]"]
  by (metis append_is_Nil_conv empty_iff empty_set list.set_intros(1) neq_Nil_conv)

lemma directive_reclaims_in:
  "(c, r) \<in> set (directive_reclaims on_chain d) \<Longrightarrow>
     c \<in> set on_chain \<and> (\<exists>dir. d = Some dir \<and> r = UrlStale (rd_trigger dir) \<and> coin_id c \<in> set (rd_coin_ids dir))"
  by (auto simp: directive_reclaims_def set_map_filter find_Some_iff split: option.splits)

section \<open>Properties of the spends\<close>

text \<open>
  reclaims are never withheld. The ordinary reclaims of a pass are decided by the disk, the chain,
  the epoch and the switch alone: whatever the wallet holds, whether the price or the balance is known
  and whether the node can advertise, each coin of an ended epoch and each current coin whose bond is no
  longer wanted is reclaimed, once. With the switch off that is every coin not of a future epoch.
\<close>
theorem reclaims_never_withheld:
  "filter_mset (\<lambda>(c, r). r \<in> {NoLongerHeld, EpochEnded}) (mset (pd_reclaim (pass_decide margin i)))
     = mset (List.map_filter (\<lambda>c. map_option (Pair c)
         (reason_for (if pi_creates_enabled i then pi_held i else []) (pi_current_epoch i) c)) (pi_on_chain i))
   \<and> (\<not> pi_creates_enabled i \<longrightarrow> pd_create (pass_decide margin i) = []
      \<and> (\<forall>c \<in> set (pi_on_chain i). hm_epoch c \<le> pi_current_epoch i \<longrightarrow> c \<in> fst ` set (pd_reclaim (pass_decide margin i))))"
proof -
  let ?h = "if pi_creates_enabled i then pi_held i else []"
  let ?ok = "\<lambda>(c :: held_mirror, r). r \<in> {NoLongerHeld, EpochEnded}"
  have "\<forall>x \<in> set (mp_reclaim (pass_plan i)). ?ok x"
    by (auto simp: plan_reclaim_iff reason_for_def split: if_splits)
  then have "filter ?ok (mp_reclaim (pass_plan i)) = mp_reclaim (pass_plan i)" by (simp add: filter_id_conv)
  moreover have "\<forall>x \<in> set (directive_reclaims (pi_on_chain i) (pi_reconcile i)). \<not> ?ok x"
    by (auto dest!: directive_reclaims_in)
  then have "filter ?ok (directive_reclaims (pi_on_chain i) (pi_reconcile i)) = []" by (simp add: filter_empty_conv)
  ultimately have "filter ?ok (pd_reclaim (pass_decide margin i)) = mp_reclaim (pass_plan i)"
    by (simp add: pass_reclaim)
  then have "filter_mset ?ok (mset (pd_reclaim (pass_decide margin i))) = mset (mp_reclaim (pass_plan i))"
    by (metis mset_filter)
  moreover have "pd_create (pass_decide margin i) = []
      \<and> (\<forall>c \<in> set (pi_on_chain i). hm_epoch c \<le> pi_current_epoch i \<longrightarrow> c \<in> fst ` set (pd_reclaim (pass_decide margin i)))"
    if off: "\<not> pi_creates_enabled i"
  proof -
    have "c \<in> fst ` set (mp_reclaim (pass_plan i))"
      if "c \<in> set (pi_on_chain i)" "hm_epoch c \<le> pi_current_epoch i" for c
      using that off plan_reclaimed_iff [of c "[]"] by (simp add: reason_for_def)
    with off show ?thesis by (auto simp: pass_create_off pass_reclaim image_Un)
  qed
  ultimately show ?thesis by (simp add: mset_plan_reclaim)
qed

text \<open>A node with the switch off, an unreadable wallet and an unknown price, and one live coin.\<close>

definition sample_pass :: pass_inputs where
  "sample_pass = \<lparr>pi_held = [\<lparr>store_id = ''s'', root_hash = ''r''\<rparr>], pi_relayed = [],
     pi_on_chain = [\<lparr>coin_id = ''c'', hm_store_id = ''s'', hm_root = ''r'', hm_epoch = 7, collateral_dig_base_units = 20\<rparr>],
     pi_in_flight = [], pi_current_epoch = 7, pi_requirement = RequirementUnknown NoChainSource, pi_margin_bp = 0,
     pi_dig_balance = None, pi_creates_enabled = False, pi_can_advertise = False, pi_reconcile = None\<rparr>"

theorem reclaims_never_withheld_witness:
  "\<lparr>coin_id = ''c'', hm_store_id = ''s'', hm_root = ''r'', hm_epoch = 7, collateral_dig_base_units = 20\<rparr>
     \<in> fst ` set (pd_reclaim (pass_decide (\<lambda>required bp. required) sample_pass))"
  using reclaims_never_withheld [of "\<lambda>required bp. required" sample_pass] by (simp add: sample_pass_def)

text \<open>
  no create is unpaid for or unwanted. A pass creates only while the switch is on, the node can
  advertise, the price is known and positive and the balance was read; what it creates is a prefix of the
  plan without duplicates - bonds held for the node itself, never one it only relays, never one with a
  current coin or a create in flight - and costs no more than the balance. It stops early only when the
  balance does not cover one more, and then reports the cost of all that is left.
\<close>
theorem creates_are_paid:
  assumes "pd_create (pass_decide margin i) \<noteq> []"
  shows "\<exists>required balance price.
      pi_creates_enabled i \<and> pi_can_advertise i
    \<and> pi_requirement i = RequirementKnown required \<and> price = margin required (pi_margin_bp i) \<and> 0 < price
    \<and> pi_dig_balance i = Some balance
    \<and> length (pd_create (pass_decide margin i)) * price \<le> balance
    \<and> distinct (pd_create (pass_decide margin i))
    \<and> (\<forall>b \<in> set (pd_create (pass_decide margin i)). b \<in> set (pi_held i) \<and> b \<notin> set (pi_in_flight i)
         \<and> (\<forall>c \<in> set (pi_on_chain i). \<not> covers (pi_current_epoch i) c b))
    \<and> (\<forall>left. mp_create (pass_plan i) = pd_create (pass_decide margin i) @ left \<and> left \<noteq> [] \<longrightarrow>
         balance < (length (pd_create (pass_decide margin i)) + 1) * price
         \<and> pd_funding_shortfall (pass_decide margin i) = Some (u64_sat_mul (length left) price))"
proof -
  have "\<not> (\<not> pi_can_advertise i \<or> pi_dig_balance i = None \<or> (\<exists>r. pi_requirement i = RequirementUnknown r))"
    using assms pass_create_none [of i margin] by argo
  then have adv: "pi_can_advertise i" and bal: "pi_dig_balance i \<noteq> None"
      and req: "\<nexists>r. pi_requirement i = RequirementUnknown r" by auto
  from req obtain required where r: "pi_requirement i = RequirementKnown required"
    by (metis collateral_requirement.exhaust)
  from bal obtain balance where b: "pi_dig_balance i = Some balance" by auto
  define price where "price = margin required (pi_margin_bp i)"
  define sp where "sp = split_by_funds (mp_create (pass_plan i)) balance price"
  have cr: "pd_create (pass_decide margin i) = fs_affordable sp"
    using adv r b by (simp add: pass_create_priced sp_def price_def)
  have parts: "fs_affordable sp @ fs_short sp = mp_create (pass_plan i)"
    by (simp add: sp_def split_by_funds_parts)
  have pos: "0 < price"
    using assms cr by (auto simp: sp_def split_by_funds_def Let_def split: if_splits)
  have on: "pi_creates_enabled i"
    using assms pass_create_off by blast
  have short: "pd_funding_shortfall (pass_decide margin i)
      = (if fs_short sp \<noteq> [] then Some (fs_shortfall_dig_base_units sp) else None)"
    using adv r b pos by (auto simp: pass_decide_def Let_def is_funded_def sp_def price_def)
  have sub: "set (fs_affordable sp) \<subseteq> set (mp_create (pass_plan i))" "distinct (fs_affordable sp)"
    using parts [symmetric] plan_create_order(2) [of _ "pi_on_chain i"] by (auto, metis distinct_append)
  have cost: "length (fs_affordable sp) * price \<le> balance"
    by (simp add: sp_def split_by_funds_cost)
  have "balance < (length (fs_affordable sp) + 1) * price
      \<and> pd_funding_shortfall (pass_decide margin i) = Some (u64_sat_mul (length left) price)"
    if "mp_create (pass_plan i) = fs_affordable sp @ left" "left \<noteq> []" for left
  proof -
    have l: "fs_short sp = left" using parts that(1) by simp
    then have "fs_shortfall_dig_base_units sp = u64_sat_mul (length left) price"
      using split_by_funds_shortfall by (simp add: sp_def)
    moreover have "balance < (length (fs_affordable sp) + 1) * price"
      using l that(2) pos unfolding sp_def by (intro split_by_funds_maximal) simp_all
    ultimately show ?thesis using l that(2) short by simp
  qed
  with adv r b on pos cost sub show ?thesis
    unfolding cr by (intro exI [of _ required] exI [of _ balance] exI [of _ price]) (auto simp: price_def plan_create_iff)
qed

definition sample_paid :: pass_inputs where
  "sample_paid = sample_pass\<lparr>pi_held := [\<lparr>store_id = ''t'', root_hash = ''r''\<rparr>, \<lparr>store_id = ''s'', root_hash = ''r''\<rparr>],
     pi_on_chain := [], pi_requirement := RequirementKnown 10, pi_dig_balance := Some 15,
     pi_creates_enabled := True, pi_can_advertise := True\<rparr>"

lemma sample_paid_plan:
  "mp_create (pass_plan sample_paid) = [\<lparr>store_id = ''s'', root_hash = ''r''\<rparr>, \<lparr>store_id = ''t'', root_hash = ''r''\<rparr>]"
  by (simp add: sample_paid_def sample_pass_def plan_def less_eq_bond_ext_def bond_key_def)

lemma sample_paid_create:
  "pd_create (pass_decide (\<lambda>required bp. required) sample_paid) = [\<lparr>store_id = ''s'', root_hash = ''r''\<rparr>]"
proof -
  have "pd_create (pass_decide (\<lambda>required bp. required) sample_paid)
      = fs_affordable (split_by_funds (mp_create (pass_plan sample_paid)) 15 10)"
    by (subst pass_create_priced [where required = 10 and balance = 15])
      (simp_all add: sample_paid_def sample_pass_def)
  then show ?thesis unfolding sample_paid_plan by (simp add: split_by_funds_def)
qed

theorem creates_are_paid_witness:
  "pd_create (pass_decide (\<lambda>required bp. required) sample_paid) \<noteq> []
   \<and> pd_funding_shortfall (pass_decide (\<lambda>required bp. required) sample_paid) = Some (u64_sat_mul 1 10)"
proof -
  have ne: "pd_create (pass_decide (\<lambda>required bp. required) sample_paid) \<noteq> []"
    by (simp add: sample_paid_create)
  from creates_are_paid [OF ne] obtain required where
    "pi_requirement sample_paid = RequirementKnown required"
    "\<forall>left. mp_create (pass_plan sample_paid) = pd_create (pass_decide (\<lambda>required bp. required) sample_paid) @ left
       \<and> left \<noteq> [] \<longrightarrow> pd_funding_shortfall (pass_decide (\<lambda>required bp. required) sample_paid)
         = Some (u64_sat_mul (length left) required)"
    by blast
  then have "pd_funding_shortfall (pass_decide (\<lambda>required bp. required) sample_paid) = Some (u64_sat_mul 1 10)"
    using sample_paid_plan sample_paid_create by (simp add: sample_paid_def sample_pass_def)
  with ne show ?thesis by simp
qed

section \<open>The states\<close>

lemma dedup_keys: "map fst (dedup_by_key xs) = remdups_adj (map fst xs)"
  by (induction xs rule: dedup_by_key.induct) auto

lemma dedup_map_of: "map_of (dedup_by_key xs) = map_of xs"
  by (induction xs rule: dedup_by_key.induct) (auto simp: fun_upd_def split: if_splits)

text \<open>A stable sort by key keeps, for every key, the first of its values.\<close>

lemma map_of_filter_hd:
  "map_of xs k = (case filter (\<lambda>x. fst x = k) xs of [] \<Rightarrow> None | p # _ \<Rightarrow> Some (snd p))"
  by (induction xs) auto

lemma map_of_sort_key_fst: "map_of (sort_key fst xs) = map_of xs"
proof
  fix k
  show "map_of (sort_key fst xs) k = map_of xs k"
    unfolding map_of_filter_hd [of "sort_key fst xs"] map_of_filter_hd [of xs]
    by (simp add: sort_key_stable)
qed

lemma pick_coin_Some:
  "pick_coin reclaim cs g = (g', Some c) \<Longrightarrow> c \<in> set cs \<and> coin_id c \<notin> (\<lambda>x. coin_id (fst x)) ` set reclaim"
  by (induction cs arbitrary: g) (auto simp: list_ex_iff split: if_splits)

lemma pick_coin_None:
  "pick_coin reclaim cs g = (g', None) \<Longrightarrow>
     (\<forall>c \<in> set cs. coin_id c \<in> (\<lambda>x. coin_id (fst x)) ` set reclaim)
     \<and> (case g of Some x \<Rightarrow> g' = Some x | None \<Rightarrow> (case g' of None \<Rightarrow> cs = [] | Some x \<Rightarrow> x \<in> set cs))"
  by (induction cs arbitrary: g) (force simp: list_ex_iff split: if_splits option.splits)+

text \<open>What each state asserts of the decision it is reported with.\<close>

fun state_holds :: "pass_inputs \<Rightarrow> pass_decision \<Rightarrow> bond \<Rightarrow> bond_state \<Rightarrow> bool" where
  "state_holds i d b (Bonded cid ep amount) \<longleftrightarrow>
     (\<exists>c \<in> set (pi_on_chain i). covers (pi_current_epoch i) c b \<and> coin_id c = cid \<and> hm_epoch c = ep
        \<and> collateral_dig_base_units c = amount \<and> cid \<notin> (\<lambda>x. coin_id (fst x)) ` set (pd_reclaim d))"
| "state_holds i d b (Reclaiming cid ep amount) \<longleftrightarrow>
     (\<exists>c \<in> set (pi_on_chain i). covers (pi_current_epoch i) c b \<and> coin_id c = cid \<and> hm_epoch c = ep
        \<and> collateral_dig_base_units c = amount)
     \<and> (\<forall>c \<in> set (pi_on_chain i). covers (pi_current_epoch i) c b \<longrightarrow>
          coin_id c \<in> (\<lambda>x. coin_id (fst x)) ` set (pd_reclaim d))"
| "state_holds i d b Withheld \<longleftrightarrow> b \<in> set (pi_relayed i)"
| "state_holds i d b Disabled \<longleftrightarrow>
     \<not> pi_creates_enabled i \<and> (\<forall>c \<in> set (pi_on_chain i). \<not> covers (pi_current_epoch i) c b)"
| "state_holds i d b Unadvertised \<longleftrightarrow>
     pi_creates_enabled i \<and> \<not> pi_can_advertise i \<and> (\<forall>c \<in> set (pi_on_chain i). \<not> covers (pi_current_epoch i) c b)"
| "state_holds i d b Pending \<longleftrightarrow> b \<in> set (pi_in_flight i) \<or> b \<in> set (pd_create d)"
| "state_holds i d b (Unfunded short) \<longleftrightarrow>
     pd_per_coin d = Some short \<and> b \<in> set (mp_create (pass_plan i)) \<and> b \<notin> set (pd_create d)
     \<and> (\<exists>balance. pi_dig_balance i = Some balance \<and> (short = 0 \<or> balance < (length (pd_create d) + 1) * short))"
| "state_holds i d b FundsUnknown \<longleftrightarrow> pi_dig_balance i = None"
| "state_holds i d b (Deferred reason) \<longleftrightarrow> pi_requirement i = RequirementUnknown reason \<and> pi_dig_balance i \<noteq> None"

lemma pass_states:
  "\<exists>affordable split. pd_states (pass_decide margin i)
       = bond_states i affordable split (pd_per_coin (pass_decide margin i)) (pd_reclaim (pass_decide margin i))
     \<and> affordable = pd_create (pass_decide margin i)
     \<and> split = (case (pd_per_coin (pass_decide margin i), pi_dig_balance i) of
         (Some price, Some balance) \<Rightarrow>
           if pi_can_advertise i then Some (split_by_funds (mp_create (pass_plan i)) balance price) else None
       | _ \<Rightarrow> None)"
  by (simp add: pass_decide_def Let_def split: option.splits)

lemma covers_iff:
  fixes b :: bond
  shows "covers ep c b \<longleftrightarrow> hm_epoch c = ep \<and> hm_store_id c = store_id b \<and> hm_root c = root_hash b"
  by (cases b) (auto simp: covers_def bond_of_def)

lemma bond_state_holds:
  fixes margin
  assumes held: "b \<in> set (pi_held i)"
  defines "d \<equiv> pass_decide margin i"
  assumes split: "split = (case (pd_per_coin d, pi_dig_balance i) of
      (Some price, Some balance) \<Rightarrow>
        if pi_can_advertise i then Some (split_by_funds (mp_create (pass_plan i)) balance price) else None
    | _ \<Rightarrow> None)"
  shows "state_holds i d b (bond_state_of i (pd_create d) split (pd_per_coin d) (pd_reclaim d) b)"
proof -
  let ?cur = "filter (\<lambda>c. hm_epoch c = pi_current_epoch i \<and> hm_store_id c = store_id b \<and> hm_root c = root_hash b)
      (pi_on_chain i)"
  have cur: "c \<in> set ?cur \<longleftrightarrow> c \<in> set (pi_on_chain i) \<and> covers (pi_current_epoch i) c b" for c
    by (auto simp: covers_iff)
  obtain g coin where pk: "pick_coin (pd_reclaim d) ?cur None = (g, coin)" by (cases "pick_coin (pd_reclaim d) ?cur None")
  show ?thesis
  proof (cases coin)
    case (Some c)
    with pick_coin_Some [of "pd_reclaim d" ?cur None g c] pk cur have
      "c \<in> set (pi_on_chain i) \<and> covers (pi_current_epoch i) c b"
      "coin_id c \<notin> (\<lambda>x. coin_id (fst x)) ` set (pd_reclaim d)" by blast+
    with Some pk show ?thesis by (auto simp: bond_state_of_def Let_def)
  next
    case None
    note pn = pick_coin_None [OF pk [unfolded None]]
    show ?thesis
    proof (cases g)
      case (Some c)
      with pn have "c \<in> set ?cur" by simp
      with cur have "c \<in> set (pi_on_chain i) \<and> covers (pi_current_epoch i) c b" by blast
      moreover have "coin_id c' \<in> (\<lambda>x. coin_id (fst x)) ` set (pd_reclaim d)"
        if "c' \<in> set (pi_on_chain i)" "covers (pi_current_epoch i) c' b" for c'
        using pn that cur by blast
      moreover have "bond_state_of i (pd_create d) split (pd_per_coin d) (pd_reclaim d) b
          = Reclaiming (coin_id c) (hm_epoch c) (collateral_dig_base_units c)"
        using pk None Some by (simp add: bond_state_of_def Let_def)
      ultimately show ?thesis by auto
    next
      case g: None
      with pn have empty: "?cur = []" by simp
      then have nocov: "\<forall>c \<in> set (pi_on_chain i). \<not> covers (pi_current_epoch i) c b"
        using cur by (metis empty_iff empty_set)
      have planned: "b \<in> set (mp_create (pass_plan i))"
        if "pi_creates_enabled i" "b \<notin> set (pi_in_flight i)"
        using that held nocov by (simp add: plan_create_iff)
      have st: "bond_state_of i (pd_create d) split (pd_per_coin d) (pd_reclaim d) b =
         (if \<not> pi_creates_enabled i then Disabled
          else if \<not> pi_can_advertise i then Unadvertised
          else if b \<in> set (pi_in_flight i) then Pending
          else case (pd_per_coin d, split) of
             (Some price, Some sp) \<Rightarrow>
               if b \<in> set (pd_create d) then Pending
               else if b \<in> set (fs_short sp) then Unfunded price
               else Pending
           | _ \<Rightarrow> if pi_dig_balance i = None then FundsUnknown
                  else Deferred (unknown_reason (pi_requirement i)))"
        using pk None g by (simp add: bond_state_of_def Let_def)
      show ?thesis
      proof (cases "pi_creates_enabled i \<and> pi_can_advertise i \<and> b \<notin> set (pi_in_flight i)")
        case False
        with nocov show ?thesis by (auto simp: st)
      next
        case True
        show ?thesis
        proof (cases "pi_requirement i")
          case (RequirementUnknown r)
          then have "pd_per_coin d = None" by (simp add: d_def pass_per_coin)
          with True RequirementUnknown show ?thesis unfolding st by simp
        next
          case (RequirementKnown required)
          define price where "price = margin required (pi_margin_bp i)"
          have price: "pd_per_coin d = Some price" using RequirementKnown by (simp add: d_def pass_per_coin price_def)
          show ?thesis
          proof (cases "pi_dig_balance i")
            case None
            with True price show ?thesis unfolding st by (simp add: split)
          next
            case (Some balance)
            define sp where "sp = split_by_funds (mp_create (pass_plan i)) balance price"
            have sp: "split = Some sp" using True price Some by (simp add: split sp_def)
            have cr: "pd_create d = fs_affordable sp"
              using True RequirementKnown Some by (simp add: d_def pass_create_priced sp_def price_def)
            have parts: "b \<in> set (fs_affordable sp) \<or> b \<in> set (fs_short sp)"
              using planned True split_by_funds_parts [of "mp_create (pass_plan i)" balance price]
              unfolding sp_def by (metis Un_iff set_append)
            have "price = 0 \<or> balance < (length (pd_create d) + 1) * price" if "b \<in> set (fs_short sp)"
              using that split_by_funds_maximal [of "mp_create (pass_plan i)" balance price]
              unfolding cr sp_def by fastforce
            with True price Some sp cr parts planned show ?thesis unfolding st by auto
          qed
        qed
      qed
    qed
  qed
qed

lemma map_of_tabulate: "map_of (map (\<lambda>x. (x, g x)) xs) x = (if x \<in> set xs then Some (g x) else None)"
  by (induction xs) auto

text \<open>
  what the node says about its bonds is true and complete. The decision holds exactly one state for
  every bond it serves, in order; a bond it only relays is withheld; every other state asserts what the
  decision did: a bonded coin is on chain, of this epoch and not on its way home; every coin of a
  reclaiming bond is; disabled, unadvertised and unfunded are the switch, the missing address and the
  money, in that order of precedence; an unread balance or an unknown price is never reported as a
  shortfall; and a pending bond has a create in flight or in this very decision.
\<close>
theorem states_truthful:
  fixes margin i
  defines "d \<equiv> pass_decide margin i"
  shows "sorted_wrt (<) (map fst (pd_states d))
    \<and> fst ` set (pd_states d) = set (pi_relayed i) \<union> set (pi_held i)
    \<and> (\<forall>(b, st) \<in> set (pd_states d). state_holds i d b st \<and> (b \<in> set (pi_relayed i) \<longrightarrow> st = Withheld))"
proof -
  obtain affordable split where ps: "pd_states d = bond_states i affordable split (pd_per_coin d) (pd_reclaim d)"
      "affordable = pd_create d"
    and sp: "split = (case (pd_per_coin d, pi_dig_balance i) of
         (Some price, Some balance) \<Rightarrow>
           if pi_can_advertise i then Some (split_by_funds (mp_create (pass_plan i)) balance price) else None
       | _ \<Rightarrow> None)"
    using pass_states [of margin i] unfolding d_def by blast
  define f where "f = bond_state_of i (pd_create d) split (pd_per_coin d) (pd_reclaim d)"
  define rows where "rows = map (\<lambda>b. (b, Withheld)) (pi_relayed i) @ map (\<lambda>b. (b, f b)) (pi_held i)"
  have st: "pd_states d = dedup_by_key (sort_key fst rows)"
    by (simp add: ps bond_states_def rows_def f_def)
  have keys: "map fst (pd_states d) = remdups_adj (map fst (sort_key fst rows))"
    by (simp add: st dedup_keys)
  have so: "sorted_wrt (<) (map fst (pd_states d))"
    unfolding keys by (simp add: strict_sorted_iff distinct_remdups_adj_sorted)
  have "set (map fst (pd_states d)) = set (pi_relayed i) \<union> set (pi_held i)"
    unfolding keys by (force simp: rows_def)
  moreover have "state_holds i d b s \<and> (b \<in> set (pi_relayed i) \<longrightarrow> s = Withheld)" if "(b, s) \<in> set (pd_states d)" for b s
  proof -
    have "map_of (pd_states d) b = Some s"
      using that so by (simp add: strict_sorted_iff)
    then have "map_of rows b = Some s" by (simp add: st dedup_map_of map_of_sort_key_fst)
    then have "if b \<in> set (pi_relayed i) then s = Withheld else b \<in> set (pi_held i) \<and> s = f b"
      by (auto simp: rows_def map_add_def map_of_tabulate split: if_splits)
    with bond_state_holds [of b i split margin, folded d_def, OF _ sp] show ?thesis
      by (auto simp: f_def split: if_splits)
  qed
  ultimately show ?thesis using so by auto
qed

theorem states_truthful_witness:
  "\<exists>s. (\<lparr>store_id = ''s'', root_hash = ''r''\<rparr>, s) \<in> set (pd_states (pass_decide (\<lambda>required bp. required) sample_paid))
     \<and> state_holds sample_paid (pass_decide (\<lambda>required bp. required) sample_paid) \<lparr>store_id = ''s'', root_hash = ''r''\<rparr> s"
proof -
  let ?b = "\<lparr>store_id = ''s'', root_hash = ''r''\<rparr> :: bond"
  note t = states_truthful [of "\<lambda>required bp. required" sample_paid]
  have "?b \<in> fst ` set (pd_states (pass_decide (\<lambda>required bp. required) sample_paid))"
    using t by (simp add: sample_paid_def sample_pass_def)
  then obtain s where "(?b, s) \<in> set (pd_states (pass_decide (\<lambda>required bp. required) sample_paid))" by auto
  with t show ?thesis by blast
qed

end
