(* ===== verification/Mirror_Presence.thy ===== *)
theory Mirror_Presence
  imports Mirror_Plan
begin

text \<open>
  The debounce of the disk (\<open>mirror/presence.rs\<close>): a capsule counts as held once it has been seen in every
  scan for a settling window. The tracker is a \<open>BTreeMap\<close>, a list in key order.
\<close>

definition SETTLING_WINDOW_MS :: nat where "SETTLING_WINDOW_MS = 30000"

record presence =
  pr_present :: bool
  pr_since_ms :: nat

type_synonym presence_tracker = "(bond \<times> presence) list"

definition tracker_new :: presence_tracker where "tracker_new = []"

fun note_present :: "nat \<Rightarrow> bond list \<Rightarrow> presence_tracker \<Rightarrow> presence_tracker" where
  "note_present now [] seen = seen"
| "note_present now (b # bs) seen =
     note_present now bs
       (case map_of seen b of
          Some p \<Rightarrow> if pr_present p then seen else bt_insert b \<lparr>pr_present = True, pr_since_ms = now\<rparr> seen
        | None \<Rightarrow> bt_insert b \<lparr>pr_present = True, pr_since_ms = now\<rparr> seen)"

fun note_vanished :: "nat \<Rightarrow> bond list \<Rightarrow> presence_tracker \<Rightarrow> presence_tracker" where
  "note_vanished now [] seen = seen"
| "note_vanished now (b # bs) seen =
     note_vanished now bs (bt_insert b \<lparr>pr_present = False, pr_since_ms = now\<rparr> seen)"

definition observe :: "bond list \<Rightarrow> nat \<Rightarrow> nat \<Rightarrow> presence_tracker \<Rightarrow> bond list \<times> presence_tracker" where
  "observe on_disk now window seen =
     (let seen1 = note_present now on_disk seen;
          vanished = map fst (filter (\<lambda>(b, p). pr_present p \<and> b \<notin> set on_disk) seen1);
          seen2 = note_vanished now vanished seen1;
          settled = map fst (filter (\<lambda>(b, p). pr_present p \<and> now - pr_since_ms p \<ge> window) seen2);
          seen3 = filter (\<lambda>(b, p). pr_present p \<or> now - pr_since_ms p < window) seen2
      in (settled, seen3))"

section \<open>What the tracker knows\<close>

text \<open>
  The reference: over a history of scans, newest first, the instant at which the unbroken run of scans
  that show a bond began.
\<close>

fun since_of :: "(bond list \<times> nat) list \<Rightarrow> bond \<Rightarrow> nat option" where
  "since_of [] b = None"
| "since_of ((disk, now) # h) b =
     (if b \<in> set disk then (case since_of h b of Some s \<Rightarrow> Some s | None \<Rightarrow> Some now) else None)"

definition present_at :: "presence_tracker \<Rightarrow> bond \<Rightarrow> nat option" where
  "present_at seen b = (case map_of seen b of Some p \<Rightarrow> if pr_present p then Some (pr_since_ms p) else None | None \<Rightarrow> None)"

fun tracked :: "nat \<Rightarrow> (bond list \<times> nat) list \<Rightarrow> presence_tracker" where
  "tracked window [] = tracker_new"
| "tracked window ((disk, now) # h) = snd (observe disk now window (tracked window h))"

lemma note_present_spec:
  "bt_ok seen \<Longrightarrow> bt_ok (note_present now bs seen)
     \<and> present_at (note_present now bs seen) b
       = (if b \<in> set bs then (case present_at seen b of Some s \<Rightarrow> Some s | None \<Rightarrow> Some now) else present_at seen b)"
proof (induction bs arbitrary: seen)
  case (Cons c bs)
  let ?seen = "case map_of seen c of
          Some p \<Rightarrow> if pr_present p then seen else bt_insert c \<lparr>pr_present = True, pr_since_ms = now\<rparr> seen
        | None \<Rightarrow> bt_insert c \<lparr>pr_present = True, pr_since_ms = now\<rparr> seen"
  have ok: "bt_ok ?seen" using Cons.prems by (simp add: bt_ok_insert split: option.splits)
  have "present_at ?seen b = (if b = c then (case present_at seen b of Some s \<Rightarrow> Some s | None \<Rightarrow> Some now) else present_at seen b)"
    using Cons.prems by (auto simp: present_at_def map_of_bt_insert split: option.splits)
  with Cons.IH [OF ok] show ?case by (auto split: option.splits)
qed simp

lemma note_vanished_spec:
  "bt_ok seen \<Longrightarrow> bt_ok (note_vanished now bs seen)
     \<and> map_of (note_vanished now bs seen) b
       = (if b \<in> set bs then Some \<lparr>pr_present = False, pr_since_ms = now\<rparr> else map_of seen b)"
  by (induction bs arbitrary: seen) (auto simp: map_of_bt_insert bt_ok_insert)

lemma bt_ok_in_set: "bt_ok m \<Longrightarrow> (k, v) \<in> set m \<longleftrightarrow> map_of m k = Some v"
  using hm_in_set_iff [OF bt_ok_hm_ok] .

lemma observe_spec:
  fixes disk :: "bond list" and seen :: presence_tracker and now window :: nat
  assumes "bt_ok seen"
  defines "since \<equiv> \<lambda>b. if b \<in> set disk then (case present_at seen b of Some s \<Rightarrow> Some s | None \<Rightarrow> Some now) else None"
  shows "bt_ok (snd (observe disk now window seen))" "present_at (snd (observe disk now window seen)) = since"
    "set (fst (observe disk now window seen)) = {b. \<exists>s. since b = Some s \<and> window \<le> now - s}"
    "sorted (fst (observe disk now window seen))" "distinct (fst (observe disk now window seen))"
proof -
  define seen1 where "seen1 = note_present now disk seen"
  define vanished where "vanished = map fst (filter (\<lambda>(b, p). pr_present p \<and> b \<notin> set disk) seen1)"
  define seen2 where "seen2 = note_vanished now vanished seen1"
  have ok1: "bt_ok seen1" and p1: "present_at seen1 b = (if b \<in> set disk then since b else present_at seen b)" for b
    using note_present_spec [OF assms(1)] by (auto simp: seen1_def since_def)
  have ok2: "bt_ok seen2" using note_vanished_spec [OF ok1] by (simp add: seen2_def)
  have v: "b \<in> set vanished \<longleftrightarrow> b \<notin> set disk \<and> present_at seen1 b \<noteq> None" for b
    using bt_ok_in_set [OF ok1] by (force simp: vanished_def present_at_def split: option.splits)
  have p2: "present_at seen2 b = since b" for b
  proof (cases "b \<in> set disk")
    case True
    then have "map_of seen2 b = map_of seen1 b" using note_vanished_spec [OF ok1] v by (simp add: seen2_def)
    with True p1 [of b] show ?thesis by (simp add: present_at_def)
  next
    case False
    then have "since b = None" by (simp add: since_def)
    moreover have "present_at seen2 b = None"
      using False v [of b] note_vanished_spec [OF ok1, of now vanished b]
      by (auto simp: present_at_def seen2_def split: option.splits)
    ultimately show ?thesis by simp
  qed
  have out: "observe disk now window seen
      = (map fst (filter (\<lambda>(b, p). pr_present p \<and> now - pr_since_ms p \<ge> window) seen2),
         filter (\<lambda>(b, p). pr_present p \<or> now - pr_since_ms p < window) seen2)"
    by (simp add: observe_def Let_def seen1_def seen2_def vanished_def)
  show "bt_ok (snd (observe disk now window seen))" by (simp add: out bt_ok_filter ok2)
  show "present_at (snd (observe disk now window seen)) = since"
  proof
    fix b
    have "map_of (filter (\<lambda>(b, p). pr_present p \<or> now - pr_since_ms p < window) seen2) b
        = (case map_of seen2 b of Some p \<Rightarrow> if pr_present p \<or> now - pr_since_ms p < window then Some p else None | None \<Rightarrow> None)"
      by (simp add: map_of_filter_keyed [OF bt_ok_hm_ok [OF ok2]] split: option.splits)
    then show "present_at (snd (observe disk now window seen)) b = since b"
      using p2 [of b] by (auto simp: out present_at_def split: option.splits if_splits)
  qed
  show "set (fst (observe disk now window seen)) = {b. \<exists>s. since b = Some s \<and> window \<le> now - s}"
  proof (rule set_eqI)
    fix b
    have "b \<in> set (fst (observe disk now window seen))
        \<longleftrightarrow> (\<exists>p. (b, p) \<in> set seen2 \<and> pr_present p \<and> window \<le> now - pr_since_ms p)"
      by (auto simp: out image_iff)
    also have "\<dots> \<longleftrightarrow> (\<exists>p. map_of seen2 b = Some p \<and> pr_present p \<and> window \<le> now - pr_since_ms p)"
      by (simp only: bt_ok_in_set [OF ok2])
    also have "\<dots> \<longleftrightarrow> (\<exists>s. present_at seen2 b = Some s \<and> window \<le> now - s)"
      by (auto simp: present_at_def split: option.splits)
    finally show "b \<in> set (fst (observe disk now window seen)) \<longleftrightarrow> b \<in> {b. \<exists>s. since b = Some s \<and> window \<le> now - s}"
      by (simp add: p2)
  qed
  show "sorted (fst (observe disk now window seen))" "distinct (fst (observe disk now window seen))"
    using bt_ok_filter [OF ok2] by (simp_all add: out bt_ok_def strict_sorted_iff)
qed

lemma tracked_spec: "bt_ok (tracked window h) \<and> present_at (tracked window h) = since_of h"
proof (induction h)
  case Nil
  then show ?case by (simp add: tracker_new_def bt_ok_def present_at_def fun_eq_iff)
next
  case (Cons x h)
  obtain disk now where x: "x = (disk, now)" by (metis prod.exhaust)
  from Cons have "bt_ok (tracked window h)" "present_at (tracked window h) = since_of h" by simp_all
  with observe_spec(1,2) [OF this(1), of disk now window] show ?case by (simp add: x fun_eq_iff)
qed

section \<open>Properties\<close>

text \<open>
  the tracker is the debounce it stands for. Whatever was scanned before, a scan returns, in order and
  once each, exactly the bonds that every scan of an unbroken run up to this one has shown, the run having
  begun at least the window ago. What was forgotten on the way makes no difference.
\<close>
theorem presence_settles:
  "set (fst (observe disk now window (tracked window h)))
     = {b. \<exists>s. since_of ((disk, now) # h) b = Some s \<and> window \<le> now - s}
   \<and> sorted (fst (observe disk now window (tracked window h))) \<and> distinct (fst (observe disk now window (tracked window h)))"
  using observe_spec(3-5) [of "tracked window h" disk now window] tracked_spec [of window h] by (auto split: option.splits)

lemma observe_fresh: "0 < window \<Longrightarrow> fst (observe disk now window tracker_new) = []"
  using observe_spec(3) [of tracker_new disk now window]
  by (auto simp: tracker_new_def bt_ok_def present_at_def split: if_splits)

lemma observe_held: "set (fst (observe disk now window (tracked window h))) \<subseteq> set disk"
  using observe_spec(3) [of "tracked window h" disk now window] tracked_spec [of window h] by (auto split: if_splits)

end
