(* ===== verification/Spend_Audit.thy ===== *)
theory Spend_Audit
  imports Prelude
begin

text \<open>
  The record of the money the node moves without asking (\<open>spend_audit.rs\<close>): an append-only file of
  revisions, the ledger folded from it, and the journal that is its only writer.

  \<^item> The file is the list of its lines; a line is blank, unreadable or a record. The JSON codec is not
    modelled: what \<open>append\<close> writes is what \<open>ledger\<close> reads. An append may fail, and the journal goes on.
  \<^item> A record repeats the fields of the intent it was begun with; they are kept together in \<open>sr_intent\<close>.
  \<^item> \<open>revision += 1\<close> is on a \<open>u32\<close> that counts the writes of one spend; it is a natural here.
  \<^item> The length of a mirror round (\<open>dig-constants\<close>) is a parameter.
\<close>

section \<open>Records\<close>

definition MIRROR_COIN :: string where "MIRROR_COIN = ''mirror-coin''"

datatype asset = Xch | Dig | Cat string

record authority =
  au_principal :: string
  au_grant :: string

datatype failure_stage = Signing | Broadcast | Confirmation

fun money_may_have_moved :: "failure_stage \<Rightarrow> bool" where
  "money_may_have_moved Signing = False"
| "money_may_have_moved Broadcast = True"
| "money_may_have_moved Confirmation = True"

datatype spend_status =
  SPending
| SSubmitted
| SConfirmed nat string
| SFailed failure_stage string
| SUnresolved string

fun may_have_reached_the_network :: "spend_status \<Rightarrow> bool" where
  "may_have_reached_the_network SSubmitted = True"
| "may_have_reached_the_network (SUnresolved _) = True"
| "may_have_reached_the_network (SFailed stage _) = money_may_have_moved stage"
| "may_have_reached_the_network SPending = False"
| "may_have_reached_the_network (SConfirmed _ _) = False"

fun is_terminal :: "spend_status \<Rightarrow> bool" where
  "is_terminal (SConfirmed _ _) = True"
| "is_terminal (SFailed stage _) = (\<not> money_may_have_moved stage)"
| "is_terminal SPending = False"
| "is_terminal SSubmitted = False"
| "is_terminal (SUnresolved _) = False"

fun status_token :: "spend_status \<Rightarrow> string" where
  "status_token SPending = ''pending''"
| "status_token SSubmitted = ''submitted''"
| "status_token (SConfirmed _ _) = ''confirmed''"
| "status_token (SFailed _ _) = ''failed''"
| "status_token (SUnresolved _) = ''unresolved''"

record audited_bond =
  ab_root :: string
  ab_epoch :: int

record spend_intent =
  si_kind :: string
  si_purpose :: string
  si_authority :: authority
  si_asset :: asset
  si_amount_mojos :: nat
  si_fee_mojos :: nat
  si_store_id :: "string option"
  si_bond :: "audited_bond option"
  si_advertised_urls :: "string list"
  si_reclaim_reason :: "string option"
  si_trigger :: "string option"

record spend_record =
  sr_id :: string
  sr_revision :: nat
  sr_intent :: spend_intent
  sr_initiated_ms :: nat
  sr_updated_ms :: nat
  sr_status :: spend_status
  sr_funding_coin_ids :: "string list"
  sr_intended_coin_id :: "string option"

definition chain_reference :: "spend_record \<Rightarrow> (string \<times> bool) option" where
  "chain_reference r =
     (case sr_status r of
        SConfirmed _ c \<Rightarrow> Some (c, True)
      | _ \<Rightarrow> map_option (\<lambda>c. (c, False)) (sr_intended_coin_id r))"

definition FUNDING_RESERVATION_WINDOW_MS :: "nat \<Rightarrow> nat" where
  "FUNDING_RESERVATION_WINDOW_MS round_ms = 2 * round_ms"

definition reserves_funding_at :: "nat \<Rightarrow> nat \<Rightarrow> spend_record \<Rightarrow> bool" where
  "reserves_funding_at round_ms now_ms r \<longleftrightarrow>
     \<not> is_terminal (sr_status r) \<and> now_ms - sr_updated_ms r < FUNDING_RESERVATION_WINDOW_MS round_ms"

section \<open>The log and its ledger\<close>

datatype log_line = Blank | Unreadable | Entry spend_record

datatype log_file = Missing | ReadError | Lines "log_line list"

record spend_ledger =
  sl_records :: "spend_record list"
  sl_unreadable_lines :: nat
  sl_complete :: bool

fun fold_lines :: "log_line list \<Rightarrow> (string \<times> spend_record) list \<Rightarrow> nat \<Rightarrow> (string \<times> spend_record) list \<times> nat" where
  "fold_lines [] newest unreadable = (newest, unreadable)"
| "fold_lines (Blank # ls) newest unreadable = fold_lines ls newest unreadable"
| "fold_lines (Unreadable # ls) newest unreadable = fold_lines ls newest (unreadable + 1)"
| "fold_lines (Entry r # ls) newest unreadable =
     (case map_of newest (sr_id r) of
        Some existing \<Rightarrow>
          if sr_revision existing \<ge> sr_revision r then fold_lines ls newest unreadable
          else fold_lines ls (bt_insert (sr_id r) r newest) unreadable
      | None \<Rightarrow> fold_lines ls (bt_insert (sr_id r) r newest) unreadable)"

definition fold_log :: "log_line list \<Rightarrow> spend_ledger" where
  "fold_log ls =
     (let (newest, unreadable) = fold_lines ls [] 0
      in \<lparr>sl_records = sort_key (\<lambda>r. (- int (sr_initiated_ms r), sr_id r)) (map snd newest),
          sl_unreadable_lines = unreadable, sl_complete = True\<rparr>)"

definition ledger :: "log_file \<Rightarrow> spend_ledger option" where
  "ledger f =
     (case f of
        Missing \<Rightarrow> Some \<lparr>sl_records = [], sl_unreadable_lines = 0, sl_complete = True\<rparr>
      | ReadError \<Rightarrow> None
      | Lines ls \<Rightarrow> Some (fold_log ls))"

definition committed_funding_coin_ids :: "nat \<Rightarrow> log_file \<Rightarrow> nat \<Rightarrow> string list option" where
  "committed_funding_coin_ids round_ms f now_ms =
     (case ledger f of
        None \<Rightarrow> None
      | Some l \<Rightarrow>
          if sl_unreadable_lines l > 0 then None
          else Some (concat (map sr_funding_coin_ids (filter (reserves_funding_at round_ms now_ms) (sl_records l)))))"

record spend_query =
  sq_since_ms :: "nat option"
  sq_until_ms :: "nat option"
  sq_store_id :: "string option"
  sq_kind :: "string option"
  sq_status :: "string option"
  sq_after_id :: "string option"
  sq_limit :: "nat option"

definition query_matches :: "spend_query \<Rightarrow> spend_record \<Rightarrow> bool" where
  "query_matches q r =
     (if (case sq_since_ms q of Some t \<Rightarrow> sr_initiated_ms r < t | None \<Rightarrow> False) then False
      else if (case sq_until_ms q of Some t \<Rightarrow> sr_initiated_ms r \<ge> t | None \<Rightarrow> False) then False
      else if (case sq_store_id q of Some s \<Rightarrow> si_store_id (sr_intent r) \<noteq> Some s | None \<Rightarrow> False) then False
      else if (case sq_kind q of Some k \<Rightarrow> si_kind (sr_intent r) \<noteq> k | None \<Rightarrow> False) then False
      else if (case sq_status q of Some s \<Rightarrow> status_token (sr_status r) \<noteq> s | None \<Rightarrow> False) then False
      else True)"

datatype query_error = QueryIo | UnknownCursor string

definition query :: "spend_query \<Rightarrow> log_file \<Rightarrow> query_error + spend_ledger" where
  "query q f =
     (case ledger f of
        None \<Rightarrow> Inl QueryIo
      | Some l \<Rightarrow>
          let matching = filter (query_matches q) (sl_records l);
              resumed =
                (case sq_after_id q of
                   None \<Rightarrow> Inr matching
                 | Some after \<Rightarrow>
                     if \<exists>r \<in> set matching. sr_id r = after
                     then Inr (tl (dropWhile (\<lambda>r. sr_id r \<noteq> after) matching))
                     else Inl (UnknownCursor after))
          in case resumed of
               Inl e \<Rightarrow> Inl e
             | Inr rows \<Rightarrow>
                 (case sq_limit q of
                    None \<Rightarrow> Inr (l\<lparr>sl_records := rows\<rparr>)
                  | Some n \<Rightarrow> Inr (l\<lparr>sl_records := take n rows, sl_complete := (length rows \<le> n)\<rparr>)))"

definition cursor_of :: "spend_ledger \<Rightarrow> string option" where
  "cursor_of l = (if sl_records l = [] then None else Some (sr_id (last (sl_records l))))"

section \<open>The journal\<close>

record recorded_spend =
  rs_snapshot :: spend_record
  rs_settled :: bool

definition append_line :: "bool \<Rightarrow> spend_record \<Rightarrow> log_line list \<Rightarrow> log_line list" where
  "append_line ok r ls = (if ok then ls @ [Entry r] else ls)"

definition journal_begin ::
  "bool \<Rightarrow> string \<Rightarrow> nat \<Rightarrow> spend_intent \<Rightarrow> log_line list \<Rightarrow> recorded_spend \<times> log_line list"
where
  "journal_begin ok new_id now intent ls =
     (let r = \<lparr>sr_id = new_id, sr_revision = 1, sr_intent = intent, sr_initiated_ms = now,
               sr_updated_ms = now, sr_status = SPending, sr_funding_coin_ids = [],
               sr_intended_coin_id = None\<rparr>
      in (\<lparr>rs_snapshot = r, rs_settled = False\<rparr>, append_line ok r ls))"

definition write_revision ::
  "bool \<Rightarrow> spend_status \<Rightarrow> nat \<Rightarrow> (spend_record \<Rightarrow> spend_record) \<Rightarrow> recorded_spend \<Rightarrow> log_line list
     \<Rightarrow> recorded_spend \<times> log_line list"
where
  "write_revision ok status now mutate h ls =
     (let cur = rs_snapshot h;
          r = mutate (cur\<lparr>sr_revision := sr_revision cur + 1, sr_updated_ms := now, sr_status := status\<rparr>)
      in (h\<lparr>rs_snapshot := r\<rparr>, append_line ok r ls))"

definition journal_submitted ::
  "bool \<Rightarrow> nat \<Rightarrow> string option \<Rightarrow> string list \<Rightarrow> recorded_spend \<Rightarrow> log_line list \<Rightarrow> recorded_spend \<times> log_line list"
where
  "journal_submitted ok now intended funding h ls =
     write_revision ok SSubmitted now
       (\<lambda>r. r\<lparr>sr_funding_coin_ids := funding, sr_intended_coin_id := intended\<rparr>) h ls"

definition journal_confirmed ::
  "bool \<Rightarrow> nat \<Rightarrow> string \<Rightarrow> nat \<Rightarrow> recorded_spend \<Rightarrow> log_line list \<Rightarrow> recorded_spend \<times> log_line list"
where
  "journal_confirmed ok now coin height h ls =
     write_revision ok (SConfirmed height coin) now (\<lambda>r. r\<lparr>sr_intended_coin_id := Some coin\<rparr>)
       (h\<lparr>rs_settled := True\<rparr>) ls"

definition journal_failed ::
  "bool \<Rightarrow> nat \<Rightarrow> failure_stage \<Rightarrow> string \<Rightarrow> recorded_spend \<Rightarrow> log_line list \<Rightarrow> recorded_spend \<times> log_line list"
where
  "journal_failed ok now stage reason h ls =
     write_revision ok (SFailed stage reason) now id (h\<lparr>rs_settled := True\<rparr>) ls"

definition journal_unresolved ::
  "bool \<Rightarrow> nat \<Rightarrow> string \<Rightarrow> recorded_spend \<Rightarrow> log_line list \<Rightarrow> recorded_spend \<times> log_line list"
where
  "journal_unresolved ok now reason h ls =
     write_revision ok (SUnresolved reason) now id (h\<lparr>rs_settled := True\<rparr>) ls"

definition drop_spend :: "bool \<Rightarrow> nat \<Rightarrow> recorded_spend \<Rightarrow> log_line list \<Rightarrow> log_line list" where
  "drop_spend ok now h ls =
     (if rs_settled h then ls
      else snd (write_revision ok (SUnresolved ''the producer ended without recording an outcome'') now id h ls))"

text \<open>The flags say whether the log can be read and whether the append succeeds; \<open>None\<close> is the I/O error.\<close>

datatype resolution = RecordedResolution | NoSuchSpend | NotOpen

definition resolve_landed ::
  "bool \<Rightarrow> bool \<Rightarrow> nat \<Rightarrow> string \<Rightarrow> string \<Rightarrow> nat \<Rightarrow> log_line list \<Rightarrow> resolution option \<times> log_line list"
where
  "resolve_landed readable ok now spend_id coin height ls =
     (if \<not> readable then (None, ls) else
      case find (\<lambda>r. sr_id r = spend_id) (sl_records (fold_log ls)) of
        None \<Rightarrow> (Some NoSuchSpend, ls)
      | Some current \<Rightarrow>
          if \<not> may_have_reached_the_network (sr_status current) then (Some NotOpen, ls)
          else let r = current\<lparr>sr_revision := sr_revision current + 1, sr_updated_ms := now,
                          sr_status := SConfirmed height coin, sr_intended_coin_id := Some coin\<rparr>
               in (if ok then Some RecordedResolution else None, append_line ok r ls))"

section \<open>Reconciliation with the chain\<close>

record reconcile_report =
  rr_agreed :: "string list"
  rr_missing_on_chain :: "string list"
  rr_unrecorded_on_chain :: "string list"
  rr_unresolved :: "string list"

definition report_is_clean :: "reconcile_report \<Rightarrow> bool" where
  "report_is_clean r \<longleftrightarrow> rr_missing_on_chain r = [] \<and> rr_unrecorded_on_chain r = [] \<and> rr_unresolved r = []"

text \<open>The loop over the records: the report so far and the coins accounted for.\<close>

fun reconcile_scan ::
  "string list \<Rightarrow> spend_record list \<Rightarrow> reconcile_report \<Rightarrow> string list \<Rightarrow> reconcile_report \<times> string list"
where
  "reconcile_scan on_chain [] rep accounted = (rep, accounted)"
| "reconcile_scan on_chain (r # rs) rep accounted =
     (let own = (case sr_intended_coin_id r of Some c \<Rightarrow> c # accounted | None \<Rightarrow> accounted) in
      case sr_status r of
        SConfirmed _ c \<Rightarrow>
          reconcile_scan on_chain rs
            (if c \<in> set on_chain then rep\<lparr>rr_agreed := rr_agreed rep @ [c]\<rparr>
             else rep\<lparr>rr_missing_on_chain := rr_missing_on_chain rep @ [c]\<rparr>) (c # accounted)
      | SUnresolved _ \<Rightarrow>
          reconcile_scan on_chain rs (rep\<lparr>rr_unresolved := rr_unresolved rep @ [sr_id r]\<rparr>) own
      | SSubmitted \<Rightarrow> reconcile_scan on_chain rs rep own
      | SFailed stage _ \<Rightarrow>
          if money_may_have_moved stage
          then reconcile_scan on_chain rs (rep\<lparr>rr_unresolved := rr_unresolved rep @ [sr_id r]\<rparr>) own
          else reconcile_scan on_chain rs rep accounted
      | SPending \<Rightarrow> reconcile_scan on_chain rs rep accounted)"

text \<open>\<open>BTreeSet\<close> order of the coins nobody accounts for.\<close>

definition reconcile :: "spend_ledger \<Rightarrow> string list \<Rightarrow> reconcile_report" where
  "reconcile l owned =
     (let (rep, accounted) = reconcile_scan owned (sl_records l)
            \<lparr>rr_agreed = [], rr_missing_on_chain = [], rr_unrecorded_on_chain = [], rr_unresolved = []\<rparr> []
      in rep\<lparr>rr_unrecorded_on_chain := sorted_list_of_set (set owned - set accounted)\<rparr>)"

record local_mirror_bond =
  lb_coin_id :: string
  lb_amount_dig_base_units :: nat
  lb_advertised_urls :: "string list"

fun find_confirmed :: "string \<Rightarrow> string \<Rightarrow> int \<Rightarrow> spend_record list \<Rightarrow> local_mirror_bond option" where
  "find_confirmed store rt epoch [] = None"
| "find_confirmed store rt epoch (r # rs) =
     (case (si_bond (sr_intent r), sr_status r) of
        (Some b, SConfirmed _ coin) \<Rightarrow>
          if si_kind (sr_intent r) = MIRROR_COIN \<and> si_store_id (sr_intent r) = Some store
             \<and> ab_root b = rt \<and> ab_epoch b = epoch
          then Some \<lparr>lb_coin_id = coin, lb_amount_dig_base_units = si_amount_mojos (sr_intent r),
                     lb_advertised_urls = si_advertised_urls (sr_intent r)\<rparr>
          else find_confirmed store rt epoch rs
      | _ \<Rightarrow> find_confirmed store rt epoch rs)"

definition confirmed_mirror_bond :: "spend_ledger \<Rightarrow> string \<Rightarrow> string \<Rightarrow> int \<Rightarrow> local_mirror_bond option" where
  "confirmed_mirror_bond l store rt epoch = find_confirmed store rt epoch (sl_records l)"

section \<open>The current revision of a spend\<close>

definition current :: "log_line list \<Rightarrow> string \<Rightarrow> spend_record option" where
  "current ls i = map_of (fst (fold_lines ls [] 0)) i"

lemma fold_lines_append:
  "fold_lines (xs @ ys) newest u = (let (n, v) = fold_lines xs newest u in fold_lines ys n v)"
  by (induction xs newest u rule: fold_lines.induct) (auto split: option.splits)

definition newest_ok :: "(string \<times> spend_record) list \<Rightarrow> bool" where
  "newest_ok m \<longleftrightarrow> bt_ok m \<and> (\<forall>(k, r) \<in> set m. sr_id r = k)"

lemma newest_ok_insert: "newest_ok m \<Longrightarrow> newest_ok (bt_insert (sr_id r) r m)"
  unfolding newest_ok_def using bt_ok_insert [of m "sr_id r" r] set_bt_insert [of "sr_id r" r m] by fastforce

lemma newest_ok_fold: "newest_ok m \<Longrightarrow> newest_ok (fst (fold_lines ls m u))"
  by (induction ls m u rule: fold_lines.induct) (auto simp: newest_ok_insert split: option.splits)

lemma newest_ok_log: "newest_ok (fst (fold_lines ls [] 0))"
  by (rule newest_ok_fold) (simp add: newest_ok_def bt_ok_def)

lemma current_id: "current ls i = Some r \<Longrightarrow> sr_id r = i"
  using newest_ok_log [of ls] by (auto simp: current_def newest_ok_def dest!: map_of_SomeD)

text \<open>An appended revision counts when it is newer than what the log holds of its spend.\<close>

lemma current_snoc:
  "current (ls @ [Entry r]) =
     (if (case current ls (sr_id r) of Some e \<Rightarrow> sr_revision r \<le> sr_revision e | None \<Rightarrow> False)
      then current ls else (current ls)(sr_id r \<mapsto> r))"
proof
  fix i
  obtain n u where nu: "fold_lines ls [] 0 = (n, u)" by (cases "fold_lines ls [] 0")
  then have "bt_ok n" using newest_ok_log [of ls] by (simp add: newest_ok_def)
  then show "current (ls @ [Entry r]) i =
     (if (case current ls (sr_id r) of Some e \<Rightarrow> sr_revision r \<le> sr_revision e | None \<Rightarrow> False)
      then current ls else (current ls)(sr_id r \<mapsto> r)) i"
    by (auto simp: current_def fold_lines_append nu map_of_bt_insert split: option.splits)
qed

lemma in_records: "r \<in> set (sl_records (fold_log ls)) \<longleftrightarrow> current ls (sr_id r) = Some r"
proof -
  obtain n u where nu: "fold_lines ls [] 0 = (n, u)" by (cases "fold_lines ls [] 0")
  have ok: "newest_ok n" using newest_ok_log [of ls] nu by simp
  have "r \<in> set (sl_records (fold_log ls)) \<longleftrightarrow> (\<exists>k. (k, r) \<in> set n)"
    by (force simp: fold_log_def nu)
  also have "\<dots> \<longleftrightarrow> (sr_id r, r) \<in> set n" using ok by (auto simp: newest_ok_def)
  also have "\<dots> \<longleftrightarrow> map_of n (sr_id r) = Some r"
    using ok by (simp add: newest_ok_def hm_in_set_iff bt_ok_hm_ok)
  finally show ?thesis by (simp add: current_def nu)
qed

lemma find_record: "find (\<lambda>r. sr_id r = i) (sl_records (fold_log ls)) = current ls i"
proof (cases "find (\<lambda>r. sr_id r = i) (sl_records (fold_log ls))")
  case None
  then have "\<forall>r \<in> set (sl_records (fold_log ls)). sr_id r \<noteq> i" by (simp add: find_None_iff)
  then have "current ls i = None" using in_records current_id by (metis not_None_eq)
  with None show ?thesis by simp
next
  case (Some r)
  then have "r \<in> set (sl_records (fold_log ls))" "sr_id r = i" by (auto simp: find_Some_iff)
  with Some show ?thesis by (auto simp: in_records)
qed

text \<open>The revision of the current record bounds every line of its spend.\<close>

lemma current_entry: "current ls i = Some r \<Longrightarrow> Entry r \<in> set ls"
proof (induction ls rule: rev_induct)
  case (snoc l ls)
  show ?case
  proof (cases l)
    case (Entry e)
    with snoc show ?thesis by (auto simp: current_snoc split: if_splits)
  qed (use snoc in \<open>simp_all add: current_def fold_lines_append split_beta\<close>)
qed (simp add: current_def)

lemma current_newer:
  assumes "\<And>e. current ls (sr_id r) = Some e \<Longrightarrow> sr_revision e < sr_revision r"
  shows "current (ls @ [Entry r]) = (current ls)(sr_id r \<mapsto> r)"
  using assms by (force simp: current_snoc split: option.splits)

section \<open>The life of the record\<close>

text \<open>
  Producers, the resolver and crashes at work on one log. \<open>aw_open\<close> holds the handles that exist,
  \<open>aw_used\<close> the ids given out (they do not repeat), \<open>aw_observed\<close> what callers said they saw on chain,
  \<open>aw_lost\<close> whether some append has failed, and \<open>aw_crashed\<close> the spends whose handle was open when the
  process died. A producer may write through its handle as often as it likes, settled or not: the code
  does not check. The resolver takes any id. A handle is dropped, which settles its row, or a crash takes
  all of them, and then nothing is written.
\<close>

record audit_world =
  aw_log :: "log_line list"
  aw_open :: "string \<rightharpoonup> recorded_spend"
  aw_used :: "string set"
  aw_observed :: "(string \<times> string \<times> nat) set"
  aw_lost :: bool
  aw_crashed :: "string set"

definition audit_init :: audit_world where
  "audit_init = \<lparr>aw_log = [], aw_open = Map.empty, aw_used = {}, aw_observed = {}, aw_lost = False,
     aw_crashed = {}\<rparr>"

definition handle_write :: "string \<Rightarrow> bool \<Rightarrow> recorded_spend \<times> log_line list \<Rightarrow> audit_world \<Rightarrow> audit_world" where
  "handle_write i ok res w =
     w\<lparr>aw_log := snd res, aw_open := (aw_open w)(i \<mapsto> fst res), aw_lost := (aw_lost w \<or> \<not> ok)\<rparr>"

datatype audit_act =
  ActBegin string
| ActWrite string
| ActDrop string
| ActResolve string
| ActCrash

inductive audit_step :: "audit_act \<Rightarrow> audit_world \<Rightarrow> audit_world \<Rightarrow> bool" where
  begun: "i \<notin> aw_used w \<Longrightarrow>
    audit_step (ActBegin i) w
      ((handle_write i ok (journal_begin ok i now intent (aw_log w)) w)\<lparr>aw_used := insert i (aw_used w)\<rparr>)"
| submitted: "aw_open w i = Some h \<Longrightarrow>
    audit_step (ActWrite i) w (handle_write i ok (journal_submitted ok now coin funding h (aw_log w)) w)"
| confirmed: "aw_open w i = Some h \<Longrightarrow>
    audit_step (ActWrite i) w ((handle_write i ok (journal_confirmed ok now c height h (aw_log w)) w)
      \<lparr>aw_observed := insert (i, c, height) (aw_observed w)\<rparr>)"
| failed: "aw_open w i = Some h \<Longrightarrow>
    audit_step (ActWrite i) w (handle_write i ok (journal_failed ok now stage reason h (aw_log w)) w)"
| unresolved: "aw_open w i = Some h \<Longrightarrow>
    audit_step (ActWrite i) w (handle_write i ok (journal_unresolved ok now reason h (aw_log w)) w)"
| dropped: "aw_open w i = Some h \<Longrightarrow>
    audit_step (ActDrop i) w (w\<lparr>aw_log := drop_spend ok now h (aw_log w),
      aw_lost := (aw_lost w \<or> \<not> rs_settled h \<and> \<not> ok), aw_open := (aw_open w)(i := None)\<rparr>)"
| resolved:
    "audit_step (ActResolve i) w (w\<lparr>aw_log := snd (resolve_landed readable ok now i c height (aw_log w)),
      aw_observed := insert (i, c, height) (aw_observed w)\<rparr>)"
| crashed:
    "audit_step ActCrash w (w\<lparr>aw_open := Map.empty, aw_crashed := aw_crashed w \<union> dom (aw_open w)\<rparr>)"

inductive audit_reach :: "audit_world \<Rightarrow> bool" where
  init: "audit_reach audit_init"
| step: "audit_reach w \<Longrightarrow> audit_step a w w' \<Longrightarrow> audit_reach w'"

inductive_cases audit_stepE: "audit_step a w w'"

text \<open>
  Only \<open>begin\<close> writes \<open>Pending\<close>, as revision 1, so that every later revision of the spend takes its
  place. As long as no append was lost, every spend has a row, and one that is pending has an open and
  unsettled handle or lost its handle in a crash.
\<close>

definition live_ok :: "audit_world \<Rightarrow> string \<Rightarrow> bool" where
  "live_ok w i \<longleftrightarrow> (\<exists>r. current (aw_log w) i = Some r \<and> (sr_status r = SPending \<longrightarrow>
     (\<forall>h. aw_open w i = Some h \<longrightarrow> \<not> rs_settled h) \<and> (aw_open w i = None \<longrightarrow> i \<in> aw_crashed w)))"

definition entry_ok :: "audit_world \<Rightarrow> spend_record \<Rightarrow> bool" where
  "entry_ok w r \<longleftrightarrow> sr_id r \<in> aw_used w \<and> 1 \<le> sr_revision r \<and> (sr_status r = SPending \<longrightarrow> sr_revision r = 1)
     \<and> (\<forall>height c. sr_status r = SConfirmed height c \<longrightarrow> (sr_id r, c, height) \<in> aw_observed w)"

definition audit_inv :: "audit_world \<Rightarrow> bool" where
  "audit_inv w \<longleftrightarrow>
     (\<forall>r. Entry r \<in> set (aw_log w) \<longrightarrow> entry_ok w r)
   \<and> (\<forall>i h. aw_open w i = Some h \<longrightarrow> i \<in> aw_used w \<and> sr_id (rs_snapshot h) = i \<and> 1 \<le> sr_revision (rs_snapshot h))
   \<and> (\<not> aw_lost w \<longrightarrow> (\<forall>i \<in> aw_used w. live_ok w i))"

lemma audit_invD:
  assumes "audit_inv w"
  shows "Entry r \<in> set (aw_log w) \<Longrightarrow> entry_ok w r"
    and "aw_open w i = Some h \<Longrightarrow> i \<in> aw_used w \<and> sr_id (rs_snapshot h) = i \<and> 1 \<le> sr_revision (rs_snapshot h)"
    and "\<not> aw_lost w \<Longrightarrow> i \<in> aw_used w \<Longrightarrow> live_ok w i"
  using assms by (auto simp: audit_inv_def)

lemma current_entry_ok: "audit_inv w \<Longrightarrow> current (aw_log w) i = Some r \<Longrightarrow> entry_ok w r \<and> sr_id r = i"
  using audit_invD(1) current_entry current_id by blast

lemma current_other:
  "sr_id r \<noteq> i \<Longrightarrow> current (append_line ok r ls) i = current ls i"
  by (simp add: append_line_def current_snoc)

text \<open>Once a later revision is appended, the spend is no longer pending.\<close>

lemma current_later:
  assumes "sr_status r \<noteq> SPending" "1 < sr_revision r"
    and "\<And>e. current ls (sr_id r) = Some e \<Longrightarrow> sr_status e = SPending \<Longrightarrow> sr_revision e = 1"
  shows "\<exists>e. current (append_line True r ls) (sr_id r) = Some e \<and> sr_status e \<noteq> SPending"
  using assms by (force simp: append_line_def current_snoc split: option.splits)

text \<open>A later revision of one spend keeps the invariant, whoever writes it.\<close>

lemma audit_inv_later:
  assumes inv: "audit_inv w" and w': "aw_log w' = append_line ok r (aw_log w)" "aw_used w' = aw_used w"
      "aw_observed w \<subseteq> aw_observed w'" "aw_crashed w' = aw_crashed w" "aw_lost w' \<longleftrightarrow> aw_lost w \<or> \<not> ok"
    and r: "sr_id r = i" "i \<in> aw_used w" "sr_status r \<noteq> SPending" "1 < sr_revision r"
      "\<And>height c. sr_status r = SConfirmed height c \<Longrightarrow> (i, c, height) \<in> aw_observed w'"
    and op: "\<And>j. j \<noteq> i \<Longrightarrow> aw_open w' j = aw_open w j"
      "\<And>h. aw_open w' i = Some h \<Longrightarrow> sr_id (rs_snapshot h) = i \<and> 1 \<le> sr_revision (rs_snapshot h)"
  shows "audit_inv w'"
proof -
  have "entry_ok w' x" if "Entry x \<in> set (aw_log w')" for x
  proof (cases "Entry x \<in> set (aw_log w)")
    case True
    then show ?thesis using audit_invD(1) [OF inv True] w'(2,3) by (auto simp: entry_ok_def)
  next
    case False
    then have "x = r" using that w'(1) by (auto simp: append_line_def split: if_splits)
    then show ?thesis using r w'(2) by (auto simp: entry_ok_def)
  qed
  moreover have "j \<in> aw_used w' \<and> sr_id (rs_snapshot h) = j \<and> 1 \<le> sr_revision (rs_snapshot h)"
    if "aw_open w' j = Some h" for j h
    using that op r(2) w'(2) audit_invD(2) [OF inv] by (cases "j = i") auto
  moreover have "live_ok w' j" if "\<not> aw_lost w'" "j \<in> aw_used w'" for j
  proof (cases "j = i")
    case True
    have "ok" using that(1) w'(5) by simp
    then have "\<exists>e. current (aw_log w') i = Some e \<and> sr_status e \<noteq> SPending"
      using current_later [of r "aw_log w"] r current_entry_ok [OF inv] w'(1) by (auto simp: entry_ok_def)
    then show ?thesis using True by (auto simp: live_ok_def)
  next
    case False
    then have "live_ok w j" using that w' audit_invD(3) [OF inv] by simp
    then show ?thesis using False w'(1,4) r(1) op(1) by (simp add: live_ok_def current_other)
  qed
  ultimately show ?thesis by (simp add: audit_inv_def)
qed

text \<open>One revision written through an open handle, whatever its status.\<close>

lemma audit_inv_handle:
  assumes inv: "audit_inv w" and op: "aw_open w i = Some h"
    and f: "\<And>r. sr_id (f r) = sr_id r \<and> sr_revision (f r) = sr_revision r \<and> sr_status (f r) = sr_status r"
    and st: "status \<noteq> SPending" "rs_snapshot h' = rs_snapshot h"
    and S: "aw_observed w \<subseteq> S" "\<And>height c. status = SConfirmed height c \<Longrightarrow> (i, c, height) \<in> S"
  shows "audit_inv ((handle_write i ok (write_revision ok status now f h' (aw_log w)) w)\<lparr>aw_observed := S\<rparr>)"
proof -
  define r where "r = f ((rs_snapshot h')\<lparr>sr_revision := sr_revision (rs_snapshot h') + 1, sr_updated_ms := now, sr_status := status\<rparr>)"
  have r: "sr_id r = i" "sr_revision r = sr_revision (rs_snapshot h) + 1" "sr_status r = status"
    using f audit_invD(2) [OF inv op] st(2) by (simp_all add: r_def)
  have "write_revision ok status now f h' (aw_log w) = (h'\<lparr>rs_snapshot := r\<rparr>, append_line ok r (aw_log w))"
    by (simp add: write_revision_def r_def Let_def)
  then show ?thesis
    by (intro audit_inv_later [OF inv, of _ ok r i])
      (use r st S audit_invD(2) [OF inv op] in \<open>auto simp: handle_write_def\<close>)
qed

lemma audit_inv_close:
  assumes inv: "audit_inv w" and op: "aw_open w i = Some h" "rs_settled h"
  shows "audit_inv (w\<lparr>aw_open := (aw_open w)(i := None)\<rparr>)"
proof -
  have "live_ok (w\<lparr>aw_open := (aw_open w)(i := None)\<rparr>) j" if "live_ok w j" for j
    using that op by (auto simp: live_ok_def split: option.splits if_splits)
  with inv show ?thesis by (auto simp: audit_inv_def entry_ok_def)
qed

lemma audit_inv_drop:
  assumes inv: "audit_inv w" and op: "aw_open w i = Some h"
  shows "audit_inv (w\<lparr>aw_log := drop_spend ok now h (aw_log w),
      aw_lost := (aw_lost w \<or> \<not> rs_settled h \<and> \<not> ok), aw_open := (aw_open w)(i := None)\<rparr>)"
proof (cases "rs_settled h")
  case True
  with audit_inv_close [OF inv op] show ?thesis by (simp add: drop_spend_def)
next
  case False
  define r where "r = (rs_snapshot h)\<lparr>sr_revision := sr_revision (rs_snapshot h) + 1, sr_updated_ms := now,
    sr_status := SUnresolved ''the producer ended without recording an outcome''\<rparr>"
  have "drop_spend ok now h (aw_log w) = append_line ok r (aw_log w)"
    using False by (simp add: drop_spend_def write_revision_def r_def Let_def)
  with False show ?thesis
    by (intro audit_inv_later [OF inv, of _ ok r i]) (use audit_invD(2) [OF inv op] in \<open>auto simp: r_def\<close>)
qed

lemma audit_inv_observe: "audit_inv w \<Longrightarrow> aw_observed w \<subseteq> S \<Longrightarrow> audit_inv (w\<lparr>aw_observed := S\<rparr>)"
  unfolding audit_inv_def entry_ok_def live_ok_def by (auto simp: subset_iff)

lemma resolve_landed_log:
  obtains "snd (resolve_landed readable ok now i c height ls) = ls"
  | cur where "current ls i = Some cur" "may_have_reached_the_network (sr_status cur)"
      "snd (resolve_landed readable ok now i c height ls) = append_line True
         (cur\<lparr>sr_revision := sr_revision cur + 1, sr_updated_ms := now, sr_status := SConfirmed height c,
              sr_intended_coin_id := Some c\<rparr>) ls"
proof (cases "readable \<and> ok \<and> (\<exists>cur. current ls i = Some cur \<and> may_have_reached_the_network (sr_status cur))")
  case True
  then show ?thesis using that(2) by (auto simp: resolve_landed_def find_record Let_def)
next
  case False
  then have "snd (resolve_landed readable ok now i c height ls) = ls"
    by (auto simp: resolve_landed_def find_record append_line_def Let_def split: option.splits)
  then show ?thesis by (rule that(1))
qed

lemma audit_inv_resolve:
  assumes inv: "audit_inv w"
  shows "audit_inv (w\<lparr>aw_log := snd (resolve_landed readable ok now i c height (aw_log w)),
    aw_observed := insert (i, c, height) (aw_observed w)\<rparr>)"
proof (cases rule: resolve_landed_log [of readable ok now i c height "aw_log w"])
  case 1
  then show ?thesis using audit_inv_observe [OF inv, of "insert (i, c, height) (aw_observed w)"] by auto
next
  case (2 cur)
  note cur = current_entry_ok [OF inv 2(1)]
  show ?thesis unfolding 2(3)
    by (rule audit_inv_later [OF inv, of _ True _ i])
      (use cur audit_invD(2) [OF inv] in \<open>auto simp: entry_ok_def\<close>)
qed

lemma audit_inv_begin:
  assumes inv: "audit_inv w" and new: "i \<notin> aw_used w"
  shows "audit_inv ((handle_write i ok (journal_begin ok i now intent (aw_log w)) w)\<lparr>aw_used := insert i (aw_used w)\<rparr>)"
    (is "audit_inv ?w")
proof -
  obtain h where h: "journal_begin ok i now intent (aw_log w) = (h, append_line ok (rs_snapshot h) (aw_log w))"
      "sr_id (rs_snapshot h) = i" "\<not> rs_settled h" "sr_status (rs_snapshot h) = SPending" "sr_revision (rs_snapshot h) = 1"
    by (simp add: journal_begin_def Let_def)
  have none: "current (aw_log w) i = None"
    using new current_entry_ok [OF inv, of i] by (cases "current (aw_log w) i") (auto simp: entry_ok_def)
  have "entry_ok ?w x" if "Entry x \<in> set (aw_log ?w)" for x
    using that h audit_invD(1) [OF inv, of x]
    by (auto simp: handle_write_def append_line_def entry_ok_def split: if_splits)
  moreover have "live_ok ?w j" if "\<not> aw_lost ?w" "j \<in> aw_used ?w" for j
  proof (cases "j = i")
    case True
    then show ?thesis using that h none by (simp add: live_ok_def handle_write_def append_line_def current_snoc)
  next
    case False
    then have "live_ok w j" using that audit_invD(3) [OF inv] by (simp add: handle_write_def)
    then show ?thesis using False h by (simp add: live_ok_def handle_write_def current_other)
  qed
  moreover have "j \<in> aw_used ?w \<and> sr_id (rs_snapshot k) = j \<and> 1 \<le> sr_revision (rs_snapshot k)"
    if "aw_open ?w j = Some k" for j k
    using that h audit_invD(2) [OF inv] by (auto simp: handle_write_def split: if_splits)
  ultimately show ?thesis unfolding audit_inv_def by blast
qed

lemma audit_inv_crash:
  assumes "audit_inv w"
  shows "audit_inv (w\<lparr>aw_open := Map.empty, aw_crashed := aw_crashed w \<union> dom (aw_open w)\<rparr>)"
proof -
  have "live_ok (w\<lparr>aw_open := Map.empty, aw_crashed := aw_crashed w \<union> dom (aw_open w)\<rparr>) i" if "live_ok w i" for i
    using that by (auto simp: live_ok_def split: option.splits)
  with assms show ?thesis by (auto simp: audit_inv_def entry_ok_def)
qed

lemmas journal_defs = journal_submitted_def journal_confirmed_def journal_failed_def journal_unresolved_def

lemma audit_inv_step:
  assumes inv: "audit_inv w" and step: "audit_step a w w'"
  shows "audit_inv w'"
  using step
proof cases
  case (submitted i h ok now coin funding)
  have "audit_inv ((handle_write i ok (journal_submitted ok now coin funding h (aw_log w)) w)\<lparr>aw_observed := aw_observed w\<rparr>)"
    unfolding journal_defs by (rule audit_inv_handle [OF inv submitted(3)]) auto
  with submitted(2) show ?thesis by (simp add: handle_write_def)
next
  case (confirmed i h ok now c height)
  show ?thesis
    unfolding confirmed(2) journal_defs by (rule audit_inv_handle [OF inv confirmed(3)]) auto
next
  case (failed i h ok now stage reason)
  have "audit_inv ((handle_write i ok (journal_failed ok now stage reason h (aw_log w)) w)\<lparr>aw_observed := aw_observed w\<rparr>)"
    unfolding journal_defs by (rule audit_inv_handle [OF inv failed(3)]) auto
  with failed(2) show ?thesis by (simp add: handle_write_def)
next
  case (unresolved i h ok now reason)
  have "audit_inv ((handle_write i ok (journal_unresolved ok now reason h (aw_log w)) w)\<lparr>aw_observed := aw_observed w\<rparr>)"
    unfolding journal_defs by (rule audit_inv_handle [OF inv unresolved(3)]) auto
  with unresolved(2) show ?thesis by (simp add: handle_write_def)
qed (use inv in \<open>simp_all add: audit_inv_begin audit_inv_drop audit_inv_resolve audit_inv_crash\<close>)

lemma audit_reach_inv: "audit_reach w \<Longrightarrow> audit_inv w"
proof (induction rule: audit_reach.induct)
  case init
  then show ?case by (simp add: audit_inv_def audit_init_def)
qed (rule audit_inv_step)

text \<open>What may still change the row of a spend: its own handle.\<close>

fun own_handle_acts :: "audit_world \<Rightarrow> string \<Rightarrow> audit_act \<Rightarrow> bool" where
  "own_handle_acts w i (ActWrite j) = (j = i)"
| "own_handle_acts w i (ActDrop j) = (j = i \<and> (\<exists>h. aw_open w i = Some h \<and> \<not> rs_settled h))"
| "own_handle_acts w i _ = False"

lemma write_other:
  assumes "audit_inv w" "aw_open w j = Some h" "j \<noteq> i" "rs_snapshot h' = rs_snapshot h" "\<And>x. sr_id (f x) = sr_id x"
  shows "current (snd (write_revision ok status now f h' (aw_log w))) i = current (aw_log w) i"
  using audit_invD(2) [OF assms(1,2)] assms(3-5) by (simp add: write_revision_def Let_def current_other)

lemma terminal_step:
  assumes inv: "audit_inv w" and step: "audit_step a w w'" and own: "\<not> own_handle_acts w i a"
    and r: "current (aw_log w) i = Some r" "is_terminal (sr_status r)"
  shows "current (aw_log w') i = Some r"
  using step
proof cases
  case (begun j ok now intent)
  have "j \<noteq> i" using begun(3) current_entry_ok [OF inv r(1)] by (auto simp: entry_ok_def)
  with r begun(2) show ?thesis
    by (simp add: handle_write_def journal_begin_def Let_def current_other)
next
  case (dropped j h ok now)
  show ?thesis
  proof (cases "rs_settled h")
    case False
    with own dropped(1,3) have "j \<noteq> i" by auto
    from write_other [OF inv dropped(3) this, of h id] False dropped(2) r show ?thesis by (simp add: drop_spend_def)
  qed (use dropped(2) r in \<open>simp add: drop_spend_def\<close>)
next
  case (resolved j c height rd ok now)
  show ?thesis
  proof (cases rule: resolve_landed_log [of rd ok now j c height "aw_log w"])
    case (2 cur)
    have "j \<noteq> i" using 2(1,2) r by (cases "sr_status r") auto
    then show ?thesis using 2 current_id [OF 2(1)] resolved(2) r by (simp add: current_other)
  qed (use resolved(2) r in simp)
qed (use own r write_other [OF inv] in \<open>auto simp: handle_write_def journal_defs\<close>)

section \<open>Properties\<close>

text \<open>
  C19: the audit trail is honest. Whatever producers, the resolver and crashes do, in any order: a spend
  the ledger shows as confirmed was observed on chain, by the caller who said so, with that very coin and
  height. Unless an append was lost, every spend ever begun is in the ledger, and it is pending only
  while its handle is open and unsettled, or because the process died with the handle open. And an
  outcome that is terminal is rewritten by nothing but the spend's own handle, while its producer holds
  it: no other spend, no resolver, no crash and no drop of a settled handle changes it.
\<close>
theorem audit_trail_honest:
  assumes "audit_reach w"
  shows "(\<forall>r \<in> set (sl_records (fold_log (aw_log w))). \<forall>height c.
         sr_status r = SConfirmed height c \<longrightarrow> (sr_id r, c, height) \<in> aw_observed w)
    \<and> (\<not> aw_lost w \<longrightarrow> (\<forall>i \<in> aw_used w. \<exists>r \<in> set (sl_records (fold_log (aw_log w))).
         sr_id r = i \<and> (sr_status r = SPending \<longrightarrow>
           (\<forall>h. aw_open w i = Some h \<longrightarrow> \<not> rs_settled h) \<and> (aw_open w i = None \<longrightarrow> i \<in> aw_crashed w))))
    \<and> (\<forall>a w' r. audit_step a w w' \<and> r \<in> set (sl_records (fold_log (aw_log w))) \<and> is_terminal (sr_status r)
         \<and> \<not> own_handle_acts w (sr_id r) a \<longrightarrow> r \<in> set (sl_records (fold_log (aw_log w'))))"
proof -
  have inv: "audit_inv w" using assms by (rule audit_reach_inv)
  have "(sr_id r, c, height) \<in> aw_observed w"
    if "r \<in> set (sl_records (fold_log (aw_log w)))" "sr_status r = SConfirmed height c" for r height c
    using that current_entry_ok [OF inv, of "sr_id r" r] by (simp add: in_records entry_ok_def)
  moreover have "\<exists>r \<in> set (sl_records (fold_log (aw_log w))). sr_id r = i \<and> (sr_status r = SPending \<longrightarrow>
           (\<forall>h. aw_open w i = Some h \<longrightarrow> \<not> rs_settled h) \<and> (aw_open w i = None \<longrightarrow> i \<in> aw_crashed w))"
    if "\<not> aw_lost w" "i \<in> aw_used w" for i
  proof -
    from that obtain r where "current (aw_log w) i = Some r" "sr_status r = SPending \<longrightarrow>
        (\<forall>h. aw_open w i = Some h \<longrightarrow> \<not> rs_settled h) \<and> (aw_open w i = None \<longrightarrow> i \<in> aw_crashed w)"
      using audit_invD(3) [OF inv, unfolded live_ok_def] by blast
    with current_id in_records show ?thesis by metis
  qed
  moreover have "r \<in> set (sl_records (fold_log (aw_log w')))"
    if "audit_step a w w'" "r \<in> set (sl_records (fold_log (aw_log w)))" "is_terminal (sr_status r)"
      "\<not> own_handle_acts w (sr_id r) a" for a w' r
    using terminal_step [OF inv that(1,4)] that(2,3) by (simp add: in_records)
  ultimately show ?thesis by blast
qed

definition sample_intent :: spend_intent where
  "sample_intent = \<lparr>si_kind = MIRROR_COIN, si_purpose = ''bond'', si_authority = \<lparr>au_principal = ''node'', au_grant = ''g''\<rparr>,
     si_asset = Dig, si_amount_mojos = 20, si_fee_mojos = 0, si_store_id = Some ''s'',
     si_bond = Some \<lparr>ab_root = ''r'', ab_epoch = 7\<rparr>, si_advertised_urls = [''u''], si_reclaim_reason = None,
     si_trigger = None\<rparr>"

definition sample_log :: "log_line list" where
  "sample_log =
     (let (h, ls) = journal_begin True ''a'' 1 sample_intent [];
          (h', ls') = journal_submitted True 2 None [''f''] h ls
      in snd (resolve_landed True True 9 ''a'' ''coin'' 100 (drop_spend True 3 h' ls')))"

lemmas sample_log_defs = sample_log_def journal_begin_def journal_submitted_def write_revision_def drop_spend_def
  append_line_def resolve_landed_def find_record current_def Let_def

theorem audit_trail_honest_witness:
  "\<exists>w. audit_reach w \<and> aw_log w = sample_log \<and> \<not> aw_lost w
     \<and> (\<exists>r \<in> set (sl_records (fold_log sample_log)). sr_id r = ''a'' \<and> sr_status r = SConfirmed 100 ''coin''
          \<and> (''a'', ''coin'', 100) \<in> aw_observed w)"
proof -
  define w1 where "w1 = (handle_write ''a'' True (journal_begin True ''a'' 1 sample_intent (aw_log audit_init)) audit_init)
    \<lparr>aw_used := insert ''a'' (aw_used audit_init)\<rparr>"
  define h where "h = fst (journal_begin True ''a'' 1 sample_intent [])"
  define w2 where "w2 = handle_write ''a'' True (journal_submitted True 2 None [''f''] h (aw_log w1)) w1"
  define h' where "h' = fst (journal_submitted True 2 None [''f''] h (aw_log w1))"
  define w3 where "w3 = w2\<lparr>aw_log := drop_spend True 3 h' (aw_log w2),
      aw_lost := (aw_lost w2 \<or> \<not> rs_settled h' \<and> \<not> True), aw_open := (aw_open w2)(''a'' := None)\<rparr>"
  define w4 where "w4 = w3\<lparr>aw_log := snd (resolve_landed True True 9 ''a'' ''coin'' 100 (aw_log w3)),
      aw_observed := insert (''a'', ''coin'', 100) (aw_observed w3)\<rparr>"
  have "audit_reach w1"
    unfolding w1_def by (rule audit_reach.step [OF audit_reach.init]) (rule audit_step.begun, simp add: audit_init_def)
  then have "audit_reach w2"
    unfolding w2_def by (rule audit_reach.step)
      (rule audit_step.submitted, simp_all add: w1_def h_def handle_write_def journal_begin_def audit_init_def Let_def)
  then have "audit_reach w3"
    unfolding w3_def by (rule audit_reach.step) (rule audit_step.dropped, simp add: w2_def h'_def handle_write_def)
  then have r: "audit_reach w4"
    unfolding w4_def by (rule audit_reach.step) (rule audit_step.resolved)
  have l: "aw_log w4 = sample_log" "\<not> aw_lost w4"
    by (simp_all add: w4_def w3_def w2_def w1_def h_def h'_def handle_write_def audit_init_def sample_log_def split_beta)
  have "\<exists>r \<in> set (sl_records (fold_log sample_log)). sr_id r = ''a'' \<and> sr_status r = SConfirmed 100 ''coin''"
    by (simp add: sample_log_defs sample_intent_def fold_log_def)
  moreover from this conjunct1 [OF audit_trail_honest [OF r]] l(1) have "(''a'', ''coin'', 100) \<in> aw_observed w4"
    by metis
  ultimately show ?thesis using l r by (intro exI [of _ w4]) blast
qed

text \<open>
  A broadcast spend does not stay submitted: the handle of a spend that reached the mempool is dropped
  unsettled, so the ledger shows it as unresolved from the moment its producer returns.
\<close>

lemma submitted_then_dropped:
  fixes now c funding ls i h
  assumes "\<And>e. current ls i = Some e \<Longrightarrow> sr_revision e < sr_revision (rs_snapshot h)"
    "sr_id (rs_snapshot h) = i" "\<not> rs_settled h"
  defines "res \<equiv> journal_submitted True now c funding h ls"
  shows "\<exists>r reason. current (drop_spend True now' (fst res) (snd res)) i = Some r \<and> sr_status r = SUnresolved reason
    \<and> sr_intent r = sr_intent (rs_snapshot h) \<and> sr_funding_coin_ids r = funding"
proof -
  define r1 where "r1 = (rs_snapshot h)\<lparr>sr_revision := sr_revision (rs_snapshot h) + 1, sr_updated_ms := now,
      sr_status := SSubmitted, sr_funding_coin_ids := funding, sr_intended_coin_id := c\<rparr>"
  define r2 where "r2 = r1\<lparr>sr_revision := sr_revision r1 + 1, sr_updated_ms := now',
      sr_status := SUnresolved ''the producer ended without recording an outcome''\<rparr>"
  have log: "drop_spend True now' (fst res) (snd res) = (ls @ [Entry r1]) @ [Entry r2]"
    using assms(3) by (simp add: res_def journal_submitted_def write_revision_def drop_spend_def append_line_def
        r1_def r2_def Let_def)
  have "current (ls @ [Entry r1]) = (current ls)(i \<mapsto> r1)"
    using current_newer [of ls r1] assms(1,2) by (fastforce simp: r1_def)
  then have "current ((ls @ [Entry r1]) @ [Entry r2]) i = Some r2"
    using current_newer [of "ls @ [Entry r1]" r2] assms(2) by (simp add: r2_def r1_def)
  then show ?thesis unfolding log by (auto simp: r2_def r1_def)
qed

end
