(* ===== verification/Mirror_Funding.thy ===== *)
theory Mirror_Funding
  imports Prelude
begin

text \<open>
  Choosing the $DIG coins a create is paid with (\<open>mirror/funding.rs\<close>, \<open>sage/selection.rs\<close> and
  \<open>resolve_cat\<close> of \<open>sage/singleton.rs\<close>), and deciding when the operator is told that none can be.

  \<^item> A coin is known by the lower-case hex of its id; the order of such strings is the order of the
    bytes. The coin id is a hash of the coin, so it is a field of the record.
  \<^item> The chain source and the Chia puzzle drivers are parameters: the unspent coins at the $DIG address
    of the operator, the spend that created a coin, and the CAT children a spend is parsed into.
  \<^item> The memo of final refusals is one table for the whole process; it is passed in and out.
  \<^item> The wording of an alert is represented by the kind of the message and the figures in it.
\<close>

section \<open>Largest-first selection\<close>

record shortfall =
  sf_have :: nat
  sf_need :: nat

text \<open>The loop takes coins until the target is covered.\<close>

fun take_until :: "nat \<Rightarrow> (nat \<times> 'k \<times> 'a) list \<Rightarrow> nat \<Rightarrow> 'a list \<times> nat" where
  "take_until target [] tot = ([], tot)"
| "take_until target ((amount, k, item) # ds) tot =
     (if tot \<ge> target then ([], tot)
      else let (sel, tot') = take_until target ds (u64_sat_add tot amount) in (item # sel, tot'))"

definition select_largest_first ::
  "'a list \<Rightarrow> nat \<Rightarrow> ('a \<Rightarrow> nat \<times> 'k::linorder) \<Rightarrow> shortfall + 'a list"
where
  "select_largest_first items target key =
     (let decorated = sort_key (\<lambda>(amount, k, _). (- int amount, k)) (map (\<lambda>x. (fst (key x), snd (key x), x)) items);
          available = foldl (\<lambda>s d. u64_sat_add s (fst d)) 0 decorated;
          (selected, tot) = take_until target decorated 0
      in if tot < target then Inl \<lparr>sf_have = available, sf_need = target\<rparr> else Inr selected)"

section \<open>Authenticating a coin\<close>

datatype funding_error =
  FChain string
| Insufficient nat nat
| Unauthenticated string string
| CommitmentsUnreadable string
| TooManyInputs nat nat nat nat
| CandidatesUnverifiable nat nat nat
| ZeroCollateral

definition MAX_SELECTED_FUNDING_COINS :: nat where "MAX_SELECTED_FUNDING_COINS = 32"
definition MAX_AUTHENTICATION_ATTEMPTS :: nat where "MAX_AUTHENTICATION_ATTEMPTS = 128"

record coin_record =
  cr_coin_id :: string
  cr_parent :: string
  cr_amount :: nat
  cr_is_spent :: bool

record cat =
  cat_coin_id :: string
  cat_asset_id :: string
  cat_p2_puzzle_hash :: string

text \<open>What the chain source answers, and what the CAT driver makes of a creating spend.\<close>

record 'sp chain_source =
  cs_coin_records :: "string + coin_record list"
  cs_coin_spend :: "string \<Rightarrow> string + 'sp option"
  cs_alloc_error :: "'sp \<Rightarrow> string option"
  cs_parse_children :: "'sp \<Rightarrow> cat list option"

definition resolve_cat :: "'sp chain_source \<Rightarrow> 'sp \<Rightarrow> string \<Rightarrow> string + cat option" where
  "resolve_cat src parent child_id =
     (case cs_alloc_error src parent of
        Some e \<Rightarrow> Inl e
      | None \<Rightarrow> Inr (case cs_parse_children src parent of
                       Some children \<Rightarrow> find (\<lambda>c. cat_coin_id c = child_id) children
                     | None \<Rightarrow> None))"

datatype auth_verdict = Final | Transient

definition authenticate ::
  "'sp chain_source \<Rightarrow> string \<Rightarrow> string \<Rightarrow> coin_record \<Rightarrow> (funding_error \<times> auth_verdict) + cat"
where
  "authenticate src dig_asset owner r =
     (case cs_coin_spend src (cr_parent r) of
        Inl e \<Rightarrow> Inl (FChain e, Transient)
      | Inr None \<Rightarrow> Inl (Unauthenticated (cr_coin_id r) ''its creating spend is not on chain'', Transient)
      | Inr (Some creating) \<Rightarrow>
          (case resolve_cat src creating (cr_coin_id r) of
             Inl e \<Rightarrow> Inl (Unauthenticated (cr_coin_id r) (''its lineage could not be executed: '' @ e), Final)
           | Inr None \<Rightarrow>
               Inl (Unauthenticated (cr_coin_id r) ''its creating spend produced no matching CAT child'', Final)
           | Inr (Some c) \<Rightarrow>
               if cat_asset_id c \<noteq> dig_asset
               then Inl (Unauthenticated (cr_coin_id r) ''the resolved CAT is not $DIG'', Final)
               else if cat_p2_puzzle_hash c \<noteq> owner
               then Inl (Unauthenticated (cr_coin_id r) ''the resolved CAT is owned by a different puzzle hash'', Final)
               else Inr c))"

text \<open>\<open>AuthMemo\<close>: the final refusals already paid for, by coin id.\<close>

type_synonym auth_memo = "(string \<times> string) list"

definition MAX_ENTRIES :: nat where "MAX_ENTRIES = 50000"

definition recall :: "auth_memo \<Rightarrow> string \<Rightarrow> string option" where
  "recall memo cid = map_of memo cid"

definition remember :: "string \<Rightarrow> string \<Rightarrow> auth_memo \<Rightarrow> auth_memo" where
  "remember cid reason memo =
     (if length memo \<ge> MAX_ENTRIES \<and> map_of memo cid = None then memo else AList.update cid reason memo)"

definition retain_only :: "string set \<Rightarrow> auth_memo \<Rightarrow> auth_memo" where
  "retain_only live memo = filter (\<lambda>(cid, _). cid \<in> live) memo"

section \<open>Selecting the coins of a create\<close>

record funding_walk =
  wk_authenticated :: "(coin_record \<times> cat) list"
  wk_total :: nat
  wk_skipped :: "(string \<times> string) list"
  wk_attempts :: nat
  wk_walked_whole_pool :: bool
  wk_memo :: auth_memo

text \<open>The loop over the pool; an error of the source ends it and is returned beside what was learned.\<close>

fun auth_walk ::
  "(coin_record \<Rightarrow> (funding_error \<times> auth_verdict) + cat) \<Rightarrow> nat \<Rightarrow> coin_record list \<Rightarrow> funding_walk
     \<Rightarrow> funding_walk \<times> funding_error option"
where
  "auth_walk auth need [] w = (w, None)"
| "auth_walk auth need (r # rs) w =
     (if wk_total w \<ge> need then (w, None)
      else case recall (wk_memo w) (cr_coin_id r) of
        Some reason \<Rightarrow> auth_walk auth need rs (w\<lparr>wk_skipped := wk_skipped w @ [(cr_coin_id r, reason)]\<rparr>)
      | None \<Rightarrow>
        if wk_attempts w \<ge> MAX_AUTHENTICATION_ATTEMPTS then (w\<lparr>wk_walked_whole_pool := False\<rparr>, None)
        else let w1 = w\<lparr>wk_attempts := wk_attempts w + 1\<rparr> in
          (case auth r of
             Inr c \<Rightarrow>
               auth_walk auth need rs (w1\<lparr>wk_authenticated := wk_authenticated w1 @ [(r, c)],
                                          wk_total := u64_sat_add (wk_total w1) (cr_amount r)\<rparr>)
           | Inl (Unauthenticated cid reason, verdict) \<Rightarrow>
               auth_walk auth need rs
                 (w1\<lparr>wk_skipped := wk_skipped w1 @ [(cid, reason)],
                     wk_memo := (if verdict = Final then remember (cr_coin_id r) reason (wk_memo w1) else wk_memo w1)\<rparr>)
           | Inl (fatal, _) \<Rightarrow> (w1, Some fatal)))"

definition select_within_input_bound ::
  "(nat \<times> string \<times> 'a) list \<Rightarrow> nat \<Rightarrow> funding_error + 'a list"
where
  "select_within_input_bound authenticated need =
     (let authenticated_total = foldl (\<lambda>s (amount, _, _). u64_sat_add s amount) 0 authenticated
      in case select_largest_first authenticated need (\<lambda>(amount, cid, _). (amount, cid)) of
           Inl short \<Rightarrow> Inl (Insufficient (sf_have short) need)
         | Inr selected \<Rightarrow>
             if length selected > MAX_SELECTED_FUNDING_COINS
             then Inl (TooManyInputs (length selected) MAX_SELECTED_FUNDING_COINS authenticated_total need)
             else Inr (map (\<lambda>(_, _, payload). payload) selected))"

definition funding_pool :: "coin_record list \<Rightarrow> string set \<Rightarrow> coin_record list" where
  "funding_pool records committed =
     sort_key (\<lambda>r. (- int (cr_amount r), cr_coin_id r))
       (filter (\<lambda>r. cr_coin_id r \<notin> committed) (filter (\<lambda>r. \<not> cr_is_spent r) records))"

definition select_operator_dig_cats ::
  "'sp chain_source \<Rightarrow> string \<Rightarrow> string \<Rightarrow> nat \<Rightarrow> string set \<Rightarrow> auth_memo \<Rightarrow> (funding_error + cat list) \<times> auth_memo"
where
  "select_operator_dig_cats src dig_asset owner need committed memo =
     (if need = 0 then (Inl ZeroCollateral, memo)
      else case cs_coin_records src of
        Inl e \<Rightarrow> (Inl (FChain e), memo)
      | Inr records \<Rightarrow>
        let pool = funding_pool records committed;
            w0 = \<lparr>wk_authenticated = [], wk_total = 0, wk_skipped = [], wk_attempts = 0, wk_walked_whole_pool = True,
                  wk_memo = retain_only (cr_coin_id ` set pool) memo\<rparr>;
            (w, err) = auth_walk (authenticate src dig_asset owner) need pool w0
        in case err of
             Some fatal \<Rightarrow> (Inl fatal, wk_memo w)
           | None \<Rightarrow>
             if \<not> wk_walked_whole_pool w \<and> wk_total w < need
             then (Inl (CandidatesUnverifiable (wk_attempts w) (length (wk_skipped w)) need), wk_memo w)
             else (select_within_input_bound
                     (map (\<lambda>(r, c). (cr_amount r, cr_coin_id r, c)) (wk_authenticated w)) need, wk_memo w))"

section \<open>Facts about the selection\<close>

lemma insort_key_map: "insort_key f (g x) (map g xs) = map g (insort_key (\<lambda>y. f (g y)) x xs)"
  by (induction xs) auto

lemma sort_key_map: "sort_key f (map g xs) = map g (sort_key (\<lambda>y. f (g y)) xs)"
  by (induction xs) (simp_all add: insort_key_map)

lemma foldl_sat:
  "a \<le> u64_max \<Longrightarrow> foldl (\<lambda>s d. u64_sat_add s (f d)) a ds = min (a + sum_list (map f ds)) u64_max"
  by (induction ds arbitrary: a) (auto simp: u64_sat_add_def min_def)

lemma sum_list_mset_eq:
  fixes f :: "'a \<Rightarrow> nat"
  assumes "mset xs = mset ys"
  shows "sum_list (map f xs) = sum_list (map f ys)"
proof -
  have "mset (map f xs) = mset (map f ys)" using assms by simp
  then show ?thesis by (metis sum_mset_sum_list)
qed

lemma u64_sat_add_min: "u64_sat_add (min s u64_max) a = min (s + a) u64_max"
  by (auto simp: u64_sat_add_def)

lemma take_until_spec:
  assumes "target \<le> u64_max"
  shows "\<exists>k \<le> length ds. take_until target ds (min s u64_max)
       = (map (snd \<circ> snd) (take k ds), min (s + sum_list (map fst (take k ds))) u64_max)
     \<and> (\<forall>j < k. s + sum_list (map fst (take j ds)) < target)
     \<and> (k < length ds \<longrightarrow> target \<le> s + sum_list (map fst (take k ds)))"
proof (induction ds arbitrary: s)
  case Nil
  then show ?case by simp
next
  case (Cons d ds)
  obtain amount k item where d: "d = (amount, k, item)" by (metis prod.exhaust)
  show ?case
  proof (cases "target \<le> s")
    case True
    with assms d show ?thesis by (intro exI [of _ 0]) simp
  next
    case False
    from Cons.IH [of "s + amount"] obtain n where n: "n \<le> length ds"
      "take_until target ds (min (s + amount) u64_max)
        = (map (snd \<circ> snd) (take n ds), min (s + amount + sum_list (map fst (take n ds))) u64_max)"
      "\<forall>j < n. s + amount + sum_list (map fst (take j ds)) < target"
      "n < length ds \<longrightarrow> target \<le> s + amount + sum_list (map fst (take n ds))"
      by blast
    have "s + sum_list (map fst (take j (d # ds))) < target" if "j < Suc n" for j
      using that n(3) False d by (cases j) (auto simp: add.assoc)
    moreover have "\<not> target \<le> min s u64_max" using False by auto
    moreover have "u64_sat_add s amount = min (s + amount) u64_max" by (simp add: u64_sat_add_def)
    ultimately show ?thesis
      using n d assms by (intro exI [of _ "Suc n"]) (simp add: u64_sat_add_min add.assoc)
  qed
qed

abbreviation largest_first :: "('a \<Rightarrow> nat \<times> 'k::linorder) \<Rightarrow> 'a list \<Rightarrow> 'a list" where
  "largest_first key \<equiv> sort_key (\<lambda>x. (- int (fst (key x)), snd (key x)))"

lemma select_largest_first_spec:
  fixes key :: "'a \<Rightarrow> nat \<times> 'k::linorder" and items :: "'a list"
  assumes "target \<le> u64_max"
  defines "ds \<equiv> largest_first key items" and "amount \<equiv> \<lambda>x. fst (key x)"
  shows "select_largest_first items target key = Inl \<lparr>sf_have = sum_list (map amount items), sf_need = target\<rparr>
       \<and> sum_list (map amount items) < target
     \<or> (\<exists>k. select_largest_first items target key = Inr (take k ds) \<and> target \<le> sum_list (map amount (take k ds))
          \<and> (\<forall>j < k. sum_list (map amount (take j ds)) < target) \<and> k \<le> length ds)"
proof -
  let ?dec = "\<lambda>x. (fst (key x), snd (key x), x)"
  let ?ds = "map ?dec ds"
  have sorted: "sort_key (\<lambda>(amount, k, _). (- int amount, k)) (map ?dec items) = ?ds"
    by (simp add: sort_key_map ds_def comp_def)
  obtain k where k: "k \<le> length ds"
    "take_until target ?ds (min 0 u64_max)
      = (map (snd \<circ> snd) (take k ?ds), min (0 + sum_list (map fst (take k ?ds))) u64_max)"
    "\<forall>j < k. 0 + sum_list (map fst (take j ?ds)) < target"
    "k < length ds \<longrightarrow> target \<le> 0 + sum_list (map fst (take k ?ds))"
    using take_until_spec [OF assms(1), of ?ds 0] by auto
  have sums: "sum_list (map fst (take j ?ds)) = sum_list (map amount (take j ds))" for j
    by (simp add: take_map comp_def amount_def)
  have "mset ds = mset items" by (simp add: ds_def)
  then have all: "sum_list (map amount ds) = sum_list (map amount items)"
    by (rule sum_list_mset_eq)
  have run: "take_until target ?ds 0 = (take k ds, min (sum_list (map amount (take k ds))) u64_max)"
    using k(2) sums [of k] by (simp add: take_map comp_def)
  have names: "map fst ?ds = map amount ds" by (simp add: amount_def)
  have avail: "foldl (\<lambda>s d. u64_sat_add s (fst d)) 0 ?ds = min (sum_list (map amount items)) u64_max"
    by (subst foldl_sat) (simp_all only: names all add_0 zero_le)
  show ?thesis
  proof (cases "sum_list (map amount (take k ds)) < target")
    case True
    then have "k = length ds" using k(1,4) sums by fastforce
    with True assms(1) show ?thesis
      using run avail sorted all by (simp add: select_largest_first_def Let_def)
  next
    case False
    with k(1,3) sums assms(1) show ?thesis
      using run sorted by (auto simp: select_largest_first_def Let_def intro!: exI [of _ k])
  qed
qed

lemma mset_take_subset: "mset (take k xs) \<subseteq># mset xs"
  using mset_subset_eq_add_left [of "mset (take k xs)" "mset (drop k xs)"] by (simp flip: mset_append)

text \<open>Of a list in descending order, no \<open>n\<close> elements are worth more than the first \<open>n\<close>.\<close>

lemma sum_le_take:
  fixes f :: "'a \<Rightarrow> nat"
  assumes "sorted_wrt (\<lambda>x y. f y \<le> f x) xs" "B \<subseteq># mset xs"
  shows "sum_mset (image_mset f B) \<le> sum_list (map f (take (size B) xs))"
  using assms
proof (induction xs arbitrary: B)
  case Nil
  then show ?case by simp
next
  case (Cons x xs)
  show ?case
  proof (cases "x \<in># B")
    case True
    then obtain B' where B: "B = add_mset x B'" by (metis multi_member_split)
    then have "B' \<subseteq># mset xs" using Cons.prems(2) by simp
    with Cons show ?thesis by (simp add: B)
  next
    case False
    then have sub: "B \<subseteq># mset xs"
      using Cons.prems(2) by (metis diff_single_trivial mset.simps(2) subset_eq_diff_conv add_mset_add_single)
    have "sum_list (map f (take n xs)) \<le> sum_list (map f (take n (x # xs)))" if "n \<le> length xs" for n
    proof (cases n)
      case (Suc m)
      then have "take n xs = take m xs @ [xs ! m]" using that by (simp add: take_Suc_conv_app_nth)
      moreover have "f (xs ! m) \<le> f x" using Cons.prems(1) Suc that by auto
      ultimately show ?thesis by (simp add: Suc)
    qed simp
    moreover have "size B \<le> length xs" using sub size_mset_mono by fastforce
    ultimately show ?thesis using Cons sub by (metis le_trans sorted_wrt.simps(2))
  qed
qed

lemma largest_first_desc: "sorted_wrt (\<lambda>x y. fst (key y) \<le> fst (key x)) (largest_first key items)"
proof -
  have "sorted (map (\<lambda>x. (- int (fst (key x)), snd (key x))) (largest_first key items))" by simp
  then have "sorted_wrt (\<lambda>x y. (- int (fst (key x)), snd (key x)) \<le> (- int (fst (key y)), snd (key y)))
      (largest_first key items)"
    by (simp only: sorted_map)
  then show ?thesis by (rule sorted_wrt_mono_rel [rotated]) auto
qed

section \<open>Facts about the walk\<close>

definition authentic :: "(coin_record \<Rightarrow> 'e + cat) \<Rightarrow> coin_record \<Rightarrow> bool" where
  "authentic auth r \<longleftrightarrow> (\<exists>c. auth r = Inr c)"

text \<open>A remembered coin is one that does not authenticate: a creating spend does not change.\<close>

definition memo_sound :: "(coin_record \<Rightarrow> 'e + cat) \<Rightarrow> coin_record list \<Rightarrow> auth_memo \<Rightarrow> bool" where
  "memo_sound auth rs memo \<longleftrightarrow> (\<forall>r \<in> set rs. recall memo (cr_coin_id r) \<noteq> None \<longrightarrow> \<not> authentic auth r)"

definition walk_ok :: "(coin_record \<Rightarrow> 'e + cat) \<Rightarrow> coin_record list \<Rightarrow> funding_walk \<Rightarrow> bool" where
  "walk_ok auth records w \<longleftrightarrow>
     (\<forall>(r, c) \<in> set (wk_authenticated w). auth r = Inr c)
     \<and> wk_total w = min (sum_list (map (cr_amount \<circ> fst) (wk_authenticated w))) u64_max
     \<and> memo_sound auth records (wk_memo w) \<and> wk_attempts w \<le> MAX_AUTHENTICATION_ATTEMPTS"

lemma walk_ok_update [simp]:
  "walk_ok auth records (w\<lparr>wk_walked_whole_pool := b\<rparr>) = walk_ok auth records w"
  "walk_ok auth records w \<Longrightarrow> \<not> wk_attempts w \<ge> MAX_AUTHENTICATION_ATTEMPTS
     \<Longrightarrow> walk_ok auth records (w\<lparr>wk_attempts := Suc (wk_attempts w)\<rparr>)"
  by (simp_all add: walk_ok_def)

lemma walk_ok_attempts: "walk_ok auth records w \<Longrightarrow> wk_attempts w \<le> MAX_AUTHENTICATION_ATTEMPTS"
  by (simp add: walk_ok_def)

lemma recall_retain: "recall (retain_only live memo) cid = (if cid \<in> live then recall memo cid else None)"
  unfolding recall_def retain_only_def by (induction memo) auto

lemma recall_remember:
  "recall (remember cid reason memo) x \<noteq> None \<Longrightarrow> x = cid \<or> recall memo x \<noteq> None"
  by (auto simp: recall_def remember_def update_conv' split: if_splits)

lemma memo_sound_remember:
  assumes "memo_sound auth records memo" "distinct (map cr_coin_id records)" "r \<in> set records" "\<not> authentic auth r"
  shows "memo_sound auth records (remember (cr_coin_id r) reason memo)"
  unfolding memo_sound_def
proof (intro ballI impI)
  fix r' assume r': "r' \<in> set records" "recall (remember (cr_coin_id r) reason memo) (cr_coin_id r') \<noteq> None"
  have "cr_coin_id r' = cr_coin_id r \<Longrightarrow> r' = r"
    using assms(2,3) r'(1) by (auto simp: distinct_map dest: inj_onD)
  with r' assms(1,4) recall_remember [OF r'(2)] show "\<not> authentic auth r'" by (auto simp: memo_sound_def)
qed

lemma auth_walk_spec:
  assumes "distinct (map cr_coin_id records)" "set rs \<subseteq> set records" "walk_ok auth records w"
    "auth_walk auth need rs w = (w', err)"
  shows "walk_ok auth records w'
     \<and> (\<exists>k \<le> length rs. map fst (wk_authenticated w') = map fst (wk_authenticated w) @ filter (authentic auth) (take k rs)
          \<and> (err = None \<and> wk_walked_whole_pool w' \<and> wk_total w' < need \<longrightarrow> k = length rs))
     \<and> (wk_walked_whole_pool w \<and> \<not> wk_walked_whole_pool w' \<longrightarrow> wk_attempts w' = MAX_AUTHENTICATION_ATTEMPTS)
     \<and> (\<forall>f. err = Some f \<longrightarrow> (\<exists>r \<in> set rs. \<exists>v. auth r = Inl (f, v) \<and> (\<forall>i m. f \<noteq> Unauthenticated i m)))"
  using assms
proof (induction auth need rs w rule: auth_walk.induct)
  case (1 auth need w)
  then show ?case by auto
next
  case (2 auth need r rs w)
  have step: ?case
    if "auth_walk auth need rs w1 = (w', err)" "walk_ok auth records w1"
      "map fst (wk_authenticated w1) = map fst (wk_authenticated w) @ filter (authentic auth) [r]"
      "wk_walked_whole_pool w1 = wk_walked_whole_pool w"
      "walk_ok auth records w1 \<Longrightarrow> walk_ok auth records w'
        \<and> (\<exists>k \<le> length rs. map fst (wk_authenticated w') = map fst (wk_authenticated w1) @ filter (authentic auth) (take k rs)
          \<and> (err = None \<and> wk_walked_whole_pool w' \<and> wk_total w' < need \<longrightarrow> k = length rs))
        \<and> (wk_walked_whole_pool w1 \<and> \<not> wk_walked_whole_pool w' \<longrightarrow> wk_attempts w' = MAX_AUTHENTICATION_ATTEMPTS)
        \<and> (\<forall>f. err = Some f \<longrightarrow> (\<exists>r \<in> set rs. \<exists>v. auth r = Inl (f, v) \<and> (\<forall>i m. f \<noteq> Unauthenticated i m)))"
    for w1
  proof -
    from that(5) [OF that(2)] obtain k where k: "k \<le> length rs"
      "map fst (wk_authenticated w') = map fst (wk_authenticated w1) @ filter (authentic auth) (take k rs)"
      "err = None \<and> wk_walked_whole_pool w' \<and> wk_total w' < need \<longrightarrow> k = length rs" by blast
    have "map fst (wk_authenticated w') = map fst (wk_authenticated w) @ filter (authentic auth) (take (Suc k) (r # rs))"
      using k(2) that(3) by (simp split: if_splits)
    then have "\<exists>k \<le> length (r # rs). map fst (wk_authenticated w') = map fst (wk_authenticated w) @ filter (authentic auth) (take k (r # rs))
          \<and> (err = None \<and> wk_walked_whole_pool w' \<and> wk_total w' < need \<longrightarrow> k = length (r # rs))"
      using k(1,3) by (intro exI [of _ "Suc k"]) simp
    with that(4) that(5) [OF that(2)] show ?thesis by simp
  qed
  show ?case
  proof (cases "need \<le> wk_total w")
    case True
    with 2(6,7) show ?thesis by (auto intro!: exI [of _ 0])
  next
    case total: False
    show ?thesis
    proof (cases "recall (wk_memo w) (cr_coin_id r)")
      case (Some reason)
      have "\<not> authentic auth r" using Some 2(5,6) by (auto simp: memo_sound_def walk_ok_def)
      moreover have run: "auth_walk auth need rs (w\<lparr>wk_skipped := wk_skipped w @ [(cr_coin_id r, reason)]\<rparr>) = (w', err)"
        using 2(7) total Some by simp
      moreover have "set rs \<subseteq> set records" using 2(5) by simp
      moreover have "walk_ok auth records (w\<lparr>wk_skipped := wk_skipped w @ [(cr_coin_id r, reason)]\<rparr>)"
        using 2(6) by (simp add: walk_ok_def)
      ultimately show ?thesis
        using 2(3) [OF total Some 2(4) _ _ run] by (intro step [OF run]) simp_all
    next
      case None
      show ?thesis
      proof (cases "wk_attempts w \<ge> MAX_AUTHENTICATION_ATTEMPTS")
        case True
        with total None 2(6,7) walk_ok_attempts [OF 2(6)] show ?thesis by (auto intro!: exI [of _ 0])
      next
        case more: False
        show ?thesis
        proof (cases "auth r")
          case (Inr c)
          let ?w1 = "w\<lparr>wk_attempts := wk_attempts w + 1\<rparr>"
          let ?w2 = "?w1\<lparr>wk_authenticated := wk_authenticated ?w1 @ [(r, c)], wk_total := u64_sat_add (wk_total ?w1) (cr_amount r)\<rparr>"
          have run: "auth_walk auth need rs ?w2 = (w', err)" using 2(7) total None more Inr by simp
          have "walk_ok auth records ?w2"
            using 2(6) more Inr u64_sat_add_min [of "sum_list (map (cr_amount \<circ> fst) (wk_authenticated w))" "cr_amount r"]
            by (simp add: walk_ok_def)
          moreover have "authentic auth r" using Inr by (simp add: authentic_def)
          moreover have "set rs \<subseteq> set records" using 2(5) by simp
          ultimately show ?thesis
            using 2(2) [OF total None more refl Inr 2(4) _ _ run] by (intro step [OF run]) simp_all
        next
          case (Inl p)
          obtain e v where p: "p = (e, v)" by (metis prod.exhaust)
          have no: "\<not> authentic auth r" using Inl by (simp add: authentic_def)
          show ?thesis
          proof (cases "\<exists>i m. e = Unauthenticated i m")
            case True
            then obtain i m where e: "e = Unauthenticated i m" by blast
            have mem: "memo_sound auth records (if v = Final then remember (cr_coin_id r) m (wk_memo w) else wk_memo w)"
              using 2(4-6) no by (auto simp: walk_ok_def intro!: memo_sound_remember)
            let ?w1 = "w\<lparr>wk_attempts := wk_attempts w + 1\<rparr>"
            let ?w2 = "?w1\<lparr>wk_skipped := wk_skipped ?w1 @ [(i, m)],
              wk_memo := (if v = Final then remember (cr_coin_id r) m (wk_memo ?w1) else wk_memo ?w1)\<rparr>"
            have run: "auth_walk auth need rs ?w2 = (w', err)" using 2(7) total None more Inl p e
              by (cases v) (simp_all add: Let_def)
            have "walk_ok auth records ?w2" using 2(6) more mem by (cases v) (simp_all add: walk_ok_def)
            moreover have "set rs \<subseteq> set records" using 2(5) by simp
            ultimately show ?thesis
              using no 2(1) [OF total None more refl Inl p [symmetric] e 2(4) _ _ run] by (intro step [OF run]) simp_all
          next
            case False
            then have "auth_walk auth need (r # rs) w = (w\<lparr>wk_attempts := wk_attempts w + 1\<rparr>, Some e)"
              using total None more Inl p by (cases e) simp_all
            with 2(6,7) more Inl p False show ?thesis
              by (auto intro!: exI [of _ 0])
          qed
        qed
      qed
    qed
  qed
qed

lemma authenticate_facts:
  "authenticate src dig owner r = Inr c \<Longrightarrow>
     cat_coin_id c = cr_coin_id r \<and> cat_asset_id c = dig \<and> cat_p2_puzzle_hash c = owner"
  "authenticate src dig owner r = Inl (e, v) \<Longrightarrow> \<forall>i m. e \<noteq> Unauthenticated i m \<Longrightarrow>
     \<exists>msg. e = FChain msg \<and> cs_coin_spend src (cr_parent r) = Inl msg"
  by (auto simp: authenticate_def resolve_cat_def find_Some_iff split: sum.splits option.splits if_splits)

lemma funding_pool_facts:
  "set (funding_pool records committed) = {r \<in> set records. \<not> cr_is_spent r \<and> cr_coin_id r \<notin> committed}"
  "sorted (map (\<lambda>r. (- int (cr_amount r), cr_coin_id r)) (funding_pool records committed))"
  "distinct (map cr_coin_id records) \<Longrightarrow> distinct (map cr_coin_id (funding_pool records committed))"
  by (auto simp: funding_pool_def distinct_map distinct_sort inj_on_def)

lemma sorted_map_filter_take:
  "sorted (map f xs) \<Longrightarrow> sorted (map f (filter P (take k xs)))"
  by (metis sorted_filter sorted_wrt_take take_map)

text \<open>The last step on the coins the walk authenticated, which come in the order of the selection.\<close>

lemma select_within_spec:
  fixes as :: "(coin_record \<times> 'a) list"
  assumes "need \<le> u64_max" "sorted (map (\<lambda>r. (- int (cr_amount r), cr_coin_id r)) (map fst as))"
  defines "items \<equiv> map (\<lambda>(r, c). (cr_amount r, cr_coin_id r, c)) as"
  shows "select_within_input_bound items need = Inl (Insufficient (sum_list (map (cr_amount \<circ> fst) as)) need)
       \<and> sum_list (map (cr_amount \<circ> fst) as) < need
     \<or> (\<exists>k \<le> length as. need \<le> sum_list (map (cr_amount \<circ> fst) (take k as))
          \<and> (\<forall>j < k. sum_list (map (cr_amount \<circ> fst) (take j as)) < need)
          \<and> select_within_input_bound items need =
              (if k > MAX_SELECTED_FUNDING_COINS
               then Inl (TooManyInputs k MAX_SELECTED_FUNDING_COINS
                          (min (sum_list (map (cr_amount \<circ> fst) as)) u64_max) need)
               else Inr (map snd (take k as))))"
proof -
  let ?key = "\<lambda>(amount :: nat, cid :: string, c :: 'a). (amount, cid)"
  have "map (\<lambda>x. (- int (fst (?key x)), snd (?key x))) items
      = map (\<lambda>r. (- int (cr_amount r), cr_coin_id r)) (map fst as)"
    by (auto simp: items_def)
  with assms(2) have id: "largest_first ?key items = items" by (simp add: sort_key_id_if_sorted)
  have amounts: "sum_list (map (\<lambda>x. fst (?key x)) (take j items)) = sum_list (map (cr_amount \<circ> fst) (take j as))" for j
    by (simp add: items_def take_map comp_def split_beta)
  have all: "sum_list (map (\<lambda>x. fst (?key x)) items) = sum_list (map (cr_amount \<circ> fst) as)"
    using amounts [of "length as"] by (simp add: items_def)
  have folded: "foldl (\<lambda>s (amount, _, _). u64_sat_add s amount) 0 items = min (sum_list (map (cr_amount \<circ> fst) as)) u64_max"
  proof -
    have "(\<lambda>s (amount, _ :: string, _ :: 'a). u64_sat_add s amount) = (\<lambda>s d. u64_sat_add s (fst d))"
      by (simp add: fun_eq_iff split_beta)
    moreover have "sum_list (map fst items) = sum_list (map (cr_amount \<circ> fst) as)"
      by (simp add: items_def comp_def split_beta)
    ultimately show ?thesis using foldl_sat [of 0 fst items] by simp
  qed
  have len: "length items = length as" by (simp add: items_def)
  have pay: "map (\<lambda>(_, _, payload). payload) (take k items) = map snd (take k as)" for k
    by (simp add: items_def take_map comp_def split_beta)
  from select_largest_first_spec [OF assms(1), of items ?key, unfolded id amounts all len]
  consider (short) "select_largest_first items need ?key = Inl \<lparr>sf_have = sum_list (map (cr_amount \<circ> fst) as), sf_need = need\<rparr>"
      "sum_list (map (cr_amount \<circ> fst) as) < need"
    | (sel) k where "select_largest_first items need ?key = Inr (take k items)" "k \<le> length as"
      "need \<le> sum_list (map (cr_amount \<circ> fst) (take k as))" "\<forall>j < k. sum_list (map (cr_amount \<circ> fst) (take j as)) < need"
    by blast
  then show ?thesis
  proof cases
    case short
    then show ?thesis by (simp add: select_within_input_bound_def Let_def)
  next
    case sel
    then show ?thesis
      by (intro disjI2 exI [of _ k]) (simp add: select_within_input_bound_def Let_def folded pay len)
  qed
qed

lemma select_within_cases [consumes 2, case_names short many ok]:
  fixes as :: "(coin_record \<times> 'a) list"
  assumes "need \<le> u64_max" "sorted (map (\<lambda>r. (- int (cr_amount r), cr_coin_id r)) (map fst as))"
  defines "items \<equiv> map (\<lambda>(r, c). (cr_amount r, cr_coin_id r, c)) as"
  obtains
    (short) "select_within_input_bound items need = Inl (Insufficient (sum_list (map (cr_amount \<circ> fst) as)) need)"
      "sum_list (map (cr_amount \<circ> fst) as) < need"
  | (many) n tot where "n \<le> length as" "32 < n" "\<forall>j < n. sum_list (map (cr_amount \<circ> fst) (take j as)) < need"
      "select_within_input_bound items need = Inl (TooManyInputs n 32 tot need)"
  | (ok) n where "n \<le> 32" "need \<le> sum_list (map (cr_amount \<circ> fst) (take n as))"
      "select_within_input_bound items need = Inr (map snd (take n as))"
proof -
  from select_within_spec [OF assms(1,2), folded items_def] show ?thesis
  proof (elim disjE exE conjE)
    fix k
    assume k: "k \<le> length as" "need \<le> sum_list (map (cr_amount \<circ> fst) (take k as))"
      "\<forall>j < k. sum_list (map (cr_amount \<circ> fst) (take j as)) < need"
      "select_within_input_bound items need = (if k > MAX_SELECTED_FUNDING_COINS
         then Inl (TooManyInputs k MAX_SELECTED_FUNDING_COINS (min (sum_list (map (cr_amount \<circ> fst) as)) u64_max) need)
         else Inr (map snd (take k as)))"
    show ?thesis
    proof (cases "32 < k")
      case True
      then show ?thesis using k by (intro many [OF k(1) _ k(3)]) (simp_all add: MAX_SELECTED_FUNDING_COINS_def)
    next
      case False
      then show ?thesis using k by (intro ok [OF _ k(2)]) (simp_all add: MAX_SELECTED_FUNDING_COINS_def)
    qed
  qed (rule short)
qed

lemma many_pieces:
  assumes "rs = filter P (take k pool)" "sorted (map (\<lambda>r. (- int (cr_amount r), cr_coin_id r)) pool)"
    "n \<le> length rs" "32 < n" "\<forall>j < n. sum_list (map cr_amount (take j rs)) < need"
    "B \<subseteq># mset (filter P pool)" "need \<le> sum_mset (image_mset cr_amount B)"
  shows "32 < size B"
proof (rule ccontr)
  assume few: "\<not> 32 < size B"
  have "filter P pool = rs @ filter P (drop k pool)" by (metis assms(1) append_take_drop_id filter_append)
  then have "take (size B) (filter P pool) = take (size B) rs" using few assms(3,4) by simp
  moreover have "sorted_wrt (\<lambda>x y. cr_amount y \<le> cr_amount x) pool"
    using assms(2) unfolding sorted_map by (rule sorted_wrt_mono_rel [rotated]) auto
  then have "sum_mset (image_mset cr_amount B) \<le> sum_list (map cr_amount (take (size B) (filter P pool)))"
    using assms(6) by (intro sum_le_take sorted_wrt_filter)
  moreover have "size B < n" using few assms(4) by simp
  ultimately show False using assms(5,7) by fastforce
qed

section \<open>Properties of the selection\<close>

text \<open>
  largest-first selection covers the target with the fewest coins. It returns coins of the wallet
  worth at least the target, and no set of coins of the wallet that covers the target is smaller; it
  refuses exactly when all coins together fall short, and then reports their exact total.
\<close>
theorem select_largest_first_fewest:
  fixes key :: "'a \<Rightarrow> nat \<times> 'k::linorder"
  assumes "target \<le> u64_max"
  shows "case select_largest_first items target key of
      Inr sel \<Rightarrow> mset sel \<subseteq># mset items \<and> target \<le> sum_list (map (fst \<circ> key) sel)
        \<and> (\<forall>B. B \<subseteq># mset items \<and> target \<le> sum_mset (image_mset (fst \<circ> key) B) \<longrightarrow> length sel \<le> size B)
    | Inl s \<Rightarrow> sf_have s = sum_list (map (fst \<circ> key) items) \<and> sf_need s = target \<and> sf_have s < target"
proof -
  let ?ds = "largest_first key items"
  have fewest: "k \<le> size B"
    if "\<forall>j < k. sum_list (map (\<lambda>x. fst (key x)) (take j ?ds)) < target"
      "B \<subseteq># mset items" "target \<le> sum_mset (image_mset (fst \<circ> key) B)" for k B
  proof (rule ccontr)
    assume "\<not> k \<le> size B"
    then have "sum_list (map (\<lambda>x. fst (key x)) (take (size B) ?ds)) < target" using that(1) by simp
    moreover have "sum_mset (image_mset (\<lambda>x. fst (key x)) B) \<le> sum_list (map (\<lambda>x. fst (key x)) (take (size B) ?ds))"
      using sum_le_take [OF largest_first_desc [of key items], of B] that(2) by simp
    ultimately show False using that(3) by (simp add: comp_def)
  qed
  have sub: "mset (take k ?ds) \<subseteq># mset items" for k using mset_take_subset [of k ?ds] by simp
  from select_largest_first_spec [OF assms, of items key]
  consider (short) "select_largest_first items target key = Inl \<lparr>sf_have = sum_list (map (\<lambda>x. fst (key x)) items), sf_need = target\<rparr>"
      "sum_list (map (\<lambda>x. fst (key x)) items) < target"
    | (sel) k where "select_largest_first items target key = Inr (take k ?ds)" "k \<le> length ?ds"
      "target \<le> sum_list (map (\<lambda>x. fst (key x)) (take k ?ds))"
      "\<forall>j < k. sum_list (map (\<lambda>x. fst (key x)) (take j ?ds)) < target"
    by blast
  then show ?thesis
  proof cases
    case short
    then show ?thesis by (simp add: comp_def)
  next
    case sel
    then show ?thesis using fewest [OF sel(4)] sub by (simp add: comp_def)
  qed
qed

theorem select_largest_first_fewest_witness:
  "select_largest_first [(30, ''c''), (70, ''a''), (30, ''b''), (100, ''d'')] 120 id
     = Inr [(100 :: nat, ''d''), (70, ''a'')]
   \<and> (\<nexists>B. B \<subseteq># mset [(30, ''c''), (70, ''a''), (30, ''b''), (100 :: nat, ''d'')] \<and> 120 \<le> sum_mset (image_mset fst B)
        \<and> size B < 2)"
proof -
  have run: "select_largest_first [(30, ''c''), (70, ''a''), (30, ''b''), (100, ''d'')] 120 id
     = Inr [(100 :: nat, ''d''), (70, ''a'')]"
    by (simp add: select_largest_first_def u64_sat_add_def)
  with select_largest_first_fewest [where target = 120 and key = id and items = "[(30, ''c''), (70, ''a''), (30, ''b''), (100 :: nat, ''d'')]"]
  show ?thesis by (auto simp: not_less numeral_2_eq_2)
qed

text \<open>
  The walk under a selection: what it authenticated is what is authentic among the coins it looked at, in
  the order of the pool; it looked at the whole pool unless it met an error, its cap or the amount.
\<close>

lemma selection_walk:
  assumes "0 < need" "cs_coin_records src = Inr records" "distinct (map cr_coin_id records)"
    "memo_sound (authenticate src dig owner) records memo"
    "select_operator_dig_cats src dig owner need committed memo = (res, memo')"
  obtains w :: funding_walk and err k where
    "k \<le> length (funding_pool records committed)"
    "map fst (wk_authenticated w) = filter (authentic (authenticate src dig owner)) (take k (funding_pool records committed))"
    "err = None \<and> wk_walked_whole_pool w \<and> wk_total w < need \<longrightarrow> k = length (funding_pool records committed)"
    "\<forall>(r, c) \<in> set (wk_authenticated w). authenticate src dig owner r = Inr c"
    "wk_total w = min (sum_list (map (cr_amount \<circ> fst) (wk_authenticated w))) u64_max"
    "memo_sound (authenticate src dig owner) records memo'"
    "\<forall>f. err = Some f \<longrightarrow> (\<exists>r \<in> set records. \<exists>v. authenticate src dig owner r = Inl (f, v) \<and> (\<forall>i m. f \<noteq> Unauthenticated i m))"
    "err = None \<and> \<not> wk_walked_whole_pool w \<and> wk_total w < need \<longrightarrow> wk_attempts w = 128"
    "res = (case err of Some fatal \<Rightarrow> Inl fatal
      | None \<Rightarrow> if \<not> wk_walked_whole_pool w \<and> wk_total w < need
                then Inl (CandidatesUnverifiable (wk_attempts w) (length (wk_skipped w)) need)
                else select_within_input_bound (map (\<lambda>(r, c). (cr_amount r, cr_coin_id r, c)) (wk_authenticated w)) need)"
proof -
  let ?auth = "authenticate src dig owner"
  define pool where "pool = funding_pool records committed"
  have pool: "set pool \<subseteq> set records"
    using funding_pool_facts [of records committed] by (auto simp: pool_def)
  define w0 where "w0 = \<lparr>wk_authenticated = [], wk_total = 0, wk_skipped = [], wk_attempts = 0, wk_walked_whole_pool = True,
                  wk_memo = retain_only (cr_coin_id ` set pool) memo\<rparr>"
  obtain w err where walk: "auth_walk ?auth need pool w0 = (w, err)" by (metis prod.exhaust)
  have "walk_ok ?auth records w0"
    using assms(4) by (auto simp: walk_ok_def w0_def memo_sound_def recall_retain)
  note spec = auth_walk_spec [OF assms(3) pool this walk]
  obtain k where k: "k \<le> length pool" "map fst (wk_authenticated w) = filter (authentic ?auth) (take k pool)"
    "err = None \<and> wk_walked_whole_pool w \<and> wk_total w < need \<longrightarrow> k = length pool"
    using spec by (auto simp: w0_def)
  have as: "\<forall>(r, c) \<in> set (wk_authenticated w). ?auth r = Inr c"
    "wk_total w = min (sum_list (map (cr_amount \<circ> fst) (wk_authenticated w))) u64_max"
    "memo_sound ?auth records (wk_memo w)"
    using spec by (simp_all add: walk_ok_def)
  have result: "memo' = wk_memo w" "res = (case err of Some fatal \<Rightarrow> Inl fatal
      | None \<Rightarrow> if \<not> wk_walked_whole_pool w \<and> wk_total w < need
                then Inl (CandidatesUnverifiable (wk_attempts w) (length (wk_skipped w)) need)
                else select_within_input_bound (map (\<lambda>(r, c). (cr_amount r, cr_coin_id r, c)) (wk_authenticated w)) need)"
    using assms(1,5) walk
    by (auto simp: select_operator_dig_cats_def assms(2) Let_def split: option.splits if_splits
        simp flip: pool_def w0_def)
  have fatal: "\<forall>f. err = Some f \<longrightarrow> (\<exists>r \<in> set records. \<exists>v. ?auth r = Inl (f, v) \<and> (\<forall>i m. f \<noteq> Unauthenticated i m))"
    using spec pool by blast
  have cap: "err = None \<and> \<not> wk_walked_whole_pool w \<and> wk_total w < need \<longrightarrow> wk_attempts w = 128"
    using spec by (simp add: w0_def MAX_AUTHENTICATION_ATTEMPTS_def)
  show ?thesis
    by (rule that [of k w err]) (use k as fatal cap result in \<open>simp_all add: pool_def\<close>)
qed

text \<open>
  C33: what a create is paid with, and what the operator is told, is the operator's own money. With a
  memo that holds only coins that do not authenticate, a selection that succeeds returns at most 32
  distinct coins, unspent, not reserved by a bundle in flight, each proven to be $DIG of this operator,
  together worth the need. A shortfall is reported only when every such coin of the whole address falls
  short together, with their exact total; too many pieces only when no 32 of them cover the need; an
  unverifiable address only after the whole budget of reads was used; a chain error only when the source
  failed. And the memo that is kept still holds only coins that do not authenticate.
\<close>
theorem funding_selection_authentic:
  assumes "0 < need" "need \<le> u64_max" "cs_coin_records src = Inr records" "distinct (map cr_coin_id records)"
    "memo_sound (authenticate src dig owner) records memo"
    "select_operator_dig_cats src dig owner need committed memo = (res, memo')"
  shows "memo_sound (authenticate src dig owner) records memo'
    \<and> (let mine = filter (authentic (authenticate src dig owner))
                     (filter (\<lambda>r. \<not> cr_is_spent r \<and> cr_coin_id r \<notin> committed) records)
       in case res of
          Inr cats \<Rightarrow> (\<exists>rs. distinct rs \<and> set rs \<subseteq> set mine \<and> length rs \<le> 32 \<and> need \<le> sum_list (map cr_amount rs)
            \<and> list_all2 (\<lambda>r c. cat_coin_id c = cr_coin_id r \<and> cat_asset_id c = dig \<and> cat_p2_puzzle_hash c = owner) rs cats)
        | Inl (Insufficient have n) \<Rightarrow> n = need \<and> have = sum_list (map cr_amount mine) \<and> have < need
        | Inl (TooManyInputs k limit have n) \<Rightarrow>
            (\<forall>B. B \<subseteq># mset mine \<and> need \<le> sum_mset (image_mset cr_amount B) \<longrightarrow> 32 < size B)
        | Inl (CandidatesUnverifiable attempted skipped n) \<Rightarrow> attempted = 128
        | Inl (FChain e) \<Rightarrow> (\<exists>r \<in> set records. cs_coin_spend src (cr_parent r) = Inl e)
        | Inl _ \<Rightarrow> False)"
proof -
  let ?auth = "authenticate src dig owner"
  define pool where "pool = funding_pool records committed"
  define raw where "raw = filter (\<lambda>r. \<not> cr_is_spent r \<and> cr_coin_id r \<notin> committed) records"
  let ?mine = "filter (authentic ?auth) raw"
  have pool: "sorted (map (\<lambda>r. (- int (cr_amount r), cr_coin_id r)) pool)" "mset pool = mset raw" "distinct pool"
    using funding_pool_facts [of records committed] assms(4)
    by (auto simp: pool_def raw_def funding_pool_def conj_commute distinct_map)
  have mine: "mset (filter (authentic ?auth) pool) = mset ?mine" using pool(2) by (metis mset_filter)
  obtain w :: funding_walk and err k where "k \<le> length pool" and walk:
    "map fst (wk_authenticated w) = filter (authentic ?auth) (take k pool)"
    "err = None \<and> wk_walked_whole_pool w \<and> wk_total w < need \<longrightarrow> k = length pool"
    "\<forall>(r, c) \<in> set (wk_authenticated w). ?auth r = Inr c"
    "wk_total w = min (sum_list (map (cr_amount \<circ> fst) (wk_authenticated w))) u64_max"
    and memo: "memo_sound ?auth records memo'"
    and fatal: "\<forall>f. err = Some f \<longrightarrow> (\<exists>r \<in> set records. \<exists>v. ?auth r = Inl (f, v) \<and> (\<forall>i m. f \<noteq> Unauthenticated i m))"
    and cap: "err = None \<and> \<not> wk_walked_whole_pool w \<and> wk_total w < need \<longrightarrow> wk_attempts w = 128"
    and res: "res = (case err of Some fatal \<Rightarrow> Inl fatal
      | None \<Rightarrow> if \<not> wk_walked_whole_pool w \<and> wk_total w < need
                then Inl (CandidatesUnverifiable (wk_attempts w) (length (wk_skipped w)) need)
                else select_within_input_bound (map (\<lambda>(r, c). (cr_amount r, cr_coin_id r, c)) (wk_authenticated w)) need)"
    by (rule selection_walk [OF assms(1,3-6), folded pool_def])
  let ?as = "wk_authenticated w"
  have sorted: "sorted (map (\<lambda>r. (- int (cr_amount r), cr_coin_id r)) (map fst ?as))"
    unfolding walk(1) by (rule sorted_map_filter_take [OF pool(1)])
  consider f where "err = Some f" | "err = None" "\<not> wk_walked_whole_pool w \<and> wk_total w < need"
    | "err = None" "wk_walked_whole_pool w \<or> need \<le> wk_total w" by fastforce
  then show ?thesis
  proof cases
    case (1 f)
    with fatal obtain r v where "r \<in> set records" "?auth r = Inl (f, v)" "\<forall>i m. f \<noteq> Unauthenticated i m" by blast
    then show ?thesis using authenticate_facts(2) memo res 1 by (fastforce simp: Let_def)
  next
    case 2
    then show ?thesis using cap memo res by simp
  next
    case 3
    then have sel: "res = select_within_input_bound (map (\<lambda>(r, c). (cr_amount r, cr_coin_id r, c)) ?as) need"
      using res by auto
    from assms(2) sorted show ?thesis
    proof (cases rule: select_within_cases)
      case short
      then have "map fst ?as = filter (authentic ?auth) pool" using 3 walk by auto
      then have "sum_list (map cr_amount ?mine) = sum_list (map cr_amount (map fst ?as))"
        using mine by (metis sum_list_mset_eq)
      with short sel memo show ?thesis by (simp flip: raw_def)
    next
      case (many n tot)
      have "32 < size B" if "B \<subseteq># mset ?mine" "need \<le> sum_mset (image_mset cr_amount B)" for B
        using many_pieces [OF walk(1) pool(1), of n need B] many(1-3) that mine by (simp add: take_map)
      with many sel memo show ?thesis by (simp flip: raw_def)
    next
      case (ok n)
      have "distinct (map fst ?as)" using walk(1) pool(3) by simp
      then have "distinct (map fst (take n ?as))" by (metis distinct_take take_map)
      moreover have "set (map fst ?as) \<subseteq> set ?mine"
        unfolding walk(1) using set_take_subset [of k pool] mset_eq_setD [OF pool(2)] by auto
      then have "set (map fst (take n ?as)) \<subseteq> set ?mine" by (auto dest: in_set_takeD)
      moreover have "list_all2 (\<lambda>r c. cat_coin_id c = cr_coin_id r \<and> cat_asset_id c = dig \<and> cat_p2_puzzle_hash c = owner)
          (map fst (take n ?as)) (map snd (take n ?as))"
        using walk(3) authenticate_facts(1) by (fastforce simp: list_all2_map1 list_all2_map2 list_all2_same dest: in_set_takeD)
      ultimately show ?thesis
        using ok sel memo by (simp flip: raw_def) (intro exI [of _ "map fst (take n ?as)"], simp add: comp_def)
    qed
  qed
qed

text \<open>An address with two coins of the operator and a larger one that somebody planted there.\<close>

definition sample_source :: "string chain_source" where
  "sample_source =
     \<lparr>cs_coin_records = Inr [\<lparr>cr_coin_id = ''a'', cr_parent = ''pa'', cr_amount = 30, cr_is_spent = False\<rparr>,
        \<lparr>cr_coin_id = ''x'', cr_parent = ''px'', cr_amount = 100, cr_is_spent = False\<rparr>,
        \<lparr>cr_coin_id = ''b'', cr_parent = ''pb'', cr_amount = 70, cr_is_spent = False\<rparr>],
      cs_coin_spend = (\<lambda>p. Inr (Some p)), cs_alloc_error = (\<lambda>_. None),
      cs_parse_children = (\<lambda>p. if p = ''px'' then None
        else Some [\<lparr>cat_coin_id = tl p, cat_asset_id = ''dig'', cat_p2_puzzle_hash = ''own''\<rparr>])\<rparr>"

theorem funding_selection_authentic_witness:
  "\<exists>cats. fst (select_operator_dig_cats sample_source ''dig'' ''own'' 80 {} []) = Inr cats
     \<and> map cat_coin_id cats = [''b'', ''a'']
     \<and> (\<exists>rs :: coin_record list. length rs \<le> 32 \<and> 80 \<le> sum_list (map cr_amount rs)
          \<and> list_all2 (\<lambda>r c. cat_coin_id c = cr_coin_id r \<and> cat_asset_id c = ''dig'' \<and> cat_p2_puzzle_hash c = ''own'') rs cats)"
proof -
  let ?cats = "[\<lparr>cat_coin_id = ''b'', cat_asset_id = ''dig'', cat_p2_puzzle_hash = ''own''\<rparr>,
    \<lparr>cat_coin_id = ''a'', cat_asset_id = ''dig'', cat_p2_puzzle_hash = ''own''\<rparr>]"
  let ?memo = "[(''x'', ''its creating spend produced no matching CAT child'')]"
  have run: "select_operator_dig_cats sample_source ''dig'' ''own'' 80 {} [] = (Inr ?cats, ?memo)"
    by (simp add: select_operator_dig_cats_def sample_source_def funding_pool_def Let_def retain_only_def recall_def
        remember_def authenticate_def resolve_cat_def MAX_AUTHENTICATION_ATTEMPTS_def MAX_ENTRIES_def
        MAX_SELECTED_FUNDING_COINS_def select_within_input_bound_def select_largest_first_def u64_sat_add_def)
  have memo: "memo_sound (authenticate sample_source ''dig'' ''own'') (projr (cs_coin_records sample_source)) []"
    by (simp add: memo_sound_def recall_def)
  have src: "cs_coin_records sample_source = Inr (projr (cs_coin_records sample_source))"
    "distinct (map cr_coin_id (projr (cs_coin_records sample_source)))"
    by (simp_all add: sample_source_def)
  have need: "0 < (80 :: nat)" "(80 :: nat) \<le> u64_max" by simp_all
  from funding_selection_authentic [OF need src memo run, unfolded Let_def sum.case]
  have "\<exists>rs :: coin_record list. length rs \<le> 32 \<and> 80 \<le> sum_list (map cr_amount rs)
      \<and> list_all2 (\<lambda>r c. cat_coin_id c = cr_coin_id r \<and> cat_asset_id c = ''dig'' \<and> cat_p2_puzzle_hash c = ''own'') rs ?cats"
    by blast
  with run show ?thesis by (intro exI [of _ ?cats]) simp
qed

text \<open>
  The counts of a truncated walk: a coin refused in an earlier selection is skipped without being
  attempted, so the skipped coins are not among the attempted ones and may outnumber them.
\<close>

lemma truncated_counts:
  assumes "\<forall>r \<in> set planted. recall memo (cr_coin_id r) \<noteq> None" "wk_total w < need" "wk_memo w = memo"
  shows "\<exists>sk. length sk = length (wk_skipped w) + length planted
    \<and> auth_walk auth need (planted @ rs) w = auth_walk auth need rs (w\<lparr>wk_skipped := sk\<rparr>)"
  using assms
proof (induction planted arbitrary: w)
  case Nil
  then show ?case by (intro exI [of _ "wk_skipped w"]) simp
next
  case (Cons r planted)
  then obtain reason where "recall memo (cr_coin_id r) = Some reason" by auto
  with Cons show ?case
    using Cons.IH [of "w\<lparr>wk_skipped := wk_skipped w @ [(cr_coin_id r, reason)]\<rparr>"] by fastforce
qed

section \<open>When the operator is told\<close>

datatype funding_remedy = TopUp | Consolidate

datatype unmeasured_funding = NoCreateAffordable nat | AuthenticationTruncated nat nat

datatype unmeasured_kind = KindNoCreateAffordable | KindAuthenticationTruncated

fun alert_key :: "unmeasured_funding \<Rightarrow> unmeasured_kind \<times> nat option" where
  "alert_key (NoCreateAffordable need) = (KindNoCreateAffordable, Some need)"
| "alert_key (AuthenticationTruncated _ _) = (KindAuthenticationTruncated, None)"

datatype funding_observation =
  Healthy
| Short nat nat funding_remedy
| Unmeasured unmeasured_funding
| UnknownFunding

fun from_error :: "funding_error \<Rightarrow> funding_observation" where
  "from_error (Insufficient have need) = Short have need TopUp"
| "from_error (TooManyInputs _ _ have need) = Short have need Consolidate"
| "from_error (FChain _) = UnknownFunding"
| "from_error (CommitmentsUnreadable _) = UnknownFunding"
| "from_error (Unauthenticated _ _) = UnknownFunding"
| "from_error ZeroCollateral = UnknownFunding"
| "from_error (CandidatesUnverifiable attempted skipped _) = Unmeasured (AuthenticationTruncated attempted skipped)"

text \<open>The kinds of message, with the figures each quotes.\<close>

datatype alert_body =
  Resumed
| CannotFundOne nat
| TooManyCoinsToCheck nat nat
| ShortBy nat nat nat
| TooManyPieces nat

record funding_alert =
  fa_title :: string
  fa_body :: alert_body
  fa_remedy :: "funding_remedy option"

definition unmeasured_alert :: "unmeasured_funding \<Rightarrow> funding_alert" where
  "unmeasured_alert reason =
     \<lparr>fa_title = ''DIG node cannot bond content'',
      fa_body = (case reason of NoCreateAffordable need \<Rightarrow> CannotFundOne need
                              | AuthenticationTruncated attempted skipped \<Rightarrow> TooManyCoinsToCheck attempted skipped),
      fa_remedy = (case reason of NoCreateAffordable _ \<Rightarrow> Some TopUp | AuthenticationTruncated _ _ \<Rightarrow> None)\<rparr>"

definition shortfall_alert :: "nat \<Rightarrow> nat \<Rightarrow> funding_remedy \<Rightarrow> funding_alert" where
  "shortfall_alert have need remedy =
     \<lparr>fa_title = ''DIG node cannot bond content'',
      fa_body = (case remedy of TopUp \<Rightarrow> ShortBy need have (need - have) | Consolidate \<Rightarrow> TooManyPieces need),
      fa_remedy = Some remedy\<rparr>"

record alert_gate =
  ag_alerted :: "(funding_remedy \<times> nat) option"
  ag_unmeasured :: "(unmeasured_kind \<times> nat option) option"

definition alert_gate_default :: alert_gate where
  "alert_gate_default = \<lparr>ag_alerted = None, ag_unmeasured = None\<rparr>"

definition MATERIAL_DEFICIT_GROWTH_PERCENT :: nat where "MATERIAL_DEFICIT_GROWTH_PERCENT = 50"

definition grew_materially :: "nat \<Rightarrow> nat \<Rightarrow> bool" where
  "grew_materially last_deficit deficit \<longleftrightarrow>
     deficit > u64_sat_add last_deficit (u64_sat_mul last_deficit MATERIAL_DEFICIT_GROWTH_PERCENT div 100)"

definition clear_and_announce_recovery :: "alert_gate \<Rightarrow> funding_alert option \<times> alert_gate" where
  "clear_and_announce_recovery g =
     (if ag_alerted g \<noteq> None \<or> ag_unmeasured g \<noteq> None
      then Some \<lparr>fa_title = ''DIG mirror collateral resumed'', fa_body = Resumed, fa_remedy = None\<rparr> else None,
      g\<lparr>ag_alerted := None, ag_unmeasured := None\<rparr>)"

fun gate_observe :: "alert_gate \<Rightarrow> funding_observation \<Rightarrow> funding_alert option \<times> alert_gate" where
  "gate_observe g UnknownFunding = (None, g)"
| "gate_observe g (Unmeasured reason) =
     (if ag_unmeasured g = Some (alert_key reason) then (None, g)
      else (Some (unmeasured_alert reason), g\<lparr>ag_unmeasured := Some (alert_key reason)\<rparr>))"
| "gate_observe g Healthy = clear_and_announce_recovery g"
| "gate_observe g (Short have need remedy) =
     (let deficit = need - have;
          speak = (case ag_alerted g of
                     None \<Rightarrow> True
                   | Some (last_remedy, last_deficit) \<Rightarrow> last_remedy \<noteq> remedy \<or> grew_materially last_deficit deficit)
      in if \<not> speak then (None, g)
         else (Some (shortfall_alert have need remedy), g\<lparr>ag_alerted := Some (remedy, deficit)\<rparr>))"

text \<open>A run of the gate: the passes at which it speaks, and the gate afterwards.\<close>

fun gate_run :: "alert_gate \<Rightarrow> funding_observation list \<Rightarrow> funding_observation list \<times> alert_gate" where
  "gate_run g [] = ([], g)"
| "gate_run g (ob # obs) =
     (let (a, g1) = gate_observe g ob; (spoken, g2) = gate_run g1 obs
      in (if a = None then spoken else ob # spoken, g2))"

definition shorts :: "funding_observation list \<Rightarrow> (funding_remedy \<times> nat) list" where
  "shorts obs = List.map_filter (\<lambda>ob. case ob of Short have need remedy \<Rightarrow> Some (remedy, need - have) | _ \<Rightarrow> None) obs"

definition unmeasureds :: "funding_observation list \<Rightarrow> (unmeasured_kind \<times> nat option) list" where
  "unmeasureds obs = List.map_filter (\<lambda>ob. case ob of Unmeasured reason \<Rightarrow> Some (alert_key reason) | _ \<Rightarrow> None) obs"

definition worse :: "funding_remedy \<times> nat \<Rightarrow> funding_remedy \<times> nat \<Rightarrow> bool" where
  "worse a b \<longleftrightarrow> fst a \<noteq> fst b \<or> grew_materially (snd a) (snd b)"

lemma report_list_simps [simp]:
  "shorts [] = []" "shorts (ob # obs) = (case ob of Short have need remedy \<Rightarrow> (remedy, need - have) # shorts obs | _ \<Rightarrow> shorts obs)"
  "unmeasureds [] = []" "unmeasureds (ob # obs) = (case ob of Unmeasured reason \<Rightarrow> alert_key reason # unmeasureds obs | _ \<Rightarrow> unmeasureds obs)"
  by (simp_all add: shorts_def unmeasureds_def map_filter_simps split: funding_observation.splits)

abbreviation latch :: "'a option \<Rightarrow> 'a list" where
  "latch x \<equiv> (case x of None \<Rightarrow> [] | Some y \<Rightarrow> [y])"

lemma gate_run_latched:
  assumes "Healthy \<notin> set obs" "gate_run g obs = (spoken, g')"
  shows "successively worse (latch (ag_alerted g) @ shorts spoken)
    \<and> successively (\<noteq>) (latch (ag_unmeasured g) @ unmeasureds spoken)
    \<and> (ag_alerted g' = None \<and> ag_unmeasured g' = None
        \<longleftrightarrow> ag_alerted g = None \<and> ag_unmeasured g = None \<and> shorts obs = [] \<and> unmeasureds obs = [])"
  using assms
proof (induction obs arbitrary: g spoken g')
  case Nil
  then show ?case by (auto split: option.splits)
next
  case (Cons ob obs)
  obtain a g1 where o1: "gate_observe g ob = (a, g1)" by (metis prod.exhaust)
  obtain s2 g2 where r: "gate_run g1 obs = (s2, g2)" by (metis prod.exhaust)
  have "Healthy \<notin> set obs" "ob \<noteq> Healthy" using Cons.prems(1) by auto
  note ih = Cons.IH [OF this(1) r]
  have out: "spoken = (if a = None then s2 else ob # s2)" "g' = g2" using Cons.prems(2) o1 r by simp_all
  show ?case
    using ih o1 \<open>ob \<noteq> Healthy\<close> unfolding out
    by (cases ob) (auto simp: Let_def worse_def successively_Cons split: option.splits if_splits prod.splits)
qed

lemma not_grew_materially: "d \<le> u64_max \<Longrightarrow> \<not> grew_materially d d"
  by (simp add: grew_materially_def u64_sat_add_def)

text \<open>What the gate has latched is the last report, and it is still current.\<close>

lemma gate_run_current:
  assumes "Healthy \<notin> set obs" "gate_run g obs = (spoken, g')" "\<forall>x \<in> set (shorts obs). snd x \<le> u64_max"
  shows "ag_alerted g' = (if latch (ag_alerted g) @ shorts spoken = [] then None
                          else Some (last (latch (ag_alerted g) @ shorts spoken)))
    \<and> (shorts obs = [] \<longrightarrow> shorts spoken = [])
    \<and> (shorts obs \<noteq> [] \<longrightarrow> (\<exists>x. ag_alerted g' = Some x \<and> \<not> worse x (last (shorts obs))))"
  using assms
proof (induction obs arbitrary: g spoken g')
  case Nil
  then show ?case by (auto split: option.splits)
next
  case (Cons ob obs)
  obtain a g1 where o1: "gate_observe g ob = (a, g1)" by (metis prod.exhaust)
  obtain s2 g2 where r: "gate_run g1 obs = (s2, g2)" by (metis prod.exhaust)
  have "Healthy \<notin> set obs" "\<forall>x \<in> set (shorts obs). snd x \<le> u64_max" "ob \<noteq> Healthy"
    using Cons.prems(1,3) by (auto split: funding_observation.splits)
  note ih = Cons.IH [OF this(1) r this(2)]
  have out: "spoken = (if a = None then s2 else ob # s2)" "g' = g2" using Cons.prems(2) o1 r by simp_all
  show ?case
  proof (cases ob)
    case (Short hv need remedy)
    show ?thesis
    proof (cases "a = None")
      case True
      then obtain last_deficit where g: "g1 = g" "ag_alerted g = Some (remedy, last_deficit)"
        "\<not> grew_materially last_deficit (need - hv)"
        using o1 Short by (auto simp: Let_def split: option.splits if_splits)
      then have "\<not> worse (remedy, last_deficit) (remedy, need - hv)" by (simp add: worse_def)
      with ih g(1,2) True Short show ?thesis unfolding out by auto
    next
      case False
      then have g: "ag_alerted g1 = Some (remedy, need - hv)" using o1 Short by (auto simp: Let_def split: option.splits if_splits)
      have "\<not> worse (remedy, need - hv) (remedy, need - hv)"
        using Cons.prems(3) Short not_grew_materially by (simp add: worse_def)
      with ih g False Short show ?thesis unfolding out by (auto split: option.splits)
    qed
  next
    case (Unmeasured reason)
    with o1 out(1) have e: "ag_alerted g1 = ag_alerted g" "shorts spoken = shorts s2" "shorts (ob # obs) = shorts obs"
      by (auto split: if_splits)
    from ih [unfolded e(1)] show ?thesis unfolding e out(2) .
  next
    case UnknownFunding
    with o1 out(1) have e: "g1 = g" "shorts spoken = shorts s2" "shorts (ob # obs) = shorts obs" by auto
    from ih [unfolded e(1)] show ?thesis unfolding e out(2) .
  qed (use \<open>ob \<noteq> Healthy\<close> in auto)
qed

text \<open>
  the operator is told once, and told again only about something new. Over passes that are not
  healthy, two consecutive shortfall alerts differ in the remedy or the deficit grew by half; two
  consecutive alerts about an unmeasurable wallet are about different conditions, whatever the counts a
  stranger can move. Nothing is swallowed: at the end the last alert still describes the last shortfall,
  and a recovery is announced exactly when some pass was blocked.
\<close>
theorem funding_alerts_limited:
  assumes "Healthy \<notin> set obs" "\<forall>x \<in> set (shorts obs). snd x \<le> u64_max"
    "gate_run alert_gate_default obs = (spoken, g)"
  shows "successively worse (shorts spoken) \<and> successively (\<noteq>) (unmeasureds spoken)
    \<and> (shorts obs \<noteq> [] \<longrightarrow> shorts spoken \<noteq> [] \<and> \<not> worse (last (shorts spoken)) (last (shorts obs)))
    \<and> (fst (gate_observe g Healthy) \<noteq> None \<longleftrightarrow> (\<exists>ob \<in> set obs. ob \<noteq> UnknownFunding))"
proof -
  have blocked: "shorts obs = [] \<and> unmeasureds obs = [] \<longleftrightarrow> (\<forall>ob \<in> set obs. ob = UnknownFunding)" if "Healthy \<notin> set obs" for obs
    using that by (induction obs) (auto split: funding_observation.splits)
  show ?thesis
    using gate_run_latched [OF assms(1,3)] gate_run_current [OF assms(1,3,2)] blocked [OF assms(1)]
    by (auto simp: alert_gate_default_def clear_and_announce_recovery_def split: if_splits)
qed

theorem funding_alerts_limited_witness:
  "gate_run alert_gate_default [Short 10 30 TopUp, UnknownFunding, Short 5 30 TopUp, Unmeasured (AuthenticationTruncated 128 130),
       Unmeasured (AuthenticationTruncated 128 131), Short 0 40 TopUp]
     = ([Short 10 30 TopUp, Unmeasured (AuthenticationTruncated 128 130), Short 0 40 TopUp],
        \<lparr>ag_alerted = Some (TopUp, 40), ag_unmeasured = Some (KindAuthenticationTruncated, None)\<rparr>)
   \<and> \<not> worse (TopUp, 40) (TopUp, 40)"
proof -
  let ?obs = "[Short 10 30 TopUp, UnknownFunding, Short 5 30 TopUp, Unmeasured (AuthenticationTruncated 128 130),
       Unmeasured (AuthenticationTruncated 128 131), Short 0 40 TopUp]"
  have run: "gate_run alert_gate_default ?obs
     = ([Short 10 30 TopUp, Unmeasured (AuthenticationTruncated 128 130), Short 0 40 TopUp],
        \<lparr>ag_alerted = Some (TopUp, 40), ag_unmeasured = Some (KindAuthenticationTruncated, None)\<rparr>)"
    by (simp add: alert_gate_default_def Let_def grew_materially_def u64_sat_add_def u64_sat_mul_def
        MATERIAL_DEFICIT_GROWTH_PERCENT_def)
  with funding_alerts_limited [OF _ _ run] show ?thesis by simp
qed

end
