(* ===== verification/Mirror_Resolve.thy ===== *)
theory Mirror_Resolve
  imports Mirror_Plan Spend_Audit Mirror_Funding
begin

text \<open>
  What a pass learns from the audit record before it plans: the spends the chain has since confirmed
  (\<open>mirror/resolve.rs\<close>) and the bonds a short chain scan missed (\<open>mirror/local_bond.rs\<close>).

  \<^item> The chain is a parameter: \<open>conf\<close> is \<open>MirrorEffects::coin_confirmation\<close> and \<open>recheck\<close> is
    \<open>MirrorEffects::recheck_bond\<close>.
  \<^item> The claims are a \<open>HashMap\<close>. The order it is walked in is not specified; \<open>iter\<close> stands for it.
  \<^item> Each append to the log may fail; \<open>ok\<close> says for which spends it succeeds.
\<close>

datatype pass_error = PDisk string | PChain string | PWallet string | PFunding funding_error | PIdentity string

section \<open>Resolving landed spends\<close>

record resolve_summary =
  rsv_recorded :: nat
  rsv_chain_unreadable :: nat
  rsv_ambiguous :: nat
  rsv_unreadable_lines :: nat

definition summary_default :: resolve_summary where
  "summary_default = \<lparr>rsv_recorded = 0, rsv_chain_unreadable = 0, rsv_ambiguous = 0, rsv_unreadable_lines = 0\<rparr>"

fun is_confirmed :: "spend_status \<Rightarrow> bool" where
  "is_confirmed (SConfirmed _ _) = True"
| "is_confirmed _ = False"

definition attributed :: "spend_record list \<Rightarrow> string set" where
  "attributed rs = set (List.map_filter sr_intended_coin_id (filter (\<lambda>r. is_confirmed (sr_status r)) rs))"

text \<open>The coin an open record claims: its own, or the one the chain shows for its bond.\<close>

definition claim_of :: "held_mirror list \<Rightarrow> spend_record \<Rightarrow> string option" where
  "claim_of on_chain r =
     (if si_kind (sr_intent r) \<noteq> MIRROR_COIN then None
      else if \<not> may_have_reached_the_network (sr_status r) then None
      else case sr_intended_coin_id r of
        Some c \<Rightarrow> Some c
      | None \<Rightarrow>
        (case (si_store_id (sr_intent r), si_bond (sr_intent r)) of
           (Some store, Some b) \<Rightarrow>
             map_option coin_id
               (find (\<lambda>m. hm_store_id m = store \<and> hm_root m = ab_root b \<and> hm_epoch m = ab_epoch b) on_chain)
         | _ \<Rightarrow> None))"

type_synonym claims = "(string \<times> string list) list"

fun collect_claims :: "held_mirror list \<Rightarrow> spend_record list \<Rightarrow> claims \<Rightarrow> claims" where
  "collect_claims on_chain [] cl = cl"
| "collect_claims on_chain (r # rs) cl =
     collect_claims on_chain rs
       (case claim_of on_chain r of
          None \<Rightarrow> cl
        | Some c \<Rightarrow> AList.update c ((case map_of cl c of None \<Rightarrow> [] | Some ids \<Rightarrow> ids) @ [sr_id r]) cl)"

fun resolve_claims ::
  "(string \<Rightarrow> pass_error + nat option) \<Rightarrow> (string \<Rightarrow> bool) \<Rightarrow> nat \<Rightarrow> string set \<Rightarrow> claims
     \<Rightarrow> resolve_summary \<Rightarrow> log_line list \<Rightarrow> resolve_summary \<times> log_line list"
where
  "resolve_claims conf ok now att [] s ls = (s, ls)"
| "resolve_claims conf ok now att ((c, claimants) # cl) s ls =
     (if length claimants > 1 \<or> c \<in> att
      then resolve_claims conf ok now att cl (s\<lparr>rsv_ambiguous := rsv_ambiguous s + length claimants\<rparr>) ls
      else case conf c of
        Inr (Some height) \<Rightarrow>
          (case resolve_landed True (ok (hd claimants)) now (hd claimants) c height ls of
             (Some RecordedResolution, ls') \<Rightarrow>
               resolve_claims conf ok now att cl (s\<lparr>rsv_recorded := rsv_recorded s + 1\<rparr>) ls'
           | (_, ls') \<Rightarrow> resolve_claims conf ok now att cl s ls')
      | Inr None \<Rightarrow> resolve_claims conf ok now att cl s ls
      | Inl _ \<Rightarrow> resolve_claims conf ok now att cl (s\<lparr>rsv_chain_unreadable := rsv_chain_unreadable s + 1\<rparr>) ls)"

definition resolve_landed_spends ::
  "(string \<Rightarrow> pass_error + nat option) \<Rightarrow> (string \<Rightarrow> bool) \<Rightarrow> nat \<Rightarrow> (claims \<Rightarrow> claims) \<Rightarrow> held_mirror list \<Rightarrow> log_file
     \<Rightarrow> resolve_summary \<times> log_file"
where
  "resolve_landed_spends conf ok now iter on_chain f =
     (case ledger f of
        None \<Rightarrow> (summary_default, f)
      | Some l \<Rightarrow>
          if sl_unreadable_lines l > 0
          then (summary_default\<lparr>rsv_unreadable_lines := sl_unreadable_lines l\<rparr>, f)
          else let cl = iter (collect_claims on_chain (sl_records l) []);
                   ls = (case f of Lines ls \<Rightarrow> ls | _ \<Rightarrow> []);
                   (s, ls') = resolve_claims conf ok now (attributed (sl_records l)) cl summary_default ls
               in (s, case f of Lines _ \<Rightarrow> Lines ls' | _ \<Rightarrow> f))"

section \<open>Recovering a bond the scan missed\<close>

datatype bond_verdict = VBonded | VUnverified | VUnbonded

definition covered :: "held_mirror list \<Rightarrow> bond \<Rightarrow> int \<Rightarrow> bool" where
  "covered on_chain b current_epoch \<longleftrightarrow>
     list_ex (\<lambda>c. hm_epoch c = current_epoch \<and> hm_store_id c = store_id b \<and> hm_root c = root_hash b) on_chain"

definition recover_one ::
  "(string \<Rightarrow> string \<Rightarrow> int \<Rightarrow> string \<Rightarrow> bond_verdict) \<Rightarrow> spend_ledger \<Rightarrow> bond \<Rightarrow> int \<Rightarrow> held_mirror option"
where
  "recover_one recheck l b current_epoch =
     (case confirmed_mirror_bond l (store_id b) (root_hash b) current_epoch of
        None \<Rightarrow> None
      | Some candidate \<Rightarrow>
          (case recheck (store_id b) (root_hash b) current_epoch (lb_coin_id candidate) of
             VBonded \<Rightarrow> Some \<lparr>coin_id = lb_coin_id candidate, hm_store_id = store_id b, hm_root = root_hash b,
                             hm_epoch = current_epoch, collateral_dig_base_units = lb_amount_dig_base_units candidate\<rparr>
           | _ \<Rightarrow> None))"

definition recheck_missing_bonds ::
  "(string \<Rightarrow> string \<Rightarrow> int \<Rightarrow> string \<Rightarrow> bond_verdict) \<Rightarrow> spend_ledger \<Rightarrow> bond list \<Rightarrow> held_mirror list \<Rightarrow> int
     \<Rightarrow> held_mirror list"
where
  "recheck_missing_bonds recheck l held on_chain current_epoch =
     List.map_filter (\<lambda>b. recover_one recheck l b current_epoch)
       (filter (\<lambda>b. \<not> covered on_chain b current_epoch) held)"

section \<open>Facts about the claims\<close>

text \<open>The claims group the open records by the coin they claim.\<close>

definition claimants_of :: "held_mirror list \<Rightarrow> spend_record list \<Rightarrow> string \<Rightarrow> string list" where
  "claimants_of on_chain rs c = map sr_id (filter (\<lambda>r. claim_of on_chain r = Some c) rs)"

lemma collect_claims_spec:
  assumes "hm_ok cl" "\<forall>c. map_of cl c \<noteq> Some []"
  shows "hm_ok (collect_claims on_chain rs cl)
    \<and> map_of (collect_claims on_chain rs cl) c
      = (case (case map_of cl c of None \<Rightarrow> [] | Some ids \<Rightarrow> ids) @ claimants_of on_chain rs c of
           [] \<Rightarrow> None | ids \<Rightarrow> Some ids)"
  using assms
proof (induction rs arbitrary: cl)
  case Nil
  then show ?case by (auto simp: claimants_of_def split: option.splits list.splits)
next
  case (Cons r rs)
  let ?cl = "case claim_of on_chain r of None \<Rightarrow> cl
        | Some c \<Rightarrow> AList.update c ((case map_of cl c of None \<Rightarrow> [] | Some ids \<Rightarrow> ids) @ [sr_id r]) cl"
  have ok: "hm_ok ?cl" "\<forall>c. map_of ?cl c \<noteq> Some []"
    using Cons.prems by (auto simp: update_conv' split: option.splits)
  show ?case
    using Cons.IH [OF ok] by (auto simp: claimants_of_def update_conv' split: option.splits)
qed

lemma collected:
  "hm_ok (collect_claims on_chain rs [])"
  "(c, ids) \<in> set (collect_claims on_chain rs []) \<Longrightarrow> ids = claimants_of on_chain rs c \<and> ids \<noteq> []"
proof -
  have spec: "hm_ok (collect_claims on_chain rs [])"
    "map_of (collect_claims on_chain rs []) c = (case claimants_of on_chain rs c of [] \<Rightarrow> None | ids \<Rightarrow> Some ids)" for c
    using collect_claims_spec [of "[]" on_chain rs c] by simp_all
  then show "hm_ok (collect_claims on_chain rs [])" by simp
  show "(c, ids) \<in> set (collect_claims on_chain rs []) \<Longrightarrow> ids = claimants_of on_chain rs c \<and> ids \<noteq> []"
    using spec by (auto simp: hm_in_set_iff split: list.splits)
qed

definition confirmed_as :: "nat \<Rightarrow> string \<Rightarrow> nat \<Rightarrow> spend_record \<Rightarrow> spend_record" where
  "confirmed_as now c height r =
     r\<lparr>sr_revision := sr_revision r + 1, sr_updated_ms := now, sr_status := SConfirmed height c,
       sr_intended_coin_id := Some c\<rparr>"

lemma resolve_landed_current:
  assumes "resolve_landed True okay now i c height ls = (res, ls')"
  shows "current ls' = current ls
    \<or> (\<exists>r. current ls i = Some r \<and> may_have_reached_the_network (sr_status r)
        \<and> current ls' = (current ls)(i \<mapsto> confirmed_as now c height r))"
proof (cases "current ls i")
  case None
  with assms show ?thesis by (auto simp: resolve_landed_def find_record)
next
  case (Some r)
  have "current (ls @ [Entry (confirmed_as now c height r)]) = (current ls)(i \<mapsto> confirmed_as now c height r)"
    using current_newer [of ls "confirmed_as now c height r"] Some current_id [OF Some]
    by (fastforce simp: confirmed_as_def)
  with assms Some show ?thesis
    by (auto simp: resolve_landed_def find_record Let_def append_line_def confirmed_as_def split: if_splits)
qed

definition claims_ok :: "claims \<Rightarrow> bool" where
  "claims_ok cl \<longleftrightarrow> distinct (map fst cl) \<and> (\<forall>c ids. (c, ids) \<in> set cl \<longrightarrow> ids \<noteq> [])
     \<and> (\<forall>c ids c' ids'. (c, ids) \<in> set cl \<and> (c', ids') \<in> set cl \<and> c \<noteq> c' \<longrightarrow> set ids \<inter> set ids' = {})"

lemma claims_ok_Cons: "claims_ok ((c, ids) # cl) \<Longrightarrow> claims_ok cl \<and> ids \<noteq> [] \<and> (\<forall>k c'. k \<in> set ids \<longrightarrow> (c', [k]) \<notin> set cl)"
proof (intro conjI allI impI)
  assume ok: "claims_ok ((c, ids) # cl)"
  show "claims_ok cl" "ids \<noteq> []" using ok by (simp_all add: claims_ok_def) blast
  fix k c' assume k: "k \<in> set ids"
  show "(c', [k]) \<notin> set cl"
  proof
    assume c': "(c', [k]) \<in> set cl"
    have "c \<notin> fst ` set cl" using ok by (simp add: claims_ok_def)
    with c' have "c \<noteq> c'" by (metis fst_conv image_eqI)
    moreover have "(c, ids) \<in> set ((c, ids) # cl)" "(c', [k]) \<in> set ((c, ids) # cl)" using c' by simp_all
    ultimately have "set ids \<inter> set [k] = {}" using ok unfolding claims_ok_def by blast
    with k show False by simp
  qed
qed

text \<open>One turn of the loop either changes nothing or confirms the only claimant of the coin.\<close>

lemma resolve_claims_turn:
  assumes "resolve_claims conf ok now att ((c, ids) # cl) s ls = (s', ls')" "ids \<noteq> []"
  obtains s1 ls1 where "resolve_claims conf ok now att cl s1 ls1 = (s', ls')" "current ls1 = current ls"
  | s1 ls1 k h r where "resolve_claims conf ok now att cl s1 ls1 = (s', ls')" "ids = [k]" "c \<notin> att"
      "conf c = Inr (Some h)" "current ls k = Some r" "may_have_reached_the_network (sr_status r)"
      "current ls1 = (current ls)(k \<mapsto> confirmed_as now c h r)"
proof -
  consider "length ids > 1 \<or> c \<in> att" | e where "\<not> (length ids > 1 \<or> c \<in> att)" "conf c = Inl e"
    | "\<not> (length ids > 1 \<or> c \<in> att)" "conf c = Inr None"
    | h where "\<not> (length ids > 1 \<or> c \<in> att)" "conf c = Inr (Some h)"
    by (metis option.exhaust sum.exhaust)
  then show ?thesis
  proof cases
    case (4 h)
    then obtain k where k: "ids = [k]" using assms(2) by (cases ids) auto
    obtain res ls1 where rl: "resolve_landed True (ok k) now k c h ls = (res, ls1)" by (metis prod.exhaust)
    obtain s1 where "resolve_claims conf ok now att cl s1 ls1 = (s', ls')"
      using assms(1) 4 k rl by (auto split: option.splits resolution.splits)
    with that resolve_landed_current [OF rl] 4 k show ?thesis by blast
  qed (use assms(1) that(1) in auto)
qed

lemma resolve_claims_spec:
  assumes "resolve_claims conf ok now att cl s ls = (s', ls')" "claims_ok cl"
  shows "current ls' i = current ls i
    \<or> (\<exists>c r h. (c, [i]) \<in> set cl \<and> c \<notin> att \<and> conf c = Inr (Some h) \<and> current ls i = Some r
         \<and> may_have_reached_the_network (sr_status r) \<and> current ls' i = Some (confirmed_as now c h r))"
  using assms
proof (induction cl arbitrary: s ls)
  case Nil
  then show ?case by simp
next
  case (Cons x cl)
  obtain c ids where x: "x = (c, ids)" by (metis prod.exhaust)
  have ok: "claims_ok cl" "ids \<noteq> []" "\<And>k c'. k \<in> set ids \<Longrightarrow> (c', [k]) \<notin> set cl"
    using claims_ok_Cons Cons.prems(2) x by blast+
  from Cons.prems(1) [unfolded x] ok(2) show ?case
  proof (cases rule: resolve_claims_turn)
    case (1 s1 ls1)
    with Cons.IH [OF 1(1) ok(1)] show ?thesis by (auto simp: x)
  next
    case (2 s1 ls1 k h r)
    show ?thesis
    proof (cases "i = k")
      case True
      then have "current ls' i = current ls1 i" using Cons.IH [OF 2(1) ok(1)] ok(3) 2(2) by auto
      with True 2 show ?thesis by (auto simp: x)
    next
      case False
      with Cons.IH [OF 2(1) ok(1)] 2(7) show ?thesis by (auto simp: x)
    qed
  qed
qed

lemma claims_ok_collected:
  assumes "distinct (map sr_id rs)" "mset cl = mset (collect_claims on_chain rs [])"
  shows "claims_ok cl"
proof -
  have set: "set cl = set (collect_claims on_chain rs [])" using assms(2) by (metis set_mset_mset)
  have "mset (map fst cl) = mset (map fst (collect_claims on_chain rs []))" using assms(2) by simp
  then have "distinct (map fst cl)" using collected(1) by (metis hm_ok_def mset_eq_imp_distinct_iff)
  moreover have "set ids \<inter> set ids' = {}"
    if "(c, ids) \<in> set cl" "(c', ids') \<in> set cl" "c \<noteq> c'" for c ids c' ids'
  proof -
    have "ids = claimants_of on_chain rs c" "ids' = claimants_of on_chain rs c'" using that set collected(2) by blast+
    with that(3) assms(1) show ?thesis
      by (auto simp: claimants_of_def distinct_map dest!: inj_onD)
  qed
  ultimately show ?thesis using collected(2) set unfolding claims_ok_def by blast
qed

lemma distinct_records: "distinct (map sr_id (sl_records (fold_log ls)))"
proof -
  let ?m = "fst (fold_lines ls [] 0)"
  have "hm_ok ?m" "\<forall>(i, r) \<in> set ?m. sr_id r = i"
    using newest_ok_log [of ls] by (auto simp: newest_ok_def bt_ok_hm_ok)
  then have eq: "map sr_id (map snd ?m) = map fst ?m" by auto
  have "distinct (map sr_id (map snd ?m))" unfolding eq using \<open>hm_ok ?m\<close> by (simp add: hm_ok_def)
  moreover have "mset (map sr_id (sl_records (fold_log ls))) = mset (map sr_id (map snd ?m))"
    by (simp add: fold_log_def split_beta image_mset.compositionality)
  ultimately show ?thesis using mset_eq_imp_distinct_iff by blast
qed

section \<open>Properties\<close>

text \<open>The ledger attributes no coin to two confirmed spends.\<close>

definition one_spend_per_coin :: "log_line list \<Rightarrow> bool" where
  "one_spend_per_coin ls \<longleftrightarrow>
     (\<forall>i r h c. current ls i = Some r \<and> sr_status r = SConfirmed h c \<longrightarrow> sr_intended_coin_id r = Some c)
     \<and> (\<forall>i j r r' h h' c. current ls i = Some r \<and> sr_status r = SConfirmed h c
          \<and> current ls j = Some r' \<and> sr_status r' = SConfirmed h' c \<longrightarrow> i = j)"

lemma attributed_iff:
  "c \<in> attributed (sl_records (fold_log ls))
     \<longleftrightarrow> (\<exists>i r. current ls i = Some r \<and> is_confirmed (sr_status r) \<and> sr_intended_coin_id r = Some c)"
  unfolding attributed_def set_map_filter using in_records current_id by fastforce

lemma one_spend_preserved:
  assumes one: "one_spend_per_coin ls"
    and upd: "\<And>i. current ls' i = current ls i
      \<or> (\<exists>r c h. current ls i = Some r \<and> claimants c = [i] \<and> c \<notin> attributed (sl_records (fold_log ls))
           \<and> current ls' i = Some (confirmed_as now c h r))"
  shows "one_spend_per_coin ls'"
proof -
  have new: "current ls i = Some r \<and> c \<in> attributed (sl_records (fold_log ls)) \<and> sr_intended_coin_id r = Some c
      \<or> claimants c = [i] \<and> c \<notin> attributed (sl_records (fold_log ls)) \<and> sr_intended_coin_id r = Some c"
    if "current ls' i = Some r" "sr_status r = SConfirmed h c" for i r h c
  proof (cases "current ls' i = current ls i")
    case True
    then have cur: "current ls i = Some r" using that(1) by simp
    then have int: "sr_intended_coin_id r = Some c" using one that(2) unfolding one_spend_per_coin_def by blast
    have "c \<in> attributed (sl_records (fold_log ls))"
      unfolding attributed_iff using cur int that(2) by (intro exI [of _ i] exI [of _ r]) simp
    with cur int show ?thesis by simp
  next
    case False
    with upd [of i] obtain r0 c0 h0 where "claimants c0 = [i]" "c0 \<notin> attributed (sl_records (fold_log ls))"
      "current ls' i = Some (confirmed_as now c0 h0 r0)" by blast
    with that show ?thesis by (auto simp: confirmed_as_def)
  qed
  show ?thesis
    unfolding one_spend_per_coin_def
  proof (intro conjI allI impI; elim conjE)
    fix i r h c assume "current ls' i = Some r" "sr_status r = SConfirmed h c"
    from new [OF this] show "sr_intended_coin_id r = Some c" by blast
  next
    fix i j r r' h h' c
    assume a: "current ls' i = Some r" "sr_status r = SConfirmed h c" and b: "current ls' j = Some r'" "sr_status r' = SConfirmed h' c"
    from new [OF a] new [OF b] show "i = j"
      using one a(2) b(2) unfolding one_spend_per_coin_def by (metis list.inject)
  qed
qed

text \<open>
  a sweep confirms only what the chain shows. Whatever order the claims are walked in and whichever
  appends fail, a spend changes only by becoming confirmed, and then it was open, it is the only open spend
  that claims the coin, no confirmed spend has the coin, and the chain has it in the block that is recorded;
  the record is otherwise what it was. So a ledger that attributes no coin twice never comes to. With a lost
  line the sweep changes nothing.
\<close>
theorem resolve_sweep_positive:
  assumes "\<And>cl. mset (iter cl) = mset cl"
    "resolve_landed_spends conf ok now iter on_chain (Lines ls) = (s, f')"
  shows "\<exists>ls'. f' = Lines ls'
    \<and> (\<forall>i. current ls' i = current ls i
        \<or> (\<exists>r c h. current ls i = Some r \<and> may_have_reached_the_network (sr_status r) \<and> conf c = Inr (Some h)
             \<and> claimants_of on_chain (sl_records (fold_log ls)) c = [i] \<and> c \<notin> attributed (sl_records (fold_log ls))
             \<and> sl_unreadable_lines (fold_log ls) = 0
             \<and> current ls' i = Some (r\<lparr>sr_revision := sr_revision r + 1, sr_updated_ms := now,
                  sr_status := SConfirmed h c, sr_intended_coin_id := Some c\<rparr>)))
    \<and> (one_spend_per_coin ls \<longrightarrow> one_spend_per_coin ls')"
proof (cases "sl_unreadable_lines (fold_log ls) > 0")
  case True
  with assms(2) show ?thesis by (auto simp: resolve_landed_spends_def ledger_def)
next
  case False
  let ?rs = "sl_records (fold_log ls)"
  let ?cl = "iter (collect_claims on_chain ?rs [])"
  obtain s1 ls' where run: "resolve_claims conf ok now (attributed ?rs) ?cl summary_default ls = (s1, ls')"
    by (metis prod.exhaust)
  then have f': "f' = Lines ls'" using assms(2) False by (simp add: resolve_landed_spends_def ledger_def Let_def)
  have ok: "claims_ok ?cl" using claims_ok_collected distinct_records assms(1) by blast
  have mem: "claimants_of on_chain ?rs c = ids" if "(c, ids) \<in> set ?cl" for c ids
    using that collected(2) assms(1) by (metis set_mset_mset)
  have upd: "current ls' i = current ls i
      \<or> (\<exists>r c h. current ls i = Some r \<and> may_have_reached_the_network (sr_status r) \<and> conf c = Inr (Some h)
           \<and> claimants_of on_chain ?rs c = [i] \<and> c \<notin> attributed ?rs \<and> current ls' i = Some (confirmed_as now c h r))" for i
    using resolve_claims_spec [OF run ok, of i] mem by blast
  have "one_spend_per_coin ls'" if "one_spend_per_coin ls"
    using one_spend_preserved [OF that, of ls' "claimants_of on_chain ?rs" now] upd by blast
  with f' upd False show ?thesis unfolding confirmed_as_def by (intro exI [of _ ls']) auto
qed

text \<open>A create that was broadcast and whose handle is gone, and the coin of its bond on chain.\<close>

definition sample_open :: spend_record where
  "sample_open = \<lparr>sr_id = ''a'', sr_revision = 3, sr_intent = sample_intent, sr_initiated_ms = 1, sr_updated_ms = 3,
     sr_status = SUnresolved ''gone'', sr_funding_coin_ids = [''f''], sr_intended_coin_id = None\<rparr>"

definition sample_on_chain :: "held_mirror list" where
  "sample_on_chain = [\<lparr>coin_id = ''coin'', hm_store_id = ''s'', hm_root = ''r'', hm_epoch = 7, collateral_dig_base_units = 20\<rparr>]"

lemma sample_sweep:
  "resolve_landed_spends (\<lambda>_. Inr (Some 100)) (\<lambda>_. True) 9 id sample_on_chain (Lines [Entry sample_open])
     = (summary_default\<lparr>rsv_recorded := 1\<rparr>, Lines [Entry sample_open, Entry (confirmed_as 9 ''coin'' 100 sample_open)])"
  by (simp add: resolve_landed_spends_def ledger_def fold_log_def sample_open_def sample_intent_def sample_on_chain_def
      claim_of_def attributed_def map_filter_simps resolve_landed_def append_line_def confirmed_as_def summary_default_def Let_def)

theorem resolve_sweep_positive_witness:
  "\<exists>ls'. snd (resolve_landed_spends (\<lambda>_. Inr (Some 100)) (\<lambda>_. True) 9 id sample_on_chain (Lines [Entry sample_open])) = Lines ls'
     \<and> current ls' ''a'' \<noteq> current [Entry sample_open] ''a'' \<and> one_spend_per_coin ls'"
proof -
  let ?ls' = "[Entry sample_open, Entry (confirmed_as 9 ''coin'' 100 sample_open)]"
  have "one_spend_per_coin [Entry sample_open]"
    by (simp add: one_spend_per_coin_def current_def sample_open_def)
  moreover have "mset (id cl) = mset cl" for cl :: claims by simp
  ultimately have "one_spend_per_coin ?ls'"
    using resolve_sweep_positive [OF _ sample_sweep] by auto
  moreover have "current ?ls' ''a'' \<noteq> current [Entry sample_open] ''a''"
    by (simp add: current_def sample_open_def confirmed_as_def)
  ultimately show ?thesis by (simp add: sample_sweep)
qed

text \<open>A recovered coin is one the chain was just asked about, for a held bond the scan did not cover.\<close>

lemma recovered_iff:
  "m \<in> set (recheck_missing_bonds recheck l held on_chain ep) \<longleftrightarrow>
     (\<exists>b \<in> set held. \<not> covered on_chain b ep \<and> recover_one recheck l b ep = Some m)"
  by (auto simp: recheck_missing_bonds_def set_map_filter)

lemma recover_one_facts:
  "recover_one recheck l b ep = Some m \<Longrightarrow>
     bond_of m = b \<and> hm_epoch m = ep \<and> recheck (store_id b) (root_hash b) ep (coin_id m) = VBonded"
  by (auto simp: recover_one_def bond_of_def split: option.splits bond_verdict.splits)

end
