(* ===== verification/Mirror_Run.thy ===== *)
theory Mirror_Run
  imports Mirror_Pass Mirror_Presence Mirror_Resolve
begin

text \<open>
  One mirror pass from end to end (\<open>mirror/runner.rs\<close>): observe the disk and the chain, settle the audit
  record, decide, then spend.

  \<^item> The effects of a pass (the trait \<open>MirrorEffects\<close>) are a record of functions. The observations are taken
    before anything is spent, so they are values; a reclaim and a create act on the log and the rest of the
    world and may fail.
  \<^item> \<open>resolve_landed_spends\<close> has the parameters of \<open>Mirror_Resolve\<close>: which appends succeed, the clock of the
    journal, and the order the claims are walked in.
\<close>

section \<open>What a pass is given and what it reports\<close>

datatype capsule_provenance = Held | Relayed

record observed_capsule =
  oc_bond :: bond
  oc_provenance :: capsule_provenance

type_synonym 'w world = "log_file \<times> 'w"

record 'w mirror_effects =
  fx_observe_disk :: "pass_error + observed_capsule list"
  fx_observe_chain :: "pass_error + held_mirror list"
  fx_observe_bonded_urls :: "pass_error + declared_bond list"
  fx_coin_confirmation :: "string \<Rightarrow> pass_error + nat option"
  fx_dig_balance :: "pass_error + nat"
  fx_reclaim :: "held_mirror \<Rightarrow> reclaim_reason \<Rightarrow> 'w world \<Rightarrow> pass_error option \<times> 'w world"
  fx_create :: "bond \<Rightarrow> int \<Rightarrow> nat \<Rightarrow> 'w world \<Rightarrow> pass_error option \<times> 'w world"
  fx_recheck_bond :: "string \<Rightarrow> string \<Rightarrow> int \<Rightarrow> string \<Rightarrow> bond_verdict"

record reconcile_request =
  rq_trigger :: trigger
  rq_advertised :: effective

record pass_context =
  pc_now_unix_ms :: nat
  pc_current_epoch :: int
  pc_requirement :: collateral_requirement
  pc_margin_bp :: nat
  pc_creates_enabled :: bool
  pc_can_advertise :: bool
  pc_reconcile :: "reconcile_request option"

record pass_report =
  pt_reclaimed :: "held_mirror list"
  pt_created :: "bond list"
  pt_reclaim_failures :: "(held_mirror \<times> pass_error) list"
  pt_stopped_at :: "(bond \<times> pass_error) option"
  pt_states :: "(bond \<times> bond_state) list"
  pt_per_coin :: "nat option"
  pt_locked :: nat
  pt_funding_alert :: "funding_alert option"
  pt_url_stale_accepted :: nat

text \<open>What a runner carries from pass to pass.\<close>

record pass_runner =
  rn_presence :: presence_tracker
  rn_settling_window_ms :: nat
  rn_funding_alerts :: alert_gate

definition runner_new :: pass_runner where
  "runner_new = \<lparr>rn_presence = tracker_new, rn_settling_window_ms = SETTLING_WINDOW_MS,
     rn_funding_alerts = alert_gate_default\<rparr>"

text \<open>What the pass of the code reads from outside the effects: the margin, the round and the journal.\<close>

record pass_env =
  pe_margin :: safety_margin
  pe_round_ms :: nat
  pe_append_ok :: "string \<Rightarrow> bool"
  pe_journal_now :: nat
  pe_iter :: "claims \<Rightarrow> claims"

section \<open>The steps\<close>

definition runner_hex :: "string \<Rightarrow> string" where
  "runner_hex v = to_ascii_lowercase (if prefix ''0x'' v \<or> prefix ''0X'' v then drop 2 v else v)"

definition canonical :: "bond \<Rightarrow> bond" where
  "canonical b = \<lparr>store_id = runner_hex (store_id b), root_hash = runner_hex (root_hash b)\<rparr>"

fun split_by_provenance :: "observed_capsule list \<Rightarrow> bond list \<times> bond list" where
  "split_by_provenance [] = ([], [])"
| "split_by_provenance (c # cs) =
     (let (held, relayed) = split_by_provenance cs; b = canonical (oc_bond c)
      in case oc_provenance c of Held \<Rightarrow> (b # held, relayed) | Relayed \<Rightarrow> (held, b # relayed))"

definition in_flight_creates :: "spend_ledger \<Rightarrow> int \<Rightarrow> bond list" where
  "in_flight_creates l current_epoch =
     List.map_filter (\<lambda>r.
         case (si_bond (sr_intent r), si_store_id (sr_intent r)) of
           (Some b, Some store) \<Rightarrow>
             if ab_epoch b = current_epoch then Some \<lparr>store_id = store, root_hash = ab_root b\<rparr> else None
         | _ \<Rightarrow> None)
       (filter (\<lambda>r. sr_status r \<in> {SPending, SSubmitted})
         (filter (\<lambda>r. si_kind (sr_intent r) = MIRROR_COIN) (sl_records l)))"

definition reconcile_in_flight :: "nat \<Rightarrow> log_file \<Rightarrow> nat \<Rightarrow> bool" where
  "reconcile_in_flight round_ms f now_ms =
     (case ledger f of
        None \<Rightarrow> False
      | Some l \<Rightarrow>
          list_ex (\<lambda>r. si_kind (sr_intent r) = MIRROR_COIN \<and> si_reclaim_reason (sr_intent r) = Some ''url_stale''
                       \<and> reserves_funding_at round_ms now_ms r) (sl_records l))"

text \<open>Every reclaim is attempted.\<close>

fun do_reclaims ::
  "(held_mirror \<Rightarrow> reclaim_reason \<Rightarrow> 's \<Rightarrow> pass_error option \<times> 's) \<Rightarrow> (held_mirror \<times> reclaim_reason) list \<Rightarrow> 's
     \<Rightarrow> (held_mirror list \<times> (held_mirror \<times> pass_error) list \<times> nat) \<times> 's"
where
  "do_reclaims reclaim [] s = (([], [], 0), s)"
| "do_reclaims reclaim ((m, reason) # rs) s =
     (let (err, s1) = reclaim m reason s;
          ((done, failed, stale), s2) = do_reclaims reclaim rs s1
      in case err of
           None \<Rightarrow> ((m # done, failed, stale + (case reason of UrlStale _ \<Rightarrow> 1 | _ \<Rightarrow> 0)), s2)
         | Some e \<Rightarrow> ((done, (m, e) # failed, stale), s2))"

text \<open>Creates stop at the first that fails.\<close>

fun do_creates ::
  "(bond \<Rightarrow> int \<Rightarrow> nat \<Rightarrow> 's \<Rightarrow> pass_error option \<times> 's) \<Rightarrow> int \<Rightarrow> nat \<Rightarrow> bond list \<Rightarrow> 's
     \<Rightarrow> (bond list \<times> (bond \<times> pass_error) option) \<times> 's"
where
  "do_creates create epoch per_coin [] s = (([], None), s)"
| "do_creates create epoch per_coin (b # bs) s =
     (let (err, s1) = create b epoch per_coin s
      in case err of
           Some e \<Rightarrow> (([], Some (b, e)), s1)
         | None \<Rightarrow> let ((made, stopped), s2) = do_creates create epoch per_coin bs s1 in ((b # made, stopped), s2))"

definition funding_observation_of :: "(bond \<times> pass_error) option \<Rightarrow> pass_decision \<Rightarrow> funding_observation" where
  "funding_observation_of stopped_at d =
     (case stopped_at of
        Some (_, PFunding cause) \<Rightarrow> from_error cause
      | Some _ \<Rightarrow> UnknownFunding
      | None \<Rightarrow>
          (case pd_funding_shortfall d of
             Some need \<Rightarrow> Unmeasured (NoCreateAffordable need)
           | None \<Rightarrow> if pd_per_coin d \<noteq> None then Healthy else UnknownFunding))"

definition execute ::
  "'w mirror_effects \<Rightarrow> pass_decision \<Rightarrow> int \<Rightarrow> nat \<Rightarrow> alert_gate \<Rightarrow> 'w world \<Rightarrow> pass_report \<times> alert_gate \<times> 'w world"
where
  "execute fx d current_epoch locked gate s =
     (let ((reclaimed, failures, stale), s1) = do_reclaims (fx_reclaim fx) (pd_reclaim d) s;
          ((created, stopped), s2) =
            (case pd_per_coin d of
               Some per_coin \<Rightarrow> do_creates (fx_create fx) current_epoch per_coin (pd_create d) s1
             | None \<Rightarrow> (([], None), s1));
          (alert, gate1) = gate_observe gate (funding_observation_of stopped d)
      in (\<lparr>pt_reclaimed = reclaimed, pt_created = created, pt_reclaim_failures = failures, pt_stopped_at = stopped,
           pt_states = pd_states d, pt_per_coin = pd_per_coin d, pt_locked = locked, pt_funding_alert = alert,
           pt_url_stale_accepted = stale\<rparr>, gate1, s2))"

section \<open>The pass\<close>

definition reconcile_directive_of ::
  "'w mirror_effects \<Rightarrow> pass_env \<Rightarrow> pass_context \<Rightarrow> bond list \<Rightarrow> nat option \<Rightarrow> log_file \<Rightarrow> reconcile_directive option"
where
  "reconcile_directive_of fx env ctx held balance f =
     (case pc_reconcile ctx of
        None \<Rightarrow> None
      | Some rq \<Rightarrow>
          let bonded = (case fx_observe_bonded_urls fx of Inr ds \<Rightarrow> ds | Inl _ \<Rightarrow> []) in
          (case reconcile_decide (pe_margin env)
                  \<lparr>ri_trigger = rq_trigger rq, ri_advertised = rq_advertised rq, ri_mirror_enabled = pc_creates_enabled ctx,
                   ri_held_bonds = held, ri_bonded = bonded, ri_current_epoch = pc_current_epoch ctx,
                   ri_requirement = pc_requirement ctx, ri_margin_bp = pc_margin_bp ctx, ri_dig_balance = balance,
                   ri_reconcile_in_progress = reconcile_in_flight (pe_round_ms env) f (pc_now_unix_ms ctx)\<rparr> of
             Inr directive \<Rightarrow> Some directive
           | Inl _ \<Rightarrow> None))"

text \<open>What the pass hands to the decision, from the scan of the disk, the scan of the chain and the log.\<close>

definition pass_inputs_of ::
  "'w mirror_effects \<Rightarrow> pass_env \<Rightarrow> pass_context \<Rightarrow> bond list \<Rightarrow> bond list \<Rightarrow> held_mirror list \<Rightarrow> log_file \<Rightarrow> pass_inputs"
where
  "pass_inputs_of fx env ctx held relayed scanned f =
     (let l = (case ledger f of Some l \<Rightarrow> l | None \<Rightarrow> \<lparr>sl_records = [], sl_unreadable_lines = 0, sl_complete = False\<rparr>);
          on_chain = scanned @ recheck_missing_bonds (fx_recheck_bond fx) l held scanned (pc_current_epoch ctx);
          balance = (case fx_dig_balance fx of Inr b \<Rightarrow> Some b | Inl _ \<Rightarrow> None)
      in \<lparr>pi_held = held, pi_relayed = relayed, pi_on_chain = on_chain,
          pi_in_flight = in_flight_creates l (pc_current_epoch ctx), pi_current_epoch = pc_current_epoch ctx,
          pi_requirement = pc_requirement ctx, pi_margin_bp = pc_margin_bp ctx, pi_dig_balance = balance,
          pi_creates_enabled = pc_creates_enabled ctx, pi_can_advertise = pc_can_advertise ctx,
          pi_reconcile = reconcile_directive_of fx env ctx held balance f\<rparr>)"

definition pass_run ::
  "'w mirror_effects \<Rightarrow> pass_env \<Rightarrow> pass_context \<Rightarrow> pass_runner \<Rightarrow> 'w world
     \<Rightarrow> (pass_error + pass_report) \<times> pass_runner \<times> 'w world"
where
  "pass_run fx env ctx rn s =
     (case fx_observe_disk fx of
        Inl e \<Rightarrow> (Inl e, rn, s)
      | Inr observed \<Rightarrow>
        let (on_disk_held, relayed) = split_by_provenance observed;
            (held, presence) = observe on_disk_held (pc_now_unix_ms ctx) (rn_settling_window_ms rn) (rn_presence rn);
            rn1 = rn\<lparr>rn_presence := presence\<rparr>
        in case fx_observe_chain fx of
             Inl e \<Rightarrow> (Inl e, rn1, s)
           | Inr scanned \<Rightarrow>
             let f = snd (resolve_landed_spends (fx_coin_confirmation fx) (pe_append_ok env) (pe_journal_now env)
                            (pe_iter env) scanned (fst s));
                 i = pass_inputs_of fx env ctx held relayed scanned f;
                 locked = foldl (\<lambda>acc c. u64_sat_add acc (collateral_dig_base_units c)) 0 (pi_on_chain i);
                 (report, gate, s') = execute fx (pass_decide (pe_margin env) i) (pc_current_epoch ctx) locked
                                        (rn_funding_alerts rn1) (f, snd s)
             in (Inr report, rn1\<lparr>rn_funding_alerts := gate\<rparr>, s'))"

section \<open>What a pass spends\<close>

lemma do_reclaims_all:
  "do_reclaims reclaim rs s = ((reclaimed, failed, stale), s')
     \<Longrightarrow> mset reclaimed + mset (map fst failed) = mset (map fst rs)"
  by (induction reclaim rs s arbitrary: reclaimed failed stale s' rule: do_reclaims.induct)
    (auto simp: Let_def split: prod.splits option.splits)

lemma do_reclaims_succeed:
  "(\<And>m r s. fst (reclaim m r s) = None) \<Longrightarrow> fst (fst (do_reclaims reclaim rs s)) = map fst rs"
  by (induction reclaim rs s rule: do_reclaims.induct) (auto simp: Let_def split: prod.splits option.splits, (metis fst_conv option.distinct(1))+)

lemma do_creates_prefix:
  "do_creates create epoch per_coin bs s = ((made, stopped), s') \<Longrightarrow>
     (\<exists>rest. bs = made @ rest \<and> (case stopped of None \<Rightarrow> rest = [] | Some (b, e) \<Rightarrow> rest \<noteq> [] \<and> hd rest = b))"
  by (induction create epoch per_coin bs s arbitrary: made stopped s' rule: do_creates.induct)
    (fastforce simp: Let_def split: prod.splits option.splits)+

lemma do_creates_succeed:
  "(\<And>b ep n s. fst (create b ep n s) = None) \<Longrightarrow> fst (do_creates create epoch per_coin bs s) = (bs, None)"
  by (induction create epoch per_coin bs s rule: do_creates.induct)
    (auto simp: Let_def split: prod.splits option.splits, (metis fst_conv option.distinct(1))+)

definition attempted :: "pass_report \<Rightarrow> bond list" where
  "attempted rp = pt_created rp @ (case pt_stopped_at rp of None \<Rightarrow> [] | Some (b, _) \<Rightarrow> [b])"

lemma execute_spends:
  assumes "execute fx d ep locked gate s = (rp, gate', s')"
  shows "mset (pt_reclaimed rp) + mset (map fst (pt_reclaim_failures rp)) = mset (map fst (pd_reclaim d))"
    "\<exists>rest. pd_create d = attempted rp @ rest \<or> attempted rp = []"
    "pd_per_coin d = Some price \<Longrightarrow> pt_stopped_at rp = None \<Longrightarrow> pt_created rp = pd_create d"
    "pt_per_coin rp = pd_per_coin d" "pt_states rp = pd_states d"
proof -
  obtain reclaimed failed stale s1 where r: "do_reclaims (fx_reclaim fx) (pd_reclaim d) s = ((reclaimed, failed, stale), s1)"
    by (metis prod.exhaust)
  define cr where "cr = (case pd_per_coin d of
               Some per_coin \<Rightarrow> do_creates (fx_create fx) ep per_coin (pd_create d) s1 | None \<Rightarrow> (([], None), s1))"
  obtain made stopped s2 where c: "cr = ((made, stopped), s2)" by (metis prod.exhaust)
  have rp: "pt_reclaimed rp = reclaimed" "pt_reclaim_failures rp = failed" "pt_created rp = made" "pt_stopped_at rp = stopped"
    "pt_per_coin rp = pd_per_coin d" "pt_states rp = pd_states d"
    using assms r c by (auto simp: execute_def cr_def Let_def split: prod.splits)
  show "mset (pt_reclaimed rp) + mset (map fst (pt_reclaim_failures rp)) = mset (map fst (pd_reclaim d))"
    using do_reclaims_all [OF r] by (simp add: rp)
  show "\<exists>rest. pd_create d = attempted rp @ rest \<or> attempted rp = []"
  proof (cases "pd_per_coin d")
    case None
    with c show ?thesis by (simp add: cr_def attempted_def rp)
  next
    case (Some p)
    with c have "do_creates (fx_create fx) ep p (pd_create d) s1 = ((made, stopped), s2)" by (simp add: cr_def)
    from do_creates_prefix [OF this] show ?thesis
      by (auto simp: attempted_def rp split: option.splits) (metis append_Cons list.exhaust_sel)+
  qed
  show "pd_per_coin d = Some price \<Longrightarrow> pt_stopped_at rp = None \<Longrightarrow> pt_created rp = pd_create d"
    using do_creates_prefix [of "fx_create fx" ep price "pd_create d" s1 made stopped s2] c by (simp add: cr_def rp)
  show "pt_per_coin rp = pd_per_coin d" "pt_states rp = pd_states d" by (simp_all add: rp)
qed

lemma execute_all_creates:
  assumes "\<And>b ep n s. fst (fx_create fx b ep n s) = None" "execute fx d ep locked gate s = (rp, gate', s')"
    "pd_per_coin d \<noteq> None"
  shows "attempted rp = pd_create d"
proof -
  obtain price where price: "pd_per_coin d = Some price" using assms(3) by auto
  obtain rec s1 where r: "do_reclaims (fx_reclaim fx) (pd_reclaim d) s = (rec, s1)" by (metis prod.exhaust)
  obtain s2 where c: "do_creates (fx_create fx) ep price (pd_create d) s1 = ((pd_create d, None), s2)"
    using do_creates_succeed [of "fx_create fx", OF assms(1)] by (metis prod.collapse)
  show ?thesis
    using assms(2) price r c by (auto simp: execute_def attempted_def Let_def split: prod.splits)
qed

lemma execute_all_reclaims:
  assumes "\<And>m r s. fst (fx_reclaim fx m r s) = None" "execute fx d ep locked gate s = (rp, gate', s')"
  shows "pt_reclaimed rp = map fst (pd_reclaim d)"
proof -
  have "pt_reclaimed rp = fst (fst (do_reclaims (fx_reclaim fx) (pd_reclaim d) s))"
    using assms(2) by (auto simp: execute_def Let_def split: prod.splits)
  with do_reclaims_succeed [OF assms(1)] show ?thesis by simp
qed

lemma split_by_provenance_sets:
  "set (fst (split_by_provenance cs)) = {canonical (oc_bond c) | c. c \<in> set cs \<and> oc_provenance c = Held}"
  "set (snd (split_by_provenance cs)) = {canonical (oc_bond c) | c. c \<in> set cs \<and> oc_provenance c = Relayed}"
  by (induction cs) (auto simp: Let_def split: prod.splits capsule_provenance.splits)

text \<open>The records that hold a create back: of this bond and epoch, pending or submitted.\<close>

definition open_create_for :: "bond \<Rightarrow> int \<Rightarrow> spend_record \<Rightarrow> bool" where
  "open_create_for b ep r \<longleftrightarrow> si_kind (sr_intent r) = MIRROR_COIN \<and> sr_status r \<in> {SPending, SSubmitted}
     \<and> si_store_id (sr_intent r) = Some (store_id b) \<and> si_bond (sr_intent r) = Some \<lparr>ab_root = root_hash b, ab_epoch = ep\<rparr>"

lemma in_flight_iff: "b \<in> set (in_flight_creates l ep) \<longleftrightarrow> (\<exists>r \<in> set (sl_records l). open_create_for b ep r)"
proof -
  have "(case (si_bond (sr_intent r), si_store_id (sr_intent r)) of
           (Some c, Some store) \<Rightarrow> if ab_epoch c = ep then Some \<lparr>store_id = store, root_hash = ab_root c\<rparr> else None
         | _ \<Rightarrow> None) = Some b
      \<longleftrightarrow> si_store_id (sr_intent r) = Some (store_id b) \<and> si_bond (sr_intent r) = Some \<lparr>ab_root = root_hash b, ab_epoch = ep\<rparr>" for r
    by (cases "si_bond (sr_intent r)"; cases b) (auto split: option.splits, (metis audited_bond.select_convs(1))?)
  then show ?thesis by (auto simp: in_flight_creates_def set_map_filter open_create_for_def)
qed

lemma pass_create_guards:
  assumes "b \<in> set (pd_create (pass_decide margin i))"
  shows "pi_creates_enabled i \<and> pi_can_advertise i \<and> b \<in> set (pi_held i) \<and> b \<notin> set (pi_in_flight i)
    \<and> (\<forall>c \<in> set (pi_on_chain i). \<not> covers (pi_current_epoch i) c b)"
proof -
  have on: "pi_creates_enabled i" using assms pass_create_off by fastforce
  have adv: "pi_can_advertise i" using assms pass_create_none by fastforce
  have "b \<in> set (mp_create (pass_plan i))" using assms pass_create_prefix [of i margin] by (metis Un_iff set_append)
  with on adv show ?thesis by (simp add: plan_create_iff)
qed

lemma covered_covers: "covered on_chain b ep \<longleftrightarrow> (\<exists>c \<in> set on_chain. covers ep c b)"
  by (auto simp: covered_def covers_def bond_of_def list_ex_iff)

text \<open>A pass that reports observed both the disk and the chain, and executed what was decided from them.\<close>

lemma pass_run_reports:
  assumes "pass_run fx env ctx rn s = (Inr rp, rn', s')"
  obtains observed scanned f locked gate where "fx_observe_disk fx = Inr observed" "fx_observe_chain fx = Inr scanned"
    "f = snd (resolve_landed_spends (fx_coin_confirmation fx) (pe_append_ok env) (pe_journal_now env)
                (pe_iter env) scanned (fst s))"
    "execute fx (pass_decide (pe_margin env) (pass_inputs_of fx env ctx
        (fst (observe (fst (split_by_provenance observed)) (pc_now_unix_ms ctx) (rn_settling_window_ms rn) (rn_presence rn)))
        (snd (split_by_provenance observed)) scanned f))
      (pc_current_epoch ctx) locked (rn_funding_alerts rn) (f, snd s) = (rp, gate, s')"
  using assms by (auto simp: pass_run_def Let_def split: sum.splits prod.splits)

lemma pass_inputs_simps [simp]:
  "pi_held (pass_inputs_of fx env ctx held relayed scanned f) = held"
  "pi_current_epoch (pass_inputs_of fx env ctx held relayed scanned f) = pc_current_epoch ctx"
  "pi_creates_enabled (pass_inputs_of fx env ctx held relayed scanned f) = pc_creates_enabled ctx"
  "pi_can_advertise (pass_inputs_of fx env ctx held relayed scanned f) = pc_can_advertise ctx"
  "set scanned \<subseteq> set (pi_on_chain (pass_inputs_of fx env ctx held relayed scanned f))"
  "ledger f = Some l \<Longrightarrow> pi_in_flight (pass_inputs_of fx env ctx held relayed scanned f) = in_flight_creates l (pc_current_epoch ctx)"
  "pc_reconcile ctx = None \<Longrightarrow> pi_reconcile (pass_inputs_of fx env ctx held relayed scanned f) = None"
  by (auto simp: pass_inputs_of_def reconcile_directive_of_def Let_def)

text \<open>
  What a pass must reclaim, said without the plan. A bond is settled when every scan of an unbroken run
  up to this one has shown its capsule, the run having begun at least the window ago. The node still wants the coins
  of settled bonds while the switch is on; every other coin not of a future epoch has to come home.
\<close>

definition settled_bond :: "nat \<Rightarrow> (bond list \<times> nat) list \<Rightarrow> bond \<Rightarrow> bool" where
  "settled_bond window h b \<longleftrightarrow> (\<exists>t. since_of h b = Some t \<and> window \<le> snd (hd h) - t)"

definition comes_home :: "(bond \<Rightarrow> bool) \<Rightarrow> int \<Rightarrow> held_mirror \<Rightarrow> bool" where
  "comes_home wanted ep c \<longleftrightarrow> hm_epoch c < ep \<or> hm_epoch c = ep \<and> \<not> wanted (bond_of c)"

text \<open>The record as a pass folds it, and the coins it remembers that the scan of the chain did not show.\<close>

definition recorded :: "log_file \<Rightarrow> spend_ledger" where
  "recorded f = (case ledger f of Some l \<Rightarrow> l | None \<Rightarrow> \<lparr>sl_records = [], sl_unreadable_lines = 0, sl_complete = False\<rparr>)"

definition remembered ::
  "'w mirror_effects \<Rightarrow> log_file \<Rightarrow> (bond \<Rightarrow> bool) \<Rightarrow> held_mirror list \<Rightarrow> int \<Rightarrow> held_mirror set"
where
  "remembered fx f settled scanned ep =
     {m. \<exists>b. settled b \<and> \<not> covered scanned b ep \<and> recover_one (fx_recheck_bond fx) (recorded f) b ep = Some m}"

text \<open>The coins a reconcile may take home as well: what they declare is not what the node publishes.\<close>

definition declares_stale :: "'w mirror_effects \<Rightarrow> pass_context \<Rightarrow> (bond \<Rightarrow> bool) \<Rightarrow> held_mirror \<Rightarrow> bool" where
  "declares_stale fx ctx settled c \<longleftrightarrow> pc_creates_enabled ctx \<and>
     (\<exists>rq ds d. pc_reconcile ctx = Some rq \<and> fx_observe_bonded_urls fx = Inr ds \<and> d \<in> set ds
        \<and> coin_id (db_held d) = coin_id c \<and> hm_epoch (db_held d) = pc_current_epoch ctx
        \<and> settled (bond_of (db_held d)) \<and> set (db_urls d) \<noteq> set (eff_urls (rq_advertised rq)))"

lemma mset_kept_reasons:
  "mset (map fst (List.map_filter (\<lambda>c. map_option (Pair c) (g c)) cs)) = filter_mset (\<lambda>c. g c \<noteq> None) (mset cs)"
  by (induction cs) (auto simp: map_filter_simps)

lemma mset_plan_coins:
  "mset (map fst (mp_reclaim (plan held on_chain ep in_flight)))
     = filter_mset (comes_home (\<lambda>b. b \<in> set held) ep) (mset on_chain)"
proof -
  have "image_mset fst (mset (mp_reclaim (plan held on_chain ep in_flight)))
      = filter_mset (\<lambda>c. reason_for held ep c \<noteq> None) (mset on_chain)"
    unfolding mset_plan_reclaim using mset_kept_reasons [of "reason_for held ep" on_chain] by simp
  moreover have "(\<lambda>c. reason_for held ep c \<noteq> None) = comes_home (\<lambda>b. b \<in> set held) ep"
    by (auto simp: fun_eq_iff reason_for_def comes_home_def)
  ultimately show ?thesis by simp
qed

lemma recovered_distinct:
  "distinct held \<Longrightarrow> distinct (recheck_missing_bonds recheck l held on_chain ep)"
proof (induction held)
  case (Cons b bs)
  have "m \<notin> set (recheck_missing_bonds recheck l bs on_chain ep)" if "recover_one recheck l b ep = Some m" for m
    using that Cons.prems by (auto simp: recovered_iff dest!: recover_one_facts)
  with Cons show ?case
    by (auto simp: recheck_missing_bonds_def map_filter_simps split: option.splits)
qed (simp add: recheck_missing_bonds_def map_filter_simps)

lemma directive_coins_stale:
  assumes "c \<in> fst ` set (directive_reclaims on_chain (reconcile_directive_of fx env ctx held balance f))"
  shows "c \<in> set on_chain \<and> declares_stale fx ctx (\<lambda>b. b \<in> set held) c"
proof -
  obtain dir where c: "c \<in> set on_chain" and dir: "reconcile_directive_of fx env ctx held balance f = Some dir"
    and named: "coin_id c \<in> set (rd_coin_ids dir)"
    using assms by (auto dest!: directive_reclaims_in)
  from dir obtain rq i where rq: "pc_reconcile ctx = Some rq" and dec: "reconcile_decide (pe_margin env) i = Inr dir"
    and i: "ri_mirror_enabled i = pc_creates_enabled ctx" "ri_held_bonds i = held" "ri_advertised i = rq_advertised rq"
      "ri_current_epoch i = pc_current_epoch ctx"
      "ri_bonded i = (case fx_observe_bonded_urls fx of Inr ds \<Rightarrow> ds | Inl _ \<Rightarrow> [])"
    by (fastforce simp: reconcile_directive_of_def Let_def split: option.splits sum.splits)
  from dec named show ?thesis
    by (elim reconcile_decideE)
      (use c rq i in \<open>auto simp: declares_stale_def stale_set_iff dest!: in_set_takeD split: sum.splits\<close>)
qed

lemma pass_inputs_chain:
  "pi_on_chain (pass_inputs_of fx env ctx held relayed scanned f)
     = scanned @ recheck_missing_bonds (fx_recheck_bond fx) (recorded f) held scanned (pc_current_epoch ctx)"
  "pi_reconcile (pass_inputs_of fx env ctx held relayed scanned f)
     = reconcile_directive_of fx env ctx held (case fx_dig_balance fx of Inr b \<Rightarrow> Some b | Inl _ \<Rightarrow> None) f"
  by (simp_all add: pass_inputs_of_def recorded_def Let_def)

text \<open>The reclaims of a pass: what has to come home, and what a reconcile asked for.\<close>

lemma decided_reclaims:
  assumes "distinct held" and i_def: "i = pass_inputs_of fx env ctx held relayed scanned f"
  shows "\<exists>extra D. mset (map fst (pd_reclaim (pass_decide margin i)))
        = filter_mset (comes_home (\<lambda>b. pc_creates_enabled ctx \<and> b \<in> set held) (pc_current_epoch ctx)) (mset (scanned @ extra)) + D
      \<and> set extra = remembered fx f (\<lambda>b. b \<in> set held) scanned (pc_current_epoch ctx) \<and> distinct extra
      \<and> set_mset D \<subseteq> {c \<in> set (scanned @ extra). declares_stale fx ctx (\<lambda>b. b \<in> set held) c}"
proof -
  define extra where "extra = recheck_missing_bonds (fx_recheck_bond fx) (recorded f) held scanned (pc_current_epoch ctx)"
  define D where "D = mset (map fst (directive_reclaims (scanned @ extra) (pi_reconcile i)))"
  have chain: "pi_on_chain i = scanned @ extra" by (simp add: i_def extra_def pass_inputs_chain)
  have on: "(\<lambda>b. b \<in> set (if pc_creates_enabled ctx then held else [])) = (\<lambda>b. pc_creates_enabled ctx \<and> b \<in> set held)"
    by auto
  have "mset (map fst (pd_reclaim (pass_decide margin i)))
      = filter_mset (comes_home (\<lambda>b. pc_creates_enabled ctx \<and> b \<in> set held) (pc_current_epoch ctx)) (mset (scanned @ extra)) + D"
    unfolding pass_reclaim map_append mset_append [of "map fst (mp_reclaim _)"] mset_plan_coins chain D_def
    by (simp add: i_def on)
  moreover have "set_mset D \<subseteq> {c \<in> set (scanned @ extra). declares_stale fx ctx (\<lambda>b. b \<in> set held) c}"
    unfolding D_def i_def pass_inputs_chain set_mset_mset set_map using directive_coins_stale by blast
  moreover have "set extra = remembered fx f (\<lambda>b. b \<in> set held) scanned (pc_current_epoch ctx)"
    by (auto simp: extra_def remembered_def recovered_iff)
  ultimately show ?thesis using recovered_distinct [OF assms(1)] extra_def by blast
qed

section \<open>Properties\<close>

text \<open>
  C11: a pass spends only what it can justify, and takes home all it should. A pass that cannot observe the disk or
  the chain spends nothing and leaves the log as it was. Otherwise the coins it tries to reclaim are, counted with
  multiplicity, exactly these: of the coins the scan showed, and of those the record remembers for a settled bond and a
  second look confirms, each of an ended epoch and each of this epoch whose bond has not been on disk in
  every scan for at least the settling window, or each at all with the switch off; and beside them only coins that a
  reconcile was asked for and that declare other URLs than the node publishes. Each create it attempts is of a capsule
  the node holds for itself, settled, never of one it merely relays unless it holds it too, with the switch on
  and an address to advertise, with no coin of this epoch on chain, and with no create pending or submitted in the record.
\<close>
theorem pass_spends_justified:
  assumes "rn_presence rn = tracked (rn_settling_window_ms rn) h" "pass_run fx env ctx rn (f0, w) = (res, rn', s')"
  shows "case res of
      Inl e \<Rightarrow> s' = (f0, w) \<and> rn_funding_alerts rn' = rn_funding_alerts rn
        \<and> (fx_observe_disk fx = Inl e \<or> fx_observe_chain fx = Inl e)
    | Inr rp \<Rightarrow> \<exists>observed scanned f settled. fx_observe_disk fx = Inr observed \<and> fx_observe_chain fx = Inr scanned
        \<and> f = snd (resolve_landed_spends (fx_coin_confirmation fx) (pe_append_ok env) (pe_journal_now env)
                      (pe_iter env) scanned f0)
        \<and> settled = settled_bond (rn_settling_window_ms rn) ((fst (split_by_provenance observed), pc_now_unix_ms ctx) # h)
        \<and> (\<exists>extra D. mset (pt_reclaimed rp) + mset (map fst (pt_reclaim_failures rp))
               = filter_mset (comes_home (\<lambda>b. pc_creates_enabled ctx \<and> settled b) (pc_current_epoch ctx))
                   (mset (scanned @ extra)) + D
             \<and> set extra = remembered fx f settled scanned (pc_current_epoch ctx) \<and> distinct extra
             \<and> set_mset D \<subseteq> {c \<in> set (scanned @ extra). declares_stale fx ctx settled c})
        \<and> (\<forall>b \<in> set (attempted rp). pc_creates_enabled ctx \<and> pc_can_advertise ctx
             \<and> (\<exists>c \<in> set observed. oc_provenance c = Held \<and> canonical (oc_bond c) = b)
             \<and> settled b
             \<and> \<not> covered scanned b (pc_current_epoch ctx)
             \<and> (\<forall>l. ledger f = Some l \<longrightarrow> (\<nexists>r. r \<in> set (sl_records l) \<and> open_create_for b (pc_current_epoch ctx) r)))"
proof (cases res)
  case (Inl e)
  with assms(2) show ?thesis by (auto simp: pass_run_def Let_def split: sum.splits prod.splits)
next
  case (Inr rp)
  let ?disk = "\<lambda>observed. fst (split_by_provenance observed)"
  from assms(2) Inr obtain observed scanned f locked gate where obs: "fx_observe_disk fx = Inr observed"
      "fx_observe_chain fx = Inr scanned"
      "f = snd (resolve_landed_spends (fx_coin_confirmation fx) (pe_append_ok env) (pe_journal_now env) (pe_iter env) scanned f0)"
    and ex: "execute fx (pass_decide (pe_margin env) (pass_inputs_of fx env ctx
        (fst (observe (?disk observed) (pc_now_unix_ms ctx) (rn_settling_window_ms rn) (rn_presence rn)))
        (snd (split_by_provenance observed)) scanned f))
      (pc_current_epoch ctx) locked (rn_funding_alerts rn) (f, w) = (rp, gate, s')"
    by (auto elim!: pass_run_reports)
  define held where "held = fst (observe (?disk observed) (pc_now_unix_ms ctx) (rn_settling_window_ms rn) (rn_presence rn))"
  define settled where "settled = settled_bond (rn_settling_window_ms rn) ((?disk observed, pc_now_unix_ms ctx) # h)"
  define i where "i = pass_inputs_of fx env ctx held (snd (split_by_provenance observed)) scanned f"
  note ex = ex [folded held_def, folded i_def]
  have i: "pi_held i = held" "pi_creates_enabled i = pc_creates_enabled ctx" "pi_current_epoch i = pc_current_epoch ctx"
    "pi_can_advertise i = pc_can_advertise ctx" "set scanned \<subseteq> set (pi_on_chain i)"
    "\<And>l. ledger f = Some l \<Longrightarrow> pi_in_flight i = in_flight_creates l (pc_current_epoch ctx)"
    by (simp_all add: i_def)
  note seen = observe_spec [of "rn_presence rn" "?disk observed" "pc_now_unix_ms ctx" "rn_settling_window_ms rn"]
    tracked_spec [of "rn_settling_window_ms rn" h]
  have held: "b \<in> set held \<longleftrightarrow> settled b" and dist: "distinct held" for b
    using seen(3,5,6) by (auto simp: held_def settled_def settled_bond_def assms(1) split: option.splits)
  have on_disk: "\<exists>c \<in> set observed. oc_provenance c = Held \<and> canonical (oc_bond c) = b" if "settled b" for b
    using that split_by_provenance_sets(1) [of observed] by (auto simp: settled_def settled_bond_def split: if_splits)
  have guards: "pc_creates_enabled ctx \<and> pc_can_advertise ctx \<and> settled b \<and> \<not> covered scanned b (pc_current_epoch ctx)
      \<and> (\<forall>l. ledger f = Some l \<longrightarrow> b \<notin> set (in_flight_creates l (pc_current_epoch ctx)))" if "b \<in> set (attempted rp)" for b
  proof -
    have "b \<in> set (pd_create (pass_decide (pe_margin env) i))" using execute_spends(2) [OF ex] that by auto
    from pass_create_guards [OF this] i held show ?thesis by (auto simp: covered_covers)
  qed
  have creates: "\<forall>b \<in> set (attempted rp). pc_creates_enabled ctx \<and> pc_can_advertise ctx
             \<and> (\<exists>c \<in> set observed. oc_provenance c = Held \<and> canonical (oc_bond c) = b)
             \<and> settled b
             \<and> \<not> covered scanned b (pc_current_epoch ctx)
             \<and> (\<forall>l. ledger f = Some l \<longrightarrow> (\<nexists>r. r \<in> set (sl_records l) \<and> open_create_for b (pc_current_epoch ctx) r))"
    using guards on_disk in_flight_iff by blast
  note reclaims = decided_reclaims [OF dist i_def, of "pe_margin env", folded execute_spends(1) [OF ex], unfolded held]
  show ?thesis
    unfolding Inr sum.case
    by (rule exI [of _ observed], rule exI [of _ scanned], rule exI [of _ f], rule exI [of _ settled])
      (intro conjI obs settled_def reclaims creates)
qed

text \<open>
  C32: a node that restarts takes its bonds home. The tracker of a fresh process has settled nothing, so the
  first pass of every start reclaims each coin of the current epoch, whatever is on the disk, and creates
  nothing in its place in that pass.
\<close>
theorem restart_reclaims_every_coin:
  assumes "rn_presence rn = tracker_new" "0 < rn_settling_window_ms rn"
    "fx_observe_disk fx = Inr observed" "fx_observe_chain fx = Inr scanned"
    "\<And>m r s. fst (fx_reclaim fx m r s) = None" "pass_run fx env ctx rn (f0, w) = (Inr rp, rn', s')"
  shows "(\<forall>c \<in> set scanned. hm_epoch c \<le> pc_current_epoch ctx \<longrightarrow> c \<in> set (pt_reclaimed rp)) \<and> pt_created rp = []"
proof -
  from assms(3,4,6) obtain f locked gate where
    ex: "execute fx (pass_decide (pe_margin env) (pass_inputs_of fx env ctx
        (fst (observe (fst (split_by_provenance observed)) (pc_now_unix_ms ctx) (rn_settling_window_ms rn) (rn_presence rn)))
        (snd (split_by_provenance observed)) scanned f))
      (pc_current_epoch ctx) locked (rn_funding_alerts rn) (f, w) = (rp, gate, s')"
    by (auto elim!: pass_run_reports)
  define i where "i = pass_inputs_of fx env ctx [] (snd (split_by_provenance observed)) scanned f"
  note ex = ex [unfolded assms(1) observe_fresh [OF assms(2)], folded i_def]
  have i: "pi_held i = []" "pi_current_epoch i = pc_current_epoch ctx" "set scanned \<subseteq> set (pi_on_chain i)"
    by (simp_all add: i_def)
  have "b \<notin> set (pd_create (pass_decide (pe_margin env) i))" for b
    using pass_create_guards [of b "pe_margin env" i] i(1) by auto
  then have "pd_create (pass_decide (pe_margin env) i) = []" by (metis list.set_intros(1) neq_Nil_conv)
  then have "attempted rp = []" using execute_spends(2) [OF ex] by auto
  moreover have "c \<in> set (pt_reclaimed rp)" if "c \<in> set scanned" "hm_epoch c \<le> pc_current_epoch ctx" for c
  proof -
    have "reason_for [] (pc_current_epoch ctx) c \<noteq> None" using that(2) by (simp add: reason_for_def)
    then have "c \<in> fst ` set (pd_reclaim (pass_decide (pe_margin env) i))"
      using that(1) i by (auto simp: pass_reclaim image_Un plan_reclaimed_iff)
    then show ?thesis using execute_all_reclaims [OF assms(5) ex] by simp
  qed
  ultimately show ?thesis by (simp add: attempted_def)
qed

text \<open>A node whose only capsule is on disk and bonded, just restarted.\<close>

definition sample_effects :: "unit mirror_effects" where
  "sample_effects = \<lparr>fx_observe_disk = Inr [\<lparr>oc_bond = \<lparr>store_id = ''s'', root_hash = ''r''\<rparr>, oc_provenance = Held\<rparr>],
     fx_observe_chain = Inr sample_on_chain, fx_observe_bonded_urls = Inr [], fx_coin_confirmation = (\<lambda>_. Inr None),
     fx_dig_balance = Inr 0, fx_reclaim = (\<lambda>_ _ s. (None, s)), fx_create = (\<lambda>_ _ _ s. (None, s)),
     fx_recheck_bond = (\<lambda>_ _ _ _. VUnverified)\<rparr>"

definition sample_env :: pass_env where
  "sample_env = \<lparr>pe_margin = (\<lambda>r _. r), pe_round_ms = 600000, pe_append_ok = (\<lambda>_. True), pe_journal_now = 0, pe_iter = id\<rparr>"

definition sample_ctx :: pass_context where
  "sample_ctx = \<lparr>pc_now_unix_ms = 100000, pc_current_epoch = 7, pc_requirement = RequirementKnown 20, pc_margin_bp = 0,
     pc_creates_enabled = True, pc_can_advertise = True, pc_reconcile = None\<rparr>"

lemma pass_run_returns:
  assumes "fx_observe_disk fx = Inr observed" "fx_observe_chain fx = Inr scanned"
  shows "\<exists>rp rn' s'. pass_run fx env ctx rn s = (Inr rp, rn', s')"
proof -
  have "\<exists>rp. fst (pass_run fx env ctx rn s) = Inr rp" by (simp add: pass_run_def assms Let_def split_beta)
  then show ?thesis by (metis prod.exhaust fst_conv)
qed

lemma sample_pass_run: "\<exists>rp rn' s'. pass_run sample_effects sample_env sample_ctx runner_new (Missing, ()) = (Inr rp, rn', s')"
  by (rule pass_run_returns) (simp_all add: sample_effects_def)

theorem restart_reclaims_every_coin_witness:
  "\<exists>rp rn' s'. pass_run sample_effects sample_env sample_ctx runner_new (Missing, ()) = (Inr rp, rn', s')
     \<and> set sample_on_chain \<subseteq> set (pt_reclaimed rp) \<and> pt_created rp = []"
proof -
  from sample_pass_run obtain rp rn' s' where run: "pass_run sample_effects sample_env sample_ctx runner_new (Missing, ()) = (Inr rp, rn', s')"
    by blast
  have "(\<forall>c \<in> set sample_on_chain. hm_epoch c \<le> pc_current_epoch sample_ctx \<longrightarrow> c \<in> set (pt_reclaimed rp)) \<and> pt_created rp = []"
    by (rule restart_reclaims_every_coin [OF _ _ _ _ _ run])
      (simp_all add: runner_new_def SETTLING_WINDOW_MS_def sample_effects_def)
  then have "set sample_on_chain \<subseteq> set (pt_reclaimed rp) \<and> pt_created rp = []"
    by (auto simp: sample_on_chain_def sample_ctx_def)
  with run show ?thesis by blast
qed

text \<open>
  A node that has held its capsule since the scan before, with a bond of the epoch that ended and money for
  another: the pass takes the old coin home and makes the new one.
\<close>

definition sample_turn :: "unit mirror_effects" where
  "sample_turn = sample_effects\<lparr>fx_observe_chain := Inr (map (\<lambda>c. c\<lparr>hm_epoch := 6\<rparr>) sample_on_chain), fx_dig_balance := Inr 100\<rparr>"

definition sample_history :: "(bond list \<times> nat) list" where
  "sample_history = [([\<lparr>store_id = ''s'', root_hash = ''r''\<rparr>], 0)]"

definition sample_runner :: pass_runner where
  "sample_runner = runner_new\<lparr>rn_presence := tracked SETTLING_WINDOW_MS sample_history\<rparr>"

lemma sample_canonical: "canonical \<lparr>store_id = ''s'', root_hash = ''r''\<rparr> = \<lparr>store_id = ''s'', root_hash = ''r''\<rparr>"
  by (simp add: canonical_def runner_hex_def to_ascii_lowercase_def ascii_lower_def)

lemma sample_held:
  "fst (observe [\<lparr>store_id = ''s'', root_hash = ''r''\<rparr>] 100000 SETTLING_WINDOW_MS (tracked SETTLING_WINDOW_MS sample_history))
     = [\<lparr>store_id = ''s'', root_hash = ''r''\<rparr>]"
  by (simp add: sample_history_def observe_def tracker_new_def SETTLING_WINDOW_MS_def)

lemma nothing_resolved: "snd (resolve_landed_spends conf ok now iter cs Missing) = Missing"
  by (simp add: resolve_landed_spends_def ledger_def split_beta)

lemma nothing_remembered: "recover_one recheck (recorded Missing) b ep = None"
  by (simp add: recover_one_def recorded_def ledger_def confirmed_mirror_bond_def)

lemma sample_turn_run:
  "\<exists>rp rn' s'. pass_run sample_turn sample_env sample_ctx sample_runner (Missing, ()) = (Inr rp, rn', s')
     \<and> attempted rp = [\<lparr>store_id = ''s'', root_hash = ''r''\<rparr>]"
proof -
  let ?b = "\<lparr>store_id = ''s'', root_hash = ''r''\<rparr> :: bond"
  obtain rp rn' s' where run: "pass_run sample_turn sample_env sample_ctx sample_runner (Missing, ()) = (Inr rp, rn', s')"
    using pass_run_returns [of sample_turn] by (fastforce simp: sample_turn_def sample_effects_def)
  then obtain observed scanned f locked gate where
    o: "fx_observe_disk sample_turn = Inr observed" "fx_observe_chain sample_turn = Inr scanned"
      "f = snd (resolve_landed_spends (fx_coin_confirmation sample_turn) (pe_append_ok sample_env) (pe_journal_now sample_env)
                (pe_iter sample_env) scanned Missing)"
    and ex: "execute sample_turn (pass_decide (pe_margin sample_env) (pass_inputs_of sample_turn sample_env sample_ctx
        (fst (observe (fst (split_by_provenance observed)) (pc_now_unix_ms sample_ctx) (rn_settling_window_ms sample_runner)
                (rn_presence sample_runner)))
        (snd (split_by_provenance observed)) scanned f))
      (pc_current_epoch sample_ctx) locked (rn_funding_alerts sample_runner) (f, ()) = (rp, gate, s')"
    by (elim pass_run_reports) simp
  have f: "f = Missing" using o(3) by (simp add: nothing_resolved)
  have split: "fst (split_by_provenance observed) = [?b]" "snd (split_by_provenance observed) = []"
    using o(1) by (auto simp: sample_turn_def sample_effects_def sample_canonical)
  define i where "i = pass_inputs_of sample_turn sample_env sample_ctx [?b] [] scanned Missing"
  have "pc_now_unix_ms sample_ctx = 100000" "rn_settling_window_ms sample_runner = SETTLING_WINDOW_MS"
    "rn_presence sample_runner = tracked SETTLING_WINDOW_MS sample_history"
    by (simp_all add: sample_ctx_def sample_runner_def runner_new_def)
  note ex = ex [unfolded f split this sample_held, folded i_def]
  have i: "pi_can_advertise i" "pi_requirement i = RequirementKnown 20" "pi_dig_balance i = Some 100" "pi_margin_bp i = 0"
    by (simp_all add: i_def pass_inputs_of_def sample_ctx_def sample_turn_def Let_def)
  have "mp_create (pass_plan i) = [?b]"
    using o(2) by (auto simp: i_def pass_inputs_of_def sample_ctx_def sample_turn_def sample_effects_def sample_on_chain_def plan_def
        in_flight_creates_def ledger_def recheck_missing_bonds_def recover_one_def confirmed_mirror_bond_def
        map_filter_simps Let_def covered_def)
  then have "pd_create (pass_decide (pe_margin sample_env) i) = [?b]"
    by (simp add: pass_create_priced [OF i(1-3)] split_by_funds_def i(4) sample_env_def)
  moreover have "pd_per_coin (pass_decide (pe_margin sample_env) i) \<noteq> None"
    by (simp add: pass_per_coin i(2,4))
  ultimately have "attempted rp = [?b]"
    using execute_all_creates [OF _ ex] by (simp add: sample_turn_def sample_effects_def)
  with run show ?thesis by blast
qed

theorem pass_spends_justified_witness:
  "\<exists>rp rn' s'. pass_run sample_turn sample_env sample_ctx sample_runner (Missing, ()) = (Inr rp, rn', s')
     \<and> attempted rp = [\<lparr>store_id = ''s'', root_hash = ''r''\<rparr>]
     \<and> settled_bond SETTLING_WINDOW_MS (([\<lparr>store_id = ''s'', root_hash = ''r''\<rparr>], 100000) # sample_history)
         \<lparr>store_id = ''s'', root_hash = ''r''\<rparr>
     \<and> mset (pt_reclaimed rp) + mset (map fst (pt_reclaim_failures rp))
       = mset (map (\<lambda>c. c\<lparr>hm_epoch := 6\<rparr>) sample_on_chain)"
proof -
  from sample_turn_run obtain rp rn' s' where
    run: "pass_run sample_turn sample_env sample_ctx sample_runner (Missing, ()) = (Inr rp, rn', s')"
    and tried: "attempted rp = [\<lparr>store_id = ''s'', root_hash = ''r''\<rparr>]"
    by blast
  have "rn_presence sample_runner = tracked (rn_settling_window_ms sample_runner) sample_history"
    by (simp add: sample_runner_def runner_new_def)
  from pass_spends_justified [OF this run] obtain extra D where
    "mset (pt_reclaimed rp) + mset (map fst (pt_reclaim_failures rp))
       = filter_mset (comes_home (\<lambda>b. settled_bond SETTLING_WINDOW_MS
             (([\<lparr>store_id = ''s'', root_hash = ''r''\<rparr>], 100000) # sample_history) b) 7)
           (mset (map (\<lambda>c. c\<lparr>hm_epoch := 6\<rparr>) sample_on_chain @ extra)) + D"
    "set extra = {}" "D = {#}"
    "settled_bond SETTLING_WINDOW_MS (([\<lparr>store_id = ''s'', root_hash = ''r''\<rparr>], 100000) # sample_history)
         \<lparr>store_id = ''s'', root_hash = ''r''\<rparr>"
    by (auto simp: tried sample_turn_def sample_effects_def sample_ctx_def sample_runner_def runner_new_def
        sample_canonical remembered_def nothing_remembered nothing_resolved declares_stale_def)
  moreover from this have "mset (pt_reclaimed rp) + mset (map fst (pt_reclaim_failures rp))
       = mset (map (\<lambda>c. c\<lparr>hm_epoch := 6\<rparr>) sample_on_chain)"
    by (simp add: comes_home_def sample_on_chain_def)
  ultimately show ?thesis using run tried by blast
qed

text \<open>
  A create that was broadcast is not in flight: its handle is dropped when the pass ends, so the record
  stands as unresolved, and only pending and submitted records suppress a second create.
\<close>

lemma unresolved_not_in_flight:
  assumes "\<And>r. r \<in> set (sl_records l) \<Longrightarrow> si_bond (sr_intent r) = Some \<lparr>ab_root = root_hash b, ab_epoch = ep\<rparr>
    \<Longrightarrow> si_store_id (sr_intent r) = Some (store_id b) \<Longrightarrow> \<exists>reason. sr_status r = SUnresolved reason"
  shows "b \<notin> set (in_flight_creates l ep)"
  using assms by (fastforce simp: in_flight_iff open_create_for_def)

end
