(* ===== verification/Mirror_States.thy ===== *)
theory Mirror_States
  imports Mirror_Pass
begin

text \<open>
  The published read of the node's bonds, one page at a time (\<open>mirror/states.rs\<close>). A key is the pair of
  canonical hex spellings, ordered as the contract's \<open>MirrorBondKey\<close> is; the wallet's address, which is
  passed through, is left out.
\<close>

section \<open>One page\<close>

type_synonym bond_key_text = "string \<times> string"

datatype wire_state =
  WBonded string nat nat
| WPending
| WUnfunded nat
| WDeferred unknown_reason_code
| WUnadvertised
| WDisabled
| WWithheld
| WReclaiming string nat nat

record bond_observation =
  bo_states :: "(bond \<times> bond_state) list"
  bo_locked_dig_base_units :: nat
  bo_epoch :: int

record bond_page =
  bp_entries :: "(bond_key_text \<times> wire_state) list"
  bp_complete :: bool
  bp_cursor :: "bond_key_text option"
  bp_locked_dig_base_units :: nat
  bp_epoch :: nat

definition canonical_hex :: "string \<Rightarrow> string" where
  "canonical_hex v =
     (let lowered = to_ascii_lowercase v in if prefix ''0x'' lowered then drop 2 lowered else lowered)"

definition canonical_key :: "bond \<Rightarrow> bond_key_text" where
  "canonical_key b = (canonical_hex (store_id b), canonical_hex (root_hash b))"

fun wire_state_of :: "bond_state \<Rightarrow> wire_state" where
  "wire_state_of (Bonded cid ep amount) = WBonded cid (nat (max ep 0)) amount"
| "wire_state_of Pending = WPending"
| "wire_state_of (Unfunded short) = WUnfunded short"
| "wire_state_of FundsUnknown = WDeferred BalanceUnreadable"
| "wire_state_of (Deferred reason) = WDeferred reason"
| "wire_state_of Unadvertised = WUnadvertised"
| "wire_state_of Disabled = WDisabled"
| "wire_state_of Withheld = WWithheld"
| "wire_state_of (Reclaiming cid ep amount) = WReclaiming cid (nat (max ep 0)) amount"

text \<open>The rows of the whole answer, before any paging.\<close>

definition page_rows :: "bond_observation \<Rightarrow> (bond_key_text \<times> wire_state) list" where
  "page_rows obs =
     dedup_by_key (sort_key fst (map (\<lambda>(b, st). (canonical_key b, wire_state_of st)) (bo_states obs)))"

definition page :: "bond_observation \<Rightarrow> bond_key_text option \<Rightarrow> nat \<Rightarrow> bond_page" where
  "page obs after limit =
     (let rows = page_rows obs;
          remaining = (case after of Some k \<Rightarrow> filter (\<lambda>r. k < fst r) rows | None \<Rightarrow> rows);
          entries = take limit remaining
      in \<lparr>bp_entries = entries, bp_complete = (length remaining \<le> limit),
          bp_cursor = (if entries = [] then None else Some (fst (last entries))),
          bp_locked_dig_base_units = bo_locked_dig_base_units obs,
          bp_epoch = nat (max (bo_epoch obs) 0)\<rparr>)"

section \<open>A walk\<close>

text \<open>
  A client's walk: ask for a page, and resume from its cursor until a page says it is complete. The
  first argument bounds the pages it is ready to ask for.
\<close>

fun walk :: "nat \<Rightarrow> bond_observation \<Rightarrow> nat \<Rightarrow> bond_key_text option \<Rightarrow> bond_page list option" where
  "walk 0 obs limit after = None"
| "walk (Suc n) obs limit after =
     (let p = page obs after limit in
      if bp_complete p then Some [p]
      else case bp_cursor p of
             None \<Rightarrow> None
           | Some k \<Rightarrow> map_option (\<lambda>ps. p # ps) (walk n obs limit (Some k)))"

lemma page_rows_sorted: "sorted_wrt (<) (map fst (page_rows obs))"
  by (simp add: page_rows_def dedup_keys strict_sorted_iff distinct_remdups_adj_sorted)

text \<open>What is left after the last key of a prefix is the rest.\<close>

lemma filter_after_prefix:
  fixes xs ys :: "('k::linorder \<times> 'v) list"
  assumes "sorted_wrt (<) (map fst (xs @ ys))" "xs \<noteq> []"
  shows "filter (\<lambda>r. fst (last xs) < fst r) (xs @ ys) = ys"
proof -
  obtain zs z where xs: "xs = zs @ [z]" using assms(2) by (meson rev_exhaust)
  have "\<forall>x \<in> set zs. \<not> fst z < fst x" "\<forall>x \<in> set ys. fst z < fst x"
    using assms(1) by (auto simp: xs sorted_wrt_append)
  then have "filter (\<lambda>r. fst z < fst r) zs = []" "filter (\<lambda>r. fst z < fst r) ys = ys"
    by (simp_all add: filter_empty_conv filter_id_conv)
  then show ?thesis by (simp add: xs)
qed

lemma filter_after_suffix:
  fixes xs ys :: "('k::linorder \<times> 'v) list"
  assumes "sorted_wrt (<) (map fst (us @ xs @ ys))" "xs \<noteq> []"
  shows "filter (\<lambda>r. fst (last xs) < fst r) (us @ xs @ ys) = ys"
  using filter_after_prefix [of "us @ xs" ys] assms by simp

definition remaining :: "bond_observation \<Rightarrow> bond_key_text option \<Rightarrow> (bond_key_text \<times> wire_state) list" where
  "remaining obs after = (case after of Some k \<Rightarrow> filter (\<lambda>r. k < fst r) (page_rows obs) | None \<Rightarrow> page_rows obs)"

lemma remaining_step:
  assumes "page_rows obs = us @ xs @ ys" "xs \<noteq> []"
  shows "remaining obs (Some (fst (last xs))) = ys"
  using filter_after_suffix [of us xs ys] page_rows_sorted [of obs] assms by (simp add: remaining_def)

lemma walk_remaining:
  assumes "page_rows obs = us @ remaining obs after" "length (remaining obs after) < n" "0 < limit"
  shows "\<exists>ps. walk n obs limit after = Some ps \<and> concat (map bp_entries ps) = remaining obs after
    \<and> length ps \<le> max 1 (length (remaining obs after))
    \<and> (\<forall>p \<in> set ps. bp_locked_dig_base_units p = bo_locked_dig_base_units obs)"
  using assms
proof (induction n arbitrary: us after)
  case (Suc n)
  let ?r = "remaining obs after"
  let ?p = "page obs after limit"
  have p: "bp_entries ?p = take limit ?r" "bp_complete ?p = (length ?r \<le> limit)"
    "bp_cursor ?p = (if take limit ?r = [] then None else Some (fst (last (take limit ?r))))"
    "bp_locked_dig_base_units ?p = bo_locked_dig_base_units obs"
    by (simp_all add: page_def remaining_def Let_def)
  show ?case
  proof (cases "length ?r \<le> limit")
    case True
    then show ?thesis using p by (simp add: Let_def)
  next
    case False
    with Suc.prems(3) have ne: "take limit ?r \<noteq> []" by auto
    define k where "k = fst (last (take limit ?r))"
    have "page_rows obs = us @ take limit ?r @ drop limit ?r" using Suc.prems(1) by simp
    then have rest: "remaining obs (Some k) = drop limit ?r"
      unfolding k_def using ne by (rule remaining_step)
    have "page_rows obs = (us @ take limit ?r) @ remaining obs (Some k)"
      using Suc.prems(1) by (simp add: rest)
    moreover have "length (remaining obs (Some k)) < n"
      using Suc.prems(2,3) False by (simp add: rest)
    ultimately obtain ps where w: "walk n obs limit (Some k) = Some ps"
        "concat (map bp_entries ps) = drop limit ?r"
        "length ps \<le> max 1 (length (drop limit ?r))"
        "\<forall>p \<in> set ps. bp_locked_dig_base_units p = bo_locked_dig_base_units obs"
      using Suc.IH [of "us @ take limit ?r" "Some k"] Suc.prems(3) rest by auto
    have "walk (Suc n) obs limit after = Some (?p # ps)"
      using False p ne w(1) by (simp add: Let_def k_def)
    moreover have "concat (map bp_entries (?p # ps)) = ?r" using w(2) p by simp
    moreover have "length (?p # ps) \<le> max 1 (length ?r)"
      using w(3) False Suc.prems(3) by auto
    ultimately show ?thesis using w(4) p(4) by auto
  qed
qed simp

section \<open>Properties\<close>

text \<open>
  a walk over the pages sees every bond exactly once. With any positive page size, resuming from the
  cursor each page hands out ends, after at most as many pages as there are rows, and the pages together
  are exactly the rows of the whole answer, in ascending order of their canonical keys without a repeat;
  every page carries the same total of locked collateral.
\<close>
theorem page_walk_complete:
  assumes "0 < limit"
  shows "\<exists>ps. walk (Suc (length (page_rows obs))) obs limit None = Some ps
    \<and> concat (map bp_entries ps) = page_rows obs
    \<and> length ps \<le> max 1 (length (page_rows obs))
    \<and> (\<forall>p \<in> set ps. bp_locked_dig_base_units p = bo_locked_dig_base_units obs)
    \<and> sorted_wrt (<) (map fst (page_rows obs))
    \<and> fst ` set (page_rows obs) = canonical_key ` fst ` set (bo_states obs)"
proof -
  have "set (map fst (page_rows obs)) = canonical_key ` fst ` set (bo_states obs)"
    unfolding page_rows_def dedup_keys by (force simp: image_iff)
  with walk_remaining [of obs "[]" None "Suc (length (page_rows obs))" limit] assms
  show ?thesis by (simp add: page_rows_sorted remaining_def)
qed

definition sample_observation :: bond_observation where
  "sample_observation = \<lparr>bo_states = [(\<lparr>store_id = ''0xb'', root_hash = ''1''\<rparr>, Pending),
     (\<lparr>store_id = ''a'', root_hash = ''1''\<rparr>, Withheld), (\<lparr>store_id = ''c'', root_hash = ''1''\<rparr>, Unfunded 3)],
     bo_locked_dig_base_units = 40, bo_epoch = 2\<rparr>"

lemma sample_rows:
  "page_rows sample_observation
     = [((''a'', ''1''), WWithheld), ((''b'', ''1''), WPending), ((''c'', ''1''), WUnfunded 3)]"
  by (simp add: page_rows_def sample_observation_def canonical_key_def canonical_hex_def to_ascii_lowercase_def
      ascii_lower_def Let_def)

theorem page_walk_complete_witness:
  "\<exists>ps. walk 4 sample_observation 2 None = Some ps
     \<and> map (\<lambda>e. fst (fst e)) (concat (map bp_entries ps)) = [''a'', ''b'', ''c'']"
proof -
  obtain ps where "walk (Suc (length (page_rows sample_observation))) sample_observation 2 None = Some ps"
    "concat (map bp_entries ps) = page_rows sample_observation"
    using page_walk_complete [of 2 sample_observation] by auto
  then show ?thesis by (intro exI [of _ ps]) (simp add: sample_rows numeral_eq_Suc del: walk.simps)
qed

end
