(* ===== verification/Mirror_Schedule.thy ===== *)
theory Mirror_Schedule
  imports Mirror_Advertise
begin

text \<open>
  The daily detector of a changed address: the personal day (\<open>mirror/schedule.rs\<close>), the state it keeps
  (\<open>mirror/reconcile_state.rs\<close>) and the part of the mirror loop of \<open>server.rs\<close> that drives both.

  Times and days are \<open>i64\<close>, read as integers: \<open>div_euclid\<close> by a positive number is \<open>div\<close>. The
  subtraction of the offset panics when it overflows, which is \<open>None\<close>. SHA-256 (\<open>chia-sha2\<close>) is a
  parameter, and so is what a fresh gather of readings establishes in a round.
\<close>

section \<open>The personal day\<close>

definition PERSONAL_DAY_SECS :: nat where "PERSONAL_DAY_SECS = 86400"

definition PERSONAL_DAY_TAG :: string where
  "PERSONAL_DAY_TAG = ''dig-node/mirror-url-reconcile/personal-day/v1''"

definition be_u64 :: "string \<Rightarrow> nat" where
  "be_u64 bytes = foldl (\<lambda>a c. a * 256 + of_char c) 0 bytes"

definition personal_day_offset_secs :: "(string \<Rightarrow> string) \<Rightarrow> string \<Rightarrow> nat" where
  "personal_day_offset_secs sha256 peer_id =
     be_u64 (take 8 (sha256 (PERSONAL_DAY_TAG @ peer_id))) mod PERSONAL_DAY_SECS"

text \<open>\<open>u64 as i64\<close> keeps the bits.\<close>

definition as_i64 :: "nat \<Rightarrow> int" where
  "as_i64 n = (if n < 2 ^ 63 then int n else int n - 2 ^ 64)"

definition personal_day_index :: "int \<Rightarrow> nat \<Rightarrow> int option" where
  "personal_day_index now_unix_secs offset_secs =
     (let d = now_unix_secs - as_i64 offset_secs
      in if - (2 ^ 63) \<le> d \<and> d < 2 ^ 63 then Some (d div int PERSONAL_DAY_SECS) else None)"

definition is_due :: "int \<Rightarrow> nat \<Rightarrow> int option \<Rightarrow> bool option" where
  "is_due now_unix_secs offset_secs last_completed_day =
     map_option (\<lambda>today. case last_completed_day of None \<Rightarrow> True | Some l \<Rightarrow> today > l)
       (personal_day_index now_unix_secs offset_secs)"

record observation =
  personal_day :: int
  obs_urls :: "string list"

definition same_url_set :: "string list \<Rightarrow> string list \<Rightarrow> bool" where
  "same_url_set a b \<longleftrightarrow> set a = set b"

definition is_stable :: "observation list \<Rightarrow> string list \<Rightarrow> bool" where
  "is_stable observations target =
     (case observations of
        [a, b] \<Rightarrow> personal_day a \<noteq> personal_day b
                  \<and> same_url_set (obs_urls a) target \<and> same_url_set (obs_urls b) target
      | _ \<Rightarrow> False)"

definition epoch_cap_allows :: "int option \<Rightarrow> int \<Rightarrow> bool" where
  "epoch_cap_allows last_auto_reconcile_epoch current_epoch \<longleftrightarrow>
     last_auto_reconcile_epoch \<noteq> Some current_epoch"

section \<open>The detector's state\<close>

record inconclusive_observation =
  io_personal_day :: int
  io_state :: string

datatype check_outcome = Conclusive "string list" | Inconclusive string

record reconcile_state =
  rs_version :: nat
  last_completed_day :: "int option"
  observations :: "observation list"
  last_inconclusive :: "inconclusive_observation option"
  last_auto_reconcile_epoch :: "int option"

definition reconcile_state_default :: reconcile_state where
  "reconcile_state_default = \<lparr>rs_version = 1, last_completed_day = None, observations = [],
     last_inconclusive = None, last_auto_reconcile_epoch = None\<rparr>"

text \<open>The file: absent or unreadable, malformed, or a state.\<close>

datatype state_file = StateUnreadable | StateMalformed | StateParsed reconcile_state

definition load_from :: "state_file \<Rightarrow> reconcile_state" where
  "load_from f =
     (case f of
        StateUnreadable \<Rightarrow> reconcile_state_default
      | StateMalformed \<Rightarrow> reconcile_state_default
      | StateParsed st \<Rightarrow> st)"

function keep_two :: "'a list \<Rightarrow> 'a list" where
  "keep_two xs = (if length xs > 2 then keep_two (tl xs) else xs)"
  by pat_completeness auto
termination
  by (relation "measure length") auto

declare keep_two.simps [simp del]

definition record_check :: "int \<Rightarrow> check_outcome \<Rightarrow> reconcile_state \<Rightarrow> reconcile_state" where
  "record_check day outcome st =
     (case outcome of
        Conclusive urls \<Rightarrow>
          st\<lparr>observations := keep_two (observations st @ [\<lparr>personal_day = day, obs_urls = urls\<rparr>]),
             last_inconclusive := None\<rparr>
      | Inconclusive state \<Rightarrow>
          st\<lparr>last_inconclusive := Some \<lparr>io_personal_day = day, io_state = state\<rparr>\<rparr>)
     \<lparr>last_completed_day := Some day\<rparr>"

definition mark_auto_reconciled :: "int \<Rightarrow> reconcile_state \<Rightarrow> reconcile_state" where
  "mark_auto_reconciled epoch st = st\<lparr>last_auto_reconcile_epoch := Some epoch\<rparr>"

section \<open>One round of the loop\<close>

text \<open>
  What a round of the mirror loop brings: the clock, the epoch in force, what a fresh gather would
  establish, what the node advertises in the round's pass, the configured switch, and how many of the
  pass's reclaims of a stale URL were accepted, should one be attempted.
\<close>

record daily_round =
  dr_now :: int
  dr_epoch :: int
  dr_fresh :: effective
  dr_advertised :: effective
  dr_url_reconcile_enabled :: bool
  dr_accepted :: nat

record daily_event =
  de_check :: "(int \<times> check_outcome) option"
  de_attempt :: bool
  de_target :: "string list"
  de_accepted :: "int option"

text \<open>The check a round makes, if it is due.\<close>

definition due_check :: "nat \<Rightarrow> daily_round \<Rightarrow> reconcile_state \<Rightarrow> (int \<times> check_outcome) option option" where
  "due_check offset_secs r st =
     (case is_due (dr_now r) offset_secs (last_completed_day st) of
        None \<Rightarrow> None
      | Some False \<Rightarrow> Some None
      | Some True \<Rightarrow>
          map_option (\<lambda>today. Some (today,
              if can_advertise (dr_fresh r) then Conclusive (eff_urls (dr_fresh r))
              else Inconclusive (state_label (eff_state (dr_fresh r)))))
            (personal_day_index (dr_now r) offset_secs))"

definition reconcile_attempt :: "daily_round \<Rightarrow> reconcile_state \<Rightarrow> bool" where
  "reconcile_attempt r st \<longleftrightarrow>
     dr_url_reconcile_enabled r
     \<and> is_stable (observations st) (eff_urls (dr_advertised r))
     \<and> epoch_cap_allows (last_auto_reconcile_epoch st) (dr_epoch r)"

text \<open>
  A pass that was asked for no reconcile reclaims no coin for a stale URL, so only an attempt can
  report an accepted one.
\<close>

definition daily_round_step :: "nat \<Rightarrow> daily_round \<Rightarrow> reconcile_state \<Rightarrow> (daily_event \<times> reconcile_state) option" where
  "daily_round_step offset_secs r st =
     (case due_check offset_secs r st of
        None \<Rightarrow> None
      | Some check \<Rightarrow>
          let st1 = (case check of None \<Rightarrow> st | Some (day, outcome) \<Rightarrow> record_check day outcome st);
              attempt = reconcile_attempt r st1;
              accepted = (if attempt then dr_accepted r else 0);
              st2 = (if accepted > 0 then mark_auto_reconciled (dr_epoch r) st1 else st1)
          in Some (\<lparr>de_check = check, de_attempt = attempt, de_target = eff_urls (dr_advertised r),
                    de_accepted = (if accepted > 0 then Some (dr_epoch r) else None)\<rparr>, st2))"

fun daily_run :: "nat \<Rightarrow> daily_round list \<Rightarrow> reconcile_state \<Rightarrow> (daily_event list \<times> reconcile_state) option" where
  "daily_run offset_secs [] st = Some ([], st)"
| "daily_run offset_secs (r # rs) st =
     (case daily_round_step offset_secs r st of
        None \<Rightarrow> None
      | Some (ev, st1) \<Rightarrow>
          (case daily_run offset_secs rs st1 of
             None \<Rightarrow> None
           | Some (evs, st2) \<Rightarrow> Some (ev # evs, st2)))"

section \<open>The invariant of the detector\<close>

definition checks :: "daily_event list \<Rightarrow> (int \<times> check_outcome) list" where
  "checks evs = List.map_filter de_check evs"

definition accepted_epochs :: "daily_event list \<Rightarrow> int list" where
  "accepted_epochs evs = List.map_filter de_accepted evs"

text \<open>Two checks on different days agreed with the target the event had.\<close>

definition two_days_agree :: "daily_event list \<Rightarrow> string list \<Rightarrow> bool" where
  "two_days_agree evs target \<longleftrightarrow>
     (\<exists>d1 d2 u1 u2. d1 \<noteq> d2 \<and> (d1, Conclusive u1) \<in> set (checks evs) \<and> (d2, Conclusive u2) \<in> set (checks evs)
        \<and> set u1 = set target \<and> set u2 = set target)"

definition opt_last :: "'a list \<Rightarrow> 'a option" where
  "opt_last xs = (if xs = [] then None else Some (List.last xs))"

text \<open>
  What the state says about the events since it was empty: the completed day is the last check's, the
  observations are conclusive checks, and the recorded epoch is the last accepted one, all in order.
\<close>

definition detector_inv :: "int \<Rightarrow> daily_event list \<Rightarrow> reconcile_state \<Rightarrow> bool" where
  "detector_inv ep evs st \<longleftrightarrow>
     last_completed_day st = opt_last (map fst (checks evs))
     \<and> sorted_wrt (<) (map fst (checks evs))
     \<and> (\<forall>ob \<in> set (observations st). (personal_day ob, Conclusive (obs_urls ob)) \<in> set (checks evs))
     \<and> last_auto_reconcile_epoch st = opt_last (accepted_epochs evs)
     \<and> sorted_wrt (<) (accepted_epochs evs)
     \<and> (\<forall>e \<in> set (accepted_epochs evs). e \<le> ep)"

lemma opt_last_snoc [simp]: "opt_last (xs @ [x]) = Some x"
  by (simp add: opt_last_def)

lemma opt_last_Nil [simp]: "opt_last [] = None"
  by (simp add: opt_last_def)

lemma opt_last_in: "opt_last xs = Some x \<Longrightarrow> x \<in> set xs"
  by (auto simp: opt_last_def split: if_splits)

lemma sorted_wrt_snoc_last:
  assumes "sorted_wrt (<) (xs :: 'a::linorder list)" "\<And>l. opt_last xs = Some l \<Longrightarrow> l < x"
  shows "sorted_wrt (<) (xs @ [x])"
proof (cases xs rule: rev_cases)
  case (snoc ys y)
  then have "y < x" "\<forall>z \<in> set ys. z < y" using assms by (auto simp: sorted_wrt_append)
  with assms(1) snoc show ?thesis by (auto simp: sorted_wrt_append intro: less_trans)
qed simp

lemma set_keep_two: "set (keep_two xs) \<subseteq> set xs"
proof (induction xs rule: keep_two.induct)
  case (1 xs)
  show ?case
  proof (cases "length xs > 2")
    case True
    have "set (tl xs) \<subseteq> set xs" by (cases xs) auto
    with 1 True show ?thesis by (subst keep_two.simps) auto
  next
    case False
    then show ?thesis by (subst keep_two.simps) auto
  qed
qed

lemma checks_append [simp]: "checks (xs @ ys) = checks xs @ checks ys"
  by (simp add: checks_def map_filter_def)

lemma accepted_append [simp]: "accepted_epochs (xs @ ys) = accepted_epochs xs @ accepted_epochs ys"
  by (simp add: accepted_epochs_def map_filter_def)

lemma due_check_new:
  assumes "due_check off r st = Some (Some (d, outcome))"
  shows "case last_completed_day st of None \<Rightarrow> True | Some l \<Rightarrow> l < d"
  using assms by (auto simp: due_check_def is_due_def split: option.splits bool.splits)

text \<open>The three ways a round writes the state.\<close>

lemma detector_inv_check:
  assumes inv: "detector_inv ep evs st" and new: "case last_completed_day st of None \<Rightarrow> True | Some l \<Rightarrow> l < d"
    and ev: "de_check ev = Some (d, outcome)" "de_accepted ev = None"
  shows "detector_inv ep (evs @ [ev]) (record_check d outcome st)"
proof -
  have cs: "checks [ev] = [(d, outcome)]" "accepted_epochs [ev] = []"
    using ev by (simp_all add: checks_def accepted_epochs_def map_filter_simps)
  have "sorted_wrt (<) (map fst (checks evs) @ [d])"
    using inv new by (intro sorted_wrt_snoc_last) (auto simp: detector_inv_def)
  moreover have "(personal_day ob, Conclusive (obs_urls ob)) \<in> set (checks (evs @ [ev]))"
    if "ob \<in> set (observations (record_check d outcome st))" for ob
  proof -
    from that have "ob \<in> set (observations st) \<or> outcome = Conclusive (obs_urls ob) \<and> personal_day ob = d"
      using set_keep_two by (fastforce simp: record_check_def split: check_outcome.splits)
    with inv cs show ?thesis by (auto simp: detector_inv_def)
  qed
  ultimately show ?thesis
    using inv cs by (auto simp: detector_inv_def record_check_def split: check_outcome.splits)
qed

lemma detector_inv_idle:
  assumes "detector_inv ep evs st" "de_check ev = None" "de_accepted ev = None"
  shows "detector_inv ep (evs @ [ev]) st"
proof -
  have "checks [ev] = []" "accepted_epochs [ev] = []"
    using assms(2,3) by (simp_all add: checks_def accepted_epochs_def map_filter_simps)
  with assms(1) show ?thesis by (simp add: detector_inv_def)
qed

lemma detector_inv_mark:
  assumes inv: "detector_inv ep (evs @ [ev\<lparr>de_accepted := None\<rparr>]) st"
    and "epoch_cap_allows (last_auto_reconcile_epoch st) ep" "de_accepted ev = Some ep"
  shows "detector_inv ep (evs @ [ev]) (mark_auto_reconciled ep st)"
proof -
  let ?ev = "ev\<lparr>de_accepted := None\<rparr>"
  have cs: "checks [ev] = checks [?ev]" "accepted_epochs [ev] = [ep]" "accepted_epochs [?ev] = []"
    using assms(3) by (simp_all add: checks_def accepted_epochs_def map_filter_simps split: option.splits)
  have "l < ep" if "opt_last (accepted_epochs evs) = Some l" for l
  proof -
    have "l \<le> ep" using that inv cs(3) by (auto simp: detector_inv_def dest!: opt_last_in)
    moreover have "l \<noteq> ep" using that inv assms(2) cs(3) by (auto simp: detector_inv_def epoch_cap_allows_def)
    ultimately show ?thesis by simp
  qed
  then have "sorted_wrt (<) (accepted_epochs evs @ [ep])"
    using inv cs(3) by (intro sorted_wrt_snoc_last) (auto simp: detector_inv_def)
  with inv cs show ?thesis by (simp add: detector_inv_def mark_auto_reconciled_def)
qed

lemma detector_inv_later: "detector_inv ep evs st \<Longrightarrow> ep \<le> ep' \<Longrightarrow> detector_inv ep' evs st"
  by (auto simp: detector_inv_def intro: order_trans)

lemma stable_two_days:
  assumes inv: "detector_inv ep evs st" and "is_stable (observations st) target"
  shows "two_days_agree evs target"
proof -
  from assms(2) obtain a b where ab: "observations st = [a, b]" "personal_day a \<noteq> personal_day b"
      "set (obs_urls a) = set target" "set (obs_urls b) = set target"
    by (auto simp: is_stable_def same_url_set_def split: list.splits)
  with inv have "(personal_day a, Conclusive (obs_urls a)) \<in> set (checks evs)"
      "(personal_day b, Conclusive (obs_urls b)) \<in> set (checks evs)"
    by (simp_all add: detector_inv_def)
  with ab show ?thesis unfolding two_days_agree_def by blast
qed

lemma two_days_agree_cong: "checks evs = checks evs' \<Longrightarrow> two_days_agree evs target = two_days_agree evs' target"
  by (simp add: two_days_agree_def)

lemma detector_inv_step:
  assumes inv: "detector_inv ep evs st" and ep: "ep \<le> dr_epoch r"
    and step: "daily_round_step off r st = Some (ev, st')"
  shows "detector_inv (dr_epoch r) (evs @ [ev]) st'"
    and "de_attempt ev \<Longrightarrow> two_days_agree (evs @ [ev]) (de_target ev)"
proof -
  from step obtain check where dc: "due_check off r st = Some check"
    by (auto simp: daily_round_step_def split: option.splits)
  define st1 where "st1 = (case check of None \<Rightarrow> st | Some (day, outcome) \<Rightarrow> record_check day outcome st)"
  define acc where "acc \<longleftrightarrow> reconcile_attempt r st1 \<and> dr_accepted r > 0"
  define ev0 where "ev0 = ev\<lparr>de_accepted := None\<rparr>"
  from step dc have ev: "de_check ev = check" "de_attempt ev = reconcile_attempt r st1"
      "de_target ev = eff_urls (dr_advertised r)"
      "de_accepted ev = (if acc then Some (dr_epoch r) else None)"
    and st': "st' = (if acc then mark_auto_reconciled (dr_epoch r) st1 else st1)"
    by (auto simp: daily_round_step_def st1_def acc_def Let_def)
  have i0: "detector_inv (dr_epoch r) (evs @ [ev0]) st1"
  proof (cases check)
    case None
    then show ?thesis
      using detector_inv_later [OF inv ep] by (simp add: st1_def ev0_def ev detector_inv_idle)
  next
    case (Some c)
    then obtain d outcome where c: "check = Some (d, outcome)" by (cases c) auto
    with detector_inv_check [OF detector_inv_later [OF inv ep] due_check_new] dc
    show ?thesis by (simp add: st1_def ev0_def ev)
  qed
  have ch: "checks (evs @ [ev0]) = checks (evs @ [ev])"
    by (simp add: checks_def map_filter_def ev0_def)
  show "detector_inv (dr_epoch r) (evs @ [ev]) st'"
  proof (cases acc)
    case True
    with i0 show ?thesis
      by (auto simp: st' ev ev0_def acc_def reconcile_attempt_def intro: detector_inv_mark)
  next
    case False
    then have "ev0 = ev" by (simp add: ev0_def ev)
    with False i0 show ?thesis by (simp add: st')
  qed
  assume "de_attempt ev"
  with i0 have "two_days_agree (evs @ [ev0]) (de_target ev)"
    by (auto simp: ev reconcile_attempt_def intro: stable_two_days)
  then show "two_days_agree (evs @ [ev]) (de_target ev)" using two_days_agree_cong [OF ch] by blast
qed

lemma daily_run_inv:
  assumes "detector_inv ep hist st" "sorted (ep # map dr_epoch rs)" "daily_run off rs st = Some (evs, st')"
  shows "(\<exists>ep'. detector_inv ep' (hist @ evs) st')
    \<and> (\<forall>pre ev post. evs = pre @ ev # post \<longrightarrow> de_attempt ev \<longrightarrow> two_days_agree (hist @ pre @ [ev]) (de_target ev))"
  using assms
proof (induction rs arbitrary: ep hist st evs)
  case Nil
  then show ?case by auto
next
  case (Cons r rs)
  from Cons.prems(3) obtain ev1 st1 evs1 where
    step: "daily_round_step off r st = Some (ev1, st1)"
    and run: "daily_run off rs st1 = Some (evs1, st')" and evs: "evs = ev1 # evs1"
    by (auto split: option.splits)
  have le: "ep \<le> dr_epoch r" and so: "sorted (dr_epoch r # map dr_epoch rs)" using Cons.prems(2) by auto
  note one = detector_inv_step [OF Cons.prems(1) le step]
  note IH = Cons.IH [OF one(1) so run]
  have "two_days_agree (hist @ pre @ [ev]) (de_target ev)"
    if "evs = pre @ ev # post" "de_attempt ev" for pre ev post
  proof (cases pre)
    case Nil
    with that evs one(2) show ?thesis by simp
  next
    case (Cons p pre')
    with that evs IH show ?thesis by auto
  qed
  with IH evs show ?case by auto
qed

section \<open>Properties\<close>

text \<open>
  the automatic reconcile is throttled. From a state that has observed nothing - which is also what
  a lost or damaged state file reads as - and as long as the epoch does not go back: the node checks its
  address at most once per personal day, and never on a day before one already checked, however the
  clock jumps; a reconcile is attempted only after checks of two different days found the very URLs the
  node would publish; and no epoch sees two accepted automatic reconciles.
\<close>
theorem auto_reconcile_throttled:
  assumes "daily_run off rs (load_from f) = Some (evs, st)" "f \<in> {StateUnreadable, StateMalformed}"
    "sorted (map dr_epoch rs)"
  shows "sorted_wrt (<) (map fst (checks evs))
    \<and> distinct (accepted_epochs evs)
    \<and> (\<forall>pre ev post. evs = pre @ ev # post \<longrightarrow> de_attempt ev \<longrightarrow> two_days_agree (pre @ [ev]) (de_target ev))"
proof (cases rs)
  case Nil
  with assms(1) show ?thesis by (simp add: checks_def accepted_epochs_def map_filter_simps)
next
  case (Cons r rs')
  have "detector_inv (dr_epoch r) [] reconcile_state_default"
    by (simp add: detector_inv_def reconcile_state_default_def checks_def accepted_epochs_def map_filter_simps)
  moreover have "sorted (dr_epoch r # map dr_epoch rs)" using assms(3) Cons by simp
  moreover have "daily_run off rs reconcile_state_default = Some (evs, st)"
    using assms(1,2) by (auto simp: load_from_def)
  ultimately have "(\<exists>ep'. detector_inv ep' evs st)
    \<and> (\<forall>pre ev post. evs = pre @ ev # post \<longrightarrow> de_attempt ev \<longrightarrow> two_days_agree (pre @ [ev]) (de_target ev))"
    using daily_run_inv [of "dr_epoch r" "[]" reconcile_state_default rs off evs st] by simp
  then show ?thesis by (auto simp: detector_inv_def strict_sorted_iff)
qed

definition sample_round :: "int \<Rightarrow> daily_round" where
  "sample_round now = \<lparr>dr_now = now, dr_epoch = 3,
     dr_fresh = \<lparr>eff_urls = [''u''], eff_state = Derived, eff_rejected = []\<rparr>,
     dr_advertised = \<lparr>eff_urls = [''u''], eff_state = Derived, eff_rejected = []\<rparr>,
     dr_url_reconcile_enabled = True, dr_accepted = 1\<rparr>"

theorem auto_reconcile_throttled_witness:
  "\<exists>evs st. daily_run 100 [sample_round 1000, sample_round 2000, sample_round 90000, sample_round 180000]
       (load_from StateMalformed) = Some (evs, st)
     \<and> map fst (checks evs) = [0, 1, 2] \<and> accepted_epochs evs = [3] \<and> distinct (accepted_epochs evs)"
proof -
  let ?rs = "[sample_round 1000, sample_round 2000, sample_round 90000, sample_round 180000]"
  obtain evs st where run: "daily_run 100 ?rs (load_from StateMalformed) = Some (evs, st)"
    and "map fst (checks evs) = [0, 1, 2]" "accepted_epochs evs = [3]"
    by (simp add: sample_round_def load_from_def reconcile_state_default_def daily_round_step_def due_check_def
        is_due_def personal_day_index_def as_i64_def PERSONAL_DAY_SECS_def can_advertise_def record_check_def
        reconcile_attempt_def is_stable_def same_url_set_def epoch_cap_allows_def mark_auto_reconciled_def
        keep_two.simps checks_def accepted_epochs_def map_filter_simps Let_def)
  with auto_reconcile_throttled [OF run] show ?thesis by (auto simp: sample_round_def)
qed

end
