(* ===== verification/Credentials.thy ===== *)
theory Credentials
  imports Wire "HOL-Library.Word"
begin

unbundle bit_operations_syntax

text \<open>
  The credentials of the service's control surface (\<open>control.rs\<close>): the constant-time comparison
  of tokens, the token a request presents, the classes of \<open>control.*\<close> methods, the master tier and
  the gate itself; and the envelopes of its answers (\<open>meta.rs\<close>, \<open>rpc.rs\<close>).

  \<^item> \<open>ct_eq\<close> works on bytes: its accumulator is an 8-bit word, and the lengths are folded into it by
    \<open>as u8\<close>, which keeps their low eight bits.
  \<^item> The tier of a published control method is decided by \<open>dig-node-control-interface\<close>. Its
    answer is the argument \<open>published\<close>: \<open>None\<close> when the contract does not know the name, \<open>Some b\<close>
    when it does and \<open>b\<close> says whether the master token is required.
  \<^item> The codes and the names the shared catalogues assign are arguments as well.
\<close>

section \<open>Error codes and envelopes\<close>

datatype error_code =
  ParseError | InvalidRequest | MethodNotFound | InvalidParams | DispatchFailed | ResourceUnavailable
| EngineWarming | UpstreamError | Unauthorized | NotSupported | ControlError | WalletNoChainSource
| WalletNotSynced | WalletReadFailed | SpendAuditUnreadable | WalletRateLimited | WalletNodeSpendDisabled
| WalletCoinsReserved | WalletReservationsUnavailable | PeerPingRefused | PushPendingLimited
| ControlIngressLimited | RewardIngressLimited

text \<open>What the crates \<open>dig-rpc-protocol\<close> and \<open>dig-node-control-interface\<close> assign to their codes.\<close>

record catalogue =
  cat_code :: "error_code \<Rightarrow> int"
  cat_name :: "error_code \<Rightarrow> string"

fun ec_code :: "catalogue \<Rightarrow> error_code \<Rightarrow> int" where
  "ec_code K EngineWarming = -32002"
| "ec_code K WalletNoChainSource = -32040"
| "ec_code K WalletNotSynced = -32041"
| "ec_code K WalletReadFailed = -32042"
| "ec_code K WalletRateLimited = -32043"
| "ec_code K WalletNodeSpendDisabled = -32044"
| "ec_code K PeerPingRefused = -32060"
| "ec_code K PushPendingLimited = -32016"
| "ec_code K ControlIngressLimited = -32033"
| "ec_code K RewardIngressLimited = -32034"
| "ec_code K c = cat_code K c"

fun ec_name :: "catalogue \<Rightarrow> error_code \<Rightarrow> string" where
  "ec_name K EngineWarming = ''ENGINE_WARMING''"
| "ec_name K WalletNoChainSource = ''WALLET_NO_CHAIN_SOURCE''"
| "ec_name K WalletNotSynced = ''WALLET_NOT_SYNCED''"
| "ec_name K WalletReadFailed = ''WALLET_READ_FAILED''"
| "ec_name K WalletRateLimited = ''WALLET_RATE_LIMITED''"
| "ec_name K WalletCoinsReserved = ''WALLET_COINS_RESERVED''"
| "ec_name K WalletReservationsUnavailable = ''WALLET_RESERVATIONS_UNAVAILABLE''"
| "ec_name K WalletNodeSpendDisabled = ''WALLET_NODE_SPEND_DISABLED''"
| "ec_name K SpendAuditUnreadable = ''SPEND_AUDIT_UNREADABLE''"
| "ec_name K PeerPingRefused = ''PEER_PING_REFUSED''"
| "ec_name K PushPendingLimited = ''PUSH_PENDING_LIMITED''"
| "ec_name K ControlIngressLimited = ''CONTROL_INGRESS_LIMITED''"
| "ec_name K RewardIngressLimited = ''REWARD_INGRESS_LIMITED''"
| "ec_name K c = cat_name K c"

definition ec_origin :: "error_code \<Rightarrow> string" where
  "ec_origin c =
     (if c \<in> {InvalidRequest, DispatchFailed, UpstreamError, Unauthorized, NotSupported, ControlError,
              ControlIngressLimited, RewardIngressLimited, SpendAuditUnreadable, EngineWarming,
              ParseError}
      then ''shell''
      else if c = MethodNotFound then ''boundary''
      else ''node'')"

definition json_int :: "int \<Rightarrow> json" where
  "json_int i = JNumber (if i < 0 then NegInt i else PosInt (nat i))"

definition rpc_error :: "catalogue \<Rightarrow> json \<Rightarrow> error_code \<Rightarrow> string \<Rightarrow> json" where
  "rpc_error K ident c message =
     JObject
       [(''jsonrpc'', JString ''2.0''),
        (''id'', ident),
        (''error'', JObject
           [(''code'', json_int (ec_code K c)),
            (''message'', JString message),
            (''data'', JObject [(''code'', JString (ec_name K c)), (''origin'', JString (ec_origin c))])])]"

definition control_error :: "catalogue \<Rightarrow> json \<Rightarrow> error_code \<Rightarrow> string \<Rightarrow> json" where
  "control_error K ident c message =
     JObject
       [(''jsonrpc'', JString ''2.0''),
        (''id'', ident),
        (''error'', JObject
           [(''code'', json_int (ec_code K c)),
            (''message'', JString message),
            (''data'', JObject [(''code'', JString (ec_name K c)), (''origin'', JString (ec_origin c))])])]"

definition control_ok :: "json \<Rightarrow> json \<Rightarrow> json" where
  "control_ok ident result = JObject [(''jsonrpc'', JString ''2.0''), (''id'', ident), (''result'', result)]"

definition request_id :: "json \<Rightarrow> json" where
  "request_id req = unwrap_or JNull (json_get ''id'' req)"

section \<open>Random material\<close>

text \<open>
  The bytes a call draws from the operating system are an argument: \<open>None\<close> when the source is
  unavailable.
\<close>

definition hex_digit :: "nat \<Rightarrow> char" where
  "hex_digit n = char_of (if n < 10 then 48 + n else 87 + n)"

definition hex_byte :: "char \<Rightarrow> string" where
  "hex_byte b = (let n = of_char b :: nat in [hex_digit (n div 16), hex_digit (n mod 16)])"

definition random_hex :: "string option \<Rightarrow> string option" where
  "random_hex drawn = map_option (\<lambda>buf. concat (map hex_byte buf)) drawn"

definition u32_from_le_bytes :: "string \<Rightarrow> nat" where
  "u32_from_le_bytes buf = foldr (\<lambda>b acc. of_char b + 256 * acc) buf 0"

definition six_digits :: "nat \<Rightarrow> string" where
  "six_digits n =
     map (\<lambda>p. char_of (48 + n div p mod 10 :: nat)) [100000, 10000, 1000, 100, 10, 1]"

definition random_pairing_code :: "string option \<Rightarrow> string option" where
  "random_pairing_code drawn =
     map_option (\<lambda>buf. six_digits (u32_from_le_bytes buf mod 1000000)) drawn"

section \<open>Comparing tokens\<close>

definition byte_at :: "string \<Rightarrow> nat \<Rightarrow> 8 word" where
  "byte_at s i = (if i < length s then of_char (s ! i) else 0)"

definition ct_eq :: "string \<Rightarrow> string \<Rightarrow> bool" where
  "ct_eq a b =
     (let start = word_of_nat (length a XOR length b) :: 8 word;
          n = max (length a) (length b);
          diff = fold (\<lambda>i d. d OR (byte_at a i XOR byte_at b i)) [0..<n] start
      in diff = 0)"

section \<open>What a request presents\<close>

definition CONTROL_TOKEN_PARAM :: string where
  "CONTROL_TOKEN_PARAM = ''_control_token''"

definition non_blank :: "string \<Rightarrow> string option" where
  "non_blank s = (let t = str_trim s in if t = [] then None else Some t)"

definition presented_token :: "string option \<Rightarrow> json \<Rightarrow> string option" where
  "presented_token header req =
     (case Option.bind header non_blank of
        Some t \<Rightarrow> Some t
      | None \<Rightarrow>
          Option.bind (json_get ''params'' req) (\<lambda>p.
          Option.bind (json_get CONTROL_TOKEN_PARAM p) (\<lambda>v.
          Option.bind (as_str v) non_blank)))"

section \<open>The classes of control methods\<close>

definition is_control_method :: "string \<Rightarrow> bool" where
  "is_control_method m = prefix ''control.'' m"

definition is_open_control_read :: "string \<Rightarrow> bool" where
  "is_open_control_read m \<longleftrightarrow>
     m \<in> set [''control.wallet.balance'', ''control.wallet.coins'', ''control.wallet.coinById'',
              ''control.wallet.coinSpend'', ''control.wallet.coinsByParent'', ''control.wallet.peak'',
              ''control.wallet.syncStatus'', ''control.peerCounts'']"

definition KNOWN_UNPUBLISHED_CONTROL_METHODS :: "string list" where
  "KNOWN_UNPUBLISHED_CONTROL_METHODS = [''control.peers.ping'']"

definition LOCALLY_MASTER_TIER_CONTROL_METHODS :: "string list" where
  "LOCALLY_MASTER_TIER_CONTROL_METHODS = [''control.config.setUpstream'']"

type_synonym contract = "string \<Rightarrow> bool option"

definition requires_master_token_given :: "contract \<Rightarrow> string \<Rightarrow> string list \<Rightarrow> bool" where
  "requires_master_token_given published m exempt =
     (if m \<in> set LOCALLY_MASTER_TIER_CONTROL_METHODS then True
      else case published m of
             Some b \<Rightarrow> b
           | None \<Rightarrow> m \<notin> set exempt)"

definition requires_master_token :: "contract \<Rightarrow> string \<Rightarrow> bool" where
  "requires_master_token published m =
     requires_master_token_given published m KNOWN_UNPUBLISHED_CONTROL_METHODS"

definition is_authorized :: "string \<Rightarrow> string option \<Rightarrow> string \<Rightarrow> bool" where
  "is_authorized m presented expected =
     (if \<not> is_control_method m then True
      else if expected = [] then False
      else case presented of
             Some tok \<Rightarrow> ct_eq tok expected
           | None \<Rightarrow> False)"

section \<open>The comparison, characterised\<close>

definition nul :: char where
  "nul = CHR 0x00"

definition char_at :: "string \<Rightarrow> nat \<Rightarrow> char" where
  "char_at s i = (if i < length s then s ! i else nul)"

lemma fold_or_eq_0:
  "fold (\<lambda>i d. d OR f i) xs d = (0 :: 'a::len word) \<longleftrightarrow> d = 0 \<and> (\<forall>i \<in> set xs. f i = 0)"
  by (induction xs arbitrary: d) (auto simp: or_eq_0_iff)

lemma xor_nat_0: "m XOR n = (0 :: nat) \<longleftrightarrow> m = n"
  by (auto simp: bit_eq_iff bit_xor_iff)

lemma xor_byte_0: "x XOR y = (0 :: 8 word) \<longleftrightarrow> x = y"
  by (auto simp: bit_eq_iff bit_xor_iff)

lemma length_xor_zero: "(word_of_nat (m XOR n) :: 8 word) = 0 \<longleftrightarrow> m mod 256 = n mod 256"
proof -
  have "(word_of_nat (m XOR n) :: 8 word) = 0 \<longleftrightarrow> take_bit 8 (m XOR n) = 0"
    by (simp add: word_of_nat_eq_0_iff take_bit_eq_0_iff del: take_bit_xor)
  also have "\<dots> \<longleftrightarrow> take_bit 8 m = take_bit 8 n"
    unfolding take_bit_xor xor_nat_0 ..
  finally show ?thesis by (simp add: take_bit_eq_mod)
qed

lemma char_word_inj: "(of_char c :: 8 word) = of_char d \<longleftrightarrow> c = d"
proof
  assume "(of_char c :: 8 word) = of_char d"
  then have "(word_of_nat (of_char c) :: 8 word) = word_of_nat (of_char d)"
    by (simp only: of_nat_of_char)
  then show "c = d"
    by (simp add: word_of_nat_eq_iff take_bit_eq_mod)
qed simp

lemma byte_at_char: "byte_at s i = of_char (char_at s i)"
  by (simp add: byte_at_def char_at_def nul_def of_char_def)

lemma ct_eq_pointwise:
  "ct_eq a b \<longleftrightarrow> length a mod 256 = length b mod 256
     \<and> (\<forall>i < max (length a) (length b). char_at a i = char_at b i)"
  by (auto simp: ct_eq_def Let_def fold_or_eq_0 length_xor_zero xor_byte_0 byte_at_char char_word_inj)

lemma ct_eq_sym: "ct_eq a b = ct_eq b a"
  by (auto simp: ct_eq_pointwise max.commute)

lemma ct_eq_refl [simp]: "ct_eq a a"
  by (simp add: ct_eq_pointwise)

lemma char_at_longer:
  assumes "length b \<le> length a" "\<forall>i < length a. char_at a i = char_at b i"
  shows "a = b @ replicate (length a - length b) nul"
proof (rule nth_equalityI)
  fix i assume "i < length a"
  with assms(2) have "char_at a i = char_at b i" by simp
  with \<open>i < length a\<close> show "a ! i = (b @ replicate (length a - length b) nul) ! i"
    by (auto simp: char_at_def nth_append split: if_splits)
qed (use assms(1) in simp)

lemma char_at_padded: "char_at (b @ replicate n nul) i = char_at b i"
  by (simp add: char_at_def nth_append)

lemma ct_eq_padded: "ct_eq (b @ replicate (256 * k) nul) b"
  by (simp add: ct_eq_pointwise char_at_padded)

lemma ct_eq_longer:
  assumes "ct_eq a b" "length b \<le> length a"
  obtains k where "a = b @ replicate (256 * k) nul"
proof -
  have "a = b @ replicate (length a - length b) nul"
    using assms by (intro char_at_longer) (simp_all add: ct_eq_pointwise)
  moreover have "256 dvd length a - length b"
    using assms by (metis ct_eq_pointwise mod_eq_dvd_iff_nat)
  ultimately show ?thesis using that by (metis dvd_def)
qed

lemma ct_eq_short:
  assumes "length a < 256" "length b < 256"
  shows "ct_eq a b \<longleftrightarrow> a = b"
proof
  assume eq: "ct_eq a b"
  with assms have len: "length a = length b" by (simp add: ct_eq_pointwise)
  with eq show "a = b" by (auto simp: ct_eq_pointwise char_at_def intro!: nth_equalityI)
qed simp

text \<open>
  The comparison every token check of the service rests on accepts exactly the strings that are
  equal up to a tail of NUL bytes whose length is a multiple of 256: the lengths are compared in
  their low eight bits only, and a missing byte reads as zero. For strings shorter than 256 bytes it
  is equality.
\<close>

theorem ct_eq_exactly:
  "ct_eq a b \<longleftrightarrow>
     (\<exists>k. a = b @ replicate (256 * k) nul \<or> b = a @ replicate (256 * k) nul)"
proof
  assume eq: "ct_eq a b"
  show "\<exists>k. a = b @ replicate (256 * k) nul \<or> b = a @ replicate (256 * k) nul"
  proof (cases "length b \<le> length a")
    case True
    with eq show ?thesis by (blast elim: ct_eq_longer)
  next
    case False
    with eq have "ct_eq b a" "length a \<le> length b" by (simp_all add: ct_eq_sym)
    then show ?thesis by (blast elim: ct_eq_longer)
  qed
next
  assume "\<exists>k. a = b @ replicate (256 * k) nul \<or> b = a @ replicate (256 * k) nul"
  then show "ct_eq a b" using ct_eq_padded ct_eq_sym by metis
qed

end
