(* ===== verification/Pairing.thy ===== *)
theory Pairing
  imports Credentials
begin

text \<open>
  The pairing handshake (\<open>pairing.rs\<close>): how a client that cannot read the control-token file gets a
  scoped token of its own, after the operator approved its request with the master token.

  The state is the in-memory table of pending pairings and the file of issued tokens. Each handler
  is one definition from the state, the request and what the environment supplied (the clock, the
  bytes of the random source, whether the file could be written) to the state and the answer.
  \<open>request\<close> adds a lifetime to the clock: \<open>None\<close> is the panic on overflow, which happens before the
  table is locked. The file is \<open>None\<close> when it is missing, unreadable or not JSON.
\<close>

section \<open>Data\<close>

definition PAIRING_TTL_MS :: nat where
  "PAIRING_TTL_MS = 5 * 60 * 1000"

definition MAX_PENDING :: nat where
  "MAX_PENDING = 32"

definition MAX_CLIENT_NAME :: nat where
  "MAX_CLIENT_NAME = 64"

record pending =
  pe_code :: string
  pe_client_name :: string
  pe_created_ms :: nat
  pe_expires_ms :: nat
  pe_approved_token :: "string option"

type_synonym pending_pairings = "(string \<times> pending) list"

record paired_token =
  pt_id :: string
  pt_token :: string
  pt_client_name :: string
  pt_created_ms :: nat

type_synonym token_file = "json option"

datatype write_result = Written | WriteFailed string

section \<open>The file of issued tokens\<close>

definition paired_token_json :: "paired_token \<Rightarrow> json" where
  "paired_token_json t =
     JObject
       [(''id'', JString (pt_id t)), (''token'', JString (pt_token t)),
        (''client_name'', JString (pt_client_name t)), (''created_ms'', JNumber (PosInt (pt_created_ms t)))]"

text \<open>
  The derived \<open>Deserialize\<close> of a struct reads an object with the four fields, or an array of
  exactly the four values.
\<close>

definition paired_token_of_fields ::
  "json option \<Rightarrow> json option \<Rightarrow> json option \<Rightarrow> json option \<Rightarrow> paired_token option"
where
  "paired_token_of_fields i t c n =
     Option.bind (Option.bind i as_str) (\<lambda>i.
     Option.bind (Option.bind t as_str) (\<lambda>t.
     Option.bind (Option.bind c as_str) (\<lambda>c.
     Option.bind (Option.bind n as_u64) (\<lambda>n.
       Some \<lparr>pt_id = i, pt_token = t, pt_client_name = c, pt_created_ms = n\<rparr>))))"

fun paired_token_from_value :: "json \<Rightarrow> paired_token option" where
  "paired_token_from_value (JObject fs) =
     paired_token_of_fields (map_of fs ''id'') (map_of fs ''token'') (map_of fs ''client_name'')
       (map_of fs ''created_ms'')"
| "paired_token_from_value (JArray [i, t, c, n]) = paired_token_of_fields (Some i) (Some t) (Some c) (Some n)"
| "paired_token_from_value _ = None"

definition load_paired_tokens :: "token_file \<Rightarrow> paired_token list" where
  "load_paired_tokens file =
     (case file of
        None \<Rightarrow> []
      | Some v \<Rightarrow>
          (case Option.bind (json_get ''tokens'' v) as_array of
             None \<Rightarrow> []
           | Some arr \<Rightarrow> List.map_filter paired_token_from_value arr))"

definition saved_file :: "paired_token list \<Rightarrow> token_file" where
  "saved_file tokens = Some (JObject [(''tokens'', JArray (map paired_token_json tokens))])"

definition save_paired_tokens ::
  "write_result \<Rightarrow> paired_token list \<Rightarrow> token_file \<Rightarrow> token_file \<times> write_result"
where
  "save_paired_tokens w tokens file =
     (case w of
        Written \<Rightarrow> (saved_file tokens, Written)
      | WriteFailed e \<Rightarrow> (file, WriteFailed e))"

definition append_paired_token ::
  "write_result \<Rightarrow> paired_token \<Rightarrow> token_file \<Rightarrow> token_file \<times> write_result"
where
  "append_paired_token w record file =
     save_paired_tokens w (load_paired_tokens file @ [record]) file"

text \<open>The second component is \<open>Inl e\<close> for an error and \<open>Inr removed\<close> otherwise.\<close>

definition revoke_paired_token ::
  "write_result \<Rightarrow> string \<Rightarrow> token_file \<Rightarrow> token_file \<times> (string + bool)"
where
  "revoke_paired_token w token_id file =
     (let before = load_paired_tokens file;
          kept = filter (\<lambda>t. pt_id t \<noteq> token_id) before;
          removed = (length kept \<noteq> length before)
      in if removed
         then case save_paired_tokens w kept file of
                (file', Written) \<Rightarrow> (file', Inr True)
              | (file', WriteFailed e) \<Rightarrow> (file', Inl e)
         else (file, Inr False))"

definition is_paired_token :: "token_file \<Rightarrow> string \<Rightarrow> bool" where
  "is_paired_token file presented =
     fold (\<lambda>t acc. ct_eq presented (pt_token t) \<or> acc) (load_paired_tokens file) False"

section \<open>The table of pending pairings\<close>

definition prune :: "nat \<Rightarrow> pending_pairings \<Rightarrow> pending_pairings" where
  "prune now m = filter (\<lambda>(_, p). pe_approved_token p \<noteq> None \<or> now \<le> pe_expires_ms p) m"

definition unapproved :: "pending_pairings \<Rightarrow> pending_pairings" where
  "unapproved m = filter (\<lambda>(_, p). pe_approved_token p = None) m"

definition make_room :: "pending_pairings \<Rightarrow> pending_pairings" where
  "make_room m =
     (if MAX_PENDING \<le> length m
      then case min_by_key (\<lambda>(_, p). pe_created_ms p) (unapproved m) of
             Some (oldest, _) \<Rightarrow> AList.delete oldest m
           | None \<Rightarrow> m
      else m)"

definition chars_count :: "string \<Rightarrow> nat" where
  "chars_count s = length (filter (\<lambda>c. \<not> (128 \<le> (of_char c :: nat) \<and> of_char c < (192::nat))) s)"

definition client_name_of :: "json \<Rightarrow> string" where
  "client_name_of params =
     (case Option.bind (get_as as_str ''client_name'' params) non_blank of
        Some s \<Rightarrow> s
      | None \<Rightarrow> ''unknown controller'')"

definition str_param :: "string \<Rightarrow> json \<Rightarrow> string" where
  "str_param key params = unwrap_or [] (get_as as_str key params)"

definition NAME_TOO_LONG :: string where
  "NAME_TOO_LONG =
     ''client_name must be at most 64 characters; this request is refused rather than shortened, because a name the node shortened is a name the node partly wrote''"

section \<open>The open methods\<close>

definition pairing_request ::
  "catalogue \<Rightarrow> nat \<Rightarrow> string option \<Rightarrow> string option \<Rightarrow> json \<Rightarrow> json \<Rightarrow> pending_pairings
   \<Rightarrow> (pending_pairings \<times> json) option"
where
  "pairing_request K now drawn_id drawn_code ident params m =
     (let client_name = client_name_of params in
      if MAX_CLIENT_NAME < chars_count client_name
      then Some (m, control_error K ident InvalidParams NAME_TOO_LONG)
      else
        case (random_hex drawn_id, random_pairing_code drawn_code) of
          (Some pairing_id, Some code) \<Rightarrow>
            (let created = now; expires = created + PAIRING_TTL_MS in
             if u64_max < expires then None
             else
               let g = make_room (prune created m) in
               Some (AList.update pairing_id
                       \<lparr>pe_code = code, pe_client_name = client_name, pe_created_ms = created,
                        pe_expires_ms = expires, pe_approved_token = None\<rparr> g,
                     control_ok ident (JObject
                       [(''pairing_id'', JString pairing_id), (''pairing_code'', JString code),
                        (''expires_ms'', JNumber (PosInt expires))])))
        | _ \<Rightarrow> Some (m, control_error K ident ControlError
                        ''the OS CSPRNG is unavailable; refusing to start pairing''))"

definition pairing_poll ::
  "nat \<Rightarrow> json \<Rightarrow> json \<Rightarrow> pending_pairings \<Rightarrow> pending_pairings \<times> json"
where
  "pairing_poll now ident params m =
     (let pairing_id = str_param ''pairing_id'' params;
          (g, result) =
            (case map_of m pairing_id of
               None \<Rightarrow> (m, JObject [(''status'', JString ''unknown'')])
             | Some p \<Rightarrow>
                 (case pe_approved_token p of
                    Some token \<Rightarrow>
                      (AList.delete pairing_id m,
                       JObject [(''status'', JString ''approved''), (''token'', JString token)])
                  | None \<Rightarrow>
                      if pe_expires_ms p < now
                      then (AList.delete pairing_id m, JObject [(''status'', JString ''expired'')])
                      else (m, JObject [(''status'', JString ''pending'')])))
      in (prune now g, control_ok ident result))"

section \<open>The administration methods\<close>

definition pending_row :: "string \<times> pending \<Rightarrow> json" where
  "pending_row = (\<lambda>(pid, p). JObject
     [(''pairing_id'', JString pid), (''pairing_code'', JString (pe_code p)),
      (''client_name'', JString (pe_client_name p)),
      (''created_ms'', JNumber (PosInt (pe_created_ms p))),
      (''expires_ms'', JNumber (PosInt (pe_expires_ms p)))])"

definition token_row :: "paired_token \<Rightarrow> json" where
  "token_row t = JObject
     [(''id'', JString (pt_id t)), (''client_name'', JString (pt_client_name t)),
      (''created_ms'', JNumber (PosInt (pt_created_ms t)))]"

definition pairing_list ::
  "nat \<Rightarrow> json \<Rightarrow> token_file \<Rightarrow> pending_pairings \<Rightarrow> pending_pairings \<times> json"
where
  "pairing_list now ident file m =
     (let g = prune now m;
          rows = map pending_row (sort_key (\<lambda>(_, p). pe_created_ms p) (unapproved g));
          tokens = map token_row (load_paired_tokens file)
      in (g, control_ok ident (JObject [(''pending'', JArray rows), (''tokens'', JArray tokens)])))"

definition pairing_approve ::
  "catalogue \<Rightarrow> nat \<Rightarrow> string option \<Rightarrow> string option \<Rightarrow> write_result \<Rightarrow> json \<Rightarrow> json
   \<Rightarrow> token_file \<Rightarrow> pending_pairings \<Rightarrow> token_file \<times> pending_pairings \<times> json"
where
  "pairing_approve K now drawn_token drawn_id w ident params file m =
     (let pairing_id = str_param ''pairing_id'' params;
          g = prune now m
      in case map_of g pairing_id of
           None \<Rightarrow> (file, g, control_error K ident InvalidParams
             ''no such pending pairing (it expired, was already approved, or the id is wrong)'')
         | Some p \<Rightarrow>
             if pe_approved_token p \<noteq> None
             then (file, g, control_error K ident InvalidParams ''pairing already approved'')
             else
               (case (random_hex drawn_token, random_hex drawn_id) of
                  (Some token, Some record_id) \<Rightarrow>
                    (let record = \<lparr>pt_id = record_id, pt_token = token,
                                   pt_client_name = pe_client_name p, pt_created_ms = now\<rparr>
                     in case append_paired_token w record file of
                          (file', WriteFailed e) \<Rightarrow>
                            (file', g, control_error K ident ControlError
                               (''failed to persist the paired token: '' @ e))
                        | (file', Written) \<Rightarrow>
                            (file',
                             AList.update pairing_id (p\<lparr>pe_approved_token := Some token\<rparr>) g,
                             control_ok ident (JObject
                               [(''approved'', JBool True), (''client_name'', JString (pe_client_name p)),
                                (''token_id'', JString record_id)])))
                | _ \<Rightarrow> (file, g, control_error K ident ControlError
                         ''the OS CSPRNG is unavailable; refusing to mint a paired token'')))"

definition pairing_revoke ::
  "catalogue \<Rightarrow> write_result \<Rightarrow> json \<Rightarrow> json \<Rightarrow> token_file \<Rightarrow> token_file \<times> json"
where
  "pairing_revoke K w ident params file =
     (let field = (case json_get ''token_id'' params of
                     Some v \<Rightarrow> Some v
                   | None \<Rightarrow> json_get ''id'' params);
          token_id = unwrap_or [] (Option.bind field as_str)
      in if token_id = []
         then (file, control_error K ident InvalidParams
                 ''control.pairing.revoke requires params.token_id'')
         else case revoke_paired_token w token_id file of
                (file', Inr removed) \<Rightarrow>
                  (file', control_ok ident (JObject
                     [(''revoked'', JBool removed), (''token_id'', JString token_id)]))
              | (file', Inl e) \<Rightarrow>
                  (file', control_error K ident ControlError (''failed to revoke: '' @ e)))"

section \<open>The handlers as steps\<close>

record pairing_state =
  ps_pending :: pending_pairings
  ps_file :: token_file

datatype pairing_call =
  CallRequest nat "string option" "string option" json
| CallPoll nat json
| CallList nat
| CallApprove nat "string option" "string option" write_result json
| CallRevoke write_result json

text \<open>The answer is \<open>None\<close> when the handler panicked; the table was then not touched.\<close>

definition pairing_step ::
  "catalogue \<Rightarrow> json \<Rightarrow> pairing_call \<Rightarrow> pairing_state \<Rightarrow> pairing_state \<times> json option"
where
  "pairing_step K ident call st =
     (case call of
        CallRequest now d1 d2 params \<Rightarrow>
          (case pairing_request K now d1 d2 ident params (ps_pending st) of
             None \<Rightarrow> (st, None)
           | Some (g, r) \<Rightarrow> (st\<lparr>ps_pending := g\<rparr>, Some r))
      | CallPoll now params \<Rightarrow>
          (case pairing_poll now ident params (ps_pending st) of
             (g, r) \<Rightarrow> (st\<lparr>ps_pending := g\<rparr>, Some r))
      | CallList now \<Rightarrow>
          (case pairing_list now ident (ps_file st) (ps_pending st) of
             (g, r) \<Rightarrow> (st\<lparr>ps_pending := g\<rparr>, Some r))
      | CallApprove now d1 d2 w params \<Rightarrow>
          (case pairing_approve K now d1 d2 w ident params (ps_file st) (ps_pending st) of
             (f, g, r) \<Rightarrow> (st\<lparr>ps_file := f, ps_pending := g\<rparr>, Some r))
      | CallRevoke w params \<Rightarrow>
          (case pairing_revoke K w ident params (ps_file st) of
             (f, r) \<Rightarrow> (st\<lparr>ps_file := f\<rparr>, Some r)))"

fun pairing_run ::
  "catalogue \<Rightarrow> (json \<times> pairing_call) list \<Rightarrow> pairing_state
   \<Rightarrow> pairing_state \<times> (pairing_call \<times> json option) list"
where
  "pairing_run K [] st = (st, [])"
| "pairing_run K ((ident, call) # calls) st =
     (case pairing_step K ident call st of
        (st1, r) \<Rightarrow> (case pairing_run K calls st1 of (st2, tr) \<Rightarrow> (st2, (call, r) # tr)))"

section \<open>Concurrent writers of the file\<close>

text \<open>
  \<open>append_paired_token\<close> and \<open>revoke_paired_token\<close> each read the file, edit the list and write the
  file back. An approval holds the lock of the pending table while it does so; a revocation takes
  no lock. The two halves of concurrent writers therefore interleave: each thread keeps the list it
  has read.
\<close>

datatype store_action =
  LoadCopy nat
| SaveAppended nat paired_token
| SaveRevoked nat string

fun store_exec :: "store_action list \<Rightarrow> (nat \<Rightarrow> paired_token list) \<Rightarrow> token_file \<Rightarrow> token_file" where
  "store_exec [] copies file = file"
| "store_exec (LoadCopy t # acts) copies file = store_exec acts (copies(t := load_paired_tokens file)) file"
| "store_exec (SaveAppended t record # acts) copies file =
     store_exec acts copies (saved_file (copies t @ [record]))"
| "store_exec (SaveRevoked t tid # acts) copies file =
     (let kept = filter (\<lambda>r. pt_id r \<noteq> tid) (copies t)
      in store_exec acts copies (if length kept \<noteq> length (copies t) then saved_file kept else file))"

section \<open>What an observer sees\<close>

text \<open>The tokens polls handed out, and the tokens approvals reported, with the pairing they belong to.\<close>

definition result_of :: "json option \<Rightarrow> json option" where
  "result_of r = Option.bind r (json_get ''result'')"

definition delivered :: "pairing_call \<times> json option \<Rightarrow> (string \<times> string) list" where
  "delivered ev =
     (case fst ev of
        CallPoll now params \<Rightarrow>
          (case Option.bind (result_of (snd ev)) (get_as as_str ''token'') of
             Some t \<Rightarrow> [(str_param ''pairing_id'' params, t)]
           | None \<Rightarrow> [])
      | _ \<Rightarrow> [])"

definition minted :: "pairing_call \<times> json option \<Rightarrow> (string \<times> string) list" where
  "minted ev =
     (case fst ev of
        CallApprove now d1 d2 w params \<Rightarrow>
          (case (Option.bind (result_of (snd ev)) (get_as as_bool ''approved''), random_hex d1) of
             (Some True, Some t) \<Rightarrow> [(str_param ''pairing_id'' params, t)]
           | _ \<Rightarrow> [])
      | _ \<Rightarrow> [])"

definition approved_pairs :: "pending_pairings \<Rightarrow> (string \<times> string) list" where
  "approved_pairs m = List.map_filter (\<lambda>(k, p). map_option (Pair k) (pe_approved_token p)) m"

definition approved_ms :: "(string \<times> pending) multiset \<Rightarrow> (string \<times> string) multiset" where
  "approved_ms M =
     image_mset (\<lambda>(k, p). (k, the (pe_approved_token p)))
       (filter_mset (\<lambda>(k, p). pe_approved_token p \<noteq> None) M)"

definition pairings_ok :: "pending_pairings \<Rightarrow> bool" where
  "pairings_ok m \<longleftrightarrow> hm_ok m \<and> length m \<le> max MAX_PENDING (Suc (length (approved_pairs m)))"

section \<open>The file\<close>

lemma paired_token_roundtrip [simp]: "paired_token_from_value (paired_token_json t) = Some t"
  by (simp add: paired_token_json_def paired_token_of_fields_def)

lemma map_filter_all_Some: "(\<And>x. f (g x) = Some x) \<Longrightarrow> List.map_filter f (map g xs) = xs"
  by (induction xs) (simp_all add: List.map_filter_simps)

lemma load_saved_file [simp]: "load_paired_tokens (saved_file ts) = ts"
  by (simp add: load_paired_tokens_def saved_file_def map_filter_all_Some)

lemma is_paired_token_iff:
  "is_paired_token file tok \<longleftrightarrow> (\<exists>t \<in> set (load_paired_tokens file). ct_eq tok (pt_token t))"
proof -
  have "fold (\<lambda>t acc. ct_eq tok (pt_token t) \<or> acc) ts b \<longleftrightarrow> b \<or> (\<exists>t \<in> set ts. ct_eq tok (pt_token t))"
    for ts :: "paired_token list" and b
    by (induction ts arbitrary: b) auto
  then show ?thesis by (simp add: is_paired_token_def)
qed

section \<open>The table\<close>

lemma mset_approved_pairs: "mset (approved_pairs m) = approved_ms (mset m)"
  by (induction m) (auto simp: approved_pairs_def approved_ms_def List.map_filter_simps split: option.splits)

lemma approved_ms_add [simp]:
  "approved_ms (add_mset (k, p) M) =
     (case pe_approved_token p of None \<Rightarrow> approved_ms M | Some t \<Rightarrow> add_mset (k, t) (approved_ms M))"
  by (auto simp: approved_ms_def split: option.splits)

lemma approved_pairs_prune [simp]: "approved_pairs (prune now m) = approved_pairs m"
  by (induction m) (auto simp: approved_pairs_def prune_def List.map_filter_simps split: option.splits)

lemma hm_ok_pruned [simp]: "hm_ok m \<Longrightarrow> hm_ok (prune now m)"
  by (simp add: prune_def)

lemma approved_delete:
  assumes "hm_ok m" "map_of m k = Some p"
  shows "mset (approved_pairs m) =
    (case pe_approved_token p of None \<Rightarrow> mset (approved_pairs (AList.delete k m))
     | Some t \<Rightarrow> add_mset (k, t) (mset (approved_pairs (AList.delete k m))))"
  using mset_delete_hm [OF assms] by (simp add: mset_approved_pairs split: option.splits)

lemma approved_delete_subset:
  "hm_ok m \<Longrightarrow> mset (approved_pairs (AList.delete k m)) \<subseteq># mset (approved_pairs m)"
  by (cases "map_of m k") (auto simp: delete_absent approved_delete split: option.splits)

lemma approved_update:
  assumes "hm_ok m"
  shows "mset (approved_pairs (AList.update k p m)) =
    (case pe_approved_token p of None \<Rightarrow> mset (approved_pairs (AList.delete k m))
     | Some t \<Rightarrow> add_mset (k, t) (mset (approved_pairs (AList.delete k m))))"
  using mset_update_hm [OF assms] by (simp add: mset_approved_pairs split: option.splits)

lemma unapproved_key:
  "hm_ok m \<Longrightarrow> (k, p) \<in> set (unapproved m) \<Longrightarrow> map_of m k = Some p \<and> pe_approved_token p = None"
  by (auto simp: unapproved_def hm_in_set_iff)

text \<open>What making room does: nothing, or one unapproved entry goes.\<close>

lemma make_room_cases [consumes 1, case_names kept evicted]:
  assumes "hm_ok m"
  obtains "make_room m = m" "length m < MAX_PENDING \<or> unapproved m = []"
  | k p where "make_room m = AList.delete k m" "map_of m k = Some p" "pe_approved_token p = None"
proof (cases "min_by_key (\<lambda>(_, p). pe_created_ms p) (unapproved m)")
  case None
  then show ?thesis using that(1) by (simp add: make_room_def)
next
  case (Some kp)
  obtain k p where kp: "kp = (k, p)" by (cases kp)
  with Some have "(k, p) \<in> set (unapproved m)" by (metis min_by_key_in)
  with assms Some kp show ?thesis
    by (cases "MAX_PENDING \<le> length m") (auto simp: make_room_def dest: unapproved_key intro: that)
qed

lemma hm_ok_make_room [simp]: "hm_ok m \<Longrightarrow> hm_ok (make_room m)"
  by (cases rule: make_room_cases) auto

lemma approved_make_room [simp]:
  "hm_ok m \<Longrightarrow> mset (approved_pairs (make_room m)) = mset (approved_pairs m)"
  by (cases m rule: make_room_cases) (auto simp: approved_delete)

section \<open>One call\<close>

text \<open>
  The accounting of a call: what it delivers and what stays approved was approved before or is
  minted by it.
\<close>

definition call_accounts :: "catalogue \<Rightarrow> json \<Rightarrow> pairing_call \<Rightarrow> pairing_state \<Rightarrow> bool" where
  "call_accounts K ident call st =
     (case pairing_step K ident call st of
        (st', r) \<Rightarrow>
          mset (delivered (call, r)) + mset (approved_pairs (ps_pending st'))
            \<subseteq># mset (approved_pairs (ps_pending st)) + mset (minted (call, r)))"

lemma control_ok_result [simp]: "json_get ''result'' (control_ok ident v) = Some v"
  by (simp add: control_ok_def)

lemma control_error_result [simp]: "json_get ''result'' (control_error K ident c e) = None"
  by (simp add: control_error_def)

lemmas observer_defs = delivered_def minted_def result_of_def get_as_def

lemma request_cases [consumes 1, case_names panicked refused stored]:
  assumes "pairing_step K ident (CallRequest now d1 d2 params) st = (st', r)"
  obtains "st' = st" "r = None"
  | e c where "st' = st" "r = Some (control_error K ident c e)"
  | pid code where
      "random_hex d1 = Some pid" "random_pairing_code d2 = Some code"
      "st' = st\<lparr>ps_pending := AList.update pid
         \<lparr>pe_code = code, pe_client_name = client_name_of params, pe_created_ms = now,
          pe_expires_ms = now + PAIRING_TTL_MS, pe_approved_token = None\<rparr>
         (make_room (prune now (ps_pending st)))\<rparr>"
      "r = Some (control_ok ident (JObject
         [(''pairing_id'', JString pid), (''pairing_code'', JString code),
          (''expires_ms'', JNumber (PosInt (now + PAIRING_TTL_MS)))]))"
  using assms unfolding pairing_step_def pairing_request_def
  by (auto simp: Let_def split: if_splits option.splits)

lemma request_accounts:
  assumes "hm_ok (ps_pending st)"
  shows "call_accounts K ident (CallRequest now d1 d2 params) st"
proof -
  obtain st' r where step: "pairing_step K ident (CallRequest now d1 d2 params) st = (st', r)"
    by fastforce
  then show ?thesis
  proof (cases rule: request_cases)
    case (stored pid code)
    have "mset (approved_pairs (ps_pending st')) \<subseteq># mset (approved_pairs (ps_pending st))"
      using stored assms approved_delete_subset [of "make_room (prune now (ps_pending st))" pid]
      by (simp add: approved_update)
    then show ?thesis using step by (simp add: call_accounts_def observer_defs)
  qed (use step in \<open>simp_all add: call_accounts_def observer_defs\<close>)
qed

lemma poll_accounts:
  assumes "hm_ok (ps_pending st)"
  shows "call_accounts K ident (CallPoll now params) st"
proof (cases "map_of (ps_pending st) (str_param ''pairing_id'' params)")
  case None
  then show ?thesis
    by (simp add: call_accounts_def pairing_step_def pairing_poll_def observer_defs Let_def)
next
  case (Some p)
  note del = approved_delete [OF assms Some]
  show ?thesis
    using Some del
    by (cases "pe_approved_token p")
      (simp_all add: call_accounts_def pairing_step_def pairing_poll_def observer_defs Let_def)
qed

lemma approve_cases [consumes 1, case_names refused approved]:
  assumes "pairing_step K ident (CallApprove now d1 d2 w params) st = (st', r)"
  obtains e c where "st' = st\<lparr>ps_pending := prune now (ps_pending st)\<rparr>" "r = Some (control_error K ident c e)"
  | p token rid where
      "map_of (prune now (ps_pending st)) (str_param ''pairing_id'' params) = Some p"
      "pe_approved_token p = None" "random_hex d1 = Some token" "random_hex d2 = Some rid"
      "st' = \<lparr>ps_pending = AList.update (str_param ''pairing_id'' params) (p\<lparr>pe_approved_token := Some token\<rparr>)
                (prune now (ps_pending st)),
              ps_file = saved_file (load_paired_tokens (ps_file st) @
                [\<lparr>pt_id = rid, pt_token = token, pt_client_name = pe_client_name p, pt_created_ms = now\<rparr>])\<rparr>"
      "r = Some (control_ok ident (JObject
              [(''approved'', JBool True), (''client_name'', JString (pe_client_name p)),
               (''token_id'', JString rid)]))"
  using assms unfolding pairing_step_def pairing_approve_def append_paired_token_def save_paired_tokens_def
  by (cases st) (auto simp: Let_def split: if_splits option.splits write_result.splits)

lemma approve_accounts:
  assumes "hm_ok (ps_pending st)"
  shows "call_accounts K ident (CallApprove now d1 d2 w params) st"
proof -
  obtain st' r where step: "pairing_step K ident (CallApprove now d1 d2 w params) st = (st', r)"
    by fastforce
  then show ?thesis
  proof (cases rule: approve_cases)
    case (refused e c)
    with step show ?thesis by (simp add: call_accounts_def observer_defs)
  next
    case (approved p token rid)
    have "mset (approved_pairs (AList.delete (str_param ''pairing_id'' params) (prune now (ps_pending st))))
        = mset (approved_pairs (ps_pending st))"
      using approved_delete [of "prune now (ps_pending st)"] approved(1,2) assms by simp
    with step approved assms show ?thesis
      by (auto simp: call_accounts_def observer_defs approved_update)
  qed
qed

lemma step_accounts:
  assumes "hm_ok (ps_pending st)"
  shows "call_accounts K ident call st"
proof (cases call)
  case (CallList now)
  then show ?thesis by (simp add: call_accounts_def pairing_step_def pairing_list_def observer_defs Let_def)
next
  case (CallRevoke w params)
  then show ?thesis
    by (auto simp: call_accounts_def pairing_step_def observer_defs split: prod.splits)
qed (use assms request_accounts poll_accounts approve_accounts in auto)

lemma step_hm_ok:
  assumes "hm_ok (ps_pending st)" "pairing_step K ident call st = (st', r)"
  shows "hm_ok (ps_pending st')"
proof (cases call)
  case (CallRequest now d1 d2 params)
  with assms(2) have "pairing_step K ident (CallRequest now d1 d2 params) st = (st', r)" by simp
  then show ?thesis using assms(1) by (cases rule: request_cases) simp_all
next
  case (CallApprove now d1 d2 w params)
  with assms(2) have "pairing_step K ident (CallApprove now d1 d2 w params) st = (st', r)" by simp
  then show ?thesis using assms(1) by (cases rule: approve_cases) simp_all
qed (use assms in \<open>auto simp: pairing_step_def pairing_poll_def pairing_list_def Let_def split: option.splits prod.splits if_splits\<close>)

section \<open>Runs\<close>

lemma pairing_run_accounts:
  assumes "hm_ok (ps_pending st)" "pairing_run K calls st = (st', tr)"
  shows "hm_ok (ps_pending st') \<and>
    mset (concat (map delivered tr)) + mset (approved_pairs (ps_pending st'))
      \<subseteq># mset (approved_pairs (ps_pending st)) + mset (concat (map minted tr))"
  using assms
proof (induction K calls st arbitrary: st' tr rule: pairing_run.induct)
  case (2 K ident call calls st)
  obtain st1 r where step: "pairing_step K ident call st = (st1, r)" by fastforce
  obtain tr1 where run: "pairing_run K calls st1 = (st', tr1)" and tr: "tr = (call, r) # tr1"
    using "2.prems"(2) step by (auto split: prod.splits)
  have ok1: "hm_ok (ps_pending st1)" using step_hm_ok [OF "2.prems"(1) step] .
  have one: "mset (delivered (call, r)) + mset (approved_pairs (ps_pending st1))
      \<subseteq># mset (approved_pairs (ps_pending st)) + mset (minted (call, r))"
    using step_accounts [OF "2.prems"(1), of K ident call] step by (simp add: call_accounts_def)
  have rest: "hm_ok (ps_pending st') \<and> mset (concat (map delivered tr1)) + mset (approved_pairs (ps_pending st'))
      \<subseteq># mset (approved_pairs (ps_pending st1)) + mset (concat (map minted tr1))"
    using "2.IH"[OF step [symmetric] ok1 run] .
  show ?case using subset_mset.add_mono [OF one conjunct2 [OF rest]] rest
    by (auto simp: tr ac_simps)
qed simp

text \<open>
  C10: However requests, polls, listings, approvals and revocations follow one another on a node that
  starts with no pending pairing, the tokens its polls hand out are, counted with multiplicity, among
  the tokens its approvals minted for the same pairing: no token is delivered twice, none is delivered
  to another pairing, and none without an approval that reported success.
\<close>

theorem tokens_delivered_once:
  assumes "pairing_run K calls \<lparr>ps_pending = [], ps_file = file\<rparr> = (st', tr)"
  shows "mset (concat (map delivered tr)) \<subseteq># mset (concat (map minted tr))"
proof -
  have "mset (concat (map delivered tr)) + mset (approved_pairs (ps_pending st'))
      \<subseteq># mset (concat (map minted tr))"
    using pairing_run_accounts [OF _ assms] by (simp add: approved_pairs_def List.map_filter_simps)
  then show ?thesis by (meson mset_subset_eq_add_left subset_mset.order_trans)
qed

section \<open>The size of the table\<close>

lemma approved_count_delete:
  assumes "hm_ok m"
  shows "length (approved_pairs (AList.delete k m)) =
    length (approved_pairs m) - (if Option.bind (map_of m k) pe_approved_token = None then 0 else 1)"
proof (cases "map_of m k")
  case (Some p)
  then show ?thesis
    using arg_cong [OF approved_delete [OF assms Some], of size]
    by (cases "pe_approved_token p") simp_all
qed (simp add: delete_absent)

lemma approved_count_update:
  "hm_ok m \<Longrightarrow> length (approved_pairs (AList.update k p m)) =
     length (approved_pairs (AList.delete k m)) + (if pe_approved_token p = None then 0 else 1)"
  using arg_cong [OF approved_update, of m size k p] by (cases "pe_approved_token p") simp_all

lemma approved_le_length: "length (approved_pairs m) \<le> length m"
  by (induction m) (auto simp: approved_pairs_def List.map_filter_simps split: option.splits)

lemma all_approved: "unapproved m = [] \<Longrightarrow> length (approved_pairs m) = length m"
  by (induction m) (auto simp: approved_pairs_def unapproved_def List.map_filter_simps split: option.splits if_splits)

lemma approved_pos: "hm_ok m \<Longrightarrow> map_of m k = Some p \<Longrightarrow> pe_approved_token p \<noteq> None \<Longrightarrow> 0 < length (approved_pairs m)"
  using arg_cong [OF approved_delete, of m k p size] by (auto split: option.splits)

lemma pairings_ok_prune: "pairings_ok m \<Longrightarrow> pairings_ok (prune now m)"
  unfolding pairings_ok_def prune_def
  by (metis approved_pairs_prune hm_ok_filter le_trans length_filter_le prune_def)

lemma pairings_ok_delete:
  assumes "pairings_ok m"
  shows "pairings_ok (AList.delete k m)"
proof -
  have ok: "hm_ok m" and len: "length m \<le> max MAX_PENDING (Suc (length (approved_pairs m)))"
    using assms by (simp_all add: pairings_ok_def)
  have keys: "k \<in> fst ` set m" if "Option.bind (map_of m k) pe_approved_token \<noteq> None"
    using that by (cases "map_of m k") (auto simp: in_keys_map_of)
  show ?thesis
    unfolding pairings_ok_def length_delete [OF ok] approved_count_delete [OF ok]
    using ok len keys by (auto simp: max_def MAX_PENDING_def split: if_splits)
qed

lemma pairings_ok_approve:
  assumes "pairings_ok m" "map_of m k = Some p" "pe_approved_token p = None"
  shows "pairings_ok (AList.update k (p\<lparr>pe_approved_token := Some t\<rparr>) m)"
  using assms by (auto simp: pairings_ok_def approved_count_update approved_count_delete length_update
      in_keys_map_of max_def split: if_splits)

lemma pairings_ok_store:
  assumes ok: "pairings_ok m" and new: "pe_approved_token p = None"
  shows "pairings_ok (AList.update k p (make_room m))"
proof -
  have hm: "hm_ok m" and len: "length m \<le> max MAX_PENDING (Suc (length (approved_pairs m)))"
    using ok by (simp_all add: pairings_ok_def)
  define g where "g = make_room m"
  have hg: "hm_ok g" using hm by (simp add: g_def)
  have keep: "length (approved_pairs g) = length (approved_pairs m)"
    using arg_cong [OF approved_make_room [OF hm], of size] by (simp add: g_def)
  have room: "length g < max MAX_PENDING (Suc (length (approved_pairs g)))"
    using hm
  proof (cases rule: make_room_cases)
    case kept
    then show ?thesis by (auto simp: g_def all_approved max_def)
  next
    case (evicted k' p')
    then have "0 < length m" "length g = length m - 1"
      using hm by (auto simp: g_def length_delete in_keys_map_of)
    with len keep show ?thesis by (simp add: max_def split: if_splits)
  qed
  have cnt: "length (approved_pairs (AList.update k p g)) =
      length (approved_pairs g) - (if Option.bind (map_of g k) pe_approved_token = None then 0 else 1)"
    using hg new by (simp add: approved_count_update approved_count_delete)
  have "length (AList.update k p g) \<le> max MAX_PENDING (Suc (length (approved_pairs (AList.update k p g))))"
    using room unfolding cnt length_update in_keys_map_of
    by (cases "map_of g k") (auto simp: max_def MAX_PENDING_def split: if_splits)
  then show ?thesis using hg by (simp add: pairings_ok_def g_def)
qed

lemma step_pairings_ok:
  assumes "pairings_ok (ps_pending st)" "pairing_step K ident call st = (st', r)"
  shows "pairings_ok (ps_pending st')"
proof (cases call)
  case (CallRequest now d1 d2 params)
  with assms(2) have "pairing_step K ident (CallRequest now d1 d2 params) st = (st', r)" by simp
  then show ?thesis using assms(1)
    by (cases rule: request_cases) (simp_all add: pairings_ok_store pairings_ok_prune)
next
  case (CallApprove now d1 d2 w params)
  with assms(2) have "pairing_step K ident (CallApprove now d1 d2 w params) st = (st', r)" by simp
  then show ?thesis using assms(1)
    by (cases rule: approve_cases) (simp_all add: pairings_ok_approve pairings_ok_prune)
next
  case (CallPoll now params)
  with assms show ?thesis
    by (auto simp: pairing_step_def pairing_poll_def Let_def pairings_ok_prune pairings_ok_delete
        split: option.splits if_splits)
next
  case (CallList now)
  with assms show ?thesis
    by (auto simp: pairing_step_def pairing_list_def Let_def pairings_ok_prune)
next
  case (CallRevoke w params)
  with assms show ?thesis by (auto simp: pairing_step_def split: prod.splits)
qed

text \<open>
  The table of pending pairings holds distinct ids and stays bounded, whatever sequence of calls
  an unauthenticated client and the operator make: at most 32 entries, or one more than the number of
  pairings the operator approved and nobody has polled yet.
\<close>

theorem pairing_table_bounded:
  assumes "pairings_ok (ps_pending st)" "pairing_run K calls st = (st', tr)"
  shows "pairings_ok (ps_pending st')"
  using assms
proof (induction K calls st arbitrary: st' tr rule: pairing_run.induct)
  case (2 K ident call calls st)
  obtain st1 r where step: "pairing_step K ident call st = (st1, r)" by fastforce
  moreover obtain tr1 where "pairing_run K calls st1 = (st', tr1)"
    using "2.prems"(2) step by (auto split: prod.splits)
  ultimately show ?case
    using "2.IH" [OF step [symmetric]] step_pairings_ok [OF "2.prems"(1) step] by blast
qed simp

section \<open>Revocation\<close>

lemma kept_length:
  "length (filter (\<lambda>t. pt_id t \<noteq> tid) ts) = length ts \<longleftrightarrow> (\<forall>t \<in> set ts. pt_id t \<noteq> tid)"
  for ts :: "paired_token list"
  by (auto simp: filter_id_conv dest: length_filter_less [of _ ts "\<lambda>t. pt_id t \<noteq> tid"])

lemma load_revoked:
  assumes "revoke_paired_token w tid file = (file', Inr b)"
  shows "load_paired_tokens file' = filter (\<lambda>t. pt_id t \<noteq> tid) (load_paired_tokens file)
    \<and> (b \<longleftrightarrow> (\<exists>t \<in> set (load_paired_tokens file). pt_id t = tid))"
proof (cases "\<forall>t \<in> set (load_paired_tokens file). pt_id t \<noteq> tid")
  case True
  with assms have "file' = file" "\<not> b"
    by (simp_all add: revoke_paired_token_def Let_def kept_length)
  moreover have "filter (\<lambda>t. pt_id t \<noteq> tid) (load_paired_tokens file) = load_paired_tokens file"
    using True by (simp add: filter_id_conv)
  ultimately show ?thesis using True by auto
next
  case False
  then have "length (filter (\<lambda>t. pt_id t \<noteq> tid) (load_paired_tokens file)) \<noteq> length (load_paired_tokens file)"
    by (simp add: kept_length)
  with assms have "b" "file' = fst (save_paired_tokens Written (filter (\<lambda>t. pt_id t \<noteq> tid) (load_paired_tokens file)) file)"
    by (auto simp: revoke_paired_token_def Let_def save_paired_tokens_def split: write_result.splits)
  with False show ?thesis by (simp add: save_paired_tokens_def)
qed

text \<open>
  When a revocation answers without an error, the file accepts from then on exactly the tokens of
  the other records: the next request that presents the revoked token is refused, and no other
  controller loses its token. The answer says whether a record had the id.
\<close>

theorem revoked_rejected:
  assumes "revoke_paired_token w tid file = (file', Inr b)"
  shows "(is_paired_token file' tok \<longleftrightarrow>
      (\<exists>t \<in> set (load_paired_tokens file). pt_id t \<noteq> tid \<and> ct_eq tok (pt_token t)))
    \<and> (b \<longleftrightarrow> (\<exists>t \<in> set (load_paired_tokens file). pt_id t = tid))"
  using load_revoked [OF assms] by (auto simp: is_paired_token_iff)

theorem revoked_rejected_witness:
  "(is_paired_token (saved_file []) ''t1'' \<longleftrightarrow>
      (\<exists>t \<in> set (load_paired_tokens (saved_file
          [\<lparr>pt_id = ''a'', pt_token = ''t1'', pt_client_name = ''x'', pt_created_ms = 1\<rparr>])).
         pt_id t \<noteq> ''a'' \<and> ct_eq ''t1'' (pt_token t)))
    \<and> (True \<longleftrightarrow> (\<exists>t \<in> set (load_paired_tokens (saved_file
          [\<lparr>pt_id = ''a'', pt_token = ''t1'', pt_client_name = ''x'', pt_created_ms = 1\<rparr>])).
         pt_id t = ''a''))"
  by (rule revoked_rejected [where w = Written])
    (simp add: revoke_paired_token_def save_paired_tokens_def Let_def)

text \<open>Run one after the other, the two halves of a writer are the writer.\<close>

lemma store_exec_append:
  "store_exec [LoadCopy t, SaveAppended t r] copies file = fst (append_paired_token Written r file)"
  by (simp add: append_paired_token_def save_paired_tokens_def)

lemma store_exec_revoke:
  "store_exec [LoadCopy t, SaveRevoked t tid] copies file = fst (revoke_paired_token Written tid file)"
  by (simp add: revoke_paired_token_def save_paired_tokens_def Let_def)

text \<open>
  C35: Revocation is not safe against a concurrent approval: when the approval read the file before
  the revocation wrote it and writes afterwards, every record of the file the approval had read is
  back, the revoked one included, although the revocation had removed it and reported so.
\<close>

theorem revocation_undone_by_race:
  assumes "t \<in> set (load_paired_tokens file)"
  shows "snd (revoke_paired_token Written (pt_id t) file) = Inr True
    \<and> is_paired_token
        (store_exec [LoadCopy 0, LoadCopy 1, SaveRevoked 1 (pt_id t), SaveAppended 0 r] copies file)
        (pt_token t)"
proof -
  have "length (filter (\<lambda>r. pt_id r \<noteq> pt_id t) (load_paired_tokens file)) \<noteq> length (load_paired_tokens file)"
    using assms by (auto simp: kept_length)
  then have "snd (revoke_paired_token Written (pt_id t) file) = Inr True"
    by (simp add: revoke_paired_token_def save_paired_tokens_def Let_def)
  moreover have "is_paired_token (saved_file (load_paired_tokens file @ [r])) (pt_token t)"
    unfolding is_paired_token_iff using assms by (intro bexI [of _ t]) simp_all
  ultimately show ?thesis by simp
qed

theorem revocation_undone_by_race_witness:
  "snd (revoke_paired_token Written ''a'' (saved_file
      [\<lparr>pt_id = ''a'', pt_token = ''t1'', pt_client_name = ''x'', pt_created_ms = 1\<rparr>])) = Inr True
   \<and> is_paired_token
       (store_exec [LoadCopy 0, LoadCopy 1, SaveRevoked 1 ''a'',
           SaveAppended 0 \<lparr>pt_id = ''b'', pt_token = ''t2'', pt_client_name = ''y'', pt_created_ms = 2\<rparr>]
         (\<lambda>_. [])
         (saved_file [\<lparr>pt_id = ''a'', pt_token = ''t1'', pt_client_name = ''x'', pt_created_ms = 1\<rparr>])) ''t1''"
  using revocation_undone_by_race
    [of "\<lparr>pt_id = ''a'', pt_token = ''t1'', pt_client_name = ''x'', pt_created_ms = 1\<rparr>"
        "saved_file [\<lparr>pt_id = ''a'', pt_token = ''t1'', pt_client_name = ''x'', pt_created_ms = 1\<rparr>]"
        "\<lparr>pt_id = ''b'', pt_token = ''t2'', pt_client_name = ''y'', pt_created_ms = 2\<rparr>" "\<lambda>_. []"]
  by simp

section \<open>The whole handshake\<close>

lemma request_stores:
  assumes "chars_count (client_name_of params) \<le> MAX_CLIENT_NAME" "now + PAIRING_TTL_MS \<le> u64_max"
    and "random_hex d1 = Some pid" "random_pairing_code d2 = Some code"
  shows "\<exists>r. pairing_step K ident (CallRequest now d1 d2 params) st =
    (st\<lparr>ps_pending := AList.update pid
         \<lparr>pe_code = code, pe_client_name = client_name_of params, pe_created_ms = now,
          pe_expires_ms = now + PAIRING_TTL_MS, pe_approved_token = None\<rparr>
         (make_room (prune now (ps_pending st)))\<rparr>, r)"
  using assms by (simp add: pairing_step_def pairing_request_def Let_def)

lemma approve_marks:
  assumes "hm_ok (ps_pending st)" "str_param ''pairing_id'' params = pid"
    and "map_of (ps_pending st) pid = Some p" "pe_approved_token p = None" "now \<le> pe_expires_ms p"
    and "random_hex d1 = Some token" "random_hex d2 = Some rid"
  shows "\<exists>st' r. pairing_step K ident (CallApprove now d1 d2 Written params) st = (st', r)
    \<and> hm_ok (ps_pending st')
    \<and> map_of (ps_pending st') pid = Some (p\<lparr>pe_approved_token := Some token\<rparr>)
    \<and> (\<exists>t \<in> set (load_paired_tokens (ps_file st')). pt_id t = rid \<and> pt_token t = token)"
proof -
  have "map_of (prune now (ps_pending st)) pid = Some p"
    using assms by (simp add: prune_def map_of_filter_keyed)
  with assms show ?thesis
    by (auto simp: pairing_step_def pairing_approve_def append_paired_token_def save_paired_tokens_def
        Let_def update_conv')
qed

lemma poll_delivers:
  assumes "hm_ok (ps_pending st)" "str_param ''pairing_id'' params = pid"
    and "map_of (ps_pending st) pid = Some p" "pe_approved_token p = Some token"
  shows "\<exists>st' r. pairing_step K ident (CallPoll now params) st = (st', r)
    \<and> delivered (CallPoll now params, r) = [(pid, token)]
    \<and> ps_file st' = ps_file st \<and> map_of (ps_pending st') pid = None"
proof -
  have "map_of (prune now (AList.delete pid (ps_pending st))) pid = None"
    using assms(1) by (simp add: prune_def map_of_filter_keyed delete_conv')
  with assms show ?thesis
    by (simp add: pairing_step_def pairing_poll_def observer_defs Let_def)
qed

text \<open>
  What may happen while a pairing waits for its approval. The table keeps an unapproved entry until
  its deadline, unless it is the oldest unapproved one when a request finds the table full: the
  entries that can push it out are the approved ones nobody has polled and those not older than it.
\<close>

definition waits :: "nat \<Rightarrow> string \<Rightarrow> pairing_call \<Rightarrow> bool" where
  "waits deadline pid call =
     (case call of
        CallRequest t d _ _ \<Rightarrow> t \<le> deadline \<and> random_hex d \<noteq> Some pid
      | CallPoll t _ \<Rightarrow> t \<le> deadline
      | CallList t \<Rightarrow> t \<le> deadline
      | CallApprove t _ _ _ prm \<Rightarrow> t \<le> deadline \<and> str_param ''pairing_id'' prm \<noteq> pid
      | CallRevoke _ _ \<Rightarrow> True)"

definition crowds :: "pairing_call \<Rightarrow> bool" where
  "crowds call =
     (case call of CallRequest _ _ _ _ \<Rightarrow> True | CallApprove _ _ _ _ _ \<Rightarrow> True | _ \<Rightarrow> False)"

definition rivals :: "nat \<Rightarrow> string \<Rightarrow> pending_pairings \<Rightarrow> nat" where
  "rivals created pid m =
     length (filter (\<lambda>(k, p). k \<noteq> pid \<and> (pe_approved_token p \<noteq> None \<or> created \<le> pe_created_ms p)) m)"

text \<open>What may happen between the approval of a pairing and the poll that collects its token.\<close>

definition uncollected :: "string \<Rightarrow> pairing_call \<Rightarrow> bool" where
  "uncollected pid call =
     (case call of
        CallRequest _ d _ _ \<Rightarrow> random_hex d \<noteq> Some pid
      | CallPoll _ prm \<Rightarrow> str_param ''pairing_id'' prm \<noteq> pid
      | _ \<Rightarrow> True)"

definition revoked_id :: "json \<Rightarrow> string" where
  "revoked_id prm =
     (case json_get ''token_id'' prm of
        Some v \<Rightarrow> unwrap_or [] (as_str v)
      | None \<Rightarrow> str_param ''id'' prm)"

definition revokes :: "string \<Rightarrow> pairing_call \<Rightarrow> bool" where
  "revokes rid call = (case call of CallRevoke _ prm \<Rightarrow> revoked_id prm = rid | _ \<Rightarrow> False)"

abbreviation delivered_to :: "string \<Rightarrow> (pairing_call \<times> json option) list \<Rightarrow> (string \<times> string) list" where
  "delivered_to pid tr \<equiv> filter (\<lambda>(k, _). k = pid) (concat (map delivered tr))"

lemma rivals_filter: "rivals c pid (filter P m) \<le> rivals c pid m"
  by (induction m) (auto simp: rivals_def)

lemma rivals_delete: "rivals c pid (AList.delete k m) \<le> rivals c pid m"
  by (simp add: AList.delete_eq rivals_filter)

lemma rivals_update: "rivals c pid (AList.update k v m) \<le> Suc (rivals c pid m)"
  by (induction m) (auto simp: rivals_def)

lemma rivals_update_own: "rivals c pid (AList.update pid v m) = rivals c pid m"
  by (induction m) (auto simp: rivals_def)

lemma rivals_prune: "rivals c pid (prune now m) \<le> rivals c pid m"
  by (simp add: prune_def rivals_filter)

lemma rivals_make_room: "hm_ok m \<Longrightarrow> rivals c pid (make_room m) \<le> rivals c pid m"
  by (cases m rule: make_room_cases) (auto simp: rivals_delete)

lemma map_of_prune_kept:
  "hm_ok m \<Longrightarrow> map_of m k = Some p \<Longrightarrow> pe_approved_token p \<noteq> None \<or> now \<le> pe_expires_ms p
   \<Longrightarrow> map_of (prune now m) k = Some p"
  by (auto simp: prune_def map_of_filter_keyed)

lemma make_room_kept:
  assumes "hm_ok m" "map_of m pid = Some p"
    and "pe_approved_token p \<noteq> None \<or> Suc (rivals (pe_created_ms p) pid m) < MAX_PENDING"
  shows "map_of (make_room m) pid = Some p"
proof (rule ccontr)
  assume lost: "map_of (make_room m) pid \<noteq> Some p"
  have full: "MAX_PENDING \<le> length m"
    using lost assms(2) by (auto simp: make_room_def split: if_splits)
  obtain k q where min: "min_by_key (\<lambda>(_, p). pe_created_ms p) (unapproved m) = Some (k, q)"
    and room: "make_room m = AList.delete k m"
    using lost assms(2) by (auto simp: make_room_def split: if_splits option.splits)
  have "(k, q) \<in> set (unapproved m)" using min by (rule min_by_key_in)
  then have q: "map_of m k = Some q" "pe_approved_token q = None"
    using unapproved_key [OF assms(1)] by auto
  have "k = pid" using lost assms(2) by (auto simp: room delete_conv' split: if_splits)
  then have "q = p" using q(1) assms(2) by simp
  have young: "pe_created_ms p \<le> pe_created_ms p'" if "(k', p') \<in> set m" "pe_approved_token p' = None" for k' p'
    using min_by_key_le [OF min, of "(k', p')"] that by (simp add: unapproved_def \<open>q = p\<close>)
  have "length m \<le> Suc (rivals (pe_created_ms p) pid m)"
  proof -
    have "filter (\<lambda>(k, p'). k \<noteq> pid \<and> (pe_approved_token p' \<noteq> None \<or> pe_created_ms p \<le> pe_created_ms p')) m
        = AList.delete pid m"
      unfolding AList.delete_eq by (rule filter_cong) (auto dest: young)
    moreover have "length m = Suc (length (AList.delete pid m))"
      using mset_delete_hm [OF assms(1,2)] by (metis size_add_mset size_mset)
    ultimately show ?thesis by (simp add: rivals_def)
  qed
  with full assms(3) q(2) \<open>q = p\<close> show False by auto
qed

text \<open>One call leaves the entry, and counts at most one more entry against it.\<close>

lemma waits_step:
  assumes ok: "hm_ok (ps_pending st)" and look: "map_of (ps_pending st) pid = Some p"
    and open_: "pe_approved_token p = None"
    and room: "rivals (pe_created_ms p) pid (ps_pending st) + (if crowds call then 1 else 0) < MAX_PENDING"
    and call: "waits (pe_expires_ms p) pid call" and step: "pairing_step K ident call st = (st', r)"
  shows "map_of (ps_pending st') pid = Some p \<and> delivered_to pid [(call, r)] = []
    \<and> rivals (pe_created_ms p) pid (ps_pending st')
        \<le> rivals (pe_created_ms p) pid (ps_pending st) + (if crowds call then 1 else 0)"
proof (cases call)
  case (CallRequest t d1 d2 params)
  with call have t: "t \<le> pe_expires_ms p" and fresh: "random_hex d1 \<noteq> Some pid" by (auto simp: waits_def)
  have kept: "map_of (make_room (prune t (ps_pending st))) pid = Some p"
  proof (rule make_room_kept)
    show "map_of (prune t (ps_pending st)) pid = Some p" using ok look t by (simp add: map_of_prune_kept)
    show "pe_approved_token p \<noteq> None \<or> Suc (rivals (pe_created_ms p) pid (prune t (ps_pending st))) < MAX_PENDING"
      using room CallRequest rivals_prune [of "pe_created_ms p" pid t "ps_pending st"]
      by (simp add: crowds_def)
  qed (use ok in simp)
  have fewer: "rivals (pe_created_ms p) pid (make_room (prune t (ps_pending st)))
      \<le> rivals (pe_created_ms p) pid (ps_pending st)"
    using rivals_make_room [of "prune t (ps_pending st)"] rivals_prune ok by (meson hm_ok_pruned le_trans)
  from step [unfolded CallRequest] show ?thesis
  proof (cases rule: request_cases)
    case (stored pid' code)
    with fresh have "pid' \<noteq> pid" by auto
    with stored kept fewer show ?thesis
      using rivals_update [of "pe_created_ms p" pid pid' _ "make_room (prune t (ps_pending st))"]
      by (auto simp: CallRequest crowds_def update_conv' observer_defs intro: le_trans)
  qed (use look CallRequest in \<open>simp_all add: observer_defs\<close>)
next
  case (CallPoll t params)
  with call have t: "t \<le> pe_expires_ms p" by (simp add: waits_def)
  show ?thesis
  proof (cases "str_param ''pairing_id'' params = pid")
    case True
    with step CallPoll look open_ t ok show ?thesis
      by (auto simp: pairing_step_def pairing_poll_def observer_defs Let_def map_of_prune_kept crowds_def
          intro: rivals_prune trans_le_add1)
  next
    case False
    define g where "g = fst (case map_of (ps_pending st) (str_param ''pairing_id'' params) of
      None \<Rightarrow> (ps_pending st, JNull)
    | Some q \<Rightarrow> (if pe_approved_token q \<noteq> None \<or> pe_expires_ms q < t
        then AList.delete (str_param ''pairing_id'' params) (ps_pending st) else ps_pending st, JNull))"
    have g: "hm_ok g" "map_of g pid = Some p" "rivals (pe_created_ms p) pid g \<le> rivals (pe_created_ms p) pid (ps_pending st)"
      using ok look False by (auto simp: g_def delete_conv' rivals_delete split: option.splits)
    have "ps_pending st' = prune t g" "delivered_to pid [(call, r)] = []"
      using step CallPoll False
      by (auto simp: pairing_step_def pairing_poll_def observer_defs Let_def g_def split: option.splits)
    then show ?thesis
      using g open_ t map_of_prune_kept [OF g(1,2), of t] rivals_prune [of "pe_created_ms p" pid t g]
      by simp
  qed
next
  case (CallList t)
  with call have "t \<le> pe_expires_ms p" by (simp add: waits_def)
  with CallList step ok look show ?thesis
    using rivals_prune [of "pe_created_ms p" pid t "ps_pending st"]
    by (auto simp: pairing_step_def pairing_list_def observer_defs Let_def map_of_prune_kept)
next
  case (CallApprove t d1 d2 w params)
  with call have t: "t \<le> pe_expires_ms p" and other: "str_param ''pairing_id'' params \<noteq> pid"
    by (auto simp: waits_def)
  have kept: "map_of (prune t (ps_pending st)) pid = Some p" using ok look t by (simp add: map_of_prune_kept)
  have fewer: "rivals (pe_created_ms p) pid (prune t (ps_pending st)) \<le> rivals (pe_created_ms p) pid (ps_pending st)"
    by (rule rivals_prune)
  from step [unfolded CallApprove] show ?thesis
  proof (cases rule: approve_cases)
    case (approved q token rid)
    with kept fewer other show ?thesis
      using rivals_update [of "pe_created_ms p" pid "str_param ''pairing_id'' params" _ "prune t (ps_pending st)"]
      by (auto simp: CallApprove crowds_def update_conv' observer_defs intro: le_trans)
  qed (use kept fewer CallApprove in \<open>simp_all add: observer_defs crowds_def\<close>)
next
  case (CallRevoke w params)
  with step look show ?thesis
    by (auto simp: pairing_step_def observer_defs split: prod.splits)
qed

lemma waits_run:
  assumes "hm_ok (ps_pending st)" "map_of (ps_pending st) pid = Some p" "pe_approved_token p = None"
    and "rivals (pe_created_ms p) pid (ps_pending st) + length (filter (crowds \<circ> snd) calls) < MAX_PENDING"
    and "\<forall>(_, call) \<in> set calls. waits (pe_expires_ms p) pid call"
    and "pairing_run K calls st = (st', tr)"
  shows "hm_ok (ps_pending st') \<and> map_of (ps_pending st') pid = Some p \<and> delivered_to pid tr = []"
  using assms
proof (induction K calls st arbitrary: st' tr rule: pairing_run.induct)
  case (2 K ident call calls st)
  obtain st1 r where step: "pairing_step K ident call st = (st1, r)" by fastforce
  obtain tr1 where run: "pairing_run K calls st1 = (st', tr1)" and tr: "tr = (call, r) # tr1"
    using "2.prems"(6) step by (auto split: prod.splits)
  have one: "map_of (ps_pending st1) pid = Some p" "delivered_to pid [(call, r)] = []"
    "rivals (pe_created_ms p) pid (ps_pending st1)
        \<le> rivals (pe_created_ms p) pid (ps_pending st) + (if crowds call then 1 else 0)"
    using waits_step [OF "2.prems"(1-3) _ _ step] "2.prems"(4,5) by (auto split: if_splits)
  have "rivals (pe_created_ms p) pid (ps_pending st1) + length (filter (crowds \<circ> snd) calls) < MAX_PENDING"
    using one(3) "2.prems"(4) by (auto simp: comp_def split: if_splits)
  then have "hm_ok (ps_pending st') \<and> map_of (ps_pending st') pid = Some p \<and> delivered_to pid tr1 = []"
    using "2.IH" [OF step [symmetric] step_hm_ok [OF "2.prems"(1) step] one(1) "2.prems"(3) _ _ run] "2.prems"(5)
    by (auto simp: comp_def)
  with one(2) show ?case by (simp add: tr)
qed simp

text \<open>Approved, the entry stays until it is polled, and its record until it is revoked.\<close>

lemma uncollected_step:
  assumes ok: "hm_ok (ps_pending st)" and look: "map_of (ps_pending st) pid = Some p"
    and done_: "pe_approved_token p = Some token"
    and call: "uncollected pid call" and step: "pairing_step K ident call st = (st', r)"
  shows "map_of (ps_pending st') pid = Some p \<and> delivered_to pid [(call, r)] = []"
proof (cases call)
  case (CallRequest t d1 d2 params)
  with call have fresh: "random_hex d1 \<noteq> Some pid" by (auto simp: uncollected_def)
  have kept: "map_of (make_room (prune t (ps_pending st))) pid = Some p"
    using ok look done_ by (intro make_room_kept) (simp_all add: map_of_prune_kept)
  from step [unfolded CallRequest] show ?thesis
    by (cases rule: request_cases)
      (use look kept fresh CallRequest in \<open>auto simp: update_conv' observer_defs\<close>)
next
  case (CallPoll t params)
  with call have other: "str_param ''pairing_id'' params \<noteq> pid" by (auto simp: uncollected_def)
  have del: "map_of (AList.delete (str_param ''pairing_id'' params) (ps_pending st)) pid = Some p"
    using look other by (simp add: delete_conv')
  show ?thesis
    using step CallPoll other del look ok done_
    by (auto simp: pairing_step_def pairing_poll_def observer_defs Let_def map_of_prune_kept split: option.splits if_splits)
next
  case (CallList t)
  with step ok look done_ show ?thesis
    by (auto simp: pairing_step_def pairing_list_def observer_defs Let_def map_of_prune_kept)
next
  case (CallApprove t d1 d2 w params)
  have kept: "map_of (prune t (ps_pending st)) pid = Some p" using ok look done_ by (simp add: map_of_prune_kept)
  from step [unfolded CallApprove] show ?thesis
    by (cases rule: approve_cases)
      (use kept done_ CallApprove in \<open>auto simp: update_conv' observer_defs\<close>)
next
  case (CallRevoke w params)
  with step look show ?thesis
    by (auto simp: pairing_step_def observer_defs split: prod.splits)
qed

lemma unrevoked_step:
  assumes "t \<in> set (load_paired_tokens (ps_file st))" "\<not> revokes (pt_id t) call"
    and "pairing_step K ident call st = (st', r)"
  shows "t \<in> set (load_paired_tokens (ps_file st'))"
proof (cases call)
  case (CallApprove now d1 d2 w params)
  from assms(3) [unfolded this] show ?thesis
    by (cases rule: approve_cases) (use assms(1) in simp_all)
next
  case (CallRequest now d1 d2 params)
  from assms(3) [unfolded this] show ?thesis
    by (cases rule: request_cases) (use assms(1) in simp_all)
next
  case (CallRevoke w params)
  with assms(2) have "revoked_id params \<noteq> pt_id t" by (simp add: revokes_def)
  with assms(1,3) CallRevoke show ?thesis
    by (auto simp: pairing_step_def pairing_revoke_def revoked_id_def str_param_def get_as_def
        revoke_paired_token_def save_paired_tokens_def Let_def
        split: option.splits prod.splits sum.splits if_splits write_result.splits)
qed (use assms in \<open>auto simp: pairing_step_def split: prod.splits\<close>)

lemma uncollected_run:
  assumes "hm_ok (ps_pending st)" "map_of (ps_pending st) pid = Some p" "pe_approved_token p = Some token"
    and "\<forall>(_, call) \<in> set calls. uncollected pid call" "pairing_run K calls st = (st', tr)"
  shows "hm_ok (ps_pending st') \<and> map_of (ps_pending st') pid = Some p \<and> delivered_to pid tr = []"
  using assms
proof (induction K calls st arbitrary: st' tr rule: pairing_run.induct)
  case (2 K ident call calls st)
  obtain st1 r where step: "pairing_step K ident call st = (st1, r)" by fastforce
  obtain tr1 where run: "pairing_run K calls st1 = (st', tr1)" and tr: "tr = (call, r) # tr1"
    using "2.prems"(5) step by (auto split: prod.splits)
  have one: "map_of (ps_pending st1) pid = Some p" "delivered_to pid [(call, r)] = []"
    using uncollected_step [OF "2.prems"(1-3) _ step] "2.prems"(4) by auto
  then have "hm_ok (ps_pending st') \<and> map_of (ps_pending st') pid = Some p \<and> delivered_to pid tr1 = []"
    using "2.IH" [OF step [symmetric] step_hm_ok [OF "2.prems"(1) step] one(1) "2.prems"(3) _ run] "2.prems"(4)
    by auto
  with one(2) show ?case by (simp add: tr)
qed simp

lemma unrevoked_run:
  assumes "t \<in> set (load_paired_tokens (ps_file st))" "\<forall>(_, call) \<in> set calls. \<not> revokes (pt_id t) call"
    and "pairing_run K calls st = (st', tr)"
  shows "t \<in> set (load_paired_tokens (ps_file st'))"
  using assms
proof (induction K calls st arbitrary: st' tr rule: pairing_run.induct)
  case (2 K ident call calls st)
  obtain st1 r where step: "pairing_step K ident call st = (st1, r)" by fastforce
  obtain tr1 where run: "pairing_run K calls st1 = (st', tr1)"
    using "2.prems"(3) step by (auto split: prod.splits)
  show ?case
    using "2.IH" [OF step [symmetric] unrevoked_step [OF "2.prems"(1) _ step] _ run] "2.prems"(2) by auto
qed simp

lemma pairing_run_append:
  "pairing_run K (xs @ ys) st =
     (case pairing_run K xs st of (st1, tr1) \<Rightarrow>
        (case pairing_run K ys st1 of (st2, tr2) \<Rightarrow> (st2, tr1 @ tr2)))"
  by (induction K xs st rule: pairing_run.induct) (auto split: prod.splits)

text \<open>
  C34: The handshake works in the middle of other traffic. Suppose a request with an acceptable name is
  drawn an id and a code, its approval comes within the five minutes, is drawn a token and a record
  id and can write the file, and what happens meanwhile is any sequence of requests, polls (the
  requester's own too), listings, approvals and revocations within the five minutes in which nobody
  else is drawn the same id or approves it, and which, together with the approved pairings not yet collected and
  the pairings not older than this one that were there at the start, has fewer than 32 requests and
  approvals. (With 32 of them the entry may be evicted.) Whatever follows the approval, as long as
  no request is drawn the same id, the next poll of that id is handed the minted token. That is the
  only token ever handed out for the id, the pairing is consumed, and the gate accepts the token unless its
  record was revoked.
\<close>

theorem handshake_delivers:
  assumes "hm_ok (ps_pending st)"
    and "chars_count (client_name_of params) \<le> MAX_CLIENT_NAME" "now + PAIRING_TTL_MS \<le> u64_max"
    and "random_hex d1 = Some pid" "random_pairing_code d2 = Some code"
    and "random_hex d3 = Some token" "random_hex d4 = Some rid"
    and "str_param ''pairing_id'' prm = pid" "now' \<le> now + PAIRING_TTL_MS"
    and "\<forall>(_, call) \<in> set between. waits (now + PAIRING_TTL_MS) pid call"
    and "rivals now pid (ps_pending st) + length (filter (crowds \<circ> snd) between) < MAX_PENDING"
    and "\<forall>(_, call) \<in> set after. uncollected pid call"
  shows "\<exists>st' tr.
     pairing_run K
       ((i1, CallRequest now d1 d2 params) # between @
        (i2, CallApprove now' d3 d4 Written prm) # after @
        [(i3, CallPoll now'' prm)]) st = (st', tr)
     \<and> delivered (List.last tr) = [(pid, token)]
     \<and> filter (\<lambda>(k, _). k = pid) (concat (map delivered tr)) = [(pid, token)]
     \<and> map_of (ps_pending st') pid = None
     \<and> ((\<forall>(_, call) \<in> set after. \<not> revokes rid call) \<longrightarrow> is_paired_token (ps_file st') token)"
proof -
  let ?p = "\<lparr>pe_code = code, pe_client_name = client_name_of params, pe_created_ms = now,
       pe_expires_ms = now + PAIRING_TTL_MS, pe_approved_token = None\<rparr>"
  obtain r1 st1 where s1: "pairing_step K i1 (CallRequest now d1 d2 params) st = (st1, r1)"
    and st1: "st1 = st\<lparr>ps_pending := AList.update pid ?p (make_room (prune now (ps_pending st)))\<rparr>"
    using request_stores [OF assms(2-5)] by blast
  have ok1: "hm_ok (ps_pending st1)" and look1: "map_of (ps_pending st1) pid = Some ?p"
    using assms(1) by (simp_all add: st1 update_conv')
  have "rivals now pid (ps_pending st1) \<le> rivals now pid (ps_pending st)"
    using rivals_make_room [of "prune now (ps_pending st)"] rivals_prune assms(1)
    by (simp add: st1 rivals_update_own) (meson hm_ok_pruned le_trans)
  then have room: "rivals (pe_created_ms ?p) pid (ps_pending st1) + length (filter (crowds \<circ> snd) between) < MAX_PENDING"
    using assms(11) by simp
  obtain st2 tr2 where run2: "pairing_run K between st1 = (st2, tr2)" by fastforce
  have ok2: "hm_ok (ps_pending st2)" and look2: "map_of (ps_pending st2) pid = Some ?p"
    and del2: "delivered_to pid tr2 = []"
    using waits_run [OF ok1 look1 _ room _ run2] assms(10) by simp_all
  obtain st3 r3 where s3: "pairing_step K i2 (CallApprove now' d3 d4 Written prm) st2 = (st3, r3)"
    and ok3: "hm_ok (ps_pending st3)"
    and look3: "map_of (ps_pending st3) pid = Some (?p\<lparr>pe_approved_token := Some token\<rparr>)"
    and file3: "\<exists>t \<in> set (load_paired_tokens (ps_file st3)). pt_id t = rid \<and> pt_token t = token"
    using approve_marks [OF ok2 assms(8) look2 _ _ assms(6,7), of now' K i2] assms(9) by auto
  obtain st4 tr4 where run4: "pairing_run K after st3 = (st4, tr4)" by fastforce
  have ok4: "hm_ok (ps_pending st4)"
    and look4: "map_of (ps_pending st4) pid = Some (?p\<lparr>pe_approved_token := Some token\<rparr>)"
    and del4: "delivered_to pid tr4 = []"
    using uncollected_run [OF ok3 look3 _ assms(12) run4, of token] by simp_all
  obtain st5 r5 where s5: "pairing_step K i3 (CallPoll now'' prm) st4 = (st5, r5)"
    and poll: "delivered (CallPoll now'' prm, r5) = [(pid, token)]" "ps_file st5 = ps_file st4"
      "map_of (ps_pending st5) pid = None"
    using poll_delivers [OF ok4 assms(8) look4, of token K i3 now''] by auto
  have "is_paired_token (ps_file st5) token" if "\<forall>(_, call) \<in> set after. \<not> revokes rid call"
  proof -
    obtain t where "t \<in> set (load_paired_tokens (ps_file st3))" "pt_id t = rid" "pt_token t = token"
      using file3 by blast
    then show ?thesis
      using that unrevoked_run [OF _ _ run4, of t] poll(2) by (auto simp: is_paired_token_iff intro!: bexI [of _ t])
  qed
  moreover have "delivered (CallRequest now d1 d2 params, r1) = []"
    "delivered (CallApprove now' d3 d4 Written prm, r3) = []"
    by (simp_all add: delivered_def)
  ultimately show ?thesis
    using s1 run2 s3 run4 s5 poll del2 del4 by (simp add: pairing_run_append)
qed

section \<open>A concrete handshake\<close>

text \<open>A catalogue that answers, and a handshake in which the client polls twice.\<close>

definition sample_catalogue :: catalogue where
  "sample_catalogue = \<lparr>cat_code = (\<lambda>_. -32000), cat_name = (\<lambda>_. ''SERVER_ERROR'')\<rparr>"

definition sample_id :: json where
  "sample_id = JObject [(''pairing_id'', JString ''01'')]"

definition sample_calls :: "(json \<times> pairing_call) list" where
  "sample_calls =
     [(JNull, CallRequest 10 (Some [CHR 0x01]) (Some [CHR 0x01]) JNull),
      (JNull, CallApprove 20 (Some [CHR 0x02]) (Some [CHR 0x03]) Written sample_id),
      (JNull, CallPoll 30 sample_id),
      (JNull, CallPoll 40 sample_id)]"

lemma sample_hex [simp]:
  "random_hex (Some [CHR 0x01]) = Some ''01''" "random_hex (Some [CHR 0x02]) = Some ''02''"
  "random_hex (Some [CHR 0x03]) = Some ''03''"
  by (simp_all add: random_hex_def hex_byte_def hex_digit_def char_of_def bit_0 Let_def)

lemma sample_name [simp]: "client_name_of JNull = ''unknown controller''"
  by (simp add: client_name_of_def get_as_def)

lemma sample_param [simp]: "str_param ''pairing_id'' sample_id = ''01''"
  by (simp add: str_param_def get_as_def unwrap_or_def sample_id_def)

lemma sample_pairing_run:
  "\<exists>st' tr. pairing_run sample_catalogue sample_calls \<lparr>ps_pending = [], ps_file = None\<rparr> = (st', tr)
     \<and> concat (map delivered tr) = [(''01'', ''02'')] \<and> concat (map minted tr) = [(''01'', ''02'')]
     \<and> ps_pending st' = []"
  by (simp add: sample_calls_def pairing_step_def pairing_request_def pairing_approve_def pairing_poll_def
      chars_count_def MAX_CLIENT_NAME_def PAIRING_TTL_MS_def random_pairing_code_def make_room_def prune_def
      MAX_PENDING_def append_paired_token_def save_paired_tokens_def observer_defs Let_def)

theorem tokens_delivered_once_witness:
  "\<exists>st' tr. pairing_run sample_catalogue sample_calls \<lparr>ps_pending = [], ps_file = None\<rparr> = (st', tr)
     \<and> concat (map delivered tr) = [(''01'', ''02'')]
     \<and> mset (concat (map delivered tr)) \<subseteq># mset (concat (map minted tr))"
proof -
  obtain st' tr where "pairing_run sample_catalogue sample_calls \<lparr>ps_pending = [], ps_file = None\<rparr> = (st', tr)"
    "concat (map delivered tr) = [(''01'', ''02'')]"
    using sample_pairing_run by blast
  with tokens_delivered_once [of sample_catalogue sample_calls None st' tr] show ?thesis by blast
qed

theorem pairing_table_bounded_witness:
  "\<exists>st' tr. pairing_run sample_catalogue sample_calls \<lparr>ps_pending = [], ps_file = None\<rparr> = (st', tr)
     \<and> pairings_ok (ps_pending st')"
proof -
  obtain st' tr where "pairing_run sample_catalogue sample_calls \<lparr>ps_pending = [], ps_file = None\<rparr> = (st', tr)"
    using sample_pairing_run by blast
  with pairing_table_bounded [of "\<lparr>ps_pending = [], ps_file = None\<rparr>" sample_catalogue sample_calls st' tr]
  show ?thesis by (auto simp: pairings_ok_def)
qed

text \<open>
  Meanwhile the client polls too early and another client asks; after the approval the operator
  looks at the list and revokes the record of somebody else.
\<close>

theorem handshake_delivers_witness:
  "\<exists>st' tr.
     pairing_run sample_catalogue
       ((JNull, CallRequest 10 (Some [CHR 0x01]) (Some [CHR 0x01]) JNull) #
        [(JNull, CallPoll 12 sample_id),
         (JNull, CallRequest 15 (Some [CHR 0x02]) (Some [CHR 0x01]) JNull)] @
        (JNull, CallApprove 20 (Some [CHR 0x02]) (Some [CHR 0x03]) Written sample_id) #
        [(JNull, CallList 25),
         (JNull, CallRevoke Written (JObject [(''token_id'', JString ''07'')]))] @
        [(JNull, CallPoll 30 sample_id)])
       \<lparr>ps_pending = [], ps_file = None\<rparr> = (st', tr)
     \<and> delivered (List.last tr) = [(''01'', ''02'')]
     \<and> filter (\<lambda>(k, _). k = ''01'') (concat (map delivered tr)) = [(''01'', ''02'')]
     \<and> map_of (ps_pending st') ''01'' = None
     \<and> is_paired_token (ps_file st') ''02''"
  using handshake_delivers [of "\<lparr>ps_pending = [], ps_file = None\<rparr>" JNull 10 "Some [CHR 0x01]" "''01''"
      "Some [CHR 0x01]" "''000001''" "Some [CHR 0x02]" "''02''" "Some [CHR 0x03]" "''03''" sample_id 20
      "[(JNull, CallPoll 12 sample_id), (JNull, CallRequest 15 (Some [CHR 0x02]) (Some [CHR 0x01]) JNull)]"
      "[(JNull, CallList 25), (JNull, CallRevoke Written (JObject [(''token_id'', JString ''07'')]))]"
      sample_catalogue JNull JNull JNull 30]
  by (simp add: chars_count_def MAX_CLIENT_NAME_def PAIRING_TTL_MS_def MAX_PENDING_def random_pairing_code_def
      six_digits_def u32_from_le_bytes_def char_of_def bit_0 waits_def crowds_def rivals_def uncollected_def
      revokes_def revoked_id_def unwrap_or_def)

end
