(* ===== verification/Authorization.thy ===== *)
theory Authorization
  imports Pairing Rate_Limit
begin

text \<open>
  Who may do what on the service's three doors: \<open>POST /\<close> (JSON-RPC), \<open>POST /{method}\<close> (the wallet
  surface) and \<open>/ws\<close> (\<open>server.rs\<close>), with the policy of the wallet surface (\<open>wallet_authz.rs\<close>) and the
  relay guard (\<open>relay.rs\<close>).

  A door is a definition that follows the handler's early returns in their order and answers where
  the request goes: refused with a code, answered by the shell, or handed to the pairing handlers,
  the control dispatcher, the wallet or the node. What those then do is outside this theory, the
  pairing handlers excepted, which \<open>serve\<close> runs. The text of a request body is the JSON document
  \<open>serde_json\<close> parsed from it, or \<open>None\<close>.
\<close>

section \<open>The wallet policy\<close>

definition CONTROL_EQUIVALENT_PARITY_METHODS :: "(string \<times> string) list" where
  "CONTROL_EQUIVALENT_PARITY_METHODS =
     [(''add_peer'', ''control.chiaPeers.add''), (''remove_peer'', ''control.chiaPeers.remove'')]"

definition RETIRED_CUSTODY_PREFIXES :: "string list" where
  "RETIRED_CUSTODY_PREFIXES = [''wallet.'', ''auth.'']"

definition GATED_WALLET_MUTATIONS :: "string list" where
  "GATED_WALLET_MUTATIONS =
     [''send_xch'', ''bulk_send_xch'', ''send_cat'', ''bulk_send_cat'', ''combine'', ''split'',
      ''multi_send'', ''sign_coin_spends'', ''submit_transaction'',
      ''make_offer'', ''take_offer'', ''combine_offers'', ''cancel_offer'', ''create_did'',
      ''bulk_mint_nfts'', ''transfer_nfts'', ''transfer_dids'',
      ''mint_option'', ''transfer_options'', ''exercise_options'',
      ''resync_cat'', ''update_cat'', ''update_did'', ''update_option'', ''update_nft'',
      ''update_nft_collection'', ''redownload_nft'', ''increase_derivation_index'',
      ''add_peer'', ''remove_peer'', ''set_discover_peers'', ''set_target_peers'', ''set_network'',
      ''set_network_override'', ''set_delta_sync'', ''set_delta_sync_override'',
      ''set_change_address'', ''save_user_theme'', ''delete_user_theme'',
      ''tip.set_config'', ''tip.manual'', ''tip.notify_consumed'', ''tip.dev_tick'']"

datatype wallet_method_class = Retired | Mutation | MasterOnly | Other

definition master_tier_control_equivalent :: "contract \<Rightarrow> string \<Rightarrow> string option" where
  "master_tier_control_equivalent published m =
     (case find (\<lambda>(parity, _). parity = m) CONTROL_EQUIVALENT_PARITY_METHODS of
        None \<Rightarrow> None
      | Some (_, control) \<Rightarrow> if requires_master_token published control then Some control else None)"

definition wallet_classify :: "contract \<Rightarrow> string \<Rightarrow> wallet_method_class" where
  "wallet_classify published m =
     (if list_ex (\<lambda>p. prefix p m) RETIRED_CUSTODY_PREFIXES then Retired
      else if master_tier_control_equivalent published m \<noteq> None then MasterOnly
      else if m \<in> set GATED_WALLET_MUTATIONS then Mutation
      else Other)"

definition requires_authorization :: "contract \<Rightarrow> string \<Rightarrow> bool" where
  "requires_authorization published m =
     (case wallet_classify published m of
        Retired \<Rightarrow> True | Mutation \<Rightarrow> True | MasterOnly \<Rightarrow> True | Other \<Rightarrow> False)"

definition authorize ::
  "contract \<Rightarrow> string \<Rightarrow> string option \<Rightarrow> string \<Rightarrow> (string \<Rightarrow> bool) \<Rightarrow> bool"
where
  "authorize published m presented master is_paired =
     (let cls = wallet_classify published m in
      if cls = Other then True
      else if cls = Retired then False
      else if master = [] then False
      else case presented of
             Some tok \<Rightarrow> if cls = MasterOnly then ct_eq tok master else ct_eq tok master \<or> is_paired tok
           | None \<Rightarrow> False)"

section \<open>The relay guard\<close>

definition PROBE_ID_PREFIX :: string where
  "PROBE_ID_PREFIX = ''dig-node-loop-probe:''"

record relay_guard =
  rg_upstream :: string
  rg_probe_id :: string
  rg_relaying :: bool

definition relay_new :: "string \<Rightarrow> string option \<Rightarrow> relay_guard" where
  "relay_new upstream drawn =
     \<lparr>rg_upstream = upstream, rg_probe_id = PROBE_ID_PREFIX @ unwrap_or [] (random_hex drawn),
      rg_relaying = (upstream \<noteq> [])\<rparr>"

definition should_relay :: "relay_guard \<Rightarrow> bool" where
  "should_relay g \<longleftrightarrow> rg_upstream g \<noteq> [] \<and> rg_relaying g"

definition probe_request :: "relay_guard \<Rightarrow> json" where
  "probe_request g =
     JObject [(''jsonrpc'', JString ''2.0''), (''id'', JString (rg_probe_id g)),
              (''method'', JString ''dig.health''), (''params'', JObject [])]"

definition is_own_probe :: "relay_guard \<Rightarrow> json \<Rightarrow> bool" where
  "is_own_probe g ident \<longleftrightarrow> as_str ident = Some (rg_probe_id g)"

definition disable_after_loop :: "relay_guard \<Rightarrow> relay_guard" where
  "disable_after_loop g = g\<lparr>rg_relaying := False\<rparr>"

section \<open>The state and the predicates of the server\<close>

record app_state =
  as_control_token :: string
  as_pairings :: pending_pairings
  as_paired_file :: token_file
  as_control_ingress :: miss_rate_limiter
  as_reward_ingress :: miss_rate_limiter
  as_relay :: relay_guard
  as_node_upstream_off :: bool

definition CONTROL_INGRESS_BURST :: real where "CONTROL_INGRESS_BURST = 32"
definition CONTROL_INGRESS_REFILL_PER_SEC :: real where "CONTROL_INGRESS_REFILL_PER_SEC = 8"
definition REWARD_INGRESS_BURST :: real where "REWARD_INGRESS_BURST = 32"
definition REWARD_INGRESS_REFILL_PER_SEC :: real where "REWARD_INGRESS_REFILL_PER_SEC = 8"

definition control_ingress_admits ::
  "requestor_id \<Rightarrow> nat \<Rightarrow> miss_rate_limiter \<Rightarrow> bool \<times> miss_rate_limiter"
where
  "control_ingress_admits requestor now limiter =
     (if is_local requestor then (True, limiter) else limiter_check requestor now limiter)"

definition is_gated_chat_method :: "string \<Rightarrow> bool" where
  "is_gated_chat_method m \<longleftrightarrow> m = ''chat.send'' \<or> m = ''chat.poll''"

definition is_node_local_reward_read :: "string \<Rightarrow> bool" where
  "is_node_local_reward_read m \<longleftrightarrow>
     m = ''dig.getRewardProverStatus'' \<or> m = ''dig.listRewardDistributors''
     \<or> m = ''dig.getPayeeRewardClaimStatus''"

definition is_open_reward_chain_read :: "string \<Rightarrow> bool" where
  "is_open_reward_chain_read m \<longleftrightarrow>
     m = ''dig.getRewardDistributor'' \<or> m = ''dig.listRewardDistributorCommitments''"

definition is_landing_method :: "string \<Rightarrow> bool" where
  "is_landing_method m \<longleftrightarrow>
     m = ''cache.fetchAndCache'' \<or> m = ''cache.pushCapsule'' \<or> m = ''cache.listCached''
     \<or> is_node_local_reward_read m"

definition requires_http_token :: "string \<Rightarrow> bool" where
  "requires_http_token m \<longleftrightarrow>
     m = ''cache.fetchAndCache'' \<or> m = ''cache.pushCapsule'' \<or> m = ''cache.listCached''
     \<or> is_gated_chat_method m \<or> is_node_local_reward_read m"

definition chat_call_authorized :: "string option \<Rightarrow> string \<Rightarrow> (string \<Rightarrow> bool) \<Rightarrow> bool" where
  "chat_call_authorized token master is_paired =
     (if master = [] then False
      else case token of
             Some tok \<Rightarrow> ct_eq tok master \<or> is_paired tok
           | None \<Rightarrow> False)"

definition wallet_call_authorized :: "contract \<Rightarrow> app_state \<Rightarrow> string \<Rightarrow> string option \<Rightarrow> bool" where
  "wallet_call_authorized published st m token =
     authorize published m token (as_control_token st) (is_paired_token (as_paired_file st))"

definition control_call_authorized :: "contract \<Rightarrow> app_state \<Rightarrow> string \<Rightarrow> string option \<Rightarrow> bool" where
  "control_call_authorized published st m presented =
     (let master_ok = is_authorized m presented (as_control_token st);
          paired_ok = (\<not> requires_master_token published m \<and>
            (case presented of None \<Rightarrow> False | Some tok \<Rightarrow> is_paired_token (as_paired_file st) tok))
      in master_ok \<or> paired_ok)"

definition landing_call_authorized :: "app_state \<Rightarrow> string option \<Rightarrow> bool" where
  "landing_call_authorized st presented =
     (let master_ok = (case presented of None \<Rightarrow> False | Some tok \<Rightarrow> ct_eq tok (as_control_token st));
          paired_ok = (case presented of None \<Rightarrow> False | Some tok \<Rightarrow> is_paired_token (as_paired_file st) tok)
      in master_ok \<or> paired_ok)"

definition presented_wallet_token :: "string option \<Rightarrow> json option \<Rightarrow> string option" where
  "presented_wallet_token header body =
     (case header of
        Some t \<Rightarrow> if t \<noteq> [] then Some t else Option.bind body (get_as as_str ''_control_token'')
      | None \<Rightarrow> Option.bind body (get_as as_str ''_control_token''))"

definition ws_token :: "json \<Rightarrow> string option" where
  "ws_token frame = Option.bind (get_as as_str ''token'' frame) non_blank"

section \<open>Where a request goes\<close>

datatype destination =
  RefusedWith error_code
| Ignored
| ByShell string
| ToPairing string json
| ToControl string json
| ToWallet string
| ToNode string

fun is_object :: "json \<Rightarrow> bool" where
  "is_object (JObject _) = True"
| "is_object _ = False"

definition params_of :: "json \<Rightarrow> json" where
  "params_of req = unwrap_or (JObject []) (json_get ''params'' req)"

definition method_of :: "json \<Rightarrow> string" where
  "method_of req = unwrap_or [] (get_as as_str ''method'' req)"

text \<open>The inbound probe of this very process switches both relays off, before anything is answered.\<close>

definition note_probe :: "json \<Rightarrow> app_state \<Rightarrow> app_state" where
  "note_probe ident st =
     (if is_own_probe (as_relay st) ident
      then st\<lparr>as_relay := disable_after_loop (as_relay st), as_node_upstream_off := True\<rparr>
      else st)"

definition node_plane ::
  "nat \<Rightarrow> requestor_id \<Rightarrow> string \<Rightarrow> string option \<Rightarrow> app_state \<Rightarrow> app_state \<times> destination"
where
  "node_plane now requestor m presented st =
     (if is_landing_method m \<and> \<not> landing_call_authorized st presented
      then (st, RefusedWith Unauthorized)
      else
        let (admitted, st1) =
              (if is_open_reward_chain_read m
               then case control_ingress_admits requestor now (as_reward_ingress st) of
                      (ok, lmt) \<Rightarrow> (ok, st\<lparr>as_reward_ingress := lmt\<rparr>)
               else (True, st))
        in if \<not> admitted then (st1, RefusedWith RewardIngressLimited)
           else if is_gated_chat_method m
             \<and> \<not> chat_call_authorized presented (as_control_token st1) (is_paired_token (as_paired_file st1))
           then (st1, RefusedWith Unauthorized)
           else (st1, ToNode m))"

definition rpc ::
  "contract \<Rightarrow> nat \<Rightarrow> requestor_id \<Rightarrow> string option \<Rightarrow> json \<Rightarrow> app_state \<Rightarrow> app_state \<times> destination"
where
  "rpc published now requestor header req st0 =
     (if \<not> is_object req then (st0, RefusedWith InvalidRequest)
      else
        let m = method_of req in
        if m = ''rpc.discover'' then (st0, ByShell m)
        else
          let st = note_probe (request_id req) st0;
              presented = presented_token header req
          in
          if m = ''dig.health'' \<or> m = ''dig.methods'' \<or> m = ''dig.getCollateralEpoch''
          then (st, ByShell m)
          else if m = ''pairing.request'' \<or> m = ''pairing.poll'' then (st, ToPairing m (params_of req))
          else if is_control_method m then
            (if is_open_control_read m then
               (case control_ingress_admits requestor now (as_control_ingress st) of
                  (ok, lmt) \<Rightarrow>
                    let st1 = st\<lparr>as_control_ingress := lmt\<rparr>
                    in if ok then (st1, ToControl m (params_of req))
                       else (st1, RefusedWith ControlIngressLimited))
             else if control_call_authorized published st m presented
             then (st, ToControl m (params_of req))
             else (st, RefusedWith Unauthorized))
          else if requires_authorization published m then
            (if wallet_call_authorized published st m presented then (st, ToWallet m)
             else (st, RefusedWith Unauthorized))
          else node_plane now requestor m presented st)"

definition wallet_rpc ::
  "contract \<Rightarrow> string option \<Rightarrow> string \<Rightarrow> json option \<Rightarrow> app_state \<Rightarrow> app_state \<times> destination"
where
  "wallet_rpc published header m body st =
     (if requires_authorization published m
         \<and> \<not> wallet_call_authorized published st m (presented_wallet_token header body)
      then (st, RefusedWith Unauthorized)
      else (st, ToWallet m))"

definition ws_dispatch ::
  "contract \<Rightarrow> string \<Rightarrow> json \<Rightarrow> string option \<Rightarrow> app_state \<Rightarrow> app_state \<times> destination"
where
  "ws_dispatch published m params token st =
     (if is_control_method m then
        (if control_call_authorized published st m token then (st, ToControl m params)
         else (st, RefusedWith Unauthorized))
      else if m = ''pairing.request'' \<or> m = ''pairing.poll'' then (st, ToPairing m params)
      else if is_gated_chat_method m
        \<and> \<not> chat_call_authorized token (as_control_token st) (is_paired_token (as_paired_file st))
      then (st, RefusedWith Unauthorized)
      else if requires_authorization published m \<and> \<not> wallet_call_authorized published st m token
      then (st, RefusedWith Unauthorized)
      else (st, ToWallet m))"

definition ws_handle_text :: "contract \<Rightarrow> json option \<Rightarrow> app_state \<Rightarrow> app_state \<times> destination" where
  "ws_handle_text published frame st =
     (case frame of
        None \<Rightarrow> (st, Ignored)
      | Some v \<Rightarrow>
          if unwrap_or ''request'' (get_as as_str ''type'' v) \<noteq> ''request'' then (st, Ignored)
          else if method_of v = [] then (st, RefusedWith InvalidRequest)
          else ws_dispatch published (method_of v) (params_of v) (ws_token v) st)"

section \<open>The doors, and the pairing handlers behind them\<close>

text \<open>A request as it arrives, with what decides about it at its door.\<close>

datatype ingress =
  HttpRpc requestor_id "string option" json
| HttpWallet "string option" string "json option"
| WsText "json option"

definition door :: "contract \<Rightarrow> nat \<Rightarrow> ingress \<Rightarrow> app_state \<Rightarrow> app_state \<times> destination" where
  "door published now i st =
     (case i of
        HttpRpc requestor header req \<Rightarrow> rpc published now requestor header req st
      | HttpWallet header m body \<Rightarrow> wallet_rpc published header m body st
      | WsText frame \<Rightarrow> ws_handle_text published frame st)"

definition credential :: "ingress \<Rightarrow> string option" where
  "credential i =
     (case i of
        HttpRpc _ header req \<Rightarrow> presented_token header req
      | HttpWallet header _ body \<Rightarrow> presented_wallet_token header body
      | WsText frame \<Rightarrow> Option.bind frame ws_token)"

text \<open>The credential is the master token: there is one, and the comparison accepts it.\<close>

definition presents_master :: "ingress \<Rightarrow> app_state \<Rightarrow> bool" where
  "presents_master i st \<longleftrightarrow>
     as_control_token st \<noteq> [] \<and>
     (case credential i of None \<Rightarrow> False | Some tok \<Rightarrow> ct_eq tok (as_control_token st))"

text \<open>What the environment supplies to a pairing handler: two draws of random bytes and the write.\<close>

record supplied =
  sup_draw1 :: "string option"
  sup_draw2 :: "string option"
  sup_write :: write_result

definition pairing_call_of :: "nat \<Rightarrow> supplied \<Rightarrow> destination \<Rightarrow> pairing_call option" where
  "pairing_call_of now E d =
     (case d of
        ToPairing m params \<Rightarrow>
          if m = ''pairing.request'' then Some (CallRequest now (sup_draw1 E) (sup_draw2 E) params)
          else Some (CallPoll now params)
      | ToControl m params \<Rightarrow>
          if m = ''control.pairing.list'' then Some (CallList now)
          else if m = ''control.pairing.approve''
          then Some (CallApprove now (sup_draw1 E) (sup_draw2 E) (sup_write E) params)
          else if m = ''control.pairing.revoke'' then Some (CallRevoke (sup_write E) params)
          else None
      | _ \<Rightarrow> None)"

definition serve ::
  "contract \<Rightarrow> catalogue \<Rightarrow> nat \<Rightarrow> supplied \<Rightarrow> json \<Rightarrow> ingress \<Rightarrow> app_state
   \<Rightarrow> app_state \<times> (pairing_call \<times> json option) option"
where
  "serve published K now E ident i st =
     (case door published now i st of
        (st1, d) \<Rightarrow>
          (case pairing_call_of now E d of
             None \<Rightarrow> (st1, None)
           | Some call \<Rightarrow>
               (case pairing_step K ident call \<lparr>ps_pending = as_pairings st1, ps_file = as_paired_file st1\<rparr> of
                  (ps, r) \<Rightarrow>
                    (st1\<lparr>as_pairings := ps_pending ps, as_paired_file := ps_file ps\<rparr>, Some (call, r)))))"

text \<open>A run of requests, with what each did to the pairings.\<close>

fun serve_run ::
  "contract \<Rightarrow> catalogue \<Rightarrow> (nat \<times> supplied \<times> json \<times> ingress) list \<Rightarrow> app_state
   \<Rightarrow> app_state \<times> (ingress \<times> (pairing_call \<times> json option) option) list"
where
  "serve_run published K [] st = (st, [])"
| "serve_run published K ((now, E, ident, i) # reqs) st =
     (case serve published K now E ident i st of
        (st1, ev) \<Rightarrow> (case serve_run published K reqs st1 of (st2, tr) \<Rightarrow> (st2, (i, ev) # tr)))"

definition events :: "(ingress \<times> (pairing_call \<times> json option) option) list \<Rightarrow> (pairing_call \<times> json option) list" where
  "events tr = List.map_filter snd tr"

text \<open>
  What the pairing handshake relies on of the published contract: it may leave approval out, and
  when it publishes it, it requires the master token.
\<close>

definition approval_is_master :: "contract \<Rightarrow> bool" where
  "approval_is_master published \<longleftrightarrow> published ''control.pairing.approve'' \<noteq> Some False"

text \<open>A request whose token is 256 NUL characters.\<close>

definition nul_request :: "string \<Rightarrow> json" where
  "nul_request m =
     JObject [(''method'', JString m),
              (''params'', JObject [(''_control_token'', JString (replicate 256 nul))])]"

section \<open>What the doors leave alone\<close>

lemma note_probe_frame [simp]:
  "as_control_token (note_probe x st) = as_control_token st"
  "as_pairings (note_probe x st) = as_pairings st"
  "as_paired_file (note_probe x st) = as_paired_file st"
  "as_control_ingress (note_probe x st) = as_control_ingress st"
  "as_reward_ingress (note_probe x st) = as_reward_ingress st"
  by (simp_all add: note_probe_def)

lemma authorized_frame [simp]:
  "control_call_authorized published (note_probe x st) = control_call_authorized published st"
  "wallet_call_authorized published (note_probe x st) = wallet_call_authorized published st"
  "landing_call_authorized (note_probe x st) = landing_call_authorized st"
  by (simp_all add: control_call_authorized_def wallet_call_authorized_def landing_call_authorized_def fun_eq_iff split: option.split)

lemma node_plane_frame:
  "node_plane now r m tok st = (st', d) \<Longrightarrow>
     as_control_token st' = as_control_token st \<and> as_pairings st' = as_pairings st
     \<and> as_paired_file st' = as_paired_file st \<and> (d = ToNode m \<or> (\<exists>c. d = RefusedWith c))"
  by (auto simp: node_plane_def Let_def split: if_splits prod.splits)

text \<open>The cases of the JSON-RPC door.\<close>

lemma rpc_cases [consumes 1, case_names refused shell pairing control open_read wallet node]:
  assumes "rpc published now r header req st = (st', d)"
  obtains c where "d = RefusedWith c"
  | m where "d = ByShell m"
  | m where "d = ToPairing m (params_of req)" "m = method_of req"
  | m where "d = ToControl m (params_of req)" "m = method_of req" "is_control_method m"
      "\<not> is_open_control_read m" "control_call_authorized published st m (presented_token header req)"
  | m where "d = ToControl m (params_of req)" "m = method_of req" "is_control_method m" "is_open_control_read m"
  | m where "d = ToWallet m" "m = method_of req" "\<not> is_control_method m" "requires_authorization published m"
      "wallet_call_authorized published st m (presented_token header req)"
  | m where "d = ToNode m" "m = method_of req" "\<not> is_control_method m" "\<not> requires_authorization published m"
      "node_plane now r m (presented_token header req) (note_probe (request_id req) st) = (st', d)"
  using assms node_plane_frame [of now r "method_of req" "presented_token header req"
      "note_probe (request_id req) st" st' d]
  unfolding rpc_def Let_def by (auto split: if_splits prod.splits)

lemma door_frame:
  assumes "door published now i st = (st', d)"
  shows "as_control_token st' = as_control_token st \<and> as_pairings st' = as_pairings st
    \<and> as_paired_file st' = as_paired_file st"
proof (cases i)
  case (HttpRpc r header req)
  with assms show ?thesis
    by (auto simp: door_def rpc_def Let_def split: if_splits prod.splits dest: node_plane_frame)
next
  case (HttpWallet header m body)
  with assms show ?thesis by (auto simp: door_def wallet_rpc_def split: if_splits)
next
  case (WsText frame)
  with assms show ?thesis
    by (auto simp: door_def ws_handle_text_def ws_dispatch_def split: if_splits option.splits)
qed

section \<open>Classes\<close>

lemma alias_methods:
  "master_tier_control_equivalent published m \<noteq> None \<Longrightarrow> m = ''add_peer'' \<or> m = ''remove_peer''"
  by (auto simp: master_tier_control_equivalent_def CONTROL_EQUIVALENT_PARITY_METHODS_def split: if_splits)

lemma alias_MasterOnly:
  "master_tier_control_equivalent published m \<noteq> None \<Longrightarrow> wallet_classify published m = MasterOnly"
  using alias_methods [of published m]
  by (auto simp: wallet_classify_def RETIRED_CUSTODY_PREFIXES_def)

lemma retired_iff: "wallet_classify published m = Retired \<longleftrightarrow> prefix ''wallet.'' m \<or> prefix ''auth.'' m"
  by (auto simp: wallet_classify_def RETIRED_CUSTODY_PREFIXES_def)

lemma requires_authorization_iff:
  "requires_authorization published m \<longleftrightarrow> wallet_classify published m \<noteq> Other"
  by (auto simp: requires_authorization_def split: wallet_method_class.splits)

text \<open>A method of the wallet gate is none of the methods the earlier arms of the doors take.\<close>

lemma gated_wallet_disjoint:
  assumes "requires_authorization published m"
  shows "\<not> is_control_method m" "m \<noteq> ''rpc.discover''" "m \<noteq> ''dig.health''" "m \<noteq> ''dig.methods''"
    "m \<noteq> ''dig.getCollateralEpoch''" "m \<noteq> ''pairing.request''" "m \<noteq> ''pairing.poll''"
    "\<not> is_gated_chat_method m"
proof -
  have "prefix ''wallet.'' m \<or> prefix ''auth.'' m \<or> m \<in> set GATED_WALLET_MUTATIONS"
    using assms alias_methods [of published m]
    by (auto simp: requires_authorization_iff wallet_classify_def RETIRED_CUSTODY_PREFIXES_def
        GATED_WALLET_MUTATIONS_def split: if_splits)
  then consider r where "m = ''wallet.'' @ r" | r where "m = ''auth.'' @ r" | "m \<in> set GATED_WALLET_MUTATIONS"
    by (auto elim!: prefixE)
  then show "\<not> is_control_method m" "m \<noteq> ''rpc.discover''" "m \<noteq> ''dig.health''" "m \<noteq> ''dig.methods''"
    "m \<noteq> ''dig.getCollateralEpoch''" "m \<noteq> ''pairing.request''" "m \<noteq> ''pairing.poll''"
    "\<not> is_gated_chat_method m"
    by (cases; auto simp: is_control_method_def is_gated_chat_method_def GATED_WALLET_MUTATIONS_def)+
qed

lemma master_token_authorizes:
  "is_control_method m \<Longrightarrow> is_authorized m tok master \<longleftrightarrow>
     master \<noteq> [] \<and> (case tok of None \<Rightarrow> False | Some t \<Rightarrow> ct_eq t master)"
  by (simp add: is_authorized_def)

lemma ws_cases [consumes 1, case_names other control wallet]:
  assumes "ws_handle_text published frame st = (st', d)"
  obtains "\<forall>m p. d \<noteq> ToControl m p" "\<forall>m. d \<noteq> ToWallet m" "\<forall>m. d \<noteq> ToNode m"
  | m p v where "d = ToControl m p" "frame = Some v" "is_control_method m"
      "control_call_authorized published st m (ws_token v)"
  | m v where "d = ToWallet m" "frame = Some v" "\<not> is_control_method m"
      "\<not> requires_authorization published m \<or> wallet_call_authorized published st m (ws_token v)"
  using assms unfolding ws_handle_text_def ws_dispatch_def
  by (fastforce split: if_splits option.splits)

text \<open>What a door hands to the control dispatcher or to the wallet was authorised by its gate.\<close>

lemma door_control:
  assumes "door published now i st = (st', ToControl m p)"
  shows "is_control_method m \<and>
    (is_open_control_read m \<or> control_call_authorized published st m (credential i))"
proof (cases i)
  case (HttpRpc r header req)
  with assms have "rpc published now r header req st = (st', ToControl m p)" by (simp add: door_def)
  then show ?thesis using HttpRpc by (cases rule: rpc_cases) (auto simp: credential_def)
next
  case (HttpWallet header m' body)
  with assms show ?thesis by (auto simp: door_def wallet_rpc_def split: if_splits)
next
  case (WsText frame)
  with assms have "ws_handle_text published frame st = (st', ToControl m p)" by (simp add: door_def)
  then show ?thesis using WsText by (cases rule: ws_cases) (auto simp: credential_def)
qed

lemma door_wallet:
  assumes "door published now i st = (st', ToWallet m)" "requires_authorization published m"
  shows "wallet_call_authorized published st m (credential i)"
proof (cases i)
  case (HttpRpc r header req)
  with assms have "rpc published now r header req st = (st', ToWallet m)" by (simp add: door_def)
  then show ?thesis using HttpRpc by (cases rule: rpc_cases) (auto simp: credential_def)
next
  case (HttpWallet header m' body)
  with assms show ?thesis by (auto simp: door_def wallet_rpc_def credential_def split: if_splits)
next
  case (WsText frame)
  with assms have "ws_handle_text published frame st = (st', ToWallet m)" by (simp add: door_def)
  then show ?thesis using WsText assms(2) by (cases rule: ws_cases) (auto simp: credential_def)
qed

lemma door_node:
  assumes "door published now i st = (st', ToNode m)"
  shows "\<not> requires_authorization published m"
proof (cases i)
  case (HttpRpc r header req)
  with assms have "rpc published now r header req st = (st', ToNode m)" by (simp add: door_def)
  then show ?thesis by (cases rule: rpc_cases) auto
next
  case (HttpWallet header m' body)
  with assms show ?thesis by (auto simp: door_def wallet_rpc_def split: if_splits)
next
  case (WsText frame)
  with assms have "ws_handle_text published frame st = (st', ToNode m)" by (simp add: door_def)
  then show ?thesis by (cases rule: ws_cases) auto
qed

text \<open>
  C7: No door lets anything but the master token reach the master tier: when a request on any of the
  three doors is handed to the control dispatcher for a method that requires the master token (and is
  not one of the open reads), or to the wallet for a parity alias of such a method, its credential is
  the control token and the control token is not the empty fallback. A paired token never suffices.
\<close>

theorem master_tier_needs_master:
  assumes "door published now i st = (st', d)"
    and "(\<exists>p. d = ToControl m p) \<and> requires_master_token published m \<and> \<not> is_open_control_read m
      \<or> d = ToWallet m \<and> master_tier_control_equivalent published m \<noteq> None"
  shows "presents_master i st"
  using assms(2)
proof (elim disjE conjE exE)
  fix p assume d: "d = ToControl m p" and tier: "requires_master_token published m" "\<not> is_open_control_read m"
  with assms(1) have "is_control_method m" "control_call_authorized published st m (credential i)"
    using door_control [of published now i st st' m p] by auto
  with tier show ?thesis
    by (auto simp: control_call_authorized_def Let_def master_token_authorizes presents_master_def)
next
  assume "d = ToWallet m" and ali: "master_tier_control_equivalent published m \<noteq> None"
  moreover have "wallet_classify published m = MasterOnly" using ali by (rule alias_MasterOnly)
  ultimately show ?thesis
    using door_wallet [of published now i st st' m] assms(1)
    by (auto simp: wallet_call_authorized_def authorize_def presents_master_def requires_authorization_iff
        Let_def split: if_splits option.splits)
qed

text \<open>
  The retired custody namespaces are closed on every door, for every credential: no request whose
  method starts with \<open>wallet.\<close> or \<open>auth.\<close> is handed to the wallet or to the node.
\<close>

theorem retired_never_served:
  assumes "door published now i st = (st', d)" "prefix ''wallet.'' m \<or> prefix ''auth.'' m"
  shows "d \<noteq> ToWallet m \<and> d \<noteq> ToNode m"
proof -
  have cls: "wallet_classify published m = Retired" using assms(2) by (simp add: retired_iff)
  then have "\<not> wallet_call_authorized published st m tok" for tok
    by (simp add: wallet_call_authorized_def authorize_def Let_def)
  with cls assms(1) show ?thesis
    using door_wallet [of published now i st st' m] door_node [of published now i st st' m]
    by (auto simp: requires_authorization_iff)
qed

section \<open>What all the token gates promise\<close>

text \<open>
  The gates of the service have one contract: they let a request pass only for a credential that is
  the control token or a token of the file. Whatever follows from it holds for every gate.
\<close>

locale token_gate =
  fixes gate :: "app_state \<Rightarrow> string option \<Rightarrow> bool"
  assumes gate_sound: "gate st tok \<Longrightarrow>
    \<exists>t. tok = Some t \<and> (ct_eq t (as_control_token st) \<or> is_paired_token (as_paired_file st) t)"
begin

lemma needs_credential: "\<not> gate st None"
  using gate_sound by blast

lemma revoked_refused:
  assumes "revoke_paired_token w tid (as_paired_file st) = (file', Inr b)"
    and "\<not> ct_eq t (as_control_token st)"
    and "\<forall>r \<in> set (load_paired_tokens (as_paired_file st)). ct_eq t (pt_token r) \<longrightarrow> pt_id r = tid"
  shows "\<not> gate (st\<lparr>as_paired_file := file'\<rparr>) (Some t)"
proof -
  have "\<not> is_paired_token file' t"
    using load_revoked [OF assms(1)] assms(3) by (auto simp: is_paired_token_iff)
  with assms(2) gate_sound [of "st\<lparr>as_paired_file := file'\<rparr>" "Some t"] show ?thesis by auto
qed

end

interpretation landing_gate: token_gate landing_call_authorized
  by unfold_locales (auto simp: landing_call_authorized_def split: option.splits)

interpretation chat_gate: token_gate
  "\<lambda>st tok. chat_call_authorized tok (as_control_token st) (is_paired_token (as_paired_file st))"
  by unfold_locales (auto simp: chat_call_authorized_def split: option.splits if_splits)

interpretation control_gate: token_gate
  "\<lambda>st tok. is_control_method m \<and> control_call_authorized published st m tok" for published m
  by unfold_locales
    (auto simp: control_call_authorized_def is_authorized_def Let_def split: option.splits if_splits)

interpretation wallet_gate: token_gate
  "\<lambda>st tok. requires_authorization published m \<and> wallet_call_authorized published st m tok" for published m
  by unfold_locales
    (auto simp: wallet_call_authorized_def authorize_def requires_authorization_iff Let_def
      split: option.splits if_splits)

text \<open>
  C9: A revocation that answers without an error closes every gate to the revoked token at once: the
  control gate for every control method, the wallet gate for every gated wallet method, the gate of
  the holder-revealing methods and that of the chat methods refuse it, unless it is the control token
  or the token of another record.
\<close>

theorem revocation_closes_every_gate:
  assumes "revoke_paired_token w tid (as_paired_file st) = (file', Inr b)"
    and "\<not> ct_eq t (as_control_token st)"
    and "\<forall>r \<in> set (load_paired_tokens (as_paired_file st)). ct_eq t (pt_token r) \<longrightarrow> pt_id r = tid"
  shows "\<not> (is_control_method m \<and> control_call_authorized published (st\<lparr>as_paired_file := file'\<rparr>) m (Some t))
    \<and> \<not> (requires_authorization published m
         \<and> wallet_call_authorized published (st\<lparr>as_paired_file := file'\<rparr>) m (Some t))
    \<and> \<not> landing_call_authorized (st\<lparr>as_paired_file := file'\<rparr>) (Some t)
    \<and> \<not> chat_call_authorized (Some t) (as_control_token st) (is_paired_token file')"
  using control_gate.revoked_refused [OF assms] wallet_gate.revoked_refused [OF assms]
    landing_gate.revoked_refused [OF assms] chat_gate.revoked_refused [OF assms]
  by simp

section \<open>One rule behind three doors\<close>

lemma rpc_control_route:
  assumes "is_object req" "is_control_method (method_of req)" "\<not> is_open_control_read (method_of req)"
  shows "snd (rpc published now r header req st) = ToControl (method_of req) (params_of req) \<longleftrightarrow>
    control_call_authorized published st (method_of req) (presented_token header req)"
proof -
  have "method_of req \<notin> {''rpc.discover'', ''dig.health'', ''dig.methods'', ''dig.getCollateralEpoch'',
      ''pairing.request'', ''pairing.poll''}"
    using assms(2) by (auto simp: is_control_method_def)
  with assms show ?thesis by (auto simp: rpc_def Let_def)
qed

lemma rpc_wallet_route:
  assumes "is_object req" "requires_authorization published (method_of req)"
  shows "snd (rpc published now r header req st) = ToWallet (method_of req) \<longleftrightarrow>
    wallet_call_authorized published st (method_of req) (presented_token header req)"
  using assms gated_wallet_disjoint [OF assms(2)] by (auto simp: rpc_def Let_def)

text \<open>
  C37: The tier of a capability belongs to the capability, not to the door: with the same credential,
  \<open>POST /\<close> and \<open>/ws\<close> hand the same gated control methods to the dispatcher, and \<open>POST /\<close>, \<open>/ws\<close> and
  \<open>POST /{method}\<close> hand the same gated wallet methods to the wallet.
\<close>

theorem doors_agree:
  assumes "is_object req" "presented_wallet_token wheader body = presented_token header req"
  shows "(is_control_method (method_of req) \<and> \<not> is_open_control_read (method_of req) \<longrightarrow>
      (snd (rpc published now r header req st) = ToControl (method_of req) (params_of req)) =
      (snd (ws_dispatch published (method_of req) (params_of req) (presented_token header req) st)
         = ToControl (method_of req) (params_of req)))
    \<and> (requires_authorization published (method_of req) \<longrightarrow>
      (snd (rpc published now r header req st) = ToWallet (method_of req)) =
      (snd (ws_dispatch published (method_of req) (params_of req) (presented_token header req) st)
         = ToWallet (method_of req))
      \<and> (snd (rpc published now r header req st) = ToWallet (method_of req)) =
      (snd (wallet_rpc published wheader (method_of req) body st) = ToWallet (method_of req)))"
proof (intro conjI impI)
  assume m: "is_control_method (method_of req) \<and> \<not> is_open_control_read (method_of req)"
  then show "(snd (rpc published now r header req st) = ToControl (method_of req) (params_of req)) =
      (snd (ws_dispatch published (method_of req) (params_of req) (presented_token header req) st)
         = ToControl (method_of req) (params_of req))"
    using assms(1) by (simp add: rpc_control_route ws_dispatch_def)
next
  assume m: "requires_authorization published (method_of req)"
  note route = rpc_wallet_route [OF assms(1) m, of now r header st]
  show "(snd (rpc published now r header req st) = ToWallet (method_of req)) =
      (snd (ws_dispatch published (method_of req) (params_of req) (presented_token header req) st)
         = ToWallet (method_of req))"
    using m gated_wallet_disjoint [OF m] by (simp add: route ws_dispatch_def)
  show "(snd (rpc published now r header req st) = ToWallet (method_of req)) =
      (snd (wallet_rpc published wheader (method_of req) body st) = ToWallet (method_of req))"
    using m assms(2) by (simp add: route wallet_rpc_def)
qed

section \<open>The empty control token\<close>

lemma control_empty_master:
  "as_control_token st = [] \<Longrightarrow> is_control_method m \<Longrightarrow> control_call_authorized published st m tok \<longleftrightarrow>
     \<not> requires_master_token published m \<and> (\<exists>t. tok = Some t \<and> is_paired_token (as_paired_file st) t)"
  by (auto simp: control_call_authorized_def Let_def is_authorized_def split: option.splits)

lemma node_plane_chat:
  "node_plane now r m tok st = (st', ToNode m) \<Longrightarrow> is_gated_chat_method m \<Longrightarrow> as_control_token st \<noteq> []"
  by (auto simp: node_plane_def Let_def chat_call_authorized_def split: if_splits prod.splits)

text \<open>
  When no control token could be minted (the empty fallback), the control plane runs, apart from
  the open reads, only methods outside the master tier for a credential in the paired-token file; no
  gated wallet method reaches the wallet and no chat method reaches the node, whatever is presented.
\<close>

theorem empty_master_fails_closed:
  assumes "door published now i st = (st', d)" "as_control_token st = []"
  shows "(d = ToControl m p \<longrightarrow> is_open_control_read m \<or>
        \<not> requires_master_token published m
        \<and> (\<exists>t. credential i = Some t \<and> is_paired_token (as_paired_file st) t))
    \<and> (requires_authorization published m \<longrightarrow> d \<noteq> ToWallet m)
    \<and> (is_gated_chat_method m \<longrightarrow> d \<noteq> ToNode m)"
proof (intro conjI impI)
  assume "d = ToControl m p"
  with assms door_control [of published now i st st' m p]
  show "is_open_control_read m \<or> \<not> requires_master_token published m
      \<and> (\<exists>t. credential i = Some t \<and> is_paired_token (as_paired_file st) t)"
    by (auto simp: control_empty_master)
next
  assume "requires_authorization published m"
  with assms door_wallet [of published now i st st' m] show "d \<noteq> ToWallet m"
    by (auto simp: wallet_call_authorized_def authorize_def requires_authorization_iff Let_def split: if_splits)
next
  assume chat: "is_gated_chat_method m"
  show "d \<noteq> ToNode m"
  proof
    assume d: "d = ToNode m"
    show False
    proof (cases i)
      case (HttpRpc r header req)
      with assms(1) d have "rpc published now r header req st = (st', ToNode m)" by (simp add: door_def)
      then show False using assms(2) chat
        by (cases rule: rpc_cases) (auto dest: node_plane_chat)
    next
      case (HttpWallet header m' body)
      with assms(1) d show False by (auto simp: door_def wallet_rpc_def split: if_splits)
    next
      case (WsText frame)
      with assms(1) d have "ws_handle_text published frame st = (st', ToNode m)" by (simp add: door_def)
      then show False by (cases rule: ws_cases) auto
    qed
  qed
qed

lemma str_trim_nuls: "str_trim (replicate n nul) = replicate n nul"
proof -
  have ws: "\<forall>w \<in> set ws_seqs. hd w \<noteq> nul \<and> hd (rev w) \<noteq> nul"
    by (simp add: ws_seqs_def nul_def)
  have "strip_front ws_seqs (replicate n nul) = replicate n nul"
    using ws by (intro strip_front_id) (cases n; auto)
  moreover have "strip_front (map rev ws_seqs) (replicate n nul) = replicate n nul"
    using ws by (intro strip_front_id) (cases n; auto)
  ultimately show ?thesis by (simp add: str_trim_def)
qed

lemma nul_request_presents: "presented_token None (nul_request m) = Some (replicate 256 nul)"
proof -
  have "replicate 256 nul \<noteq> []" by simp
  then have "non_blank (replicate 256 nul) = Some (replicate 256 nul)"
    unfolding non_blank_def str_trim_nuls Let_def by (simp del: replicate_empty)
  then show ?thesis
    by (simp add: presented_token_def nul_request_def CONTROL_TOKEN_PARAM_def)
qed

lemma nul_request_method [simp]: "method_of (nul_request m) = m" "is_object (nul_request m)"
  by (simp_all add: nul_request_def method_of_def get_as_def unwrap_or_def)

lemma landing_disjoint:
  assumes "is_landing_method m"
  shows "\<not> is_control_method m" "m \<noteq> ''rpc.discover''" "m \<noteq> ''dig.health''" "m \<noteq> ''dig.methods''"
    "m \<noteq> ''dig.getCollateralEpoch''" "m \<noteq> ''pairing.request''" "m \<noteq> ''pairing.poll''"
    "\<not> is_gated_chat_method m" "\<not> is_open_reward_chain_read m" "\<not> requires_authorization published m"
proof -
  have m: "m \<in> {''cache.fetchAndCache'', ''cache.pushCapsule'', ''cache.listCached'',
      ''dig.getRewardProverStatus'', ''dig.listRewardDistributors'', ''dig.getPayeeRewardClaimStatus''}"
    using assms by (auto simp: is_landing_method_def is_node_local_reward_read_def)
  then show "\<not> is_control_method m" "m \<noteq> ''rpc.discover''" "m \<noteq> ''dig.health''" "m \<noteq> ''dig.methods''"
    "m \<noteq> ''dig.getCollateralEpoch''" "m \<noteq> ''pairing.request''" "m \<noteq> ''pairing.poll''"
    "\<not> is_gated_chat_method m" "\<not> is_open_reward_chain_read m"
    by (elim insertE emptyE;
        simp add: is_control_method_def is_gated_chat_method_def is_open_reward_chain_read_def)+
  have "m \<noteq> ''add_peer'' \<and> m \<noteq> ''remove_peer''" using m by auto
  then have "master_tier_control_equivalent published m = None"
    using alias_methods [of published m] by blast
  moreover have "\<not> list_ex (\<lambda>p. prefix p m) RETIRED_CUSTODY_PREFIXES"
    using m by (elim insertE emptyE) (simp_all add: RETIRED_CUSTODY_PREFIXES_def)
  moreover have "m \<notin> set GATED_WALLET_MUTATIONS"
    using m by (elim insertE emptyE) (simp_all add: GATED_WALLET_MUTATIONS_def)
  ultimately show "\<not> requires_authorization published m"
    by (simp add: requires_authorization_iff wallet_classify_def)
qed

text \<open>
  C36: The gate of the holder-revealing methods does not fail closed: on a node whose control token is
  the empty fallback, a request that presents 256 NUL characters as its token reaches the node for
  each of \<open>cache.fetchAndCache\<close>, \<open>cache.pushCapsule\<close>, \<open>cache.listCached\<close> and the three node-local reward
  reads, although nobody ever issued a token.
\<close>

theorem landing_gate_opens_on_nuls:
  assumes "as_control_token st = []" "is_landing_method m"
  shows "snd (rpc published now requestor None (nul_request m) st) = ToNode m"
proof -
  have "ct_eq (replicate 256 nul) []"
    using ct_eq_padded [of "[]" 1] by simp
  then have "landing_call_authorized st (Some (replicate 256 nul))"
    using assms(1) by (simp add: landing_call_authorized_def)
  with assms(2) landing_disjoint [OF assms(2)] show ?thesis
    by (simp add: rpc_def Let_def nul_request_presents node_plane_def)
qed

section \<open>Tokens and the master token\<close>

lemma serve_frame:
  "serve published K now E ident i st = (st', ev) \<Longrightarrow> as_control_token st' = as_control_token st"
  by (auto simp: serve_def split: prod.splits option.splits dest: door_frame)

lemma minted_is_approval:
  "x \<in> set (minted (call, r)) \<Longrightarrow> \<exists>now d1 d2 w params. call = CallApprove now d1 d2 w params"
  by (auto simp: minted_def split: pairing_call.splits)

lemma approval_is_control:
  "pairing_call_of now E d = Some (CallApprove n d1 d2 w params) \<Longrightarrow>
     \<exists>p. d = ToControl ''control.pairing.approve'' p"
  by (auto simp: pairing_call_of_def split: destination.splits if_splits)

lemma approve_master_tier:
  "approval_is_master published \<Longrightarrow>
     requires_master_token published ''control.pairing.approve''"
  by (cases "published ''control.pairing.approve''")
    (auto simp: approval_is_master_def requires_master_token_def requires_master_token_given_def
      KNOWN_UNPUBLISHED_CONTROL_METHODS_def LOCALLY_MASTER_TIER_CONTROL_METHODS_def)

lemma serve_mints_with_master:
  assumes contract: "approval_is_master published"
    and step: "serve published K now E ident i st = (st', Some ev)" and x: "x \<in> set (minted ev)"
  shows "presents_master i st"
proof -
  obtain st1 d where d: "door published now i st = (st1, d)" by fastforce
  with step obtain r where "pairing_call_of now E d = Some (fst ev)"
    by (auto simp: serve_def split: option.splits prod.splits)
  moreover obtain n d1 d2 w params where "fst ev = CallApprove n d1 d2 w params"
    using x minted_is_approval [of x "fst ev" "snd ev"] by auto
  ultimately obtain p where dest: "d = ToControl ''control.pairing.approve'' p"
    using approval_is_control by metis
  have "is_control_method ''control.pairing.approve'' \<and>
      control_call_authorized published st ''control.pairing.approve'' (credential i)"
    using door_control [OF d [unfolded dest]] by (simp add: is_open_control_read_def)
  then show ?thesis
    using approve_master_tier [OF contract]
    by (auto simp: control_call_authorized_def Let_def master_token_authorizes presents_master_def)
qed

lemma serve_accounts:
  assumes "hm_ok (as_pairings st)" "serve published K now E ident i st = (st', ev)"
  shows "hm_ok (as_pairings st') \<and>
    mset (concat (map delivered (events [(i, ev)]))) + mset (approved_pairs (as_pairings st'))
      \<subseteq># mset (approved_pairs (as_pairings st)) + mset (concat (map minted (events [(i, ev)])))"
proof -
  obtain st1 d where d: "door published now i st = (st1, d)" by fastforce
  have keep: "as_pairings st1 = as_pairings st" using door_frame [OF d] by simp
  show ?thesis
  proof (cases "pairing_call_of now E d")
    case None
    with assms d keep show ?thesis by (auto simp: serve_def events_def List.map_filter_simps)
  next
    case (Some call)
    let ?ps = "\<lparr>ps_pending = as_pairings st1, ps_file = as_paired_file st1\<rparr>"
    obtain ps r where step: "pairing_step K ident call ?ps = (ps, r)" by fastforce
    have "st' = st1\<lparr>as_pairings := ps_pending ps, as_paired_file := ps_file ps\<rparr>" "ev = Some (call, r)"
      using assms(2) d Some step by (simp_all add: serve_def)
    moreover have "hm_ok (ps_pending ?ps)" using assms(1) keep by simp
    note step_hm_ok [OF this step] step_accounts [OF this, of K ident call]
    ultimately show ?thesis
      using step keep by (simp add: call_accounts_def events_def List.map_filter_simps)
  qed
qed

lemma events_Cons: "events (x # tr) = events [x] @ events tr"
  by (cases "snd x") (simp_all add: events_def List.map_filter_simps)

lemma serve_run_accounts:
  assumes "hm_ok (as_pairings st)" "serve_run published K reqs st = (st', tr)"
  shows "mset (concat (map delivered (events tr))) + mset (approved_pairs (as_pairings st'))
      \<subseteq># mset (approved_pairs (as_pairings st)) + mset (concat (map minted (events tr)))"
  using assms
proof (induction published K reqs st arbitrary: st' tr rule: serve_run.induct)
  case (2 published K now E ident i reqs st)
  obtain st1 ev where step: "serve published K now E ident i st = (st1, ev)" by fastforce
  obtain tr1 where run: "serve_run published K reqs st1 = (st', tr1)" and tr: "tr = (i, ev) # tr1"
    using "2.prems"(2) step by (auto split: prod.splits)
  note one = serve_accounts [OF "2.prems"(1) step]
  note rest = "2.IH" [OF step [symmetric] conjunct1 [OF one] run]
  show ?case
    unfolding tr events_Cons [of "(i, ev)" tr1] map_append concat_append mset_append
    using subset_mset.add_mono [OF conjunct2 [OF one] rest] by (auto simp: ac_simps)
qed (simp add: events_def List.map_filter_simps)

lemma serve_run_mints:
  assumes "approval_is_master published"
    and "serve_run published K reqs st = (st', tr)" "(i, Some ev) \<in> set tr" "x \<in> set (minted ev)"
  shows "\<exists>st0. as_control_token st0 = as_control_token st \<and> presents_master i st0"
  using assms
proof (induction published K reqs st arbitrary: st' tr rule: serve_run.induct)
  case (2 published K now E ident j reqs st)
  obtain st1 ev1 where step: "serve published K now E ident j st = (st1, ev1)" by fastforce
  obtain tr1 where run: "serve_run published K reqs st1 = (st', tr1)" and tr: "tr = (j, ev1) # tr1"
    using "2.prems"(2) step by (auto split: prod.splits)
  show ?case
  proof (cases "(i, Some ev) = (j, ev1)")
    case True
    with serve_mints_with_master [OF "2.prems"(1), of K now E ident j st st1 ev x] step "2.prems"(4)
    show ?thesis by auto
  next
    case False
    with "2.prems"(3) tr have "(i, Some ev) \<in> set tr1" by auto
    with "2.IH" [OF step [symmetric] "2.prems"(1) run _ "2.prems"(4)] serve_frame [OF step]
    show ?thesis by simp
  qed
qed simp

text \<open>
  C8: Provided the published contract does not take approval off the master tier, every token a node
  that starts with no pending pairing ever hands out, over any sequence of requests at any of its
  doors, was minted, for the same pairing, by a request of that sequence whose credential was the
  (non-empty) control token.
\<close>

theorem handed_out_tokens_trace_to_master:
  assumes "approval_is_master published"
    and "as_pairings st = []" "serve_run published K reqs st = (st', tr)"
    and "(i, Some ev) \<in> set tr" "(pid, tok) \<in> set (delivered ev)"
  shows "\<exists>i' ev'. (i', Some ev') \<in> set tr \<and> (pid, tok) \<in> set (minted ev') \<and> presents_master i' st"
proof -
  have "mset (concat (map delivered (events tr))) \<subseteq># mset (concat (map minted (events tr)))"
    using serve_run_accounts [OF _ assms(3)] assms(2)
    by (simp add: approved_pairs_def List.map_filter_simps)
      (meson mset_subset_eq_add_left subset_mset.order_trans)
  moreover have "(pid, tok) \<in># mset (concat (map delivered (events tr)))"
    using assms(4,5) by (force simp: events_def map_filter_def)
  ultimately have "(pid, tok) \<in># mset (concat (map minted (events tr)))"
    by (rule mset_subset_eqD)
  then obtain i' ev' where "(i', Some ev') \<in> set tr" "(pid, tok) \<in> set (minted ev')"
    by (auto simp: events_def map_filter_def)
  with serve_run_mints [OF assms(1,3)] show ?thesis
    by (metis presents_master_def)
qed

section \<open>Concrete requests\<close>

definition sample_contract :: contract where
  "sample_contract m =
     (if m \<in> set [''control.pairing.list'', ''control.pairing.approve'', ''control.pairing.revoke'',
                    ''control.chiaPeers.add'', ''control.chiaPeers.remove'']
      then Some True else None)"

definition sample_app :: "string \<Rightarrow> app_state" where
  "sample_app token =
     \<lparr>as_control_token = token, as_pairings = [], as_paired_file = None,
      as_control_ingress = limiter_new CONTROL_INGRESS_BURST CONTROL_INGRESS_REFILL_PER_SEC,
      as_reward_ingress = limiter_new REWARD_INGRESS_BURST REWARD_INGRESS_REFILL_PER_SEC,
      as_relay = relay_new [] None, as_node_upstream_off = False\<rparr>"

definition ws_frame :: "string \<Rightarrow> json \<Rightarrow> string \<Rightarrow> json" where
  "ws_frame m params token =
     JObject [(''method'', JString m), (''params'', params), (''token'', JString token)]"

lemma sample_trim [simp]: "non_blank ''mt'' = Some ''mt''"
proof -
  have "str_trim ''mt'' = ''mt''" by (rule str_trim_graphic) simp
  then show ?thesis by (simp add: non_blank_def)
qed

lemma ws_frame_reads [simp]:
  "get_as as_str ''type'' (ws_frame m params token) = None" "method_of (ws_frame m params token) = m"
  "params_of (ws_frame m params token) = params" "ws_token (ws_frame m params token) = non_blank token"
  by (simp_all add: ws_frame_def get_as_def method_of_def params_of_def ws_token_def unwrap_or_def)

lemma ws_frame_more [simp]:
  "json_get ''type'' (ws_frame m params token) = None"
  "ws_frame m params token = ws_frame m' params' token' \<longleftrightarrow> m = m' \<and> params = params' \<and> token = token'"
  by (simp_all add: ws_frame_def)

lemma sample_approve_door:
  "door sample_contract now (WsText (Some (ws_frame ''control.pairing.approve'' params ''mt''))) (sample_app ''mt'')
     = (sample_app ''mt'', ToControl ''control.pairing.approve'' params)"
  by (simp add: door_def ws_handle_text_def ws_dispatch_def is_control_method_def unwrap_or_def
      control_call_authorized_def is_authorized_def Let_def sample_app_def)

theorem master_tier_needs_master_witness:
  "presents_master (WsText (Some (ws_frame ''control.pairing.approve'' JNull ''mt''))) (sample_app ''mt'')"
  by (rule master_tier_needs_master [OF sample_approve_door, where m = "''control.pairing.approve''"])
    (simp add: requires_master_token_def requires_master_token_given_def sample_contract_def
      is_open_control_read_def)

theorem retired_never_served_witness:
  "door sample_contract 0 (HttpWallet (Some ''mt'') ''wallet.unlock'' None) (sample_app ''mt'')
     = (sample_app ''mt'', RefusedWith Unauthorized)
   \<and> RefusedWith Unauthorized \<noteq> ToWallet ''wallet.unlock'' \<and> RefusedWith Unauthorized \<noteq> ToNode ''wallet.unlock''"
proof -
  have "wallet_classify sample_contract ''wallet.unlock'' = Retired" by (simp add: retired_iff)
  then have "door sample_contract 0 (HttpWallet (Some ''mt'') ''wallet.unlock'' None) (sample_app ''mt'')
      = (sample_app ''mt'', RefusedWith Unauthorized)"
    by (simp add: door_def wallet_rpc_def requires_authorization_iff wallet_call_authorized_def authorize_def)
  with retired_never_served [OF this, of "''wallet.unlock''"] show ?thesis by simp
qed

definition sample_send :: json where
  "sample_send = JObject [(''method'', JString ''send_xch'')]"

lemma send_gated: "requires_authorization published ''send_xch''"
  by (simp add: requires_authorization_iff wallet_classify_def GATED_WALLET_MUTATIONS_def)

theorem doors_agree_witness:
  "(snd (rpc sample_contract 0 Local (Some ''mt'') sample_send (sample_app ''mt'')) = ToWallet ''send_xch'') =
     (snd (ws_dispatch sample_contract ''send_xch'' (params_of sample_send)
        (presented_token (Some ''mt'') sample_send) (sample_app ''mt'')) = ToWallet ''send_xch'')
   \<and> (snd (rpc sample_contract 0 Local (Some ''mt'') sample_send (sample_app ''mt'')) = ToWallet ''send_xch'') =
     (snd (wallet_rpc sample_contract (Some ''mt'') ''send_xch'' None (sample_app ''mt'')) = ToWallet ''send_xch'')"
proof -
  have m: "method_of sample_send = ''send_xch''" "is_object sample_send"
    by (simp_all add: sample_send_def method_of_def get_as_def unwrap_or_def)
  have tok: "presented_wallet_token (Some ''mt'') None = presented_token (Some ''mt'') sample_send"
    by (simp add: presented_wallet_token_def presented_token_def)
  show ?thesis
    using conjunct2 [OF doors_agree [OF m(2) tok, of sample_contract 0 Local "sample_app ''mt''", unfolded m(1)]]
      send_gated [of sample_contract]
    by blast
qed

theorem empty_master_fails_closed_witness:
  "door sample_contract 0 (HttpWallet None ''send_xch'' None) (sample_app [])
     = (sample_app [], RefusedWith Unauthorized)
   \<and> RefusedWith Unauthorized \<noteq> ToWallet ''send_xch''"
proof -
  have "wallet_classify sample_contract ''send_xch'' \<noteq> Other"
    using send_gated [of sample_contract] by (simp add: requires_authorization_iff)
  then have "door sample_contract 0 (HttpWallet None ''send_xch'' None) (sample_app [])
      = (sample_app [], RefusedWith Unauthorized)"
    by (simp add: door_def wallet_rpc_def requires_authorization_iff wallet_call_authorized_def
        authorize_def sample_app_def Let_def)
  moreover have "as_control_token (sample_app []) = []" by (simp add: sample_app_def)
  ultimately show ?thesis
    using empty_master_fails_closed [of sample_contract 0 "HttpWallet None ''send_xch'' None" "sample_app []"
        "sample_app []" "RefusedWith Unauthorized" "''send_xch''" JNull] send_gated [of sample_contract]
    by simp
qed

theorem landing_gate_opens_on_nuls_witness:
  "snd (rpc sample_contract 0 Local None (nul_request ''cache.listCached'') (sample_app []))
     = ToNode ''cache.listCached''"
  by (rule landing_gate_opens_on_nuls) (simp_all add: sample_app_def is_landing_method_def)

definition sample_supply :: "char \<Rightarrow> char \<Rightarrow> supplied" where
  "sample_supply a b = \<lparr>sup_draw1 = Some [a], sup_draw2 = Some [b], sup_write = Written\<rparr>"

definition sample_requests :: "(nat \<times> supplied \<times> json \<times> ingress) list" where
  "sample_requests =
     [(10, sample_supply (CHR 0x01) (CHR 0x01), JNull, WsText (Some (ws_frame ''pairing.request'' JNull ''mt''))),
      (20, sample_supply (CHR 0x02) (CHR 0x03), JNull, WsText (Some (ws_frame ''control.pairing.approve'' sample_id ''mt''))),
      (30, sample_supply (CHR 0x01) (CHR 0x01), JNull, WsText (Some (ws_frame ''pairing.poll'' sample_id ''mt'')))]"

lemma sample_pairing_door:
  "m = ''pairing.request'' \<or> m = ''pairing.poll'' \<Longrightarrow>
   door sample_contract now (WsText (Some (ws_frame m params ''mt''))) st = (st, ToPairing m params)"
  by (auto simp: door_def ws_handle_text_def ws_dispatch_def is_control_method_def unwrap_or_def)

lemma sample_served:
  "\<exists>st' tr ev. serve_run sample_contract sample_catalogue sample_requests (sample_app ''mt'') = (st', tr)
     \<and> (WsText (Some (ws_frame ''pairing.poll'' sample_id ''mt'')), Some ev) \<in> set tr
     \<and> (''01'', ''02'') \<in> set (delivered ev)"
  by (simp add: sample_requests_def serve_def sample_pairing_door door_def ws_handle_text_def ws_dispatch_def
      is_control_method_def unwrap_or_def
      control_call_authorized_def is_authorized_def sample_app_def pairing_call_of_def sample_supply_def
      pairing_step_def pairing_request_def pairing_approve_def pairing_poll_def
      chars_count_def MAX_CLIENT_NAME_def PAIRING_TTL_MS_def random_pairing_code_def make_room_def prune_def
      MAX_PENDING_def append_paired_token_def save_paired_tokens_def observer_defs Let_def)

theorem handed_out_tokens_trace_to_master_witness:
  "\<exists>st' tr i' ev'. serve_run sample_contract sample_catalogue sample_requests (sample_app ''mt'') = (st', tr)
     \<and> (i', Some ev') \<in> set tr \<and> (''01'', ''02'') \<in> set (minted ev') \<and> presents_master i' (sample_app ''mt'')"
proof -
  have c: "approval_is_master sample_contract" by (simp add: approval_is_master_def sample_contract_def)
  have p: "as_pairings (sample_app ''mt'') = []" by (simp add: sample_app_def)
  obtain st' tr ev where
    "serve_run sample_contract sample_catalogue sample_requests (sample_app ''mt'') = (st', tr)"
    "(WsText (Some (ws_frame ''pairing.poll'' sample_id ''mt'')), Some ev) \<in> set tr"
    "(''01'', ''02'') \<in> set (delivered ev)"
    using sample_served by blast
  with handed_out_tokens_trace_to_master [OF c p this] show ?thesis by blast
qed

definition sample_token :: paired_token where
  "sample_token = \<lparr>pt_id = ''03'', pt_token = ''02'', pt_client_name = ''x'', pt_created_ms = 20\<rparr>"

theorem revocation_closes_every_gate_witness:
  "\<not> (is_control_method ''control.status''
      \<and> control_call_authorized sample_contract (sample_app ''mt''\<lparr>as_paired_file := saved_file []\<rparr>) ''control.status'' (Some ''02''))
    \<and> \<not> (requires_authorization sample_contract ''control.status''
         \<and> wallet_call_authorized sample_contract (sample_app ''mt''\<lparr>as_paired_file := saved_file []\<rparr>) ''control.status'' (Some ''02''))
    \<and> \<not> landing_call_authorized (sample_app ''mt''\<lparr>as_paired_file := saved_file []\<rparr>) (Some ''02'')
    \<and> \<not> chat_call_authorized (Some ''02'') ''mt'' (is_paired_token (saved_file []))"
proof -
  let ?st = "sample_app ''mt''\<lparr>as_paired_file := saved_file [sample_token]\<rparr>"
  have "revoke_paired_token Written ''03'' (as_paired_file ?st) = (saved_file [], Inr True)"
    by (simp add: revoke_paired_token_def save_paired_tokens_def sample_token_def Let_def)
  moreover have "\<not> ct_eq ''02'' (as_control_token ?st)"
    by (simp add: ct_eq_short sample_app_def)
  moreover have "\<forall>r \<in> set (load_paired_tokens (as_paired_file ?st)). ct_eq ''02'' (pt_token r) \<longrightarrow> pt_id r = ''03''"
    by (simp add: sample_token_def)
  ultimately show ?thesis
    using revocation_closes_every_gate [of Written "''03''" ?st "saved_file []" True "''02''"
        "''control.status''" sample_contract]
    by (simp add: sample_app_def)
qed

end
