(* ===== verification/Operator_Trust.thy ===== *)
theory Operator_Trust
  imports Authorization Mirror_Advertise
begin

text \<open>
  What stands between the operator and the token: the rendering of text an unauthenticated client
  chose (\<open>untrusted_text.rs\<close>), the trust in directories and files (\<open>security.rs\<close>, \<open>state.rs\<close>), and
  where the control token comes from (\<open>control.rs\<close>, \<open>server.rs\<close>).

  A Rust \<open>str\<close> is, in the rendering, the list of its scalar values; the display width is that of the
  \<open>unicode-width\<close> crate, an argument. A file of the disk is what the code reads of it: its text and
  its owner, or nothing.
\<close>

section \<open>Rendering untrusted text\<close>

definition scalars :: "string \<Rightarrow> nat list" where
  "scalars s = map of_char s"

definition CLIP_MARK :: "nat list" where
  "CLIP_MARK = scalars ''[clipped by dig-node]''"

definition REPLACEMENT :: nat where
  "REPLACEMENT = 0xFFFD"

definition is_control_scalar :: "nat \<Rightarrow> bool" where
  "is_control_scalar c \<longleftrightarrow> c \<le> 0x1F \<or> 0x7F \<le> c \<and> c \<le> 0x9F"

definition is_forbidden :: "nat \<Rightarrow> bool" where
  "is_forbidden c \<longleftrightarrow>
     is_control_scalar c
     \<or> c = 0x00AD \<or> c = 0x061C \<or> c = 0x180E
     \<or> 0x200B \<le> c \<and> c \<le> 0x200F
     \<or> 0x202A \<le> c \<and> c \<le> 0x202E
     \<or> 0x2060 \<le> c \<and> c \<le> 0x2064
     \<or> 0x2066 \<le> c \<and> c \<le> 0x206F
     \<or> c = 0xFEFF
     \<or> 0xFFF9 \<le> c \<and> c \<le> 0xFFFB
     \<or> 0x1D173 \<le> c \<and> c \<le> 0x1D17A
     \<or> 0xE0000 \<le> c \<and> c \<le> 0xE007F"

definition shown :: "nat \<Rightarrow> nat" where
  "shown c = (if is_forbidden c then REPLACEMENT else c)"

definition charged :: "(nat \<Rightarrow> nat option) \<Rightarrow> nat \<Rightarrow> nat" where
  "charged width c = max (unwrap_or 1 (width c)) 1"

text \<open>The loop: the text so far, the columns used, and whether it stopped early.\<close>

fun render_loop ::
  "(nat \<Rightarrow> nat option) \<Rightarrow> nat \<Rightarrow> nat list \<Rightarrow> nat list \<Rightarrow> nat \<Rightarrow> nat list \<times> bool"
where
  "render_loop width budget [] out used = (out, False)"
| "render_loop width budget (c # cs) out used =
     (let r = shown c; w = charged width r
      in if budget < used + w then (out, True)
         else render_loop width budget cs (out @ [r]) (used + w))"

definition render_untrusted :: "(nat \<Rightarrow> nat option) \<Rightarrow> nat list \<Rightarrow> nat \<Rightarrow> nat list" where
  "render_untrusted width raw budget =
     (case render_loop width budget raw [] 0 of
        (out, clipped) \<Rightarrow> if clipped then out @ CLIP_MARK else out)"

section \<open>Trust in paths\<close>

text \<open>What \<open>lstat\<close> tells of a component: owner, mode bits, and whether it is a symbolic link.\<close>

record metadata =
  md_uid :: nat
  md_mode :: nat
  md_is_symlink :: bool

text \<open>The masks are the octal 022, 777 and 600.\<close>

definition component_privileged :: "nat \<Rightarrow> nat \<Rightarrow> bool \<Rightarrow> bool" where
  "component_privileged uid mode is_symlink \<longleftrightarrow> \<not> is_symlink \<and> uid = 0 \<and> mode AND 0x12 = 0"

type_synonym lstat = "string list \<Rightarrow> metadata option"

definition component_is_privileged :: "lstat \<Rightarrow> string list \<Rightarrow> bool" where
  "component_is_privileged fs component =
     (case fs component of
        Some md \<Rightarrow> component_privileged (md_uid md) (md_mode md) (md_is_symlink md)
      | None \<Rightarrow> False)"

text \<open>An absolute path is the list of its names; its ancestors are its prefixes, itself first.\<close>

definition ancestors :: "string list \<Rightarrow> string list list" where
  "ancestors path = map (\<lambda>n. take n path) (rev [0..<Suc (length path)])"

definition first_unprivileged_ancestor :: "lstat \<Rightarrow> string list \<Rightarrow> string list option" where
  "first_unprivileged_ancestor fs dir = find (\<lambda>c. \<not> component_is_privileged fs c) (ancestors dir)"

definition dir_is_privileged :: "lstat \<Rightarrow> string list \<Rightarrow> bool" where
  "dir_is_privileged fs dir \<longleftrightarrow> first_unprivileged_ancestor fs dir = None"

definition unix_token_owner_is_trusted :: "nat \<Rightarrow> nat \<Rightarrow> nat \<Rightarrow> bool" where
  "unix_token_owner_is_trusted owner_uid mode current_euid =
     (if owner_uid = 0 then True
      else owner_uid = current_euid \<and> mode AND 0x1FF = 0x180)"

text \<open>The Unix branch of \<open>token_file_is_trusted\<close>; the effective user may be unknown.\<close>

definition token_file_is_trusted :: "metadata option \<Rightarrow> nat option \<Rightarrow> bool" where
  "token_file_is_trusted meta euid =
     (case meta of
        None \<Rightarrow> False
      | Some md \<Rightarrow>
          (case euid of
             Some e \<Rightarrow> unix_token_owner_is_trusted (md_uid md) (md_mode md) e
           | None \<Rightarrow> md_uid md = 0))"

definition SID_SYSTEM :: string where "SID_SYSTEM = ''S-1-5-18''"
definition SID_ADMINISTRATORS :: string where "SID_ADMINISTRATORS = ''S-1-5-32-544''"

definition windows_token_owner_is_trusted :: "string \<Rightarrow> bool \<Rightarrow> string option \<Rightarrow> bool" where
  "windows_token_owner_is_trusted owner_sid is_service current_user_sid =
     (if owner_sid = SID_SYSTEM \<or> owner_sid = SID_ADMINISTRATORS then True
      else if is_service then False
      else case current_user_sid of
             Some cur \<Rightarrow> cur \<noteq> [] \<and> owner_sid = cur
           | None \<Rightarrow> True)"

section \<open>The access list of the state directory\<close>

definition is_dangerous_group_sid :: "string \<Rightarrow> bool" where
  "is_dangerous_group_sid sid \<longleftrightarrow> sid \<in> set [''S-1-1-0'', ''S-1-5-11'', ''S-1-5-7'', ''S-1-5-32-545'']"

datatype acl_error =
  InheritedAce string
| GroupAce string
| OwnerUnread
| OwnerUntrusted string
| MissingAce string
| MissingGrant string
| UnexpectedPrincipal string

definition strip_prefix :: "string \<Rightarrow> string \<Rightarrow> string option" where
  "strip_prefix p s = (if prefix p s then Some (drop (length p) s) else None)"

definition ace_fields :: "string \<Rightarrow> string \<times> string" where
  "ace_fields rest =
     (case split_on (\<lambda>c. c = CHR '';'') rest of
        sid # inherited # _ \<Rightarrow> (str_trim sid, str_trim inherited)
      | [sid] \<Rightarrow> (str_trim sid, [])
      | [] \<Rightarrow> ([], []))"

fun scan_acl ::
  "string list \<Rightarrow> string option \<Rightarrow> string list \<Rightarrow> acl_error + (string option \<times> string list)"
where
  "scan_acl [] owner aces = Inr (owner, aces)"
| "scan_acl (l # ls) owner aces =
     (let line = str_trim l in
      case strip_prefix ''OWNER;'' line of
        Some rest \<Rightarrow> scan_acl ls (Some (str_trim rest)) aces
      | None \<Rightarrow>
          (case strip_prefix ''ACE;'' line of
             Some rest \<Rightarrow>
               (let (sid, inherited) = ace_fields rest in
                if sid = [] then scan_acl ls owner aces
                else if to_ascii_lowercase inherited = ''true'' then Inl (InheritedAce sid)
                else if is_dangerous_group_sid sid then Inl (GroupAce sid)
                else scan_acl ls owner (aces @ [sid]))
           | None \<Rightarrow> scan_acl ls owner aces))"

definition parse_acl_verify :: "string \<Rightarrow> string option \<Rightarrow> acl_error + unit" where
  "parse_acl_verify output read_grant =
     (case scan_acl (split_on (\<lambda>c. c = CHR 0x0A) output) None [] of
        Inl e \<Rightarrow> Inl e
      | Inr (None, _) \<Rightarrow> Inl OwnerUnread
      | Inr (Some owner, aces) \<Rightarrow>
          if owner \<noteq> SID_SYSTEM \<and> owner \<noteq> SID_ADMINISTRATORS then Inl (OwnerUntrusted owner)
          else if SID_SYSTEM \<notin> set aces then Inl (MissingAce SID_SYSTEM)
          else if SID_ADMINISTRATORS \<notin> set aces then Inl (MissingAce SID_ADMINISTRATORS)
          else
            case find (\<lambda>sid. sid \<notin> set aces) (case read_grant of None \<Rightarrow> [] | Some g \<Rightarrow> [g]) of
              Some sid \<Rightarrow> Inl (MissingGrant sid)
            | None \<Rightarrow>
                (case find (\<lambda>sid. \<not> (sid = SID_SYSTEM \<or> sid = SID_ADMINISTRATORS \<or> read_grant = Some sid)) aces of
                   Some sid \<Rightarrow> Inl (UnexpectedPrincipal sid)
                 | None \<Rightarrow> Inr ()))"

definition readback_decision :: "string option \<Rightarrow> string option \<Rightarrow> acl_error + unit" where
  "readback_decision lines read_grant =
     (case lines of Some l \<Rightarrow> parse_acl_verify l read_grant | None \<Rightarrow> Inr ())"

section \<open>Choosing the directory and the token\<close>

definition choose_state_dir ::
  "'d option \<Rightarrow> 'd list \<Rightarrow> ('d \<Rightarrow> bool) \<Rightarrow> ('d \<Rightarrow> bool) \<Rightarrow> bool \<Rightarrow> 'd \<Rightarrow> 'd"
where
  "choose_state_dir override_dir dirs dir_exists can_create is_service legacy =
     (case override_dir of
        Some d \<Rightarrow> d
      | None \<Rightarrow>
          (case find dir_exists dirs of
             Some c \<Rightarrow> c
           | None \<Rightarrow>
               if is_service
               then (case find can_create dirs of Some c \<Rightarrow> c | None \<Rightarrow> legacy)
               else legacy))"

text \<open>
  \<open>load_or_create_token_at\<close>: the file's text (when it could be read), whether its owner is trusted,
  the bytes drawn, and whether the directory and the file could be written. The answer is the new
  text of the file and the token or an error.
\<close>

record token_site =
  site_text :: "string option"
  site_trusted :: bool
  site_drawn :: "string option"
  site_writable :: bool

definition load_or_create_token_at :: "token_site \<Rightarrow> string option \<times> string option" where
  "load_or_create_token_at S =
     (let create = (case random_hex (site_drawn S) of
                      None \<Rightarrow> None
                    | Some t \<Rightarrow> if site_writable S then Some t else None)
      in case site_text S of
           Some txt \<Rightarrow>
             let t = str_trim txt in
             if t \<noteq> [] \<and> site_trusted S then (Some txt, Some t)
             else (case create of
                     Some t' \<Rightarrow> (Some t', Some t')
                   | None \<Rightarrow> (if t = [] then Some txt else None, None))
         | None \<Rightarrow> (case create of Some t' \<Rightarrow> (Some t', Some t') | None \<Rightarrow> (None, None)))"

text \<open>
  \<open>resolve_state_dir_and_token\<close>: the token the node holds. The fall-back directory is private to the
  process; a failure there too leaves the empty string.
\<close>

definition resolve_token :: "bool \<Rightarrow> bool \<Rightarrow> token_site \<Rightarrow> token_site \<Rightarrow> string" where
  "resolve_token is_service dir_secured primary ephemeral =
     (let fallback = unwrap_or [] (snd (load_or_create_token_at ephemeral)) in
      if is_service \<and> \<not> dir_secured then fallback
      else case snd (load_or_create_token_at primary) of
             Some t \<Rightarrow> t
           | None \<Rightarrow> fallback)"

section \<open>What is rendered\<close>

definition columns :: "(nat \<Rightarrow> nat option) \<Rightarrow> nat list \<Rightarrow> nat" where
  "columns width cs = sum_list (map (charged width) cs)"

lemma shown_allowed [simp]: "\<not> is_forbidden (shown c)"
  by (simp add: shown_def REPLACEMENT_def is_forbidden_def is_control_scalar_def)

lemma clip_mark_allowed: "c \<in> set CLIP_MARK \<Longrightarrow> \<not> is_forbidden c"
  by (auto simp: CLIP_MARK_def scalars_def is_forbidden_def is_control_scalar_def)

lemma shown_idem [simp]: "shown (shown c) = shown c"
  by (simp add: shown_def [of "shown c"])

lemma columns_simps [simp]:
  "columns width [] = 0" "columns width (c # cs) = charged width c + columns width cs"
  by (simp_all add: columns_def)

lemma render_loop_fits:
  "used + columns width (map shown cs) \<le> budget \<Longrightarrow>
     render_loop width budget cs out used = (out @ map shown cs, False)"
  by (induction cs arbitrary: out used) (auto simp: Let_def)

lemma render_loop_clips:
  "used \<le> budget \<Longrightarrow> budget < used + columns width (map shown cs) \<Longrightarrow>
     \<exists>k < length cs. render_loop width budget cs out used = (out @ map shown (take k cs), True)
       \<and> used + columns width (map shown (take k cs)) \<le> budget
       \<and> budget < used + columns width (map shown (take (Suc k) cs))"
proof (induction cs arbitrary: out used)
  case (Cons c cs)
  show ?case
  proof (cases "budget < used + charged width (shown c)")
    case True
    with Cons.prems show ?thesis by (intro exI [of _ 0]) (simp add: Let_def)
  next
    case False
    with Cons.prems obtain k where "k < length cs"
      "render_loop width budget cs (out @ [shown c]) (used + charged width (shown c)) =
         ((out @ [shown c]) @ map shown (take k cs), True)"
      "used + charged width (shown c) + columns width (map shown (take k cs)) \<le> budget"
      "budget < used + charged width (shown c) + columns width (map shown (take (Suc k) cs))"
      using Cons.IH [of "used + charged width (shown c)" "out @ [shown c]"] by auto
    with False show ?thesis by (intro exI [of _ "Suc k"]) (simp add: Let_def add.assoc)
  qed
qed simp

text \<open>
  The rendering of a client-chosen name contains no control, format or direction character. A name
  that fits its budget of columns is shown whole, character for character; one that does not is cut
  at the first character that would not fit and ends in the clip mark. No character is free: each
  is charged at least one column, so the name shown never has more characters than the budget.
\<close>

theorem render_untrusted_spec:
  "(\<nexists>c. c \<in> set (render_untrusted width raw budget) \<and> is_forbidden c)
   \<and> (if columns width (map shown raw) \<le> budget
      then render_untrusted width raw budget = map shown raw
      else \<exists>k < length raw. k \<le> budget
         \<and> render_untrusted width raw budget = map shown (take k raw) @ CLIP_MARK
         \<and> columns width (map shown (take k raw)) \<le> budget
         \<and> budget < columns width (map shown (take (Suc k) raw)))"
proof (cases "columns width (map shown raw) \<le> budget")
  case True
  then show ?thesis
    using render_loop_fits [of 0 width raw budget "[]"] by (auto simp: render_untrusted_def)
next
  case False
  have many: "length cs \<le> columns width cs" for cs
    by (induction cs) (auto simp: charged_def max_def)
  from False obtain k where k: "k < length raw"
    "render_loop width budget raw [] 0 = (map shown (take k raw), True)"
    "columns width (map shown (take k raw)) \<le> budget"
    "budget < columns width (map shown (take (Suc k) raw))"
    using render_loop_clips [of 0 budget width raw "[]"] by auto
  have "k \<le> budget"
    using many [of "map shown (take k raw)"] k(1,3) by simp
  with False k clip_mark_allowed show ?thesis
    by (auto simp: render_untrusted_def)
qed

text \<open>The mark is not evidence of a cut: a name that is the mark itself is shown as it is.\<close>

lemma clip_mark_forgeable:
  assumes "columns width CLIP_MARK \<le> budget"
  shows "render_untrusted width CLIP_MARK budget = CLIP_MARK"
proof -
  have shown_mark: "map shown CLIP_MARK = CLIP_MARK"
    using clip_mark_allowed by (intro map_idI) (simp add: shown_def)
  with assms render_loop_fits [of 0 width CLIP_MARK budget "[]"] show ?thesis
    by (simp add: render_untrusted_def)
qed

section \<open>Paths and owners\<close>

lemma set_ancestors: "set (ancestors path) = {p. prefix p path}"
proof -
  have "p \<in> set (ancestors path)" if "prefix p path" for p
    using that unfolding ancestors_def
    by (force simp: prefix_def intro: image_eqI [of _ _ "length p"])
  then show ?thesis by (auto simp: ancestors_def take_is_prefix)
qed

text \<open>A directory is trusted exactly when the root, the directory and everything between are.\<close>

lemma dir_is_privileged_iff:
  "dir_is_privileged fs dir \<longleftrightarrow> (\<forall>p. prefix p dir \<longrightarrow> component_is_privileged fs p)"
  unfolding dir_is_privileged_def first_unprivileged_ancestor_def find_None_iff
  using set_ancestors [of dir] by blast

lemma dir_is_privileged_parent:
  "dir_is_privileged fs dir \<Longrightarrow> prefix parent dir \<Longrightarrow> dir_is_privileged fs parent"
  by (meson dir_is_privileged_iff prefix_order.trans)

section \<open>The access list\<close>

text \<open>The principals and the inheritance flags the lines of a readback name.\<close>

definition ace_of :: "string \<Rightarrow> (string \<times> string) option" where
  "ace_of l =
     (if prefix ''OWNER;'' (str_trim l) then None
      else map_option ace_fields (strip_prefix ''ACE;'' (str_trim l)))"

lemma strip_prefix_None: "strip_prefix p s = None \<longleftrightarrow> \<not> prefix p s"
  by (simp add: strip_prefix_def)

lemma scan_acl_Cons:
  "scan_acl (l # ls) owner aces =
     (case ace_of l of
        None \<Rightarrow> scan_acl ls (if prefix ''OWNER;'' (str_trim l)
                           then Some (str_trim (drop (length ''OWNER;'') (str_trim l))) else owner) aces
      | Some (sid, inh) \<Rightarrow>
          if sid = [] then scan_acl ls owner aces
          else if to_ascii_lowercase inh = ''true'' then Inl (InheritedAce sid)
          else if is_dangerous_group_sid sid then Inl (GroupAce sid)
          else scan_acl ls owner (aces @ [sid]))"
  by (simp add: ace_of_def Let_def strip_prefix_def [of "''OWNER;''"] split: option.split prod.split)

lemma scan_acl_sound:
  assumes "scan_acl ls owner aces = Inr (owner', aces')"
  shows "set aces \<subseteq> set aces' \<and>
    (\<forall>l \<in> set ls. \<forall>sid inh. ace_of l = Some (sid, inh) \<longrightarrow> sid \<noteq> [] \<longrightarrow>
       to_ascii_lowercase inh \<noteq> ''true'' \<and> \<not> is_dangerous_group_sid sid \<and> sid \<in> set aces')"
  using assms
proof (induction ls arbitrary: owner aces)
  case (Cons l ls)
  show ?case
  proof (cases "ace_of l")
    case None
    with Cons.prems Cons.IH [of "if prefix ''OWNER;'' (str_trim l)
        then Some (str_trim (drop (length ''OWNER;'') (str_trim l))) else owner" aces]
    show ?thesis by (simp add: scan_acl_Cons del: scan_acl.simps)
  next
    case (Some ace)
    obtain sid inh where ace: "ace_of l = Some (sid, inh)" using Some by (cases ace) simp
    show ?thesis
    proof (cases "sid = []")
      case True
      with Cons.prems Cons.IH [of owner aces] ace show ?thesis
        by (simp add: scan_acl_Cons del: scan_acl.simps)
    next
      case False
      with Cons.prems ace
      have "to_ascii_lowercase inh \<noteq> ''true''" "\<not> is_dangerous_group_sid sid"
        and "scan_acl ls owner (aces @ [sid]) = Inr (owner', aces')"
        by (simp_all add: scan_acl_Cons del: scan_acl.simps split: if_splits)
      with Cons.IH [of owner "aces @ [sid]"] ace show ?thesis by auto
    qed
  qed
qed simp

text \<open>
  When the readback of the state directory's access list is accepted, every principal it names is
  the system, the administrators or the one user the grant was for; no entry is inherited, and none
  names everyone, the users, the authenticated users or the anonymous logon.
\<close>

theorem accepted_acl_is_tight:
  assumes "parse_acl_verify output read_grant = Inr ()"
    and "l \<in> set (split_on (\<lambda>c. c = CHR 0x0A) output)" "ace_of l = Some (sid, inh)" "sid \<noteq> []"
  shows "(sid = SID_SYSTEM \<or> sid = SID_ADMINISTRATORS \<or> read_grant = Some sid)
    \<and> to_ascii_lowercase inh \<noteq> ''true'' \<and> \<not> is_dangerous_group_sid sid"
proof -
  obtain owner aces where scan: "scan_acl (split_on (\<lambda>c. c = CHR 0x0A) output) None [] = Inr (owner, aces)"
    using assms(1) by (cases "scan_acl (split_on (\<lambda>c. c = CHR 0x0A) output) None []")
      (auto simp: parse_acl_verify_def)
  have "sid \<in> set aces" "to_ascii_lowercase inh \<noteq> ''true''" "\<not> is_dangerous_group_sid sid"
    using scan_acl_sound [OF scan] assms(2-4) by blast+
  moreover have "find (\<lambda>sid. \<not> (sid = SID_SYSTEM \<or> sid = SID_ADMINISTRATORS \<or> read_grant = Some sid)) aces = None"
    using assms(1) scan unfolding parse_acl_verify_def by (auto split: option.splits if_splits)
  ultimately show ?thesis unfolding find_None_iff by blast
qed

section \<open>The control token\<close>

lemma random_hex_nonempty: "random_hex drawn = Some t \<Longrightarrow> drawn \<noteq> Some [] \<Longrightarrow> t \<noteq> []"
  by (cases drawn) (auto simp: random_hex_def hex_byte_def Let_def neq_Nil_conv)

text \<open>A token of a file that is not trusted is never used: the token is freshly drawn, or there is none.\<close>

lemma untrusted_token_not_used:
  "\<not> site_trusted S \<Longrightarrow> snd (load_or_create_token_at S) = Some t \<Longrightarrow> random_hex (site_drawn S) = Some t"
  by (auto simp: load_or_create_token_at_def Let_def split: option.splits if_splits)

lemma token_nonempty:
  "site_drawn S \<noteq> Some [] \<Longrightarrow> snd (load_or_create_token_at S) = Some t \<Longrightarrow> t \<noteq> []"
  by (auto simp: load_or_create_token_at_def Let_def split: option.splits if_splits dest: random_hex_nonempty)

text \<open>
  The token a node ends up with is empty exactly when neither the directory it may use nor its
  private fall-back directory could give one. In particular a service whose machine directory could
  not be secured still gets a usable token, written to the fall-back directory, whenever that
  directory can be written.
\<close>

theorem control_token_empty_iff:
  assumes "site_drawn primary \<noteq> Some []" "site_drawn ephemeral \<noteq> Some []"
  shows "resolve_token is_service secured primary ephemeral = [] \<longleftrightarrow>
    snd (load_or_create_token_at ephemeral) = None
    \<and> (is_service \<and> \<not> secured \<or> snd (load_or_create_token_at primary) = None)"
  using token_nonempty [OF assms(1)] token_nonempty [OF assms(2)]
  by (auto simp: resolve_token_def Let_def unwrap_or_def split: option.splits)

theorem control_token_empty_iff_witness:
  "resolve_token True False
     \<lparr>site_text = None, site_trusted = True, site_drawn = Some ''a'', site_writable = True\<rparr>
     \<lparr>site_text = None, site_trusted = True, site_drawn = Some ''a'', site_writable = False\<rparr> = []
   \<longleftrightarrow> snd (load_or_create_token_at
       \<lparr>site_text = None, site_trusted = True, site_drawn = Some ''a'', site_writable = False\<rparr>) = None
     \<and> (True \<and> \<not> False \<or> snd (load_or_create_token_at
       \<lparr>site_text = None, site_trusted = True, site_drawn = Some ''a'', site_writable = True\<rparr>) = None)"
  by (rule control_token_empty_iff) simp_all

definition sample_acl :: string where
  "sample_acl = ''OWNER;S-1-5-18'' @ [CHR 0x0A] @ ''ACE;S-1-5-18;false'' @ [CHR 0x0A]
     @ ''ACE;S-1-5-32-544;false''"

lemma sample_acl_lines:
  "split_on (\<lambda>c. c = CHR 0x0A) sample_acl =
     [''OWNER;S-1-5-18'', ''ACE;S-1-5-18;false'', ''ACE;S-1-5-32-544;false'']"
  by (simp add: sample_acl_def)

lemma sample_trims [simp]:
  "str_trim ''OWNER;S-1-5-18'' = ''OWNER;S-1-5-18''" "str_trim ''ACE;S-1-5-18;false'' = ''ACE;S-1-5-18;false''"
  "str_trim ''ACE;S-1-5-32-544;false'' = ''ACE;S-1-5-32-544;false''" "str_trim ''S-1-5-18'' = ''S-1-5-18''"
  "str_trim ''S-1-5-32-544'' = ''S-1-5-32-544''" "str_trim ''false'' = ''false''"
  by (rule str_trim_graphic, simp)+

lemma sample_acl_accepted: "parse_acl_verify sample_acl None = Inr ()"
  unfolding parse_acl_verify_def sample_acl_lines
  by (simp add: strip_prefix_def ace_fields_def is_dangerous_group_sid_def to_ascii_lowercase_def
      ascii_lower_def SID_SYSTEM_def SID_ADMINISTRATORS_def Let_def)

theorem accepted_acl_is_tight_witness:
  "(''S-1-5-18'' = SID_SYSTEM \<or> ''S-1-5-18'' = SID_ADMINISTRATORS \<or> None = Some ''S-1-5-18'')
    \<and> to_ascii_lowercase ''false'' \<noteq> ''true'' \<and> \<not> is_dangerous_group_sid ''S-1-5-18''"
proof (rule accepted_acl_is_tight [OF sample_acl_accepted])
  show "''ACE;S-1-5-18;false'' \<in> set (split_on (\<lambda>c. c = CHR 0x0A) sample_acl)"
    unfolding sample_acl_lines by simp
  show "ace_of ''ACE;S-1-5-18;false'' = Some (''S-1-5-18'', ''false'')"
    by (simp add: ace_of_def strip_prefix_def ace_fields_def)
qed simp

end
