(* ===== verification/Collateral_Store.thy ===== *)
theory Collateral_Store
  imports Prelude
begin

text \<open>
  The per-epoch record store of the collateral model (\<open>collateral.rs\<close>): the preferences that govern
  its retention, how a record came to be held and which record may take the place of another, and the
  append-only file with its operations \<open>put\<close>, \<open>get\<close>, \<open>records\<close> and \<open>prune\<close>.

  \<^item> The file is missing, unreadable, or a text; a text is the list of its bytes, and a reader sees it
    through \<open>str::lines\<close>. A write can fail before it touched the file or leave a prefix of its bytes.
  \<^item> The JSON reader and writer of a line (\<open>serde_json\<close>) are arguments, with the law that a written
    line is read back (\<open>codec_ok\<close>) and, for what a torn write leaves behind, that an object cut short
    is not JSON and stays so whatever object follows it on the line (\<open>torn_ok\<close>).
  \<^item> \<open>EpochRecord\<close> belongs to the crate \<open>dig_mirror_collateral\<close>: the fields the code reads are named
    here, the remaining ones are one field that is only compared. Which protocol versions are
    implemented is an argument.
\<close>

section \<open>Records\<close>

definition GENESIS_EPOCH :: nat where "GENESIS_EPOCH = 1"

record epoch_census =
  ec_epoch :: nat
  ec_stores :: nat
  ec_owners :: nat
  ec_locked :: nat

record epoch_record =
  er_epoch :: nat
  er_protocol_version :: nat
  er_census :: epoch_census
  er_required_per_store_dig_base_units :: nat
  er_multiplier_micros :: nat
  er_handicap_dig_base_units :: nat
  er_others :: string

datatype record_provenance =
  Bootstrap
| Censused
| AdoptedFromPeers (agreed: nat) (sampled: nat)

fun strength :: "record_provenance \<Rightarrow> nat" where
  "strength (AdoptedFromPeers _ _) = 0"
| "strength Censused = 1"
| "strength Bootstrap = 2"

record stored_record =
  cr_record :: epoch_record
  cr_census_height :: "nat option"
  cr_provenance :: record_provenance

definition weakest_provenance :: record_provenance where
  "weakest_provenance = AdoptedFromPeers 0 0"

definition bootstrap :: "epoch_record \<Rightarrow> stored_record" where
  "bootstrap genesis = \<lparr>cr_record = genesis, cr_census_height = None, cr_provenance = Bootstrap\<rparr>"

definition censused :: "epoch_record \<Rightarrow> nat \<Rightarrow> stored_record" where
  "censused r h = \<lparr>cr_record = r, cr_census_height = Some h, cr_provenance = Censused\<rparr>"

definition is_interpretable :: "(nat \<Rightarrow> bool) \<Rightarrow> stored_record \<Rightarrow> bool" where
  "is_interpretable implemented r = implemented (er_protocol_version (cr_record r))"

abbreviation epoch_of :: "stored_record \<Rightarrow> nat" where
  "epoch_of r \<equiv> er_epoch (cr_record r)"

abbreviation stores_of :: "stored_record \<Rightarrow> nat" where
  "stores_of r \<equiv> ec_stores (er_census (cr_record r))"

abbreviation owners_of :: "stored_record \<Rightarrow> nat" where
  "owners_of r \<equiv> ec_owners (er_census (cr_record r))"

abbreviation locked_of :: "stored_record \<Rightarrow> nat" where
  "locked_of r \<equiv> ec_locked (er_census (cr_record r))"

abbreviation required_of :: "stored_record \<Rightarrow> nat" where
  "required_of r \<equiv> er_required_per_store_dig_base_units (cr_record r)"

section \<open>Which record may take the place of another\<close>

fun is_adopted :: "record_provenance \<Rightarrow> bool" where
  "is_adopted (AdoptedFromPeers _ _) = True"
| "is_adopted _ = False"

definition own_census_supersedes :: "record_provenance \<Rightarrow> record_provenance \<Rightarrow> bool" where
  "own_census_supersedes held incoming \<longleftrightarrow> is_adopted held \<and> incoming = Censused"

definition own_recensus_supersedes :: "stored_record \<Rightarrow> stored_record \<Rightarrow> bool" where
  "own_recensus_supersedes held incoming \<longleftrightarrow>
     cr_provenance held = Censused \<and>
     cr_provenance incoming = Censused \<and>
     cr_census_height held \<noteq> None \<and>
     cr_census_height held = cr_census_height incoming \<and>
     stores_of incoming > stores_of held \<and>
     owners_of incoming \<ge> owners_of held \<and>
     locked_of incoming \<ge> locked_of held \<and>
     required_of incoming \<ge> required_of held"

datatype put_outcome =
  Appended
| AlreadyPresent
| Contradicts stored_record

text \<open>The arms of \<open>put\<close> that answer for an epoch already held; \<open>None\<close> is the arm that goes on to
  append.\<close>

definition put_over :: "stored_record \<Rightarrow> stored_record \<Rightarrow> put_outcome option" where
  "put_over held r =
     (if own_recensus_supersedes held r then None
      else if cr_record held \<noteq> cr_record r \<and>
        \<not> own_census_supersedes (cr_provenance held) (cr_provenance r) then Some (Contradicts held)
      else if strength (cr_provenance held) \<ge> strength (cr_provenance r) then Some AlreadyPresent
      else None)"

section \<open>Preferences and retention\<close>

datatype retention_policy = KeepEverything | KeepEpochs nat

record collateral_config =
  margin_bp :: nat
  retention_epochs :: "nat option"
  mirror_enabled :: bool
  url_reconcile_enabled :: bool

definition default_mirror_enabled :: bool where "default_mirror_enabled = True"

definition default_url_reconcile_enabled :: bool where "default_url_reconcile_enabled = True"

definition default_config :: "nat \<Rightarrow> collateral_config" where
  "default_config safety_margin_bp_default =
     \<lparr>margin_bp = safety_margin_bp_default, retention_epochs = None,
      mirror_enabled = default_mirror_enabled,
      url_reconcile_enabled = default_url_reconcile_enabled\<rparr>"

fun retention :: "collateral_config \<Rightarrow> retention_policy" where
  "retention cfg =
     (case retention_epochs cfg of
        None \<Rightarrow> KeepEverything
      | Some epochs \<Rightarrow> if epochs = 0 then KeepEverything else KeepEpochs epochs)"

datatype epoch_file = NoFile | NoRead | Text string

definition load_config ::
    "nat \<Rightarrow> (string \<Rightarrow> collateral_config option) \<Rightarrow> epoch_file \<Rightarrow> collateral_config" where
  "load_config safety_margin_bp_default from_str f =
     (case f of
        NoFile \<Rightarrow> default_config safety_margin_bp_default
      | NoRead \<Rightarrow> default_config safety_margin_bp_default
      | Text t \<Rightarrow>
          (case from_str t of
             Some cfg \<Rightarrow> cfg
           | None \<Rightarrow> default_config safety_margin_bp_default))"

text \<open>A year of epochs of the given length in milliseconds; a length of zero would not compile.\<close>

definition RETENTION_ONE_YEAR_EPOCHS :: "nat \<Rightarrow> nat" where
  "RETENTION_ONE_YEAR_EPOCHS mirror_epoch_length_ms = (365 * 24 * 60 * 60 * 1000) div mirror_epoch_length_ms"

section \<open>The lines of a text\<close>

definition newline :: char where "newline = CHR 0x0A"

definition carriage_return :: char where "carriage_return = CHR 0x0D"

text \<open>\<open>str::split_inclusive\<close> on the newline, and the line ending \<open>str::lines\<close> takes off each piece.\<close>

fun split_inclusive :: "string \<Rightarrow> string list" where
  "split_inclusive [] = []"
| "split_inclusive (c # s) =
     (if c = newline then [c] # split_inclusive s
      else case split_inclusive s of
          [] \<Rightarrow> [[c]]
        | l # ls \<Rightarrow> (c # l) # ls)"

definition strip_line_end :: "string \<Rightarrow> string" where
  "strip_line_end l =
     (if l \<noteq> [] \<and> last l = newline
      then let l' = butlast l
           in if l' \<noteq> [] \<and> last l' = carriage_return then butlast l' else l'
      else l)"

definition str_lines :: "string \<Rightarrow> string list" where
  "str_lines s = map strip_line_end (split_inclusive s)"

section \<open>The store\<close>

record record_codec =
  from_line :: "string \<Rightarrow> stored_record option"
  epoch_field :: "string \<Rightarrow> nat option"
  to_line :: "stored_record \<Rightarrow> string option"

datatype stored_epoch =
  Found stored_record
| Absent
| Unreadable

definition line_names_epoch :: "record_codec \<Rightarrow> string \<Rightarrow> nat \<Rightarrow> bool" where
  "line_names_epoch cd line e \<longleftrightarrow> epoch_field cd line = Some e"

text \<open>The lines the loops go over: \<open>text.lines().filter(|l| !l.trim().is_empty())\<close>.\<close>

definition record_lines :: "string \<Rightarrow> string list" where
  "record_lines t = filter (\<lambda>l. str_trim l \<noteq> []) (str_lines t)"

fun get_loop :: "record_codec \<Rightarrow> nat \<Rightarrow> string list \<Rightarrow> stored_record option \<Rightarrow> bool
    \<Rightarrow> stored_record option \<times> bool" where
  "get_loop cd e [] best saw = (best, saw)"
| "get_loop cd e (l # ls) best saw =
     (case from_line cd l of
        Some r \<Rightarrow> if epoch_of r = e then get_loop cd e ls (Some r) saw else get_loop cd e ls best saw
      | None \<Rightarrow>
          if line_names_epoch cd l e then get_loop cd e ls best True else get_loop cd e ls best saw)"

definition store_get :: "record_codec \<Rightarrow> epoch_file \<Rightarrow> nat \<Rightarrow> stored_epoch" where
  "store_get cd f e =
     (case f of
        NoFile \<Rightarrow> Absent
      | NoRead \<Rightarrow> Unreadable
      | Text t \<Rightarrow>
          (case get_loop cd e (record_lines t) None False of
             (Some r, _) \<Rightarrow> Found r
           | (None, saw) \<Rightarrow> if saw then Unreadable else Absent))"

datatype io_error = ReadFailed | WriteFailed | EncodeFailed | InvalidData

fun records_loop :: "record_codec \<Rightarrow> string list \<Rightarrow> (nat \<times> stored_record) list
    \<Rightarrow> (nat \<times> stored_record) list" where
  "records_loop cd [] by_epoch = by_epoch"
| "records_loop cd (l # ls) by_epoch =
     (case from_line cd l of
        Some r \<Rightarrow> records_loop cd ls (bt_insert (epoch_of r) r by_epoch)
      | None \<Rightarrow> records_loop cd ls by_epoch)"

definition store_records :: "record_codec \<Rightarrow> epoch_file \<Rightarrow> io_error + stored_record list" where
  "store_records cd f =
     (case f of
        NoFile \<Rightarrow> Inr []
      | NoRead \<Rightarrow> Inl ReadFailed
      | Text t \<Rightarrow> Inr (map snd (records_loop cd (record_lines t) [])))"

text \<open>What becomes of an append: it goes through, the directory or the file cannot be opened, or only
  the first bytes of the line reach the file.\<close>

datatype write_fault = Whole | DirFails | OpenFails | TornAfter nat

fun add_bytes :: "string \<Rightarrow> epoch_file \<Rightarrow> epoch_file" where
  "add_bytes bs NoFile = Text bs"
| "add_bytes bs NoRead = NoRead"
| "add_bytes bs (Text t) = Text (t @ bs)"

definition store_append ::
    "record_codec \<Rightarrow> write_fault \<Rightarrow> stored_record \<Rightarrow> epoch_file \<Rightarrow> (io_error + unit) \<times> epoch_file" where
  "store_append cd w r f =
     (if w = DirFails then (Inl WriteFailed, f)
      else case to_line cd r of
          None \<Rightarrow> (Inl EncodeFailed, f)
        | Some line \<Rightarrow>
            let bytes = line @ [newline]
            in case w of
                 Whole \<Rightarrow> (Inr (), add_bytes bytes f)
               | TornAfter k \<Rightarrow> (Inl WriteFailed, add_bytes (take k bytes) f)
               | _ \<Rightarrow> (Inl WriteFailed, f))"

definition store_put ::
    "record_codec \<Rightarrow> write_fault \<Rightarrow> stored_record \<Rightarrow> epoch_file \<Rightarrow> (io_error + put_outcome) \<times> epoch_file" where
  "store_put cd w r f =
     (let go = (case store_append cd w r f of
          (Inl e, f') \<Rightarrow> (Inl e, f')
        | (Inr _, f') \<Rightarrow> (Inr Appended, f'))
      in case store_get cd f (epoch_of r) of
           Found held \<Rightarrow>
             (case put_over held r of
                Some outcome \<Rightarrow> (Inr outcome, f)
              | None \<Rightarrow> go)
         | Unreadable \<Rightarrow> (Inl InvalidData, f)
         | Absent \<Rightarrow> go)"

text \<open>The rewrite of \<open>prune\<close>: one line for each kept record, written beside the file and renamed over
  it. The flag says whether writing and renaming succeed.\<close>

fun encode_lines :: "record_codec \<Rightarrow> stored_record list \<Rightarrow> string option" where
  "encode_lines cd [] = Some []"
| "encode_lines cd (r # rs) =
     (case (to_line cd r, encode_lines cd rs) of
        (Some line, Some body) \<Rightarrow> Some (line @ [newline] @ body)
      | _ \<Rightarrow> None)"

definition kept_epoch :: "nat \<Rightarrow> nat \<Rightarrow> nat \<Rightarrow> bool" where
  "kept_epoch keep current_epoch e \<longleftrightarrow>
     e \<ge> current_epoch - (keep - 1) \<or> e = GENESIS_EPOCH"

definition store_prune ::
    "record_codec \<Rightarrow> bool \<Rightarrow> retention_policy \<Rightarrow> nat \<Rightarrow> epoch_file \<Rightarrow> (io_error + nat) \<times> epoch_file" where
  "store_prune cd rewritten policy current_epoch f =
     (case policy of
        KeepEverything \<Rightarrow> (Inr 0, f)
      | KeepEpochs keep \<Rightarrow>
          (case store_records cd f of
             Inl e \<Rightarrow> (Inl e, f)
           | Inr held \<Rightarrow>
               let (kept, dropped) = partition (\<lambda>r. kept_epoch keep current_epoch (epoch_of r)) held
               in if dropped = [] then (Inr 0, f)
                  else case encode_lines cd kept of
                      None \<Rightarrow> (Inl EncodeFailed, f)
                    | Some body \<Rightarrow>
                        if rewritten then (Inr (length dropped), Text body) else (Inl WriteFailed, f)))"

definition ensure_bootstrap ::
    "record_codec \<Rightarrow> epoch_record \<Rightarrow> write_fault \<Rightarrow> epoch_file \<Rightarrow> (io_error + put_outcome) \<times> epoch_file" where
  "ensure_bootstrap cd genesis w f = store_put cd w (bootstrap genesis) f"

section \<open>What is assumed of the line codec\<close>

definition codec_ok :: "record_codec \<Rightarrow> bool" where
  "codec_ok cd \<longleftrightarrow>
     (\<forall>r line. to_line cd r = Some line \<longrightarrow>
        from_line cd line = Some r \<and> newline \<notin> set line \<and> str_trim line \<noteq> [] \<and>
        line \<noteq> [] \<and> last line \<noteq> carriage_return)"

definition unread :: "record_codec \<Rightarrow> string \<Rightarrow> bool" where
  "unread cd l \<longleftrightarrow> from_line cd l = None \<and> epoch_field cd l = None"

definition torn_ok :: "record_codec \<Rightarrow> bool" where
  "torn_ok cd \<longleftrightarrow>
     (\<forall>r line p. to_line cd r = Some line \<and> strict_prefix p line \<and> p \<noteq> [] \<longrightarrow>
        unread cd p \<and> (\<forall>r' line'. to_line cd r' = Some line' \<longrightarrow> unread cd (p @ line')))"

lemma codec_okD:
  assumes "codec_ok cd" "to_line cd r = Some line"
  shows "from_line cd line = Some r" "newline \<notin> set line" "str_trim line \<noteq> []" "line \<noteq> []"
    "last line \<noteq> carriage_return"
  using assms by (auto simp: codec_ok_def)

section \<open>Reading what was written\<close>

definition whole_text :: "string \<Rightarrow> bool" where
  "whole_text t \<longleftrightarrow> t = [] \<or> last t = newline"

fun whole :: "epoch_file \<Rightarrow> bool" where
  "whole (Text t) = whole_text t"
| "whole _ = True"

lemma split_inclusive_eq_Nil [simp]: "split_inclusive t = [] \<longleftrightarrow> t = []"
  by (cases t) (auto split: list.splits)

lemma split_inclusive_append:
  "whole_text t \<Longrightarrow> split_inclusive (t @ s) = split_inclusive t @ split_inclusive s"
proof (induction t)
  case (Cons c t)
  show ?case
  proof (cases "c = newline")
    case True
    then show ?thesis using Cons by (cases "t = []") (auto simp: whole_text_def)
  next
    case False
    then have "t \<noteq> []" "whole_text t" using Cons.prems by (auto simp: whole_text_def split: if_splits)
    then show ?thesis using Cons.IH False by (auto split: list.splits)
  qed
qed (simp add: whole_text_def)

lemma split_inclusive_piece:
  "newline \<notin> set l \<Longrightarrow> split_inclusive (l @ [newline]) = [l @ [newline]]"
  by (induction l) auto

lemma split_inclusive_open: "newline \<notin> set l \<Longrightarrow> l \<noteq> [] \<Longrightarrow> split_inclusive l = [l]"
proof (induction l)
  case (Cons c l)
  then show ?case by (cases "l = []") auto
qed simp

lemma str_lines_append: "whole_text t \<Longrightarrow> str_lines (t @ s) = str_lines t @ str_lines s"
  by (simp add: str_lines_def split_inclusive_append)

lemma str_lines_piece:
  "newline \<notin> set l \<Longrightarrow> (l = [] \<or> last l \<noteq> carriage_return) \<Longrightarrow> str_lines (l @ [newline]) = [l]"
  by (auto simp: str_lines_def split_inclusive_piece strip_line_end_def Let_def)

lemma str_lines_open: "newline \<notin> set l \<Longrightarrow> l \<noteq> [] \<Longrightarrow> str_lines l = [l]"
  by (metis str_lines_def split_inclusive_open strip_line_end_def last_in_set list.map)

lemma record_lines_append: "whole_text t \<Longrightarrow> record_lines (t @ s) = record_lines t @ record_lines s"
  by (simp add: record_lines_def str_lines_append)

lemma record_lines_Nil [simp]: "record_lines [] = []"
  by (simp add: record_lines_def str_lines_def)

lemma record_lines_written:
  "codec_ok cd \<Longrightarrow> to_line cd r = Some line \<Longrightarrow> record_lines (line @ [newline]) = [line]"
  using codec_okD [of cd r line] by (simp add: record_lines_def str_lines_piece)

lemma whole_text_piece [simp]: "whole_text (s @ [newline])"
  by (simp add: whole_text_def)

lemma get_loop_append:
  "get_loop cd e (xs @ ys) best saw =
     (let (best', saw') = get_loop cd e xs best saw in get_loop cd e ys best' saw')"
  by (induction xs arbitrary: best saw) (auto split: option.splits)

lemma get_loop_epoch:
  "fst (get_loop cd e ls best saw) = Some r \<Longrightarrow> best = Some r \<or> epoch_of r = e"
  by (induction ls arbitrary: best saw) (auto split: option.splits if_splits)

lemma store_get_epoch: "store_get cd f e = Found r \<Longrightarrow> epoch_of r = e"
proof -
  assume found: "store_get cd f e = Found r"
  then obtain t where t: "f = Text t" "fst (get_loop cd e (record_lines t) None False) = Some r"
    by (auto simp: store_get_def split: epoch_file.splits prod.splits option.splits if_splits)
  then show ?thesis using get_loop_epoch [OF t(2)] by simp
qed

text \<open>The line \<open>put\<close> appends is the one a later \<open>get\<close> of its epoch finds, and no other epoch sees it.\<close>

lemma store_get_appended:
  assumes "codec_ok cd" "whole f" "f \<noteq> NoRead" "to_line cd r = Some line"
  shows "store_get cd (add_bytes (line @ [newline]) f) e =
     (if e = epoch_of r then Found r else store_get cd f e)"
proof (cases f)
  case NoFile
  then show ?thesis
    using codec_okD(1) [OF assms(1,4)] by (simp add: store_get_def record_lines_written [OF assms(1,4)])
next
  case (Text t)
  then have lines: "record_lines (t @ line @ [newline]) = record_lines t @ [line]"
    using assms record_lines_written by (simp add: record_lines_append)
  obtain best saw where "get_loop cd e (record_lines t) None False = (best, saw)" by force
  then show ?thesis
    using codec_okD(1) [OF assms(1,4)] Text lines by (simp add: store_get_def get_loop_append)
qed (use assms in simp)

lemma whole_appended: "whole f \<Longrightarrow> whole (add_bytes (s @ [newline]) f)"
  by (cases f) (auto simp: whole_text_def)

section \<open>The ladder\<close>

text \<open>
  A value that is replaced only by what it admits: once it is the holder's own, everything it is
  replaced with is the holder's own and not below it, and what a stranger offers is not admitted.
\<close>

fun climb :: "('r \<Rightarrow> 'r \<Rightarrow> bool) \<Rightarrow> 'r \<Rightarrow> 'r list \<Rightarrow> 'r" where
  "climb admits h [] = h"
| "climb admits h (i # is) = climb admits (if admits h i then i else h) is"

locale one_way_ladder =
  fixes admits :: "'r \<Rightarrow> 'r \<Rightarrow> bool"
    and own :: "'r \<Rightarrow> bool"
    and below :: "'r \<Rightarrow> 'r \<Rightarrow> bool"
  assumes below_refl: "below h h"
    and below_trans: "below h i \<Longrightarrow> below i j \<Longrightarrow> below h j"
    and admits_up: "own h \<Longrightarrow> admits h i \<Longrightarrow> own i \<and> below h i"
begin

lemma climb_up: "own h \<Longrightarrow> own (climb admits h is) \<and> below h (climb admits h is)"
proof (induction "is" arbitrary: h)
  case (Cons i "is")
  then show ?case using below_trans admits_up by (cases "admits h i") fastforce+
qed (simp add: below_refl)

lemma climb_strangers: "own h \<Longrightarrow> \<forall>i \<in> set is. \<not> own i \<Longrightarrow> climb admits h is = h"
  using admits_up by (induction "is") auto

end

definition own_record :: "stored_record \<Rightarrow> bool" where
  "own_record r \<longleftrightarrow> \<not> is_adopted (cr_provenance r)"

definition no_lower :: "stored_record \<Rightarrow> stored_record \<Rightarrow> bool" where
  "no_lower h i \<longleftrightarrow>
     stores_of h \<le> stores_of i \<and> owners_of h \<le> owners_of i \<and> locked_of h \<le> locked_of i \<and>
     required_of h \<le> required_of i \<and> (cr_record i = cr_record h \<or> stores_of h < stores_of i)"

lemma strength_own: "strength p > strength q \<Longrightarrow> \<not> is_adopted p"
  by (cases p) auto

interpretation ladder: one_way_ladder "\<lambda>h i. put_over h i = None" own_record no_lower
proof
  fix h i j :: stored_record
  show "no_lower h h" by (simp add: no_lower_def)
  show "no_lower h i \<Longrightarrow> no_lower i j \<Longrightarrow> no_lower h j" unfolding no_lower_def by auto
  show "own_record h \<Longrightarrow> put_over h i = None \<Longrightarrow> own_record i \<and> no_lower h i"
    by (auto simp: put_over_def own_recensus_supersedes_def own_census_supersedes_def own_record_def
        no_lower_def strength_own not_le split: if_splits)
qed

section \<open>Puts\<close>

lemma strength_adopted: "is_adopted p \<Longrightarrow> strength p = 0"
  by (cases p) auto

definition torn :: "write_fault \<Rightarrow> bool" where
  "torn w \<longleftrightarrow> (\<exists>k. w = TornAfter k)"

lemma torn_simps [simp]: "torn (TornAfter k)" "\<not> torn Whole" "\<not> torn DirFails" "\<not> torn OpenFails"
  by (auto simp: torn_def)

definition writes :: "record_codec \<Rightarrow> write_fault \<Rightarrow> stored_record \<Rightarrow> bool" where
  "writes cd w r \<longleftrightarrow> w = Whole \<and> to_line cd r \<noteq> None"

lemma put_over_not_Appended [simp]: "put_over h r \<noteq> Some Appended"
  by (simp add: put_over_def)

lemma store_append_spec:
  assumes "codec_ok cd" "whole f" "f \<noteq> NoRead" "\<not> torn w"
  obtains
    (written) f' where "writes cd w r" "store_append cd w r f = (Inr (), f')" "whole f'" "f' \<noteq> NoRead"
      "\<And>e. store_get cd f' e = (if e = epoch_of r then Found r else store_get cd f e)"
  | (failed) e where "\<not> writes cd w r" "store_append cd w r f = (Inl e, f)"
proof (cases "writes cd w r")
  case True
  then obtain line where line: "to_line cd r = Some line" and "w = Whole" by (auto simp: writes_def)
  then have "store_append cd w r f = (Inr (), add_bytes (line @ [newline]) f)"
    by (simp add: store_append_def)
  moreover have "add_bytes (line @ [newline]) f \<noteq> NoRead" using assms(3) by (cases f) auto
  ultimately show ?thesis
    using True whole_appended [OF assms(2)] store_get_appended [OF assms(1-3) line] by (intro written)
next
  case False
  then have "\<exists>e. store_append cd w r f = (Inl e, f)"
    using assms(4) by (auto simp: store_append_def writes_def torn_def Let_def
        split: option.splits write_fault.splits)
  with False failed show ?thesis by blast
qed

text \<open>An append that was not torn either put its record in force and touched no other epoch, or left the
  file as it was.\<close>

lemma store_put_step:
  assumes "codec_ok cd" "whole f" "\<not> torn w" "store_put cd w r f = (res, f')"
  shows "whole f'"
    and "res = Inr Appended \<Longrightarrow> writes cd w r \<and>
      store_get cd f' e = (if e = epoch_of r then Found r else store_get cd f e)"
    and "res \<noteq> Inr Appended \<Longrightarrow> f' = f"
proof -
  have "whole f' \<and> (res = Inr Appended \<and> writes cd w r \<and>
      store_get cd f' e = (if e = epoch_of r then Found r else store_get cd f e) \<or>
      res \<noteq> Inr Appended \<and> f' = f)"
  proof (cases "f = NoRead")
    case True
    then show ?thesis using assms(4) by (auto simp: store_put_def store_get_def)
  next
    case False
    from assms(1,2) False assms(3) show ?thesis
    proof (cases rule: store_append_spec [where r = r])
      case (written f'')
      then show ?thesis using assms(2,4)
        by (auto simp: store_put_def Let_def split: stored_epoch.splits option.splits)
    next
      case (failed e')
      then show ?thesis using assms(2,4)
        by (auto simp: store_put_def Let_def split: stored_epoch.splits option.splits)
    qed
  qed
  then show "whole f'"
    and "res = Inr Appended \<Longrightarrow> writes cd w r \<and>
      store_get cd f' e = (if e = epoch_of r then Found r else store_get cd f e)"
    and "res \<noteq> Inr Appended \<Longrightarrow> f' = f" by blast+
qed

lemma store_put_over:
  assumes "codec_ok cd" "whole f" "\<not> torn w" "store_get cd f e = Found h"
  shows "store_get cd (snd (store_put cd w r f)) e =
     Found (if epoch_of r = e \<and> writes cd w r \<and> put_over h r = None then r else h)"
proof -
  have "f \<noteq> NoRead" using assms(4) by (auto simp: store_get_def)
  with assms(1,2) show ?thesis using assms(3)
  proof (cases rule: store_append_spec [where r = r])
    case (written f')
    then show ?thesis using assms(4)
      by (auto simp: store_put_def Let_def split: stored_epoch.splits option.splits)
  next
    case (failed e')
    then show ?thesis using assms(4)
      by (auto simp: store_put_def Let_def split: stored_epoch.splits option.splits)
  qed
qed

fun put_run :: "record_codec \<Rightarrow> (write_fault \<times> stored_record) list \<Rightarrow> epoch_file \<Rightarrow> epoch_file" where
  "put_run cd [] f = f"
| "put_run cd ((w, r) # ps) f = put_run cd ps (snd (store_put cd w r f))"

definition offers :: "record_codec \<Rightarrow> nat \<Rightarrow> (write_fault \<times> stored_record) list \<Rightarrow> stored_record list" where
  "offers cd e ps = map snd (filter (\<lambda>(w, r). epoch_of r = e \<and> writes cd w r) ps)"

lemma put_run_climbs:
  assumes "codec_ok cd" "whole f" "\<forall>(w, r) \<in> set ps. \<not> torn w" "store_get cd f e = Found h"
  shows "store_get cd (put_run cd ps f) e = Found (climb (\<lambda>h i. put_over h i = None) h (offers cd e ps))"
  using assms(2-4)
proof (induction ps arbitrary: f h)
  case (Cons p ps)
  obtain w r where p: "p = (w, r)" by force
  define f' where "f' = snd (store_put cd w r f)"
  have w: "\<not> torn w" using Cons.prems(2) p by simp
  have "whole f'"
    using store_put_step(1) [OF assms(1) Cons.prems(1) w] f'_def by (cases "store_put cd w r f") auto
  then have "store_get cd (put_run cd ps f') e =
     Found (climb (\<lambda>h i. put_over h i = None)
        (if epoch_of r = e \<and> writes cd w r \<and> put_over h r = None then r else h) (offers cd e ps))"
    using Cons.IH store_put_over [OF assms(1) Cons.prems(1) w Cons.prems(3), of r] Cons.prems(2)
    by (simp add: f'_def)
  then show ?case by (auto simp: p f'_def offers_def)
qed (simp add: offers_def)

section \<open>Listing and pruning\<close>

lemma records_loop_get:
  "bt_ok m \<Longrightarrow> bt_ok (records_loop cd ls m) \<and>
     map_of (records_loop cd ls m) e = fst (get_loop cd e ls (map_of m e) saw)"
proof (induction ls arbitrary: m saw)
  case (Cons l ls)
  show ?case
  proof (cases "from_line cd l")
    case None
    then show ?thesis using Cons by auto
  next
    case (Some r)
    then show ?thesis
      using Cons.IH [OF bt_ok_insert [OF Cons.prems, of "epoch_of r" r], of saw] Cons.prems
      by (auto simp: map_of_bt_insert)
  qed
qed simp

lemma records_loop_keys:
  "\<forall>p \<in> set m. fst p = epoch_of (snd p) \<Longrightarrow>
     \<forall>p \<in> set (records_loop cd ls m). fst p = epoch_of (snd p)"
proof (induction ls arbitrary: m)
  case (Cons l ls)
  have ins: "\<forall>p \<in> set (bt_insert (epoch_of r) r m). fst p = epoch_of (snd p)" for r :: stored_record
    using Cons.prems set_bt_insert [of "epoch_of r" r m] by auto
  show ?case using Cons.IH [OF Cons.prems] Cons.IH [OF ins] by (cases "from_line cd l") simp_all
qed simp

text \<open>The listing names each epoch once, in ascending order, and holds exactly what \<open>get\<close> answers.\<close>

lemma store_records_get:
  assumes "store_records cd f = Inr rs"
  shows "sorted_wrt (<) (map epoch_of rs)"
    and "r \<in> set rs \<longleftrightarrow> store_get cd f (epoch_of r) = Found r"
proof -
  define m where "m = (case f of Text t \<Rightarrow> records_loop cd (record_lines t) [] | _ \<Rightarrow> [])"
  have rs: "rs = map snd m" and f: "f \<noteq> NoRead"
    using assms by (auto simp: store_records_def m_def split: epoch_file.splits)
  have ok: "bt_ok m" using records_loop_get [of "[]" cd] by (simp add: m_def bt_ok_def split: epoch_file.split)
  have keys: "\<forall>p \<in> set m. fst p = epoch_of (snd p)"
    using records_loop_keys [of "[]" cd] by (cases f) (simp_all add: m_def)
  have fst_m: "map epoch_of rs = map fst m" using keys by (simp add: rs)
  then show "sorted_wrt (<) (map epoch_of rs)" using ok by (simp add: bt_ok_def)
  have "map_of m e = Some r \<longleftrightarrow> store_get cd f e = Found r" for e
    using f records_loop_get [of "[]" cd _ e False]
    by (auto simp: m_def store_get_def bt_ok_def split: epoch_file.splits prod.splits option.splits)
  moreover have "r \<in> set rs \<longleftrightarrow> map_of m (epoch_of r) = Some r"
  proof
    assume "r \<in> set rs"
    then obtain k where "(k, r) \<in> set m" by (auto simp: rs)
    then show "map_of m (epoch_of r) = Some r" using keys bt_ok_hm_ok [OF ok] by (force simp: hm_ok_def)
  next
    assume "map_of m (epoch_of r) = Some r"
    then show "r \<in> set rs" by (force simp: rs dest: map_of_SomeD)
  qed
  ultimately show "r \<in> set rs \<longleftrightarrow> store_get cd f (epoch_of r) = Found r" by simp
qed

lemma encode_lines_read:
  assumes "codec_ok cd" "encode_lines cd rs = Some body"
  shows "whole_text body \<and> map (from_line cd) (record_lines body) = map Some rs"
  using assms(2)
proof (induction rs arbitrary: body)
  case (Cons r rs)
  then obtain line rest where parts: "to_line cd r = Some line" "encode_lines cd rs = Some rest"
    "body = (line @ [newline]) @ rest" by (auto split: option.splits)
  have "record_lines body = line # record_lines rest"
    using record_lines_written [OF assms(1) parts(1)] by (simp only: parts(3) record_lines_append [OF whole_text_piece]) simp
  moreover have "whole_text body"
    using Cons.IH [OF parts(2)] parts(3) by (auto simp: whole_text_def)
  ultimately show ?case using Cons.IH [OF parts(2)] codec_okD(1) [OF assms(1) parts(1)] by simp
qed (simp add: whole_text_def)

lemma get_loop_entries:
  assumes "map (from_line cd) ls = map Some rs" "distinct (map epoch_of rs)"
  shows "get_loop cd e ls best saw = (case find (\<lambda>r. epoch_of r = e) rs of None \<Rightarrow> best | Some r \<Rightarrow> Some r, saw)"
  using assms
proof (induction rs arbitrary: ls best)
  case (Cons r rs)
  then obtain l ls' where ls: "ls = l # ls'" "from_line cd l = Some r" "map (from_line cd) ls' = map Some rs"
    by auto
  have "find (\<lambda>r. epoch_of r = e) rs = None" if "epoch_of r = e"
    using Cons.prems(2) that by (auto simp: find_None_iff image_iff)
  then show ?case using Cons.IH [OF ls(3)] Cons.prems(2) ls by auto
qed simp

lemma store_get_encoded:
  assumes "codec_ok cd" "encode_lines cd rs = Some body" "distinct (map epoch_of rs)"
  shows "store_get cd (Text body) e = (case find (\<lambda>r. epoch_of r = e) rs of None \<Rightarrow> Absent | Some r \<Rightarrow> Found r)"
  using encode_lines_read [OF assms(1,2)] get_loop_entries [OF _ assms(3)]
  by (simp add: store_get_def split: option.splits)

lemma find_epoch:
  "distinct (map epoch_of rs) \<Longrightarrow>
     find (\<lambda>r. epoch_of r = e) rs = Some r \<longleftrightarrow> r \<in> set rs \<and> epoch_of r = e"
  by (induction rs) auto

lemma kept_epoch_current [simp]: "kept_epoch keep c c"
  by (simp add: kept_epoch_def)

lemma kept_epoch_genesis [simp]: "kept_epoch keep c GENESIS_EPOCH"
  by (simp add: kept_epoch_def)

lemma store_prune_cases:
  assumes "codec_ok cd" "store_prune cd rewritten policy c f = (res, f')"
  obtains
    (untouched) "f' = f" "res = Inr 0 \<or> (\<exists>e. res = Inl e)"
  | (rewritten) keep n where "policy = KeepEpochs keep" "res = Inr n" "n > 0"
      "n = card {e. \<not> kept_epoch keep c e \<and> (\<exists>r. store_get cd f e = Found r)}"
      "\<And>e. store_get cd f' e =
         (case store_get cd f e of Found r \<Rightarrow> if kept_epoch keep c e then Found r else Absent | _ \<Rightarrow> Absent)"
proof (cases "f' = f \<and> (res = Inr 0 \<or> (\<exists>e. res = Inl e))")
  case False
  let ?keep = "\<lambda>keep r. kept_epoch keep c (epoch_of r)"
  obtain keep held body where res:
    "policy = KeepEpochs keep" "store_records cd f = Inr held"
    "encode_lines cd (filter (?keep keep) held) = Some body" "f' = Text body"
    "filter (Not \<circ> ?keep keep) held \<noteq> []" "res = Inr (length (filter (Not \<circ> ?keep keep) held))"
    using assms(2) False
    by (auto simp: store_prune_def Let_def split: retention_policy.splits sum.splits option.splits if_splits)
  note held = store_records_get [OF res(2)]
  have dist: "distinct (map epoch_of held)" using held(1) by (simp add: strict_sorted_iff)
  then have dist': "distinct (map epoch_of (filter P held))" for P by (rule distinct_map_filter)
  have got: "store_get cd f e = Found r \<longleftrightarrow> r \<in> set held \<and> epoch_of r = e" for e r
    using held(2) store_get_epoch [of cd f e r] by auto
  have "epoch_of ` set (filter (Not \<circ> ?keep keep) held) =
      {e. \<not> kept_epoch keep c e \<and> (\<exists>r. store_get cd f e = Found r)}"
    by (auto simp: got)
  then have n: "length (filter (Not \<circ> ?keep keep) held) =
      card {e. \<not> kept_epoch keep c e \<and> (\<exists>r. store_get cd f e = Found r)}"
    using distinct_card [OF dist' [of "Not \<circ> ?keep keep"]] by simp
  have "store_get cd f' e =
      (case store_get cd f e of Found r \<Rightarrow> if kept_epoch keep c e then Found r else Absent | _ \<Rightarrow> Absent)" for e
  proof (cases "store_get cd f e")
    case (Found r)
    then have r: "r \<in> set held" "epoch_of r = e" by (simp_all add: got)
    then have "find (\<lambda>r. epoch_of r = e) (filter (?keep keep) held) =
        (if kept_epoch keep c e then Some r else None)"
      using find_epoch [OF dist' [of "?keep keep"], of e r] by (auto simp: find_None_iff)
    then show ?thesis using Found store_get_encoded [OF assms(1) res(3) dist', of e] by (simp add: res(4))
  next
    case Absent
    then have "find (\<lambda>r. epoch_of r = e) (filter (?keep keep) held) = None"
      using got [of e] by (auto simp: find_None_iff)
    then show ?thesis using Absent store_get_encoded [OF assms(1) res(3) dist', of e] by (simp add: res(4))
  next
    case Unreadable
    then have "find (\<lambda>r. epoch_of r = e) (filter (?keep keep) held) = None"
      using got [of e] by (auto simp: find_None_iff)
    then show ?thesis using Unreadable store_get_encoded [OF assms(1) res(3) dist', of e] by (simp add: res(4))
  qed
  moreover have "0 < length (filter (Not \<circ> ?keep keep) held)" using res(5) by simp
  ultimately show ?thesis using rewritten [OF res(1,6)] n by blast
qed (use untouched in blast)

section \<open>What the store promises\<close>

text \<open>
  What \<open>put\<close> answers is what became of the file, when its write is not torn. \<open>Written\<close>: the record
  is the one in force for its epoch and every other epoch reads as before. \<open>AlreadyPresent\<close>: the very same
  consensus record was held, with evidence at least as strong, and nothing was written. \<open>Conflict\<close>: the
  record it carries is the one held, it differs from the offered one, and nothing was written. An error
  leaves the file as it was, and \<open>InvalidData\<close> is answered exactly when the epoch cannot be read.
\<close>
theorem put_answers_truthfully:
  assumes "codec_ok cd" "whole f" "\<not> torn w" "store_put cd w r f = (res, f')"
  shows "case res of
      Inr Appended \<Rightarrow> \<forall>e. store_get cd f' e = (if e = epoch_of r then Found r else store_get cd f e)
    | Inr AlreadyPresent \<Rightarrow> f' = f \<and>
        (\<exists>h. store_get cd f (epoch_of r) = Found h \<and> cr_record h = cr_record r \<and>
             strength (cr_provenance h) \<ge> strength (cr_provenance r))
    | Inr (Contradicts h) \<Rightarrow> f' = f \<and> store_get cd f (epoch_of r) = Found h \<and> cr_record h \<noteq> cr_record r
    | Inl err \<Rightarrow> f' = f \<and> (err = InvalidData \<longleftrightarrow> store_get cd f (epoch_of r) = Unreadable)"
proof (cases res)
  case (Inl err)
  have "fst (store_append cd w r f) \<noteq> Inl InvalidData"
    by (auto simp: store_append_def Let_def split: option.splits write_fault.splits)
  then show ?thesis using Inl assms(4) store_put_step(3) [OF assms]
    by (auto simp: store_put_def Let_def split: stored_epoch.splits option.splits prod.splits sum.splits)
next
  case (Inr out)
  have over: "(\<exists>h. store_get cd f (epoch_of r) = Found h \<and> put_over h r = Some out)" if "out \<noteq> Appended"
    using that Inr assms(4)
    by (auto simp: store_put_def Let_def split: stored_epoch.splits option.splits prod.splits sum.splits)
  show ?thesis
  proof (cases out)
    case Appended
    then show ?thesis using store_put_step(2) [OF assms] Inr by auto
  qed (use over Inr store_put_step(3) [OF assms] in
      \<open>auto simp: put_over_def own_census_supersedes_def strength_adopted split: if_splits\<close>)
qed

text \<open>
  History is a one-way ladder. Take an epoch whose record this node derived itself, and any sequence
  of \<open>put\<close>s of any records by anyone, in any order, some of whose writes fail cleanly. What is held for
  that epoch in the end is a record this node derived itself; its requirement, its stores, its owners and
  its locked amount are no lower; it is the same consensus record or counts strictly more stores. If every
  record offered for that epoch came from peers, the held record is unchanged, to the last field.
\<close>
theorem history_one_way:
  assumes "codec_ok cd" "whole f" "\<forall>(w, r) \<in> set ps. \<not> torn w"
    and "store_get cd f e = Found h" "own_record h"
  shows "\<exists>h'. store_get cd (put_run cd ps f) e = Found h' \<and> own_record h' \<and>
     required_of h \<le> required_of h' \<and> stores_of h \<le> stores_of h' \<and>
     owners_of h \<le> owners_of h' \<and> locked_of h \<le> locked_of h' \<and>
     (cr_record h' = cr_record h \<or> stores_of h < stores_of h') \<and>
     ((\<forall>(w, r) \<in> set ps. epoch_of r = e \<longrightarrow> is_adopted (cr_provenance r)) \<longrightarrow> h' = h)"
proof -
  let ?h' = "climb (\<lambda>h i. put_over h i = None) h (offers cd e ps)"
  have "?h' = h" if "\<forall>(w, r) \<in> set ps. epoch_of r = e \<longrightarrow> is_adopted (cr_provenance r)"
    using that by (intro ladder.climb_strangers [OF assms(5)]) (auto simp: offers_def own_record_def)
  then show ?thesis
    using put_run_climbs [OF assms(1-4)] ladder.climb_up [OF assms(5), of "offers cd e ps"]
    by (auto simp: no_lower_def)
qed

text \<open>
  Pruning. A \<open>prune\<close> that reports zero or an error leaves the file as it is, as does the default
  policy. One that reports \<open>n\<close> dropped exactly the \<open>n\<close> recorded epochs outside the window; each recorded
  epoch of the window, genesis and the current epoch among them, reads as before. An epoch whose line could
  not be read before is from then on reported as never recorded.
\<close>
theorem prune_keeps_window:
  assumes "codec_ok cd" "store_prune cd rewritten policy c f = (res, f')"
  shows "case res of
      Inl _ \<Rightarrow> f' = f
    | Inr n \<Rightarrow> if n = 0 then f' = f
        else \<exists>keep. policy = KeepEpochs keep \<and>
          n = card {e. \<not> kept_epoch keep c e \<and> (\<exists>r. store_get cd f e = Found r)} \<and>
          (\<forall>e. store_get cd f' e =
             (case store_get cd f e of
                Found r \<Rightarrow> if kept_epoch keep c e then Found r else Absent
              | _ \<Rightarrow> Absent)) \<and>
          (\<forall>r. \<forall>e \<in> {GENESIS_EPOCH, c}. store_get cd f e = Found r \<longrightarrow> store_get cd f' e = Found r)"
  using assms
proof (cases rule: store_prune_cases)
  case (rewritten keep n)
  then show ?thesis by (auto split: stored_epoch.splits)
qed auto

section \<open>A torn write\<close>

lemma get_loop_unread: "\<forall>l \<in> set ls. unread cd l \<Longrightarrow> get_loop cd e ls best saw = (best, saw)"
  by (induction ls) (auto simp: unread_def line_names_epoch_def)

lemma store_get_unread:
  assumes "whole_text t" "\<forall>l \<in> set (record_lines s). unread cd l"
  shows "store_get cd (Text (t @ s)) e = store_get cd (Text t) e"
  using get_loop_unread [OF assms(2)] by (simp add: store_get_def record_lines_append [OF assms(1)] get_loop_append split_beta)

text \<open>What a file that can be read holds; a missing one reads like an empty one.\<close>

fun text_of :: "epoch_file \<Rightarrow> string" where
  "text_of (Text t) = t"
| "text_of _ = []"

lemma store_get_text_of: "f \<noteq> NoRead \<Longrightarrow> store_get cd (Text (text_of f)) e = store_get cd f e"
  by (cases f) (auto simp: store_get_def)

lemma add_bytes_text_of: "f \<noteq> NoRead \<Longrightarrow> add_bytes bs f = Text (text_of f @ bs)"
  by (cases f) auto

lemma whole_text_of: "whole f \<Longrightarrow> whole_text (text_of f)"
  by (cases f) (auto simp: whole_text_def)

lemma torn_lines_unread:
  assumes "codec_ok cd" "torn_ok cd" "to_line cd r = Some line" "0 < k" "k < length line"
  shows "\<forall>l \<in> set (record_lines (take k line)). unread cd l"
    and "\<forall>l \<in> set (record_lines (take k line @ line @ [newline])). unread cd l"
proof -
  note line = codec_okD [OF assms(1,3)]
  have p: "take k line \<noteq> []" "newline \<notin> set (take k line)" "strict_prefix (take k line) line"
    using assms(4,5) line(2) by (auto simp: strict_prefix_def take_is_prefix dest: in_set_takeD)
  have un: "unread cd (take k line)" "unread cd (take k line @ line)"
    using assms(2,3) p(1,3) unfolding torn_ok_def by blast+
  show "\<forall>l \<in> set (record_lines (take k line)). unread cd l"
    using un p by (simp add: record_lines_def str_lines_open)
  have "str_lines ((take k line @ line) @ [newline]) = [take k line @ line]"
    using line p by (intro str_lines_piece) auto
  then show "\<forall>l \<in> set (record_lines (take k line @ line @ [newline])). unread cd l"
    using un by (simp add: record_lines_def)
qed

text \<open>An append cut short anywhere either leaves every epoch reading as before, or, when only its newline
  is missing, has put its record in force; it is reported as failed either way.\<close>

lemma store_append_torn:
  assumes "codec_ok cd" "torn_ok cd" "whole f" "f \<noteq> NoRead" "store_append cd (TornAfter k) r f = (res, f')"
  shows "res \<noteq> Inr () \<and> ((\<forall>e. store_get cd f' e = store_get cd f e) \<or>
     res = Inl WriteFailed \<and> (\<forall>e. store_get cd f' e = (if e = epoch_of r then Found r else store_get cd f e)))"
proof (cases "to_line cd r")
  case None
  then show ?thesis using assms(5) by (auto simp: store_append_def)
next
  case (Some line)
  note line = codec_okD [OF assms(1) Some]
  have f': "res = Inl WriteFailed" "f' = Text (text_of f @ take k (line @ [newline]))"
    using assms(5) Some by (simp_all add: store_append_def add_bytes_text_of [OF assms(4)])
  note read = store_get_text_of [OF assms(4)]
  consider "k = 0" | "0 < k" "k < length line" | "k = length line" | "length line < k" by linarith
  then show ?thesis
  proof cases
    case 1
    then show ?thesis using f' read by simp
  next
    case 2
    then show ?thesis
      using f' read store_get_unread [OF whole_text_of [OF assms(3)] torn_lines_unread(1) [OF assms(1,2) Some 2]]
      by simp
  next
    case 3
    have "record_lines line = [line]" using line by (simp add: record_lines_def str_lines_open)
    then have "record_lines line = record_lines (line @ [newline])"
      using record_lines_written [OF assms(1) Some] by simp
    then have "store_get cd f' e = store_get cd (add_bytes (line @ [newline]) f) e" for e
      using f' 3 add_bytes_text_of [OF assms(4)] record_lines_append [OF whole_text_of [OF assms(3)]]
      by (simp add: store_get_def)
    then show ?thesis using f'(1) store_get_appended [OF assms(1,3,4) Some] by simp
  next
    case 4
    then have "f' = add_bytes (line @ [newline]) f" using f' add_bytes_text_of [OF assms(4)] by simp
    then show ?thesis using f'(1) store_get_appended [OF assms(1,3,4) Some] by simp
  qed
qed

text \<open>
  C38: After an append cut short inside the line, by a full disk or a crash, the epoch reads as never
  recorded, not as unreadable: what was left is not JSON, so the probe for the epoch it names finds none.
  The next \<open>put\<close> of the record then appends to the cut line: it answers \<open>Written\<close>, and the epoch still
  reads as never recorded. Only the one after that takes effect.
\<close>
theorem torn_append_swallows_next:
  assumes "codec_ok cd" "torn_ok cd" "whole f" "store_get cd f (epoch_of r) = Absent"
    and "to_line cd r = Some line" "0 < k" "k < length line"
  shows "\<exists>f1 f2 f3. store_put cd (TornAfter k) r f = (Inl WriteFailed, f1) \<and>
     store_get cd f1 (epoch_of r) = Absent \<and>
     store_put cd Whole r f1 = (Inr Appended, f2) \<and> store_get cd f2 (epoch_of r) = Absent \<and>
     store_put cd Whole r f2 = (Inr Appended, f3) \<and> store_get cd f3 (epoch_of r) = Found r"
proof -
  have f: "f \<noteq> NoRead" using assms(4) by (auto simp: store_get_def)
  let ?t = "text_of f"
  note unread = store_get_unread [OF whole_text_of [OF assms(3)] torn_lines_unread(1) [OF assms(1,2,5-7)]]
    store_get_unread [OF whole_text_of [OF assms(3)] torn_lines_unread(2) [OF assms(1,2,5-7)]]
  have 1: "store_put cd (TornAfter k) r f = (Inl WriteFailed, Text (?t @ take k line))"
    using assms(4-7) by (simp add: store_put_def store_append_def add_bytes_text_of [OF f])
  have 2: "store_put cd Whole r (Text (?t @ take k line)) =
      (Inr Appended, Text (?t @ take k line @ line @ [newline]))"
    using assms(4,5) by (simp add: store_put_def store_append_def unread store_get_text_of [OF f])
  let ?f2 = "Text (?t @ take k line @ line @ [newline])"
  have "whole ?f2" by (simp add: whole_text_def)
  then have "store_get cd (add_bytes (line @ [newline]) ?f2) (epoch_of r) = Found r"
    using store_get_appended [OF assms(1) _ _ assms(5), of ?f2] by (simp del: add_bytes.simps)
  moreover have "store_put cd Whole r ?f2 = (Inr Appended, add_bytes (line @ [newline]) ?f2)"
    using assms(4,5) by (simp add: store_put_def store_append_def unread store_get_text_of [OF f])
  ultimately show ?thesis
    using 1 2 assms(4) by (auto simp: unread store_get_text_of [OF f])
qed

section \<open>A concrete store\<close>

definition sample_epoch :: "nat \<Rightarrow> nat \<Rightarrow> nat \<Rightarrow> epoch_record" where
  "sample_epoch e stores required =
     \<lparr>er_epoch = e, er_protocol_version = 1,
      er_census = \<lparr>ec_epoch = e, ec_stores = stores, ec_owners = 2, ec_locked = 50\<rparr>,
      er_required_per_store_dig_base_units = required, er_multiplier_micros = 1000000,
      er_handicap_dig_base_units = 0, er_others = []\<rparr>"

definition genesis_1 :: stored_record where "genesis_1 = bootstrap (sample_epoch 1 0 20)"
definition thin_2 :: stored_record where "thin_2 = censused (sample_epoch 2 40 20) 70"
definition full_2 :: stored_record where "full_2 = censused (sample_epoch 2 42 21) 70"

definition peers_2 :: stored_record where
  "peers_2 = \<lparr>cr_record = sample_epoch 2 90 5, cr_census_height = Some 70, cr_provenance = AdoptedFromPeers 7 9\<rparr>"

lemmas sample_defs = genesis_1_def thin_2_def full_2_def peers_2_def bootstrap_def censused_def sample_epoch_def

definition sample_table :: "(stored_record \<times> string) list" where
  "sample_table = [(genesis_1, ''{g}''), (thin_2, ''{t}''), (full_2, ''{f}''), (peers_2, ''{p}'')]"

definition sample_codec :: record_codec where
  "sample_codec =
     \<lparr>from_line = map_of (map (\<lambda>(r, l). (l, r)) sample_table), epoch_field = (\<lambda>_. None),
      to_line = map_of sample_table\<rparr>"

lemma sample_line_cases:
  assumes "to_line sample_codec r = Some line"
  obtains "line = ''{g}''" "r = genesis_1" | "line = ''{t}''" "r = thin_2" | "line = ''{f}''" "r = full_2"
    | "line = ''{p}''" "r = peers_2"
  using assms by (auto simp: sample_codec_def sample_table_def split: if_splits)

lemma sample_from_line_length: "length l \<noteq> 3 \<Longrightarrow> from_line sample_codec l = None"
  by (auto simp: sample_codec_def sample_table_def)

lemma sample_codec_ok [simp]: "codec_ok sample_codec"
proof -
  have trims: "str_trim ''{g}'' \<noteq> []" "str_trim ''{t}'' \<noteq> []" "str_trim ''{f}'' \<noteq> []" "str_trim ''{p}'' \<noteq> []"
    by code_simp+
  show ?thesis
    unfolding codec_ok_def
  proof (intro allI impI)
    fix r line
    assume "to_line sample_codec r = Some line"
    then show "from_line sample_codec line = Some r \<and> newline \<notin> set line \<and> str_trim line \<noteq> [] \<and>
        line \<noteq> [] \<and> last line \<noteq> carriage_return"
      by (cases rule: sample_line_cases)
        (simp_all add: trims, simp_all add: sample_codec_def sample_table_def newline_def carriage_return_def)
  qed
qed

lemma sample_torn_ok [simp]: "torn_ok sample_codec"
  unfolding torn_ok_def unread_def
proof (intro allI impI conjI)
  fix r line p r' line'
  assume p: "to_line sample_codec r = Some line \<and> strict_prefix p line \<and> p \<noteq> []"
  then have "length line = 3" by (auto elim: sample_line_cases)
  with p have "length p < 3" using prefix_length_less by force
  then show "from_line sample_codec p = None" by (simp add: sample_from_line_length)
  assume "to_line sample_codec r' = Some line'"
  then have "length line' = 3" by (auto elim: sample_line_cases)
  then show "from_line sample_codec (p @ line') = None" using p by (simp add: sample_from_line_length)
qed (simp_all add: sample_codec_def)

lemma sample_lines [simp]:
  "to_line sample_codec genesis_1 = Some ''{g}''" "to_line sample_codec thin_2 = Some ''{t}''"
  "to_line sample_codec full_2 = Some ''{f}''" "to_line sample_codec peers_2 = Some ''{p}''"
  by (simp_all add: sample_codec_def sample_table_def) (simp_all add: sample_defs)

lemma sample_epochs [simp]:
  "epoch_of genesis_1 = 1" "epoch_of thin_2 = 2" "epoch_of full_2 = 2" "epoch_of peers_2 = 2"
  by (simp_all add: sample_defs)

definition sample_file :: epoch_file where
  "sample_file = add_bytes (''{t}'' @ [newline]) (add_bytes (''{g}'' @ [newline]) NoFile)"

lemma sample_whole [simp]: "whole sample_file"
  by (simp add: sample_file_def whole_text_def)

lemma sample_get [simp]:
  "store_get sample_codec sample_file e =
     (if e = 2 then Found thin_2 else if e = 1 then Found genesis_1 else Absent)"
proof -
  let ?f = "add_bytes (''{g}'' @ [newline]) NoFile"
  have "store_get sample_codec ?f e = (if e = 1 then Found genesis_1 else Absent)"
    using store_get_appended [OF sample_codec_ok, of NoFile genesis_1 "''{g}''" e] by (simp add: store_get_def)
  moreover have "whole ?f" "?f \<noteq> NoRead" by (simp_all add: whole_text_def)
  ultimately show ?thesis
    using store_get_appended [OF sample_codec_ok, of ?f thin_2 "''{t}''" e] sample_file_def sample_lines(2)
    by (simp only: sample_epochs) simp
qed

theorem put_answers_truthfully_witness:
  "store_put sample_codec Whole full_2 sample_file = (Inr Appended, add_bytes (''{f}'' @ [newline]) sample_file) \<and>
   (\<forall>e. store_get sample_codec (add_bytes (''{f}'' @ [newline]) sample_file) e =
      (if e = 2 then Found full_2 else if e = 1 then Found genesis_1 else Absent))"
proof -
  have over: "put_over thin_2 full_2 = None"
    by (simp add: put_over_def own_recensus_supersedes_def) (simp add: sample_defs)
  then have "store_put sample_codec Whole full_2 sample_file =
      (Inr Appended, add_bytes (''{f}'' @ [newline]) sample_file)"
    by (simp add: store_put_def store_append_def Let_def)
  then show ?thesis
    using put_answers_truthfully [of sample_codec sample_file Whole full_2 "Inr Appended"] by simp
qed

theorem history_one_way_witness:
  "store_get sample_codec sample_file 2 = Found thin_2 \<and> own_record thin_2 \<and>
   (\<exists>h'. store_get sample_codec
       (put_run sample_codec [(Whole, peers_2), (OpenFails, full_2), (Whole, full_2), (Whole, thin_2)] sample_file) 2 =
       Found h' \<and> required_of h' \<ge> 20)"
proof -
  have "own_record thin_2" "required_of thin_2 = 20" by (simp_all add: own_record_def sample_defs)
  then show ?thesis
    using history_one_way [of sample_codec sample_file
        "[(Whole, peers_2), (OpenFails, full_2), (Whole, full_2), (Whole, thin_2)]" 2 thin_2]
    by auto
qed

theorem prune_keeps_window_witness:
  "store_prune sample_codec True (KeepEpochs 1) 3 sample_file = (Inr 1, Text (''{g}'' @ [newline])) \<and>
   store_get sample_codec (Text (''{g}'' @ [newline])) 1 = Found genesis_1 \<and>
   store_get sample_codec (Text (''{g}'' @ [newline])) 2 = Absent"
proof -
  have content: "sample_file = Text ((''{g}'' @ [newline]) @ (''{t}'' @ [newline]))"
    by (simp add: sample_file_def)
  have lines: "record_lines ((''{g}'' @ [newline]) @ (''{t}'' @ [newline])) = [''{g}'', ''{t}'']"
    using record_lines_written [OF sample_codec_ok sample_lines(1)]
      record_lines_written [OF sample_codec_ok sample_lines(2)]
    by (simp only: record_lines_append [OF whole_text_piece]) simp
  have read: "from_line sample_codec ''{g}'' = Some genesis_1" "from_line sample_codec ''{t}'' = Some thin_2"
    using codec_okD(1) [OF sample_codec_ok] sample_lines by blast+
  have "store_records sample_codec sample_file = Inr [genesis_1, thin_2]"
    unfolding content store_records_def epoch_file.case lines by (simp add: read)
  then have pruned: "store_prune sample_codec True (KeepEpochs 1) 3 sample_file =
      (Inr 1, Text (''{g}'' @ [newline]))"
    by (simp add: store_prune_def kept_epoch_def GENESIS_EPOCH_def Let_def)
  then show ?thesis
    using prune_keeps_window [OF sample_codec_ok pruned] by (simp add: kept_epoch_def GENESIS_EPOCH_def)
qed

theorem torn_append_swallows_next_witness:
  "\<exists>f1 f2. store_put sample_codec (TornAfter 1) thin_2 NoFile = (Inl WriteFailed, f1) \<and>
     store_put sample_codec Whole thin_2 f1 = (Inr Appended, f2) \<and> store_get sample_codec f2 2 = Absent"
  using torn_append_swallows_next [of sample_codec NoFile thin_2 "''{t}''" 1]
  by (auto simp: store_get_def)

end
