(* ===== verification/Collateral_Funding.thy ===== *)
theory Collateral_Funding
  imports Collateral_Store Mirror_States
begin

text \<open>
  What the node answers from its collateral records (\<open>collateral.rs\<close>, \<open>control.rs\<close>, \<open>server.rs\<close>): the
  epoch in force, the requirement of that epoch or the reason there is none, the advice on how much to
  hold, the record a peer may fetch, and the bring-up that seeds and trims the store.

  \<^item> The clock of the schedule and the controller of the price (\<open>dig_constants\<close>, \<open>dig_mirror_collateral\<close>)
    are arguments. \<open>controller_ok\<close> states what the advice relies on: the scale is positive, and a step in
    the escalating band lowers no multiplier and stays under the ceiling.
  \<^item> Products are taken in \<open>u128\<close>, which two \<open>u64\<close> factors cannot overflow, and saturate when they are
    brought back to \<open>u64\<close>.
\<close>

section \<open>The requirement\<close>

datatype current_epoch = Final nat | EpochBehindFinality | EpochNotCensused | EpochNoChain

definition current_epoch_at :: "(int \<Rightarrow> int) \<Rightarrow> int \<Rightarrow> current_epoch" where
  "current_epoch_at mirror_epoch_at_unix_ms now_unix_ms =
     (let ep = mirror_epoch_at_unix_ms now_unix_ms
      in if ep \<ge> 1 then Final (nat ep) else EpochNotCensused)"

record known_requirement =
  kr_epoch :: nat
  kr_protocol_version :: nat
  kr_required_per_store_dig_base_units :: nat
  kr_stores :: nat
  kr_owners :: nat
  kr_multiplier_micros :: nat
  kr_handicap_dig_base_units :: nat

datatype requirement_result =
  Known known_requirement
| Unknown unknown_reason_code

definition known_of :: "stored_record \<Rightarrow> known_requirement" where
  "known_of r =
     \<lparr>kr_epoch = epoch_of r,
      kr_protocol_version = er_protocol_version (cr_record r),
      kr_required_per_store_dig_base_units = required_of r,
      kr_stores = stores_of r,
      kr_owners = owners_of r,
      kr_multiplier_micros = er_multiplier_micros (cr_record r),
      kr_handicap_dig_base_units = er_handicap_dig_base_units (cr_record r)\<rparr>"

definition requirement ::
    "record_codec \<Rightarrow> (nat \<Rightarrow> bool) \<Rightarrow> epoch_file \<Rightarrow> current_epoch \<Rightarrow> requirement_result" where
  "requirement cd implemented f current =
     (case current of
        EpochBehindFinality \<Rightarrow> Unknown BehindFinalityDepth
      | EpochNotCensused \<Rightarrow> Unknown NotCensused
      | EpochNoChain \<Rightarrow> Unknown NoChainSource
      | Final e \<Rightarrow>
          (case store_get cd f e of
             Found r \<Rightarrow>
               if \<not> is_interpretable implemented r then Unknown RecordUnreadable else Known (known_of r)
           | Absent \<Rightarrow> Unknown NotCensused
           | Unreadable \<Rightarrow> Unknown RecordUnreadable))"

text \<open>The part of the answer the mirror passes price their creates with.\<close>

fun priced :: "requirement_result \<Rightarrow> collateral_requirement" where
  "priced (Known k) = RequirementKnown (kr_required_per_store_dig_base_units k)"
| "priced (Unknown reason) = RequirementUnknown reason"

section \<open>The funding advice\<close>

record controller =
  ct_mult_scale :: nat
  ct_signal_cap_micros :: nat
  ct_step_multiplier :: "nat \<Rightarrow> nat \<Rightarrow> nat"
  ct_apply_safety_margin :: safety_margin

fun escalated_multiplier_micros :: "controller \<Rightarrow> nat \<Rightarrow> nat \<Rightarrow> nat" where
  "escalated_multiplier_micros ct from_micros 0 = from_micros"
| "escalated_multiplier_micros ct from_micros (Suc n) =
     ct_step_multiplier ct (escalated_multiplier_micros ct from_micros n) (ct_signal_cap_micros ct)"

definition scale_micros :: "controller \<Rightarrow> nat \<Rightarrow> nat \<Rightarrow> nat" where
  "scale_micros ct amount micros = min (amount * micros div ct_mult_scale ct) u64_max"

definition one_epoch_lock :: "controller \<Rightarrow> nat \<Rightarrow> nat \<Rightarrow> nat \<Rightarrow> nat" where
  "one_epoch_lock ct pairs required_per_store margin =
     (let per_store = ct_apply_safety_margin ct required_per_store margin
      in min (pairs * per_store) u64_max)"

definition relative_ceiling :: "controller \<Rightarrow> nat \<Rightarrow> nat \<Rightarrow> nat" where
  "relative_ceiling ct multiplier_micros epochs =
     min (escalated_multiplier_micros ct multiplier_micros epochs * ct_mult_scale ct
       div max multiplier_micros 1) u64_max"

datatype funding_state = ShortNow | DangerouslyLow | BelowRecommendedBuffer | Funded

datatype buffer_unknown_reason = BufRequirementUnknown | ServedSetUnknown | ReclaimStateUnknown | BalanceUnknown

record known_buffer =
  kb_epoch :: nat
  kb_protocol_version :: nat
  kb_funding_state :: funding_state
  kb_recommended_buffer_dig_base_units :: nat
  kb_spendable_dig_base_units :: nat
  kb_pairs_served_by_this_node :: nat
  kb_required_per_store_dig_base_units :: nat
  kb_margin_bp :: nat
  kb_overlap_dig_base_units :: nat
  kb_escalation_headroom_dig_base_units :: nat
  kb_horizon_epochs :: nat
  kb_escalation_ceiling_micros :: nat

datatype buffer_result =
  BufferKnown known_buffer
| BufferUnknown buffer_unknown_reason

definition funding_state_of :: "nat \<Rightarrow> nat \<Rightarrow> nat \<Rightarrow> nat \<Rightarrow> funding_state" where
  "funding_state_of lock next_epoch_ceiling recommended spendable =
     (if spendable < lock then ShortNow
      else if spendable < next_epoch_ceiling then DangerouslyLow
      else if spendable < recommended then BelowRecommendedBuffer
      else Funded)"

definition buffer_advice ::
    "controller \<Rightarrow> nat option \<Rightarrow> requirement_result \<Rightarrow> nat \<Rightarrow> nat option \<Rightarrow> nat \<Rightarrow> buffer_result" where
  "buffer_advice ct pairs_served req margin spendable_units horizon_epochs =
     (case req of
        Unknown _ \<Rightarrow> BufferUnknown BufRequirementUnknown
      | Known k \<Rightarrow>
          (case pairs_served of
             None \<Rightarrow> BufferUnknown ServedSetUnknown
           | Some pairs \<Rightarrow>
               (case spendable_units of
                  None \<Rightarrow> BufferUnknown BalanceUnknown
                | Some spendable \<Rightarrow>
                    let lock = one_epoch_lock ct pairs (kr_required_per_store_dig_base_units k) margin;
                        overlap = lock;
                        ceiling_micros = relative_ceiling ct (kr_multiplier_micros k) horizon_epochs;
                        headroom = scale_micros ct lock ceiling_micros - lock;
                        recommended = u64_sat_add (u64_sat_add lock overlap) headroom;
                        next_epoch_ceiling =
                          scale_micros ct lock (relative_ceiling ct (kr_multiplier_micros k) 1)
                    in BufferKnown
                      \<lparr>kb_epoch = kr_epoch k,
                       kb_protocol_version = kr_protocol_version k,
                       kb_funding_state = funding_state_of lock next_epoch_ceiling recommended spendable,
                       kb_recommended_buffer_dig_base_units = recommended,
                       kb_spendable_dig_base_units = spendable,
                       kb_pairs_served_by_this_node = pairs,
                       kb_required_per_store_dig_base_units = kr_required_per_store_dig_base_units k,
                       kb_margin_bp = margin,
                       kb_overlap_dig_base_units = overlap,
                       kb_escalation_headroom_dig_base_units = headroom,
                       kb_horizon_epochs = horizon_epochs,
                       kb_escalation_ceiling_micros = ceiling_micros\<rparr>)))"

section \<open>The control surface, the peer surface and the bring-up\<close>

definition bondable_pairs :: "bond_observation \<Rightarrow> nat" where
  "bondable_pairs obs = length (filter (\<lambda>(_, st). st \<noteq> Withheld) (bo_states obs))"

definition collateral_buffer ::
    "record_codec \<Rightarrow> (nat \<Rightarrow> bool) \<Rightarrow> controller \<Rightarrow> nat \<Rightarrow> epoch_file \<Rightarrow> current_epoch
     \<Rightarrow> collateral_config \<Rightarrow> bond_observation option \<Rightarrow> buffer_result" where
  "collateral_buffer cd implemented ct default_horizon f current cfg observation =
     buffer_advice ct (map_option bondable_pairs observation) (requirement cd implemented f current)
       (margin_bp cfg) None default_horizon"

datatype epoch_answer =
  InvalidEpoch
| UnimplementedRuleset nat
| EpochRecord stored_record
| NotRecorded
| RecordNotReadable

definition collateral_epoch_answer ::
    "record_codec \<Rightarrow> (nat \<Rightarrow> bool) \<Rightarrow> (stored_record \<Rightarrow> bool) \<Rightarrow> epoch_file \<Rightarrow> nat option \<Rightarrow> epoch_answer" where
  "collateral_epoch_answer cd implemented to_value_ok f epoch_param =
     (case epoch_param of
        None \<Rightarrow> InvalidEpoch
      | Some e \<Rightarrow>
          if \<not> e \<ge> 1 then InvalidEpoch
          else case store_get cd f e of
              Found r \<Rightarrow>
                if \<not> is_interpretable implemented r then UnimplementedRuleset (er_protocol_version (cr_record r))
                else if to_value_ok r then EpochRecord r else RecordNotReadable
            | Absent \<Rightarrow> NotRecorded
            | Unreadable \<Rightarrow> RecordNotReadable)"

definition bring_up_collateral_records ::
    "record_codec \<Rightarrow> epoch_record \<Rightarrow> write_fault \<Rightarrow> bool \<Rightarrow> collateral_config \<Rightarrow> current_epoch
     \<Rightarrow> epoch_file \<Rightarrow> epoch_file" where
  "bring_up_collateral_records cd genesis w rewritten cfg current f =
     (let f' = snd (ensure_bootstrap cd genesis w f);
          policy = retention cfg
      in case current of
           Final e \<Rightarrow> snd (store_prune cd rewritten policy e f')
         | _ \<Rightarrow> f')"

section \<open>What the answers rest on\<close>

lemma requirement_known:
  "requirement cd implemented f current = Known k \<longleftrightarrow>
     (\<exists>e r. current = Final e \<and> store_get cd f e = Found r \<and> is_interpretable implemented r \<and> k = known_of r)"
  by (auto simp: requirement_def split: current_epoch.splits stored_epoch.splits)

lemma requirement_of_found:
  "store_get cd f e = Found r \<Longrightarrow> requirement cd implemented f (Final e) =
     (if is_interpretable implemented r then Known (known_of r) else Unknown RecordUnreadable)"
  by (simp add: requirement_def)

lemma collateral_buffer_unknown:
  "\<exists>reason. collateral_buffer cd implemented ct h f current cfg obs = BufferUnknown reason"
  by (auto simp: collateral_buffer_def buffer_advice_def split: requirement_result.splits option.splits)

text \<open>
  C12: The price of a create is never talked down. Let the requirement in force come from a record this
  node derived itself, in a file that ends in a newline. After any sequence of \<open>put\<close>s, of anybody's records, whose writes are not torn, the
  answer for that epoch is either no figure at all, because the build does not implement the ruleset of the
  record now held, or a figure that is no lower; and so, for a margin that grows with the requirement, is
  the amount a mirror pass puts on each coin. If all records offered for the epoch came from peers, the
  answer is the same, field by field.
\<close>
theorem price_never_talked_down:
  assumes "codec_ok cd" "whole f" "\<forall>(w, r) \<in> set ps. \<not> torn w"
    and "store_get cd f e = Found h" "own_record h"
    and "\<And>a b m. a \<le> b \<Longrightarrow> margin a m \<le> margin b m"
    and "requirement cd implemented f (Final e) = Known k"
    and after_def: "after = requirement cd implemented (put_run cd ps f) (Final e)"
  shows "(after = Unknown RecordUnreadable \<or>
      (\<exists>k'. after = Known k' \<and>
         kr_required_per_store_dig_base_units k \<le> kr_required_per_store_dig_base_units k')) \<and>
    (\<forall>bp amount. per_coin_dig_base_units margin (priced after) bp = Some amount \<longrightarrow>
       the (per_coin_dig_base_units margin (priced (Known k)) bp) \<le> amount) \<and>
    ((\<forall>(w, r) \<in> set ps. epoch_of r = e \<longrightarrow> is_adopted (cr_provenance r)) \<longrightarrow> after = Known k)"
proof -
  let ?offers = "offers cd e ps"
  let ?h' = "climb (\<lambda>h i. put_over h i = None) h ?offers"
  have k: "k = known_of h" using assms(4,7) by (auto simp: requirement_known)
  have after: "after = (if is_interpretable implemented ?h' then Known (known_of ?h') else Unknown RecordUnreadable)"
    unfolding after_def by (rule requirement_of_found [OF put_run_climbs [OF assms(1-4)]])
  have up: "required_of h \<le> required_of ?h'"
    using ladder.climb_up [OF assms(5), of ?offers] by (simp add: no_lower_def)
  have same: "?h' = h" if "\<forall>(w, r) \<in> set ps. epoch_of r = e \<longrightarrow> is_adopted (cr_provenance r)"
    using that by (intro ladder.climb_strangers [OF assms(5)]) (auto simp: offers_def own_record_def)
  have first: "after = Unknown RecordUnreadable \<or>
      (\<exists>k'. after = Known k' \<and>
         kr_required_per_store_dig_base_units k \<le> kr_required_per_store_dig_base_units k')"
    using up by (simp add: after k known_of_def)
  moreover have "after = Known k" if "\<forall>(w, r) \<in> set ps. epoch_of r = e \<longrightarrow> is_adopted (cr_provenance r)"
    using same [OF that] assms(7) requirement_of_found [OF assms(4), of implemented]
    by (simp add: after split: if_splits)
  moreover have "the (per_coin_dig_base_units margin (priced (Known k)) bp) \<le> amount"
    if "per_coin_dig_base_units margin (priced after) bp = Some amount" for bp amount
    using first that assms(6) by auto
  ultimately show ?thesis by blast
qed

section \<open>The thresholds of the advice\<close>

definition controller_ok :: "controller \<Rightarrow> nat \<Rightarrow> bool" where
  "controller_ok ct ceil_micros \<longleftrightarrow>
     0 < ct_mult_scale ct \<and> ct_mult_scale ct \<le> u64_max \<and>
     (\<forall>m \<le> ceil_micros. m \<le> ct_step_multiplier ct m (ct_signal_cap_micros ct) \<and>
        ct_step_multiplier ct m (ct_signal_cap_micros ct) \<le> ceil_micros)"

lemma escalated_range:
  assumes "controller_ok ct C" "m \<le> C"
  shows "escalated_multiplier_micros ct m n \<le> C"
    and "escalated_multiplier_micros ct m n \<le> escalated_multiplier_micros ct m (Suc n)"
proof -
  show "escalated_multiplier_micros ct m n \<le> C"
    using assms by (induction n) (auto simp: controller_ok_def)
  then show "escalated_multiplier_micros ct m n \<le> escalated_multiplier_micros ct m (Suc n)"
    using assms(1) by (simp add: controller_ok_def)
qed

lemma escalated_mono:
  assumes "controller_ok ct C" "m \<le> C" "n \<le> n'"
  shows "escalated_multiplier_micros ct m n \<le> escalated_multiplier_micros ct m n'"
  using lift_Suc_mono_le [of "escalated_multiplier_micros ct m"] escalated_range(2) [OF assms(1,2)] assms(3)
  by blast

lemma relative_ceiling_mono:
  "controller_ok ct C \<Longrightarrow> m \<le> C \<Longrightarrow> n \<le> n' \<Longrightarrow> relative_ceiling ct m n \<le> relative_ceiling ct m n'"
  unfolding relative_ceiling_def by (intro min.mono div_le_mono mult_right_mono escalated_mono) auto

lemma relative_ceiling_0: "controller_ok ct C \<Longrightarrow> 0 < m \<Longrightarrow> relative_ceiling ct m 0 = ct_mult_scale ct"
  by (simp add: relative_ceiling_def controller_ok_def min_absorb1 max_absorb1)

lemma scale_micros_mono: "a \<le> b \<Longrightarrow> scale_micros ct x a \<le> scale_micros ct x b"
  unfolding scale_micros_def by (intro min.mono div_le_mono mult_left_mono) auto

lemma scale_micros_unit: "controller_ok ct C \<Longrightarrow> x \<le> u64_max \<Longrightarrow> scale_micros ct x (ct_mult_scale ct) = x"
  by (simp add: scale_micros_def controller_ok_def min_absorb1)

lemma one_epoch_lock_le: "one_epoch_lock ct pairs req margin \<le> u64_max"
  by (simp add: one_epoch_lock_def Let_def)

text \<open>
  The states of the advice partition the balances in the order they are named. With a horizon of at
  least one epoch and a multiplier the controller can hold, the amount one epoch locks is at most the
  amount the next could lock, which is at most the recommended buffer; so the node is short exactly below
  the first, dangerously low exactly between the first two, below the buffer exactly between the last two,
  and funded exactly from the buffer on. The buffer is the sum of the three terms it reports, or the
  greatest \<open>u64\<close>.
\<close>
theorem buffer_thresholds_ordered:
  assumes "controller_ok ct C" "0 < kr_multiplier_micros k" "kr_multiplier_micros k \<le> C" "1 \<le> horizon"
    and "buffer_advice ct (Some pairs) (Known k) margin (Some spendable) horizon = BufferKnown b"
    and lock_def: "lock = one_epoch_lock ct pairs (kr_required_per_store_dig_base_units k) margin"
    and next_epoch_def: "next_epoch = scale_micros ct lock (relative_ceiling ct (kr_multiplier_micros k) 1)"
    and recommended_def: "recommended = kb_recommended_buffer_dig_base_units b"
  shows "lock \<le> next_epoch \<and> next_epoch \<le> recommended \<and>
    recommended = min (lock + kb_overlap_dig_base_units b + kb_escalation_headroom_dig_base_units b) u64_max \<and>
    (kb_funding_state b = ShortNow \<longleftrightarrow> spendable < lock) \<and>
    (kb_funding_state b = DangerouslyLow \<longleftrightarrow> lock \<le> spendable \<and> spendable < next_epoch) \<and>
    (kb_funding_state b = BelowRecommendedBuffer \<longleftrightarrow> next_epoch \<le> spendable \<and> spendable < recommended) \<and>
    (kb_funding_state b = Funded \<longleftrightarrow> recommended \<le> spendable)"
proof -
  define far where "far = scale_micros ct lock (relative_ceiling ct (kr_multiplier_micros k) horizon)"
  have b: "kb_funding_state b = funding_state_of lock next_epoch recommended spendable"
    "kb_overlap_dig_base_units b = lock" "kb_escalation_headroom_dig_base_units b = far - lock"
    "recommended = u64_sat_add (u64_sat_add lock lock) (far - lock)"
    using assms(5) by (auto simp: buffer_advice_def Let_def lock_def next_epoch_def recommended_def far_def)
  have lock: "lock \<le> u64_max" unfolding lock_def by (rule one_epoch_lock_le)
  have "scale_micros ct lock (relative_ceiling ct (kr_multiplier_micros k) 0) \<le> next_epoch"
    unfolding next_epoch_def by (intro scale_micros_mono relative_ceiling_mono [OF assms(1,3)]) simp
  then have 1: "lock \<le> next_epoch"
    by (simp add: relative_ceiling_0 [OF assms(1,2)] scale_micros_unit [OF assms(1) lock])
  have 2: "next_epoch \<le> far"
    unfolding next_epoch_def far_def by (intro scale_micros_mono relative_ceiling_mono [OF assms(1,3,4)])
  have "far \<le> u64_max" by (simp add: far_def scale_micros_def)
  then have "next_epoch \<le> recommended" using 1 2 by (simp add: b(4) u64_sat_add_def)
  then show ?thesis using 1 by (auto simp: b(1-3) funding_state_of_def) (auto simp: b(4) u64_sat_add_def)
qed

section \<open>The bring-up\<close>

text \<open>Bringing the store up keeps the record of every epoch from the oldest kept one on.\<close>

lemma bring_up_keeps:
  assumes "codec_ok cd" "whole f" "\<not> torn w" "store_get cd f e = Found h"
    and "cr_record h = genesis \<and> cr_provenance h = Bootstrap \<or> e \<noteq> er_epoch genesis"
    and "\<And>keep c. retention cfg = KeepEpochs keep \<Longrightarrow> current = Final c \<Longrightarrow> kept_epoch keep c e"
  shows "store_get cd (bring_up_collateral_records cd genesis w rewritten cfg current f) e = Found h"
proof -
  let ?f' = "snd (ensure_bootstrap cd genesis w f)"
  have over: "put_over h (bootstrap genesis) \<noteq> None" if "cr_record h = genesis" "cr_provenance h = Bootstrap"
    using that by (simp add: put_over_def bootstrap_def own_recensus_supersedes_def)
  have boot: "store_get cd ?f' e = Found h"
    using store_put_over [OF assms(1-4), of "bootstrap genesis"] assms(5) over
    by (auto simp: ensure_bootstrap_def bootstrap_def)
  show ?thesis
  proof (cases current)
    case (Final c)
    obtain res f'' where prune: "store_prune cd rewritten (retention cfg) c ?f' = (res, f'')" by force
    from assms(1) prune have "store_get cd f'' e = Found h"
    proof (cases rule: store_prune_cases)
      case (rewritten keep n)
      then show ?thesis using boot assms(6) [OF rewritten(1) Final] by simp
    qed (simp add: boot)
    then show ?thesis using prune Final by (simp add: bring_up_collateral_records_def Let_def)
  qed (simp_all add: bring_up_collateral_records_def boot)
qed

section \<open>Concrete answers\<close>

definition sample_controller :: controller where
  "sample_controller =
     \<lparr>ct_mult_scale = 1000000, ct_signal_cap_micros = 4000000,
      ct_step_multiplier = (\<lambda>m _. min (m + m div 8) 16000000),
      ct_apply_safety_margin = (\<lambda>a bp. a + (a * bp + 9999) div 10000)\<rparr>"

lemma sample_controller_ok: "controller_ok sample_controller 16000000"
  by (simp add: controller_ok_def sample_controller_def)

theorem price_never_talked_down_witness:
  "requirement sample_codec (\<lambda>v. v = 1) sample_file (Final 2) = Known (known_of thin_2) \<and>
   requirement sample_codec (\<lambda>v. v = 1) (put_run sample_codec [(Whole, peers_2)] sample_file) (Final 2) =
     Known (known_of thin_2)"
proof -
  have req: "requirement sample_codec (\<lambda>v. v = 1) sample_file (Final 2) = Known (known_of thin_2)"
    by (simp add: requirement_def is_interpretable_def) (simp add: sample_defs)
  have "own_record thin_2" "is_adopted (cr_provenance peers_2)" by (simp_all add: own_record_def sample_defs)
  then show ?thesis
    using price_never_talked_down [of sample_codec sample_file "[(Whole, peers_2)]" 2 thin_2 "\<lambda>a _. a", OF _ _ _ _ _ _ req refl] req
    by simp
qed

theorem buffer_thresholds_ordered_witness:
  "\<exists>b. buffer_advice sample_controller (Some 3) (Known (known_of thin_2)) 100 (Some 64) 4 = BufferKnown b \<and>
     kb_funding_state b = DangerouslyLow \<and> kb_recommended_buffer_dig_base_units b \<ge> 70"
proof -
  let ?advice = "buffer_advice sample_controller (Some 3) (Known (known_of thin_2)) 100 (Some 64) 4"
  obtain b where b: "?advice = BufferKnown b" by (simp add: buffer_advice_def Let_def)
  have "0 < kr_multiplier_micros (known_of thin_2)" "kr_multiplier_micros (known_of thin_2) \<le> 16000000"
    by (simp_all add: known_of_def sample_defs)
  note spec = buffer_thresholds_ordered [OF sample_controller_ok this _ b refl refl refl]
  have "one_epoch_lock sample_controller 3 (kr_required_per_store_dig_base_units (known_of thin_2)) 100 = 63"
    by (simp add: one_epoch_lock_def sample_controller_def known_of_def sample_defs)
  moreover have "scale_micros sample_controller 63 (relative_ceiling sample_controller
      (kr_multiplier_micros (known_of thin_2)) 1) = 70"
    by (simp add: scale_micros_def relative_ceiling_def sample_controller_def known_of_def sample_defs)
  ultimately have "kb_funding_state b = DangerouslyLow \<and> kb_recommended_buffer_dig_base_units b \<ge> 70"
    using conjunct1 [OF conjunct2 [OF spec]] spec by auto
  then show ?thesis using b by blast
qed

end
