(* ===== verification/Collateral_Sync.thy ===== *)
theory Collateral_Sync
  imports Collateral_Store
begin

text \<open>
  Adopting an epoch's record from a sample of untrusted peers (\<open>collateral_sync.rs\<close>): re-deriving each
  answer from the record this node holds, one vote for each responder and none for one that equivocates,
  and the agreement of the planned sample.

  \<^item> The recurrence \<open>EpochRecord::advance\<close>, the sample plan and the canonical text of a record that keys
    the tally are arguments (\<open>dig_mirror_collateral\<close>, \<open>serde_json\<close>).
  \<^item> Both maps are \<open>BTreeMap\<close>s: lists in ascending order of their keys. A tally whose \<open>expect\<close> fails is
    \<open>None\<close>.
\<close>

section \<open>Re-deriving one answer\<close>

datatype collateral_error = NonSequentialEpoch (expected_epoch: nat) (found_epoch: nat) | OtherRefusal

type_synonym recurrence = "epoch_record \<Rightarrow> epoch_census \<Rightarrow> collateral_error + epoch_record"

record peer_record =
  pr_responder :: string
  pr_record :: stored_record

datatype rejection =
  NonSequential nat nat
| RulesetNotImplemented nat
| ArithmeticMismatch
| CensusHeightNotAdvancing nat nat
| CensusHeightMissing nat
| Equivocated

definition verify ::
    "(nat \<Rightarrow> bool) \<Rightarrow> recurrence \<Rightarrow> stored_record \<Rightarrow> stored_record \<Rightarrow> rejection + unit" where
  "verify implemented advance prior candidate =
     (if \<not> is_interpretable implemented prior
      then Inl (RulesetNotImplemented (er_protocol_version (cr_record prior)))
      else if \<not> is_interpretable implemented candidate
      then Inl (RulesetNotImplemented (er_protocol_version (cr_record candidate)))
      else case advance (cr_record prior) (er_census (cr_record candidate)) of
          Inl (NonSequentialEpoch expected found) \<Rightarrow> Inl (NonSequential expected found)
        | Inl _ \<Rightarrow> Inl (RulesetNotImplemented (er_protocol_version (cr_record candidate)))
        | Inr derived \<Rightarrow>
            if derived \<noteq> cr_record candidate then Inl ArithmeticMismatch
            else case (cr_census_height prior, cr_census_height candidate) of
                (Some previous, Some found) \<Rightarrow>
                  if found \<le> previous then Inl (CensusHeightNotAdvancing previous found) else Inr ()
              | (_, None) \<Rightarrow>
                  if epoch_of candidate > GENESIS_EPOCH then Inl (CensusHeightMissing (epoch_of candidate))
                  else Inr ()
              | _ \<Rightarrow> Inr ())"

section \<open>The vote\<close>

record sync_sample_plan =
  sp_population :: nat
  sp_sample_size :: nat
  sp_agreement_threshold :: nat
  sp_advisory_only :: bool

datatype adopt_outcome =
  Adopted stored_record
| AdvisoryNoPopulation
| AdvisorySmallPopulation
| PopulationExceeded nat nat
| SampleExceeded nat nat
| NoAgreement nat nat nat

text \<open>One response, entered into \<open>by_responder\<close>.\<close>

definition cast_vote ::
    "(string \<times> stored_record option) list \<Rightarrow> peer_record \<Rightarrow> (string \<times> stored_record option) list" where
  "cast_vote by_responder p =
     (case map_of by_responder (pr_responder p) of
        None \<Rightarrow> bt_insert (pr_responder p) (Some (pr_record p)) by_responder
      | Some (Some first) \<Rightarrow>
          if first = pr_record p then by_responder else bt_insert (pr_responder p) None by_responder
      | Some None \<Rightarrow> bt_insert (pr_responder p) None by_responder)"

definition by_responder :: "peer_record list \<Rightarrow> (string \<times> stored_record option) list" where
  "by_responder responses = foldl cast_vote [] responses"

text \<open>\<open>Option\<close>'s order: \<open>None\<close> below every \<open>Some\<close>.\<close>

fun height_less :: "nat option \<Rightarrow> nat option \<Rightarrow> bool" where
  "height_less None None = False"
| "height_less None (Some _) = True"
| "height_less (Some _) None = False"
| "height_less (Some a) (Some b) = (a < b)"

type_synonym tally_map = "(string \<times> (nat \<times> stored_record)) list"

definition tally_step ::
    "(nat \<Rightarrow> bool) \<Rightarrow> recurrence \<Rightarrow> (epoch_record \<Rightarrow> string option) \<Rightarrow> stored_record
     \<Rightarrow> tally_map \<times> nat \<Rightarrow> stored_record \<Rightarrow> tally_map \<times> nat" where
  "tally_step implemented advance key prior acc r =
     (case acc of (tally, verified) \<Rightarrow>
        case verify implemented advance prior r of
          Inl _ \<Rightarrow> (tally, verified)
        | Inr _ \<Rightarrow>
            (case key (cr_record r) of
               None \<Rightarrow> (tally, verified + 1)
             | Some k \<Rightarrow>
                 let (count, entry) = (case map_of tally k of None \<Rightarrow> (0, r) | Some ce \<Rightarrow> ce);
                     entry' = (if height_less (cr_census_height r) (cr_census_height entry)
                       then entry\<lparr>cr_census_height := cr_census_height r\<rparr> else entry)
                 in (bt_insert k (count + 1, entry') tally, verified + 1)))"

definition tally_votes ::
    "(nat \<Rightarrow> bool) \<Rightarrow> recurrence \<Rightarrow> (epoch_record \<Rightarrow> string option) \<Rightarrow> stored_record
     \<Rightarrow> stored_record list \<Rightarrow> tally_map \<times> nat" where
  "tally_votes implemented advance key prior rs =
     foldl (tally_step implemented advance key prior) ([], 0) rs"

text \<open>\<open>Iterator::max_by_key\<close> on the counts: the last of the entries with the greatest one.\<close>

fun max_by_count :: "(nat \<times> 'a) list \<Rightarrow> (nat \<times> 'a) option" where
  "max_by_count [] = None"
| "max_by_count (x # xs) =
     (case max_by_count xs of
        None \<Rightarrow> Some x
      | Some y \<Rightarrow> if fst x > fst y then Some x else Some y)"

definition decide_votes ::
    "(nat \<Rightarrow> bool) \<Rightarrow> recurrence \<Rightarrow> (epoch_record \<Rightarrow> string option) \<Rightarrow> sync_sample_plan \<Rightarrow> stored_record
     \<Rightarrow> (string \<times> stored_record option) list \<Rightarrow> adopt_outcome option" where
  "decide_votes implemented advance key sp prior votes =
     (let responders = length votes
      in if responders > sp_population sp then Some (PopulationExceeded (sp_population sp) responders)
         else if responders > sp_sample_size sp then Some (SampleExceeded (sp_sample_size sp) responders)
         else
           let (tally, verified) =
                 tally_votes implemented advance key prior (List.map_filter snd votes);
               best = foldr max (map (fst \<circ> snd) tally) 0
           in if best < sp_agreement_threshold sp
              then Some (NoAgreement verified (sp_agreement_threshold sp) best)
              else case max_by_count (map snd tally) of
                  None \<Rightarrow> None
                | Some (agreeing, winner) \<Rightarrow>
                    Some (Adopted
                      \<lparr>cr_record = cr_record winner,
                       cr_census_height = cr_census_height winner,
                       cr_provenance = AdoptedFromPeers agreeing responders\<rparr>))"

definition adopt ::
    "(nat \<Rightarrow> bool) \<Rightarrow> recurrence \<Rightarrow> (epoch_record \<Rightarrow> string option) \<Rightarrow> (nat \<Rightarrow> sync_sample_plan)
     \<Rightarrow> stored_record \<Rightarrow> nat option \<Rightarrow> peer_record list \<Rightarrow> adopt_outcome option" where
  "adopt implemented advance key sync_sample_plan prior population responses =
     (case population of
        None \<Rightarrow> Some AdvisoryNoPopulation
      | Some p \<Rightarrow>
          let sp = sync_sample_plan p
          in if sp_advisory_only sp then Some AdvisorySmallPopulation
             else decide_votes implemented advance key sp prior (by_responder responses))"

section \<open>One vote for each responder\<close>

text \<open>The answers a responder gave, and the vote they amount to: the one answer it gave, once or
  repeatedly, or none when it gave two.\<close>

definition answers :: "peer_record list \<Rightarrow> string \<Rightarrow> stored_record set" where
  "answers ps k = pr_record ` {p \<in> set ps. pr_responder p = k}"

definition vote_is :: "stored_record set \<Rightarrow> stored_record option \<Rightarrow> bool" where
  "vote_is A v \<longleftrightarrow> A \<noteq> {} \<and> (case v of Some r \<Rightarrow> A = {r} | None \<Rightarrow> \<not> (\<exists>r. A = {r}))"

lemma vote_is_Some [simp]: "vote_is A (Some r) \<longleftrightarrow> A = {r}"
  by (auto simp: vote_is_def)

lemma vote_is_unique: "vote_is A v \<Longrightarrow> vote_is A w \<Longrightarrow> v = w"
  by (auto simp: vote_is_def split: option.splits)

lemma vote_is_insert_equivocated:
  assumes "vote_is A None"
  shows "vote_is (insert x A) None"
proof -
  obtain a where a: "a \<in> A" "a \<noteq> x" using assms by (auto simp: vote_is_def)
  then have "insert x A \<noteq> {r}" for r by auto
  then show ?thesis by (simp add: vote_is_def)
qed

lemma vote_is_insert_differing: "x \<noteq> r \<Longrightarrow> vote_is {x, r} None"
  by (auto simp: vote_is_def)

lemma answers_snoc:
  "answers (ps @ [p]) k = (if pr_responder p = k then insert (pr_record p) (answers ps k) else answers ps k)"
  by (auto simp: answers_def)

lemma answers_filter: "answers ps k = set (map pr_record (filter (\<lambda>p. pr_responder p = k) ps))"
  by (auto simp: answers_def)

lemma by_responder_snoc: "by_responder (ps @ [p]) = cast_vote (by_responder ps) p"
  by (simp add: by_responder_def)

lemma bt_ok_cast: "bt_ok m \<Longrightarrow> bt_ok (cast_vote m p)"
  by (simp add: cast_vote_def bt_ok_insert split: option.split)

lemma bt_ok_by_responder: "bt_ok (by_responder ps)"
  by (induction ps rule: rev_induct) (simp_all add: by_responder_snoc bt_ok_cast, simp add: by_responder_def bt_ok_def)

lemma map_of_cast_vote:
  assumes "bt_ok m"
  shows "map_of (cast_vote m p) k =
     (if pr_responder p \<noteq> k then map_of m k
      else case map_of m k of
          None \<Rightarrow> Some (Some (pr_record p))
        | Some (Some first) \<Rightarrow> if first = pr_record p then Some (Some first) else Some None
        | Some None \<Rightarrow> Some None)"
  by (auto simp: cast_vote_def map_of_bt_insert [OF assms] split: option.splits)

lemma by_responder_spec:
  "case map_of (by_responder ps) k of None \<Rightarrow> answers ps k = {} | Some v \<Rightarrow> vote_is (answers ps k) v"
proof (induction ps rule: rev_induct)
  case Nil
  then show ?case by (simp add: by_responder_def answers_def)
next
  case (snoc p ps)
  show ?case
  proof (cases "pr_responder p = k")
    case False
    then show ?thesis using snoc
      by (simp add: by_responder_snoc map_of_cast_vote [OF bt_ok_by_responder] answers_snoc split: option.splits)
  next
    case True
    then show ?thesis using snoc
      by (auto simp: by_responder_snoc map_of_cast_vote [OF bt_ok_by_responder] answers_snoc
          vote_is_insert_equivocated vote_is_insert_differing split: option.splits)
  qed
qed

lemma map_of_by_responder: "map_of (by_responder ps) k = Some v \<longleftrightarrow> vote_is (answers ps k) v"
  using by_responder_spec [of ps k] vote_is_unique [of "answers ps k" v]
  by (cases "map_of (by_responder ps) k") (auto simp: vote_is_def)

lemma bt_ok_unique:
  assumes "bt_ok m" "bt_ok m'" "map_of m = map_of m'"
  shows "m = m'"
proof -
  have "set (map fst m) = set (map fst m')" using assms(3) by (metis dom_map_of_conv_image_fst list.set_map)
  then have keys: "map fst m = map fst m'"
    using assms(1,2) strict_sorted_equal unfolding bt_ok_def by blast
  have rebuilt: "map (\<lambda>k. (k, the (map_of l k))) (map fst l) = l" if "bt_ok l" for l :: "('a \<times> 'b) list"
    using bt_ok_hm_ok [OF that] by (auto simp: hm_ok_def intro!: map_idI)
  show ?thesis using rebuilt [OF assms(1)] rebuilt [OF assms(2)] keys assms(3) by metis
qed

text \<open>The order in which the responses came in, and repetitions among them, make no difference.\<close>

lemma by_responder_set:
  assumes "set ps = set qs"
  shows "by_responder ps = by_responder qs"
proof (rule bt_ok_unique [OF bt_ok_by_responder bt_ok_by_responder], rule ext)
  fix k
  have "answers ps k = answers qs k" by (simp add: answers_def assms)
  then have "map_of (by_responder ps) k = Some v \<longleftrightarrow> map_of (by_responder qs) k = Some v" for v
    by (simp add: map_of_by_responder)
  then show "map_of (by_responder ps) k = map_of (by_responder qs) k" by (metis not_Some_eq)
qed

lemma responders_of_votes: "fst ` set (by_responder ps) = pr_responder ` set ps"
proof -
  have "map_of (by_responder ps) k = None \<longleftrightarrow> k \<notin> pr_responder ` set ps" for k
    using by_responder_spec [of ps k]
    by (cases "map_of (by_responder ps) k") (auto simp: vote_is_def answers_def)
  then show ?thesis by (metis (no_types, lifting) map_of_eq_None_iff set_eq_iff)
qed

section \<open>The tally\<close>

definition verifies :: "(nat \<Rightarrow> bool) \<Rightarrow> recurrence \<Rightarrow> stored_record \<Rightarrow> stored_record \<Rightarrow> bool" where
  "verifies implemented advance prior r \<longleftrightarrow> verify implemented advance prior r = Inr ()"

lemma height_less_trans: "height_less a b \<Longrightarrow> height_less b c \<Longrightarrow> height_less a c"
  by (cases a; cases b; cases c) auto

lemma height_less_irrefl [simp]: "\<not> height_less a a"
  by (cases a) auto

lemma height_not_less_trans: "\<not> height_less a b \<Longrightarrow> height_less c b \<Longrightarrow> \<not> height_less a c"
  by (cases a; cases b; cases c) auto

text \<open>What an entry of the tally says of the answers tallied under its key.\<close>

definition tally_entry :: "stored_record list \<Rightarrow> (nat \<times> stored_record) option \<Rightarrow> bool" where
  "tally_entry ys ce \<longleftrightarrow>
     (case ce of
        None \<Rightarrow> ys = []
      | Some (n, y) \<Rightarrow> n = length ys \<and> 0 < n \<and> cr_record y \<in> cr_record ` set ys \<and>
          cr_census_height y \<in> cr_census_height ` set ys \<and>
          (\<forall>x \<in> set ys. \<not> height_less (cr_census_height x) (cr_census_height y)))"

lemma tally_entry_snoc:
  assumes "tally_entry ys ce" "(case ce of None \<Rightarrow> (0, r) | Some p \<Rightarrow> p) = (n, y)"
  shows "tally_entry (ys @ [r]) (Some (n + 1,
     if height_less (cr_census_height r) (cr_census_height y) then y\<lparr>cr_census_height := cr_census_height r\<rparr> else y))"
  using assms height_not_less_trans [of _ "cr_census_height y" "cr_census_height r"]
  by (auto simp: tally_entry_def split: option.splits)

lemma tally_votes_spec:
  assumes "tally_votes implemented advance key prior rs = (tally, n)"
  shows "bt_ok tally \<and> n = length (filter (verifies implemented advance prior) rs) \<and>
     (\<forall>k. tally_entry (filter (\<lambda>r. verifies implemented advance prior r \<and> key (cr_record r) = Some k) rs)
        (map_of tally k))"
  using assms
proof (induction rs arbitrary: tally n rule: rev_induct)
  case Nil
  then show ?case by (simp add: tally_votes_def bt_ok_def tally_entry_def)
next
  case (snoc r rs)
  obtain tally0 n0 where prev: "tally_votes implemented advance key prior rs = (tally0, n0)" by force
  note IH = snoc.IH [OF prev]
  have step: "tally_step implemented advance key prior (tally0, n0) r = (tally, n)"
    using snoc.prems prev by (simp add: tally_votes_def)
  show ?case
  proof (cases "verifies implemented advance prior r")
    case False
    then obtain e where "verify implemented advance prior r = Inl e"
      by (cases "verify implemented advance prior r") (auto simp: verifies_def)
    then show ?thesis using IH step False by (auto simp: tally_step_def)
  next
    case True
    then have ok: "verify implemented advance prior r = Inr ()" by (simp add: verifies_def)
    show ?thesis
    proof (cases "key (cr_record r)")
      case None
      then show ?thesis using IH step True ok by (auto simp: tally_step_def)
    next
      case (Some k)
      obtain c y where cy: "(case map_of tally0 k of None \<Rightarrow> (0, r) | Some ce \<Rightarrow> ce) = (c, y)" by force
      define y' where "y' = (if height_less (cr_census_height r) (cr_census_height y)
        then y\<lparr>cr_census_height := cr_census_height r\<rparr> else y)"
      have tally: "tally = bt_insert k (c + 1, y') tally0" "n = n0 + 1"
        using step ok Some cy by (auto simp: tally_step_def y'_def)
      have new: "tally_entry (filter (\<lambda>r. verifies implemented advance prior r \<and> key (cr_record r) = Some k) rs @ [r])
          (map_of tally k)"
        using tally_entry_snoc [OF _ cy] IH by (simp add: tally map_of_bt_insert y'_def)
      have "tally_entry (filter (\<lambda>r. verifies implemented advance prior r \<and> key (cr_record r) = Some k') (rs @ [r]))
          (map_of tally k')" for k'
      proof (cases "k' = k")
        case True
        then show ?thesis using new \<open>verifies implemented advance prior r\<close> Some by simp
      next
        case False
        then show ?thesis using IH Some by (simp add: tally map_of_bt_insert)
      qed
      then show ?thesis using IH True by (simp add: tally bt_ok_insert)
    qed
  qed
qed

lemma max_by_count_spec:
  "max_by_count xs = Some x \<Longrightarrow> x \<in> set xs \<and> (\<forall>y \<in> set xs. fst y \<le> fst x)"
proof (induction xs arbitrary: x)
  case (Cons a xs)
  show ?case
  proof (cases "max_by_count xs")
    case None
    then have "xs = []" by (cases xs) (auto split: option.splits if_splits)
    then show ?thesis using Cons.prems by simp
  next
    case (Some y)
    then show ?thesis using Cons.prems Cons.IH [OF Some] by (force split: if_splits)
  qed
qed simp

lemma max_by_count_None: "max_by_count xs = None \<longleftrightarrow> xs = []"
  by (cases xs) (auto split: option.splits)

lemma foldr_max_count: "max_by_count xs = Some x \<Longrightarrow> foldr max (map fst xs) 0 = fst x"
proof (induction xs arbitrary: x)
  case (Cons y xs)
  then show ?case by (cases "max_by_count xs") (auto simp: max_by_count_None split: if_splits)
qed simp

section \<open>Whom a record can count on\<close>

definition backers ::
    "(nat \<Rightarrow> bool) \<Rightarrow> recurrence \<Rightarrow> stored_record \<Rightarrow> peer_record list \<Rightarrow> epoch_record \<Rightarrow> string set" where
  "backers implemented advance prior ps R =
     {k. \<exists>x. answers ps k = {x} \<and> cr_record x = R \<and> verifies implemented advance prior x}"

lemma finite_backers: "finite (backers implemented advance prior ps R)"
proof (rule finite_subset)
  show "backers implemented advance prior ps R \<subseteq> pr_responder ` set ps"
    by (auto simp: backers_def answers_def)
qed simp

lemma backers_responders: "backers implemented advance prior ps R \<subseteq> pr_responder ` set ps"
  by (auto simp: backers_def answers_def)

lemma backers_disjoint:
  "R \<noteq> R' \<Longrightarrow> backers implemented advance prior ps R \<inter> backers implemented advance prior ps R' = {}"
  by (auto simp: backers_def)

lemma length_filter_votes:
  assumes "distinct (map fst m)"
  shows "length (filter Q (List.map_filter snd m)) = card {k. \<exists>x. (k, Some x) \<in> set m \<and> Q x}"
  using assms
proof (induction m)
  case (Cons kv m)
  obtain k v where kv: "kv = (k, v)" by force
  let ?S = "\<lambda>m. {k. \<exists>x. (k, Some x) \<in> set m \<and> Q x}"
  have fin: "finite (?S m)" by (rule finite_subset [of _ "fst ` set m"]) force+
  have "k \<notin> ?S m" using Cons.prems kv by force
  moreover have "?S (kv # m) = (if \<exists>x. v = Some x \<and> Q x then insert k (?S m) else ?S m)"
    by (auto simp: kv)
  ultimately show ?case using Cons fin kv by (cases v) (auto simp: map_filter_simps)
qed (simp add: map_filter_simps)

lemma votes_in_map: "(k, Some x) \<in> set (by_responder ps) \<longleftrightarrow> answers ps k = {x}"
proof -
  have "distinct (map fst (by_responder ps))"
    using bt_ok_hm_ok [OF bt_ok_by_responder] by (simp add: hm_ok_def)
  then have "(k, Some x) \<in> set (by_responder ps) \<longleftrightarrow> map_of (by_responder ps) k = Some (Some x)" by simp
  then show ?thesis by (simp add: map_of_by_responder)
qed

definition key_ok :: "(epoch_record \<Rightarrow> string option) \<Rightarrow> bool" where
  "key_ok key \<longleftrightarrow> (\<forall>a b s. key a = Some s \<and> key b = Some s \<longrightarrow> a = b)"

text \<open>A key of the tally stands for one record, and its count for the record's backers.\<close>

lemma tally_backers:
  assumes "key_ok key" "key R = Some k"
    and "tally_votes implemented advance key prior (List.map_filter snd (by_responder ps)) = (tally, n)"
  shows "map_of tally k = None \<longleftrightarrow> backers implemented advance prior ps R = {}"
    and "map_of tally k = Some (c, y) \<Longrightarrow>
      c = card (backers implemented advance prior ps R) \<and> 0 < c \<and> cr_record y = R \<and>
      (\<exists>b \<in> backers implemented advance prior ps R. \<exists>x. answers ps b = {x} \<and> cr_census_height y = cr_census_height x) \<and>
      (\<forall>b \<in> backers implemented advance prior ps R. \<forall>x. answers ps b = {x} \<longrightarrow>
         \<not> height_less (cr_census_height x) (cr_census_height y))"
proof -
  let ?Q = "\<lambda>r. verifies implemented advance prior r \<and> key (cr_record r) = Some k"
  define ys where "ys = filter ?Q (List.map_filter snd (by_responder ps))"
  have same: "?Q x \<longleftrightarrow> verifies implemented advance prior x \<and> cr_record x = R" for x
    using assms(1,2) by (auto simp: key_ok_def)
  have entry: "tally_entry ys (map_of tally k)" using tally_votes_spec [OF assms(3)] unfolding ys_def by blast
  have "distinct (map fst (by_responder ps))"
    using bt_ok_hm_ok [OF bt_ok_by_responder] by (simp add: hm_ok_def)
  then have len: "length ys = card (backers implemented advance prior ps R)"
    unfolding ys_def length_filter_votes [OF \<open>distinct (map fst (by_responder ps))\<close>] votes_in_map same backers_def
    by (metis (no_types, lifting))
  have mem: "x \<in> set ys \<longleftrightarrow> (\<exists>b \<in> backers implemented advance prior ps R. answers ps b = {x})" for x
  proof -
    have "(\<exists>v \<in> set (by_responder ps). snd v = Some x) \<longleftrightarrow> (\<exists>b. answers ps b = {x})"
      by (metis votes_in_map prod.collapse snd_conv)
    moreover have "(\<exists>b \<in> backers implemented advance prior ps R. answers ps b = {x}) \<longleftrightarrow>
        (\<exists>b. answers ps b = {x}) \<and> verifies implemented advance prior x \<and> cr_record x = R"
      unfolding backers_def by (auto; metis singleton_inject)
    ultimately show ?thesis unfolding ys_def set_filter mem_Collect_eq set_map_filter same by blast
  qed
  show "map_of tally k = None \<longleftrightarrow> backers implemented advance prior ps R = {}"
    using entry len finite_backers [of implemented advance prior ps R]
    by (auto simp: tally_entry_def card_eq_0_iff split: option.splits)
  assume "map_of tally k = Some (c, y)"
  then have "c = length ys" "0 < c" "cr_record y \<in> cr_record ` set ys"
    "cr_census_height y \<in> cr_census_height ` set ys"
    "\<forall>x \<in> set ys. \<not> height_less (cr_census_height x) (cr_census_height y)"
    using entry by (auto simp: tally_entry_def)
  then show "c = card (backers implemented advance prior ps R) \<and> 0 < c \<and> cr_record y = R \<and>
      (\<exists>b \<in> backers implemented advance prior ps R. \<exists>x. answers ps b = {x} \<and> cr_census_height y = cr_census_height x) \<and>
      (\<forall>b \<in> backers implemented advance prior ps R. \<forall>x. answers ps b = {x} \<longrightarrow>
         \<not> height_less (cr_census_height x) (cr_census_height y))"
    unfolding len by (auto simp: mem image_iff) (auto simp: backers_def)
qed

section \<open>What is adopted\<close>

lemma verifies_facts:
  assumes "verifies implemented advance prior x"
  shows "advance (cr_record prior) (er_census (cr_record x)) = Inr (cr_record x)"
    and "is_interpretable implemented x"
    and "epoch_of x > GENESIS_EPOCH \<Longrightarrow>
      \<exists>h. cr_census_height x = Some h \<and> (\<forall>h'. cr_census_height prior = Some h' \<longrightarrow> h' < h)"
  using assms
  by (auto simp: verifies_def verify_def split: if_splits sum.splits collateral_error.splits option.splits)

lemma length_by_responder: "length (by_responder ps) = card (pr_responder ` set ps)"
  using bt_ok_hm_ok [OF bt_ok_by_responder, of ps] distinct_card [of "map fst (by_responder ps)"]
  by (simp add: hm_ok_def responders_of_votes)

lemma adopt_adoptedE:
  assumes "adopt implemented advance key plan prior (Some p) ps = Some (Adopted r)"
  obtains tally n c y where
    "tally_votes implemented advance key prior (List.map_filter snd (by_responder ps)) = (tally, n)"
    "\<not> sp_advisory_only (plan p)"
    "card (pr_responder ` set ps) \<le> sp_population (plan p)"
    "card (pr_responder ` set ps) \<le> sp_sample_size (plan p)"
    "sp_agreement_threshold (plan p) \<le> c" "max_by_count (map snd tally) = Some (c, y)"
    "r = \<lparr>cr_record = cr_record y, cr_census_height = cr_census_height y,
        cr_provenance = AdoptedFromPeers c (card (pr_responder ` set ps))\<rparr>"
proof -
  obtain tally n where t: "tally_votes implemented advance key prior (List.map_filter snd (by_responder ps)) = (tally, n)"
    by force
  obtain c y where m: "max_by_count (map snd tally) = Some (c, y)"
    using assms t by (auto simp: adopt_def decide_votes_def Let_def split: if_splits option.splits)
  have "foldr max (map (fst \<circ> snd) tally) 0 = c" using foldr_max_count [OF m] by simp
  then show ?thesis
    using that [OF t] assms t m
    by (auto simp: adopt_def decide_votes_def Let_def length_by_responder split: if_splits)
qed

lemma adopted_entry:
  assumes "key_ok key"
    and "tally_votes implemented advance key prior (List.map_filter snd (by_responder ps)) = (tally, n)"
    and "(c, y) \<in> set (map snd tally)"
  obtains k where "map_of tally k = Some (c, y)" "key (cr_record y) = Some k"
proof -
  have ok: "bt_ok tally" using tally_votes_spec [OF assms(2)] by blast
  from assms(3) obtain k where "(k, c, y) \<in> set tally" by auto
  then have k: "map_of tally k = Some (c, y)" using bt_ok_hm_ok [OF ok] by (simp add: hm_ok_def)
  have "tally_entry (filter (\<lambda>r. verifies implemented advance prior r \<and> key (cr_record r) = Some k)
      (List.map_filter snd (by_responder ps))) (map_of tally k)"
    using tally_votes_spec [OF assms(2)] by blast
  then have "key (cr_record y) = Some k" unfolding k by (auto simp: tally_entry_def)
  with k show ?thesis by (rule that)
qed

text \<open>Two different records cannot both be backed by more than half of a sample.\<close>

lemma backers_majority:
  assumes "card (pr_responder ` set ps) \<le> s" "s < 2 * t"
    and "t \<le> card (backers implemented advance prior ps R)" "t \<le> card (backers implemented advance prior ps R')"
  shows "R = R'"
proof (rule ccontr)
  assume "R \<noteq> R'"
  then have "card (backers implemented advance prior ps R) + card (backers implemented advance prior ps R') =
      card (backers implemented advance prior ps R \<union> backers implemented advance prior ps R')"
    by (intro card_Un_disjoint [symmetric] finite_backers backers_disjoint)
  also have "\<dots> \<le> card (pr_responder ` set ps)"
    by (intro card_mono) (use backers_responders in auto)
  finally show False using assms by simp
qed

text \<open>
  C13: What a sample can and cannot carry. An adopted record follows from the record this node holds by the
  node's own arithmetic, field by field, is of the next epoch, and has a census height above the last one's.
  It is backed by at least the threshold of distinct responders, each of which gave this one answer and no
  other, out of no more responders than the plan drew for and than the chain knows owners; provenance states
  those two numbers. Its height is that of one of them and no higher than that of any: no single backer can
  push it up. If the threshold is more than half of the sample, no other record reaches it. And whatever is
  adopted, \<open>put\<close> never writes it over a record this node derived itself.
\<close>
theorem adoption_is_earned:
  assumes "key_ok key" "adopt implemented advance key plan prior (Some p) ps = Some (Adopted r)"
    and "\<And>a c b. advance a c = Inr b \<Longrightarrow> er_epoch b = er_epoch a + 1" "1 \<le> epoch_of prior"
    and "B = backers implemented advance prior ps"
  shows "advance (cr_record prior) (er_census (cr_record r)) = Inr (cr_record r) \<and>
     is_interpretable implemented r \<and> epoch_of r = epoch_of prior + 1 \<and>
     cr_provenance r = AdoptedFromPeers (card (B (cr_record r))) (card (pr_responder ` set ps)) \<and>
     sp_agreement_threshold (plan p) \<le> card (B (cr_record r)) \<and>
     card (pr_responder ` set ps) \<le> min (sp_sample_size (plan p)) (sp_population (plan p)) \<and>
     (\<exists>h. cr_census_height r = Some h \<and> (\<forall>h'. cr_census_height prior = Some h' \<longrightarrow> h' < h) \<and>
        (\<exists>b \<in> B (cr_record r). \<exists>x. answers ps b = {x} \<and> cr_census_height x = Some h) \<and>
        (\<forall>b \<in> B (cr_record r). \<forall>x. answers ps b = {x} \<longrightarrow> (\<exists>h''. cr_census_height x = Some h'' \<and> h \<le> h''))) \<and>
     (sp_sample_size (plan p) < 2 * sp_agreement_threshold (plan p) \<longrightarrow>
        (\<forall>R. sp_agreement_threshold (plan p) \<le> card (B R) \<longrightarrow> R = cr_record r)) \<and>
     (\<forall>h. own_record h \<longrightarrow> put_over h r \<noteq> None)"
proof -
  obtain tally n c y where a:
    "tally_votes implemented advance key prior (List.map_filter snd (by_responder ps)) = (tally, n)"
    "card (pr_responder ` set ps) \<le> sp_population (plan p)"
    "card (pr_responder ` set ps) \<le> sp_sample_size (plan p)"
    "sp_agreement_threshold (plan p) \<le> c" "max_by_count (map snd tally) = Some (c, y)"
    "r = \<lparr>cr_record = cr_record y, cr_census_height = cr_census_height y,
        cr_provenance = AdoptedFromPeers c (card (pr_responder ` set ps))\<rparr>"
    using assms(2) by (rule adopt_adoptedE)
  obtain k where k: "map_of tally k = Some (c, y)" "key (cr_record y) = Some k"
    using adopted_entry [OF assms(1) a(1)] max_by_count_spec [OF a(5)] by blast
  note tb = tally_backers(2) [OF assms(1) k(2) a(1) k(1)]
  have c: "c = card (B (cr_record r))" "0 < c" using tb by (auto simp: a(6) assms(5))
  obtain b x where x: "b \<in> B (cr_record r)" "answers ps b = {x}" "cr_census_height r = cr_census_height x"
    using tb by (auto simp: a(6) assms(5))
  have vx: "verifies implemented advance prior x" "cr_record x = cr_record r"
    using x by (auto simp: assms(5) backers_def)
  have heights: "\<not> height_less (cr_census_height x') (cr_census_height r)" "verifies implemented advance prior x'"
    "cr_record x' = cr_record r" if "b' \<in> B (cr_record r)" "answers ps b' = {x'}" for b' x'
    using tb that by (auto simp: a(6) assms(5) backers_def)
  have unique: "R = cr_record r" if "sp_sample_size (plan p) < 2 * sp_agreement_threshold (plan p)"
    "sp_agreement_threshold (plan p) \<le> card (B R)" for R
    using backers_majority [OF a(3) that(1)] that(2) a(4) c(1) unfolding assms(5) by blast
  note verified = verifies_facts [OF vx(1)]
  have ep: "epoch_of r = epoch_of prior + 1" using assms(3) [OF verified(1)] vx(2) by simp
  obtain h where h: "cr_census_height r = Some h" "\<forall>h'. cr_census_height prior = Some h' \<longrightarrow> h' < h"
    using verified(3) ep assms(4) vx(2) x(3) by (auto simp: GENESIS_EPOCH_def)
  have "\<exists>h''. cr_census_height x' = Some h'' \<and> h \<le> h''"
    if "b' \<in> B (cr_record r)" "answers ps b' = {x'}" for b' x'
    using heights [OF that] verifies_facts(3) [OF heights(2) [OF that]] ep assms(4) h(1)
    by (auto simp: GENESIS_EPOCH_def)
  moreover have "put_over h' r \<noteq> None" if "own_record h'" for h'
    using ladder.admits_up [OF that, of r] by (auto simp: own_record_def a(6))
  moreover have "cr_provenance r = AdoptedFromPeers (card (B (cr_record r))) (card (pr_responder ` set ps))"
    using c(1) a(6) by simp
  moreover have "is_interpretable implemented r" using verified(2) vx(2) by (simp add: is_interpretable_def)
  moreover have "\<exists>b \<in> B (cr_record r). \<exists>x. answers ps b = {x} \<and> cr_census_height x = Some h"
    using x h(1) by (intro bexI [of _ b]) auto
  ultimately show ?thesis
    using a(2-4) c(1) h ep verified(1) vx(2) unique by auto
qed

lemma agreement_adopts:
  assumes "key_ok key" "key R \<noteq> None" "\<not> sp_advisory_only (plan p)"
    and "0 < sp_agreement_threshold (plan p)" "sp_sample_size (plan p) < 2 * sp_agreement_threshold (plan p)"
    and "card (pr_responder ` set ps) \<le> min (sp_sample_size (plan p)) (sp_population (plan p))"
    and "sp_agreement_threshold (plan p) \<le> card (backers implemented advance prior ps R)"
  obtains r where "adopt implemented advance key plan prior (Some p) ps = Some (Adopted r)" "cr_record r = R"
proof -
  obtain tally n where t: "tally_votes implemented advance key prior (List.map_filter snd (by_responder ps)) = (tally, n)"
    by force
  obtain k where k: "key R = Some k" using assms(2) by blast
  note tb = tally_backers [OF assms(1) k t]
  have "backers implemented advance prior ps R \<noteq> {}" using assms(4,7) by auto
  then obtain c y where cy: "map_of tally k = Some (c, y)" using tb(1) by (cases "map_of tally k") auto
  have c: "sp_agreement_threshold (plan p) \<le> c" using tb(2) [OF cy] assms(7) by simp
  have "(c, y) \<in> set (map snd tally)" using map_of_SomeD [OF cy] by force
  moreover from this obtain c' y' where m: "max_by_count (map snd tally) = Some (c', y')"
    using max_by_count_None [of "map snd tally"] by (cases "max_by_count (map snd tally)") auto
  ultimately have c': "c \<le> c'" using max_by_count_spec [OF m] by auto
  have best: "foldr max (map (fst \<circ> snd) tally) 0 = c'" using foldr_max_count [OF m] by simp
  obtain k' where k': "map_of tally k' = Some (c', y')" "key (cr_record y') = Some k'"
    using adopted_entry [OF assms(1) t] max_by_count_spec [OF m] by blast
  then have "c' = card (backers implemented advance prior ps (cr_record y'))"
    using tally_backers(2) [OF assms(1) k'(2) t k'(1)] by simp
  then have "cr_record y' = R"
    using backers_majority [OF _ assms(5), of ps implemented advance prior "cr_record y'" R] assms(6,7) c c' by simp
  moreover have "adopt implemented advance key plan prior (Some p) ps =
      Some (Adopted \<lparr>cr_record = cr_record y', cr_census_height = cr_census_height y',
        cr_provenance = AdoptedFromPeers c' (card (pr_responder ` set ps))\<rparr>)"
    using assms(3,6) c c' best m t by (simp add: adopt_def decide_votes_def length_by_responder)
  ultimately show ?thesis using that by simp
qed

text \<open>
  A sample decides exactly by agreement. Let the threshold be positive and more than half of the planned
  sample, and the population large enough for a plan. Then a record is adopted exactly when no more
  responders answered than the plan drew for and the chain knows, and at least the threshold of them back
  it; the decision never fails, and neither the order of the responses nor their repetition changes any
  part of it.
\<close>
theorem agreement_decides:
  assumes "key_ok key" "key R \<noteq> None" "\<not> sp_advisory_only (plan p)"
    and "0 < sp_agreement_threshold (plan p)" "sp_sample_size (plan p) < 2 * sp_agreement_threshold (plan p)"
  shows "((\<exists>r. adopt implemented advance key plan prior (Some p) ps = Some (Adopted r) \<and> cr_record r = R) \<longleftrightarrow>
       card (pr_responder ` set ps) \<le> min (sp_sample_size (plan p)) (sp_population (plan p)) \<and>
       sp_agreement_threshold (plan p) \<le> card (backers implemented advance prior ps R)) \<and>
     adopt implemented advance key plan prior (Some p) ps \<noteq> None \<and>
     (\<forall>qs. set qs = set ps \<longrightarrow>
        adopt implemented advance key plan prior (Some p) qs = adopt implemented advance key plan prior (Some p) ps)"
    (is "(?adopted \<longleftrightarrow> ?agreed) \<and> _")
proof -
  obtain tally n where t: "tally_votes implemented advance key prior (List.map_filter snd (by_responder ps)) = (tally, n)"
    by force
  have "?agreed" if ad: "adopt implemented advance key plan prior (Some p) ps = Some (Adopted r)" "cr_record r = R" for r
    using ad(1)
  proof (rule adopt_adoptedE)
    fix tally n c y
    assume a: "tally_votes implemented advance key prior (List.map_filter snd (by_responder ps)) = (tally, n)"
      "card (pr_responder ` set ps) \<le> sp_population (plan p)" "card (pr_responder ` set ps) \<le> sp_sample_size (plan p)"
      "sp_agreement_threshold (plan p) \<le> c" "max_by_count (map snd tally) = Some (c, y)"
      "r = \<lparr>cr_record = cr_record y, cr_census_height = cr_census_height y,
        cr_provenance = AdoptedFromPeers c (card (pr_responder ` set ps))\<rparr>"
    obtain k where k: "map_of tally k = Some (c, y)" "key (cr_record y) = Some k"
      using adopted_entry [OF assms(1) a(1)] max_by_count_spec [OF a(5)] by blast
    then show ?agreed using tally_backers(2) [OF assms(1) k(2) a(1) k(1)] a ad(2) by simp
  qed
  moreover have "?adopted" if "?agreed"
    using agreement_adopts [where plan = plan and p = p, OF assms(1,2)] assms(3-5) that by metis
  moreover have "adopt implemented advance key plan prior (Some p) ps \<noteq> None"
    using t assms(3,4) by (auto simp: adopt_def decide_votes_def Let_def max_by_count_None split: option.splits)
  moreover have "adopt implemented advance key plan prior (Some p) qs = adopt implemented advance key plan prior (Some p) ps"
    if "set qs = set ps" for qs
    using by_responder_set [OF that] by (simp add: adopt_def Let_def)
  ultimately show ?thesis by blast
qed

section \<open>A concrete sample\<close>

text \<open>Three peers of five answer with the same census of epoch 2, one with another, one with two answers.\<close>

definition sample_advance :: recurrence where
  "sample_advance prior c =
     (if ec_epoch c \<noteq> er_epoch prior + 1 then Inl (NonSequentialEpoch (er_epoch prior + 1) (ec_epoch c))
      else Inr (sample_epoch (ec_epoch c) (ec_stores c) 24\<lparr>er_census := c\<rparr>))"

definition sample_plan :: "nat \<Rightarrow> sync_sample_plan" where
  "sample_plan p = \<lparr>sp_population = p, sp_sample_size = 5, sp_agreement_threshold = 3, sp_advisory_only = p < 5\<rparr>"

definition sample_key :: "epoch_record \<Rightarrow> string option" where
  "sample_key R = (if R = sample_epoch 2 4 24 then Some ''four'' else if R = sample_epoch 2 9 24 then Some ''nine'' else None)"

definition sample_answer :: "string \<Rightarrow> nat \<Rightarrow> nat \<Rightarrow> peer_record" where
  "sample_answer who stores h = \<lparr>pr_responder = who, pr_record = censused (sample_epoch 2 stores 24) h\<rparr>"

definition sample_answers :: "peer_record list" where
  "sample_answers =
     [sample_answer ''a'' 4 70, sample_answer ''b'' 4 71, sample_answer ''c'' 9 70, sample_answer ''d'' 4 70,
      sample_answer ''e'' 4 70, sample_answer ''e'' 9 70, sample_answer ''a'' 4 70]"

lemma sample_key_ok: "key_ok sample_key"
  by (auto simp: key_ok_def sample_key_def split: if_splits)

lemma sample_backers:
  "3 \<le> card (backers (\<lambda>v. v = 1) sample_advance genesis_1 sample_answers (sample_epoch 2 4 24))"
proof -
  let ?B = "backers (\<lambda>v. v = 1) sample_advance genesis_1 sample_answers (sample_epoch 2 4 24)"
  have v: "verifies (\<lambda>v. v = 1) sample_advance genesis_1 (censused (sample_epoch 2 4 24) h)" for h
    by (simp add: verifies_def verify_def is_interpretable_def sample_advance_def)
      (simp add: sample_defs)
  have "answers sample_answers ''a'' = {censused (sample_epoch 2 4 24) 70}"
    "answers sample_answers ''b'' = {censused (sample_epoch 2 4 24) 71}"
    "answers sample_answers ''d'' = {censused (sample_epoch 2 4 24) 70}"
    by (simp_all add: answers_filter sample_answers_def sample_answer_def)
  then have "{''a'', ''b'', ''d''} \<subseteq> ?B" using v by (auto simp: backers_def censused_def)
  from card_mono [OF finite_backers this] show ?thesis by simp
qed

lemma sample_responders: "card (pr_responder ` set sample_answers) = 5"
  by (simp add: sample_answers_def sample_answer_def card_insert_if)

lemma sample_adopted:
  obtains r where
    "adopt (\<lambda>v. v = 1) sample_advance sample_key sample_plan genesis_1 (Some 8) sample_answers = Some (Adopted r)"
    "cr_record r = sample_epoch 2 4 24"
  by (rule agreement_adopts [OF sample_key_ok, of "sample_epoch 2 4 24" sample_plan 8 sample_answers "\<lambda>v. v = 1"
        sample_advance genesis_1])
    (use sample_backers sample_responders in \<open>simp_all add: sample_key_def sample_plan_def\<close>)

theorem adoption_is_earned_witness:
  "\<exists>r. adopt (\<lambda>v. v = 1) sample_advance sample_key sample_plan genesis_1 (Some 8) sample_answers = Some (Adopted r) \<and>
     cr_record r = sample_epoch 2 4 24 \<and> epoch_of r = 2 \<and> put_over thin_2 r \<noteq> None"
proof -
  obtain r where r: "cr_record r = sample_epoch 2 4 24"
    "adopt (\<lambda>v. v = 1) sample_advance sample_key sample_plan genesis_1 (Some 8) sample_answers = Some (Adopted r)"
    by (rule sample_adopted)
  have "er_epoch b = er_epoch a + 1" if "sample_advance a c = Inr b" for a c b
    using that by (auto simp: sample_advance_def sample_epoch_def split: if_splits)
  moreover have "own_record thin_2" by (simp add: own_record_def sample_defs)
  ultimately have "epoch_of r = 2 \<and> put_over thin_2 r \<noteq> None"
    using adoption_is_earned [OF sample_key_ok r(2) _ _ refl] by auto
  with r show ?thesis by blast
qed

theorem agreement_decides_witness:
  "(\<exists>r. adopt (\<lambda>v. v = 1) sample_advance sample_key sample_plan genesis_1 (Some 8) sample_answers = Some (Adopted r) \<and>
     cr_record r = sample_epoch 2 4 24) \<and>
   \<not> (\<exists>r. adopt (\<lambda>v. v = 1) sample_advance sample_key sample_plan genesis_1 (Some 8) (take 3 sample_answers) =
     Some (Adopted r) \<and> cr_record r = sample_epoch 2 4 24)"
proof -
  note spec = agreement_decides [OF sample_key_ok, of "sample_epoch 2 4 24" sample_plan 8 "\<lambda>v. v = 1" sample_advance genesis_1]
  have "answers (take 3 sample_answers) ''c'' = {censused (sample_epoch 2 9 24) 70}"
    by (simp add: answers_filter sample_answers_def sample_answer_def)
  then have "''c'' \<notin> backers (\<lambda>v. v = 1) sample_advance genesis_1 (take 3 sample_answers) (sample_epoch 2 4 24)"
    by (auto simp: backers_def) (simp add: sample_defs)
  moreover have "pr_responder ` set (take 3 sample_answers) = {''a'', ''b'', ''c''}"
    by (simp add: sample_answers_def sample_answer_def)
  ultimately have "backers (\<lambda>v. v = 1) sample_advance genesis_1 (take 3 sample_answers) (sample_epoch 2 4 24) \<subseteq> {''a'', ''b''}"
    using backers_responders [of "\<lambda>v. v = 1" sample_advance genesis_1 "take 3 sample_answers" "sample_epoch 2 4 24"] by auto
  from card_mono [OF _ this]
  have few: "card (backers (\<lambda>v. v = 1) sample_advance genesis_1 (take 3 sample_answers) (sample_epoch 2 4 24)) \<le> 2" by simp
  have pre: "sample_key (sample_epoch 2 4 24) \<noteq> None" "\<not> sp_advisory_only (sample_plan 8)"
    "0 < sp_agreement_threshold (sample_plan 8)"
    "sp_sample_size (sample_plan 8) < 2 * sp_agreement_threshold (sample_plan 8)"
    by (simp_all add: sample_key_def sample_plan_def)
  have "3 \<le> sp_agreement_threshold (sample_plan 8)" "sp_agreement_threshold (sample_plan 8) \<le> 3"
    "card (pr_responder ` set sample_answers) \<le> min (sp_sample_size (sample_plan 8)) (sp_population (sample_plan 8))"
    by (simp_all add: sample_plan_def sample_responders)
  then have "sp_agreement_threshold (sample_plan 8) \<le>
      card (backers (\<lambda>v. v = 1) sample_advance genesis_1 sample_answers (sample_epoch 2 4 24))"
    "\<not> sp_agreement_threshold (sample_plan 8) \<le>
      card (backers (\<lambda>v. v = 1) sample_advance genesis_1 (take 3 sample_answers) (sample_epoch 2 4 24))"
    "card (pr_responder ` set sample_answers) \<le> min (sp_sample_size (sample_plan 8)) (sp_population (sample_plan 8))"
    using sample_backers few by linarith+
  then show ?thesis
    using conjunct1 [OF spec [OF pre, of sample_answers]] conjunct1 [OF spec [OF pre, of "take 3 sample_answers"]]
    by blast
qed

end
