(* ===== verification/Collateral_Census.thy ===== *)
theory Collateral_Census
  imports Collateral_Sync
begin

text \<open>
  The census runner (\<open>collateral_census.rs\<close>): it computes every epoch from the newest one recorded up to
  the one in force, each from its predecessor and a census of the chain, and looks once more at the one in
  force when it holds it already.

  \<^item> The chain source and the counting of mirror coins (\<open>dig_mirror_coin\<close>) are arguments: the height an
    epoch is censused at, given a seed, and the census at a height. They are read at most once for an epoch
    in one walk. The recurrence and the schedule are arguments as well.
  \<^item> Which step of the append for an epoch fails is an argument. A walk from the last epoch a \<open>u64\<close> can
    name would overflow, and is \<open>None\<close>.
\<close>

section \<open>Stops and observations\<close>

datatype census_stop =
  ChainUnavailable nat string
| EpochNotStartedOnChain nat
| BehindFinality nat nat nat
| PopulationTooLarge nat nat nat nat nat
| PriorEpochMissing nat
| PriorEpochUnreadable nat
| PriorEpochUninterpretable nat nat
| Arithmetic nat collateral_error
| Contradiction nat
| StoreFault io_error
| EpochLineUnreadable nat

record final_census =
  fc_census :: epoch_census
  fc_height :: nat
  fc_examined :: nat
  fc_excluded :: "nat list"

datatype census_outcome =
  CensusFinal final_census
| CensusPending nat nat
| CensusIncomplete nat nat nat nat

record census_chain =
  ch_census_height_seeded :: "nat \<Rightarrow> nat option \<Rightarrow> string + nat option"
  ch_census :: "epoch_record \<Rightarrow> nat \<Rightarrow> string + census_outcome"

record census_observation =
  co_epoch :: nat
  co_census_height :: nat
  co_stores :: nat
  co_examined :: nat
  co_excluded :: "nat list"

record catch_up_report =
  cu_recorded :: "census_observation list"
  cu_superseded :: "census_observation option"
  cu_stopped :: "census_stop option"

text \<open>What a walk is given beside the store: the codec, the implemented rulesets, the recurrence, the
  schedule, and the fate of the append for each epoch.\<close>

record census_env =
  ce_codec :: record_codec
  ce_implemented :: "nat \<Rightarrow> bool"
  ce_advance :: recurrence
  ce_epoch_start_unix_ms :: "int \<Rightarrow> int"
  ce_write :: "nat \<Rightarrow> write_fault"

section \<open>One epoch\<close>

text \<open>\<open>epoch as i64\<close>, and the division that rounds down.\<close>

definition as_i64 :: "nat \<Rightarrow> int" where
  "as_i64 e = (if e < 2 ^ 63 then int e else int e - 2 ^ 64)"

definition epoch_start_unix_secs :: "census_env \<Rightarrow> nat \<Rightarrow> nat" where
  "epoch_start_unix_secs env e = nat (max (ce_epoch_start_unix_ms env (as_i64 e) div 1000) 0)"

definition chain_stop :: "nat \<Rightarrow> string \<Rightarrow> census_stop" where
  "chain_stop e detail = ChainUnavailable e detail"

fun seed_from :: "stored_record \<Rightarrow> nat option" where
  "seed_from prior =
     (case cr_provenance prior of
        Censused \<Rightarrow> cr_census_height prior
      | Bootstrap \<Rightarrow> None
      | AdoptedFromPeers _ _ \<Rightarrow> None)"

definition prior_record :: "census_env \<Rightarrow> epoch_file \<Rightarrow> nat \<Rightarrow> census_stop + stored_record" where
  "prior_record env f e =
     (let prior_epoch = e - 1
      in case store_get (ce_codec env) f prior_epoch of
           Found r \<Rightarrow>
             if \<not> is_interpretable (ce_implemented env) r
             then Inl (PriorEpochUninterpretable prior_epoch (er_protocol_version (cr_record r)))
             else Inr r
         | Absent \<Rightarrow> Inl (PriorEpochMissing prior_epoch)
         | Unreadable \<Rightarrow> Inl (PriorEpochUnreadable prior_epoch))"

text \<open>The chain reads and the derivation: everything \<open>record_one\<close> does before it writes.\<close>

definition derive_one ::
    "census_env \<Rightarrow> census_chain \<Rightarrow> epoch_file \<Rightarrow> nat \<Rightarrow> census_stop + (epoch_record \<times> final_census)" where
  "derive_one env src f e =
     (if store_get (ce_codec env) f e = Unreadable then Inl (EpochLineUnreadable e)
      else case prior_record env f e of
          Inl stop \<Rightarrow> Inl stop
        | Inr prior \<Rightarrow>
            (case ch_census_height_seeded src (epoch_start_unix_secs env e) (seed_from prior) of
               Inl err \<Rightarrow> Inl (chain_stop e err)
             | Inr None \<Rightarrow> Inl (EpochNotStartedOnChain e)
             | Inr (Some census_at) \<Rightarrow>
                 (case ch_census src (cr_record prior) census_at of
                    Inl err \<Rightarrow> Inl (chain_stop e err)
                  | Inr (CensusPending h peak) \<Rightarrow> Inl (BehindFinality e h peak)
                  | Inr (CensusIncomplete h cands spends bound) \<Rightarrow> Inl (PopulationTooLarge e h cands spends bound)
                  | Inr (CensusFinal counted) \<Rightarrow>
                      (case ce_advance env (cr_record prior) (fc_census counted) of
                         Inl err \<Rightarrow> Inl (Arithmetic e err)
                       | Inr r \<Rightarrow> Inr (r, counted)))))"

definition record_one ::
    "census_env \<Rightarrow> census_chain \<Rightarrow> epoch_file \<Rightarrow> nat \<Rightarrow> (census_stop + census_observation) \<times> epoch_file" where
  "record_one env src f e =
     (case derive_one env src f e of
        Inl stop \<Rightarrow> (Inl stop, f)
      | Inr (r, counted) \<Rightarrow>
          let stored = censused r (fc_height counted);
              observed = \<lparr>co_epoch = e, co_census_height = fc_height counted,
                co_stores = ec_stores (er_census r), co_examined = fc_examined counted,
                co_excluded = fc_excluded counted\<rparr>
          in case store_put (ce_codec env) (ce_write env e) stored f of
               (Inr Appended, f') \<Rightarrow> (Inr observed, f')
             | (Inr AlreadyPresent, f') \<Rightarrow> (Inr observed, f')
             | (Inr (Contradicts _), f') \<Rightarrow> (Inl (Contradiction e), f')
             | (Inl err, f') \<Rightarrow> (Inl (StoreFault err), f'))"

section \<open>The walk\<close>

definition highest_recorded :: "record_codec \<Rightarrow> epoch_file \<Rightarrow> io_error + nat" where
  "highest_recorded cd f =
     (case store_records cd f of
        Inl e \<Rightarrow> Inl e
      | Inr rs \<Rightarrow> Inr (if rs = [] then GENESIS_EPOCH else Max (set (map epoch_of rs))))"

definition refresh ::
    "census_env \<Rightarrow> census_chain \<Rightarrow> epoch_file \<Rightarrow> nat \<Rightarrow> (census_stop + census_observation option) \<times> epoch_file" where
  "refresh env src f e =
     (case store_get (ce_codec env) f e of
        Found held \<Rightarrow>
          if cr_provenance held \<noteq> Censused then (Inr None, f)
          else (case record_one env src f e of
              (Inl stop, f') \<Rightarrow> (Inl stop, f')
            | (Inr observed, f') \<Rightarrow>
                (Inr (if co_stores observed > stores_of held then Some observed else None), f'))
      | Absent \<Rightarrow> (Inr None, f)
      | Unreadable \<Rightarrow> (Inl (EpochLineUnreadable e), f))"

fun walk ::
    "census_env \<Rightarrow> census_chain \<Rightarrow> nat list \<Rightarrow> epoch_file \<Rightarrow> census_observation list \<times> census_stop option \<times> epoch_file" where
  "walk env src [] f = ([], None, f)"
| "walk env src (e # es) f =
     (case record_one env src f e of
        (Inl stop, f') \<Rightarrow> ([], Some stop, f')
      | (Inr observed, f') \<Rightarrow>
          (case walk env src es f' of (recorded, stopped, f'') \<Rightarrow> (observed # recorded, stopped, f'')))"

definition catch_up ::
    "census_env \<Rightarrow> census_chain \<Rightarrow> nat \<Rightarrow> epoch_file \<Rightarrow> (catch_up_report \<times> epoch_file) option" where
  "catch_up env src target f =
     (case highest_recorded (ce_codec env) f of
        Inl err \<Rightarrow> Some (\<lparr>cu_recorded = [], cu_superseded = None, cu_stopped = Some (StoreFault err)\<rparr>, f)
      | Inr highest \<Rightarrow>
          if highest \<ge> u64_max then None
          else case walk env src [highest + 1..<target + 1] f of
              (recorded, Some stop, f') \<Rightarrow>
                Some (\<lparr>cu_recorded = recorded, cu_superseded = None, cu_stopped = Some stop\<rparr>, f')
            | (recorded, None, f') \<Rightarrow>
                if highest \<ge> target
                then case refresh env src f' target of
                    (Inr superseded, f'') \<Rightarrow>
                      Some (\<lparr>cu_recorded = recorded, cu_superseded = superseded, cu_stopped = None\<rparr>, f'')
                  | (Inl stop, f'') \<Rightarrow>
                      Some (\<lparr>cu_recorded = recorded, cu_superseded = None, cu_stopped = Some stop\<rparr>, f'')
                else Some (\<lparr>cu_recorded = recorded, cu_superseded = None, cu_stopped = None\<rparr>, f'))"

section \<open>What one epoch writes\<close>

text \<open>What the codec and the recurrence promise; and, apart from it, that no append is cut short.\<close>

definition env_laws :: "census_env \<Rightarrow> bool" where
  "env_laws env \<longleftrightarrow> codec_ok (ce_codec env) \<and>
     (\<forall>a c b. ce_advance env a c = Inr b \<longrightarrow> er_epoch b = er_epoch a + 1 \<and> er_census b = c)"

definition untorn_writes :: "census_env \<Rightarrow> bool" where
  "untorn_writes env \<longleftrightarrow> (\<forall>e. \<not> torn (ce_write env e))"

lemma env_lawsD:
  assumes "env_laws env"
  shows "codec_ok (ce_codec env)"
    "ce_advance env a c = Inr b \<Longrightarrow> er_epoch b = er_epoch a + 1 \<and> er_census b = c"
  using assms by (auto simp: env_laws_def)

lemma untornD: "untorn_writes env \<Longrightarrow> \<not> torn (ce_write env e)"
  by (simp add: untorn_writes_def)

text \<open>What a reported observation stands for: the record of its epoch follows from the held record of the
  epoch before by a final census of the chain, and carries the height of that census.\<close>

definition derived ::
    "census_env \<Rightarrow> census_chain \<Rightarrow> epoch_file \<Rightarrow> census_observation \<Rightarrow> epoch_record \<Rightarrow> bool" where
  "derived env src f obs r \<longleftrightarrow>
     (\<exists>prior census_at counted.
        store_get (ce_codec env) f (co_epoch obs - 1) = Found prior \<and>
        is_interpretable (ce_implemented env) prior \<and>
        ch_census src (cr_record prior) census_at = Inr (CensusFinal counted) \<and>
        ce_advance env (cr_record prior) (fc_census counted) = Inr r \<and>
        obs = \<lparr>co_epoch = co_epoch obs, co_census_height = fc_height counted, co_stores = ec_stores (er_census r),
          co_examined = fc_examined counted, co_excluded = fc_excluded counted\<rparr>)"

lemma derive_one_Inr:
  assumes "derive_one env src f e = Inr (r, counted)"
  obtains prior census_at where
    "store_get (ce_codec env) f (e - 1) = Found prior" "is_interpretable (ce_implemented env) prior"
    "ch_census src (cr_record prior) census_at = Inr (CensusFinal counted)"
    "ce_advance env (cr_record prior) (fc_census counted) = Inr r"
  using assms
  by (auto simp: derive_one_def prior_record_def Let_def
      split: if_splits stored_epoch.splits sum.splits option.splits census_outcome.splits)

lemma record_one_cases [consumes 5, case_names stopped appended unchanged]:
  assumes "env_laws env" "\<not> torn (ce_write env e)" "whole f" "1 \<le> e" "record_one env src f e = (res, f')"
  obtains
    (stopped) stop where "res = Inl stop" "f' = f"
  | (appended) obs r where "res = Inr obs" "co_epoch obs = e" "derived env src f obs r" "er_epoch r = e"
      "whole f'" "\<And>e'. store_get (ce_codec env) f' e' =
        (if e' = e then Found (censused r (co_census_height obs)) else store_get (ce_codec env) f e')"
      "\<And>h. store_get (ce_codec env) f e = Found h \<Longrightarrow> put_over h (censused r (co_census_height obs)) = None"
  | (unchanged) obs r h where "res = Inr obs" "co_epoch obs = e" "derived env src f obs r" "f' = f"
      "store_get (ce_codec env) f e = Found h" "cr_record h = r"
proof (cases "derive_one env src f e")
  case (Inl stop)
  then show ?thesis using assms(5) by (intro stopped [of stop]) (auto simp: record_one_def)
next
  case (Inr rc)
  obtain r counted where rc: "rc = (r, counted)" by force
  then obtain prior census_at where d: "store_get (ce_codec env) f (e - 1) = Found prior"
    "is_interpretable (ce_implemented env) prior"
    "ch_census src (cr_record prior) census_at = Inr (CensusFinal counted)"
    "ce_advance env (cr_record prior) (fc_census counted) = Inr r"
    using Inr derive_one_Inr by blast
  define obs where "obs = \<lparr>co_epoch = e, co_census_height = fc_height counted,
      co_stores = ec_stores (er_census r), co_examined = fc_examined counted, co_excluded = fc_excluded counted\<rparr>"
  have "er_epoch r = epoch_of prior + 1" using env_lawsD(2) [OF assms(1) d(4)] by simp
  then have ep: "er_epoch r = e" using store_get_epoch [OF d(1)] assms(4) by simp
  have der: "derived env src f obs r" unfolding derived_def using d by (force simp: obs_def)
  obtain out f1 where put: "store_put (ce_codec env) (ce_write env e) (censused r (fc_height counted)) f = (out, f1)"
    by force
  have ep': "epoch_of (censused r (fc_height counted)) = e" by (simp add: censused_def ep)
  note step = store_put_step [OF env_lawsD(1) [OF assms(1)] assms(3,2) put]
  have res: "(res, f') = (case out of Inr Appended \<Rightarrow> (Inr obs, f1) | Inr AlreadyPresent \<Rightarrow> (Inr obs, f1)
      | Inr (Contradicts _) \<Rightarrow> (Inl (Contradiction e), f1) | Inl err \<Rightarrow> (Inl (StoreFault err), f1))"
    using assms(5) put Inr rc by (auto simp: record_one_def obs_def Let_def split: sum.splits put_outcome.splits)
  show ?thesis
  proof (cases out)
    case (Inl err)
    then show ?thesis using res step(3) stopped by simp
  next
    case out: (Inr o')
    show ?thesis
    proof (cases o')
      case Appended
      have "put_over h (censused r (fc_height counted)) = None" if "store_get (ce_codec env) f e = Found h" for h
        using that put out Appended ep' by (cases "put_over h (censused r (fc_height counted))") (auto simp: store_put_def)
      then show ?thesis using res out Appended step(1,2) der ep ep'
        by (intro appended [of obs r]) (auto simp: obs_def)
    next
      case AlreadyPresent
      then obtain h where "store_get (ce_codec env) f e = Found h"
        "put_over h (censused r (fc_height counted)) = Some AlreadyPresent"
        using put out ep'
        by (auto simp: store_put_def Let_def split: stored_epoch.splits option.splits prod.splits sum.splits)
      moreover from this have "cr_record h = r"
        by (auto simp: put_over_def own_census_supersedes_def strength_adopted censused_def split: if_splits)
      ultimately show ?thesis using res out AlreadyPresent step(3) der
        by (intro unchanged [of obs r h]) (auto simp: obs_def)
    next
      case (Contradicts h)
      then show ?thesis using res out step(3) stopped by simp
    qed
  qed
qed

text \<open>An append that is cut short always stops the walk.\<close>

lemma record_one_torn:
  assumes "env_laws env" "torn_ok (ce_codec env)" "torn (ce_write env e)" "whole f" "1 \<le> e"
    and "record_one env src f e = (res, f')" "\<forall>r. store_get (ce_codec env) f e \<noteq> Found r"
  shows "(\<exists>stop. res = Inl stop) \<and> ((\<forall>e'. store_get (ce_codec env) f' e' = store_get (ce_codec env) f e') \<or>
     res = Inl (StoreFault WriteFailed) \<and> (\<exists>obs r. co_epoch obs = e \<and> derived env src f obs r \<and>
        (\<forall>e'. store_get (ce_codec env) f' e' =
           (if e' = e then Found (censused r (co_census_height obs)) else store_get (ce_codec env) f e'))))"
proof (cases "derive_one env src f e")
  case (Inl stop)
  then show ?thesis using assms(6) by (auto simp: record_one_def)
next
  case (Inr rc)
  obtain r counted where rc: "rc = (r, counted)" by force
  then obtain prior census_at where d: "store_get (ce_codec env) f (e - 1) = Found prior"
    "is_interpretable (ce_implemented env) prior"
    "ch_census src (cr_record prior) census_at = Inr (CensusFinal counted)"
    "ce_advance env (cr_record prior) (fc_census counted) = Inr r"
    using Inr derive_one_Inr by blast
  define obs where "obs = \<lparr>co_epoch = e, co_census_height = fc_height counted,
      co_stores = ec_stores (er_census r), co_examined = fc_examined counted, co_excluded = fc_excluded counted\<rparr>"
  let ?x = "censused r (fc_height counted)"
  have ep: "epoch_of ?x = e"
    using env_lawsD(2) [OF assms(1) d(4)] store_get_epoch [OF d(1)] assms(5) by (simp add: censused_def)
  have absent: "store_get (ce_codec env) f e = Absent"
    using Inr assms(7) by (cases "store_get (ce_codec env) f e") (auto simp: derive_one_def)
  then have f: "f \<noteq> NoRead" by (auto simp: store_get_def)
  obtain k where k: "ce_write env e = TornAfter k" using assms(3) by (auto simp: torn_def)
  obtain out f1 where app: "store_append (ce_codec env) (TornAfter k) ?x f = (out, f1)" by force
  note cut = store_append_torn [OF env_lawsD(1) [OF assms(1)] assms(2,4) f app]
  then obtain err where err: "out = Inl err" by (cases out) auto
  have "store_put (ce_codec env) (ce_write env e) ?x f = (Inl err, f1)"
    using app err ep absent k by (simp add: store_put_def)
  then have "res = Inl (StoreFault err)" "f' = f1"
    using assms(6) Inr rc by (simp_all add: record_one_def Let_def)
  moreover have "derived env src f obs r" unfolding derived_def using d by (force simp: obs_def)
  moreover have "co_epoch obs = e" "co_census_height obs = fc_height counted" by (simp_all add: obs_def)
  moreover have "(\<forall>e'. store_get (ce_codec env) f1 e' = store_get (ce_codec env) f e') \<or> err = WriteFailed \<and>
      (\<forall>e'. store_get (ce_codec env) f1 e' = (if e' = e then Found ?x else store_get (ce_codec env) f e'))"
    using cut err ep by simp
  ultimately show ?thesis by (metis (mono_tags, lifting))
qed

section \<open>What a walk writes\<close>

lemma derived_frame:
  "store_get (ce_codec env) f' (co_epoch obs - 1) = store_get (ce_codec env) f (co_epoch obs - 1) \<Longrightarrow>
     derived env src f' obs r = derived env src f obs r"
  by (simp add: derived_def)

definition recorded_epoch :: "census_env \<Rightarrow> census_chain \<Rightarrow> epoch_file \<Rightarrow> census_observation \<Rightarrow> bool" where
  "recorded_epoch env src f obs \<longleftrightarrow>
     (\<exists>r. derived env src f obs r \<and>
        store_get (ce_codec env) f (co_epoch obs) = Found (censused r (co_census_height obs)))"

lemma recorded_epoch_frame:
  assumes "\<And>e. e \<le> co_epoch obs \<Longrightarrow> store_get (ce_codec env) f' e = store_get (ce_codec env) f e"
  shows "recorded_epoch env src f' obs = recorded_epoch env src f obs"
  using derived_frame [of env f' obs f src] assms by (simp add: recorded_epoch_def)

text \<open>How a walk left the epoch it stopped at: as it was, or, when all of its append but the newline got to
  the disk, recorded although it is reported as failed.\<close>

definition stopped_at :: "census_env \<Rightarrow> census_chain \<Rightarrow> epoch_file \<Rightarrow> epoch_file \<Rightarrow> census_stop option \<Rightarrow> nat \<Rightarrow> bool" where
  "stopped_at env src f f' stop e \<longleftrightarrow> store_get (ce_codec env) f' e = store_get (ce_codec env) f e \<or>
     stop = Some (StoreFault WriteFailed) \<and> torn (ce_write env e) \<and>
     (\<exists>obs. co_epoch obs = e \<and> recorded_epoch env src f' obs)"

lemma walk_spec:
  assumes "env_laws env" "torn_ok (ce_codec env)" "whole f" "1 \<le> a" "a \<le> b"
    and "\<forall>e. a \<le> e \<and> e < b \<longrightarrow> (\<forall>r. store_get (ce_codec env) f e \<noteq> Found r)"
    and "walk env src [a..<b] f = (recorded, stop, f')"
  shows "map co_epoch recorded = [a..<a + length recorded] \<and> a + length recorded \<le> b \<and>
     (stop = None \<longleftrightarrow> a + length recorded = b) \<and>
     (\<forall>e. e < a \<or> a + length recorded < e \<longrightarrow> store_get (ce_codec env) f' e = store_get (ce_codec env) f e) \<and>
     stopped_at env src f f' stop (a + length recorded) \<and>
     (\<forall>obs \<in> set recorded. recorded_epoch env src f' obs)"
  using assms(3-7)
proof (induction "b - a" arbitrary: a f recorded stop f')
  case 0
  then show ?case by (simp add: stopped_at_def)
next
  case (Suc n)
  then have upt: "[a..<b] = a # [Suc a..<b]" by (simp add: upt_conv_Cons)
  obtain res f1 where one: "record_one env src f a = (res, f1)" by force
  have free: "\<forall>r. store_get (ce_codec env) f a \<noteq> Found r" using Suc.prems(4) Suc.hyps(2) by auto
  show ?case
  proof (cases "torn (ce_write env a)")
    case True
    note cut = record_one_torn [OF assms(1,2) True Suc.prems(1,2) one free]
    then have "recorded = []" "f' = f1" "\<exists>st. res = Inl st \<and> stop = Some st"
      using Suc.prems(5) one upt by auto
    moreover have "stopped_at env src f f1 stop a"
    proof (cases "\<forall>e'. store_get (ce_codec env) f1 e' = store_get (ce_codec env) f e'")
      case False
      with cut obtain obs r where o: "res = Inl (StoreFault WriteFailed)" "co_epoch obs = a" "derived env src f obs r"
        "\<And>e'. store_get (ce_codec env) f1 e' =
           (if e' = a then Found (censused r (co_census_height obs)) else store_get (ce_codec env) f e')"
        by blast
      have "derived env src f1 obs r"
        using o Suc.prems(2) by (subst derived_frame [of env f1 obs f]) auto
      then have "recorded_epoch env src f1 obs" using o(2,4) by (auto simp: recorded_epoch_def)
      then show ?thesis using o(1,2) True calculation(3) by (auto simp: stopped_at_def)
    qed (simp add: stopped_at_def)
    ultimately show ?thesis using cut Suc.prems(3) Suc.hyps(2) by auto
  next
    case False
    from assms(1) False Suc.prems(1,2) one show ?thesis
    proof (cases rule: record_one_cases)
      case (stopped st)
      then show ?thesis using Suc.prems Suc.hyps(2) one upt by (auto simp: stopped_at_def)
    next
      case (appended obs r)
      obtain recorded' where w: "walk env src [Suc a..<b] f1 = (recorded', stop, f')" "recorded = obs # recorded'"
        using Suc.prems(5) one upt appended(1) by (auto split: prod.splits)
      have free: "\<forall>e. Suc a \<le> e \<and> e < b \<longrightarrow> (\<forall>r. store_get (ce_codec env) f1 e \<noteq> Found r)"
        using Suc.prems(4) appended(6) by auto
      have IH: "map co_epoch recorded' = [Suc a..<Suc a + length recorded'] \<and>
          Suc a + length recorded' \<le> b \<and> (stop = None \<longleftrightarrow> Suc a + length recorded' = b) \<and>
          (\<forall>e. e < Suc a \<or> Suc a + length recorded' < e \<longrightarrow> store_get (ce_codec env) f' e = store_get (ce_codec env) f1 e) \<and>
          stopped_at env src f1 f' stop (Suc a + length recorded') \<and>
          (\<forall>obs \<in> set recorded'. recorded_epoch env src f' obs)"
        using Suc.hyps Suc.prems appended(5) free w(1) by (intro Suc.hyps(1)) auto
      have "derived env src f1 obs r"
        using appended(2,3,6) Suc.prems(2) by (subst derived_frame [of env f1 obs f]) auto
      then have "recorded_epoch env src f1 obs" using appended(2,6) by (auto simp: recorded_epoch_def)
      then have "recorded_epoch env src f' obs"
        using IH appended(2) by (subst recorded_epoch_frame [of obs env f' f1]) auto
      moreover have "[a..<a + length recorded] = a # [Suc a..<Suc a + length recorded']"
        by (simp add: w(2) upt_conv_Cons del: upt_Suc)
      moreover have "stopped_at env src f f' stop (a + length recorded)"
        using IH appended(6) w(2) by (auto simp: stopped_at_def)
      ultimately show ?thesis using IH appended(2,6) w(2) by (auto simp del: upt_Suc)
    next
      case (unchanged obs r h)
      then show ?thesis using free by auto
    qed
  qed
qed

lemma highest_recorded_above:
  assumes "highest_recorded cd f = Inr h" "h < e"
  shows "store_get cd f e \<noteq> Found r"
proof
  assume found: "store_get cd f e = Found r"
  obtain rs where rs: "store_records cd f = Inr rs" using assms(1) by (auto simp: highest_recorded_def split: sum.splits)
  have r: "r \<in> set rs" "epoch_of r = e"
    using store_records_get(2) [OF rs] store_get_epoch [OF found] found by auto
  then have "e \<le> Max (set (map epoch_of rs))" by (intro Max_ge) auto
  moreover have "h = Max (set (map epoch_of rs))" using assms(1) rs r by (auto simp: highest_recorded_def split: if_splits)
  ultimately show False using assms(2) by simp
qed

text \<open>
  C14: A walk towards a later epoch computes history once, in order, and never invents it. Let the file end
  in a newline and its newest record be older than the epoch asked for (a walk to an epoch already recorded
  only looks at it again). The walk reports the epochs right after the newest one, in ascending order and
  without a gap; each of them is now held as a record this node derived from the record it holds of the
  epoch before, by a final census of the chain at the height it states, with the figures it reports. It
  stops short exactly when it says so, and then the epoch it stopped at and every later one read as before,
  as do all the earlier ones. There is one exception, an append the disk cut short: when all of it but the
  newline was written, the epoch is recorded, derived like the others, although the walk reports the write
  as failed; what is left of a line cut shorter does not read as a record of any epoch.
\<close>
theorem walk_derives_history:
  assumes "env_laws env" "torn_ok (ce_codec env)" "whole f"
    and "highest_recorded (ce_codec env) f = Inr h" "h < target"
    and "catch_up env src target f = Some (rep, f')"
    and "n = length (cu_recorded rep)"
  shows "map co_epoch (cu_recorded rep) = [h + 1..<h + 1 + n] \<and> h + n \<le> target \<and>
     (cu_stopped rep = None \<longleftrightarrow> h + n = target) \<and> cu_superseded rep = None \<and>
     (\<forall>obs \<in> set (cu_recorded rep). recorded_epoch env src f' obs) \<and>
     (\<forall>e. e \<le> h \<or> h + n + 1 < e \<longrightarrow> store_get (ce_codec env) f' e = store_get (ce_codec env) f e) \<and>
     (store_get (ce_codec env) f' (h + n + 1) = store_get (ce_codec env) f (h + n + 1) \<or>
        cu_stopped rep = Some (StoreFault WriteFailed) \<and> torn (ce_write env (h + n + 1)) \<and>
        (\<exists>obs. co_epoch obs = h + n + 1 \<and> recorded_epoch env src f' obs))"
proof -
  obtain recorded stop f1 where w: "walk env src [h + 1..<target + 1] f = (recorded, stop, f1)"
    by (cases "walk env src [h + 1..<target + 1] f") auto
  have rep: "rep = \<lparr>cu_recorded = recorded, cu_superseded = None, cu_stopped = stop\<rparr>" "f' = f1"
    using assms(4-6) w by (auto simp: catch_up_def split: if_splits option.splits)
  have "map co_epoch recorded = [h + 1..<h + 1 + length recorded] \<and> h + 1 + length recorded \<le> target + 1 \<and>
     (stop = None \<longleftrightarrow> h + 1 + length recorded = target + 1) \<and>
     (\<forall>e. e < h + 1 \<or> h + 1 + length recorded < e \<longrightarrow> store_get (ce_codec env) f1 e = store_get (ce_codec env) f e) \<and>
     stopped_at env src f f1 stop (h + 1 + length recorded) \<and>
     (\<forall>obs \<in> set recorded. recorded_epoch env src f1 obs)"
    using highest_recorded_above [OF assms(4)] assms(5) by (intro walk_spec [OF assms(1-3) _ _ _ w]) auto
  then show ?thesis using rep assms(7) by (auto simp: stopped_at_def simp del: upt_Suc)
qed

lemma recensus_up:
  assumes "cr_provenance held = Censused" "put_over held (censused r h) = None"
  shows "own_recensus_supersedes held (censused r h)"
  using assms by (auto simp: put_over_def censused_def own_census_supersedes_def split: if_splits)

text \<open>
  Looking again only ever raises. A walk whose store is current changes no epoch but the one in force,
  and that one only from a census of its own to a census of the same block that counts strictly more stores
  and lowers neither owners, locked amount nor requirement; it then reports exactly that census. When it
  reports no repair the record reads as before.
\<close>
theorem recensus_only_raises:
  assumes "env_laws env" "untorn_writes env" "whole f"
    and "highest_recorded (ce_codec env) f = Inr h" "target \<le> h" "1 \<le> target"
    and "catch_up env src target f = Some (rep, f')"
  shows "cu_recorded rep = [] \<and> (\<forall>e. e \<noteq> target \<longrightarrow> store_get (ce_codec env) f' e = store_get (ce_codec env) f e) \<and>
     (case cu_superseded rep of
        None \<Rightarrow> store_get (ce_codec env) f' target = store_get (ce_codec env) f target
      | Some obs \<Rightarrow> \<exists>held r. store_get (ce_codec env) f target = Found held \<and>
          store_get (ce_codec env) f' target = Found (censused r (co_census_height obs)) \<and>
          derived env src f obs r \<and> co_epoch obs = target \<and> cr_provenance held = Censused \<and>
          cr_census_height held = Some (co_census_height obs) \<and> stores_of held < co_stores obs \<and>
          no_lower held (censused r (co_census_height obs)))"
proof -
  have h: "h < u64_max" using assms(4,7) by (auto simp: catch_up_def split: if_splits)
  obtain res where ref: "refresh env src f target = (res, f')"
    "rep = \<lparr>cu_recorded = [], cu_superseded = (case res of Inl _ \<Rightarrow> None | Inr s \<Rightarrow> s),
       cu_stopped = (case res of Inl stop \<Rightarrow> Some stop | Inr _ \<Rightarrow> None)\<rparr>"
    using assms(4,5,7) h by (auto simp: catch_up_def split: prod.splits sum.splits)
  show ?thesis
  proof (cases "\<exists>held. store_get (ce_codec env) f target = Found held \<and> cr_provenance held = Censused")
    case False
    then show ?thesis using ref by (auto simp: refresh_def split: stored_epoch.splits if_splits)
  next
    case True
    then obtain held where held: "store_get (ce_codec env) f target = Found held" "cr_provenance held = Censused" by blast
    obtain one f1 where one: "record_one env src f target = (one, f1)" by force
    from assms(1) untornD [OF assms(2)] assms(3,6) one show ?thesis
    proof (cases rule: record_one_cases)
      case (stopped stop)
      then show ?thesis using ref held one by (auto simp: refresh_def)
    next
      case (appended obs r)
      have up: "own_recensus_supersedes held (censused r (co_census_height obs))"
        using recensus_up [OF held(2) appended(7) [OF held(1)]] .
      have obs: "co_stores obs = ec_stores (er_census r)"
        using appended(3) unfolding derived_def by (metis census_observation.select_convs(3))
      have "no_lower held (censused r (co_census_height obs))"
        using ladder.admits_up [of held] appended(7) [OF held(1)] held(2) by (simp add: own_record_def)
      moreover have "res = Inr (Some obs)" "f' = f1"
        using ref(1) held one appended(1) up obs by (auto simp: refresh_def own_recensus_supersedes_def censused_def)
      moreover have "cr_census_height held = Some (co_census_height obs)" "stores_of held < co_stores obs"
        using up obs by (auto simp: own_recensus_supersedes_def censused_def)
      ultimately show ?thesis using ref(2) held appended(2,3,6) by auto
    next
      case (unchanged obs r h)
      have "co_stores obs = ec_stores (er_census r)"
        using unchanged(3) unfolding derived_def by (metis census_observation.select_convs(3))
      then show ?thesis using unchanged ref held one by (auto simp: refresh_def)
    qed
  qed
qed

section \<open>A well-formed file\<close>

fun tidy :: "record_codec \<Rightarrow> epoch_file \<Rightarrow> bool" where
  "tidy cd NoFile = True"
| "tidy cd NoRead = False"
| "tidy cd (Text t) = (whole_text t \<and> (\<forall>l \<in> set (record_lines t). from_line cd l \<noteq> None))"

lemma tidy_whole: "tidy cd f \<Longrightarrow> whole f"
  by (cases f) auto

lemma get_loop_tidy: "\<forall>l \<in> set ls. from_line cd l \<noteq> None \<Longrightarrow> snd (get_loop cd e ls best saw) = saw"
  by (induction ls arbitrary: best) (auto split: if_splits)

lemma tidy_get: "tidy cd f \<Longrightarrow> store_get cd f e \<noteq> Unreadable"
proof (cases f)
  case (Text t)
  moreover assume "tidy cd f"
  ultimately show ?thesis using get_loop_tidy [of "record_lines t" cd e None False]
    by (auto simp: store_get_def split: option.splits prod.splits)
qed (auto simp: store_get_def)

lemma tidy_records: "tidy cd f \<Longrightarrow> \<exists>rs. store_records cd f = Inr rs"
  by (cases f) (auto simp: store_records_def)

lemma tidy_appended:
  assumes "codec_ok cd" "tidy cd f" "to_line cd r = Some line"
  shows "tidy cd (add_bytes (line @ [newline]) f)"
proof (cases f)
  case NoFile
  then show ?thesis using record_lines_written [OF assms(1,3)] codec_okD(1) [OF assms(1,3)] by simp
next
  case (Text t)
  then have "record_lines (t @ line @ [newline]) = record_lines t @ [line]"
    using assms(2) record_lines_written [OF assms(1,3)] by (simp add: record_lines_append)
  then show ?thesis using Text assms(2) codec_okD(1) [OF assms(1,3)] by (simp add: whole_text_def)
qed (use assms in simp)

lemma tidy_put:
  assumes "codec_ok cd" "tidy cd f" "\<not> torn w"
  shows "tidy cd (snd (store_put cd w r f))" "fst (store_put cd w r f) \<noteq> Inl InvalidData"
    "fst (store_put cd w r f) \<noteq> Inl ReadFailed"
proof -
  have "tidy cd (snd (store_append cd w r f))"
    using assms tidy_appended [OF assms(1,2)]
    by (auto simp: store_append_def torn_def Let_def split: option.splits write_fault.splits)
  moreover have "fst (store_append cd w r f) \<notin> {Inl InvalidData, Inl ReadFailed}"
    by (auto simp: store_append_def Let_def split: option.splits write_fault.splits)
  ultimately show "tidy cd (snd (store_put cd w r f))" "fst (store_put cd w r f) \<noteq> Inl InvalidData"
    "fst (store_put cd w r f) \<noteq> Inl ReadFailed"
    using assms(2) tidy_get [OF assms(2)]
    by (auto simp: store_put_def Let_def split: stored_epoch.splits option.splits prod.splits sum.splits)
qed

lemma tidy_encoded:
  assumes "codec_ok cd" "encode_lines cd rs = Some body"
  shows "tidy cd (Text body)"
proof -
  have read: "whole_text body" "map (from_line cd) (record_lines body) = map Some rs"
    using encode_lines_read [OF assms] by auto
  then have "from_line cd l \<in> set (map Some rs)" if "l \<in> set (record_lines body)" for l
    using that by (metis image_eqI list.set_map)
  then show ?thesis using read(1) by auto
qed

lemma tidy_prune: "codec_ok cd \<Longrightarrow> tidy cd f \<Longrightarrow> tidy cd (snd (store_prune cd ok policy c f))"
  using tidy_encoded
  by (auto simp: store_prune_def Let_def simp del: tidy.simps split: retention_policy.splits sum.splits option.splits if_splits)

fun unreadable_stop :: "census_stop \<Rightarrow> bool" where
  "unreadable_stop (EpochLineUnreadable _) = True"
| "unreadable_stop (PriorEpochUnreadable _) = True"
| "unreadable_stop (StoreFault err) = (err = ReadFailed \<or> err = InvalidData)"
| "unreadable_stop _ = False"

lemma tidy_record_one:
  assumes "env_laws env" "untorn_writes env" "tidy (ce_codec env) f" "record_one env src f e = (res, f')"
  shows "tidy (ce_codec env) f' \<and> (\<forall>stop. res = Inl stop \<longrightarrow> \<not> unreadable_stop stop)"
proof (cases "derive_one env src f e")
  case (Inl stop)
  then have "\<not> unreadable_stop stop" using tidy_get [OF assms(3)]
    by (auto simp: derive_one_def prior_record_def chain_stop_def Let_def
        split: if_splits stored_epoch.splits sum.splits option.splits census_outcome.splits)
  then show ?thesis using Inl assms(3,4) by (auto simp: record_one_def)
next
  case (Inr rc)
  obtain r counted where rc: "rc = (r, counted)" by force
  note put = tidy_put [OF env_lawsD(1) [OF assms(1)] assms(3) untornD [OF assms(2), of e],
      of "censused r (fc_height counted)"]
  then show ?thesis using Inr rc assms(4)
    by (cases "store_put (ce_codec env) (ce_write env e) (censused r (fc_height counted)) f")
      (auto simp: record_one_def Let_def split: sum.splits put_outcome.splits)
qed

lemma tidy_walk:
  assumes "env_laws env" "untorn_writes env" "tidy (ce_codec env) f" "walk env src es f = (recorded, stop, f')"
  shows "tidy (ce_codec env) f' \<and> (\<forall>s. stop = Some s \<longrightarrow> \<not> unreadable_stop s)"
  using assms(3,4)
proof (induction es arbitrary: f recorded)
  case (Cons e es)
  obtain res f1 where one: "record_one env src f e = (res, f1)" by force
  note t = tidy_record_one [OF assms(1,2) Cons.prems(1) one]
  show ?case
  proof (cases res)
    case (Inl s)
    then show ?thesis using t one Cons.prems(2) by auto
  next
    case (Inr obs)
    then obtain recorded' where "walk env src es f1 = (recorded', stop, f')"
      using one Cons.prems(2) by (auto split: prod.splits)
    then show ?thesis using Cons.IH t by blast
  qed
qed auto

lemma tidy_refresh:
  assumes "env_laws env" "untorn_writes env" "tidy (ce_codec env) f" "refresh env src f e = (res, f')"
  shows "tidy (ce_codec env) f' \<and> (\<forall>stop. res = Inl stop \<longrightarrow> \<not> unreadable_stop stop)"
proof -
  obtain one f1 where one: "record_one env src f e = (one, f1)" by force
  show ?thesis using assms(3,4) one tidy_record_one [OF assms(1-3) one] tidy_get [OF assms(3), of e]
    by (auto simp: refresh_def split: stored_epoch.splits if_splits sum.splits)
qed

text \<open>
  C30: A well-formed file stays well formed, and one that is never loses an answer. Call a file well formed
  when it can be read, ends in a newline, and each of its lines is a record. Every \<open>put\<close> whose write is not
  torn, every \<open>prune\<close>, and every walk of the census none of whose writes is torn keep it so. On such a file \<open>get\<close> never answers that an
  epoch cannot be read, \<open>put\<close> never refuses for that reason, and no walk stops at a line it cannot read.
\<close>
theorem wellformed_store_stays_readable:
  assumes "env_laws env" "untorn_writes env" "tidy (ce_codec env) f"
  shows "(\<forall>e. store_get (ce_codec env) f e \<noteq> Unreadable) \<and>
     (\<forall>w r. \<not> torn w \<longrightarrow> tidy (ce_codec env) (snd (store_put (ce_codec env) w r f)) \<and>
        fst (store_put (ce_codec env) w r f) \<noteq> Inl InvalidData) \<and>
     (\<forall>ok policy c. tidy (ce_codec env) (snd (store_prune (ce_codec env) ok policy c f))) \<and>
     (\<forall>src target rep f'. catch_up env src target f = Some (rep, f') \<longrightarrow>
        tidy (ce_codec env) f' \<and> (\<forall>stop. cu_stopped rep = Some stop \<longrightarrow> \<not> unreadable_stop stop))"
proof -
  have "tidy (ce_codec env) f' \<and> (\<forall>stop. cu_stopped rep = Some stop \<longrightarrow> \<not> unreadable_stop stop)"
    if up: "catch_up env src target f = Some (rep, f')" for src target rep f'
  proof -
    obtain h where h: "highest_recorded (ce_codec env) f = Inr h"
      using tidy_records [OF assms(3)] by (auto simp: highest_recorded_def)
    obtain recorded stop f1 where w: "walk env src [h + 1..<target + 1] f = (recorded, stop, f1)"
      by (cases "walk env src [h + 1..<target + 1] f") auto
    note tw = tidy_walk [OF assms w]
    obtain res f2 where r: "refresh env src f1 target = (res, f2)" by force
    show ?thesis
      using up h w tw r tidy_refresh [OF assms(1,2) _ r]
      by (auto simp: catch_up_def simp del: upt_Suc split: if_splits option.splits sum.splits)
  qed
  then show ?thesis
    using tidy_get [OF assms(3)] tidy_put(1,2) [OF env_lawsD(1) [OF assms(1)] assms(3)]
      tidy_prune [OF env_lawsD(1) [OF assms(1)] assms(3)] by blast
qed

section \<open>Concrete walks\<close>

definition sample_recurrence :: recurrence where
  "sample_recurrence prior c =
     (if ec_epoch c \<noteq> er_epoch prior + 1 then Inl (NonSequentialEpoch (er_epoch prior + 1) (ec_epoch c))
      else Inr (sample_epoch (ec_epoch c) (ec_stores c) (ec_stores c div 2)\<lparr>er_census := c\<rparr>))"

definition sample_env :: census_env where
  "sample_env = \<lparr>ce_codec = sample_codec, ce_implemented = (\<lambda>v. v = 1), ce_advance = sample_recurrence,
     ce_epoch_start_unix_ms = (\<lambda>e. 1000 * e), ce_write = (\<lambda>_. Whole)\<rparr>"

definition sample_final :: "nat \<Rightarrow> final_census" where
  "sample_final stores = \<lparr>fc_census = \<lparr>ec_epoch = 2, ec_stores = stores, ec_owners = 2, ec_locked = 50\<rparr>,
     fc_height = 70, fc_examined = stores, fc_excluded = []\<rparr>"

definition sample_chain :: "nat \<Rightarrow> census_chain" where
  "sample_chain stores = \<lparr>ch_census_height_seeded = (\<lambda>_ _. Inr (Some 70)),
     ch_census = (\<lambda>_ _. Inr (CensusFinal (sample_final stores)))\<rparr>"

lemma sample_env_ok [simp]: "env_laws sample_env" "untorn_writes sample_env"
  by (auto simp: env_laws_def untorn_writes_def sample_env_def sample_recurrence_def sample_epoch_def split: if_splits)

abbreviation genesis_file :: epoch_file where
  "genesis_file \<equiv> add_bytes (''{g}'' @ [newline]) NoFile"

lemma sample_tidy [simp]: "tidy sample_codec genesis_file" "tidy sample_codec sample_file"
  using tidy_appended [OF sample_codec_ok _ sample_lines(1), of NoFile]
    tidy_appended [OF sample_codec_ok _ sample_lines(2), of genesis_file]
  by (simp_all add: sample_file_def del: add_bytes.simps)

lemma sample_get_genesis: "store_get sample_codec genesis_file e = (if e = 1 then Found genesis_1 else Absent)"
  using store_get_appended [OF sample_codec_ok, of NoFile genesis_1 "''{g}''" e] by (simp add: store_get_def)

lemma highest_recorded_is:
  assumes "store_get cd f h = Found r" "\<And>e r. h < e \<Longrightarrow> store_get cd f e \<noteq> Found r" "f \<noteq> NoRead"
  shows "highest_recorded cd f = Inr h"
proof -
  obtain rs where rs: "store_records cd f = Inr rs" using assms(3) by (cases f) (auto simp: store_records_def)
  note mem = store_records_get(2) [OF rs]
  have r: "r \<in> set rs" "epoch_of r = h" using mem store_get_epoch [OF assms(1)] assms(1) by auto
  have "epoch_of x \<le> h" if "x \<in> set rs" for x using mem that assms(2) by (metis not_le)
  then have "Max (set (map epoch_of rs)) = h" using r by (intro Max_eqI) auto
  then show ?thesis using rs r by (auto simp: highest_recorded_def)
qed

lemma sample_highest:
  "highest_recorded sample_codec genesis_file = Inr 1" "highest_recorded sample_codec sample_file = Inr 2"
proof -
  show "highest_recorded sample_codec genesis_file = Inr 1"
    by (rule highest_recorded_is [of _ _ _ genesis_1]) (simp_all only: sample_get_genesis, auto)
  have "sample_file \<noteq> NoRead" by (simp add: sample_file_def)
  then show "highest_recorded sample_codec sample_file = Inr 2"
    by (intro highest_recorded_is [of _ _ _ thin_2]) auto
qed

lemma sample_derive:
  assumes "store_get sample_codec f 1 = Found genesis_1" "store_get sample_codec f 2 \<noteq> Unreadable"
  shows "derive_one sample_env (sample_chain n) f 2 = Inr (sample_epoch 2 n (n div 2), sample_final n)"
  using assms
  by (simp add: derive_one_def prior_record_def sample_env_def sample_chain_def is_interpretable_def sample_final_def)
    (simp add: sample_recurrence_def sample_defs)

theorem walk_derives_history_witness:
  "\<exists>rep f'. catch_up sample_env (sample_chain 40) 2 genesis_file = Some (rep, f') \<and>
     length (cu_recorded rep) = 1 \<and> cu_stopped rep = None \<and>
     (\<exists>obs \<in> set (cu_recorded rep). co_epoch obs = 2 \<and> recorded_epoch sample_env (sample_chain 40) f' obs)"
proof -
  let ?up = "catch_up sample_env (sample_chain 40) 2 genesis_file"
  have g: "store_get sample_codec genesis_file 1 = Found genesis_1" "store_get sample_codec genesis_file 2 = Absent"
    by (simp_all only: sample_get_genesis) auto
  have put: "store_put sample_codec Whole (censused (sample_epoch 2 40 20) 70) genesis_file = (Inr Appended, sample_file)"
    using g(2) sample_lines(2) sample_file_def
    by (simp add: store_put_def store_append_def thin_2_def [symmetric] del: add_bytes.simps)
  have one: "\<exists>obs. record_one sample_env (sample_chain 40) genesis_file 2 = (Inr obs, sample_file)"
    using sample_derive [of genesis_file 40] g put
    by (auto simp: record_one_def sample_final_def sample_env_def simp del: add_bytes.simps)
  have "[2..<3] = [2 :: nat]" by (simp add: upt_rec)
  then obtain rep f' where up: "?up = Some (rep, f')" "length (cu_recorded rep) = 1" "cu_stopped rep = None"
    using one sample_highest(1)
    by (auto simp: catch_up_def sample_env_def numeral_2_eq_2 simp del: add_bytes.simps)
  have "highest_recorded (ce_codec sample_env) genesis_file = Inr 1" "whole genesis_file"
    using sample_highest(1) by (simp_all add: sample_env_def whole_text_def)
  note spec = walk_derives_history [OF sample_env_ok(1) _ this(2,1) _ up(1) refl]
  then show ?thesis using up by (cases "cu_recorded rep") (auto simp: sample_env_def)
qed

theorem recensus_only_raises_witness:
  "\<exists>rep f' obs. catch_up sample_env (sample_chain 42) 2 sample_file = Some (rep, f') \<and>
     cu_superseded rep = Some obs \<and> co_stores obs > 40 \<and> co_epoch obs = 2"
proof -
  have held: "store_get sample_codec sample_file 1 = Found genesis_1" "store_get sample_codec sample_file 2 = Found thin_2"
    by simp_all
  have "put_over thin_2 full_2 = None"
    by (simp add: put_over_def own_recensus_supersedes_def) (simp add: sample_defs)
  then have "\<exists>f'. store_put sample_codec Whole (censused (sample_epoch 2 42 21) 70) sample_file = (Inr Appended, f')"
    using held sample_lines(3) by (simp add: store_put_def store_append_def full_2_def [symmetric])
  then obtain obs f' where one: "record_one sample_env (sample_chain 42) sample_file 2 = (Inr obs, f')"
    "co_stores obs = 42"
    using sample_derive [of sample_file 42] held
    by (auto simp: record_one_def sample_final_def sample_env_def sample_epoch_def)
  have "cr_provenance thin_2 = Censused" "stores_of thin_2 = 40" by (simp_all add: sample_defs)
  then obtain rep where up: "catch_up sample_env (sample_chain 42) 2 sample_file = Some (rep, f')"
    "cu_superseded rep = Some obs"
    using one held sample_highest(2) by (auto simp: catch_up_def refresh_def sample_env_def)
  have "highest_recorded (ce_codec sample_env) sample_file = Inr 2" using sample_highest(2) by (simp add: sample_env_def)
  from recensus_only_raises [OF sample_env_ok sample_whole this _ _ up(1)] up one(2) show ?thesis by auto
qed

theorem wellformed_store_stays_readable_witness:
  "tidy sample_codec (snd (store_put sample_codec Whole full_2 sample_file)) \<and>
   store_get sample_codec sample_file 7 \<noteq> Unreadable"
  using wellformed_store_stays_readable [OF sample_env_ok, of sample_file] by (simp add: sample_env_def)

end
