(* ===== verification/Claim_Engine.thy ===== *)
theory Claim_Engine
  imports Entry_Writes
begin

text \<open>
  The rewards claim engine of the service: \<open>rewards_claim/types.rs\<close>, \<open>config.rs\<close>, \<open>port.rs\<close>,
  \<open>hints.rs\<close> and \<open>engine.rs\<close>.

  One cycle of the engine reads and spends through the trait \<open>ClaimChainPort\<close>, asks the trait
  \<open>DistributorHintSource\<close> for hints and keeps its fee window in one file. The trait objects and the
  success of a write are the record \<open>claim_env\<close>: each answer is a function of everything that
  happened before it (the list of events so far), so a port may answer as it likes and change its
  mind. Every call with its answer, and every write of the file, is an event of the trace; the file
  after a crash is the one the events up to the crash leave behind (\<open>disk_after\<close>), since a write is
  a rename of a finished temporary file.

  An overflow of the checked addition after a submission is a panic (the result \<open>None\<close>). The
  counters of the status surface, which grow by one per distributor or cycle, are naturals.
\<close>

section \<open>Data\<close>

record discovered_distributor =
  dd_launcher_id :: bytes32
  dd_store_id :: bytes32
  dd_root :: bytes32

record own_entry =
  oe_payout_puzzle_hash :: bytes32
  oe_counter :: nat
  oe_accrued_base_units :: nat

datatype claim_outcome =
  Submitted bytes32
| SkippedBelowThreshold bytes32 nat nat
| SkippedFeeAboveCeiling bytes32 nat nat
| NoEntrySlot bytes32
| NotOurs bytes32
| SkippedCycleBudgetExhausted bytes32 nat nat
| PayoutPuzzleHashMismatch bytes32
| Faulted bytes32 "nat option" string

datatype claim_loop_state =
  LoopIdle
| ChainSourceUnavailable
| PersistedStateCorrupt
| CadenceNotElapsed
| LoopFaulted nat
| ClaimableButNotClaiming nat nat
| Nominal

record claim_status =
  chain_unavailable_this_cycle :: bool
  distributors_known :: nat
  distributors_with_own_entry :: nat
  distributors_claimable :: nat
  distributors_faulted :: nat
  last_discovery_at :: "nat option"
  last_cycle_at :: "nat option"
  last_attempt_at :: "nat option"
  claims_submitted :: nat
  claims_submitted_this_cycle :: nat
  claims_skipped_below_threshold :: nat
  claims_skipped_fee_ceiling :: nat
  claims_skipped_cycle_budget :: nat
  claims_refused_payout_mismatch :: nat
  payout_hash_mismatches_this_cycle :: nat
  no_entry_slot_this_cycle :: nat
  fault_reported :: bool
  consecutive_faulted_cycles :: nat
  loop_state :: claim_loop_state

definition claim_status_default :: claim_status where
  "claim_status_default =
     \<lparr>chain_unavailable_this_cycle = False, distributors_known = 0,
      distributors_with_own_entry = 0, distributors_claimable = 0, distributors_faulted = 0,
      last_discovery_at = None, last_cycle_at = None, last_attempt_at = None,
      claims_submitted = 0, claims_submitted_this_cycle = 0, claims_skipped_below_threshold = 0,
      claims_skipped_fee_ceiling = 0, claims_skipped_cycle_budget = 0,
      claims_refused_payout_mismatch = 0, payout_hash_mismatches_this_cycle = 0,
      no_entry_slot_this_cycle = 0, fault_reported = False, consecutive_faulted_cycles = 0,
      loop_state = LoopIdle\<rparr>"

definition compute_state :: "claim_status \<Rightarrow> claim_loop_state" where
  "compute_state st =
     (if chain_unavailable_this_cycle st then ChainSourceUnavailable
      else if last_attempt_at st = None \<and> last_cycle_at st = None then LoopIdle
      else if fault_reported st then LoopFaulted (max (consecutive_faulted_cycles st) 1)
      else
        let shortfall_denominator =
              distributors_claimable st + payout_hash_mismatches_this_cycle st
        in if claims_submitted_this_cycle st < shortfall_denominator
           then ClaimableButNotClaiming (min shortfall_denominator u32_max)
                  (min (claims_submitted_this_cycle st) u32_max)
           else Nominal)"

section \<open>The preference file\<close>

definition CLAIM_CADENCE_SECONDS_DEFAULT :: nat where "CLAIM_CADENCE_SECONDS_DEFAULT = 86400"
definition CLAIM_JITTER_SECONDS_DEFAULT :: nat where "CLAIM_JITTER_SECONDS_DEFAULT = 3600"
definition CLAIM_FEE_CEILING_MOJOS_DEFAULT :: nat where "CLAIM_FEE_CEILING_MOJOS_DEFAULT = 200000"
definition CLAIM_CADENCE_FLOOR_SECONDS :: nat where "CLAIM_CADENCE_FLOOR_SECONDS = 60"
definition CLAIM_SCHEDULE_SECONDS_MAX :: nat where
  "CLAIM_SCHEDULE_SECONDS_MAX = 31 * 24 * 60 * 60"
definition CLAIM_CYCLE_FEE_BUDGET_MOJOS_DEFAULT :: nat where
  "CLAIM_CYCLE_FEE_BUDGET_MOJOS_DEFAULT = CLAIM_FEE_CEILING_MOJOS_DEFAULT * 10"

record rewards_claim_config =
  rc_enabled :: bool
  rc_cadence_seconds :: nat
  rc_jitter_seconds :: nat
  rc_max_fee_mojos :: nat
  rc_max_cycle_fee_budget_mojos :: nat
  rc_rotation_cursor :: "bytes32 option"
  rc_fee_window_start_unix :: "nat option"
  rc_fee_spent_in_window_mojos :: nat
  rc_last_cycle_completed_at :: "nat option"
  rc_corrupt :: bool

definition claim_config_default :: rewards_claim_config where
  "claim_config_default =
     \<lparr>rc_enabled = True, rc_cadence_seconds = CLAIM_CADENCE_SECONDS_DEFAULT,
      rc_jitter_seconds = CLAIM_JITTER_SECONDS_DEFAULT,
      rc_max_fee_mojos = CLAIM_FEE_CEILING_MOJOS_DEFAULT,
      rc_max_cycle_fee_budget_mojos = CLAIM_CYCLE_FEE_BUDGET_MOJOS_DEFAULT,
      rc_rotation_cursor = None, rc_fee_window_start_unix = None,
      rc_fee_spent_in_window_mojos = 0, rc_last_cycle_completed_at = None, rc_corrupt = False\<rparr>"

definition poisoned :: rewards_claim_config where
  "poisoned = claim_config_default\<lparr>rc_corrupt := True\<rparr>"

text \<open>
  What a read of the file finds. The JSON parser is third-party code; a parsed file is the value
  \<open>serde\<close> builds from it, whose skipped field \<open>corrupt\<close> is false.
\<close>

datatype claim_file =
  ClaimFileAbsent | ClaimFileUnreadable | ClaimFileMalformed | ClaimFileParsed rewards_claim_config

fun claim_load_from :: "claim_file \<Rightarrow> rewards_claim_config" where
  "claim_load_from ClaimFileAbsent = claim_config_default"
| "claim_load_from ClaimFileUnreadable = poisoned"
| "claim_load_from ClaimFileMalformed = poisoned"
| "claim_load_from (ClaimFileParsed cfg) =
     (if rc_max_cycle_fee_budget_mojos cfg < rc_fee_spent_in_window_mojos cfg then poisoned
      else cfg\<lparr>rc_cadence_seconds := max (rc_cadence_seconds cfg) CLAIM_CADENCE_FLOOR_SECONDS,
               rc_corrupt := False\<rparr>)"

section \<open>The chain port, the hints and the trace\<close>

datatype claim_port_error = PortUnavailable | PortOther string

datatype claim_event =
  EvDiscover "claim_port_error + discovered_distributor list"
| EvHints "bytes32 list"
| EvResolve bytes32 "claim_port_error + discovered_distributor option"
| EvReserve bytes32 "claim_port_error + bytes32"
| EvEntry bytes32 bytes32 "claim_port_error + own_entry option"
| EvThreshold bytes32 "claim_port_error + nat"
| EvFee bytes32 "claim_port_error + nat"
| EvSubmit bytes32 bytes32 nat "claim_port_error + unit"
| EvSave rewards_claim_config
| EvSaveFailed rewards_claim_config

record claim_env =
  discover_distributors :: "claim_event list \<Rightarrow> claim_port_error + discovered_distributor list"
  hints_of :: "claim_event list \<Rightarrow> bytes32 list"
  resolve_launch_comment ::
    "claim_event list \<Rightarrow> bytes32 \<Rightarrow> claim_port_error + discovered_distributor option"
  reserve_asset_id :: "claim_event list \<Rightarrow> bytes32 \<Rightarrow> claim_port_error + bytes32"
  own_entry_of :: "claim_event list \<Rightarrow> bytes32 \<Rightarrow> bytes32 \<Rightarrow> claim_port_error + own_entry option"
  payout_threshold_of :: "claim_event list \<Rightarrow> bytes32 \<Rightarrow> claim_port_error + nat"
  required_fee_mojos :: "claim_event list \<Rightarrow> bytes32 \<Rightarrow> claim_port_error + nat"
  submit_initiate_payout ::
    "claim_event list \<Rightarrow> bytes32 \<Rightarrow> bytes32 \<Rightarrow> nat \<Rightarrow> claim_port_error + unit"
  save_succeeds :: "claim_event list \<Rightarrow> bool"

text \<open>The engine's test double, which answers \<open>Unavailable\<close> to everything.\<close>

definition unavailable_port :: claim_env where
  "unavailable_port =
     \<lparr>discover_distributors = (\<lambda>_. Inl PortUnavailable), hints_of = (\<lambda>_. []),
      resolve_launch_comment = (\<lambda>_ _. Inl PortUnavailable),
      reserve_asset_id = (\<lambda>_ _. Inl PortUnavailable), own_entry_of = (\<lambda>_ _ _. Inl PortUnavailable),
      payout_threshold_of = (\<lambda>_ _. Inl PortUnavailable),
      required_fee_mojos = (\<lambda>_ _. Inl PortUnavailable),
      submit_initiate_payout = (\<lambda>_ _ _ _. Inl PortUnavailable), save_succeeds = (\<lambda>_. True)\<rparr>"

record claim_world =
  cw_disk :: claim_file
  cw_log :: "claim_event list"

definition noted :: "claim_event \<Rightarrow> claim_world \<Rightarrow> claim_world" where
  "noted ev w = w\<lparr>cw_log := cw_log w @ [ev]\<rparr>"

definition claim_save_to :: "claim_env \<Rightarrow> rewards_claim_config \<Rightarrow> claim_world \<Rightarrow> claim_world" where
  "claim_save_to env cfg w =
     (if save_succeeds env (cw_log w)
      then noted (EvSave cfg) (w\<lparr>cw_disk := ClaimFileParsed cfg\<rparr>)
      else noted (EvSaveFailed cfg) w)"

section \<open>The engine\<close>

record claim_engine =
  ce_own_payout_puzzle_hash :: bytes32
  ce_max_fee_mojos :: nat
  ce_cycle_fee_budget_mojos :: nat
  ce_dig_asset_id :: bytes32
  ce_status :: claim_status
  ce_rotation_cursor :: "bytes32 option"
  ce_armed :: bool
  ce_gate_cadence_seconds :: nat
  ce_fee_window_seconds :: nat

definition claim_engine_new :: "bytes32 \<Rightarrow> nat \<Rightarrow> nat \<Rightarrow> bytes32 \<Rightarrow> claim_engine" where
  "claim_engine_new own_hash max_fee budget asset =
     \<lparr>ce_own_payout_puzzle_hash = own_hash, ce_max_fee_mojos = max_fee,
      ce_cycle_fee_budget_mojos = budget, ce_dig_asset_id = asset,
      ce_status = claim_status_default, ce_rotation_cursor = None, ce_armed = False,
      ce_gate_cadence_seconds = 0, ce_fee_window_seconds = 0\<rparr>"

definition with_rotation_cursor :: "bytes32 option \<Rightarrow> claim_engine \<Rightarrow> claim_engine" where
  "with_rotation_cursor cursor e = e\<lparr>ce_rotation_cursor := cursor\<rparr>"

text \<open>The two cadences, the clamped gate and the raw window, from one raw value.\<close>

definition clamp_gate :: "nat \<Rightarrow> nat" where
  "clamp_gate raw = min raw CLAIM_SCHEDULE_SECONDS_MAX"

definition claim_cadences :: "nat \<Rightarrow> nat \<times> nat" where
  "claim_cadences raw = (clamp_gate raw, raw)"

definition with_persisted_fee_window :: "nat \<times> nat \<Rightarrow> claim_engine \<Rightarrow> claim_engine" where
  "with_persisted_fee_window cadences e =
     e\<lparr>ce_armed := True,
       ce_gate_cadence_seconds := max (fst cadences) CLAIM_CADENCE_FLOOR_SECONDS,
       ce_fee_window_seconds := max (snd cadences) CLAIM_CADENCE_FLOOR_SECONDS\<rparr>"

record fee_window =
  fw_start_unix :: "nat option"
  fw_spent_mojos :: nat
  fw_last_completed_at :: "nat option"

definition persist_fee_window ::
  "claim_env \<Rightarrow> claim_engine \<Rightarrow> fee_window \<Rightarrow> claim_world \<Rightarrow> claim_world"
where
  "persist_fee_window env e win w =
     (if \<not> ce_armed e then w
      else let cfg = claim_load_from (cw_disk w)
           in if rc_corrupt cfg then w
              else claim_save_to env
                     (cfg\<lparr>rc_fee_window_start_unix := fw_start_unix win,
                          rc_fee_spent_in_window_mojos := fw_spent_mojos win,
                          rc_last_cycle_completed_at := fw_last_completed_at win\<rparr>) w)"

text \<open>\<open>message.chars().take(200)\<close> on the UTF-8 bytes: a scalar is a byte and its continuations.\<close>

definition is_continuation :: "char \<Rightarrow> bool" where
  "is_continuation c \<longleftrightarrow> 128 \<le> (of_char c :: nat) \<and> of_char c < (192::nat)"

fun take_scalars :: "nat \<Rightarrow> string \<Rightarrow> string" where
  "take_scalars 0 s = []"
| "take_scalars (Suc n) [] = []"
| "take_scalars (Suc n) (c # cs) =
     c # takeWhile is_continuation cs @ take_scalars n (dropWhile is_continuation cs)"

definition bound_port_error_text :: "string \<Rightarrow> string" where
  "bound_port_error_text message = take_scalars 200 message"

subsection \<open>Before the budget\<close>

datatype pre_budget_result =
  PreOutcome claim_outcome bool
| Eligible bytes32 nat
| PreFault string
| PreUnavailable

definition evaluate_pre_budget ::
  "claim_env \<Rightarrow> claim_engine \<Rightarrow> bytes32 \<Rightarrow> claim_status \<Rightarrow> claim_world \<Rightarrow>
     pre_budget_result \<times> claim_status \<times> claim_world"
where
  "evaluate_pre_budget env e launcher_id st w =
     (let own = ce_own_payout_puzzle_hash e;
          asset = reserve_asset_id env (cw_log w) launcher_id;
          w = noted (EvReserve launcher_id asset) w
      in case asset of
        Inl PortUnavailable \<Rightarrow> (PreUnavailable, st, w)
      | Inl (PortOther message) \<Rightarrow>
          (PreFault (bound_port_error_text message), st\<lparr>fault_reported := True\<rparr>, w)
      | Inr a \<Rightarrow>
          if a \<noteq> ce_dig_asset_id e then (PreOutcome (NotOurs launcher_id) False, st, w)
          else
            let slot = own_entry_of env (cw_log w) launcher_id own;
                w = noted (EvEntry launcher_id own slot) w
            in case slot of
              Inl PortUnavailable \<Rightarrow> (PreUnavailable, st, w)
            | Inl (PortOther message) \<Rightarrow>
                (PreFault (bound_port_error_text message), st\<lparr>fault_reported := True\<rparr>, w)
            | Inr None \<Rightarrow> (PreOutcome (NoEntrySlot launcher_id) False, st, w)
            | Inr (Some entry) \<Rightarrow>
                if oe_payout_puzzle_hash entry \<noteq> own
                then (PreOutcome (PayoutPuzzleHashMismatch launcher_id) True,
                      st\<lparr>claims_refused_payout_mismatch := claims_refused_payout_mismatch st + 1,
                         payout_hash_mismatches_this_cycle :=
                           payout_hash_mismatches_this_cycle st + 1\<rparr>, w)
                else
                  let limit = payout_threshold_of env (cw_log w) launcher_id;
                      w = noted (EvThreshold launcher_id limit) w
                  in case limit of
                    Inl PortUnavailable \<Rightarrow> (PreUnavailable, st, w)
                  | Inl (PortOther message) \<Rightarrow>
                      (PreFault (bound_port_error_text message), st\<lparr>fault_reported := True\<rparr>, w)
                  | Inr threshold \<Rightarrow>
                      if oe_accrued_base_units entry < threshold
                      then (PreOutcome
                              (SkippedBelowThreshold launcher_id (oe_accrued_base_units entry)
                                 threshold) True,
                            st\<lparr>claims_skipped_below_threshold :=
                                 claims_skipped_below_threshold st + 1\<rparr>, w)
                      else (Eligible launcher_id (oe_accrued_base_units entry), st, w))"

subsection \<open>The order of the budget pass\<close>

text \<open>An eligible claim is its launcher id with the accrued amount.\<close>

type_synonym eligible_claim = "bytes32 \<times> nat"

definition position :: "'a \<Rightarrow> 'a list \<Rightarrow> nat option" where
  "position x xs = (let n = length (takeWhile (\<lambda>y. y \<noteq> x) xs) in if n < length xs then Some n else None)"

definition cursor_index :: "bytes32 option \<Rightarrow> bytes32 list \<Rightarrow> nat" where
  "cursor_index cursor canonical =
     (case cursor of
        None \<Rightarrow> 0
      | Some c \<Rightarrow> (case position c canonical of None \<Rightarrow> 0 | Some i \<Rightarrow> i))"

definition rotation_key :: "bytes32 option \<Rightarrow> bytes32 list \<Rightarrow> bytes32 \<Rightarrow> nat" where
  "rotation_key cursor canonical launcher_id =
     (let pos = (case position launcher_id canonical of None \<Rightarrow> 0 | Some i \<Rightarrow> i);
          len = length canonical
      in if len = 0 then 0 else (pos + len - cursor_index cursor canonical) mod len)"

definition order_for_budget :: "claim_engine \<Rightarrow> eligible_claim list \<Rightarrow> eligible_claim list" where
  "order_for_budget e eligible =
     (let canonical = sort (map fst eligible)
      in sort_key (\<lambda>(launcher_id, accrued).
           (- int accrued, rotation_key (ce_rotation_cursor e) canonical launcher_id)) eligible)"

subsection \<open>The budget pass\<close>

datatype budget_phase_result =
  BudgetOutcome claim_outcome
| BudgetFault string "nat option"
| BudgetUnavailable
| BudgetPanic

record budget_state =
  bs_spent_this_cycle_mojos :: nat
  bs_budget_exhausted :: bool
  bs_window :: fee_window

definition precommit_fee ::
  "claim_env \<Rightarrow> claim_engine \<Rightarrow> nat \<Rightarrow> budget_state \<times> claim_world \<Rightarrow> budget_state \<times> claim_world"
where
  "precommit_fee env e fee = (\<lambda>(bs, w).
     if ce_armed e
     then let win = (bs_window bs)\<lparr>fw_spent_mojos :=
                       u64_sat_add (fw_spent_mojos (bs_window bs)) fee\<rparr>
          in (bs\<lparr>bs_window := win\<rparr>, persist_fee_window env e win w)
     else (bs, w))"

definition uncommit_fee ::
  "claim_env \<Rightarrow> claim_engine \<Rightarrow> nat \<Rightarrow> budget_state \<times> claim_world \<Rightarrow> budget_state \<times> claim_world"
where
  "uncommit_fee env e fee = (\<lambda>(bs, w).
     if ce_armed e
     then let win = (bs_window bs)\<lparr>fw_spent_mojos := fw_spent_mojos (bs_window bs) - fee\<rparr>
          in (bs\<lparr>bs_window := win\<rparr>, persist_fee_window env e win w)
     else (bs, w))"

definition submit_phase ::
  "claim_env \<Rightarrow> claim_engine \<Rightarrow> bytes32 \<Rightarrow> nat \<Rightarrow> budget_state \<Rightarrow> claim_status \<Rightarrow> claim_world \<Rightarrow>
     budget_phase_result \<times> budget_state \<times> claim_status \<times> claim_world"
where
  "submit_phase env e launcher_id fee bs st w =
     (let (bs, w) = precommit_fee env e fee (bs, w);
          answer = submit_initiate_payout env (cw_log w) launcher_id
                     (ce_own_payout_puzzle_hash e) fee;
          w = noted (EvSubmit launcher_id (ce_own_payout_puzzle_hash e) fee answer) w
      in case answer of
        Inr _ \<Rightarrow>
          (case u64_add (bs_spent_this_cycle_mojos bs) fee of
             None \<Rightarrow> (BudgetPanic, bs, st, w)
           | Some spent \<Rightarrow>
               (BudgetOutcome (Submitted launcher_id),
                bs\<lparr>bs_spent_this_cycle_mojos := spent\<rparr>, st, w))
      | Inl PortUnavailable \<Rightarrow>
          (let (bs, w) = uncommit_fee env e fee (bs, w) in (BudgetUnavailable, bs, st, w))
      | Inl (PortOther message) \<Rightarrow>
          (let (bs, w) = uncommit_fee env e fee (bs, w)
           in (BudgetFault (bound_port_error_text message) (Some fee), bs,
               st\<lparr>fault_reported := True\<rparr>, w)))"

definition evaluate_budget_phase ::
  "claim_env \<Rightarrow> claim_engine \<Rightarrow> bytes32 \<Rightarrow> budget_state \<Rightarrow> claim_status \<Rightarrow> claim_world \<Rightarrow>
     budget_phase_result \<times> budget_state \<times> claim_status \<times> claim_world"
where
  "evaluate_budget_phase env e launcher_id bs st w =
     (let quote = required_fee_mojos env (cw_log w) launcher_id;
          w = noted (EvFee launcher_id quote) w
      in case quote of
        Inl PortUnavailable \<Rightarrow> (BudgetUnavailable, bs, st, w)
      | Inl (PortOther message) \<Rightarrow>
          (BudgetFault (bound_port_error_text message) None, bs, st\<lparr>fault_reported := True\<rparr>, w)
      | Inr fee \<Rightarrow>
          if ce_max_fee_mojos e < fee
          then (BudgetOutcome (SkippedFeeAboveCeiling launcher_id fee (ce_max_fee_mojos e)), bs,
                st\<lparr>claims_skipped_fee_ceiling := claims_skipped_fee_ceiling st + 1\<rparr>, w)
          else if bs_budget_exhausted bs
                  \<or> ce_cycle_fee_budget_mojos e < u64_sat_add (bs_spent_this_cycle_mojos bs) fee
          then (BudgetOutcome
                  (SkippedCycleBudgetExhausted launcher_id fee (ce_cycle_fee_budget_mojos e)),
                bs\<lparr>bs_budget_exhausted := True\<rparr>,
                st\<lparr>claims_skipped_cycle_budget := claims_skipped_cycle_budget st + 1\<rparr>, w)
          else submit_phase env e launcher_id fee bs st w)"

section \<open>One cycle\<close>

text \<open>The local variables of the two loops.\<close>

record cycle_tally =
  ct_outcomes :: "claim_outcome list"
  ct_with_entry :: nat
  ct_faulted :: nat
  ct_no_entry :: nat
  ct_eligible :: "eligible_claim list"
  ct_submitted :: nat
  ct_first_deferred :: "bytes32 option"

definition tally_new :: cycle_tally where
  "tally_new =
     \<lparr>ct_outcomes = [], ct_with_entry = 0, ct_faulted = 0, ct_no_entry = 0, ct_eligible = [],
      ct_submitted = 0, ct_first_deferred = None\<rparr>"

definition add_outcome :: "claim_outcome \<Rightarrow> cycle_tally \<Rightarrow> cycle_tally" where
  "add_outcome outcome ct = ct\<lparr>ct_outcomes := ct_outcomes ct @ [outcome]\<rparr>"

definition add_fault :: "claim_outcome \<Rightarrow> cycle_tally \<Rightarrow> cycle_tally" where
  "add_fault outcome ct = add_outcome outcome (ct\<lparr>ct_faulted := ct_faulted ct + 1\<rparr>)"

datatype loop_end = LoopDone | LoopUnavailable | LoopPanic

definition mark_unavailable :: "claim_status \<Rightarrow> claim_status" where
  "mark_unavailable st =
     st\<lparr>chain_unavailable_this_cycle := True, loop_state := ChainSourceUnavailable\<rparr>"

fun tally_pre :: "pre_budget_result \<Rightarrow> bytes32 \<Rightarrow> cycle_tally \<Rightarrow> cycle_tally" where
  "tally_pre (PreFault reason) launcher_id ct = add_fault (Faulted launcher_id None reason) ct"
| "tally_pre (Eligible lid accrued) launcher_id ct =
     ct\<lparr>ct_with_entry := ct_with_entry ct + 1, ct_eligible := ct_eligible ct @ [(lid, accrued)]\<rparr>"
| "tally_pre (PreOutcome outcome entry_seen) launcher_id ct =
     add_outcome outcome
       (ct\<lparr>ct_with_entry := ct_with_entry ct + (if entry_seen then 1 else 0),
           ct_no_entry := ct_no_entry ct + (case outcome of NoEntrySlot _ \<Rightarrow> 1 | _ \<Rightarrow> 0)\<rparr>)"
| "tally_pre PreUnavailable launcher_id ct = ct"

fun pre_budget_pass ::
  "claim_env \<Rightarrow> claim_engine \<Rightarrow> bytes32 list \<Rightarrow> cycle_tally \<Rightarrow> claim_status \<Rightarrow> claim_world \<Rightarrow>
     loop_end \<times> cycle_tally \<times> claim_status \<times> claim_world"
where
  "pre_budget_pass env e [] ct st w = (LoopDone, ct, st, w)"
| "pre_budget_pass env e (launcher_id # ids) ct st w =
     (case evaluate_pre_budget env e launcher_id st w of
        (PreUnavailable, st, w) \<Rightarrow> (LoopUnavailable, ct, mark_unavailable st, w)
      | (r, st, w) \<Rightarrow> pre_budget_pass env e ids (tally_pre r launcher_id ct) st w)"

fun tally_budget :: "budget_phase_result \<Rightarrow> bytes32 \<Rightarrow> cycle_tally \<Rightarrow> cycle_tally" where
  "tally_budget (BudgetFault reason reversed) launcher_id ct =
     add_fault (Faulted launcher_id reversed reason) ct"
| "tally_budget (BudgetOutcome outcome) launcher_id ct =
     add_outcome outcome
       (case outcome of
          Submitted _ \<Rightarrow> ct\<lparr>ct_submitted := ct_submitted ct + 1\<rparr>
        | SkippedCycleBudgetExhausted _ _ _ \<Rightarrow>
            if ct_first_deferred ct = None then ct\<lparr>ct_first_deferred := Some launcher_id\<rparr> else ct
        | _ \<Rightarrow> ct)"
| "tally_budget BudgetUnavailable launcher_id ct = ct"
| "tally_budget BudgetPanic launcher_id ct = ct"

fun budget_pass ::
  "claim_env \<Rightarrow> claim_engine \<Rightarrow> eligible_claim list \<Rightarrow> cycle_tally \<Rightarrow> budget_state \<Rightarrow>
     claim_status \<Rightarrow> claim_world \<Rightarrow>
     loop_end \<times> cycle_tally \<times> budget_state \<times> claim_status \<times> claim_world"
where
  "budget_pass env e [] ct bs st w = (LoopDone, ct, bs, st, w)"
| "budget_pass env e (claim # claims) ct bs st w =
     (case evaluate_budget_phase env e (fst claim) bs st w of
        (BudgetUnavailable, bs, st, w) \<Rightarrow> (LoopUnavailable, ct, bs, mark_unavailable st, w)
      | (BudgetPanic, bs, st, w) \<Rightarrow> (LoopPanic, ct, bs, st, w)
      | (r, bs, st, w) \<Rightarrow> budget_pass env e claims (tally_budget r (fst claim) ct) bs st w)"

definition begin_cycle :: "nat \<Rightarrow> claim_status \<Rightarrow> claim_status" where
  "begin_cycle now st =
     st\<lparr>fault_reported := False, chain_unavailable_this_cycle := False,
        payout_hash_mismatches_this_cycle := 0, distributors_known := 0,
        distributors_with_own_entry := 0, distributors_claimable := 0, distributors_faulted := 0,
        claims_submitted_this_cycle := 0, no_entry_slot_this_cycle := 0,
        last_attempt_at := Some now\<rparr>"

datatype cycle_gate = GateStop claim_loop_state | GateOpen fee_window

definition future_dated :: "nat \<Rightarrow> nat option \<Rightarrow> bool" where
  "future_dated now t = (case t of None \<Rightarrow> False | Some t \<Rightarrow> now < t)"

definition elapsed_less :: "nat \<Rightarrow> nat option \<Rightarrow> nat \<Rightarrow> bool" where
  "elapsed_less now t bound = (case t of None \<Rightarrow> False | Some t \<Rightarrow> now - t < bound)"

definition fee_gate ::
  "claim_env \<Rightarrow> claim_engine \<Rightarrow> nat \<Rightarrow> claim_world \<Rightarrow> cycle_gate \<times> claim_world"
where
  "fee_gate env e now w =
     (if \<not> ce_armed e
      then (GateOpen \<lparr>fw_start_unix = None, fw_spent_mojos = 0, fw_last_completed_at = None\<rparr>, w)
      else
        let cfg = claim_load_from (cw_disk w);
            start = rc_fee_window_start_unix cfg;
            completed = rc_last_cycle_completed_at cfg
        in if rc_corrupt cfg \<or> future_dated now completed \<or> future_dated now start
           then (GateStop PersistedStateCorrupt, w)
           else if elapsed_less now completed (ce_gate_cadence_seconds e)
           then (GateStop CadenceNotElapsed, w)
           else if elapsed_less now start (ce_fee_window_seconds e)
           then (GateOpen \<lparr>fw_start_unix = start,
                           fw_spent_mojos = rc_fee_spent_in_window_mojos cfg,
                           fw_last_completed_at = completed\<rparr>, w)
           else let win = \<lparr>fw_start_unix = Some now, fw_spent_mojos = 0,
                           fw_last_completed_at = completed\<rparr>
                in (GateOpen win, persist_fee_window env e win w))"

text \<open>The hints: one that is already a candidate is passed over, one the chain confirms is added.\<close>

fun add_hints ::
  "claim_env \<Rightarrow> bytes32 list \<Rightarrow> bytes32 list \<Rightarrow> claim_status \<Rightarrow> claim_world \<Rightarrow>
     bytes32 list \<times> claim_status \<times> claim_world"
where
  "add_hints env [] ids st w = (ids, st, w)"
| "add_hints env (hint # hints) ids st w =
     (if hint \<in> set ids then add_hints env hints ids st w
      else
        let answer = resolve_launch_comment env (cw_log w) hint;
            w = noted (EvResolve hint answer) w
        in case answer of
          Inr (Some _) \<Rightarrow> add_hints env hints (ids @ [hint]) st w
        | Inr None \<Rightarrow> add_hints env hints ids st w
        | Inl PortUnavailable \<Rightarrow> add_hints env hints ids st w
        | Inl (PortOther _) \<Rightarrow> add_hints env hints ids (st\<lparr>fault_reported := True\<rparr>) w)"

definition gather ::
  "claim_env \<Rightarrow> nat \<Rightarrow> discovered_distributor list option \<Rightarrow> claim_status \<Rightarrow> claim_world \<Rightarrow>
     bytes32 list \<times> claim_status \<times> claim_world"
where
  "gather env now found st w =
     (let st = (case found of None \<Rightarrow> st\<lparr>fault_reported := True\<rparr>
                            | Some _ \<Rightarrow> st\<lparr>last_discovery_at := Some now\<rparr>);
          ids = remdups_adj (sort (map dd_launcher_id (case found of None \<Rightarrow> [] | Some ds \<Rightarrow> ds)));
          hints = hints_of env (cw_log w);
          w = noted (EvHints hints) w;
          (ids, st, w) = add_hints env hints ids st w
      in (ids, st\<lparr>distributors_known := as_u32 (length ids)\<rparr>, w))"

definition finish_cycle ::
  "claim_env \<Rightarrow> claim_engine \<Rightarrow> nat \<Rightarrow> bool \<Rightarrow> bool \<Rightarrow> cycle_tally \<Rightarrow> fee_window \<Rightarrow> claim_status \<Rightarrow>
     claim_world \<Rightarrow> claim_engine \<times> claim_world"
where
  "finish_cycle env e now discovery_failed any_ids ct win st w =
     (let cursor = (case ct_first_deferred ct of None \<Rightarrow> ce_rotation_cursor e | Some d \<Rightarrow> Some d);
          all_faulted_cycle = (any_ids \<and> ct_submitted ct = 0 \<and> fault_reported st);
          st = st\<lparr>distributors_with_own_entry := ct_with_entry ct,
                  distributors_claimable := min (length (ct_eligible ct)) u32_max,
                  distributors_faulted := ct_faulted ct,
                  claims_submitted := claims_submitted st + ct_submitted ct,
                  claims_submitted_this_cycle := ct_submitted ct,
                  no_entry_slot_this_cycle := ct_no_entry ct,
                  consecutive_faulted_cycles :=
                    (if fault_reported st then consecutive_faulted_cycles st + 1 else 0),
                  last_cycle_at :=
                    (if \<not> discovery_failed \<and> \<not> all_faulted_cycle then Some now
                     else last_cycle_at st)\<rparr>;
          w = (if ce_armed e
               then persist_fee_window env e (win\<lparr>fw_last_completed_at := Some now\<rparr>) w else w)
      in (e\<lparr>ce_rotation_cursor := cursor, ce_status := st\<lparr>loop_state := compute_state st\<rparr>\<rparr>, w))"

definition evaluate_all ::
  "claim_env \<Rightarrow> claim_engine \<Rightarrow> nat \<Rightarrow> fee_window \<Rightarrow> discovered_distributor list option \<Rightarrow>
     claim_status \<Rightarrow> claim_world \<Rightarrow> claim_outcome list option \<times> claim_engine \<times> claim_world"
where
  "evaluate_all env e now win found st w =
     (let (ids, st, w) = gather env now found st w
      in case pre_budget_pass env e ids tally_new st w of
           (LoopDone, ct, st, w) \<Rightarrow>
             (let bs = \<lparr>bs_spent_this_cycle_mojos = (if ce_armed e then fw_spent_mojos win else 0),
                        bs_budget_exhausted = False, bs_window = win\<rparr>
              in case budget_pass env e (order_for_budget e (ct_eligible ct)) ct bs st w of
                   (LoopDone, ct, bs, st, w) \<Rightarrow>
                     (let (e, w) = finish_cycle env e now (found = None) (ids \<noteq> []) ct
                                     (bs_window bs) st w
                      in (Some (ct_outcomes ct), e, w))
                 | (LoopUnavailable, ct, bs, st, w) \<Rightarrow>
                     (Some (ct_outcomes ct), e\<lparr>ce_status := st\<rparr>, w)
                 | (LoopPanic, ct, bs, st, w) \<Rightarrow> (None, e\<lparr>ce_status := st\<rparr>, w))
         | (_, ct, st, w) \<Rightarrow> (Some (ct_outcomes ct), e\<lparr>ce_status := st\<rparr>, w))"

definition run_cycle ::
  "claim_env \<Rightarrow> nat \<Rightarrow> claim_engine \<Rightarrow> claim_world \<Rightarrow>
     claim_outcome list option \<times> claim_engine \<times> claim_world"
where
  "run_cycle env now e w =
     (let st = begin_cycle now (ce_status e)
      in case fee_gate env e now w of
           (GateStop s, w) \<Rightarrow> (Some [], e\<lparr>ce_status := st\<lparr>loop_state := s\<rparr>\<rparr>, w)
         | (GateOpen win, w) \<Rightarrow>
             (let found = discover_distributors env (cw_log w);
                  w = noted (EvDiscover found) w
              in case found of
                   Inl PortUnavailable \<Rightarrow>
                     (Some [], e\<lparr>ce_status := mark_unavailable st\<rparr>, w)
                 | Inl (PortOther _) \<Rightarrow> evaluate_all env e now win None st w
                 | Inr ds \<Rightarrow> evaluate_all env e now win (Some ds) st w))"

section \<open>The trace and the file a crash leaves\<close>

text \<open>The file after the events, and what the accepted submissions of the open window have paid.\<close>

fun disk_step :: "claim_file \<Rightarrow> claim_event \<Rightarrow> claim_file" where
  "disk_step d (EvSave cfg) = ClaimFileParsed cfg"
| "disk_step d _ = d"

definition disk_after :: "claim_file \<Rightarrow> claim_event list \<Rightarrow> claim_file" where
  "disk_after d evs = foldl disk_step d evs"

fun paid_step :: "claim_file \<Rightarrow> nat \<Rightarrow> claim_event \<Rightarrow> nat" where
  "paid_step d p (EvSave cfg) =
     (if rc_fee_window_start_unix cfg = rc_fee_window_start_unix (claim_load_from d) then p else 0)"
| "paid_step d p (EvSubmit _ _ fee (Inr _)) = p + fee"
| "paid_step d p _ = p"

fun window_paid :: "claim_file \<Rightarrow> nat \<Rightarrow> claim_event list \<Rightarrow> nat" where
  "window_paid d p [] = p"
| "window_paid d p (ev # evs) = window_paid (disk_step d ev) (paid_step d p ev) evs"

end
