(* ===== verification/Claim_Driver.thy ===== *)
theory Claim_Driver
  imports Claim_Engine
begin

text \<open>
  The schedule and the driver of the claim engine: \<open>rewards_claim/cadence.rs\<close> and
  \<open>rewards_claim/driver.rs\<close>.

  The jitter source is a function from its bound to the offset it draws, the operating system's
  randomness a byte string or a failure, and the clock the list of the readings the ticks take. The
  handle's counter is an atomic that wraps.
\<close>

section \<open>The schedule\<close>

definition next_interval_seconds :: "nat \<Rightarrow> nat \<Rightarrow> (nat \<Rightarrow> nat) \<Rightarrow> nat" where
  "next_interval_seconds cadence_seconds jitter_seconds source =
     u64_sat_add cadence_seconds (source jitter_seconds)"

definition fixed_jitter :: "nat \<Rightarrow> nat \<Rightarrow> nat" where
  "fixed_jitter n bound = min n bound"

fun le_u64 :: "string \<Rightarrow> nat" where
  "le_u64 [] = 0"
| "le_u64 (b # bs) = of_char b + 256 * le_u64 bs"

definition os_jitter :: "string option \<Rightarrow> nat \<Rightarrow> nat" where
  "os_jitter random bound =
     (if bound = 0 then 0
      else case random of
             None \<Rightarrow> 0
           | Some buf \<Rightarrow> le_u64 buf mod u64_sat_add bound 1)"

record schedule_adjustment =
  sa_cadence :: "(nat \<times> nat) option"
  sa_jitter :: "(nat \<times> nat) option"

definition sanitized_schedule :: "nat \<Rightarrow> nat \<Rightarrow> nat \<times> nat \<times> schedule_adjustment" where
  "sanitized_schedule cadence_seconds jitter_seconds =
     (let (cadence, ca) =
            (if cadence_seconds = 0
             then (CLAIM_CADENCE_SECONDS_DEFAULT,
                   Some (cadence_seconds, CLAIM_CADENCE_SECONDS_DEFAULT))
             else if CLAIM_SCHEDULE_SECONDS_MAX < cadence_seconds
             then (CLAIM_SCHEDULE_SECONDS_MAX, Some (cadence_seconds, CLAIM_SCHEDULE_SECONDS_MAX))
             else (cadence_seconds, None));
          (jitter, ja) =
            (if CLAIM_SCHEDULE_SECONDS_MAX < jitter_seconds
             then (CLAIM_SCHEDULE_SECONDS_MAX, Some (jitter_seconds, CLAIM_SCHEDULE_SECONDS_MAX))
             else (jitter_seconds, None))
      in (cadence, jitter, \<lparr>sa_cadence = ca, sa_jitter = ja\<rparr>))"

section \<open>The handle and the log line of a cycle\<close>

datatype claim_driver_refusal =
  RefusedDisabled | RefusedChainSyncDisabled | NoOperatorWallet | ChainSourceUnbuildable
| BroadcasterUnbuildable

record claim_loop_handle =
  lh_status :: claim_status
  lh_cycles_driven :: nat
  lh_refusal :: "claim_driver_refusal option"

definition claim_handle_default :: claim_loop_handle where
  "claim_handle_default =
     \<lparr>lh_status = claim_status_default, lh_cycles_driven = 0, lh_refusal = None\<rparr>"

definition set_refusal :: "claim_driver_refusal \<Rightarrow> claim_loop_handle \<Rightarrow> claim_loop_handle" where
  "set_refusal reason h = h\<lparr>lh_refusal := Some reason\<rparr>"

definition record_cycle :: "claim_status \<Rightarrow> claim_loop_handle \<Rightarrow> claim_loop_handle" where
  "record_cycle st h =
     h\<lparr>lh_status := st, lh_cycles_driven := (lh_cycles_driven h + 1) mod (u64_max + 1)\<rparr>"

record cycle_line =
  cl_warning :: bool
  cl_state :: claim_loop_state
  cl_cycles_driven :: nat
  cl_known :: nat
  cl_claimable :: nat
  cl_submitted :: nat
  cl_cadence :: "nat option \<times> nat option"
  cl_jitter :: "nat option \<times> nat option"

definition configured_effective :: "(nat \<times> nat) option \<Rightarrow> nat option \<times> nat option" where
  "configured_effective p =
     (case p of None \<Rightarrow> (None, None) | Some (c, eff) \<Rightarrow> (Some c, Some eff))"

definition log_cycle :: "claim_status \<Rightarrow> nat \<Rightarrow> schedule_adjustment \<Rightarrow> cycle_line" where
  "log_cycle st cycles adj =
     \<lparr>cl_warning = (loop_state st \<noteq> Nominal), cl_state = loop_state st,
      cl_cycles_driven = cycles, cl_known = distributors_known st,
      cl_claimable = distributors_claimable st, cl_submitted = claims_submitted st,
      cl_cadence = configured_effective (sa_cadence adj),
      cl_jitter = configured_effective (sa_jitter adj)\<rparr>"

section \<open>The driver\<close>

text \<open>
  One tick: the interval slept, then a cycle at the clock's reading, recorded and logged. The loop
  is followed for as many ticks as the list has; a panic of the cycle ends the task.
\<close>

record claim_tick =
  tick_source :: "nat \<Rightarrow> nat"
  tick_now :: nat

fun drive ::
  "claim_env \<Rightarrow> nat \<Rightarrow> nat \<Rightarrow> schedule_adjustment \<Rightarrow> claim_tick list \<Rightarrow> claim_engine \<Rightarrow>
     claim_loop_handle \<Rightarrow> claim_world \<Rightarrow>
     (nat \<times> cycle_line) list \<times> claim_engine \<times> claim_loop_handle \<times> claim_world"
where
  "drive env cadence jitter adj [] e h w = ([], e, h, w)"
| "drive env cadence jitter adj (tick # ticks) e h w =
     (let interval = next_interval_seconds cadence jitter (tick_source tick)
      in case run_cycle env (tick_now tick) e w of
           (None, e, w) \<Rightarrow> ([], e, h, w)
         | (Some _, e, w) \<Rightarrow>
             (let h = record_cycle (ce_status e) h;
                  line = log_cycle (ce_status e) (lh_cycles_driven h) adj;
                  (lines, rest) = drive env cadence jitter adj ticks e h w
              in ((interval, line) # lines, rest)))"

definition driver_engine :: "bytes32 \<Rightarrow> bytes32 \<Rightarrow> rewards_claim_config \<Rightarrow> claim_engine" where
  "driver_engine own_hash asset cfg =
     with_persisted_fee_window (claim_cadences (rc_cadence_seconds cfg))
       (with_rotation_cursor (rc_rotation_cursor cfg)
          (claim_engine_new own_hash (rc_max_fee_mojos cfg) (rc_max_cycle_fee_budget_mojos cfg)
             asset))"

definition run_claim_driver_in ::
  "claim_env \<Rightarrow> bytes32 \<Rightarrow> bytes32 \<Rightarrow> claim_tick list \<Rightarrow> claim_loop_handle \<Rightarrow> claim_world \<Rightarrow>
     (nat \<times> cycle_line) list \<times> claim_engine \<times> claim_loop_handle \<times> claim_world"
where
  "run_claim_driver_in env own_hash asset ticks h w =
     (let cfg = claim_load_from (cw_disk w);
          (cadence, jitter, adj) =
            sanitized_schedule (rc_cadence_seconds cfg) (rc_jitter_seconds cfg)
      in drive (env\<lparr>hints_of := \<lambda>_. []\<rparr>) cadence jitter adj ticks (driver_engine own_hash asset cfg) h w)"

datatype claim_driver_decision = DriverSpawn | DriverDisabled | DriverChainSyncDisabled

definition decide_claim_driver :: "bool \<Rightarrow> bool \<Rightarrow> claim_driver_decision" where
  "decide_claim_driver enabled enable_chain_sync =
     (if \<not> enabled then DriverDisabled
      else if \<not> enable_chain_sync then DriverChainSyncDisabled
      else DriverSpawn)"

text \<open>
  The start of the driver: what the operator wallet, the chain source and the broadcaster answer,
  the CAT wrapping of a puzzle hash, and the port built from them.
\<close>

record claim_setup =
  su_operator_puzzle_hash :: "bytes32 option"
  su_chain_source :: bool
  su_broadcaster :: bool
  su_cat_puzzle_hash :: "bytes32 \<Rightarrow> bytes32"
  su_dig_asset_id :: bytes32

definition run_claim_driver ::
  "claim_setup \<Rightarrow> claim_env \<Rightarrow> claim_tick list \<Rightarrow> claim_loop_handle \<Rightarrow> claim_world \<Rightarrow>
     (nat \<times> cycle_line) list \<times> claim_loop_handle \<times> claim_world"
where
  "run_claim_driver su env ticks h w =
     (case su_operator_puzzle_hash su of
        None \<Rightarrow> ([], set_refusal NoOperatorWallet h, w)
      | Some owner \<Rightarrow>
          if \<not> su_chain_source su then ([], set_refusal ChainSourceUnbuildable h, w)
          else if \<not> su_broadcaster su then ([], set_refusal BroadcasterUnbuildable h, w)
          else
            (case run_claim_driver_in env (su_cat_puzzle_hash su owner) (su_dig_asset_id su)
                    ticks h w of
               (lines, _, h, w) \<Rightarrow> (lines, h, w)))"

definition spawn_claim_driver_from_config ::
  "bool \<Rightarrow> claim_setup \<Rightarrow> claim_env \<Rightarrow> claim_tick list \<Rightarrow> claim_loop_handle \<Rightarrow> claim_world \<Rightarrow>
     (nat \<times> cycle_line) list \<times> claim_loop_handle \<times> claim_world"
where
  "spawn_claim_driver_from_config enable_chain_sync su env ticks h w =
     (case decide_claim_driver (rc_enabled (claim_load_from (cw_disk w))) enable_chain_sync of
        DriverSpawn \<Rightarrow> run_claim_driver su env ticks h w
      | DriverDisabled \<Rightarrow> ([], set_refusal RefusedDisabled h, w)
      | DriverChainSyncDisabled \<Rightarrow> ([], set_refusal RefusedChainSyncDisabled h, w))"

section \<open>Lives of the process\<close>

text \<open>
  The engine and the trace, over any number of cycles, crashes and restarts: a cycle runs to its
  end, or the process dies after some of the cycle's events and a new one starts from the file they
  left. Time is whatever the clock reads.
\<close>

inductive claim_life ::
  "claim_env \<Rightarrow> bytes32 \<Rightarrow> bytes32 \<Rightarrow> claim_file \<Rightarrow> claim_engine \<Rightarrow> claim_event list \<Rightarrow> bool"
  for env own_hash asset d0
where
  boot: "claim_life env own_hash asset d0 (driver_engine own_hash asset (claim_load_from d0)) []"
| cycle: "claim_life env own_hash asset d0 e l \<Longrightarrow>
    run_cycle env now e \<lparr>cw_disk = disk_after d0 l, cw_log = l\<rparr> = (Some outs, e', w') \<Longrightarrow>
    claim_life env own_hash asset d0 e' (cw_log w')"
| crash: "claim_life env own_hash asset d0 e l \<Longrightarrow>
    run_cycle env now e \<lparr>cw_disk = disk_after d0 l, cw_log = l\<rparr> = (r, e', w') \<Longrightarrow>
    length l \<le> k \<Longrightarrow>
    l' = take k (cw_log w') \<Longrightarrow>
    claim_life env own_hash asset d0
      (driver_engine own_hash asset (claim_load_from (disk_after d0 l'))) l'"

section \<open>The schedule in force\<close>

lemma sanitized_cadence_is_gate:
  assumes "0 < c"
  shows "fst (sanitized_schedule c j) = clamp_gate c"
  using assms by (auto simp: sanitized_schedule_def clamp_gate_def Let_def split: prod.splits)

lemma load_cadence_floor: "CLAIM_CADENCE_FLOOR_SECONDS \<le> rc_cadence_seconds (claim_load_from d)"
  by (cases d) (auto simp: claim_config_default_def poisoned_def CLAIM_CADENCE_FLOOR_SECONDS_def
      CLAIM_CADENCE_SECONDS_DEFAULT_def)

lemma driver_engine_fields [simp]:
  "ce_own_payout_puzzle_hash (driver_engine h a cfg) = h"
  "ce_dig_asset_id (driver_engine h a cfg) = a"
  "ce_max_fee_mojos (driver_engine h a cfg) = rc_max_fee_mojos cfg"
  "ce_cycle_fee_budget_mojos (driver_engine h a cfg) = rc_max_cycle_fee_budget_mojos cfg"
  "ce_armed (driver_engine h a cfg)"
  "ce_fee_window_seconds (driver_engine h a cfg) = max (rc_cadence_seconds cfg) CLAIM_CADENCE_FLOOR_SECONDS"
  "ce_gate_cadence_seconds (driver_engine h a cfg) =
     max (clamp_gate (rc_cadence_seconds cfg)) CLAIM_CADENCE_FLOOR_SECONDS"
  by (simp_all add: driver_engine_def with_persisted_fee_window_def with_rotation_cursor_def
      claim_engine_new_def claim_cadences_def)

lemma os_jitter_bound: "bound < u64_max \<Longrightarrow> os_jitter r bound \<le> bound"
  by (auto simp: os_jitter_def u64_sat_add_def min_def split: option.splits
      intro: less_Suc_eq_le [THEN iffD1])

text \<open>
  Whatever the preference file says, the driver sleeps between a minute and 62 days from one
  cycle to the next, and a driver left alone never meets its own cadence gate: the gate of the
  engine it builds is at most the interval it sleeps, so a cycle that starts an interval after one
  that was stamped complete is not refused, and the gate is at most the length of the fee window.
\<close>

theorem gate_follows_schedule:
  assumes cfg: "cfg = claim_load_from d"
    and schedule: "sanitized_schedule (rc_cadence_seconds cfg) (rc_jitter_seconds cfg) = (cadence, jitter, adj)"
    and source: "source jitter \<le> jitter"
    and interval: "interval = next_interval_seconds cadence jitter source"
    and engine: "e = driver_engine own_hash asset cfg"
    and slept: "completed + interval \<le> now"
  shows "CLAIM_CADENCE_FLOOR_SECONDS \<le> interval \<and> interval \<le> 2 * CLAIM_SCHEDULE_SECONDS_MAX
    \<and> ce_gate_cadence_seconds e \<le> ce_fee_window_seconds e
    \<and> \<not> elapsed_less now (Some completed) (ce_gate_cadence_seconds e)"
proof -
  have floor: "CLAIM_CADENCE_FLOOR_SECONDS \<le> rc_cadence_seconds cfg"
    using load_cadence_floor cfg by simp
  then have "0 < rc_cadence_seconds cfg" by (simp add: CLAIM_CADENCE_FLOOR_SECONDS_def)
  from sanitized_cadence_is_gate [OF this] schedule
  have cadence: "cadence = clamp_gate (rc_cadence_seconds cfg)" by (metis fst_conv)
  have jitter: "jitter \<le> CLAIM_SCHEDULE_SECONDS_MAX"
    using schedule by (auto simp: sanitized_schedule_def Let_def split: prod.splits if_splits)
  have "cadence \<le> CLAIM_SCHEDULE_SECONDS_MAX" by (simp add: cadence clamp_gate_def)
  with jitter source interval have i: "interval = cadence + source jitter"
    "interval \<le> 2 * CLAIM_SCHEDULE_SECONDS_MAX"
    by (auto simp: next_interval_seconds_def u64_sat_add_def CLAIM_SCHEDULE_SECONDS_MAX_def)
  have low: "CLAIM_CADENCE_FLOOR_SECONDS \<le> cadence"
    using floor by (simp add: cadence clamp_gate_def CLAIM_CADENCE_FLOOR_SECONDS_def
        CLAIM_SCHEDULE_SECONDS_MAX_def)
  then have gate: "ce_gate_cadence_seconds e = cadence" by (simp add: engine cadence)
  have "cadence \<le> rc_cadence_seconds cfg" by (simp add: cadence clamp_gate_def)
  then have "ce_gate_cadence_seconds e \<le> ce_fee_window_seconds e"
    unfolding gate by (simp add: engine)
  moreover have "\<not> elapsed_less now (Some completed) (ce_gate_cadence_seconds e)"
    using slept i(1) unfolding gate by (simp add: elapsed_less_def)
  ultimately show ?thesis using i low by auto
qed

text \<open>A file that asks for a cycle every sixty days.\<close>

theorem gate_follows_schedule_witness:
  "\<not> elapsed_less 3000000 (Some 100000)
     (ce_gate_cadence_seconds (driver_engine ''own'' ''DIG''
        (claim_load_from (ClaimFileParsed (claim_config_default\<lparr>rc_cadence_seconds := 5184000\<rparr>)))))"
proof -
  define cfg where
    "cfg = claim_load_from (ClaimFileParsed (claim_config_default\<lparr>rc_cadence_seconds := 5184000\<rparr>))"
  have s: "sanitized_schedule (rc_cadence_seconds cfg) (rc_jitter_seconds cfg)
    = (2678400, 3600, \<lparr>sa_cadence = Some (5184000, 2678400), sa_jitter = None\<rparr>)"
    by (simp add: cfg_def sanitized_schedule_def claim_config_default_def CLAIM_CADENCE_FLOOR_SECONDS_def
        CLAIM_SCHEDULE_SECONDS_MAX_def CLAIM_CADENCE_SECONDS_DEFAULT_def
        CLAIM_JITTER_SECONDS_DEFAULT_def CLAIM_FEE_CEILING_MOJOS_DEFAULT_def
        CLAIM_CYCLE_FEE_BUDGET_MOJOS_DEFAULT_def)
  show ?thesis
    using gate_follows_schedule [OF cfg_def s, of "fixed_jitter 1200" _ _ "''own''" "''DIG''" 100000 3000000]
    by (simp add: fixed_jitter_def next_interval_seconds_def u64_sat_add_def cfg_def)
qed

end
