(* ===== verification/Claim_Budget.thy ===== *)
theory Claim_Budget
  imports Claim_Driver
begin

text \<open>
  The fee window of the claim engine over crashes and restarts: what the accepted submissions of an
  open window paid is at every instant covered by the spend the file records, which never exceeds
  the budget, and windows open at least a window's length apart.
\<close>

section \<open>Worlds and traces\<close>

definition leads :: "claim_world \<Rightarrow> claim_event list \<Rightarrow> claim_world \<Rightarrow> bool" where
  "leads w evs w' \<longleftrightarrow>
     cw_log w' = cw_log w @ evs \<and> cw_disk w' = disk_after (cw_disk w) evs"

lemma disk_after_simps [simp]:
  "disk_after d [] = d"
  "disk_after d (ev # evs) = disk_after (disk_step d ev) evs"
  "disk_after d (evs @ evs') = disk_after (disk_after d evs) evs'"
  by (simp_all add: disk_after_def)

lemma leads_refl [simp]: "leads w [] w"
  by (simp add: leads_def)

lemma leads_trans: "leads w evs w' \<Longrightarrow> leads w' evs' w'' \<Longrightarrow> leads w (evs @ evs') w''"
  by (simp add: leads_def)

fun keeps_disk :: "claim_event \<Rightarrow> bool" where
  "keeps_disk (EvSave _) = False"
| "keeps_disk _ = True"

lemma keeps_disk_step [simp]: "keeps_disk ev \<Longrightarrow> disk_step d ev = d"
  by (cases ev) auto

lemma leads_noted: "keeps_disk ev \<Longrightarrow> leads w [ev] (noted ev w)"
  by (simp add: leads_def noted_def)

lemma noted_simps [simp]:
  "cw_disk (noted ev w) = cw_disk w" "cw_log (noted ev w) = cw_log w @ [ev]"
  by (simp_all add: noted_def)

section \<open>The ledger of a window\<close>

text \<open>The budget \<open>B\<close> and the window length \<open>W\<close> of the file, and the paid fees it covers.\<close>

definition ledger_ok :: "nat \<Rightarrow> nat \<Rightarrow> claim_file \<Rightarrow> nat \<Rightarrow> bool" where
  "ledger_ok B W d p \<longleftrightarrow>
     (let cfg = claim_load_from d
      in \<not> rc_corrupt cfg \<and> rc_max_cycle_fee_budget_mojos cfg = B
         \<and> rc_cadence_seconds cfg = W \<and> p \<le> rc_fee_spent_in_window_mojos cfg)"

text \<open>A write opens a new window only a window's length after the one the file has.\<close>

fun rolls_late :: "nat \<Rightarrow> claim_file \<Rightarrow> claim_event \<Rightarrow> bool" where
  "rolls_late W d (EvSave cfg) =
     (case rc_fee_window_start_unix (claim_load_from d) of
        None \<Rightarrow> True
      | Some s \<Rightarrow> (case rc_fee_window_start_unix cfg of
                    None \<Rightarrow> False
                  | Some t \<Rightarrow> t = s \<or> s + W \<le> t))"
| "rolls_late W d _ = True"

fun fee_safe :: "nat \<Rightarrow> nat \<Rightarrow> claim_file \<Rightarrow> nat \<Rightarrow> claim_event list \<Rightarrow> bool" where
  "fee_safe B W d p [] = ledger_ok B W d p"
| "fee_safe B W d p (ev # evs) =
     (ledger_ok B W d p \<and> rolls_late W d ev \<and> fee_safe B W (disk_step d ev) (paid_step d p ev) evs)"

lemma window_paid_append:
  "window_paid d p (evs @ evs') = window_paid (disk_after d evs) (window_paid d p evs) evs'"
  by (induction evs arbitrary: d p) auto

lemma fee_safe_append:
  "fee_safe B W d p (evs @ evs') \<longleftrightarrow>
     fee_safe B W d p evs \<and> fee_safe B W (disk_after d evs) (window_paid d p evs) evs'"
proof (induction evs arbitrary: d p)
  case Nil
  then show ?case by (cases evs') auto
qed auto

lemma fee_safe_last: "fee_safe B W d p evs \<Longrightarrow> ledger_ok B W (disk_after d evs) (window_paid d p evs)"
  by (induction evs arbitrary: d p) auto

lemma fee_safe_prefix: "fee_safe B W d p evs \<Longrightarrow> fee_safe B W d p (take k evs)"
  by (metis append_take_drop_id fee_safe_append)

text \<open>Safe progress from one world to another, with the fees paid at both ends.\<close>

definition safe_to :: "nat \<Rightarrow> nat \<Rightarrow> claim_world \<Rightarrow> nat \<Rightarrow> claim_world \<Rightarrow> nat \<Rightarrow> bool" where
  "safe_to B W w p w' p' \<longleftrightarrow>
     (\<exists>evs. leads w evs w' \<and> fee_safe B W (cw_disk w) p evs
            \<and> p' = window_paid (cw_disk w) p evs)"

lemma safe_to_refl: "ledger_ok B W (cw_disk w) p \<Longrightarrow> safe_to B W w p w p"
  unfolding safe_to_def by (rule exI [of _ "[]"]) simp

lemma safe_to_trans [trans]:
  assumes "safe_to B W w p w' p'" "safe_to B W w' p' w'' p''"
  shows "safe_to B W w p w'' p''"
proof -
  obtain evs evs' where evs: "leads w evs w'" "fee_safe B W (cw_disk w) p evs"
      "p' = window_paid (cw_disk w) p evs"
    and evs': "leads w' evs' w''" "fee_safe B W (cw_disk w') p' evs'"
      "p'' = window_paid (cw_disk w') p' evs'"
    using assms unfolding safe_to_def by blast
  have d: "cw_disk w' = disk_after (cw_disk w) evs" using evs(1) by (simp add: leads_def)
  have "fee_safe B W (cw_disk w) p (evs @ evs')"
    using evs evs' d by (simp add: fee_safe_append)
  moreover have "p'' = window_paid (cw_disk w) p (evs @ evs')"
    using evs evs' d by (simp add: window_paid_append)
  ultimately show ?thesis
    unfolding safe_to_def using leads_trans [OF evs(1) evs'(1)] by blast
qed

text \<open>A reading, a refused submission or a failed write changes neither the file nor the sum.\<close>

fun idle_event :: "claim_event \<Rightarrow> bool" where
  "idle_event (EvSave _) = False"
| "idle_event (EvSubmit _ _ _ (Inr _)) = False"
| "idle_event _ = True"

lemma idle_event_steps:
  "idle_event ev \<Longrightarrow> disk_step d ev = d \<and> paid_step d p ev = p \<and> rolls_late W d ev \<and> keeps_disk ev"
  by (induction ev rule: idle_event.induct) auto

lemma safe_noted:
  assumes "ledger_ok B W (cw_disk w) p" "idle_event ev"
  shows "safe_to B W w p (noted ev w) p"
  unfolding safe_to_def
  by (rule exI [of _ "[ev]"]) (simp add: assms idle_event_steps leads_noted)

section \<open>Writes and submissions\<close>

text \<open>The file holds exactly the window the engine has in hand.\<close>

definition tracks :: "fee_window \<Rightarrow> claim_file \<Rightarrow> bool" where
  "tracks win d \<longleftrightarrow>
     rc_fee_window_start_unix (claim_load_from d) = fw_start_unix win
     \<and> rc_fee_spent_in_window_mojos (claim_load_from d) = fw_spent_mojos win"

definition with_window :: "fee_window \<Rightarrow> rewards_claim_config \<Rightarrow> rewards_claim_config" where
  "with_window win cfg =
     cfg\<lparr>rc_fee_window_start_unix := fw_start_unix win,
         rc_fee_spent_in_window_mojos := fw_spent_mojos win,
         rc_last_cycle_completed_at := fw_last_completed_at win\<rparr>"

lemma with_window_fields [simp]:
  "rc_fee_window_start_unix (with_window win cfg) = fw_start_unix win"
  "rc_fee_spent_in_window_mojos (with_window win cfg) = fw_spent_mojos win"
  "rc_max_cycle_fee_budget_mojos (with_window win cfg) = rc_max_cycle_fee_budget_mojos cfg"
  "rc_cadence_seconds (with_window win cfg) = rc_cadence_seconds cfg"
  "rc_rotation_cursor (with_window win cfg) = rc_rotation_cursor cfg"
  by (simp_all add: with_window_def)

lemma load_with_window:
  assumes "fw_spent_mojos win \<le> rc_max_cycle_fee_budget_mojos (claim_load_from d)"
  defines "cfg \<equiv> claim_load_from (ClaimFileParsed (with_window win (claim_load_from d)))"
  shows "rc_fee_window_start_unix cfg = fw_start_unix win"
    and "rc_fee_spent_in_window_mojos cfg = fw_spent_mojos win"
    and "rc_max_cycle_fee_budget_mojos cfg = rc_max_cycle_fee_budget_mojos (claim_load_from d)"
    and "rc_cadence_seconds cfg = rc_cadence_seconds (claim_load_from d)"
    and "rc_corrupt cfg = False"
  using assms load_cadence_floor [of d] by simp_all

lemma persist_event:
  assumes "ce_armed e" "\<not> rc_corrupt (claim_load_from (cw_disk w))" "save_succeeds env (cw_log w)"
  shows "persist_fee_window env e win w =
    noted (EvSave (with_window win (claim_load_from (cw_disk w))))
      (w\<lparr>cw_disk := ClaimFileParsed (with_window win (claim_load_from (cw_disk w)))\<rparr>)"
  using assms by (simp add: persist_fee_window_def claim_save_to_def with_window_def Let_def)

lemma safe_persist:
  assumes armed: "ce_armed e" and saves: "save_succeeds env (cw_log w)"
    and ok: "ledger_ok B W (cw_disk w) p"
    and late: "rolls_late W (cw_disk w) (EvSave (with_window win (claim_load_from (cw_disk w))))"
    and spent: "fw_spent_mojos win \<le> B"
    and p': "p' = paid_step (cw_disk w) p (EvSave (with_window win (claim_load_from (cw_disk w))))"
    and covered: "p' \<le> fw_spent_mojos win"
  shows "safe_to B W w p (persist_fee_window env e win w) p'"
    and "tracks win (cw_disk (persist_fee_window env e win w))"
    and "ledger_ok B W (cw_disk (persist_fee_window env e win w)) p'"
proof -
  define ev where "ev = EvSave (with_window win (claim_load_from (cw_disk w)))"
  define d' where "d' = ClaimFileParsed (with_window win (claim_load_from (cw_disk w)))"
  have eq: "persist_fee_window env e win w = noted ev (w\<lparr>cw_disk := d'\<rparr>)"
    unfolding ev_def d'_def using ok
    by (intro persist_event armed saves) (simp add: ledger_ok_def Let_def)
  have B: "fw_spent_mojos win \<le> rc_max_cycle_fee_budget_mojos (claim_load_from (cw_disk w))"
    using spent ok by (simp add: ledger_ok_def Let_def)
  note load' = load_with_window [OF B, folded d'_def]
  have ok': "ledger_ok B W d' p'"
    using ok covered by (simp add: ledger_ok_def Let_def load')
  show "tracks win (cw_disk (persist_fee_window env e win w))"
    by (simp add: eq tracks_def load')
  show "ledger_ok B W (cw_disk (persist_fee_window env e win w)) p'"
    by (simp add: eq ok')
  have ok'': "ledger_ok B W d' (paid_step (cw_disk w) p ev)"
    using ok' p' by (simp only: ev_def)
  have "disk_step (cw_disk w) ev = d'" by (simp add: ev_def d'_def)
  then show "safe_to B W w p (persist_fee_window env e win w) p'"
    unfolding safe_to_def eq
    using ok ok'' late p' unfolding ev_def [symmetric]
    by (intro exI [of _ "[ev]"]) (simp add: leads_def)
qed

text \<open>The state of the budget pass: the running sum is the spend of the file.\<close>

definition in_step :: "nat \<Rightarrow> nat \<Rightarrow> budget_state \<Rightarrow> claim_world \<Rightarrow> nat \<Rightarrow> bool" where
  "in_step B W bs w p \<longleftrightarrow>
     ledger_ok B W (cw_disk w) p \<and> tracks (bs_window bs) (cw_disk w)
     \<and> bs_spent_this_cycle_mojos bs = fw_spent_mojos (bs_window bs)
     \<and> fw_start_unix (bs_window bs) \<noteq> None"

lemma in_step_spent_le: "in_step B W bs w p \<Longrightarrow> fw_spent_mojos (bs_window bs) \<le> B"
proof -
  have "rc_fee_spent_in_window_mojos (claim_load_from d) \<le> rc_max_cycle_fee_budget_mojos (claim_load_from d)"
    for d
    by (cases d) (auto simp: poisoned_def claim_config_default_def)
  then show "in_step B W bs w p \<Longrightarrow> fw_spent_mojos (bs_window bs) \<le> B"
    by (metis in_step_def ledger_ok_def tracks_def)
qed

text \<open>Rewriting the spend of the window in place.\<close>

lemma safe_respend:
  assumes armed: "ce_armed e" and saves: "\<And>h. save_succeeds env h"
    and ok: "ledger_ok B W (cw_disk w) p" and start: "fw_start_unix win \<noteq> None"
    and same: "rc_fee_window_start_unix (claim_load_from (cw_disk w)) = fw_start_unix win"
    and spent: "p \<le> fw_spent_mojos win" "fw_spent_mojos win \<le> B"
  shows "safe_to B W w p (persist_fee_window env e win w) p"
    and "tracks win (cw_disk (persist_fee_window env e win w))"
    and "ledger_ok B W (cw_disk (persist_fee_window env e win w)) p"
proof -
  have late: "rolls_late W (cw_disk w) (EvSave (with_window win (claim_load_from (cw_disk w))))"
    using start same by (auto split: option.splits)
  have paid: "p = paid_step (cw_disk w) p (EvSave (with_window win (claim_load_from (cw_disk w))))"
    using same by simp
  note * = safe_persist [OF armed saves ok late spent(2) paid spent(1)]
  show "safe_to B W w p (persist_fee_window env e win w) p" by (rule *(1))
  show "tracks win (cw_disk (persist_fee_window env e win w))" by (rule *(2))
  show "ledger_ok B W (cw_disk (persist_fee_window env e win w)) p" by (rule *(3))
qed

lemma safe_accepted:
  assumes "ledger_ok B W (cw_disk w) p" "ledger_ok B W (cw_disk w) (p + fee)"
  shows "safe_to B W w p (noted (EvSubmit lid h fee (Inr u)) w) (p + fee)"
  unfolding safe_to_def
  by (rule exI [of _ "[EvSubmit lid h fee (Inr u)]"]) (simp add: assms leads_noted)

lemma submit_phase_safe:
  assumes armed: "ce_armed e" and B: "ce_cycle_fee_budget_mojos e = B" "B < u64_max"
    and saves: "\<And>h. save_succeeds env h" and inv: "in_step B W bs w p"
    and room: "u64_sat_add (bs_spent_this_cycle_mojos bs) fee \<le> B"
    and run: "submit_phase env e lid fee bs st w = (r, bs', st', w')"
  shows "r \<noteq> BudgetPanic \<and> (\<exists>p'. safe_to B W w p w' p' \<and> in_step B W bs' w' p')"
proof -
  define win where "win = bs_window bs"
  define spent where "spent = fw_spent_mojos win"
  define win1 where "win1 = win\<lparr>fw_spent_mojos := spent + fee\<rparr>"
  define w1 where "w1 = persist_fee_window env e win1 w"
  have sum: "spent + fee \<le> B" and sat: "u64_sat_add spent fee = spent + fee"
    using room B inv unfolding in_step_def spent_def win_def by (auto simp: u64_sat_add_def)
  have ok: "ledger_ok B W (cw_disk w) p" and start: "fw_start_unix win \<noteq> None"
    and same: "rc_fee_window_start_unix (claim_load_from (cw_disk w)) = fw_start_unix win"
    and p: "p \<le> spent" and bsp: "bs_spent_this_cycle_mojos bs = spent"
    using inv unfolding in_step_def tracks_def ledger_ok_def Let_def spent_def win_def by auto
  have pre: "safe_to B W w p w1 p" "tracks win1 (cw_disk w1)" "ledger_ok B W (cw_disk w1) p"
    unfolding w1_def
    by (rule safe_respend [OF armed saves ok], use start same p sum in \<open>auto simp: win1_def\<close>)+
  define answer where
    "answer = submit_initiate_payout env (cw_log w1) lid (ce_own_payout_puzzle_hash e) fee"
  define w2 where "w2 = noted (EvSubmit lid (ce_own_payout_puzzle_hash e) fee answer) w1"
  have commit: "precommit_fee env e fee (bs, w) = (bs\<lparr>bs_window := win1\<rparr>, w1)"
    by (simp add: precommit_fee_def armed win1_def w1_def win_def spent_def Let_def
        sat [unfolded spent_def win_def])
  show ?thesis
  proof (cases answer)
    case (Inr u)
    have "r = BudgetOutcome (Submitted lid) \<and> w' = w2
        \<and> bs' = bs\<lparr>bs_window := win1, bs_spent_this_cycle_mojos := spent + fee\<rparr>"
      using run B sum Inr
      by (auto simp: submit_phase_def commit Let_def answer_def w2_def u64_add_def bsp
          split: sum.splits)
    then have r: "r = BudgetOutcome (Submitted lid)" and w': "w' = w2"
      and bs': "bs' = bs\<lparr>bs_window := win1, bs_spent_this_cycle_mojos := spent + fee\<rparr>"
      by blast+
    have ok1: "ledger_ok B W (cw_disk w1) (p + fee)"
      using pre(2, 3) p by (simp add: ledger_ok_def tracks_def Let_def win1_def)
    have "safe_to B W w p w' (p + fee)"
      unfolding w' w2_def Inr by (rule safe_to_trans [OF pre(1) safe_accepted [OF pre(3) ok1]])
    moreover have "in_step B W bs' w' (p + fee)"
      using ok1 pre(2) start unfolding in_step_def bs' w' w2_def by (simp add: win1_def)
    ultimately show ?thesis using r by blast
  next
    case (Inl err)
    define w3 where "w3 = persist_fee_window env e (win1\<lparr>fw_spent_mojos := spent\<rparr>) w2"
    have undo: "uncommit_fee env e fee (bs\<lparr>bs_window := win1\<rparr>, v)
        = (bs\<lparr>bs_window := win1\<lparr>fw_spent_mojos := spent\<rparr>\<rparr>,
           persist_fee_window env e (win1\<lparr>fw_spent_mojos := spent\<rparr>) v)" for v
      by (simp add: uncommit_fee_def armed win1_def Let_def)
    have "r \<noteq> BudgetPanic \<and> w' = w3 \<and> bs' = bs\<lparr>bs_window := win1\<lparr>fw_spent_mojos := spent\<rparr>\<rparr>"
      using run Inl
      by (auto simp: submit_phase_def commit Let_def answer_def [symmetric] undo w3_def w2_def
          split: claim_port_error.splits)
    then have r: "r \<noteq> BudgetPanic" and w': "w' = w3"
      and bs': "bs' = bs\<lparr>bs_window := win1\<lparr>fw_spent_mojos := spent\<rparr>\<rparr>"
      by blast+
    have reading: "safe_to B W w1 p w2 p" unfolding w2_def Inl by (rule safe_noted [OF pre(3)]) simp
    have ok2: "ledger_ok B W (cw_disk w2) p" using pre(3) by (simp add: w2_def)
    have same2: "rc_fee_window_start_unix (claim_load_from (cw_disk w2)) = fw_start_unix win"
      using pre(2) by (simp add: tracks_def w2_def win1_def)
    have undone: "safe_to B W w2 p w3 p" "tracks (win1\<lparr>fw_spent_mojos := spent\<rparr>) (cw_disk w3)"
      "ledger_ok B W (cw_disk w3) p"
      unfolding w3_def
      by (rule safe_respend [OF armed saves ok2], use start same2 p sum in \<open>auto simp: win1_def\<close>)+
    have "in_step B W bs' w' p"
      using undone start unfolding in_step_def bs' w' by (simp add: win1_def bsp)
    with r safe_to_trans [OF safe_to_trans [OF pre(1) reading] undone(1)] show ?thesis
      unfolding w' by blast
  qed
qed

lemma budget_phase_safe:
  assumes "ce_armed e" "ce_cycle_fee_budget_mojos e = B" "B < u64_max"
    "\<And>h. save_succeeds env h" and inv: "in_step B W bs w p"
    and run: "evaluate_budget_phase env e lid bs st w = (r, bs', st', w')"
  shows "r \<noteq> BudgetPanic \<and> (\<exists>p'. safe_to B W w p w' p' \<and> in_step B W bs' w' p')"
proof -
  define quote where "quote = required_fee_mojos env (cw_log w) lid"
  define w1 where "w1 = noted (EvFee lid quote) w"
  have ok: "ledger_ok B W (cw_disk w) p" using inv by (simp add: in_step_def)
  have reading: "safe_to B W w p w1 p" unfolding w1_def by (rule safe_noted [OF ok]) simp
  have inv1: "in_step B W bs w1 p" "in_step B W (bs\<lparr>bs_budget_exhausted := True\<rparr>) w1 p"
    using inv by (simp_all add: in_step_def w1_def)
  consider (quiet) "r \<noteq> BudgetPanic" "w' = w1" "bs' = bs \<or> bs' = bs\<lparr>bs_budget_exhausted := True\<rparr>"
    | (submit) fee where "u64_sat_add (bs_spent_this_cycle_mojos bs) fee \<le> B"
        "submit_phase env e lid fee bs st w1 = (r, bs', st', w')"
    using run assms(2)
    by (auto simp: evaluate_budget_phase_def Let_def quote_def [symmetric] w1_def not_less
        split: sum.splits claim_port_error.splits if_splits)
  then show ?thesis
  proof cases
    case quiet
    with reading inv1 show ?thesis by blast
  next
    case submit
    from submit_phase_safe [OF assms(1-4) inv1(1) submit]
    show ?thesis using safe_to_trans [OF reading] by blast
  qed
qed

lemma budget_pass_safe:
  assumes "ce_armed e" "ce_cycle_fee_budget_mojos e = B" "B < u64_max" "\<And>h. save_succeeds env h"
  shows "in_step B W bs w p \<Longrightarrow> budget_pass env e claims ct bs st w = (r, ct', bs', st', w') \<Longrightarrow>
    r \<noteq> LoopPanic \<and> (\<exists>p'. safe_to B W w p w' p' \<and> in_step B W bs' w' p')"
proof (induction claims arbitrary: ct bs st w p)
  case Nil
  then show ?case by (auto simp: in_step_def intro: safe_to_refl)
next
  case (Cons claim claims)
  obtain q bs1 st1 w1 where step: "evaluate_budget_phase env e (fst claim) bs st w = (q, bs1, st1, w1)"
    by (metis prod_cases4)
  from budget_phase_safe [OF assms Cons.prems(1) step] obtain p1 where
    q: "q \<noteq> BudgetPanic" and p1: "safe_to B W w p w1 p1" "in_step B W bs1 w1 p1"
    by blast
  show ?case
  proof (cases "q = BudgetUnavailable")
    case True
    with Cons.prems(2) step p1 show ?thesis by auto
  next
    case False
    with q Cons.prems(2) step have "budget_pass env e claims (tally_budget q (fst claim) ct) bs1 st1 w1
        = (r, ct', bs', st', w')"
      by (cases q) auto
    from Cons.IH [OF p1(2) this] show ?thesis using safe_to_trans [OF p1(1)] by blast
  qed
qed

section \<open>The quiet parts of a cycle\<close>

fun reading_event :: "claim_event \<Rightarrow> bool" where
  "reading_event (EvSave _) = False"
| "reading_event (EvSaveFailed _) = False"
| "reading_event (EvSubmit _ _ _ _) = False"
| "reading_event _ = True"

lemma reading_idle: "reading_event ev \<Longrightarrow> idle_event ev"
  by (cases ev) auto

definition quiet :: "claim_world \<Rightarrow> claim_world \<Rightarrow> bool" where
  "quiet w w' \<longleftrightarrow>
     cw_disk w' = cw_disk w \<and> (\<exists>evs. cw_log w' = cw_log w @ evs \<and> list_all reading_event evs)"

lemma quiet_refl [simp]: "quiet w w"
  by (simp add: quiet_def)

lemma quiet_noted: "quiet w w' \<Longrightarrow> reading_event ev \<Longrightarrow> quiet w (noted ev w')"
  by (auto simp: quiet_def)

lemma quiet_trans: "quiet w w' \<Longrightarrow> quiet w' w'' \<Longrightarrow> quiet w w''"
  unfolding quiet_def by force

lemma idle_events_safe:
  "ledger_ok B W d p \<Longrightarrow> list_all reading_event evs \<Longrightarrow>
     fee_safe B W d p evs \<and> window_paid d p evs = p \<and> disk_after d evs = d"
  by (induction evs) (auto simp: idle_event_steps reading_idle)

lemma quiet_safe:
  assumes "ledger_ok B W (cw_disk w) p" "quiet w w'"
  shows "safe_to B W w p w' p"
  using assms idle_events_safe [OF assms(1)] unfolding quiet_def safe_to_def leads_def by fastforce

lemma pre_budget_quiet: "evaluate_pre_budget env e lid st w = (r, st', w') \<Longrightarrow> quiet w w'"
  by (auto simp: evaluate_pre_budget_def Let_def intro!: quiet_noted
      split: sum.splits claim_port_error.splits option.splits if_splits)

lemma pre_budget_pass_quiet:
  "pre_budget_pass env e ids ct st w = (r, ct', st', w') \<Longrightarrow> quiet w w'"
proof (induction ids arbitrary: ct st w)
  case (Cons lid ids)
  obtain q st1 w1 where step: "evaluate_pre_budget env e lid st w = (q, st1, w1)"
    by (metis prod_cases3)
  then have "quiet w w1" by (rule pre_budget_quiet)
  moreover have "quiet w1 w'"
    using Cons step by (cases q) auto
  ultimately show ?case by (rule quiet_trans)
qed simp

lemma add_hints_quiet: "add_hints env hints ids st w = (ids', st', w') \<Longrightarrow> quiet w w'"
proof (induction hints arbitrary: ids st w)
  case (Cons hint hints)
  define answer where "answer = resolve_launch_comment env (cw_log w) hint"
  have "quiet w (noted (EvResolve hint answer) w)" by (simp add: quiet_noted)
  moreover have "quiet w w' \<or> quiet (noted (EvResolve hint answer) w) w'"
    using Cons.prems Cons.IH
    by (auto simp: Let_def answer_def [symmetric]
        split: if_splits sum.splits option.splits claim_port_error.splits)
  ultimately show ?case using quiet_trans by blast
qed simp

lemma gather_quiet:
  assumes "gather env now found st w = (ids, st', w')"
  shows "quiet w w'"
proof -
  define w1 where "w1 = noted (EvHints (hints_of env (cw_log w))) w"
  have "quiet w w1" by (simp add: w1_def quiet_noted)
  moreover have "quiet w1 w'"
    using assms by (auto simp: gather_def Let_def w1_def split: prod.splits dest!: add_hints_quiet)
  ultimately show ?thesis by (rule quiet_trans)
qed

section \<open>A whole cycle\<close>

text \<open>What the gate leaves when it opens: the file tracks the window of the cycle.\<close>

lemma fee_gate_safe:
  assumes armed: "ce_armed e" and W: "ce_fee_window_seconds e = W" "0 < W"
    and saves: "\<And>h. save_succeeds env h" and ok: "ledger_ok B W (cw_disk w) p"
    and run: "fee_gate env e now w = (g, w')"
  shows "(\<exists>s. g = GateStop s \<and> w' = w)
    \<or> (\<exists>win p'. g = GateOpen win \<and> safe_to B W w p w' p' \<and> ledger_ok B W (cw_disk w') p'
        \<and> tracks win (cw_disk w') \<and> fw_start_unix win \<noteq> None)"
proof -
  define cfg where "cfg = claim_load_from (cw_disk w)"
  define win where "win = \<lparr>fw_start_unix = Some now, fw_spent_mojos = 0,
    fw_last_completed_at = rc_last_cycle_completed_at cfg\<rparr>"
  define win0 where "win0 = \<lparr>fw_start_unix = rc_fee_window_start_unix cfg,
    fw_spent_mojos = rc_fee_spent_in_window_mojos cfg,
    fw_last_completed_at = rc_last_cycle_completed_at cfg\<rparr>"
  have "(g, w') =
    (if rc_corrupt cfg \<or> future_dated now (rc_last_cycle_completed_at cfg)
        \<or> future_dated now (rc_fee_window_start_unix cfg) then (GateStop PersistedStateCorrupt, w)
     else if elapsed_less now (rc_last_cycle_completed_at cfg) (ce_gate_cadence_seconds e)
     then (GateStop CadenceNotElapsed, w)
     else if elapsed_less now (rc_fee_window_start_unix cfg) W then (GateOpen win0, w)
     else (GateOpen win, persist_fee_window env e win w))"
    unfolding run [symmetric] fee_gate_def Let_def cfg_def [symmetric] W win0_def [symmetric]
      win_def [symmetric]
    using armed by (simp only: not_True_eq_False if_False)
  then consider (stop) s where "g = GateStop s" "w' = w"
    | (kept) "elapsed_less now (rc_fee_window_start_unix cfg) W" "w' = w" "g = GateOpen win0"
    | (rolled) "\<not> future_dated now (rc_fee_window_start_unix cfg)"
        "\<not> elapsed_less now (rc_fee_window_start_unix cfg) W" "g = GateOpen win"
        "w' = persist_fee_window env e win w"
    by (simp only: prod.inject split: if_split_asm) blast+
  then show ?thesis
  proof cases
    case stop
    then show ?thesis by blast
  next
    case kept
    have "tracks win0 (cw_disk w)" by (simp add: tracks_def cfg_def win0_def)
    moreover have "fw_start_unix win0 \<noteq> None"
      using kept(1) by (auto simp: elapsed_less_def win0_def split: option.splits)
    ultimately show ?thesis
      using kept(2, 3) ok safe_to_refl [OF ok] by blast
  next
    case rolled
    have late: "rolls_late W (cw_disk w) (EvSave (with_window win (claim_load_from (cw_disk w))))"
      using rolled(1, 2)
      by (auto simp: win_def cfg_def [symmetric] future_dated_def elapsed_less_def split: option.splits)
    have fresh: "rc_fee_window_start_unix cfg \<noteq> Some now"
      using rolled(2) W by (auto simp: elapsed_less_def)
    have "0 = paid_step (cw_disk w) p (EvSave (with_window win (claim_load_from (cw_disk w))))"
      using fresh by (auto simp: win_def cfg_def [symmetric])
    note * = safe_persist [OF armed saves ok late _ this]
    have "safe_to B W w p w' 0" "tracks win (cw_disk w')" "ledger_ok B W (cw_disk w') 0"
      unfolding rolled(4) by (rule *; simp add: win_def)+
    then show ?thesis using rolled(3) by (auto simp: win_def)
  qed
qed

lemma finish_safe:
  assumes armed: "ce_armed e" and saves: "\<And>h. save_succeeds env h"
    and inv: "in_step B W bs w p"
    and run: "finish_cycle env e now failed any ct (bs_window bs) st w = (e', w')"
  shows "safe_to B W w p w' p"
proof -
  define win where "win = (bs_window bs)\<lparr>fw_last_completed_at := Some now\<rparr>"
  have "w' = persist_fee_window env e win w"
    using run armed by (simp add: finish_cycle_def Let_def win_def)
  moreover have "safe_to B W w p (persist_fee_window env e win w) p"
    using inv in_step_spent_le [OF inv] unfolding in_step_def tracks_def ledger_ok_def Let_def
    by (intro safe_respend [OF armed saves]) (auto simp: win_def ledger_ok_def Let_def)
  ultimately show ?thesis by simp
qed

text \<open>The engine's fixed fields.\<close>

definition same_engine :: "claim_engine \<Rightarrow> claim_engine \<Rightarrow> bool" where
  "same_engine e e' \<longleftrightarrow>
     ce_own_payout_puzzle_hash e' = ce_own_payout_puzzle_hash e
     \<and> ce_max_fee_mojos e' = ce_max_fee_mojos e
     \<and> ce_cycle_fee_budget_mojos e' = ce_cycle_fee_budget_mojos e
     \<and> ce_dig_asset_id e' = ce_dig_asset_id e \<and> ce_armed e' = ce_armed e
     \<and> ce_gate_cadence_seconds e' = ce_gate_cadence_seconds e
     \<and> ce_fee_window_seconds e' = ce_fee_window_seconds e"

lemma same_engine_status [simp]: "same_engine e (e\<lparr>ce_status := st\<rparr>)" "same_engine e e"
  by (simp_all add: same_engine_def)

lemma finish_same: "finish_cycle env e now failed any ct win st w = (e', w') \<Longrightarrow> same_engine e e'"
  by (auto simp: finish_cycle_def Let_def same_engine_def)

lemma evaluate_all_same:
  "evaluate_all env e now win found st w = (r, e', w') \<Longrightarrow> same_engine e e'"
  by (auto simp: evaluate_all_def Let_def split: prod.splits loop_end.splits dest: finish_same)

lemma run_cycle_same: "run_cycle env now e w = (r, e', w') \<Longrightarrow> same_engine e e'"
  by (auto simp: run_cycle_def Let_def dest: evaluate_all_same
      split: prod.splits cycle_gate.splits sum.splits claim_port_error.splits)

lemma evaluate_all_safe:
  assumes armed: "ce_armed e" and B: "ce_cycle_fee_budget_mojos e = B" "B < u64_max"
    and saves: "\<And>h. save_succeeds env h"
    and ok: "ledger_ok B W (cw_disk w) p" and track: "tracks win (cw_disk w)"
    and start: "fw_start_unix win \<noteq> None"
    and run: "evaluate_all env e now win found st w = (r, e', w')"
  shows "r \<noteq> None \<and> (\<exists>p'. safe_to B W w p w' p')"
proof -
  obtain ids st1 w1 where g: "gather env now found st w = (ids, st1, w1)" by (metis prod_cases3)
  obtain pr ct st2 w2 where q: "pre_budget_pass env e ids tally_new st1 w1 = (pr, ct, st2, w2)"
    by (metis prod_cases4)
  have quiet: "quiet w w2" using gather_quiet [OF g] pre_budget_pass_quiet [OF q] by (rule quiet_trans)
  then have safe2: "safe_to B W w p w2 p" by (rule quiet_safe [OF ok])
  define bs where "bs = \<lparr>bs_spent_this_cycle_mojos = (if ce_armed e then fw_spent_mojos win else 0),
    bs_budget_exhausted = False, bs_window = win\<rparr>"
  have inv: "in_step B W bs w2 p"
    using quiet ok track start armed by (simp add: in_step_def quiet_def bs_def)
  obtain br ct' bs' st3 w3 where b:
    "budget_pass env e (order_for_budget e (ct_eligible ct)) ct bs st2 w2 = (br, ct', bs', st3, w3)"
    by (metis prod_cases5)
  from budget_pass_safe [OF armed B saves inv b] obtain p3 where
    br: "br \<noteq> LoopPanic" and p3: "safe_to B W w2 p w3 p3" "in_step B W bs' w3 p3"
    by blast
  note safe3 = safe_to_trans [OF safe2 p3(1)]
  show ?thesis
  proof (cases "pr = LoopDone")
    case False
    with run have "r \<noteq> None \<and> w' = w2"
      by (cases pr) (auto simp: evaluate_all_def g q)
    with safe2 show ?thesis by blast
  next
    case ended: True
    show ?thesis
    proof (cases "br = LoopDone")
      case True
      then obtain e3 w4 where f: "finish_cycle env e now (found = None) (ids \<noteq> []) ct' (bs_window bs') st3 w3 = (e3, w4)"
        and "r = Some (ct_outcomes ct')" "w' = w4"
        using run ended b by (auto simp: evaluate_all_def g q bs_def [symmetric] split: prod.splits)
      with safe_to_trans [OF safe3 finish_safe [OF armed saves p3(2) f]] show ?thesis by auto
    next
      case False
      with br have "br = LoopUnavailable" by (cases br) auto
      with run ended b have "r \<noteq> None \<and> w' = w3"
        by (auto simp: evaluate_all_def g q bs_def [symmetric])
      with safe3 show ?thesis by blast
    qed
  qed
qed

lemma run_cycle_safe:
  assumes armed: "ce_armed e" and B: "ce_cycle_fee_budget_mojos e = B" "B < u64_max"
    and W: "ce_fee_window_seconds e = W" "0 < W" and saves: "\<And>h. save_succeeds env h"
    and ok: "ledger_ok B W (cw_disk w) p" and run: "run_cycle env now e w = (r, e', w')"
  shows "r \<noteq> None \<and> (\<exists>p'. safe_to B W w p w' p')"
proof -
  define st where "st = begin_cycle now (ce_status e)"
  obtain g w1 where g: "fee_gate env e now w = (g, w1)" by force
  from fee_gate_safe [OF armed W saves ok g] show ?thesis
  proof (elim disjE exE conjE)
    fix s assume "g = GateStop s" "w1 = w"
    with run g safe_to_refl [OF ok] show ?thesis by (auto simp: run_cycle_def Let_def)
  next
    fix win p1
    assume win: "g = GateOpen win" "safe_to B W w p w1 p1" "ledger_ok B W (cw_disk w1) p1"
      "tracks win (cw_disk w1)" "fw_start_unix win \<noteq> None"
    define found where "found = discover_distributors env (cw_log w1)"
    define w2 where "w2 = noted (EvDiscover found) w1"
    have safe2: "safe_to B W w p w2 p1"
      unfolding w2_def by (rule safe_to_trans [OF win(2) safe_noted [OF win(3)]]) simp
    consider (stop) "r = Some []" "w' = w2"
      | (eval) ds where "evaluate_all env e now win ds st w2 = (r, e', w')"
      using run g win(1)
      by (auto simp: run_cycle_def Let_def found_def [symmetric] w2_def st_def
          split: sum.splits claim_port_error.splits)
    then show ?thesis
    proof cases
      case stop
      with safe2 show ?thesis by blast
    next
      case eval
      from win have "ledger_ok B W (cw_disk w2) p1" "tracks win (cw_disk w2)"
        by (simp_all add: w2_def)
      from evaluate_all_safe [OF armed B saves this win(5) eval] safe_to_trans [OF safe2]
      show ?thesis by blast
    qed
  qed
qed

section \<open>Crashes and restarts\<close>

text \<open>The ledger over a life: every engine of it has the file's budget and window.\<close>

lemma safe_to_extend:
  assumes "fee_safe B W d0 0 l"
    and "safe_to B W \<lparr>cw_disk = disk_after d0 l, cw_log = l\<rparr> (window_paid d0 0 l) w' p'"
  shows "fee_safe B W d0 0 (cw_log w') \<and> (\<exists>evs. cw_log w' = l @ evs)"
  using assms by (auto simp: safe_to_def leads_def fee_safe_append)

lemma claim_life_safe:
  assumes "claim_life env own_hash asset d0 e l"
    and saves: "\<And>h. save_succeeds env h" and ok: "ledger_ok B W d0 0" and B: "B < u64_max"
  shows "fee_safe B W d0 0 l \<and> ce_armed e \<and> ce_cycle_fee_budget_mojos e = B
    \<and> ce_fee_window_seconds e = W"
proof -
  have engine: "ce_armed (driver_engine own_hash asset (claim_load_from d))
      \<and> ce_cycle_fee_budget_mojos (driver_engine own_hash asset (claim_load_from d)) = B
      \<and> ce_fee_window_seconds (driver_engine own_hash asset (claim_load_from d)) = W"
    if "ledger_ok B W d p" for d p
    using that load_cadence_floor [of d] by (auto simp: ledger_ok_def Let_def)
  have W: "0 < W"
    using ok load_cadence_floor [of d0]
    by (auto simp: ledger_ok_def Let_def CLAIM_CADENCE_FLOOR_SECONDS_def)
  have step: "fee_safe B W d0 0 (cw_log w') \<and> same_engine e e'"
    if inv: "fee_safe B W d0 0 l \<and> ce_armed e \<and> ce_cycle_fee_budget_mojos e = B
        \<and> ce_fee_window_seconds e = W"
      and run: "run_cycle env now e \<lparr>cw_disk = disk_after d0 l, cw_log = l\<rparr> = (r, e', w')"
    for e l now r e' w'
  proof -
    define w where "w = \<lparr>cw_disk = disk_after d0 l, cw_log = l\<rparr>"
    have "ledger_ok B W (cw_disk w) (window_paid d0 0 l)"
      using inv fee_safe_last by (simp add: w_def)
    moreover have "run_cycle env now e w = (r, e', w')" using run by (simp add: w_def)
    ultimately obtain p' where "safe_to B W w (window_paid d0 0 l) w' p'"
      using inv W run_cycle_safe [OF _ _ B _ _ saves, of e W w] by blast
    with inv run_cycle_same [OF run] safe_to_extend show ?thesis
      unfolding w_def by blast
  qed
  show ?thesis
    using assms(1)
  proof induction
    case boot
    then show ?case using engine [OF ok] ok by simp
  next
    case (cycle e l now outs e' w')
    from step [OF cycle.IH cycle.hyps(2)] cycle.IH show ?case by (simp add: same_engine_def)
  next
    case (crash e l now r e' w' k l')
    from step [OF crash.IH crash.hyps(2)] have "fee_safe B W d0 0 l'"
      unfolding crash.hyps(4) by (blast intro: fee_safe_prefix)
    with engine [OF fee_safe_last] show ?case by simp
  qed
qed

lemma fee_safe_rolls:
  "fee_safe B W d p evs \<Longrightarrow> k < length evs \<Longrightarrow> rolls_late W (disk_after d (take k evs)) (evs ! k)"
proof (induction evs arbitrary: d p k)
  case (Cons ev evs)
  then show ?case by (cases k) auto
qed simp

lemma load_spent_le_budget:
  "rc_fee_spent_in_window_mojos (claim_load_from d) \<le> rc_max_cycle_fee_budget_mojos (claim_load_from d)"
  by (cases d) (auto simp: poisoned_def claim_config_default_def)

text \<open>
  C15: As long as the writes of the preference file succeed, no schedule of cycles, crashes at any
  point and restarts makes the node pay more than its fee budget in one window: at every instant of
  every life, the fees of the submissions accepted since the window opened are covered by the spend
  the file records, which is at most the budget the file names. A window is opened only when the
  length of the raw cadence has passed since the last one opened. The port may answer as it likes
  and the clock may jump.
\<close>

theorem crash_loop_within_budget:
  assumes life: "claim_life env own_hash asset d0 e l"
    and saves: "\<And>h. save_succeeds env h"
    and readable: "\<not> rc_corrupt (claim_load_from d0)"
    and budget: "B = rc_max_cycle_fee_budget_mojos (claim_load_from d0)" "B < u64_max"
    and window: "W = rc_cadence_seconds (claim_load_from d0)"
  shows "window_paid d0 0 l \<le> rc_fee_spent_in_window_mojos (claim_load_from (disk_after d0 l))
    \<and> rc_fee_spent_in_window_mojos (claim_load_from (disk_after d0 l)) \<le> B
    \<and> (\<forall>k < length l. rolls_late W (disk_after d0 (take k l)) (l ! k))"
proof -
  have ok: "ledger_ok B W d0 0" using readable budget window by (simp add: ledger_ok_def Let_def)
  have safe: "fee_safe B W d0 0 l"
    using claim_life_safe [OF life saves ok budget(2)] by blast
  from fee_safe_last [OF this] have "ledger_ok B W (disk_after d0 l) (window_paid d0 0 l)" .
  with load_spent_le_budget [of "disk_after d0 l"] fee_safe_rolls [OF safe] show ?thesis
    by (auto simp: ledger_ok_def Let_def)
qed

text \<open>A port on which one distributor owes this node, and the first cycle of a fresh node.\<close>

definition sample_claim_env :: claim_env where
  "sample_claim_env =
     \<lparr>discover_distributors =
        (\<lambda>_. Inr [\<lparr>dd_launcher_id = ''L'', dd_store_id = ''S'', dd_root = ''R''\<rparr>]),
      hints_of = (\<lambda>_. []), resolve_launch_comment = (\<lambda>_ _. Inr None),
      reserve_asset_id = (\<lambda>_ _. Inr ''DIG''),
      own_entry_of = (\<lambda>_ _ h. Inr (Some \<lparr>oe_payout_puzzle_hash = h, oe_counter = 0,
                                        oe_accrued_base_units = 1500\<rparr>)),
      payout_threshold_of = (\<lambda>_ _. Inr 1000), required_fee_mojos = (\<lambda>_ _. Inr 5000),
      submit_initiate_payout = (\<lambda>_ _ _ _. Inr ()), save_succeeds = (\<lambda>_. True)\<rparr>"

definition sample_engine :: claim_engine where
  "sample_engine = driver_engine ''own'' ''DIG'' (claim_load_from ClaimFileAbsent)"

lemmas claim_eval =
  run_cycle_def fee_gate_def evaluate_all_def gather_def evaluate_pre_budget_def order_for_budget_def
  evaluate_budget_phase_def submit_phase_def precommit_fee_def uncommit_fee_def finish_cycle_def
  persist_fee_window_def claim_save_to_def noted_def begin_cycle_def tally_new_def add_outcome_def
  add_fault_def mark_unavailable_def future_dated_def elapsed_less_def u64_sat_add_def u64_add_def
  driver_engine_def with_persisted_fee_window_def with_rotation_cursor_def claim_engine_new_def
  claim_cadences_def clamp_gate_def claim_config_default_def claim_status_default_def
  CLAIM_CADENCE_SECONDS_DEFAULT_def CLAIM_JITTER_SECONDS_DEFAULT_def
  CLAIM_FEE_CEILING_MOJOS_DEFAULT_def CLAIM_CADENCE_FLOOR_SECONDS_def CLAIM_SCHEDULE_SECONDS_MAX_def
  CLAIM_CYCLE_FEE_BUDGET_MOJOS_DEFAULT_def compute_state_def as_u32_def poisoned_def Let_def

definition sample_trace :: "claim_event list" where
  "sample_trace =
     cw_log (snd (snd (run_cycle sample_claim_env 100000 sample_engine
       \<lparr>cw_disk = ClaimFileAbsent, cw_log = []\<rparr>)))"

lemma sample_life:
  "claim_life sample_claim_env ''own'' ''DIG'' ClaimFileAbsent
     (driver_engine ''own'' ''DIG'' (claim_load_from (disk_after ClaimFileAbsent sample_trace)))
     sample_trace"
proof -
  obtain r e' w' where run: "run_cycle sample_claim_env 100000 sample_engine
      \<lparr>cw_disk = ClaimFileAbsent, cw_log = []\<rparr> = (r, e', w')"
    by (metis prod_cases3)
  then have "sample_trace = take (length (cw_log w')) (cw_log w')" by (simp add: sample_trace_def)
  with claim_life.crash [OF claim_life.boot] run show ?thesis
    by (metis disk_after_simps(1) le0 list.size(3) sample_engine_def)
qed

theorem crash_loop_within_budget_witness:
  "window_paid ClaimFileAbsent 0 sample_trace = 5000
   \<and> window_paid ClaimFileAbsent 0 sample_trace
       \<le> rc_fee_spent_in_window_mojos (claim_load_from (disk_after ClaimFileAbsent sample_trace))
   \<and> rc_fee_spent_in_window_mojos (claim_load_from (disk_after ClaimFileAbsent sample_trace)) \<le> 2000000"
proof -
  have "window_paid ClaimFileAbsent 0 sample_trace = 5000"
    by (simp add: sample_trace_def sample_engine_def sample_claim_env_def claim_eval)
  moreover have "\<not> rc_corrupt (claim_load_from ClaimFileAbsent)"
    "2000000 = rc_max_cycle_fee_budget_mojos (claim_load_from ClaimFileAbsent)"
    by (simp_all add: claim_eval)
  moreover have "save_succeeds sample_claim_env h" for h by (simp add: sample_claim_env_def)
  ultimately show ?thesis
    using crash_loop_within_budget [OF sample_life, of 2000000] by simp
qed

end
