(* ===== verification/Claim_Correct.thy ===== *)
theory Claim_Correct
  imports Claim_Budget
begin

text \<open>
  What one cycle of the claim engine may pay, to whom and in which order, and what its status may
  say about it.
\<close>

section \<open>The events of a cycle\<close>

definition adds :: "(claim_event list \<Rightarrow> bool) \<Rightarrow> claim_world \<Rightarrow> claim_world \<Rightarrow> bool" where
  "adds Q w w' \<longleftrightarrow> (\<exists>evs. cw_log w' = cw_log w @ evs \<and> Q evs)"

lemma adds_mono: "adds Q w w' \<Longrightarrow> (\<And>evs. Q evs \<Longrightarrow> Q' evs) \<Longrightarrow> adds Q' w w'"
  by (auto simp: adds_def)

lemma adds_trans:
  "adds Q w w' \<Longrightarrow> adds Q' w' w'' \<Longrightarrow> (\<And>xs ys. Q xs \<Longrightarrow> Q' ys \<Longrightarrow> R (xs @ ys)) \<Longrightarrow> adds R w w''"
  unfolding adds_def by force

lemma quiet_adds: "quiet w w' \<Longrightarrow> adds (list_all reading_event) w w'"
  by (auto simp: quiet_def adds_def)

fun is_submit :: "claim_event \<Rightarrow> bool" where
  "is_submit (EvSubmit _ _ _ _) = True"
| "is_submit _ = False"

fun submitted_id :: "claim_event \<Rightarrow> bytes32 option" where
  "submitted_id (EvSubmit lid _ _ _) = Some lid"
| "submitted_id _ = None"

definition submissions :: "claim_event list \<Rightarrow> bytes32 list" where
  "submissions evs = List.map_filter submitted_id evs"

lemma submissions_simps [simp]:
  "submissions [] = []"
  "submissions (ev # evs) = (case submitted_id ev of None \<Rightarrow> [] | Some lid \<Rightarrow> [lid]) @ submissions evs"
  "submissions (evs @ evs') = submissions evs @ submissions evs'"
  by (simp_all add: submissions_def map_filter_simps map_filter_def split: option.splits)

lemma reading_not_submit: "reading_event ev \<Longrightarrow> submitted_id ev = None"
  by (cases ev) auto

lemma submissions_reading: "list_all reading_event evs \<Longrightarrow> submissions evs = []"
  by (induction evs) (auto simp: reading_not_submit)

lemma persist_submissions: "adds (\<lambda>evs. submissions evs = []) w (persist_fee_window env e win w)"
proof -
  have "\<exists>evs. cw_log (persist_fee_window env e win w) = cw_log w @ evs \<and> submissions evs = []"
  proof (cases "ce_armed e \<and> \<not> rc_corrupt (claim_load_from (cw_disk w))")
    case False
    then show ?thesis by (auto simp: persist_fee_window_def Let_def)
  next
    case True
    then show ?thesis
      by (cases "save_succeeds env (cw_log w)")
        (auto simp: persist_fee_window_def claim_save_to_def noted_def Let_def)
  qed
  then show ?thesis by (simp add: adds_def)
qed

text \<open>A submission pays the engine's own hash, at a quoted fee within the ceiling.\<close>

definition paid_right :: "claim_engine \<Rightarrow> claim_event list \<Rightarrow> bool" where
  "paid_right e evs \<longleftrightarrow>
     (\<forall>before lid h fee answer later. evs = before @ EvSubmit lid h fee answer # later \<longrightarrow>
        h = ce_own_payout_puzzle_hash e \<and> fee \<le> ce_max_fee_mojos e
        \<and> EvFee lid (Inr fee) \<in> set before)"

lemma submissions_split: "evs = before @ EvSubmit lid h fee answer # later \<Longrightarrow> submissions evs \<noteq> []"
  by simp

lemma paid_right_none: "submissions evs = [] \<Longrightarrow> paid_right e evs"
  unfolding paid_right_def using submissions_split by blast

lemma paid_right_append:
  assumes "paid_right e xs" "paid_right e ys"
  shows "paid_right e (xs @ ys)"
  unfolding paid_right_def
proof (intro allI impI)
  fix before lid h fee answer later
  assume "xs @ ys = before @ EvSubmit lid h fee answer # later"
  then consider (left) us where "xs = before @ EvSubmit lid h fee answer # us"
    | (right) us where "before = xs @ us" "ys = us @ EvSubmit lid h fee answer # later"
    by (auto simp: append_eq_append_conv2 append_eq_Cons_conv)
  then show "h = ce_own_payout_puzzle_hash e \<and> fee \<le> ce_max_fee_mojos e
      \<and> EvFee lid (Inr fee) \<in> set before"
    by cases (use assms in \<open>fastforce simp: paid_right_def\<close>)+
qed

lemma paid_right_one:
  assumes "submissions xs = []" "submissions ys = []" "fee \<le> ce_max_fee_mojos e"
    "EvFee lid (Inr fee) \<in> set xs"
  shows "paid_right e (xs @ EvSubmit lid (ce_own_payout_puzzle_hash e) fee answer # ys)"
  unfolding paid_right_def
proof (intro allI impI)
  fix before lid' h fee' answer' later
  assume eq: "xs @ EvSubmit lid (ce_own_payout_puzzle_hash e) fee answer # ys
    = before @ EvSubmit lid' h fee' answer' # later"
  then consider (same) "before = xs" "lid' = lid" "h = ce_own_payout_puzzle_hash e" "fee' = fee"
    | (left) us where "xs = before @ EvSubmit lid' h fee' answer' # us"
    | (right) us where "ys = us @ EvSubmit lid' h fee' answer' # later"
    by (auto simp: append_eq_append_conv2 append_eq_Cons_conv Cons_eq_append_conv)
  then show "h = ce_own_payout_puzzle_hash e \<and> fee' \<le> ce_max_fee_mojos e
      \<and> EvFee lid' (Inr fee') \<in> set before"
    by cases (use assms in auto)
qed

text \<open>One candidate of the budget pass submits at most once, for itself.\<close>

definition one_payment :: "claim_engine \<Rightarrow> bytes32 \<Rightarrow> claim_event list \<Rightarrow> bool" where
  "one_payment e lid evs \<longleftrightarrow> paid_right e evs \<and> (submissions evs = [] \<or> submissions evs = [lid])"

lemma precommit_adds:
  "precommit_fee env e fee (bs, w) = (bs', w') \<Longrightarrow> adds (\<lambda>evs. submissions evs = []) w w'"
  using persist_submissions by (auto simp: precommit_fee_def Let_def adds_def split: if_splits)

lemma uncommit_adds:
  "uncommit_fee env e fee (bs, w) = (bs', w') \<Longrightarrow> adds (\<lambda>evs. submissions evs = []) w w'"
  using persist_submissions by (auto simp: uncommit_fee_def Let_def adds_def split: if_splits)

lemma submit_phase_shape:
  assumes "submit_phase env e lid fee bs st w = (r, bs', st', w')"
  obtains bs1 w1 answer w2 where "precommit_fee env e fee (bs, w) = (bs1, w1)"
    "w2 = noted (EvSubmit lid (ce_own_payout_puzzle_hash e) fee answer) w1"
    "w' = w2 \<or> w' = snd (uncommit_fee env e fee (bs1, w2))"
    "(r = BudgetOutcome (Submitted lid) \<and> answer = Inr ()) \<or>
     (r = BudgetPanic \<or> r = BudgetUnavailable \<or> (\<exists>m. r = BudgetFault m (Some fee)))"
    "fault_reported st' \<longleftrightarrow> fault_reported st \<or> (\<exists>m. r = BudgetFault m (Some fee))"
    "fault_reported st' \<or> (\<nexists>m. answer = Inl (PortOther m))"
    "bs_budget_exhausted bs' = bs_budget_exhausted bs"
    "claims_submitted st' = claims_submitted st"
    "payout_hash_mismatches_this_cycle st' = payout_hash_mismatches_this_cycle st"
    "last_attempt_at st' = last_attempt_at st"
    "chain_unavailable_this_cycle st' = chain_unavailable_this_cycle st"
    "answer = Inl PortUnavailable \<longrightarrow> r = BudgetUnavailable"
proof -
  obtain bs1 w1 where pre: "precommit_fee env e fee (bs, w) = (bs1, w1)" by force
  have bs1: "bs_budget_exhausted bs1 = bs_budget_exhausted bs"
    using pre by (auto simp: precommit_fee_def Let_def split: if_splits)
  have un: "bs_budget_exhausted (fst (uncommit_fee env e fee (bs1, v))) = bs_budget_exhausted bs" for v
    using bs1 by (auto simp: uncommit_fee_def Let_def)
  define answer where
    "answer = submit_initiate_payout env (cw_log w1) lid (ce_own_payout_puzzle_hash e) fee"
  define w2 where "w2 = noted (EvSubmit lid (ce_own_payout_puzzle_hash e) fee answer) w1"
  obtain bs3 w3 where u: "uncommit_fee env e fee (bs1, w2) = (bs3, w3)" by force
  have run: "(r, bs', st', w') =
    (case answer of
        Inr _ \<Rightarrow>
          (case u64_add (bs_spent_this_cycle_mojos bs1) fee of
             None \<Rightarrow> (BudgetPanic, bs1, st, w2)
           | Some spent \<Rightarrow> (BudgetOutcome (Submitted lid), bs1\<lparr>bs_spent_this_cycle_mojos := spent\<rparr>, st, w2))
      | Inl PortUnavailable \<Rightarrow> (BudgetUnavailable, bs3, st, w3)
      | Inl (PortOther message) \<Rightarrow>
          (BudgetFault (bound_port_error_text message) (Some fee), bs3,
               st\<lparr>fault_reported := True\<rparr>, w3))"
    unfolding assms [symmetric] submit_phase_def Let_def pre case_prod_conv answer_def [symmetric]
      w2_def [symmetric] u by (rule refl)
  have bs3: "bs_budget_exhausted bs3 = bs_budget_exhausted bs" using un [of w2] u by simp
  show thesis
    by (rule that [OF pre w2_def])
      (use run u bs1 bs3 in \<open>auto split: sum.splits claim_port_error.splits option.splits\<close>)
qed

lemma submit_phase_result:
  assumes "submit_phase env e lid fee bs st w = (r, bs', st', w')"
  shows "r = BudgetOutcome (Submitted lid)
      \<or> r = BudgetPanic \<or> r = BudgetUnavailable \<or> (\<exists>m. r = BudgetFault m (Some fee))"
    and "bs_budget_exhausted bs' = bs_budget_exhausted bs"
  by (rule submit_phase_shape [OF assms], blast)+

lemma submit_phase_adds:
  assumes run: "submit_phase env e lid fee bs st w = (r, bs', st', w')"
    and w: "w = noted (EvFee lid (Inr fee)) w0" and fee: "fee \<le> ce_max_fee_mojos e"
  shows "adds (one_payment e lid) w0 w'"
proof -
  from submit_phase_shape [OF run] obtain bs1 w1 answer w2 where
    pre: "precommit_fee env e fee (bs, w) = (bs1, w1)"
    and w2: "w2 = noted (EvSubmit lid (ce_own_payout_puzzle_hash e) fee answer) w1"
    and w': "w' = w2 \<or> w' = snd (uncommit_fee env e fee (bs1, w2))"
    by metis
  from precommit_adds [OF pre] obtain xs where xs: "cw_log w1 = cw_log w @ xs" "submissions xs = []"
    by (auto simp: adds_def)
  have "adds (\<lambda>evs. submissions evs = []) w2 w'"
    using w' uncommit_adds [of env e fee bs1 w2] by (cases "uncommit_fee env e fee (bs1, w2)") (auto simp: adds_def)
  then obtain ys where ys: "cw_log w' = cw_log w2 @ ys" "submissions ys = []"
    by (auto simp: adds_def)
  define evs where "evs = (EvFee lid (Inr fee) # xs)
    @ EvSubmit lid (ce_own_payout_puzzle_hash e) fee answer # ys"
  have "one_payment e lid evs"
    unfolding one_payment_def evs_def using xs ys fee
    by (intro conjI paid_right_one) auto
  moreover have "cw_log w' = cw_log w0 @ evs"
    using xs ys by (simp add: evs_def w2 w)
  ultimately show ?thesis by (auto simp: adds_def)
qed

section \<open>The budget pass\<close>

lemma budget_phase_cases [consumes 1, case_names unavailable fault ceiling exhausted submit]:
  assumes run: "evaluate_budget_phase env e lid bs st w = (r, bs', st', w')"
  obtains
    "r = BudgetUnavailable" "bs' = bs" "st' = st" "w' = noted (EvFee lid (Inl PortUnavailable)) w"
  | m where "r = BudgetFault (bound_port_error_text m) None" "bs' = bs"
      "st' = st\<lparr>fault_reported := True\<rparr>" "w' = noted (EvFee lid (Inl (PortOther m))) w"
  | fee where "r = BudgetOutcome (SkippedFeeAboveCeiling lid fee (ce_max_fee_mojos e))" "bs' = bs"
      "st' = st\<lparr>claims_skipped_fee_ceiling := claims_skipped_fee_ceiling st + 1\<rparr>"
      "w' = noted (EvFee lid (Inr fee)) w"
  | fee where "r = BudgetOutcome (SkippedCycleBudgetExhausted lid fee (ce_cycle_fee_budget_mojos e))"
      "bs' = bs\<lparr>bs_budget_exhausted := True\<rparr>"
      "st' = st\<lparr>claims_skipped_cycle_budget := claims_skipped_cycle_budget st + 1\<rparr>"
      "w' = noted (EvFee lid (Inr fee)) w"
  | fee where "fee \<le> ce_max_fee_mojos e" "\<not> bs_budget_exhausted bs"
      "submit_phase env e lid fee bs st (noted (EvFee lid (Inr fee)) w) = (r, bs', st', w')"
proof (cases "required_fee_mojos env (cw_log w) lid")
  case (Inl err)
  show thesis
  proof (cases err)
    case PortUnavailable
    have "(r, bs', st', w') = (BudgetUnavailable, bs, st, noted (EvFee lid (Inl PortUnavailable)) w)"
      unfolding run [symmetric] evaluate_budget_phase_def Let_def Inl PortUnavailable by simp
    then show thesis by (intro that(1)) simp_all
  next
    case (PortOther m)
    have "(r, bs', st', w') = (BudgetFault (bound_port_error_text m) None, bs,
        st\<lparr>fault_reported := True\<rparr>, noted (EvFee lid (Inl (PortOther m))) w)"
      unfolding run [symmetric] evaluate_budget_phase_def Let_def Inl PortOther by simp
    then show thesis by (intro that(2)) simp_all
  qed
next
  case (Inr fee)
  define w1 where "w1 = noted (EvFee lid (Inr fee)) w"
  note unfolded = run [unfolded evaluate_budget_phase_def Let_def Inr sum.case, folded w1_def]
  show thesis
  proof (cases "ce_max_fee_mojos e < fee")
    case True
    with unfolded show thesis by (intro that(3) [of fee]) (simp_all add: w1_def)
  next
    case low: False
    show thesis
    proof (cases "bs_budget_exhausted bs
        \<or> ce_cycle_fee_budget_mojos e < u64_sat_add (bs_spent_this_cycle_mojos bs) fee")
      case True
      with low unfolded show thesis by (intro that(4) [of fee]) (simp_all add: w1_def)
    next
      case False
      with low unfolded show thesis by (intro that(5) [of fee]) (simp_all add: w1_def)
    qed
  qed
qed

lemma budget_phase_adds:
  assumes "evaluate_budget_phase env e lid bs st w = (r, bs', st', w')"
  shows "adds (one_payment e lid) w w'"
  using assms
proof (cases rule: budget_phase_cases)
  case (submit fee)
  then show ?thesis by (intro submit_phase_adds [OF submit(3)]) simp_all
qed (auto simp: adds_def one_payment_def intro: paid_right_none)

lemma budget_pass_adds:
  "budget_pass env e claims ct bs st w = (r, ct', bs', st', w') \<Longrightarrow>
     adds (\<lambda>evs. paid_right e evs \<and> subseq (submissions evs) (map fst claims)) w w'"
proof (induction claims arbitrary: ct bs st w)
  case Nil
  then show ?case by (auto simp: adds_def intro: paid_right_none)
next
  case (Cons claim claims)
  obtain q bs1 st1 w1 where step: "evaluate_budget_phase env e (fst claim) bs st w = (q, bs1, st1, w1)"
    by (metis prod_cases4)
  have "adds (\<lambda>evs. paid_right e evs \<and> subseq (submissions evs) (map fst claims)) w1 w'"
    using Cons step
    by (cases q) (auto simp: adds_def intro: paid_right_none intro!: exI [of _ "[]"])
  from budget_phase_adds [OF step] this show ?case
    by (rule adds_trans) (auto simp: one_payment_def intro: paid_right_append)
qed

text \<open>The outcomes of the pass line up with the claims, and none is paid after a budget skip.\<close>

fun outcome_id :: "claim_outcome \<Rightarrow> bytes32" where
  "outcome_id (Submitted lid) = lid"
| "outcome_id (SkippedBelowThreshold lid _ _) = lid"
| "outcome_id (SkippedFeeAboveCeiling lid _ _) = lid"
| "outcome_id (NoEntrySlot lid) = lid"
| "outcome_id (NotOurs lid) = lid"
| "outcome_id (SkippedCycleBudgetExhausted lid _ _) = lid"
| "outcome_id (PayoutPuzzleHashMismatch lid) = lid"
| "outcome_id (Faulted lid _ _) = lid"

fun is_paid :: "claim_outcome \<Rightarrow> bool" where
  "is_paid (Submitted _) = True"
| "is_paid _ = False"

fun is_budget_skip :: "claim_outcome \<Rightarrow> bool" where
  "is_budget_skip (SkippedCycleBudgetExhausted _ _ _) = True"
| "is_budget_skip _ = False"

definition no_pay_after_skip :: "claim_outcome list \<Rightarrow> bool" where
  "no_pay_after_skip outs \<longleftrightarrow> sorted_wrt (\<lambda>a b. is_budget_skip a \<longrightarrow> \<not> is_paid b) outs"

fun result_outcome :: "bytes32 \<Rightarrow> budget_phase_result \<Rightarrow> claim_outcome option" where
  "result_outcome lid (BudgetOutcome outcome) = Some outcome"
| "result_outcome lid (BudgetFault reason reversed) = Some (Faulted lid reversed reason)"
| "result_outcome lid _ = None"

lemma budget_phase_outcome:
  assumes "evaluate_budget_phase env e lid bs st w = (r, bs', st', w')"
    and "result_outcome lid r = Some outcome"
  shows "outcome_id outcome = lid"
    and "bs_budget_exhausted bs \<Longrightarrow> \<not> is_paid outcome \<and> bs_budget_exhausted bs'"
    and "is_budget_skip outcome \<Longrightarrow> bs_budget_exhausted bs'"
proof -
  show "outcome_id outcome = lid"
    using assms
  proof (cases rule: budget_phase_cases)
    case (submit fee)
    from submit_phase_result(1) [OF submit(3)] assms(2) show ?thesis by auto
  qed auto
  show "bs_budget_exhausted bs \<Longrightarrow> \<not> is_paid outcome \<and> bs_budget_exhausted bs'"
    using assms by (cases rule: budget_phase_cases) auto
  show "is_budget_skip outcome \<Longrightarrow> bs_budget_exhausted bs'"
    using assms
  proof (cases rule: budget_phase_cases)
    case (submit fee)
    from submit_phase_result(1) [OF submit(3)] assms(2)
    show "is_budget_skip outcome \<Longrightarrow> bs_budget_exhausted bs'" by auto
  qed auto
qed

text \<open>The pass appends one outcome per claim it gets to.\<close>

definition lined_up :: "eligible_claim list \<Rightarrow> claim_outcome list \<Rightarrow> bool" where
  "lined_up claims outs \<longleftrightarrow> (\<exists>n. map outcome_id outs = map fst (take n claims))"

lemma tally_budget_outcomes:
  "ct_outcomes (tally_budget r lid ct) =
     ct_outcomes ct @ (case result_outcome lid r of None \<Rightarrow> [] | Some outcome \<Rightarrow> [outcome])"
  by (cases r) (auto simp: add_fault_def add_outcome_def split: claim_outcome.splits)

lemma lined_up_Cons: "outcome_id outcome = fst claim \<Longrightarrow> lined_up claims outs \<Longrightarrow>
    lined_up (claim # claims) (outcome # outs)"
  unfolding lined_up_def by (metis list.simps(9) take_Suc_Cons)

lemma lined_up_Nil [simp]: "lined_up claims []"
  unfolding lined_up_def by (rule exI [of _ 0]) simp

lemma budget_pass_outcomes:
  "budget_pass env e claims ct bs st w = (r, ct', bs', st', w') \<Longrightarrow>
     \<exists>outs. ct_outcomes ct' = ct_outcomes ct @ outs \<and> lined_up claims outs
       \<and> no_pay_after_skip outs \<and> (bs_budget_exhausted bs \<longrightarrow> (\<forall>x \<in> set outs. \<not> is_paid x))"
proof (induction claims arbitrary: ct bs st w)
  case Nil
  then show ?case by (auto simp: no_pay_after_skip_def)
next
  case (Cons claim claims)
  obtain q bs1 st1 w1 where step: "evaluate_budget_phase env e (fst claim) bs st w = (q, bs1, st1, w1)"
    by (metis prod_cases4)
  show ?case
  proof (cases "result_outcome (fst claim) q")
    case None
    then have "ct_outcomes ct' = ct_outcomes ct"
      using Cons.prems step by (cases q) auto
    then show ?thesis by (intro exI [of _ "[]"]) (simp add: no_pay_after_skip_def)
  next
    case (Some outcome)
    note out = budget_phase_outcome [OF step Some]
    have "budget_pass env e claims (tally_budget q (fst claim) ct) bs1 st1 w1 = (r, ct', bs', st', w')"
      using Cons.prems step Some by (cases q) auto
    from Cons.IH [OF this] obtain outs where
      outs: "ct_outcomes ct' = ct_outcomes (tally_budget q (fst claim) ct) @ outs" "lined_up claims outs"
        "no_pay_after_skip outs" "bs_budget_exhausted bs1 \<longrightarrow> (\<forall>x \<in> set outs. \<not> is_paid x)"
      by blast
    have "ct_outcomes ct' = ct_outcomes ct @ outcome # outs"
      using outs(1) Some by (simp add: tally_budget_outcomes)
    moreover have "lined_up (claim # claims) (outcome # outs)"
      using out(1) outs(2) by (rule lined_up_Cons)
    moreover have "no_pay_after_skip (outcome # outs)"
      using out(3) outs(3, 4) by (auto simp: no_pay_after_skip_def)
    moreover have "bs_budget_exhausted bs \<longrightarrow> (\<forall>x \<in> set (outcome # outs). \<not> is_paid x)"
      using out(2) outs(4) by auto
    ultimately show ?thesis by blast
  qed
qed

text \<open>The order: the same claims, by falling accrual.\<close>

lemma order_perm: "mset (order_for_budget e eligible) = mset eligible"
  by (simp add: order_for_budget_def Let_def)

lemma order_set [simp]: "set (order_for_budget e eligible) = set eligible"
  using order_perm mset_eq_setD by blast

lemma order_distinct [simp]:
  "distinct (map fst (order_for_budget e eligible)) \<longleftrightarrow> distinct (map fst eligible)"
  by (metis order_perm mset_eq_imp_distinct_iff mset_map)

lemma order_falls: "sorted_wrt (\<lambda>a b. snd b \<le> snd a) (order_for_budget e eligible)"
proof -
  define key where "key = (\<lambda>(launcher_id, accrued).
    (- int accrued, rotation_key (ce_rotation_cursor e) (sort (map fst eligible)) launcher_id))"
  have "sorted (map key (order_for_budget e eligible))"
    by (simp add: order_for_budget_def key_def Let_def)
  then have "sorted_wrt (\<lambda>a b. key a \<le> key b) (order_for_budget e eligible)"
    by (simp add: sorted_map)
  then show ?thesis
    by (rule sorted_wrt_mono_rel [rotated]) (auto simp: key_def less_eq_prod_def)
qed

lemma lined_up_nth:
  assumes "lined_up claims outs" "i < length outs"
  shows "i < length claims \<and> outcome_id (outs ! i) = fst (claims ! i)"
proof -
  obtain n where n: "map outcome_id outs = map fst (take n claims)"
    using assms(1) by (auto simp: lined_up_def)
  then have len: "length outs = min (length claims) n" by (metis length_map length_take)
  have "outcome_id (outs ! i) = map fst (take n claims) ! i"
    using n assms(2) by (metis nth_map)
  with len assms(2) show ?thesis by simp
qed

text \<open>
  C17: A distributor that owes this node little never takes the place of one that owes it more: when
  the budget pass pays one claim and skips another because the budget is exhausted, the skipped one
  has accrued no more than the paid one, whatever fees the distributors ask for and whatever the
  port answers.
\<close>

theorem dust_never_displaces:
  assumes ids: "distinct (map fst eligible)"
    and pass: "budget_pass env e (order_for_budget e eligible) ct bs st w = (r, ct', bs', st', w')"
    and outs: "ct_outcomes ct' = ct_outcomes ct @ outs"
    and skipped: "SkippedCycleBudgetExhausted b fee budget \<in> set outs"
    and paid: "Submitted a \<in> set outs"
    and accrued: "(a, x) \<in> set eligible" "(b, y) \<in> set eligible"
  shows "y \<le> x"
proof -
  let ?claims = "order_for_budget e eligible"
  have up: "lined_up ?claims outs" and order: "no_pay_after_skip outs"
    using budget_pass_outcomes [OF pass] outs by auto
  obtain i j where i: "i < length outs" "outs ! i = Submitted a"
    and j: "j < length outs" "outs ! j = SkippedCycleBudgetExhausted b fee budget"
    using skipped paid by (metis in_set_conv_nth)
  have "\<not> j < i"
    using order i j unfolding no_pay_after_skip_def by (auto dest: sorted_wrt_nth_less)
  with i j have ij: "i < j" by (metis claim_outcome.distinct(9) nat_neq_iff)
  have ci: "i < length ?claims" "fst (?claims ! i) = a" using lined_up_nth [OF up i(1)] i by auto
  have cj: "j < length ?claims" "fst (?claims ! j) = b" using lined_up_nth [OF up j(1)] j by auto
  have unique: "c = d" if "c \<in> set ?claims" "d \<in> set ?claims" "fst c = fst d" for c d
    using that ids order_distinct by (metis distinct_map inj_onD)
  have "?claims ! i = (a, x)" "?claims ! j = (b, y)"
    using unique ci cj accrued by (metis fst_conv nth_mem order_set)+
  with sorted_wrt_nth_less [OF order_falls ij cj(1)] show ?thesis by simp
qed

section \<open>What makes a claim eligible\<close>

definition vetted :: "claim_engine \<Rightarrow> claim_event list \<Rightarrow> eligible_claim \<Rightarrow> bool" where
  "vetted e evs c \<longleftrightarrow>
     EvReserve (fst c) (Inr (ce_dig_asset_id e)) \<in> set evs
     \<and> (\<exists>entry threshold.
          EvEntry (fst c) (ce_own_payout_puzzle_hash e) (Inr (Some entry)) \<in> set evs
          \<and> oe_payout_puzzle_hash entry = ce_own_payout_puzzle_hash e
          \<and> oe_accrued_base_units entry = snd c
          \<and> EvThreshold (fst c) (Inr threshold) \<in> set evs \<and> threshold \<le> snd c)"

lemma vetted_append: "vetted e evs c \<Longrightarrow> vetted e (evs @ evs') c" "vetted e evs' c \<Longrightarrow> vetted e (evs @ evs') c"
  by (auto simp: vetted_def)

lemma pre_budget_eligible:
  assumes "evaluate_pre_budget env e lid st w = (Eligible lid' accrued, st', w')"
  shows "lid' = lid \<and> adds (\<lambda>evs. vetted e evs (lid, accrued)) w w'"
  using assms
  by (auto simp: evaluate_pre_budget_def Let_def adds_def vetted_def noted_def
      split: sum.splits claim_port_error.splits option.splits if_splits)

lemma tally_pre_eligible:
  "ct_eligible (tally_pre r lid ct) =
     ct_eligible ct @ (case r of Eligible lid' accrued \<Rightarrow> [(lid', accrued)] | _ \<Rightarrow> [])"
  by (cases r) (auto simp: add_fault_def add_outcome_def)

lemma pre_budget_pass_eligible:
  "pre_budget_pass env e ids ct st w = (r, ct', st', w') \<Longrightarrow>
     \<exists>new. ct_eligible ct' = ct_eligible ct @ new \<and> subseq (map fst new) ids
       \<and> adds (\<lambda>evs. \<forall>c \<in> set new. vetted e evs c) w w'"
proof (induction ids arbitrary: ct st w)
  case Nil
  then show ?case by (auto simp: adds_def)
next
  case (Cons lid ids)
  obtain q st1 w1 where step: "evaluate_pre_budget env e lid st w = (q, st1, w1)"
    by (metis prod_cases3)
  show ?case
  proof (cases "q = PreUnavailable")
    case True
    with Cons.prems step have "ct' = ct" "w' = w1" by auto
    moreover have "adds (\<lambda>_. True) w w1"
      using quiet_adds [OF pre_budget_quiet [OF step]] by (auto simp: adds_def)
    ultimately show ?thesis by auto
  next
    case False
    then have "pre_budget_pass env e ids (tally_pre q lid ct) st1 w1 = (r, ct', st', w')"
      using Cons.prems step by (cases q) auto
    from Cons.IH [OF this] obtain new where
      new: "ct_eligible ct' = ct_eligible (tally_pre q lid ct) @ new" "subseq (map fst new) ids"
        "adds (\<lambda>evs. \<forall>c \<in> set new. vetted e evs c) w1 w'"
      by blast
    show ?thesis
    proof (cases "\<exists>lid' accrued. q = Eligible lid' accrued")
      case True
      then obtain accrued where q: "q = Eligible lid accrued"
        and v: "adds (\<lambda>evs. vetted e evs (lid, accrued)) w w1"
        using pre_budget_eligible step by blast
      have "adds (\<lambda>evs. \<forall>c \<in> set ((lid, accrued) # new). vetted e evs c) w w'"
        using v new(3) by (rule adds_trans) (auto intro: vetted_append)
      with new q show ?thesis
        by (intro exI [of _ "(lid, accrued) # new"]) (simp add: tally_pre_eligible)
    next
      case False
      have "adds (\<lambda>_. True) w w1"
        using quiet_adds [OF pre_budget_quiet [OF step]] by (auto simp: adds_def)
      then have "adds (\<lambda>evs. \<forall>c \<in> set new. vetted e evs c) w w'"
        using new(3) by (rule adds_trans) (auto intro: vetted_append)
      moreover have "ct_eligible (tally_pre q lid ct) = ct_eligible ct"
        unfolding tally_pre_eligible using False by (cases q) auto
      ultimately show ?thesis
        using new by (intro exI [of _ new]) (simp add: list_emb_Cons)
    qed
  qed
qed

text \<open>No launcher is a candidate twice.\<close>

lemma add_hints_distinct:
  "add_hints env hints ids st w = (ids', st', w') \<Longrightarrow> distinct ids \<Longrightarrow> distinct ids'"
proof (induction hints arbitrary: ids st w)
  case (Cons hint hints)
  then show ?case
    by (auto simp: Let_def split: if_splits sum.splits option.splits claim_port_error.splits)
qed simp

lemma sorted_dedup_distinct: "sorted xs \<Longrightarrow> distinct (remdups_adj xs)"
  by (induction xs rule: remdups_adj.induct) (auto simp: antisym)

lemma gather_distinct: "gather env now found st w = (ids, st', w') \<Longrightarrow> distinct ids"
  by (auto simp: gather_def Let_def sorted_dedup_distinct split: prod.splits dest!: add_hints_distinct)

section \<open>The trace of a cycle\<close>

definition cycle_trace :: "claim_engine \<Rightarrow> claim_event list \<Rightarrow> bool" where
  "cycle_trace e evs \<longleftrightarrow>
     (\<exists>xs ys claims. evs = xs @ ys \<and> submissions xs = [] \<and> paid_right e ys
        \<and> distinct (map fst claims) \<and> subseq (submissions ys) (map fst claims)
        \<and> (\<forall>c \<in> set claims. vetted e xs c))"

lemma cycle_trace_quiet: "submissions evs = [] \<Longrightarrow> cycle_trace e evs"
  unfolding cycle_trace_def
  by (rule exI [of _ evs], rule exI [of _ "[]"], rule exI [of _ "[]"]) (simp add: paid_right_none)

lemma cycle_trace_Nil [simp]: "cycle_trace e []"
  by (rule cycle_trace_quiet) simp

lemma cycle_trace_prepend: "submissions us = [] \<Longrightarrow> cycle_trace e evs \<Longrightarrow> cycle_trace e (us @ evs)"
proof -
  assume us: "submissions us = []" and "cycle_trace e evs"
  then obtain xs ys claims where *: "evs = xs @ ys" "submissions xs = []" "paid_right e ys"
      "distinct (map fst claims)" "subseq (submissions ys) (map fst claims)"
      "\<forall>c \<in> set claims. vetted e xs c"
    by (auto simp: cycle_trace_def)
  with us show "cycle_trace e (us @ evs)"
    unfolding cycle_trace_def
    by (intro exI [of _ "us @ xs"] exI [of _ ys] exI [of _ claims]) (auto intro: vetted_append)
qed

lemma finish_adds:
  "finish_cycle env e now failed any ct win st w = (e', w') \<Longrightarrow> adds (\<lambda>evs. submissions evs = []) w w'"
  using persist_submissions by (auto simp: finish_cycle_def Let_def adds_def split: if_splits)

lemma evaluate_all_trace:
  assumes run: "evaluate_all env e now win found st w = (r, e', w')"
  shows "adds (cycle_trace e) w w'"
proof -
  obtain ids st1 w1 where g: "gather env now found st w = (ids, st1, w1)" by (metis prod_cases3)
  obtain pr ct st2 w2 where q: "pre_budget_pass env e ids tally_new st1 w1 = (pr, ct, st2, w2)"
    by (metis prod_cases4)
  from gather_quiet [OF g] have "adds (\<lambda>evs. submissions evs = []) w w1"
    by (rule adds_mono [OF quiet_adds submissions_reading])
  then obtain us where us: "cw_log w1 = cw_log w @ us" "submissions us = []" by (auto simp: adds_def)
  have "adds (\<lambda>evs. submissions evs = []) w1 w2"
    by (rule adds_mono [OF quiet_adds [OF pre_budget_pass_quiet [OF q]] submissions_reading])
  moreover from pre_budget_pass_eligible [OF q] have sub: "subseq (map fst (ct_eligible ct)) ids"
    and "adds (\<lambda>evs. \<forall>c \<in> set (ct_eligible ct). vetted e evs c) w1 w2"
    by (auto simp: tally_new_def)
  ultimately obtain xs where xs: "cw_log w2 = cw_log w1 @ xs" "submissions xs = []"
      "\<forall>c \<in> set (ct_eligible ct). vetted e xs c"
    by (auto simp: adds_def)
  have dist: "distinct (map fst (ct_eligible ct))"
    using sub gather_distinct [OF g] by (metis subseq_distinct)
  show ?thesis
  proof (cases "pr = LoopDone")
    case False
    with run have "w' = w2" by (cases pr) (auto simp: evaluate_all_def g q)
    with us xs show ?thesis
      by (auto simp: adds_def intro: cycle_trace_quiet)
  next
    case ended: True
    define claims where "claims = order_for_budget e (ct_eligible ct)"
    define bs where "bs = \<lparr>bs_spent_this_cycle_mojos = (if ce_armed e then fw_spent_mojos win else 0),
      bs_budget_exhausted = False, bs_window = win\<rparr>"
    obtain br ct' bs' st3 w3 where b: "budget_pass env e claims ct bs st2 w2 = (br, ct', bs', st3, w3)"
      by (metis prod_cases5)
    have "adds (\<lambda>evs. submissions evs = []) w3 w'"
      using run ended b finish_adds
      by (cases br) (auto simp: evaluate_all_def g q bs_def [symmetric] claims_def [symmetric]
          adds_def split: prod.splits)
    with budget_pass_adds [OF b]
    have "adds (\<lambda>evs. paid_right e evs \<and> subseq (submissions evs) (map fst claims)) w2 w'"
      by (rule adds_trans) (auto intro: paid_right_append paid_right_none)
    then obtain ys where ys: "cw_log w' = cw_log w2 @ ys" "paid_right e ys"
        "subseq (submissions ys) (map fst claims)"
      by (auto simp: adds_def)
    have "cycle_trace e (xs @ ys)"
      unfolding cycle_trace_def using xs ys dist
      by (intro exI [of _ xs] exI [of _ ys] exI [of _ claims]) (simp add: claims_def)
    with cycle_trace_prepend [OF us(2)] us xs ys show ?thesis
      by (auto simp: adds_def)
  qed
qed

lemma fee_gate_adds: "fee_gate env e now w = (g, w') \<Longrightarrow> adds (\<lambda>evs. submissions evs = []) w w'"
proof -
  have "adds (\<lambda>evs. submissions evs = []) w (snd (fee_gate env e now w))"
    using persist_submissions [of w env e]
    by (simp add: fee_gate_def Let_def) (auto simp: adds_def)
  then show "fee_gate env e now w = (g, w') \<Longrightarrow> adds (\<lambda>evs. submissions evs = []) w w'" by simp
qed

lemma run_cycle_trace:
  assumes run: "run_cycle env now e w = (r, e', w')"
  shows "adds (cycle_trace e) w w'"
proof -
  define st where "st = begin_cycle now (ce_status e)"
  obtain g w1 where g: "fee_gate env e now w = (g, w1)" by force
  define found where "found = discover_distributors env (cw_log w1)"
  define w2 where "w2 = noted (EvDiscover found) w1"
  have w2: "adds (\<lambda>evs. submissions evs = []) w w2"
    using fee_gate_adds [OF g] by (auto simp: adds_def w2_def)
  have "w' = w1 \<or> w' = w2 \<or> (\<exists>win ds. evaluate_all env e now win ds st w2 = (r, e', w'))"
    using run g
    by (auto simp: run_cycle_def Let_def found_def [symmetric] w2_def st_def
        split: cycle_gate.splits sum.splits claim_port_error.splits)
  then have "w' = w1 \<or> adds (cycle_trace e) w2 w'"
    using evaluate_all_trace by (auto simp: adds_def intro: cycle_trace_quiet)
  moreover have "adds (cycle_trace e) w w1"
    using fee_gate_adds [OF g] by (rule adds_mono) (rule cycle_trace_quiet)
  moreover have "adds (cycle_trace e) w w'" if "adds (cycle_trace e) w2 w'"
    using w2 that by (rule adds_trans) (rule cycle_trace_prepend)
  ultimately show ?thesis by blast
qed

lemma subseq_in: "subseq xs ys \<Longrightarrow> x \<in> set xs \<Longrightarrow> x \<in> set ys"
  by (metis notin_set_nthsI subseq_conv_nths)

text \<open>
  C16: Every payout a cycle submits goes to this node's own puzzle hash, at the fee the port quoted
  for it earlier in the same cycle and within the ceiling; before it the cycle read, of that very
  launcher, that its reserve asset is DIG, that its entry slot holds this node's own puzzle hash
  and that what it has accrued reaches its payout threshold. No launcher is submitted twice in one
  cycle, even when the port lists it twice or a hint repeats it.
\<close>

theorem payouts_are_own_earnings:
  assumes run: "run_cycle env now e w = (r, e', w')"
    and log: "cw_log w' = cw_log w @ before @ EvSubmit lid h fee answer # later"
  shows "h = ce_own_payout_puzzle_hash e \<and> fee \<le> ce_max_fee_mojos e
    \<and> EvFee lid (Inr fee) \<in> set before
    \<and> (\<exists>accrued. vetted e before (lid, accrued))
    \<and> lid \<notin> set (submissions before) \<and> lid \<notin> set (submissions later)"
proof -
  obtain xs ys claims where evs: "before @ EvSubmit lid h fee answer # later = xs @ ys"
    and xs: "submissions xs = []" and ys: "paid_right e ys"
    and claims: "distinct (map fst claims)" "subseq (submissions ys) (map fst claims)"
      "\<forall>c \<in> set claims. vetted e xs c"
    using run_cycle_trace [OF run] log by (auto simp: adds_def cycle_trace_def)
  have dist: "distinct (submissions ys)" using claims(1, 2) by (metis subseq_distinct)
  obtain us where before: "before = xs @ us" and tail: "ys = us @ EvSubmit lid h fee answer # later"
    using evs xs by (auto simp: append_eq_append_conv2 Cons_eq_append_conv)
  have "lid \<in> set (map fst claims)"
    by (rule subseq_in [OF claims(2)]) (simp add: tail)
  then obtain accrued where "(lid, accrued) \<in> set claims" by auto
  with claims(3) have "vetted e before (lid, accrued)" by (simp add: before vetted_append)
  moreover have "h = ce_own_payout_puzzle_hash e \<and> fee \<le> ce_max_fee_mojos e
      \<and> EvFee lid (Inr fee) \<in> set us"
    using ys tail unfolding paid_right_def by blast
  ultimately show ?thesis
    using dist xs by (auto simp: before tail)
qed

section \<open>Witnesses\<close>

definition sample_before :: "claim_event list" where
  "sample_before = takeWhile (\<lambda>ev. \<not> is_submit ev) sample_trace"

definition sample_later :: "claim_event list" where
  "sample_later = tl (dropWhile (\<lambda>ev. \<not> is_submit ev) sample_trace)"

lemma sample_trace_split:
  "sample_trace = sample_before @ EvSubmit ''L'' ''own'' 5000 (Inr ()) # sample_later"
  by (simp add: sample_before_def sample_later_def sample_trace_def sample_engine_def
      sample_claim_env_def claim_eval)

theorem payouts_are_own_earnings_witness:
  "\<exists>accrued. vetted sample_engine sample_before (''L'', accrued)"
proof -
  define w0 where "w0 = \<lparr>cw_disk = ClaimFileAbsent, cw_log = []\<rparr>"
  obtain r e' w' where run: "run_cycle sample_claim_env 100000 sample_engine w0 = (r, e', w')"
    by (metis prod_cases3)
  then have "cw_log w' = cw_log w0 @ sample_before @ EvSubmit ''L'' ''own'' 5000 (Inr ()) # sample_later"
    using sample_trace_split by (simp add: sample_trace_def w0_def)
  from payouts_are_own_earnings [OF run this] show ?thesis by blast
qed

text \<open>Two claims, and a budget with room for one fee.\<close>

definition tight_engine :: claim_engine where
  "tight_engine = claim_engine_new ''own'' 200000 6000 ''DIG''"

definition sample_pass :: "loop_end \<times> cycle_tally \<times> budget_state \<times> claim_status \<times> claim_world" where
  "sample_pass =
     budget_pass sample_claim_env tight_engine
       (order_for_budget tight_engine [(''K'', 7), (''L'', 10)]) tally_new
       \<lparr>bs_spent_this_cycle_mojos = 0, bs_budget_exhausted = False,
        bs_window = \<lparr>fw_start_unix = None, fw_spent_mojos = 0, fw_last_completed_at = None\<rparr>\<rparr>
       claim_status_default \<lparr>cw_disk = ClaimFileAbsent, cw_log = []\<rparr>"

theorem dust_never_displaces_witness:
  "ct_outcomes (fst (snd sample_pass)) =
     [Submitted ''L'', SkippedCycleBudgetExhausted ''K'' 5000 6000]
   \<and> (7::nat) \<le> 10"
proof -
  let ?outs = "[Submitted ''L'', SkippedCycleBudgetExhausted ''K'' 5000 6000]"
  have outs: "ct_outcomes (fst (snd sample_pass)) = ?outs"
    by (simp add: sample_pass_def tight_engine_def sample_claim_env_def claim_eval)
  obtain r ct' bs' st' w' where pass: "sample_pass = (r, ct', bs', st', w')" by (metis prod_cases5)
  have "ct_outcomes ct' = ?outs" using outs unfolding pass by simp
  then have "(7::nat) \<le> 10"
    by (intro dust_never_displaces [OF _ pass [unfolded sample_pass_def], of ?outs "''K''" 5000 6000 "''L''"])
      (simp_all add: tally_new_def)
  with outs show ?thesis by simp
qed

end
