(* ===== verification/Claim_Report.thy ===== *)
theory Claim_Report
  imports Claim_Correct
begin

text \<open>
  What the status of the claim engine may say, and where the code falls short of its own account:
  the counters of a cycle that lost the chain, and the budget of a repaired file.
\<close>

section \<open>Faults and mismatches are on the record\<close>

text \<open>The error a chain call answered with, faults and outages alike.\<close>

fun port_error :: "claim_event \<Rightarrow> claim_port_error option" where
  "port_error (EvDiscover (Inl err)) = Some err"
| "port_error (EvResolve _ (Inl err)) = Some err"
| "port_error (EvReserve _ (Inl err)) = Some err"
| "port_error (EvEntry _ _ (Inl err)) = Some err"
| "port_error (EvThreshold _ (Inl err)) = Some err"
| "port_error (EvFee _ (Inl err)) = Some err"
| "port_error (EvSubmit _ _ _ (Inl err)) = Some err"
| "port_error _ = None"

fun is_fault :: "claim_event \<Rightarrow> bool" where
  "is_fault (EvDiscover (Inl (PortOther _))) = True"
| "is_fault (EvResolve _ (Inl (PortOther _))) = True"
| "is_fault (EvReserve _ (Inl (PortOther _))) = True"
| "is_fault (EvEntry _ _ (Inl (PortOther _))) = True"
| "is_fault (EvThreshold _ (Inl (PortOther _))) = True"
| "is_fault (EvFee _ (Inl (PortOther _))) = True"
| "is_fault (EvSubmit _ _ _ (Inl (PortOther _))) = True"
| "is_fault _ = False"

fun is_mismatch :: "bytes32 \<Rightarrow> claim_event \<Rightarrow> bool" where
  "is_mismatch own (EvEntry _ _ (Inr (Some entry))) = (oe_payout_puzzle_hash entry \<noteq> own)"
| "is_mismatch own _ = False"

definition on_record :: "claim_engine \<Rightarrow> claim_status \<Rightarrow> claim_status \<Rightarrow> claim_event list \<Rightarrow> bool" where
  "on_record e st st' evs \<longleftrightarrow>
     (fault_reported st \<longrightarrow> fault_reported st')
     \<and> (\<not> fault_reported st' \<longrightarrow> (\<forall>ev \<in> set evs. \<not> is_fault ev))
     \<and> payout_hash_mismatches_this_cycle st \<le> payout_hash_mismatches_this_cycle st'
     \<and> (payout_hash_mismatches_this_cycle st' = payout_hash_mismatches_this_cycle st \<longrightarrow>
          (\<forall>ev \<in> set evs. \<not> is_mismatch (ce_own_payout_puzzle_hash e) ev))"

lemma on_record_Nil: "on_record e st st []"
  by (simp add: on_record_def)

lemma on_record_append:
  "on_record e st st1 xs \<Longrightarrow> on_record e st1 st2 ys \<Longrightarrow> on_record e st st2 (xs @ ys)"
  by (auto simp: on_record_def)

lemma pre_budget_on_record:
  "evaluate_pre_budget env e lid st w = (r, st', w') \<Longrightarrow> adds (on_record e st st') w w'"
  by (auto simp: evaluate_pre_budget_def Let_def adds_def on_record_def noted_def
      split: sum.splits claim_port_error.splits option.splits if_splits)

lemma mark_unavailable_on_record: "on_record e st (mark_unavailable st') evs = on_record e st st' evs"
  by (simp add: on_record_def mark_unavailable_def)

lemma pre_budget_pass_on_record:
  "pre_budget_pass env e ids ct st w = (r, ct', st', w') \<Longrightarrow> adds (on_record e st st') w w'"
proof (induction ids arbitrary: ct st w)
  case Nil
  then show ?case by (auto simp: adds_def on_record_Nil)
next
  case (Cons lid ids)
  obtain q st1 w1 where step: "evaluate_pre_budget env e lid st w = (q, st1, w1)"
    by (metis prod_cases3)
  have "adds (on_record e st1 st') w1 w'"
  proof (cases "q = PreUnavailable")
    case True
    with Cons.prems step show ?thesis
      by (auto simp: adds_def mark_unavailable_on_record on_record_Nil)
  next
    case False
    with Cons.prems step have "pre_budget_pass env e ids (tally_pre q lid ct) st1 w1 = (r, ct', st', w')"
      by (cases q) auto
    then show ?thesis by (rule Cons.IH)
  qed
  with pre_budget_on_record [OF step] show ?case by (rule adds_trans) (rule on_record_append)
qed

text \<open>Saves are neither faults nor mismatches.\<close>

fun is_write :: "claim_event \<Rightarrow> bool" where
  "is_write (EvSave _) = True"
| "is_write (EvSaveFailed _) = True"
| "is_write _ = False"

lemma is_write_silent: "is_write ev \<Longrightarrow> \<not> is_fault ev \<and> \<not> is_mismatch own ev"
  by (cases ev) auto

lemma persist_writes: "adds (list_all is_write) w (persist_fee_window env e win w)"
proof (cases "ce_armed e \<and> \<not> rc_corrupt (claim_load_from (cw_disk w))")
  case False
  then show ?thesis by (auto simp: persist_fee_window_def Let_def adds_def)
next
  case True
  then show ?thesis
    by (cases "save_succeeds env (cw_log w)")
      (auto simp: persist_fee_window_def claim_save_to_def noted_def Let_def adds_def)
qed

lemma precommit_writes: "precommit_fee env e fee (bs, w) = (bs', w') \<Longrightarrow> adds (list_all is_write) w w'"
  using persist_writes by (auto simp: precommit_fee_def Let_def adds_def split: if_splits)

lemma uncommit_writes: "uncommit_fee env e fee (bs, w) = (bs', w') \<Longrightarrow> adds (list_all is_write) w w'"
  using persist_writes by (auto simp: uncommit_fee_def Let_def adds_def split: if_splits)

lemma finish_writes:
  "finish_cycle env e now failed any ct win st w = (e', w') \<Longrightarrow> adds (list_all is_write) w w'"
  using persist_writes by (auto simp: finish_cycle_def Let_def adds_def split: if_splits)

text \<open>The shape of a submission's trace.\<close>

lemma submit_phase_events:
  assumes "submit_phase env e lid fee bs st w = (r, bs', st', w')"
  obtains xs answer ys where
    "cw_log w' = cw_log w @ xs @ EvSubmit lid (ce_own_payout_puzzle_hash e) fee answer # ys"
    "list_all is_write xs" "list_all is_write ys"
    "fault_reported st \<longrightarrow> fault_reported st'"
    "fault_reported st' \<or> (\<nexists>m. answer = Inl (PortOther m))"
    "payout_hash_mismatches_this_cycle st' = payout_hash_mismatches_this_cycle st"
    "r = BudgetOutcome (Submitted lid) \<longrightarrow> answer = Inr ()"
    "answer = Inl PortUnavailable \<longrightarrow> r = BudgetUnavailable"
proof (rule submit_phase_shape [OF assms])
  fix bs1 w1 answer w2
  assume *: "precommit_fee env e fee (bs, w) = (bs1, w1)"
    "w2 = noted (EvSubmit lid (ce_own_payout_puzzle_hash e) fee answer) w1"
    "w' = w2 \<or> w' = snd (uncommit_fee env e fee (bs1, w2))"
    "(r = BudgetOutcome (Submitted lid) \<and> answer = Inr ()) \<or>
     (r = BudgetPanic \<or> r = BudgetUnavailable \<or> (\<exists>m. r = BudgetFault m (Some fee)))"
    "fault_reported st' \<longleftrightarrow> fault_reported st \<or> (\<exists>m. r = BudgetFault m (Some fee))"
    "fault_reported st' \<or> (\<nexists>m. answer = Inl (PortOther m))"
    "payout_hash_mismatches_this_cycle st' = payout_hash_mismatches_this_cycle st"
    "answer = Inl PortUnavailable \<longrightarrow> r = BudgetUnavailable"
  obtain xs where xs: "cw_log w1 = cw_log w @ xs" "list_all is_write xs"
    using precommit_writes [OF *(1)] by (auto simp: adds_def)
  have "adds (list_all is_write) w2 w'"
    using *(3) uncommit_writes [of env e fee bs1 w2]
    by (cases "uncommit_fee env e fee (bs1, w2)") (auto simp: adds_def)
  then obtain ys where ys: "cw_log w' = cw_log w2 @ ys" "list_all is_write ys" by (auto simp: adds_def)
  show thesis
    by (rule that [of xs answer ys]) (use xs ys * in auto)
qed

lemma budget_phase_on_record:
  assumes "evaluate_budget_phase env e lid bs st w = (r, bs', st', w')"
  shows "adds (on_record e st st') w w'"
  using assms
proof (cases rule: budget_phase_cases)
  case (submit fee)
  then obtain xs answer ys where
    "cw_log w' = cw_log (noted (EvFee lid (Inr fee)) w)
       @ xs @ EvSubmit lid (ce_own_payout_puzzle_hash e) fee answer # ys"
    and writes: "list_all is_write xs" "list_all is_write ys"
    and st': "fault_reported st \<longrightarrow> fault_reported st'"
      "fault_reported st' \<or> (\<nexists>m. answer = Inl (PortOther m))"
      "payout_hash_mismatches_this_cycle st' = payout_hash_mismatches_this_cycle st"
    by (elim submit_phase_events) blast
  moreover have "on_record e st st'
    (EvFee lid (Inr fee) # xs @ EvSubmit lid (ce_own_payout_puzzle_hash e) fee answer # ys)"
  proof -
    have "\<not> is_fault (EvSubmit lid h fee answer)" if "\<nexists>m. answer = Inl (PortOther m)" for h
      using that by (cases answer) (auto elim: claim_port_error.exhaust is_fault.elims)
    with writes st' show ?thesis
      by (auto simp: on_record_def list_all_iff dest: is_write_silent)
  qed
  ultimately show ?thesis by (auto simp: adds_def)
qed (auto simp: adds_def on_record_def)

lemma budget_pass_on_record:
  "budget_pass env e claims ct bs st w = (r, ct', bs', st', w') \<Longrightarrow> adds (on_record e st st') w w'"
proof (induction claims arbitrary: ct bs st w)
  case Nil
  then show ?case by (auto simp: adds_def on_record_Nil)
next
  case (Cons claim claims)
  obtain q bs1 st1 w1 where step: "evaluate_budget_phase env e (fst claim) bs st w = (q, bs1, st1, w1)"
    by (metis prod_cases4)
  have "adds (on_record e st1 st') w1 w'"
    using Cons step
    by (cases q) (auto simp: adds_def mark_unavailable_on_record on_record_Nil)
  with budget_phase_on_record [OF step] show ?case by (rule adds_trans) (rule on_record_append)
qed

lemma add_hints_on_record:
  "add_hints env hints ids st w = (ids', st', w') \<Longrightarrow> adds (on_record e st st') w w'"
proof (induction hints arbitrary: ids st w)
  case Nil
  then show ?case by (auto simp: adds_def on_record_Nil)
next
  case (Cons hint hints)
  define answer where "answer = resolve_launch_comment env (cw_log w) hint"
  define w1 where "w1 = noted (EvResolve hint answer) w"
  consider (known) "add_hints env hints ids st w = (ids', st', w')"
    | (asked) ids1 where "add_hints env hints ids1 st w1 = (ids', st', w')" "\<nexists>m. answer = Inl (PortOther m)"
    | (fault) "add_hints env hints ids (st\<lparr>fault_reported := True\<rparr>) w1 = (ids', st', w')"
    using Cons.prems
    by (auto simp: Let_def answer_def [symmetric] w1_def
        split: if_splits sum.splits option.splits claim_port_error.splits)
  then show ?case
  proof cases
    case known
    then show ?thesis by (rule Cons.IH)
  next
    case asked
    have "\<not> is_fault (EvResolve hint answer)"
      using asked(2) by (cases answer) (auto elim: claim_port_error.exhaust is_fault.elims)
    then have "adds (on_record e st st) w w1"
      by (auto simp: adds_def w1_def on_record_def)
    from this Cons.IH [OF asked(1)] show ?thesis by (rule adds_trans) (rule on_record_append)
  next
    case fault
    have "adds (on_record e st (st\<lparr>fault_reported := True\<rparr>)) w w1"
      by (auto simp: adds_def w1_def on_record_def)
    from this Cons.IH [OF fault] show ?thesis by (rule adds_trans) (rule on_record_append)
  qed
qed

lemma gather_on_record:
  assumes "gather env now found st w = (ids, st', w')"
  shows "adds (on_record e st st') w w'" and "found = None \<Longrightarrow> fault_reported st'"
proof -
  define st1 where "st1 = (case found of None \<Rightarrow> st\<lparr>fault_reported := True\<rparr>
    | Some _ \<Rightarrow> st\<lparr>last_discovery_at := Some now\<rparr>)"
  define w1 where "w1 = noted (EvHints (hints_of env (cw_log w))) w"
  obtain ids0 st2 where h: "add_hints env (hints_of env (cw_log w)) ids0 st1 w1 = (ids, st2, w')"
    and st': "st' = st2\<lparr>distributors_known := as_u32 (length ids)\<rparr>"
    using assms by (auto simp: gather_def Let_def st1_def w1_def split: prod.splits)
  have "adds (on_record e st st1) w w1"
    by (auto simp: adds_def w1_def st1_def on_record_def split: option.splits)
  from this add_hints_on_record [OF h] have "adds (on_record e st st2) w w'"
    by (rule adds_trans) (rule on_record_append)
  then show "adds (on_record e st st') w w'" by (simp add: st' adds_def on_record_def)
  have "fault_reported st1 \<longrightarrow> fault_reported st2"
    using add_hints_on_record [OF h] by (auto simp: adds_def on_record_def)
  then show "found = None \<Longrightarrow> fault_reported st'" by (simp add: st' st1_def)
qed

section \<open>Outages end the cycle\<close>

text \<open>
  An outage is a call that answered \<open>Unavailable\<close>. The engine gives the cycle up at the first one, except
  while it resolves a hint: there it drops the hint and goes on.
\<close>

fun is_outage :: "claim_event \<Rightarrow> bool" where
  "is_outage (EvResolve _ _) = False"
| "is_outage ev = (port_error ev = Some PortUnavailable)"

lemma port_error_cases:
  assumes "port_error ev = Some err" "\<not> is_fault ev" "\<not> is_outage ev"
  shows "\<exists>hint. ev = EvResolve hint (Inl PortUnavailable)"
  using assms by (cases ev rule: port_error.cases; cases err) auto

definition no_outage :: "claim_event list \<Rightarrow> bool" where
  "no_outage evs \<longleftrightarrow> (\<forall>ev \<in> set evs. \<not> is_outage ev)"

lemma no_outage_simps [simp]:
  "no_outage []" "no_outage (ev # evs) \<longleftrightarrow> \<not> is_outage ev \<and> no_outage evs"
  "no_outage (xs @ ys) \<longleftrightarrow> no_outage xs \<and> no_outage ys"
  by (auto simp: no_outage_def)

lemma writes_no_outage: "list_all is_write evs \<Longrightarrow> no_outage evs"
proof (induction evs)
  case (Cons ev evs)
  then show ?case by (cases ev) auto
qed simp

lemma adds_no_outage_trans: "adds no_outage w w1 \<Longrightarrow> adds no_outage w1 w2 \<Longrightarrow> adds no_outage w w2"
  by (erule (1) adds_trans) simp

lemma pre_budget_no_outage:
  "evaluate_pre_budget env e lid st w = (r, st', w') \<Longrightarrow> r \<noteq> PreUnavailable \<Longrightarrow> adds no_outage w w'"
  by (auto simp: evaluate_pre_budget_def Let_def adds_def noted_def
      split: sum.splits claim_port_error.splits option.splits if_splits)

lemma pre_budget_pass_no_outage:
  "pre_budget_pass env e ids ct st w = (LoopDone, ct', st', w') \<Longrightarrow> adds no_outage w w'"
proof (induction ids arbitrary: ct st w)
  case (Cons lid ids)
  obtain q st1 w1 where step: "evaluate_pre_budget env e lid st w = (q, st1, w1)" by (metis prod_cases3)
  with Cons.prems have q: "q \<noteq> PreUnavailable" by auto
  with Cons.prems step have "pre_budget_pass env e ids (tally_pre q lid ct) st1 w1 = (LoopDone, ct', st', w')"
    by (cases q) auto
  with pre_budget_no_outage [OF step q] Cons.IH show ?case by (blast intro: adds_no_outage_trans)
qed (simp add: adds_def)

lemma budget_phase_no_outage:
  assumes "evaluate_budget_phase env e lid bs st w = (r, bs', st', w')" "r \<noteq> BudgetUnavailable"
  shows "adds no_outage w w'"
  using assms(1)
proof (cases rule: budget_phase_cases)
  case (submit fee)
  then obtain xs answer ys where
    "cw_log w' = cw_log (noted (EvFee lid (Inr fee)) w)
       @ xs @ EvSubmit lid (ce_own_payout_puzzle_hash e) fee answer # ys"
    and writes: "list_all is_write xs" "list_all is_write ys"
    and r: "answer = Inl PortUnavailable \<longrightarrow> r = BudgetUnavailable"
    by (elim submit_phase_events) blast
  moreover have "port_error (EvSubmit lid (ce_own_payout_puzzle_hash e) fee answer) \<noteq> Some PortUnavailable"
    using r assms(2) by (cases answer) auto
  ultimately show ?thesis using writes_no_outage by (auto simp: adds_def)
qed (use assms(2) in \<open>auto simp: adds_def\<close>)

lemma budget_pass_no_outage:
  "budget_pass env e claims ct bs st w = (LoopDone, ct', bs', st', w') \<Longrightarrow> adds no_outage w w'"
proof (induction claims arbitrary: ct bs st w)
  case (Cons claim claims)
  obtain q bs1 st1 w1 where step: "evaluate_budget_phase env e (fst claim) bs st w = (q, bs1, st1, w1)"
    by (metis prod_cases4)
  with Cons.prems have q: "q \<noteq> BudgetUnavailable" by auto
  have "adds no_outage w1 w'" using Cons step by (cases q) auto
  with budget_phase_no_outage [OF step q] show ?case by (rule adds_no_outage_trans)
qed (simp add: adds_def)

lemma add_hints_no_outage: "add_hints env hints ids st w = (ids', st', w') \<Longrightarrow> adds no_outage w w'"
proof (induction hints arbitrary: ids st w)
  case (Cons hint hints)
  define w1 where "w1 = noted (EvResolve hint (resolve_launch_comment env (cw_log w) hint)) w"
  have "adds no_outage w w1" by (auto simp: adds_def w1_def)
  moreover have "adds no_outage w w' \<or> adds no_outage w1 w'"
    using Cons.prems Cons.IH
    by (auto simp: Let_def w1_def split: if_splits sum.splits option.splits claim_port_error.splits)
  ultimately show ?case using adds_no_outage_trans by blast
qed (simp add: adds_def)

lemma gather_no_outage: "gather env now found st w = (ids, st', w') \<Longrightarrow> adds no_outage w w'"
proof -
  define w1 where "w1 = noted (EvHints (hints_of env (cw_log w))) w"
  assume "gather env now found st w = (ids, st', w')"
  then obtain ids0 st1 st2 where "add_hints env (hints_of env (cw_log w)) ids0 st1 w1 = (ids, st2, w')"
    by (auto simp: gather_def Let_def w1_def split: prod.splits)
  from add_hints_no_outage [OF this] show ?thesis by (auto simp: adds_def w1_def)
qed

section \<open>Every earned claim is found\<close>

fun read_id :: "claim_event \<Rightarrow> bytes32 option" where
  "read_id (EvEntry lid _ _) = Some lid"
| "read_id (EvThreshold lid _) = Some lid"
| "read_id _ = None"

definition reads_of :: "bytes32 set \<Rightarrow> claim_event list \<Rightarrow> bool" where
  "reads_of ids evs \<longleftrightarrow> (\<forall>ev \<in> set evs. \<forall>lid. read_id ev = Some lid \<longrightarrow> lid \<in> ids)"

text \<open>Whoever was read to have earned its threshold is in the list.\<close>

definition earned :: "claim_engine \<Rightarrow> claim_event list \<Rightarrow> bytes32 \<Rightarrow> nat \<Rightarrow> bool" where
  "earned e evs lid accrued \<longleftrightarrow>
     (\<exists>h entry threshold. EvEntry lid h (Inr (Some entry)) \<in> set evs
        \<and> oe_payout_puzzle_hash entry = ce_own_payout_puzzle_hash e
        \<and> oe_accrued_base_units entry = accrued
        \<and> EvThreshold lid (Inr threshold) \<in> set evs \<and> threshold \<le> accrued)"

lemma earned_reads: "earned e evs lid accrued \<Longrightarrow> reads_of ids evs \<Longrightarrow> lid \<in> ids"
  unfolding earned_def reads_of_def by fastforce

lemma earned_append:
  assumes "earned e (xs @ ys) lid accrued" "reads_of A xs" "reads_of B ys" "A \<inter> B = {}"
  shows "earned e xs lid accrued \<or> earned e ys lid accrued"
proof -
  from assms(1) obtain h entry threshold where
    *: "EvEntry lid h (Inr (Some entry)) \<in> set xs \<union> set ys"
      "EvThreshold lid (Inr threshold) \<in> set xs \<union> set ys"
      "oe_payout_puzzle_hash entry = ce_own_payout_puzzle_hash e"
      "oe_accrued_base_units entry = accrued" "threshold \<le> accrued"
    unfolding earned_def by auto
  have "lid \<notin> A \<or> lid \<notin> B" using assms(4) by blast
  with * assms(2, 3) show ?thesis
    unfolding earned_def reads_of_def by fastforce
qed

lemma reads_of_silent: "\<forall>ev \<in> set evs. read_id ev = None \<Longrightarrow> reads_of A evs"
  by (simp add: reads_of_def)

text \<open>Events that read no slot and no threshold do not matter.\<close>

lemma earned_within:
  assumes "earned e (us @ xs @ ys @ zs) lid accrued" "reads_of {} us" "reads_of {} ys" "reads_of {} zs"
  shows "earned e xs lid accrued"
  using assms unfolding earned_def reads_of_def by fastforce

lemma pre_budget_reads:
  "evaluate_pre_budget env e lid st w = (r, st', w') \<Longrightarrow>
     adds (\<lambda>evs. reads_of {lid} evs
        \<and> (\<forall>lid' accrued. earned e evs lid' accrued \<longrightarrow> r \<noteq> PreUnavailable \<longrightarrow> r = Eligible lid' accrued)) w w'"
  by (auto simp: evaluate_pre_budget_def Let_def adds_def reads_of_def earned_def noted_def
      split: sum.splits claim_port_error.splits option.splits if_splits)

lemma pre_budget_pass_reads:
  "pre_budget_pass env e ids ct st w = (LoopDone, ct', st', w') \<Longrightarrow> distinct ids \<Longrightarrow>
     adds (\<lambda>evs. reads_of (set ids) evs
        \<and> (\<forall>lid accrued. earned e evs lid accrued \<longrightarrow> (lid, accrued) \<in> set (ct_eligible ct'))) w w'
     \<and> set (ct_eligible ct) \<subseteq> set (ct_eligible ct')"
proof (induction ids arbitrary: ct st w)
  case Nil
  then show ?case by (auto simp: adds_def reads_of_def earned_def)
next
  case (Cons lid ids)
  obtain q st1 w1 where step: "evaluate_pre_budget env e lid st w = (q, st1, w1)"
    by (metis prod_cases3)
  have q: "q \<noteq> PreUnavailable" using Cons.prems step by auto
  then have rest: "pre_budget_pass env e ids (tally_pre q lid ct) st1 w1 = (LoopDone, ct', st', w')"
    using Cons.prems step by (cases q) auto
  have IH: "adds (\<lambda>evs. reads_of (set ids) evs
      \<and> (\<forall>lid accrued. earned e evs lid accrued \<longrightarrow> (lid, accrued) \<in> set (ct_eligible ct'))) w1 w'"
    and sub: "set (ct_eligible (tally_pre q lid ct)) \<subseteq> set (ct_eligible ct')"
    using Cons.IH [OF rest] Cons.prems(2) by auto
  have head: "q = Eligible lid' accrued \<Longrightarrow> (lid', accrued) \<in> set (ct_eligible ct')" for lid' accrued
    using sub by (auto simp: tally_pre_eligible)
  have "set (ct_eligible ct) \<subseteq> set (ct_eligible ct')"
    using sub by (auto simp: tally_pre_eligible)
  moreover have "adds (\<lambda>evs. reads_of (set (lid # ids)) evs
      \<and> (\<forall>lid accrued. earned e evs lid accrued \<longrightarrow> (lid, accrued) \<in> set (ct_eligible ct'))) w w'"
    using pre_budget_reads [OF step] IH
  proof (rule adds_trans, intro conjI allI impI)
    fix xs ys lid' accrued
    assume *: "reads_of {lid} xs \<and> (\<forall>lid' accrued. earned e xs lid' accrued \<longrightarrow>
        q \<noteq> PreUnavailable \<longrightarrow> q = Eligible lid' accrued)"
      "reads_of (set ids) ys \<and> (\<forall>lid accrued. earned e ys lid accrued \<longrightarrow>
        (lid, accrued) \<in> set (ct_eligible ct'))"
    then show "reads_of (set (lid # ids)) (xs @ ys)" by (auto simp: reads_of_def)
    assume "earned e (xs @ ys) lid' accrued"
    then have "earned e xs lid' accrued \<or> earned e ys lid' accrued"
      by (rule earned_append [of _ _ _ _ _ "{lid}" "set ids"]) (use * Cons.prems(2) in auto)
    with * q head show "(lid', accrued) \<in> set (ct_eligible ct')" by blast
  qed
  ultimately show ?case by blast
qed

section \<open>Every paid claim is counted\<close>

lemma budget_phase_paid:
  assumes "evaluate_budget_phase env e lid bs st w = (r, bs', st', w')"
  shows "adds (\<lambda>evs. (\<forall>ev \<in> set evs. read_id ev = None)
    \<and> (r = BudgetOutcome (Submitted lid) \<longrightarrow>
         (\<exists>fee. EvSubmit lid (ce_own_payout_puzzle_hash e) fee (Inr ()) \<in> set evs))) w w'"
  using assms
proof (cases rule: budget_phase_cases)
  case (submit fee)
  then obtain xs answer ys where
    "cw_log w' = cw_log (noted (EvFee lid (Inr fee)) w)
       @ xs @ EvSubmit lid (ce_own_payout_puzzle_hash e) fee answer # ys"
    and writes: "list_all is_write xs" "list_all is_write ys"
    and r: "r = BudgetOutcome (Submitted lid) \<longrightarrow> answer = Inr ()"
    by (elim submit_phase_events) blast
  moreover have "read_id ev = None" if "is_write ev" for ev
    using that by (cases ev) auto
  ultimately show ?thesis
    by (auto simp: adds_def list_all_iff)
qed (auto simp: adds_def)

lemma tally_budget_counts:
  "ct_eligible (tally_budget r lid ct) = ct_eligible ct"
  "ct_submitted (tally_budget r lid ct) =
     ct_submitted ct + length (filter is_paid (case result_outcome lid r of None \<Rightarrow> [] | Some x \<Rightarrow> [x]))"
  by (cases r; auto simp: add_fault_def add_outcome_def split: claim_outcome.splits)+

lemma budget_pass_counts:
  "budget_pass env e claims ct bs st w = (LoopDone, ct', bs', st', w') \<Longrightarrow>
     ct_eligible ct' = ct_eligible ct
     \<and> (\<exists>n. ct_submitted ct' = ct_submitted ct + n \<and> n \<le> length claims
          \<and> adds (\<lambda>evs. (\<forall>ev \<in> set evs. read_id ev = None) \<and> (n = length claims \<longrightarrow>
               (\<forall>c \<in> set claims. \<exists>fee.
                  EvSubmit (fst c) (ce_own_payout_puzzle_hash e) fee (Inr ()) \<in> set evs))) w w')"
proof (induction claims arbitrary: ct bs st w)
  case Nil
  then show ?case by (auto simp: adds_def)
next
  case (Cons claim claims)
  obtain q bs1 st1 w1 where step: "evaluate_budget_phase env e (fst claim) bs st w = (q, bs1, st1, w1)"
    by (metis prod_cases4)
  obtain outcome where out: "result_outcome (fst claim) q = Some outcome"
    using Cons.prems step by (cases q) auto
  have "budget_pass env e claims (tally_budget q (fst claim) ct) bs1 st1 w1 = (LoopDone, ct', bs', st', w')"
    using Cons.prems step by (cases q) auto
  from Cons.IH [OF this] obtain n where
    n: "ct_submitted ct' = ct_submitted ct + (if is_paid outcome then 1 else 0) + n" "n \<le> length claims"
      "ct_eligible ct' = ct_eligible ct"
    and IH: "adds (\<lambda>evs. (\<forall>ev \<in> set evs. read_id ev = None) \<and> (n = length claims \<longrightarrow>
       (\<forall>c \<in> set claims. \<exists>fee.
          EvSubmit (fst c) (ce_own_payout_puzzle_hash e) fee (Inr ()) \<in> set evs))) w1 w'"
    by (auto simp: tally_budget_counts out)
  define m where "m = (if is_paid outcome then 1 else 0) + n"
  have full: "is_paid outcome \<and> n = length claims" if "m = length (claim # claims)"
    using that n(2) by (auto simp: m_def split: if_splits)
  have paid: "is_paid outcome \<Longrightarrow> q = BudgetOutcome (Submitted (fst claim))"
    using out budget_phase_outcome(1) [OF step out] by (cases q; cases outcome) auto
  have "adds (\<lambda>evs. (\<forall>ev \<in> set evs. read_id ev = None) \<and> (m = length (claim # claims) \<longrightarrow>
       (\<forall>c \<in> set (claim # claims). \<exists>fee.
          EvSubmit (fst c) (ce_own_payout_puzzle_hash e) fee (Inr ()) \<in> set evs))) w w'"
    using budget_phase_paid [OF step] IH
    by (rule adds_trans) (use full paid in fastforce)
  moreover have "m \<le> length (claim # claims)" "ct_submitted ct' = ct_submitted ct + m"
    using n by (auto simp: m_def)
  ultimately show ?case using n(3) by blast
qed

section \<open>An honest report\<close>

lemma finish_state:
  assumes "finish_cycle env e now failed any ct win st w = (e', w')"
    and "loop_state (ce_status e') = Nominal"
  shows "\<not> fault_reported st"
    and "min (length (ct_eligible ct)) u32_max + payout_hash_mismatches_this_cycle st \<le> ct_submitted ct"
  using assms
  by (auto simp: finish_cycle_def compute_state_def Let_def split: if_splits)

lemma adds_all_trans:
  "adds (\<lambda>evs. \<forall>ev \<in> set evs. P ev) w w' \<Longrightarrow> adds (\<lambda>evs. \<forall>ev \<in> set evs. P ev) w' w'' \<Longrightarrow>
     adds (\<lambda>evs. \<forall>ev \<in> set evs. P ev) w w''"
  by (erule (1) adds_trans) auto

lemma add_hints_silent:
  "add_hints env hints ids st w = (ids', st', w') \<Longrightarrow> adds (\<lambda>evs. \<forall>ev \<in> set evs. read_id ev = None) w w'"
proof (induction hints arbitrary: ids st w)
  case Nil
  then show ?case by (auto simp: adds_def)
next
  case (Cons hint hints)
  define answer where "answer = resolve_launch_comment env (cw_log w) hint"
  define w1 where "w1 = noted (EvResolve hint answer) w"
  have "adds (\<lambda>evs. \<forall>ev \<in> set evs. read_id ev = None) w w1" by (auto simp: adds_def w1_def)
  moreover have "adds (\<lambda>evs. \<forall>ev \<in> set evs. read_id ev = None) w w'
      \<or> adds (\<lambda>evs. \<forall>ev \<in> set evs. read_id ev = None) w1 w'"
    using Cons.prems Cons.IH
    by (auto simp: Let_def answer_def [symmetric] w1_def
        split: if_splits sum.splits option.splits claim_port_error.splits)
  ultimately show ?case using adds_all_trans by blast
qed

lemma gather_silent:
  assumes "gather env now found st w = (ids, st', w')"
  shows "adds (\<lambda>evs. \<forall>ev \<in> set evs. read_id ev = None) w w'"
proof -
  define w1 where "w1 = noted (EvHints (hints_of env (cw_log w))) w"
  obtain ids0 st1 st2 where "add_hints env (hints_of env (cw_log w)) ids0 st1 w1 = (ids, st2, w')"
    using assms by (auto simp: gather_def Let_def w1_def split: prod.splits)
  from add_hints_silent [OF this] show ?thesis by (auto simp: adds_def w1_def)
qed

lemma pre_budget_pass_end:
  "pre_budget_pass env e ids ct st w = (r, ct', st', w') \<Longrightarrow>
     r = LoopDone \<or> r = LoopUnavailable \<and> loop_state st' = ChainSourceUnavailable"
proof (induction ids arbitrary: ct st w)
  case (Cons lid ids)
  obtain q st1 w1 where "evaluate_pre_budget env e lid st w = (q, st1, w1)" by (metis prod_cases3)
  with Cons show ?case by (cases q) (auto simp: mark_unavailable_def)
qed simp

lemma budget_pass_end:
  "budget_pass env e claims ct bs st w = (r, ct', bs', st', w') \<Longrightarrow>
     r = LoopDone \<or> r = LoopPanic \<or> r = LoopUnavailable \<and> loop_state st' = ChainSourceUnavailable"
proof (induction claims arbitrary: ct bs st w)
  case (Cons claim claims)
  obtain q bs1 st1 w1 where "evaluate_budget_phase env e (fst claim) bs st w = (q, bs1, st1, w1)"
    by (metis prod_cases4)
  with Cons show ?case by (cases q) (auto simp: mark_unavailable_def)
qed simp

lemma pre_budget_pass_submitted:
  "pre_budget_pass env e ids ct st w = (r, ct', st', w') \<Longrightarrow> ct_submitted ct' = ct_submitted ct"
proof (induction ids arbitrary: ct st w)
  case (Cons lid ids)
  obtain q st1 w1 where "evaluate_pre_budget env e lid st w = (q, st1, w1)" by (metis prod_cases3)
  with Cons show ?case by (cases q) (auto simp: add_fault_def add_outcome_def)
qed simp

lemma vetted_bound:
  assumes "distinct (map fst cs)" "\<forall>c \<in> set cs. vetted e evs c"
  shows "length cs \<le> length evs"
proof -
  let ?f = "\<lambda>c. EvReserve (fst c) (Inr (ce_dig_asset_id e))"
  have "distinct cs" and inj: "inj_on ?f (set cs)"
    using assms(1) by (auto simp: distinct_map inj_on_def)
  then have "length cs = card (set (map ?f cs))"
    by (simp add: card_image distinct_card)
  also have "\<dots> \<le> card (set evs)"
    using assms(2) by (intro card_mono) (auto simp: vetted_def)
  also have "\<dots> \<le> length evs" by (rule card_length)
  finally show ?thesis .
qed

text \<open>A nominal cycle went through all of its phases.\<close>

lemma evaluate_all_phases:
  assumes run: "evaluate_all env e now win found st w = (Some outs, e', w')"
    and nominal: "loop_state (ce_status e') = Nominal"
  obtains ids st1 w1 ct st2 w2 bs ct' bs' st3 w3 where
    "gather env now found st w = (ids, st1, w1)"
    "pre_budget_pass env e ids tally_new st1 w1 = (LoopDone, ct, st2, w2)"
    "budget_pass env e (order_for_budget e (ct_eligible ct)) ct bs st2 w2 = (LoopDone, ct', bs', st3, w3)"
    "finish_cycle env e now (found = None) (ids \<noteq> []) ct' (bs_window bs') st3 w3 = (e', w')"
proof -
  obtain ids st1 w1 where g: "gather env now found st w = (ids, st1, w1)" by (metis prod_cases3)
  obtain pr ct st2 w2 where q: "pre_budget_pass env e ids tally_new st1 w1 = (pr, ct, st2, w2)"
    by (metis prod_cases4)
  have pr: "pr = LoopDone"
    using pre_budget_pass_end [OF q] run nominal by (auto simp: evaluate_all_def g q)
  define bs where "bs = \<lparr>bs_spent_this_cycle_mojos = (if ce_armed e then fw_spent_mojos win else 0),
    bs_budget_exhausted = False, bs_window = win\<rparr>"
  obtain br ct' bs' st3 w3 where b:
    "budget_pass env e (order_for_budget e (ct_eligible ct)) ct bs st2 w2 = (br, ct', bs', st3, w3)"
    by (metis prod_cases5)
  have br: "br = LoopDone"
    using budget_pass_end [OF b] run nominal pr b
    by (auto simp: evaluate_all_def g q bs_def [symmetric])
  have "finish_cycle env e now (found = None) (ids \<noteq> []) ct' (bs_window bs') st3 w3 = (e', w')"
    using run pr br b by (auto simp: evaluate_all_def g q bs_def [symmetric] split: prod.splits)
  with that g q pr b br show thesis by blast
qed

lemma evaluate_all_nominal:
  assumes run: "evaluate_all env e now win found st w = (Some outs, e', w')"
    and nominal: "loop_state (ce_status e') = Nominal"
    and fresh: "payout_hash_mismatches_this_cycle st = 0"
  shows "found \<noteq> None \<and> adds (\<lambda>evs. length evs \<le> u32_max \<longrightarrow>
      (\<forall>ev \<in> set evs. \<not> is_fault ev \<and> \<not> is_outage ev \<and> \<not> is_mismatch (ce_own_payout_puzzle_hash e) ev)
      \<and> (\<forall>lid accrued. earned e evs lid accrued \<longrightarrow>
           (\<exists>fee. EvSubmit lid (ce_own_payout_puzzle_hash e) fee (Inr ()) \<in> set evs))) w w'"
  using run nominal
proof (rule evaluate_all_phases)
  fix ids st1 w1 ct st2 w2 bs ct' bs' st3 w3
  assume g: "gather env now found st w = (ids, st1, w1)"
    and q: "pre_budget_pass env e ids tally_new st1 w1 = (LoopDone, ct, st2, w2)"
    and b: "budget_pass env e (order_for_budget e (ct_eligible ct)) ct bs st2 w2
      = (LoopDone, ct', bs', st3, w3)"
    and f: "finish_cycle env e now (found = None) (ids \<noteq> []) ct' (bs_window bs') st3 w3 = (e', w')"
  obtain us where us: "cw_log w1 = cw_log w @ us" "on_record e st st1 us" "reads_of {} us" "no_outage us"
    using gather_on_record(1) [OF g, of e] gather_silent [OF g] gather_no_outage [OF g]
    by (auto simp: adds_def reads_of_def)
  obtain new where elig: "ct_eligible ct = new" "subseq (map fst new) ids"
      "adds (\<lambda>evs. \<forall>c \<in> set new. vetted e evs c) w1 w2"
    using pre_budget_pass_eligible [OF q] by (auto simp: tally_new_def)
  obtain xs where xs: "cw_log w2 = cw_log w1 @ xs" "on_record e st1 st2 xs"
      "\<forall>c \<in> set new. vetted e xs c" "reads_of (set ids) xs"
      "\<forall>lid accrued. earned e xs lid accrued \<longrightarrow> (lid, accrued) \<in> set new" "no_outage xs"
    using pre_budget_pass_on_record [OF q] pre_budget_pass_no_outage [OF q] elig(1, 3) pre_budget_pass_reads [OF q gather_distinct [OF g]]
    by (auto simp: adds_def)
  obtain n ys where ys: "cw_log w3 = cw_log w2 @ ys" "on_record e st2 st3 ys" "reads_of {} ys"
      "ct_submitted ct' = n" "n \<le> length new" "ct_eligible ct' = new"
      "n = length new \<longrightarrow> (\<forall>c \<in> set new. \<exists>fee.
         EvSubmit (fst c) (ce_own_payout_puzzle_hash e) fee (Inr ()) \<in> set ys)" "no_outage ys"
    using budget_pass_on_record [OF b] budget_pass_no_outage [OF b] budget_pass_counts [OF b] pre_budget_pass_submitted [OF q]
      elig(1) order_perm [of e new, THEN mset_eq_length]
    by (auto simp: adds_def reads_of_def tally_new_def)
  obtain zs where zs: "cw_log w' = cw_log w3 @ zs" "list_all is_write zs"
    using finish_writes [OF f] by (auto simp: adds_def)
  have writes: "\<not> is_fault ev \<and> \<not> is_outage ev \<and> \<not> is_mismatch h ev \<and> read_id ev = None" if "ev \<in> set zs" for ev h
    using zs(2) that by (cases ev) (auto simp: list_all_iff)
  have calm: "\<not> fault_reported st3" and short: "min (length new) u32_max
      + payout_hash_mismatches_this_cycle st3 \<le> n"
    using finish_state [OF f nominal] ys(4, 6) by auto
  have rec: "on_record e st st3 (us @ xs @ ys)"
    using us(2) xs(2) ys(2) by (intro on_record_append)
  have "found \<noteq> None"
    using gather_on_record(2) [OF g] rec us(2) xs(2) ys(2) calm by (auto simp: on_record_def)
  moreover have "cw_log w' = cw_log w @ (us @ xs @ ys @ zs)" using us xs ys zs by simp
  moreover have "(\<forall>ev \<in> set (us @ xs @ ys @ zs).
        \<not> is_fault ev \<and> \<not> is_outage ev \<and> \<not> is_mismatch (ce_own_payout_puzzle_hash e) ev)
      \<and> (\<forall>lid accrued. earned e (us @ xs @ ys @ zs) lid accrued \<longrightarrow>
           (\<exists>fee. EvSubmit lid (ce_own_payout_puzzle_hash e) fee (Inr ()) \<in> set (us @ xs @ ys @ zs)))"
    if small: "length (us @ xs @ ys @ zs) \<le> u32_max"
  proof (intro conjI allI impI)
    have "distinct (map fst new)" using elig(2) gather_distinct [OF g] by (rule subseq_distinct)
    with xs(3) have "length new \<le> length xs" by (intro vetted_bound)
    with small have "length new \<le> u32_max" by simp
    with short ys(5) have n: "n = length new" "payout_hash_mismatches_this_cycle st3 = 0"
      by auto
    then show "\<forall>ev \<in> set (us @ xs @ ys @ zs).
        \<not> is_fault ev \<and> \<not> is_outage ev \<and> \<not> is_mismatch (ce_own_payout_puzzle_hash e) ev"
      using rec calm fresh writes us(4) xs(6) ys(8) unfolding on_record_def no_outage_def by auto
    fix lid accrued
    assume "earned e (us @ xs @ ys @ zs) lid accrued"
    then have "earned e xs lid accrued"
      using us(3) ys(3) writes by (intro earned_within [of e us xs ys zs]) (auto simp: reads_of_def)
    with xs(5) ys(7) n(1) show
      "\<exists>fee. EvSubmit lid (ce_own_payout_puzzle_hash e) fee (Inr ()) \<in> set (us @ xs @ ys @ zs)"
      by fastforce
  qed
  ultimately show ?thesis unfolding adds_def by blast
qed

lemma fee_gate_writes: "fee_gate env e now w = (g, w') \<Longrightarrow> adds (list_all is_write) w w'"
proof -
  have "adds (list_all is_write) w (snd (fee_gate env e now w))"
    using persist_writes [of w env e]
    by (simp add: fee_gate_def Let_def) (auto simp: adds_def)
  then show "fee_gate env e now w = (g, w') \<Longrightarrow> adds (list_all is_write) w w'" by simp
qed

lemma run_cycle_cases [consumes 1, case_names stopped unavailable evaluated]:
  assumes run: "run_cycle env now e w = (r, e', w')"
  obtains s where "r = Some []" "e' = e\<lparr>ce_status := (begin_cycle now (ce_status e))\<lparr>loop_state := s\<rparr>\<rparr>"
      "fee_gate env e now w = (GateStop s, w')"
  | win w1 where "r = Some []" "e' = e\<lparr>ce_status := mark_unavailable (begin_cycle now (ce_status e))\<rparr>"
      "fee_gate env e now w = (GateOpen win, w1)"
      "w' = noted (EvDiscover (Inl PortUnavailable)) w1"
  | win w1 found where "fee_gate env e now w = (GateOpen win, w1)" "found \<noteq> Inl PortUnavailable"
      "evaluate_all env e now win (case found of Inl _ \<Rightarrow> None | Inr ds \<Rightarrow> Some ds)
         (begin_cycle now (ce_status e)) (noted (EvDiscover found) w1) = (r, e', w')"
proof -
  obtain g w1 where g: "fee_gate env e now w = (g, w1)" by force
  show thesis
  proof (cases g)
    case (GateStop s)
    with run g have "r = Some []" "e' = e\<lparr>ce_status := (begin_cycle now (ce_status e))\<lparr>loop_state := s\<rparr>\<rparr>"
      "w' = w1"
      by (simp_all add: run_cycle_def Let_def)
    with g GateStop that(1) show thesis by blast
  next
    case (GateOpen win)
    define found where "found = discover_distributors env (cw_log w1)"
    note unfolded = run [unfolded run_cycle_def Let_def g GateOpen prod.case cycle_gate.case,
        folded found_def]
    show thesis
    proof (cases "found = Inl PortUnavailable")
      case True
      with unfolded have "r = Some []"
        "e' = e\<lparr>ce_status := mark_unavailable (begin_cycle now (ce_status e))\<rparr>"
        "w' = noted (EvDiscover (Inl PortUnavailable)) w1"
        by simp_all
      with g GateOpen that(2) show thesis by blast
    next
      case False
      with unfolded have "evaluate_all env e now win (case found of Inl _ \<Rightarrow> None | Inr ds \<Rightarrow> Some ds)
         (begin_cycle now (ce_status e)) (noted (EvDiscover found) w1) = (r, e', w')"
        by (simp split: sum.splits claim_port_error.splits)
      with g GateOpen False that(3) show thesis by blast
    qed
  qed
qed

lemma fee_gate_states: "fee_gate env e now w = (GateStop s, w') \<Longrightarrow> s = PersistedStateCorrupt \<or> s = CadenceNotElapsed"
  by (auto simp: fee_gate_def Let_def split: if_splits)

lemma writes_silent:
  assumes "list_all is_write gs" "ev \<in> set gs"
  shows "\<not> is_fault ev \<and> \<not> is_outage ev \<and> \<not> is_mismatch h ev \<and> read_id ev = None"
  using assms by (cases ev) (auto simp: list_all_iff)

text \<open>
  C18: The engine reports \<open>Nominal\<close> only when it has done its work. In a cycle that ends in that state no
  chain call answered with an error, neither a fault nor an outage, with one exception: the code drops a
  hint it could not look up because the chain was unavailable, and says nothing of it. No entry slot that
  was read named another puzzle hash, and every distributor the cycle read to have accrued its payout
  threshold for this node has an accepted payout in the same cycle. The bound is the width of the
  counter of claimable distributors.
\<close>

theorem nominal_is_earned:
  assumes run: "run_cycle env now e w = (Some outs, e', w')"
    and nominal: "loop_state (ce_status e') = Nominal"
    and log: "cw_log w' = cw_log w @ evs" and small: "length evs \<le> u32_max"
  shows "(\<forall>ev \<in> set evs. (port_error ev = None \<or> (\<exists>hint. ev = EvResolve hint (Inl PortUnavailable)))
      \<and> \<not> is_mismatch (ce_own_payout_puzzle_hash e) ev)
    \<and> (\<forall>lid accrued. earned e evs lid accrued \<longrightarrow>
         (\<exists>fee. EvSubmit lid (ce_own_payout_puzzle_hash e) fee (Inr ()) \<in> set evs))"
  using run
proof (cases rule: run_cycle_cases)
  case (stopped s)
  with nominal fee_gate_states show ?thesis by force
next
  case (unavailable win w1)
  with nominal show ?thesis by (simp add: mark_unavailable_def)
next
  case (evaluated win w1 found)
  obtain gs where gs: "cw_log w1 = cw_log w @ gs" "list_all is_write gs"
    using fee_gate_writes [OF evaluated(1)] by (auto simp: adds_def)
  have "payout_hash_mismatches_this_cycle (begin_cycle now (ce_status e)) = 0"
    by (simp add: begin_cycle_def)
  from evaluate_all_nominal [OF evaluated(3) nominal this]
  obtain rest where ds: "\<exists>ds. found = Inr ds"
    and rest: "cw_log w' = cw_log (noted (EvDiscover found) w1) @ rest"
    and good: "length rest \<le> u32_max \<longrightarrow>
      (\<forall>ev \<in> set rest. \<not> is_fault ev \<and> \<not> is_outage ev \<and> \<not> is_mismatch (ce_own_payout_puzzle_hash e) ev)
      \<and> (\<forall>lid accrued. earned e rest lid accrued \<longrightarrow>
           (\<exists>fee. EvSubmit lid (ce_own_payout_puzzle_hash e) fee (Inr ()) \<in> set rest))"
    by (auto simp: adds_def split: sum.splits)
  have evs: "evs = (gs @ [EvDiscover found]) @ rest @ [] @ []" using log gs rest by simp
  have "earned e rest lid accrued" if "earned e evs lid accrued" for lid accrued
    using that unfolding evs
    by (rule earned_within) (auto simp: reads_of_def writes_silent [OF gs(2)])
  moreover have "length rest \<le> u32_max" using small by (simp add: evs)
  ultimately have paid: "\<exists>fee. EvSubmit lid (ce_own_payout_puzzle_hash e) fee (Inr ()) \<in> set rest"
      if "earned e evs lid accrued" for lid accrued
    using good that by blast
  show ?thesis
  proof (intro conjI allI impI)
    have "\<forall>ev \<in> set evs. \<not> is_fault ev \<and> \<not> is_outage ev \<and> \<not> is_mismatch (ce_own_payout_puzzle_hash e) ev"
      using good small ds by (auto simp: evs writes_silent [OF gs(2)])
    then show "\<forall>ev \<in> set evs. (port_error ev = None \<or> (\<exists>hint. ev = EvResolve hint (Inl PortUnavailable)))
        \<and> \<not> is_mismatch (ce_own_payout_puzzle_hash e) ev"
      using port_error_cases by (metis not_None_eq)
    fix lid accrued
    assume "earned e evs lid accrued"
    from paid [OF this] show
      "\<exists>fee. EvSubmit lid (ce_own_payout_puzzle_hash e) fee (Inr ()) \<in> set evs"
      by (auto simp: evs)
  qed
qed

text \<open>The first cycle of the fresh node of the sample is nominal, and paid.\<close>

lemma sample_cycle_nominal:
  "loop_state (ce_status (fst (snd (run_cycle sample_claim_env 100000 sample_engine
     \<lparr>cw_disk = ClaimFileAbsent, cw_log = []\<rparr>)))) = Nominal
   \<and> fst (run_cycle sample_claim_env 100000 sample_engine
       \<lparr>cw_disk = ClaimFileAbsent, cw_log = []\<rparr>) = Some [Submitted ''L'']
   \<and> length sample_trace = 10"
  by (simp add: sample_trace_def sample_engine_def sample_claim_env_def claim_eval)

text \<open>The exception is real: the same node, given a hint while the chain cannot be reached for it.\<close>

lemma hint_outage_unreported:
  "let env = sample_claim_env\<lparr>hints_of := (\<lambda>_. [''H'']), resolve_launch_comment := (\<lambda>_ _. Inl PortUnavailable)\<rparr>;
       (outs, e', w') = run_cycle env 100000 sample_engine \<lparr>cw_disk = ClaimFileAbsent, cw_log = []\<rparr>
   in loop_state (ce_status e') = Nominal \<and> EvResolve ''H'' (Inl PortUnavailable) \<in> set (cw_log w')"
  by (simp add: sample_engine_def sample_claim_env_def claim_eval)

theorem nominal_is_earned_witness:
  "earned sample_engine sample_trace ''L'' 1500
   \<and> (\<exists>fee. EvSubmit ''L'' (ce_own_payout_puzzle_hash sample_engine) fee (Inr ()) \<in> set sample_trace)"
proof -
  define w0 where "w0 = \<lparr>cw_disk = ClaimFileAbsent, cw_log = []\<rparr>"
  obtain r e' w' where run: "run_cycle sample_claim_env 100000 sample_engine w0 = (r, e', w')"
    by (metis prod_cases3)
  have *: "r = Some [Submitted ''L'']" "loop_state (ce_status e') = Nominal"
    "cw_log w' = cw_log w0 @ sample_trace" "length sample_trace \<le> u32_max"
    using sample_cycle_nominal run by (simp_all add: sample_trace_def w0_def)
  have earned: "earned sample_engine sample_trace ''L'' 1500"
    by (simp add: earned_def sample_trace_def sample_engine_def sample_claim_env_def claim_eval)
  from nominal_is_earned [OF run [unfolded *(1)] *(2-4)] earned show ?thesis by blast
qed

section \<open>A cycle that loses the chain\<close>

definition same_counts :: "claim_status \<Rightarrow> claim_status \<Rightarrow> bool" where
  "same_counts st st' \<longleftrightarrow>
     claims_submitted st' = claims_submitted st
     \<and> claims_submitted_this_cycle st' = claims_submitted_this_cycle st"

lemma pre_budget_counts:
  "evaluate_pre_budget env e lid st w = (r, st', w') \<Longrightarrow>
     same_counts st st' \<and> chain_unavailable_this_cycle st' = chain_unavailable_this_cycle st"
  by (auto simp: evaluate_pre_budget_def Let_def same_counts_def
      split: sum.splits claim_port_error.splits option.splits if_splits)

lemma mark_unavailable_counts: "same_counts st (mark_unavailable st') = same_counts st st'"
  by (simp add: same_counts_def mark_unavailable_def)

lemma pre_budget_pass_counts:
  "pre_budget_pass env e ids ct st w = (r, ct', st', w') \<Longrightarrow>
     same_counts st st' \<and> (r = LoopDone \<longrightarrow>
       chain_unavailable_this_cycle st' = chain_unavailable_this_cycle st)"
proof (induction ids arbitrary: ct st w)
  case (Cons lid ids)
  obtain q st1 w1 where step: "evaluate_pre_budget env e lid st w = (q, st1, w1)" by (metis prod_cases3)
  note one = pre_budget_counts [OF step]
  show ?case
  proof (cases "q = PreUnavailable")
    case True
    with Cons.prems step one show ?thesis by (auto simp: mark_unavailable_counts)
  next
    case False
    with Cons.prems step have "pre_budget_pass env e ids (tally_pre q lid ct) st1 w1 = (r, ct', st', w')"
      by (cases q) auto
    from Cons.IH [OF this] one show ?thesis by (auto simp: same_counts_def)
  qed
qed (auto simp: same_counts_def)

lemma budget_phase_counts:
  assumes "evaluate_budget_phase env e lid bs st w = (r, bs', st', w')"
  shows "same_counts st st' \<and> chain_unavailable_this_cycle st' = chain_unavailable_this_cycle st"
  using assms
proof (cases rule: budget_phase_cases)
  case (submit fee)
  then show ?thesis
    by (auto simp: submit_phase_def Let_def same_counts_def
        split: prod.splits sum.splits claim_port_error.splits option.splits)
qed (auto simp: same_counts_def)

lemma budget_pass_status:
  "budget_pass env e claims ct bs st w = (r, ct', bs', st', w') \<Longrightarrow>
     same_counts st st' \<and> (r = LoopDone \<longrightarrow>
       chain_unavailable_this_cycle st' = chain_unavailable_this_cycle st)"
proof (induction claims arbitrary: ct bs st w)
  case (Cons claim claims)
  obtain q bs1 st1 w1 where step: "evaluate_budget_phase env e (fst claim) bs st w = (q, bs1, st1, w1)"
    by (metis prod_cases4)
  note one = budget_phase_counts [OF step]
  show ?case
  proof (cases "q = BudgetUnavailable \<or> q = BudgetPanic")
    case True
    with Cons.prems step one show ?thesis by (auto simp: mark_unavailable_counts)
  next
    case False
    with Cons.prems step
    have "budget_pass env e claims (tally_budget q (fst claim) ct) bs1 st1 w1 = (r, ct', bs', st', w')"
      by (cases q) auto
    from Cons.IH [OF this] one show ?thesis by (auto simp: same_counts_def)
  qed
qed (auto simp: same_counts_def)

lemma add_hints_counts:
  "add_hints env hints ids st w = (ids', st', w') \<Longrightarrow>
     same_counts st st' \<and> chain_unavailable_this_cycle st' = chain_unavailable_this_cycle st"
proof (induction hints arbitrary: ids st w)
  case (Cons hint hints)
  from Cons.prems obtain ids1 st1 w1 where "add_hints env hints ids1 st1 w1 = (ids', st', w')"
    "same_counts st st1" "chain_unavailable_this_cycle st1 = chain_unavailable_this_cycle st"
    by (auto simp: Let_def same_counts_def
        split: if_splits sum.splits option.splits claim_port_error.splits)
  with Cons.IH show ?case by (fastforce simp: same_counts_def)
qed (auto simp: same_counts_def)

lemma gather_counts:
  assumes "gather env now found st w = (ids, st', w')"
  shows "same_counts st st' \<and> chain_unavailable_this_cycle st' = chain_unavailable_this_cycle st"
proof -
  obtain ids0 st1 st2 w1 hints where h: "add_hints env hints ids0 st1 w1 = (ids, st2, w')"
    and "st' = st2\<lparr>distributors_known := as_u32 (length ids)\<rparr>" "same_counts st st1"
      "chain_unavailable_this_cycle st1 = chain_unavailable_this_cycle st"
    using assms by (auto simp: gather_def Let_def same_counts_def split: prod.splits option.splits)
  with add_hints_counts [OF h] show ?thesis by (simp add: same_counts_def)
qed

lemma compute_state_unavailable:
  "compute_state st = ChainSourceUnavailable \<longleftrightarrow> chain_unavailable_this_cycle st"
  by (simp add: compute_state_def Let_def)

lemma finish_not_unavailable:
  assumes "finish_cycle env e now failed any ct win st w = (e', w')"
    and "\<not> chain_unavailable_this_cycle st"
  shows "loop_state (ce_status e') \<noteq> ChainSourceUnavailable"
  using assms by (auto simp: finish_cycle_def Let_def compute_state_unavailable)

lemma evaluate_all_unavailable:
  assumes run: "evaluate_all env e now win found st w = (Some outs, e', w')"
    and lost: "loop_state (ce_status e') = ChainSourceUnavailable"
    and fresh: "\<not> chain_unavailable_this_cycle st"
  shows "same_counts st (ce_status e')"
proof -
  obtain ids st1 w1 where g: "gather env now found st w = (ids, st1, w1)" by (metis prod_cases3)
  obtain pr ct st2 w2 where q: "pre_budget_pass env e ids tally_new st1 w1 = (pr, ct, st2, w2)"
    by (metis prod_cases4)
  define bs where "bs = \<lparr>bs_spent_this_cycle_mojos = (if ce_armed e then fw_spent_mojos win else 0),
    bs_budget_exhausted = False, bs_window = win\<rparr>"
  obtain br ct' bs' st3 w3 where b:
    "budget_pass env e (order_for_budget e (ct_eligible ct)) ct bs st2 w2 = (br, ct', bs', st3, w3)"
    by (metis prod_cases5)
  note counts = gather_counts [OF g] pre_budget_pass_counts [OF q] budget_pass_status [OF b]
  have "\<not> (pr = LoopDone \<and> br = LoopDone)"
  proof
    assume ends: "pr = LoopDone \<and> br = LoopDone"
    then have "finish_cycle env e now (found = None) (ids \<noteq> []) ct' (bs_window bs') st3 w3 = (e', w')"
      using run b by (auto simp: evaluate_all_def g q bs_def [symmetric] split: prod.splits)
    from finish_not_unavailable [OF this] lost counts fresh ends show False by simp
  qed
  then have "ce_status e' = st2 \<or> ce_status e' = st3"
    using run b by (cases pr; cases br) (auto simp: evaluate_all_def g q bs_def [symmetric])
  with counts show ?thesis by (auto simp: same_counts_def)
qed

text \<open>
  C40: A cycle that loses the chain forgets what it paid: whenever a cycle ends in
  \<open>ChainSourceUnavailable\<close>, the lifetime count of submitted claims is the one from before the cycle
  and the cycle's own count is zero, however many payouts the port accepted before it became
  unavailable. In the witness one payout was accepted.
\<close>

theorem lost_chain_loses_the_count:
  assumes run: "run_cycle env now e w = (Some outs, e', w')"
    and lost: "loop_state (ce_status e') = ChainSourceUnavailable"
  shows "claims_submitted (ce_status e') = claims_submitted (ce_status e)
    \<and> claims_submitted_this_cycle (ce_status e') = 0"
proof -
  let ?st = "begin_cycle now (ce_status e)"
  have st: "claims_submitted ?st = claims_submitted (ce_status e)" "claims_submitted_this_cycle ?st = 0"
    "\<not> chain_unavailable_this_cycle ?st"
    by (simp_all add: begin_cycle_def)
  have "same_counts ?st (ce_status e')"
    using run
  proof (cases rule: run_cycle_cases)
    case (evaluated win w1 found)
    from evaluate_all_unavailable [OF this(3) lost st(3)] show ?thesis .
  qed (simp_all add: same_counts_def mark_unavailable_def)
  with st show ?thesis by (simp add: same_counts_def)
qed

text \<open>Two distributors owe this node; the chain is lost after the first payout is accepted.\<close>

definition failing_env :: claim_env where
  "failing_env = sample_claim_env
     \<lparr>discover_distributors := (\<lambda>_. Inr [\<lparr>dd_launcher_id = ''K'', dd_store_id = ''S'', dd_root = ''R''\<rparr>,
                                     \<lparr>dd_launcher_id = ''L'', dd_store_id = ''S'', dd_root = ''R''\<rparr>]),
      required_fee_mojos := (\<lambda>evs _. if list_ex is_submit evs then Inl PortUnavailable else Inr 5000)\<rparr>"

definition failing_cycle :: "claim_outcome list option \<times> claim_engine \<times> claim_world" where
  "failing_cycle = run_cycle failing_env 100000 sample_engine \<lparr>cw_disk = ClaimFileAbsent, cw_log = []\<rparr>"

theorem lost_chain_loses_the_count_witness:
  "fst failing_cycle = Some [Submitted ''K'']
   \<and> EvSubmit ''K'' ''own'' 5000 (Inr ()) \<in> set (cw_log (snd (snd failing_cycle)))
   \<and> claims_submitted (ce_status (fst (snd failing_cycle))) = claims_submitted (ce_status sample_engine)"
proof -
  have *: "fst failing_cycle = Some [Submitted ''K'']"
    "EvSubmit ''K'' ''own'' 5000 (Inr ()) \<in> set (cw_log (snd (snd failing_cycle)))"
    "loop_state (ce_status (fst (snd failing_cycle))) = ChainSourceUnavailable"
    by (simp_all add: failing_cycle_def failing_env_def sample_engine_def sample_claim_env_def claim_eval
        rotation_key_def cursor_index_def position_def)
  obtain r e' w' where run: "failing_cycle = (r, e', w')" by (metis prod_cases3)
  have "run_cycle failing_env 100000 sample_engine \<lparr>cw_disk = ClaimFileAbsent, cw_log = []\<rparr>
      = (Some [Submitted ''K''], e', w')"
    using run *(1) unfolding failing_cycle_def by simp
  moreover have "loop_state (ce_status e') = ChainSourceUnavailable" using *(3) unfolding run by simp
  ultimately have "claims_submitted (ce_status e') = claims_submitted (ce_status sample_engine)"
    using lost_chain_loses_the_count by blast
  then show ?thesis using * unfolding run by simp
qed

section \<open>A budget the file does not have\<close>

text \<open>A file the loader refuses stops every cycle, and no cycle mends it.\<close>

lemma corrupt_stops:
  assumes "ce_armed e" "rc_corrupt (claim_load_from (cw_disk w))"
  shows "run_cycle env now e w = (Some [], e\<lparr>ce_status :=
    (begin_cycle now (ce_status e))\<lparr>loop_state := PersistedStateCorrupt\<rparr>\<rparr>, w)"
  using assms by (simp add: run_cycle_def fee_gate_def Let_def)

text \<open>
  C39: The engine keeps the fee budget it was built with, and the file may have a smaller one: the
  operator lowered it, or repaired a file that was unreadable when the driver started (the engine
  then has the default budget of the placeholder). A fee that fits the engine's budget and not the
  file's is committed to the file by the engine itself, which leaves a file its own loader takes
  for corrupt; from then on every cycle, of this process or the next, does nothing but report
  \<open>PersistedStateCorrupt\<close>. In the witness the fee is then paid, past the budget of the file.
\<close>

theorem stale_budget_locks_the_file:
  assumes armed: "ce_armed e" and readable: "\<not> rc_corrupt (claim_load_from (cw_disk w))"
    and saved: "save_succeeds env (cw_log w)"
    and over: "rc_max_cycle_fee_budget_mojos (claim_load_from (cw_disk w))
      < u64_sat_add (fw_spent_mojos (bs_window bs)) fee"
    and commit: "precommit_fee env e fee (bs, w) = (bs', w')"
    and later: "ce_armed e''" "cw_disk w'' = cw_disk w'"
  shows "rc_corrupt (claim_load_from (cw_disk w'))
    \<and> run_cycle env' now e'' w'' = (Some [], e''\<lparr>ce_status :=
        (begin_cycle now (ce_status e''))\<lparr>loop_state := PersistedStateCorrupt\<rparr>\<rparr>, w'')"
proof -
  define win where "win = (bs_window bs)\<lparr>fw_spent_mojos := u64_sat_add (fw_spent_mojos (bs_window bs)) fee\<rparr>"
  have "cw_disk w' = ClaimFileParsed (with_window win (claim_load_from (cw_disk w)))"
    using commit armed persist_event [OF armed readable saved, of win]
    by (auto simp: precommit_fee_def Let_def win_def)
  then have "rc_corrupt (claim_load_from (cw_disk w'))"
    using over by (simp add: win_def poisoned_def)
  with corrupt_stops [OF later(1), of w''] later(2) show ?thesis by simp
qed

text \<open>
  The driver started on an unreadable file; the operator then wrote one with a budget of 4000
  mojos. The next cycle pays 5000.
\<close>

definition repaired_file :: claim_file where
  "repaired_file = ClaimFileParsed (claim_config_default\<lparr>rc_max_cycle_fee_budget_mojos := 4000\<rparr>)"

definition stale_engine :: claim_engine where
  "stale_engine = driver_engine ''own'' ''DIG'' (claim_load_from ClaimFileMalformed)"

definition repaired_cycle :: "claim_outcome list option \<times> claim_engine \<times> claim_world" where
  "repaired_cycle = run_cycle sample_claim_env 100000 stale_engine \<lparr>cw_disk = repaired_file, cw_log = []\<rparr>"

lemma repaired_cycle_pays:
  "fst repaired_cycle = Some [Submitted ''L'']
   \<and> EvSubmit ''L'' ''own'' 5000 (Inr ()) \<in> set (cw_log (snd (snd repaired_cycle)))
   \<and> rc_corrupt (claim_load_from (cw_disk (snd (snd repaired_cycle))))"
  by (simp add: repaired_cycle_def repaired_file_def stale_engine_def sample_claim_env_def claim_eval)

theorem stale_budget_locks_the_file_witness:
  "rc_corrupt (claim_load_from (cw_disk (snd (precommit_fee sample_claim_env stale_engine 5000
     (\<lparr>bs_spent_this_cycle_mojos = 0, bs_budget_exhausted = False,
       bs_window = \<lparr>fw_start_unix = Some 100000, fw_spent_mojos = 0, fw_last_completed_at = None\<rparr>\<rparr>,
      \<lparr>cw_disk = repaired_file, cw_log = []\<rparr>)))))
   \<and> EvSubmit ''L'' ''own'' 5000 (Inr ()) \<in> set (cw_log (snd (snd repaired_cycle)))"
proof -
  define bs where "bs = \<lparr>bs_spent_this_cycle_mojos = 0, bs_budget_exhausted = False,
    bs_window = \<lparr>fw_start_unix = Some 100000, fw_spent_mojos = 0, fw_last_completed_at = None\<rparr>\<rparr>"
  define w where "w = \<lparr>cw_disk = repaired_file, cw_log = []\<rparr>"
  have *: "ce_armed stale_engine" "\<not> rc_corrupt (claim_load_from (cw_disk w))"
    "save_succeeds sample_claim_env (cw_log w)"
    "rc_max_cycle_fee_budget_mojos (claim_load_from (cw_disk w))
      < u64_sat_add (fw_spent_mojos (bs_window bs)) 5000"
    by (simp_all add: bs_def w_def repaired_file_def stale_engine_def sample_claim_env_def claim_eval)
  obtain bs' w' where c: "precommit_fee sample_claim_env stale_engine 5000 (bs, w) = (bs', w')"
    by force
  from stale_budget_locks_the_file [OF * c *(1) refl] repaired_cycle_pays c show ?thesis
    unfolding bs_def [symmetric] w_def [symmetric] by simp
qed

end
