(* ===== verification/Claim_Port.thy ===== *)
theory Claim_Port
  imports Claim_Report Wire
begin

text \<open>
  The production adapter of the claim engine's chain port (\<open>rewards_claim/chain_port.rs\<close>), with the
  guarded read of \<open>rewards/chain_source.rs\<close> it goes through, and the launch-comment parser
  (\<open>rewards_claim/parser.rs\<close>).

  The reader of distributors, the payout builder and the broadcaster are third-party or wallet code:
  the record \<open>rewards_chain\<close>, one for every moment of the trace. A task that panics inside them is
  not modelled.
\<close>

section \<open>Launch comments\<close>

definition LAUNCH_PREFIX :: string where "LAUNCH_PREFIX = ''dig-rewards:v1:''"

definition split_once :: "char \<Rightarrow> string \<Rightarrow> (string \<times> string) option" where
  "split_once c s =
     (case dropWhile (\<lambda>d. d \<noteq> c) s of
        [] \<Rightarrow> None
      | _ # rest \<Rightarrow> Some (takeWhile (\<lambda>d. d \<noteq> c) s, rest))"

definition parse_hex32 :: "hex_codec \<Rightarrow> string \<Rightarrow> bytes32 option" where
  "parse_hex32 h s =
     (if length s \<noteq> 64 \<or> \<not> list_all is_ascii_hexdigit s then None else hx_decode h s)"

definition parse_launch_comment ::
  "hex_codec \<Rightarrow> bytes32 \<Rightarrow> string \<Rightarrow> discovered_distributor option"
where
  "parse_launch_comment h launcher_id comment =
     (if \<not> prefix LAUNCH_PREFIX comment then None
      else case split_once (CHR '':'') (drop (length LAUNCH_PREFIX) comment) of
             None \<Rightarrow> None
           | Some (store_hex, root_hex) \<Rightarrow>
               (case (parse_hex32 h store_hex, parse_hex32 h root_hex) of
                  (Some store_id, Some root_hash) \<Rightarrow>
                    Some \<lparr>dd_launcher_id = launcher_id, dd_store_id = store_id, dd_root = root_hash\<rparr>
                | _ \<Rightarrow> None))"

lemma lower_hexdigit_not_colon: "is_lower_hexdigit c \<Longrightarrow> c \<noteq> CHR '':''"
  by (auto simp: is_lower_hexdigit_def)

lemma split_once_first:
  assumes "c \<notin> set s"
  shows "split_once c (s @ c # rest) = Some (s, rest)"
  using assms by (induction s) (auto simp: split_once_def split: list.splits)

text \<open>The comment a launch writes in lower case reads back as what it names.\<close>

lemma launch_comment_roundtrip:
  assumes "hex_laws h" "length store_id = 32" "length root_hash = 32"
  shows "parse_launch_comment h lid
    (LAUNCH_PREFIX @ hx_encode h store_id @ CHR '':'' # hx_encode h root_hash)
    = Some \<lparr>dd_launcher_id = lid, dd_store_id = store_id, dd_root = root_hash\<rparr>"
proof -
  have hex: "parse_hex32 h (hx_encode h bs) = Some bs" if "length bs = 32" for bs
    using assms(1) that lower_hexdigit_ascii
    by (auto simp: hex_laws_def parse_hex32_def list_all_iff)
  have "CHR '':'' \<notin> set (hx_encode h store_id)"
    using assms(1) lower_hexdigit_not_colon by (fastforce simp: hex_laws_def list_all_iff)
  then show ?thesis
    using assms by (simp add: parse_launch_comment_def split_once_first hex)
qed

section \<open>The chain behind the port\<close>

datatype rewards_error = RewardsChainUnavailable | RewardsOther string

datatype guarded_read_error = NonTerminatingEpochSeconds | GuardedReader rewards_error

record entry_slot_value =
  sv_counter :: nat
  sv_accrued :: "nat option"

text \<open>
  What the code reads of a distributor's snapshot: its curried constants, and for a puzzle hash the
  entry slot with the amount \<open>accrued_base_units\<close> computes for it, absent on overflow.
\<close>

record distributor_snapshot =
  ds_reserve_asset_id :: bytes32
  ds_payout_threshold :: nat
  ds_require_payout_approval :: bool
  ds_entry_slot :: "bytes32 \<Rightarrow> rewards_error + entry_slot_value option"

datatype payout_outcome = Paid string | EntrySlotAbsent

record hinted_coin =
  hc_puzzle_hash :: string
  hc_coin_id :: string

record rewards_chain =
  rx_coins_by_hint :: "string + hinted_coin list"
  rx_discover :: "bytes32 \<Rightarrow> rewards_error + (bytes32 \<times> bytes32 \<times> bytes32) option"
  rx_launch_epoch_seconds :: "bytes32 \<Rightarrow> nat option"
  rx_read_distributor :: "bytes32 \<Rightarrow> rewards_error + distributor_snapshot option"
  rx_initiate_payout :: "bytes32 \<Rightarrow> bytes32 \<Rightarrow> rewards_error + payout_outcome"
  rx_finish_spend :: "string \<Rightarrow> string + string"
  rx_broadcast :: "string \<Rightarrow> string + unit"

definition MAX_ERROR_CHARS :: nat where "MAX_ERROR_CHARS = 200"

definition scalar_count :: "string \<Rightarrow> nat" where
  "scalar_count s = length (filter (\<lambda>c. \<not> is_continuation c) s)"

definition bounded :: "string \<Rightarrow> string" where
  "bounded message =
     (if scalar_count message \<le> MAX_ERROR_CHARS then message
      else take_scalars MAX_ERROR_CHARS message @ ''... (truncated)'')"

fun rewards_error_to_claim_port_error :: "rewards_error \<Rightarrow> claim_port_error" where
  "rewards_error_to_claim_port_error RewardsChainUnavailable = PortUnavailable"
| "rewards_error_to_claim_port_error (RewardsOther text) = PortOther (bounded text)"

fun guarded_read_error_to_claim_port_error :: "guarded_read_error \<Rightarrow> claim_port_error" where
  "guarded_read_error_to_claim_port_error NonTerminatingEpochSeconds =
     PortOther (bounded (''refused: this distributor's epoch_seconds is 0, which would hang ''
       @ ''commit_incentives's generation walk (see chain_source.rs's module doc)''))"
| "guarded_read_error_to_claim_port_error (GuardedReader RewardsChainUnavailable) = PortUnavailable"
| "guarded_read_error_to_claim_port_error (GuardedReader (RewardsOther text)) = PortOther (bounded text)"

definition read_distributor_guarded ::
  "rewards_chain \<Rightarrow> bytes32 \<Rightarrow> guarded_read_error + distributor_snapshot option"
where
  "read_distributor_guarded rx launcher_id =
     (if rx_launch_epoch_seconds rx launcher_id = Some 0 then Inl NonTerminatingEpochSeconds
      else case rx_read_distributor rx launcher_id of
             Inl err \<Rightarrow> Inl (GuardedReader err)
           | Inr snapshot \<Rightarrow> Inr snapshot)"

text \<open>The read every method starts with: an unspent launcher is an error with a name.\<close>

definition read_snapshot :: "rewards_chain \<Rightarrow> bytes32 \<Rightarrow> claim_port_error + distributor_snapshot" where
  "read_snapshot rx launcher_id =
     (case read_distributor_guarded rx launcher_id of
        Inl err \<Rightarrow> Inl (guarded_read_error_to_claim_port_error err)
      | Inr None \<Rightarrow> Inl (PortOther (bounded ''not a distributor: launcher coin unspent''))
      | Inr (Some snapshot) \<Rightarrow> Inr snapshot)"

definition resolve_via_chain ::
  "rewards_chain \<Rightarrow> bytes32 \<Rightarrow> claim_port_error + discovered_distributor option"
where
  "resolve_via_chain rx launcher_id =
     (case rx_discover rx launcher_id of
        Inl err \<Rightarrow> Inl (rewards_error_to_claim_port_error err)
      | Inr None \<Rightarrow> Inr None
      | Inr (Some (lid, store_id, root_hash)) \<Rightarrow>
          Inr (Some \<lparr>dd_launcher_id = lid, dd_store_id = store_id, dd_root = root_hash\<rparr>))"

text \<open>The index: the coins with the launcher's puzzle hash whose ids are 32 bytes of hex.\<close>

definition launcher_ids :: "hex_codec \<Rightarrow> string \<Rightarrow> rewards_chain \<Rightarrow> claim_port_error + bytes32 list" where
  "launcher_ids h launcher_hash rx =
     (case rx_coins_by_hint rx of
        Inl text \<Rightarrow> Inl (PortOther (bounded text))
      | Inr coins \<Rightarrow>
          Inr (List.map_filter (\<lambda>coin.
            case hx_decode h (hc_coin_id coin) of
              Some bytes \<Rightarrow> if length bytes = 32 then Some bytes else None
            | None \<Rightarrow> None)
            (filter (\<lambda>coin. hc_puzzle_hash coin = hx_encode h launcher_hash) coins)))"

fun verify_ids ::
  "rewards_chain \<Rightarrow> bytes32 list \<Rightarrow> claim_port_error + discovered_distributor list"
where
  "verify_ids rx [] = Inr []"
| "verify_ids rx (launcher_id # ids) =
     (case resolve_via_chain rx launcher_id of
        Inl err \<Rightarrow> Inl err
      | Inr found \<Rightarrow>
          (case verify_ids rx ids of
             Inl err \<Rightarrow> Inl err
           | Inr ds \<Rightarrow> Inr (case found of None \<Rightarrow> ds | Some d \<Rightarrow> d # ds)))"

definition real_discover :: "hex_codec \<Rightarrow> string \<Rightarrow> rewards_chain \<Rightarrow> claim_port_error + discovered_distributor list" where
  "real_discover h launcher_hash rx =
     (case launcher_ids h launcher_hash rx of
        Inl err \<Rightarrow> Inl err
      | Inr ids \<Rightarrow> verify_ids rx ids)"

definition real_reserve_asset_id :: "rewards_chain \<Rightarrow> bytes32 \<Rightarrow> claim_port_error + bytes32" where
  "real_reserve_asset_id rx launcher_id = map_sum id ds_reserve_asset_id (read_snapshot rx launcher_id)"

definition real_payout_threshold :: "rewards_chain \<Rightarrow> bytes32 \<Rightarrow> claim_port_error + nat" where
  "real_payout_threshold rx launcher_id = map_sum id ds_payout_threshold (read_snapshot rx launcher_id)"

definition own_entry_from_slot ::
  "bytes32 \<Rightarrow> entry_slot_value option \<Rightarrow> claim_port_error + own_entry option"
where
  "own_entry_from_slot payout_hash slot =
     (case slot of
        None \<Rightarrow> Inr None
      | Some v \<Rightarrow>
          (case sv_accrued v of
             Some accrued \<Rightarrow>
               Inr (Some \<lparr>oe_payout_puzzle_hash = payout_hash, oe_counter = sv_counter v,
                          oe_accrued_base_units = accrued\<rparr>)
           | None \<Rightarrow>
               Inl (PortOther (bounded
                 ''accrued amount overflowed the puzzle's arithmetic; refusing rather than reporting 0''))))"

definition real_own_entry ::
  "rewards_chain \<Rightarrow> bytes32 \<Rightarrow> bytes32 \<Rightarrow> claim_port_error + own_entry option"
where
  "real_own_entry rx launcher_id payout_hash =
     (case read_snapshot rx launcher_id of
        Inl err \<Rightarrow> Inl err
      | Inr snapshot \<Rightarrow>
          (case ds_entry_slot snapshot payout_hash of
             Inl err \<Rightarrow> Inl (rewards_error_to_claim_port_error err)
           | Inr slot \<Rightarrow> own_entry_from_slot payout_hash slot))"

definition real_submit ::
  "rewards_chain \<Rightarrow> bytes32 \<Rightarrow> bytes32 \<Rightarrow> nat \<Rightarrow> claim_port_error + unit"
where
  "real_submit rx launcher_id payout_hash fee_mojos =
     (if fee_mojos \<noteq> 0
      then Inl (PortOther (bounded (''this adapter attaches no fee coin; required_fee_mojos is 0 ''
             @ ''and a non-zero fee cannot be paid here'')))
      else case read_snapshot rx launcher_id of
        Inl err \<Rightarrow> Inl err
      | Inr snapshot \<Rightarrow>
          if ds_require_payout_approval snapshot
          then Inl (PortOther (bounded (''refused: distributor curries require_payout_approval = true; this adapter ''
                 @ ''carries no approval message (it drops initiate_payout's returned conditions), ''
                 @ ''so the bundle it would build is one the chain rejects after reporting Paid'')))
          else (case rx_initiate_payout rx launcher_id payout_hash of
             Inl err \<Rightarrow> Inl (rewards_error_to_claim_port_error err)
           | Inr EntrySlotAbsent \<Rightarrow>
               Inl (PortOther (bounded (''entry slot absent at submission; the entry set moved ''
                 @ ''between own_entry and submit'')))
           | Inr (Paid spends) \<Rightarrow>
               (case rx_finish_spend rx spends of
                  Inl text \<Rightarrow> Inl (PortOther (bounded text))
                | Inr spend_bundle \<Rightarrow>
                    (case rx_broadcast rx spend_bundle of
                       Inl text \<Rightarrow> Inl (PortOther (bounded (''broadcast refused: '' @ text)))
                     | Inr u \<Rightarrow> Inr u))))"

text \<open>The engine's environment in production: no hints, no fee, the chain of the moment.\<close>

definition real_claim_env ::
  "hex_codec \<Rightarrow> string \<Rightarrow> (claim_event list \<Rightarrow> rewards_chain) \<Rightarrow> (claim_event list \<Rightarrow> bool) \<Rightarrow> claim_env"
where
  "real_claim_env h launcher_hash chain saves =
     \<lparr>discover_distributors = (\<lambda>l. real_discover h launcher_hash (chain l)), hints_of = (\<lambda>_. []),
      resolve_launch_comment = (\<lambda>l. resolve_via_chain (chain l)),
      reserve_asset_id = (\<lambda>l. real_reserve_asset_id (chain l)),
      own_entry_of = (\<lambda>l. real_own_entry (chain l)),
      payout_threshold_of = (\<lambda>l. real_payout_threshold (chain l)),
      required_fee_mojos = (\<lambda>_ _. Inr 0),
      submit_initiate_payout = (\<lambda>l. real_submit (chain l)), save_succeeds = saves\<rparr>"

section \<open>What the adapter may submit\<close>

text \<open>The index proposes; only what the chain's own decode confirms is a candidate.\<close>

lemma discovered_is_decoded:
  assumes "real_discover h launcher_hash rx = Inr ds" "d \<in> set ds"
  shows "\<exists>lid. rx_discover rx lid = Inr (Some (dd_launcher_id d, dd_store_id d, dd_root d))"
proof -
  have "verify_ids rx ids = Inr ds \<Longrightarrow> d \<in> set ds \<Longrightarrow>
      \<exists>lid. rx_discover rx lid = Inr (Some (dd_launcher_id d, dd_store_id d, dd_root d))" for ids ds
  proof (induction ids arbitrary: ds)
    case (Cons lid ids)
    then show ?case
      by (auto simp: resolve_via_chain_def split: sum.splits option.splits prod.splits) blast+
  qed simp
  with assms show ?thesis by (auto simp: real_discover_def split: sum.splits)
qed

text \<open>An accepted submission cost nothing and was broadcast for a distributor that needs no approval.\<close>

lemma real_submit_accepted:
  assumes "real_submit rx lid h fee = Inr u"
  shows "fee = 0 \<and> rx_launch_epoch_seconds rx lid \<noteq> Some 0
    \<and> (\<exists>snapshot spends spend_bundle. rx_read_distributor rx lid = Inr (Some snapshot)
         \<and> \<not> ds_require_payout_approval snapshot
         \<and> rx_initiate_payout rx lid h = Inr (Paid spends)
         \<and> rx_finish_spend rx spends = Inr spend_bundle \<and> rx_broadcast rx spend_bundle = Inr ())"
proof -
  have fee: "fee = 0" using assms by (simp add: real_submit_def split: if_splits)
  obtain snapshot where s: "read_snapshot rx lid = Inr snapshot"
    using assms by (auto simp: real_submit_def split: if_splits sum.splits)
  then have "rx_launch_epoch_seconds rx lid \<noteq> Some 0" "rx_read_distributor rx lid = Inr (Some snapshot)"
    by (auto simp: read_snapshot_def read_distributor_guarded_def
        split: if_splits sum.splits option.splits)
  then show ?thesis
    using assms fee s by (auto simp: real_submit_def split: if_splits sum.splits payout_outcome.splits)
qed

end
