(* ===== verification/Spec2Isabelle.thy ===== *)
theory Spec2Isabelle
  imports Rate_Limit Inbound_Demand Subscription Holder_Cache Address_Book Miss_Correct Landing Quorum
    Reward_Challenge Entry_Writes Prover_Status Funded_Registry
    Mirror_Run Mirror_States Mirror_Schedule Operator_Trust Collateral_Funding Collateral_Census
    Claim_Port
begin

text \<open>
  A verification development of the DIG node: a peer-to-peer node that stores content capsules, answers
  peers' requests for them, finds them on other peers when it does not hold them, pays mirrors that prove
  they hold content, and bonds the content it holds itself with collateral on the Chia chain.

  \<^bold>\<open>The parts of the program and the theories that model them\<close> (files under
  \<open>crates/dig-node-core/src\<close> unless another crate is named):

  \<^item> \<open>Prelude\<close>: the fragments of Rust the code is written in (maps as association lists, saturating and
    checked integers, strings as bytes, \<open>BTreeMap\<close> insertion). \<open>Contracts\<close>: the interfaces several components
    share, as locales: a bounded table and a metered budget.
  \<^item> \<open>Rate_Limit\<close> (\<open>rate_limit.rs\<close>): the token bucket per requestor and the bounded table of buckets.
  \<^item> \<open>Inbound_Demand\<close> (\<open>inbound_demand.rs\<close>): the bounded least-recently-demanded ledger of what peers asked for.
  \<^item> \<open>Subscription\<close> (\<open>subscription.rs\<close>): the persisted set of subscribed stores.
  \<^item> \<open>Holder_Cache\<close> (\<open>seams/dig_peer/holder_cache.rs\<close>): the time-to-live map under the cache of known holders and
    under the set of questions already asked. \<open>Address_Book\<close>: the candidates a peer can be dialled at.
  \<^item> \<open>Wire\<close>, \<open>Forwarded_Ask\<close>, \<open>Request\<close>: content ids and questions as they travel, the hop and time budget, the
    reading of every possible answer.
  \<^item> \<open>Pool\<close>, \<open>Peer_Standing\<close>: connected peers and what is remembered of their conduct.
  \<^item> \<open>Range_Serve\<close>: frames and windows in which content is served.
  \<^item> \<open>Miss_Path\<close>, \<open>Miss_Facts\<close>, \<open>Miss_Correct\<close> (\<open>download.rs\<close>): what the node does for content it does not hold: it
    refuses a requestor over its rate, searches, asks peers, fetches for local users, redirects others.
  \<^item> \<open>Landing\<close> (\<open>seams/dig_peer/module_reshare.rs\<close>, \<open>module_relay.rs\<close>, \<open>seams/capsule/capsule_store.rs\<close>, \<open>lib.rs\<close>,
    \<open>seams/dig_rpc/dispatch.rs\<close>): what the handlers around a read start - whole-capsule pulls - and whether
    the capsule that lands counts as the operator's or as kept for somebody else.
  \<^item> \<open>Reward_Admission\<close>, \<open>Reward_Challenge\<close>, \<open>Entry_Writes\<close>, \<open>Prover_Status\<close>, \<open>Funded_Registry\<close> (\<open>rewards/\<close>): which mirrors
    are paid, how they are challenged, what is written on chain and how often, and the record of distributors.
  \<^item> The mirror engine of the service (\<open>crates/dig-node-service/src/mirror\<close>): \<open>Mirror_Plan\<close> (what disk and chain
    call for), \<open>Mirror_Advertise\<close> (the URLs a bond may carry), \<open>Mirror_Schedule\<close> (when URLs are reconciled),
    \<open>Mirror_Reconcile\<close> (which bonds are then replaced), \<open>Mirror_Pass\<close> (the decision of one pass),
    \<open>Mirror_States\<close> (the pages of bond states), \<open>Mirror_Funding\<close> (the coins a create is paid with and the alerts of
    the operator), \<open>Mirror_Presence\<close> (the debounce of the disk), \<open>Mirror_Resolve\<close> (settling past spends),
    \<open>Mirror_Run\<close> (a whole pass). \<open>Spend_Audit\<close> (\<open>spend_audit.rs\<close> of the service): the append-only record of every
    automated spend, which the mirror engine writes and reads.
  \<^item> The gates of the service (\<open>crates/dig-node-service/src\<close>): \<open>Credentials\<close> (\<open>control.rs\<close>, \<open>meta.rs\<close>: comparing tokens,
    the tiers of control methods, error envelopes), \<open>Pairing\<close> (\<open>pairing.rs\<close>: the handshake that gives a client its own
    token, and the file of tokens under concurrent writers), \<open>Authorization\<close> (\<open>wallet_authz.rs\<close>, \<open>relay.rs\<close>, \<open>server.rs\<close>: the
    three doors and every gate behind them), \<open>Operator_Trust\<close> (\<open>untrusted_text.rs\<close>, \<open>security.rs\<close>, \<open>state.rs\<close>: what an
    operator is shown, which files and directories are trusted, where the control token comes from).
  \<^item> The collateral records of the service: \<open>Collateral_Store\<close> (\<open>collateral.rs\<close>: which record may take the place of
    another, and the append-only file byte by byte), \<open>Collateral_Funding\<close> (the requirement in force, the funding
    advice, the bring-up), \<open>Collateral_Sync\<close> (\<open>collateral_sync.rs\<close>: what a sample of untrusted peers may carry),
    \<open>Collateral_Census\<close> (\<open>collateral_census.rs\<close>: the walk that derives one epoch from the last).
  \<^item> The rewards claim loop of the service (\<open>rewards_claim/\<close>): \<open>Claim_Engine\<close> (one cycle: gate, fee window, discovery,
    evaluation, order, budget, status), \<open>Claim_Driver\<close> (the schedule, the start of the loop, and the lives of the
    process over crashes and restarts), \<open>Claim_Budget\<close> (the fee window over such lives), \<open>Claim_Correct\<close> (what a
    cycle may pay, to whom and in which order), \<open>Claim_Report\<close> (what its status may say), \<open>Claim_Port\<close> (the adapter to
    the chain and the launch comments).
  \<^item> \<open>Quorum\<close> (\<open>crates/dig-wallet/src/sage/quorum.rs\<close>): which peers a light client asks, at which height, and when
    their answers corroborate one another.

  \<^bold>\<open>How state and operations correspond\<close>: a struct is a \<open>record\<close>, an enum a \<open>datatype\<close>, a method is a function
  that takes the state and returns it changed; a loop is a recursive function over what it iterates; an early
  return and an error are branches of a sum or an option. Unchecked arithmetic that would overflow panics in
  this program, and is \<open>None\<close> here. Times are naturals passed in. Definitions keep the names of the code, with
  a prefix where a name is used twice.

  \<^bold>\<open>What the lemmas show\<close>: each component has its invariant and what every operation does to it; the bounds of
  the tables and of the budgets over whole runs; refinement of abstract specifications (the demand ledger is a
  bounded recency list, the ask set, its two locks and all, an ideal set of recent claims, the registry a map that only grows, the
  presence tracker the history of scans, the record store of each epoch a ladder that is only climbed); what a serve delivers, window by window; that absence is never
  claimed without a search of one's own; that no request of a stranger makes the operator a holder; that money is spent only where disk, chain and record justify it, that
  what the operator and the record say of it is what happened, and that reclaims are never withheld. The
  theorems about the whole miss path and the whole mirror pass compose those of their components.

  \<^bold>\<open>Concurrency\<close>: where the code does not hold one lock over a read and the write that follows, the two are separate steps and
  the theorems range over their interleavings: the ask set, the file of issued tokens, the landing of a
  capsule, the spend handles and a crash between any two of their writes. Every other operation is one step.

  \<^bold>\<open>Loops\<close>: every loop of the code is total in the model; none uses fuel, except the search for a fresh
  challenge window, which the code itself bounds, and the redirect chain, whose bound is the hop cap.

  \<^bold>\<open>Parameters\<close>: code that is not part of the repository is an argument of the definitions that use it, with what
  is relied on as named hypotheses: the DHT walk and record expiry (dig-dht), the transport, the clock, the
  random draws of a challenge, the file system and JSON codecs (each read or write may fail), the \<open>url\<close> crate, the
  STUN rule, the controller of the collateral price, the chain source and the puzzle drivers, the chain port of the
  claim engine, and the effects of a pass.

  \<^bold>\<open>Not modelled\<close>: the routes, the control handlers and the JSON-RPC table behind the modelled gates; the
  peer sessions and the module transport (asynchronous sockets); chain adapters, spend building and signing
  (external drivers); keys and encryption at rest; the wallet's database and its RPC; installer and command line.

  \<^bold>\<open>Plan\<close>: bandwidth caps, the union of the provider locators, the
  routing rules of the wallet, the corroborated chain resolver.
\<close>

end
